(* ===== verification/Prelude.thy ===== *)
theory Prelude
  imports Main "HOL-Library.Word" "HOL-Library.Monad_Syntax"
begin

unbundle bit_operations_syntax

text \<open>
  Shared vocabulary of the development: the machine integer types of \<^verbatim>\<open>rtdef.h\<close>, the error
  codes of the kernel, the alignment macros, run-time assertions, array accesses that fail out of
  range, and the generic lemmas on options, lists and words that the component theories use.

  Every operation that can stop the system (a failing \<^verbatim>\<open>RT_ASSERT\<close>, an access outside an array,
  a read through a null pointer) is modelled in the option monad: \<open>None\<close> is "the call does not
  return", because \<^verbatim>\<open>rt_assert_handler\<close> spins forever when no hook is installed.
\<close>

section \<open>Collections of rewrite rules\<close>

named_theorems rt_simps \<open>unfolding rules of the small accessors of the model\<close>
named_theorems rt_frame \<open>what an operation leaves unchanged\<close>

section \<open>Machine integers and error codes\<close>

type_synonym u8 = "8 word"
type_synonym u16 = "16 word"
type_synonym u32 = "32 word"

abbreviation (input) RT_EOK :: int where "RT_EOK \<equiv> 0"
abbreviation (input) RT_ERROR :: int where "RT_ERROR \<equiv> 1"
abbreviation (input) RT_ETIMEOUT :: int where "RT_ETIMEOUT \<equiv> 2"
abbreviation (input) RT_EFULL :: int where "RT_EFULL \<equiv> 3"
abbreviation (input) RT_EEMPTY :: int where "RT_EEMPTY \<equiv> 4"
abbreviation (input) RT_ENOMEM :: int where "RT_ENOMEM \<equiv> 5"
abbreviation (input) RT_ENOSYS :: int where "RT_ENOSYS \<equiv> 6"
abbreviation (input) RT_EBUSY :: int where "RT_EBUSY \<equiv> 7"
abbreviation (input) RT_EINVAL :: int where "RT_EINVAL \<equiv> 10"

text \<open>\<^verbatim>\<open>RT_ALIGN\<close> and \<^verbatim>\<open>RT_ALIGN_DOWN\<close>, on 32-bit values as the macros compute them.\<close>

definition RT_ALIGN :: "u32 \<Rightarrow> u32 \<Rightarrow> u32" where
  "RT_ALIGN sz align = (sz + align - 1) AND NOT (align - 1)"

definition RT_ALIGN_DOWN :: "u32 \<Rightarrow> u32 \<Rightarrow> u32" where
  "RT_ALIGN_DOWN sz align = sz AND NOT (align - 1)"

section \<open>Assertions and array accesses\<close>

definition rt_assert :: "bool \<Rightarrow> unit option" where
  "rt_assert b = (if b then Some () else None)"

text \<open>Reading and writing \<open>n\<close> consecutive cells of an array; \<open>None\<close> outside its bounds.\<close>

definition arr_read :: "'a list \<Rightarrow> nat \<Rightarrow> nat \<Rightarrow> 'a list option" where
  "arr_read xs i n = (if i + n \<le> length xs then Some (take n (drop i xs)) else None)"

definition arr_write :: "'a list \<Rightarrow> nat \<Rightarrow> 'a list \<Rightarrow> 'a list option" where
  "arr_write xs i ys =
     (if i + length ys \<le> length xs then Some (take i xs @ ys @ drop (i + length ys) xs) else None)"

definition arr_get :: "'a list \<Rightarrow> nat \<Rightarrow> 'a option" where
  "arr_get xs i = (if i < length xs then Some (xs ! i) else None)"

definition arr_set :: "'a list \<Rightarrow> nat \<Rightarrow> 'a \<Rightarrow> 'a list option" where
  "arr_set xs i x = (if i < length xs then Some (xs[i := x]) else None)"

definition list_first :: "'a list \<Rightarrow> 'a option" where
  "list_first xs = (case xs of [] \<Rightarrow> None | x # _ \<Rightarrow> Some x)"

section \<open>Option monad\<close>

lemma rt_assert_simps [simp]:
  "rt_assert b = Some u \<longleftrightarrow> b" "rt_assert b = None \<longleftrightarrow> \<not> b"
  "rt_assert True = Some ()" "rt_assert False = None"
  by (auto simp: rt_assert_def)

lemma rt_assert_bind [simp]: "(rt_assert b \<bind> f) = (if b then f () else None)"
  by (simp add: rt_assert_def)

lemma bind_Some_iff: "(m \<bind> f) = Some y \<longleftrightarrow> (\<exists>x. m = Some x \<and> f x = Some y)"
  by (cases m) auto

lemma bind_SomeE:
  assumes "(m \<bind> f) = Some y"
  obtains x where "m = Some x" "f x = Some y"
  using assms by (auto simp: bind_Some_iff)

lemma if_None_iff [simp]:
  "(if b then m else None) = Some y \<longleftrightarrow> b \<and> m = Some y"
  "(if b then None else m) = Some y \<longleftrightarrow> \<not> b \<and> m = Some y"
  by auto

section \<open>Lists\<close>

lemma list_first_simps [simp]:
  "list_first [] = None" "list_first (x # xs) = Some x"
  by (simp_all add: list_first_def)

lemma list_first_Some_iff: "list_first xs = Some x \<longleftrightarrow> (\<exists>ys. xs = x # ys)"
  by (cases xs) auto

lemma list_first_None_iff [simp]: "list_first xs = None \<longleftrightarrow> xs = []"
  by (cases xs) auto

lemma length_arr_write: "arr_write xs i ys = Some zs \<Longrightarrow> length zs = length xs"
  by (auto simp: arr_write_def split: if_splits)

lemma arr_set_eq_write: "arr_set xs i x = arr_write xs i [x]"
proof (cases "i < length xs")
  case True
  have "xs[i := x] = take i xs @ x # drop (Suc i) xs"
    by (rule upd_conv_take_nth_drop [OF True])
  with True show ?thesis
    unfolding arr_set_def arr_write_def by (metis Suc_eq_plus1 Suc_leI append_Cons append_Nil
        length_Cons list.size(3) One_nat_def)
qed (simp add: arr_set_def arr_write_def)

section \<open>Words\<close>

lemma mask_three_word: "(3 :: u32) = mask 2"
  by (simp add: mask_eq_exp_minus_1)

lemma and_not_mask_word:
  fixes x :: "'a::len word"
  shows "unat (x AND NOT (mask n)) = unat x div 2 ^ n * 2 ^ n"
proof -
  have "x AND NOT (mask n) = push_bit n (drop_bit n x)"
    by (rule bit_word_eqI) (auto simp: bit_simps)
  then have "unat (x AND NOT (mask n)) = take_bit LENGTH('a) (push_bit n (unat (drop_bit n x)))"
    by (simp only: unsigned_push_bit_eq)
  also have "\<dots> = take_bit LENGTH('a) (unat x div 2 ^ n * 2 ^ n)"
    by (simp only: unat_drop_bit_eq push_bit_eq_mult) (simp only: drop_bit_eq_div)
  also have "\<dots> = unat x div 2 ^ n * 2 ^ n"
    using unsigned_less [of x] div_times_less_eq_dividend [of "unat x" "2 ^ n"]
    by (intro take_bit_nat_eq_self) (rule le_less_trans)
  finally show ?thesis .
qed

end
