(* ===== verification/Fifo.thy ===== *)
theory Fifo
  imports Prelude
begin

text \<open>
  The contract of a bounded first-in first-out queue, shared by the ring buffer, the mailbox and
  the message queue: \<open>contents\<close> reads the abstract queue off a concrete state, \<open>put\<close> appends one
  element that \<open>fits\<close> unless the queue is full, \<open>get\<close> removes the oldest one unless it is empty. The lemmas
  about runs of puts and gets are proved once here and obtained by every interpretation.
\<close>

fun put_list :: "('s \<Rightarrow> 'a \<Rightarrow> 's option) \<Rightarrow> 's \<Rightarrow> 'a list \<Rightarrow> 's option" where
  "put_list put s [] = Some s"
| "put_list put s (x # xs) = do { s' \<leftarrow> put s x; put_list put s' xs }"

fun get_n :: "('s \<Rightarrow> ('a \<times> 's) option) \<Rightarrow> 's \<Rightarrow> nat \<Rightarrow> ('a list \<times> 's) option" where
  "get_n get s 0 = Some ([], s)"
| "get_n get s (Suc n) = do { (x, s') \<leftarrow> get s; (xs, s'') \<leftarrow> get_n get s' n; Some (x # xs, s'') }"

locale bounded_fifo =
  fixes inv :: "'s \<Rightarrow> bool"
    and fits :: "'a \<Rightarrow> bool"
    and contents :: "'s \<Rightarrow> 'a list"
    and capacity :: "'s \<Rightarrow> nat"
    and put :: "'s \<Rightarrow> 'a \<Rightarrow> 's option"
    and get :: "'s \<Rightarrow> ('a \<times> 's) option"
  assumes put_room: "inv s \<Longrightarrow> fits x \<Longrightarrow> length (contents s) < capacity s \<Longrightarrow>
      \<exists>s'. put s x = Some s' \<and> inv s' \<and> contents s' = contents s @ [x] \<and> capacity s' = capacity s"
    and put_full: "inv s \<Longrightarrow> fits x \<Longrightarrow> length (contents s) = capacity s \<Longrightarrow> put s x = None"
    and get_some: "inv s \<Longrightarrow> contents s = x # xs \<Longrightarrow>
      \<exists>s'. get s = Some (x, s') \<and> inv s' \<and> contents s' = xs \<and> capacity s' = capacity s"
    and get_empty: "inv s \<Longrightarrow> contents s = [] \<Longrightarrow> get s = None"
    and bounded: "inv s \<Longrightarrow> length (contents s) \<le> capacity s"
begin

lemma put_list_contents:
  "inv s \<Longrightarrow> \<forall>x \<in> set xs. fits x \<Longrightarrow> length (contents s) + length xs \<le> capacity s \<Longrightarrow>
   \<exists>s'. put_list put s xs = Some s' \<and> inv s' \<and> contents s' = contents s @ xs
        \<and> capacity s' = capacity s"
proof (induction xs arbitrary: s)
  case Nil
  then show ?case by simp
next
  case (Cons x xs)
  then have "length (contents s) < capacity s" by simp
  then obtain s1 where 1: "put s x = Some s1" "inv s1" "contents s1 = contents s @ [x]"
      "capacity s1 = capacity s"
    using put_room [OF Cons.prems(1), of x] Cons.prems(2) by auto
  with Cons.prems have "length (contents s1) + length xs \<le> capacity s1" by simp
  from Cons.IH [OF 1(2) _ this] 1 Cons.prems(2) show ?case by auto
qed

lemma get_n_contents:
  "inv s \<Longrightarrow> n \<le> length (contents s) \<Longrightarrow>
   \<exists>s'. get_n get s n = Some (take n (contents s), s') \<and> inv s'
        \<and> contents s' = drop n (contents s) \<and> capacity s' = capacity s"
proof (induction n arbitrary: s)
  case 0
  then show ?case by simp
next
  case (Suc n)
  from Suc.prems(2) obtain x xs where c: "contents s = x # xs" by (cases "contents s") auto
  from get_some [OF Suc.prems(1) c] obtain s1 where
    1: "get s = Some (x, s1)" "inv s1" "contents s1 = xs" "capacity s1 = capacity s" by blast
  with Suc.prems(2) c have "n \<le> length (contents s1)" by simp
  from Suc.IH [OF 1(2) this] 1 c show ?case by auto
qed

lemma put_then_get_all:
  assumes "inv s" and "\<forall>x \<in> set xs. fits x" and "contents s = []" and "length xs \<le> capacity s"
  shows "\<exists>s' s''. put_list put s xs = Some s' \<and> get_n get s' (length xs) = Some (xs, s'')
                  \<and> contents s'' = []"
proof -
  from assms obtain s' where s': "put_list put s xs = Some s'" "inv s'" "contents s' = xs"
    using put_list_contents [of s xs] by auto
  from get_n_contents [OF s'(2), of "length xs"] s' show ?thesis by auto
qed

lemma put_full_iff: "inv s \<Longrightarrow> fits x \<Longrightarrow> put s x = None \<longleftrightarrow> length (contents s) = capacity s"
  using put_room [of s x] put_full [of s x] bounded [of s] by (metis le_neq_implies_less option.distinct(1))

end

end
