(* ===== verification/RingBuffer.thy ===== *)
theory RingBuffer
  imports Fifo
begin

text \<open>
  The byte ring buffer of \<^verbatim>\<open>components/drivers/src/ringbuffer.c\<close>, which the serial driver uses
  for its receive FIFO. The state is \<^verbatim>\<open>struct rt_ringbuffer\<close>: the pool the pointer
  \<^verbatim>\<open>buffer_ptr\<close> names is the list \<open>buffer\<close>, the one-bit mirror fields are booleans, the 15-bit
  indices are naturals stored modulo \<open>2 ^ 15\<close>, and \<open>buffer_size\<close> is the signed size.
  A memory access outside the pool or outside the caller's array is \<open>None\<close>.
\<close>

section \<open>Definitions\<close>

record rt_ringbuffer =
  buffer :: "u8 list"
  read_mirror :: bool
  read_index :: nat
  write_mirror :: bool
  write_index :: nat
  buffer_size :: int

datatype rt_ringbuffer_state =
  RT_RINGBUFFER_EMPTY | RT_RINGBUFFER_FULL | RT_RINGBUFFER_HALFFULL

definition idx15 :: "int \<Rightarrow> nat" where
  "idx15 i = nat (i mod 2 ^ 15)"

definition size32 :: "int \<Rightarrow> nat" where
  "size32 i = nat (i mod 2 ^ 32)"

definition rt_ringbuffer_status :: "rt_ringbuffer \<Rightarrow> rt_ringbuffer_state" where
  "rt_ringbuffer_status rb =
     (if read_index rb = write_index rb then
        (if read_mirror rb = write_mirror rb then RT_RINGBUFFER_EMPTY else RT_RINGBUFFER_FULL)
      else RT_RINGBUFFER_HALFFULL)"

definition rt_ringbuffer_init :: "u8 list \<Rightarrow> int \<Rightarrow> rt_ringbuffer option" where
  "rt_ringbuffer_init pool sz = do {
     rt_assert (sz > 0);
     Some \<lparr>buffer = pool, read_mirror = False, read_index = 0, write_mirror = False,
           write_index = 0, buffer_size = uint (RT_ALIGN_DOWN (word_of_int sz) 4)\<rparr>
   }"

definition rt_ringbuffer_data_len :: "rt_ringbuffer \<Rightarrow> nat" where
  "rt_ringbuffer_data_len rb =
     (case rt_ringbuffer_status rb of
        RT_RINGBUFFER_EMPTY \<Rightarrow> 0
      | RT_RINGBUFFER_FULL \<Rightarrow> size32 (buffer_size rb)
      | RT_RINGBUFFER_HALFFULL \<Rightarrow>
          (if write_index rb > read_index rb then write_index rb - read_index rb
           else size32 (buffer_size rb - (int (read_index rb) - int (write_index rb)))))"

definition rt_ringbuffer_space_len :: "rt_ringbuffer \<Rightarrow> nat" where
  "rt_ringbuffer_space_len rb = size32 (buffer_size rb - int (rt_ringbuffer_data_len rb))"

definition rt_ringbuffer_put :: "rt_ringbuffer \<Rightarrow> u8 list \<Rightarrow> nat \<Rightarrow> (nat \<times> rt_ringbuffer) option" where
  "rt_ringbuffer_put rb ptr length0 =
     (let sz = rt_ringbuffer_space_len rb mod 2 ^ 16 in
      if sz = 0 then Some (0, rb)
      else
        let len = (if sz < length0 then sz else length0) in
        if buffer_size rb - int (write_index rb) > int len then do {
          src \<leftarrow> arr_read ptr 0 len;
          buf \<leftarrow> arr_write (buffer rb) (write_index rb) src;
          Some (len, rb\<lparr>buffer := buf, write_index := idx15 (int (write_index rb) + int len)\<rparr>)
        }
        else do {
          let rest = buffer_size rb - int (write_index rb);
          src1 \<leftarrow> arr_read ptr 0 (size32 rest);
          buf1 \<leftarrow> arr_write (buffer rb) (write_index rb) src1;
          src2 \<leftarrow> arr_read ptr (size32 rest) (size32 (int len - rest));
          buf2 \<leftarrow> arr_write buf1 0 src2;
          Some (len, rb\<lparr>buffer := buf2, write_mirror := \<not> write_mirror rb,
                        write_index := idx15 (int len - rest)\<rparr>)
        })"

definition rt_ringbuffer_put_force ::
    "rt_ringbuffer \<Rightarrow> u8 list \<Rightarrow> nat \<Rightarrow> (nat \<times> rt_ringbuffer) option" where
  "rt_ringbuffer_put_force rb ptr0 length0 =
     (let space_length = rt_ringbuffer_space_len rb mod 2 ^ 16;
          ptr = (if int length0 > buffer_size rb
                 then drop (nat (int length0 - buffer_size rb)) ptr0 else ptr0);
          len = (if int length0 > buffer_size rb then nat (buffer_size rb mod 2 ^ 16) else length0) in
      if buffer_size rb - int (write_index rb) > int len then do {
        src \<leftarrow> arr_read ptr 0 len;
        buf \<leftarrow> arr_write (buffer rb) (write_index rb) src;
        let w = idx15 (int (write_index rb) + int len);
        let rb1 = rb\<lparr>buffer := buf, write_index := w\<rparr>;
        Some (len, if len > space_length then rb1\<lparr>read_index := w\<rparr> else rb1)
      }
      else do {
        let rest = buffer_size rb - int (write_index rb);
        src1 \<leftarrow> arr_read ptr 0 (size32 rest);
        buf1 \<leftarrow> arr_write (buffer rb) (write_index rb) src1;
        src2 \<leftarrow> arr_read ptr (size32 rest) (size32 (int len - rest));
        buf2 \<leftarrow> arr_write buf1 0 src2;
        let w = idx15 (int len - rest);
        let rb1 = rb\<lparr>buffer := buf2, write_mirror := \<not> write_mirror rb, write_index := w\<rparr>;
        Some (len, if len > space_length
                   then rb1\<lparr>read_mirror := \<not> read_mirror rb, read_index := w\<rparr> else rb1)
      })"

text \<open>The second component is what is copied to the caller's \<^verbatim>\<open>ptr\<close>.\<close>

definition rt_ringbuffer_get :: "rt_ringbuffer \<Rightarrow> nat \<Rightarrow> (nat \<times> u8 list \<times> rt_ringbuffer) option" where
  "rt_ringbuffer_get rb length0 =
     (let sz = rt_ringbuffer_data_len rb in
      if sz = 0 then Some (0, [], rb)
      else
        let len = (if sz < length0 then sz mod 2 ^ 16 else length0) in
        if buffer_size rb - int (read_index rb) > int len then do {
          data \<leftarrow> arr_read (buffer rb) (read_index rb) len;
          Some (len, data, rb\<lparr>read_index := idx15 (int (read_index rb) + int len)\<rparr>)
        }
        else do {
          let rest = buffer_size rb - int (read_index rb);
          data1 \<leftarrow> arr_read (buffer rb) (read_index rb) (size32 rest);
          data2 \<leftarrow> arr_read (buffer rb) 0 (size32 (int len - rest));
          Some (len, data1 @ data2,
                rb\<lparr>read_mirror := \<not> read_mirror rb, read_index := idx15 (int len - rest)\<rparr>)
        })"

text \<open>\<open>rt_ringbuffer_peak\<close> returns the size, the position in the pool stored in \<^verbatim>\<open>*ptr\<close>
  (\<open>None\<close> for \<^verbatim>\<open>RT_NULL\<close>) and the new state.\<close>

definition rt_ringbuffer_peak :: "rt_ringbuffer \<Rightarrow> nat \<times> nat option \<times> rt_ringbuffer" where
  "rt_ringbuffer_peak rb =
     (let sz = rt_ringbuffer_data_len rb in
      if sz = 0 then (0, None, rb)
      else if buffer_size rb - int (read_index rb) > int sz then
        (sz, Some (read_index rb), rb\<lparr>read_index := idx15 (int (read_index rb) + int sz)\<rparr>)
      else
        (size32 (buffer_size rb - int (read_index rb)), Some (read_index rb),
         rb\<lparr>read_mirror := \<not> read_mirror rb, read_index := 0\<rparr>))"

definition rt_ringbuffer_putchar :: "rt_ringbuffer \<Rightarrow> u8 \<Rightarrow> (nat \<times> rt_ringbuffer) option" where
  "rt_ringbuffer_putchar rb ch =
     (if rt_ringbuffer_space_len rb = 0 then Some (0, rb)
      else do {
        buf \<leftarrow> arr_set (buffer rb) (write_index rb) ch;
        let rb1 = rb\<lparr>buffer := buf\<rparr>;
        Some (1, if int (write_index rb) = buffer_size rb - 1
                 then rb1\<lparr>write_mirror := \<not> write_mirror rb, write_index := 0\<rparr>
                 else rb1\<lparr>write_index := idx15 (int (write_index rb) + 1)\<rparr>)
      })"

definition rt_ringbuffer_putchar_force :: "rt_ringbuffer \<Rightarrow> u8 \<Rightarrow> (nat \<times> rt_ringbuffer) option" where
  "rt_ringbuffer_putchar_force rb ch = do {
     let old_state = rt_ringbuffer_status rb;
     buf \<leftarrow> arr_set (buffer rb) (write_index rb) ch;
     let rb1 = rb\<lparr>buffer := buf\<rparr>;
     if int (write_index rb) = buffer_size rb - 1 then
       let rb2 = rb1\<lparr>write_mirror := \<not> write_mirror rb, write_index := 0\<rparr> in
       Some (1, if old_state = RT_RINGBUFFER_FULL
                then rb2\<lparr>read_mirror := \<not> read_mirror rb, read_index := 0\<rparr> else rb2)
     else
       let w = idx15 (int (write_index rb) + 1); rb2 = rb1\<lparr>write_index := w\<rparr> in
       Some (1, if old_state = RT_RINGBUFFER_FULL then rb2\<lparr>read_index := w\<rparr> else rb2)
   }"

definition rt_ringbuffer_getchar :: "rt_ringbuffer \<Rightarrow> (nat \<times> u8 option \<times> rt_ringbuffer) option" where
  "rt_ringbuffer_getchar rb =
     (if rt_ringbuffer_data_len rb = 0 then Some (0, None, rb)
      else do {
        ch \<leftarrow> arr_get (buffer rb) (read_index rb);
        Some (1, Some ch,
              if int (read_index rb) = buffer_size rb - 1
              then rb\<lparr>read_mirror := \<not> read_mirror rb, read_index := 0\<rparr>
              else rb\<lparr>read_index := idx15 (int (read_index rb) + 1)\<rparr>)
      })"

definition rt_ringbuffer_reset :: "rt_ringbuffer \<Rightarrow> rt_ringbuffer" where
  "rt_ringbuffer_reset rb =
     rb\<lparr>read_mirror := False, read_index := 0, write_mirror := False, write_index := 0\<rparr>"

definition rt_ringbuffer_get_size :: "rt_ringbuffer \<Rightarrow> int" where
  "rt_ringbuffer_get_size rb = buffer_size rb mod 2 ^ 16"

text \<open>
  The well-formedness invariant and the abstract queue of a ring buffer. The pool may be longer
  than the (aligned) size; the bytes behind it are never part of the queue.
\<close>

definition rb_capacity :: "rt_ringbuffer \<Rightarrow> nat" where
  "rb_capacity rb = nat (buffer_size rb)"

definition rb_inv :: "rt_ringbuffer \<Rightarrow> bool" where
  "rb_inv rb \<longleftrightarrow>
     0 < buffer_size rb \<and> buffer_size rb < 2 ^ 15
     \<and> rb_capacity rb \<le> length (buffer rb)
     \<and> read_index rb < rb_capacity rb \<and> write_index rb < rb_capacity rb
     \<and> (if read_mirror rb = write_mirror rb then read_index rb \<le> write_index rb
        else write_index rb \<le> read_index rb)"

definition rb_contents :: "rt_ringbuffer \<Rightarrow> u8 list" where
  "rb_contents rb =
     (if read_mirror rb = write_mirror rb
      then take (write_index rb - read_index rb) (drop (read_index rb) (buffer rb))
      else take (rb_capacity rb - read_index rb) (drop (read_index rb) (buffer rb))
           @ take (write_index rb) (buffer rb))"

text \<open>One-byte operations in the shape of the queue contract.\<close>

definition rb_put1 :: "rt_ringbuffer \<Rightarrow> u8 \<Rightarrow> rt_ringbuffer option" where
  "rb_put1 rb ch =
     (case rt_ringbuffer_putchar rb ch of
        None \<Rightarrow> None | Some (n, rb') \<Rightarrow> if n = 0 then None else Some rb')"

definition rb_get1 :: "rt_ringbuffer \<Rightarrow> (u8 \<times> rt_ringbuffer) option" where
  "rb_get1 rb =
     (case rt_ringbuffer_getchar rb of
        Some (_, Some ch, rb') \<Rightarrow> Some (ch, rb') | _ \<Rightarrow> None)"

text \<open>A buffer of eight bytes that holds two, used by the witnesses.\<close>

definition rb_sample :: rt_ringbuffer where
  "rb_sample = \<lparr>buffer = [10, 11, 12, 13, 14, 15, 16, 17], read_mirror = False, read_index = 5,
                write_mirror = False, write_index = 7, buffer_size = 8\<rparr>"

section \<open>Arithmetic of the stored fields\<close>

lemma idx15_in_range: "0 \<le> i \<Longrightarrow> i < 2 ^ 15 \<Longrightarrow> idx15 i = nat i"
  by (simp add: idx15_def)

lemma size32_in_range: "0 \<le> i \<Longrightarrow> i < 2 ^ 32 \<Longrightarrow> size32 i = nat i"
  by (simp add: size32_def)

lemma idx15_diff: "b \<le> a \<Longrightarrow> a < 2 ^ 15 \<Longrightarrow> idx15 (int a - int b) = a - b"
  by (simp add: idx15_in_range nat_diff_distrib)

lemma idx15_Suc: "Suc a < 2 ^ 15 \<Longrightarrow> idx15 (int a + 1) = Suc a"
  by (simp add: idx15_in_range nat_add_distrib)

lemma size32_diff: "b \<le> a \<Longrightarrow> a < 2 ^ 32 \<Longrightarrow> size32 (int a - int b) = a - b"
  by (simp add: size32_in_range nat_diff_distrib)

text \<open>Reading back a list after a block was written into it.\<close>

lemma blit_take:
  "n \<le> w \<Longrightarrow> w \<le> length buf \<Longrightarrow> take n (take w buf @ src @ rest) = take n buf"
  by simp

lemma blit_window:
  assumes "r \<le> w" and "w \<le> length buf" and "k \<le> length src"
  shows "take (w + k - r) (drop r (take w buf @ src @ rest))
         = take (w - r) (drop r buf) @ take k src"
proof -
  have "drop r (take w buf @ src @ rest) = take (w - r) (drop r buf) @ src @ rest"
    using assms by (simp add: take_drop)
  moreover have "length (take (w - r) (drop r buf)) = w - r"
    using assms by simp
  ultimately show ?thesis
    using assms by simp
qed

lemma blit_drop:
  assumes "w + length src \<le> n" and "w \<le> length buf"
  shows "drop n (take w buf @ src @ drop (w + length src) buf) = drop n buf"
  using assms by simp

lemma blit_skip: "length ys = k \<Longrightarrow> k \<le> r \<Longrightarrow> drop r (ys @ drop k zs) = drop r zs"
  by simp

section \<open>Lengths\<close>

lemma rb_data_len: "rb_inv rb \<Longrightarrow> rt_ringbuffer_data_len rb = length (rb_contents rb)"
  unfolding rb_inv_def rt_ringbuffer_data_len_def rt_ringbuffer_status_def rb_contents_def
    rb_capacity_def
  by (auto simp: size32_in_range split: if_splits)

lemma rb_contents_bound: "rb_inv rb \<Longrightarrow> length (rb_contents rb) \<le> rb_capacity rb"
  unfolding rb_inv_def rb_contents_def by (auto split: if_splits)

lemma rb_space_len:
  assumes "rb_inv rb"
  shows "rt_ringbuffer_space_len rb = rb_capacity rb - length (rb_contents rb)"
proof -
  have "length (rb_contents rb) \<le> rb_capacity rb" by (rule rb_contents_bound [OF assms])
  moreover have "0 < buffer_size rb" "buffer_size rb < 2 ^ 15"
    using assms by (simp_all add: rb_inv_def)
  ultimately show ?thesis
    unfolding rt_ringbuffer_space_len_def rb_data_len [OF assms] rb_capacity_def
    by (subst size32_in_range) (simp_all add: nat_diff_distrib)
qed

lemma rb_capacity_bound: "rb_inv rb \<Longrightarrow> rb_capacity rb < 2 ^ 15"
  by (auto simp: rb_inv_def rb_capacity_def)

lemma rb_space_len16:
  assumes "rb_inv rb"
  shows "rt_ringbuffer_space_len rb mod 2 ^ 16 = rb_capacity rb - length (rb_contents rb)"
  unfolding rb_space_len [OF assms] using rb_capacity_bound [OF assms] by simp

lemma rb_size_int: "rb_inv rb \<Longrightarrow> buffer_size rb = int (rb_capacity rb)"
  by (simp add: rb_inv_def rb_capacity_def)

section \<open>Writing and reading a block\<close>

lemma rb_space_cases:
  assumes "rb_inv rb"
  shows "rb_capacity rb - length (rb_contents rb) =
    (if read_mirror rb = write_mirror rb
     then rb_capacity rb - write_index rb + read_index rb else read_index rb - write_index rb)"
  using assms by (auto simp: rb_inv_def rb_contents_def)

lemma rb_write_straight:
  assumes inv: "rb_inv rb" and k: "length src < rb_capacity rb - write_index rb"
    and room: "length src \<le> rb_capacity rb - length (rb_contents rb)"
    and rb': "rb' = rb\<lparr>buffer := take (write_index rb) (buffer rb) @ src
                        @ drop (write_index rb + length src) (buffer rb),
                     write_index := write_index rb + length src\<rparr>"
  shows "rb_inv rb' \<and> rb_contents rb' = rb_contents rb @ src \<and> rb_capacity rb' = rb_capacity rb"
proof -
  have w: "write_index rb + length src < rb_capacity rb" using k by simp
  have cap: "rb_capacity rb' = rb_capacity rb" by (simp add: rb' rb_capacity_def)
  have len: "rb_capacity rb \<le> length (buffer rb)" using inv by (simp add: rb_inv_def)
  have "rb_contents rb' = rb_contents rb @ src"
  proof (cases "read_mirror rb = write_mirror rb")
    case True
    then have "read_index rb \<le> write_index rb" using inv by (simp add: rb_inv_def)
    with True show ?thesis
      using w len blit_window [of "read_index rb" "write_index rb" "buffer rb" "length src" src]
      by (simp add: rb_contents_def rb')
  next
    case False
    then have "write_index rb + length src \<le> read_index rb"
      using room w inv by (auto simp: rb_space_cases rb_inv_def)
    with False w len show ?thesis
      by (simp add: rb_contents_def rb' cap) (simp add: rb_capacity_def)
  qed
  moreover have "rb_inv rb'"
    using inv w room rb_space_cases [OF inv] unfolding rb_inv_def cap
    by (auto simp: rb' split: if_splits)
  ultimately show ?thesis using cap by blast
qed

lemma rb_write_wrapped:
  assumes inv: "rb_inv rb" and k: "rb_capacity rb - write_index rb \<le> length src"
    and room: "length src \<le> rb_capacity rb - length (rb_contents rb)"
    and rest: "rest = rb_capacity rb - write_index rb"
    and rb': "rb' = rb\<lparr>buffer := drop rest src @ drop (length src - rest)
                        (take (write_index rb) (buffer rb) @ take rest src
                         @ drop (rb_capacity rb) (buffer rb)),
                     write_mirror := \<not> write_mirror rb, write_index := length src - rest\<rparr>"
  shows "rb_inv rb' \<and> rb_contents rb' = rb_contents rb @ src \<and> rb_capacity rb' = rb_capacity rb"
proof -
  have cap: "rb_capacity rb' = rb_capacity rb" by (simp add: rb' rb_capacity_def)
  have len: "rb_capacity rb \<le> length (buffer rb)" and w: "write_index rb < rb_capacity rb"
    and r: "read_index rb < rb_capacity rb" using inv by (simp_all add: rb_inv_def)
  have same: "read_mirror rb = write_mirror rb"
    using k room w r rb_space_cases [OF inv] by (auto split: if_splits)
  then have rw: "read_index rb \<le> write_index rb" using inv by (simp add: rb_inv_def)
  have k': "length src - rest \<le> read_index rb"
    using room k rest w rb_space_cases [OF inv] same by simp
  let ?buf1 = "take (write_index rb) (buffer rb) @ take rest src @ drop (rb_capacity rb) (buffer rb)"
  have "drop (read_index rb) (drop rest src @ drop (length src - rest) ?buf1)
        = drop (read_index rb) ?buf1"
    using k' k by (intro blit_skip) (simp_all add: rest)
  moreover have "take (rb_capacity rb - read_index rb) (drop (read_index rb) ?buf1)
        = take (write_index rb - read_index rb) (drop (read_index rb) (buffer rb)) @ take rest src"
  proof -
    have "rb_capacity rb - read_index rb = write_index rb + rest - read_index rb"
      using w rest by simp
    moreover have "rest \<le> length (take rest src)" using k rest by simp
    ultimately show ?thesis
      using blit_window [of "read_index rb" "write_index rb" "buffer rb" rest "take rest src"
          "drop (rb_capacity rb) (buffer rb)"] rw w len by simp
  qed
  ultimately have "rb_contents rb' = rb_contents rb @ src"
    using same k rest unfolding rb_contents_def cap by (simp add: rb' del: drop_append drop_drop)
  moreover have "rb_inv rb'"
    using inv k k' r w len same rest unfolding rb_inv_def cap by (auto simp: rb')
  ultimately show ?thesis using cap by blast
qed

lemma rb_read_straight:
  assumes inv: "rb_inv rb" and k: "k < rb_capacity rb - read_index rb"
    and avail: "k \<le> length (rb_contents rb)"
    and rb': "rb' = rb\<lparr>read_index := read_index rb + k\<rparr>"
  shows "rb_inv rb' \<and> rb_contents rb = take k (drop (read_index rb) (buffer rb)) @ rb_contents rb'
         \<and> rb_capacity rb' = rb_capacity rb"
proof -
  have cap: "rb_capacity rb' = rb_capacity rb" by (simp add: rb' rb_capacity_def)
  have len: "rb_capacity rb \<le> length (buffer rb)" using inv by (simp add: rb_inv_def)
  have split: "k \<le> n \<Longrightarrow> take n (drop r xs) = take k (drop r xs) @ take (n - k) (drop (r + k) xs)"
    for n r and xs :: "u8 list"
    using take_add [of k "n - k" "drop r xs"] by (simp add: add.commute)
  have "rb_contents rb = take k (drop (read_index rb) (buffer rb)) @ rb_contents rb'"
  proof (cases "read_mirror rb = write_mirror rb")
    case True
    then have "k \<le> write_index rb - read_index rb" using avail by (simp add: rb_contents_def)
    from split [OF this] True show ?thesis by (simp add: rb_contents_def rb')
  next
    case False
    from k have "k \<le> rb_capacity rb - read_index rb" by simp
    from split [OF this] False show ?thesis by (simp add: rb_contents_def rb' rb_capacity_def)
  qed
  moreover have "rb_inv rb'"
    using inv k avail len unfolding rb_inv_def cap by (auto simp: rb' rb_contents_def split: if_splits)
  ultimately show ?thesis using cap by blast
qed

lemma rb_read_wrapped:
  assumes inv: "rb_inv rb" and k: "rb_capacity rb - read_index rb \<le> k"
    and avail: "k \<le> length (rb_contents rb)"
    and rest: "rest = rb_capacity rb - read_index rb"
    and rb': "rb' = rb\<lparr>read_mirror := \<not> read_mirror rb, read_index := k - rest\<rparr>"
  shows "rb_inv rb' \<and> rb_capacity rb' = rb_capacity rb
    \<and> rb_contents rb = take rest (drop (read_index rb) (buffer rb)) @ take (k - rest) (buffer rb)
                       @ rb_contents rb'"
proof -
  have cap: "rb_capacity rb' = rb_capacity rb" by (simp add: rb' rb_capacity_def)
  have len: "rb_capacity rb \<le> length (buffer rb)" and w: "write_index rb < rb_capacity rb"
    and r: "read_index rb < rb_capacity rb" using inv by (simp_all add: rb_inv_def)
  have diff: "read_mirror rb \<noteq> write_mirror rb"
    using k avail w r by (auto simp: rb_contents_def split: if_splits)
  then have k': "k - rest \<le> write_index rb"
    using avail len rest r w by (simp add: rb_contents_def)
  have "take (write_index rb) (buffer rb)
        = take (k - rest) (buffer rb) @ take (write_index rb - (k - rest)) (drop (k - rest) (buffer rb))"
    using k' by (metis le_add_diff_inverse take_add)
  then have "rb_contents rb = take rest (drop (read_index rb) (buffer rb))
      @ take (k - rest) (buffer rb) @ rb_contents rb'"
    using diff rest by (auto simp: rb_contents_def rb')
  moreover have "rb_inv rb'"
    using inv k k' w diff unfolding rb_inv_def cap by (auto simp: rb')
  ultimately show ?thesis using cap by blast
qed

section \<open>The operations\<close>

lemma rb_put_block:
  assumes inv: "rb_inv rb" and n: "n \<le> length ptr"
  shows "\<exists>rb'. rt_ringbuffer_put rb ptr n
             = Some (min n (rb_capacity rb - length (rb_contents rb)), rb')
           \<and> rb_inv rb' \<and> rb_capacity rb' = rb_capacity rb
           \<and> rb_contents rb'
             = rb_contents rb @ take (min n (rb_capacity rb - length (rb_contents rb))) ptr"
proof -
  let ?space = "rb_capacity rb - length (rb_contents rb)"
  define k where "k = min n ?space"
  have kb: "k \<le> ?space" "k \<le> length ptr" using n by (simp_all add: k_def)
  let ?w = "write_index rb" and ?cap = "rb_capacity rb"
  have len: "?cap \<le> length (buffer rb)" and w: "?w < ?cap" using inv by (simp_all add: rb_inv_def)
  have k: "(if ?space < n then ?space else n) = k" by (simp add: k_def)
  have src: "length (take k ptr) = k" "length (take k ptr) \<le> ?space" using kb by auto
  note k_def [symmetric, simp]
  note c15 = rb_capacity_bound [OF inv]
  show ?thesis
  proof (cases "?space = 0")
    case True
    with inv show ?thesis unfolding rt_ringbuffer_put_def rb_space_len16 [OF inv] by simp
  next
    case space: False
    show ?thesis
    proof (cases "k < ?cap - ?w")
      case True
      let ?rb = "rb\<lparr>buffer := take ?w (buffer rb) @ take k ptr @ drop (?w + k) (buffer rb),
                    write_index := ?w + k\<rparr>"
      have "int k < buffer_size rb - int ?w" using True w by (simp add: rb_size_int [OF inv])
      then have "rt_ringbuffer_put rb ptr n = Some (k, ?rb)"
        using space True kb len c15 src w
        unfolding rt_ringbuffer_put_def rb_space_len16 [OF inv] Let_def k
        by (simp add: arr_read_def arr_write_def idx15_in_range nat_add_distrib)
      with rb_write_straight [OF inv _ src(2), of ?rb] True src(1) show ?thesis by simp
    next
      case False
      let ?rest = "?cap - ?w"
      let ?rb = "rb\<lparr>buffer := drop ?rest (take k ptr) @ drop (k - ?rest)
                    (take ?w (buffer rb) @ take ?rest (take k ptr) @ drop ?cap (buffer rb)),
                    write_mirror := \<not> write_mirror rb, write_index := k - ?rest\<rparr>"
      have rest: "buffer_size rb - int ?w = int ?rest" using w by (simp add: rb_size_int [OF inv])
      have sz: "size32 (int ?rest) = ?rest" "size32 (int k - int ?rest) = k - ?rest"
        "idx15 (int k - int ?rest) = k - ?rest"
        using False kb c15 by (auto simp: size32_in_range size32_diff idx15_diff)
      have "\<not> int ?rest > int k" using False by simp
      moreover have "arr_read ptr 0 ?rest = Some (take ?rest (take k ptr))"
        using False kb by (simp add: arr_read_def)
      moreover have "arr_read ptr ?rest (k - ?rest) = Some (drop ?rest (take k ptr))"
        using False kb by (simp add: arr_read_def drop_take)
      moreover have "arr_write (buffer rb) ?w (take ?rest (take k ptr)) = Some
          (take ?w (buffer rb) @ take ?rest (take k ptr) @ drop ?cap (buffer rb))"
        using False kb len w by (simp add: arr_write_def)
      moreover have "arr_write (take ?w (buffer rb) @ take ?rest (take k ptr) @ drop ?cap (buffer rb))
           0 (drop ?rest (take k ptr)) = Some (buffer ?rb)"
        using False kb len w c15 by (simp add: arr_write_def)
      ultimately have "rt_ringbuffer_put rb ptr n = Some (k, ?rb)"
        using space unfolding rt_ringbuffer_put_def rb_space_len16 [OF inv] Let_def k rest sz
        by simp
      with rb_write_wrapped [OF inv _ src(2) refl, of ?rb] False src(1) show ?thesis by simp
    qed
  qed
qed

lemma rb_get_block:
  assumes inv: "rb_inv rb"
  shows "\<exists>rb'. rt_ringbuffer_get rb n
             = Some (min n (length (rb_contents rb)), take n (rb_contents rb), rb')
           \<and> rb_inv rb' \<and> rb_capacity rb' = rb_capacity rb
           \<and> rb_contents rb' = drop n (rb_contents rb)"
proof -
  let ?c = "rb_contents rb"
  define k where "k = min n (length ?c)"
  let ?r = "read_index rb" and ?cap = "rb_capacity rb"
  have len: "?cap \<le> length (buffer rb)" and r: "?r < ?cap" using inv by (simp_all add: rb_inv_def)
  have c15: "length ?c < 2 ^ 15"
    using rb_capacity_bound [OF inv] rb_contents_bound [OF inv] by simp
  then have k: "(if length ?c < n then length ?c mod 2 ^ 16 else n) = k" by (simp add: k_def)
  have avail: "k \<le> length ?c" by (simp add: k_def)
  have nk: "take n ?c = take k ?c" "drop n ?c = drop k ?c" by (simp_all add: k_def min_def)
  show ?thesis
  proof (cases "?c = []")
    case True
    with inv show ?thesis by (simp add: rt_ringbuffer_get_def rb_data_len)
  next
    case ne: False
    show ?thesis
    proof (cases "k < ?cap - ?r")
      case True
      let ?rb = "rb\<lparr>read_index := ?r + k\<rparr>"
      have "int k < buffer_size rb - int ?r" using True r by (simp add: rb_size_int [OF inv])
      then have get: "rt_ringbuffer_get rb n = Some (k, take k (drop ?r (buffer rb)), ?rb)"
        using ne True len rb_capacity_bound [OF inv] r
        unfolding rt_ringbuffer_get_def rb_data_len [OF inv] Let_def k
        by (simp add: arr_read_def idx15_in_range nat_add_distrib)
      from rb_read_straight [OF inv True avail refl]
      have app: "?c = take k (drop ?r (buffer rb)) @ rb_contents ?rb"
        and oth: "rb_inv ?rb" "rb_capacity ?rb = ?cap" by simp_all
      have "length (take k (drop ?r (buffer rb))) = k" using True len r by simp
      with app have "take k ?c = take k (drop ?r (buffer rb))" "drop k ?c = rb_contents ?rb"
        by (metis append_eq_conv_conj)+
      then show ?thesis using get oth unfolding nk k_def [symmetric] by simp
    next
      case False
      let ?rest = "?cap - ?r"
      let ?rb = "rb\<lparr>read_mirror := \<not> read_mirror rb, read_index := k - ?rest\<rparr>"
      let ?data = "take ?rest (drop ?r (buffer rb)) @ take (k - ?rest) (buffer rb)"
      from False have F: "?cap - ?r \<le> k" by simp
      from rb_read_wrapped [OF inv F avail refl refl]
      have app: "?c = ?data @ rb_contents ?rb" and oth: "rb_inv ?rb" "rb_capacity ?rb = ?cap"
        by simp_all
      have rest: "buffer_size rb - int ?r = int ?rest" using r by (simp add: rb_size_int [OF inv])
      have k': "k - ?rest \<le> ?cap" using rb_contents_bound [OF inv] avail by linarith
      have sz: "size32 (int ?rest) = ?rest" "size32 (int k - int ?rest) = k - ?rest"
        "idx15 (int k - int ?rest) = k - ?rest"
        using F c15 avail rb_capacity_bound [OF inv] by (auto simp: size32_in_range size32_diff idx15_diff)
      have "\<not> int ?rest > int k" using F by simp
      moreover have "arr_read (buffer rb) ?r ?rest = Some (take ?rest (drop ?r (buffer rb)))"
        "arr_read (buffer rb) 0 (k - ?rest) = Some (take (k - ?rest) (buffer rb))"
        using len r k' by (simp_all add: arr_read_def)
      ultimately have get: "rt_ringbuffer_get rb n = Some (k, ?data, ?rb)"
        using ne unfolding rt_ringbuffer_get_def rb_data_len [OF inv] Let_def k rest sz by simp
      have "length ?data = k" using F len k' r by simp
      with app have "take k ?c = ?data" "drop k ?c = rb_contents ?rb"
        by (metis append_eq_conv_conj)+
      then show ?thesis using get oth unfolding nk k_def [symmetric] by simp
    qed
  qed
qed

lemma rb_putchar_room:
  assumes inv: "rb_inv rb" and room: "length (rb_contents rb) < rb_capacity rb"
  shows "\<exists>rb'. rt_ringbuffer_putchar rb ch = Some (1, rb') \<and> rb_inv rb'
           \<and> rb_contents rb' = rb_contents rb @ [ch] \<and> rb_capacity rb' = rb_capacity rb"
proof -
  let ?w = "write_index rb" and ?cap = "rb_capacity rb"
  have len: "?cap \<le> length (buffer rb)" and w: "?w < ?cap" using inv by (simp_all add: rb_inv_def)
  have src: "length [ch] \<le> ?cap - length (rb_contents rb)" using room by simp
  have sp: "rt_ringbuffer_space_len rb \<noteq> 0" using room by (simp add: rb_space_len [OF inv])
  have set: "arr_set (buffer rb) ?w ch = Some (take ?w (buffer rb) @ ch # drop (?w + 1) (buffer rb))"
    using w len by (simp add: arr_set_eq_write arr_write_def)
  show ?thesis
  proof (cases "?w = ?cap - 1")
    case False
    with w have F: "length [ch] < ?cap - ?w" and ne: "int ?w \<noteq> int ?cap - 1" by simp_all
    from rb_write_straight [OF inv F src refl] show ?thesis
      using sp set ne w rb_capacity_bound [OF inv]
      by (simp add: rt_ringbuffer_putchar_def rb_size_int [OF inv] Let_def idx15_Suc)
  next
    case True
    with w have F: "?cap - ?w \<le> length [ch]" and cap: "?cap = ?w + 1" by simp_all
    let ?rb = "rb\<lparr>buffer := take ?w (buffer rb) @ ch # drop (?w + 1) (buffer rb),
                  write_mirror := \<not> write_mirror rb, write_index := 0\<rparr>"
    have "rt_ringbuffer_putchar rb ch = Some (1, ?rb)"
      using sp set by (simp add: rt_ringbuffer_putchar_def rb_size_int [OF inv] cap Let_def)
    moreover have "?rb = rb\<lparr>buffer := drop 1 [ch] @ drop (length [ch] - 1) (take ?w (buffer rb)
        @ take 1 [ch] @ drop (?w + 1) (buffer rb)),
        write_mirror := \<not> write_mirror rb, write_index := length [ch] - 1\<rparr>" by simp
    then have "rb_inv ?rb \<and> rb_contents ?rb = rb_contents rb @ [ch] \<and> rb_capacity ?rb = ?cap"
      by (intro rb_write_wrapped [OF inv F src refl]) (simp add: cap)
    ultimately show ?thesis by simp
  qed
qed

lemma rb_getchar_some:
  assumes inv: "rb_inv rb" and c: "rb_contents rb = ch # cs"
  shows "\<exists>rb'. rt_ringbuffer_getchar rb = Some (1, Some ch, rb') \<and> rb_inv rb'
           \<and> rb_contents rb' = cs \<and> rb_capacity rb' = rb_capacity rb"
proof -
  let ?r = "read_index rb" and ?cap = "rb_capacity rb"
  have len: "?cap \<le> length (buffer rb)" and r: "?r < ?cap" using inv by (simp_all add: rb_inv_def)
  have avail: "1 \<le> length (rb_contents rb)" using c by simp
  have hd: "take 1 (drop ?r (buffer rb)) = [buffer rb ! ?r]"
    using r len by (simp add: take_Suc_conv_app_nth)
  have dl: "rt_ringbuffer_data_len rb \<noteq> 0" using c by (simp add: rb_data_len [OF inv])
  show ?thesis
  proof (cases "?r = ?cap - 1")
    case False
    with r have F: "1 < ?cap - ?r" and ne: "int ?r \<noteq> int ?cap - 1" by simp_all
    from rb_read_straight [OF inv F avail refl] show ?thesis
      using dl c ne r len rb_capacity_bound [OF inv] hd
      by (simp add: rt_ringbuffer_getchar_def rb_size_int [OF inv] arr_get_def idx15_Suc)
  next
    case True
    with r have F: "?cap - ?r \<le> 1" and one: "?cap - ?r = 1" by simp_all
    from rb_read_wrapped [OF inv F avail refl refl] show ?thesis
      using dl c True r len one hd
      by (simp add: rt_ringbuffer_getchar_def rb_size_int [OF inv] arr_get_def)
  qed
qed

text \<open>The one-byte operations satisfy the contract of a bounded queue.\<close>

interpretation rb: bounded_fifo rb_inv "\<lambda>_. True" rb_contents rb_capacity rb_put1 rb_get1
proof
  fix s :: rt_ringbuffer and x
  assume inv: "rb_inv s"
  show "\<exists>s'. rb_put1 s x = Some s' \<and> rb_inv s' \<and> rb_contents s' = rb_contents s @ [x]
             \<and> rb_capacity s' = rb_capacity s" if "length (rb_contents s) < rb_capacity s"
    using rb_putchar_room [OF inv that, of x] by (auto simp: rb_put1_def)
  show "rb_put1 s x = None" if "length (rb_contents s) = rb_capacity s"
    using that by (simp add: rb_put1_def rt_ringbuffer_putchar_def rb_space_len [OF inv])
  show "\<exists>s'. rb_get1 s = Some (x, s') \<and> rb_inv s' \<and> rb_contents s' = xs
             \<and> rb_capacity s' = rb_capacity s" if "rb_contents s = x # xs" for xs
    using rb_getchar_some [OF inv that] by (auto simp: rb_get1_def)
  show "rb_get1 s = None" if "rb_contents s = []"
    using that by (simp add: rb_get1_def rt_ringbuffer_getchar_def rb_data_len [OF inv])
  show "length (rb_contents s) \<le> rb_capacity s" by (rule rb_contents_bound [OF inv])
qed

lemma rb_init_inv:
  assumes "4 \<le> sz" "sz < 2 ^ 15" "sz \<le> int (length pool)"
  shows "\<exists>rb. rt_ringbuffer_init pool sz = Some rb \<and> rb_inv rb \<and> rb_contents rb = []
          \<and> int (rb_capacity rb) = sz - sz mod 4"
proof -
  have u: "uint (word_of_int sz :: u32) = sz" using assms by (simp add: uint_word_of_int)
  have "unat (RT_ALIGN_DOWN (word_of_int sz) 4) = unat (word_of_int sz :: u32) div 4 * 4"
    using and_not_mask_word [of "word_of_int sz :: u32" 2]
    by (simp add: RT_ALIGN_DOWN_def mask_three_word)
  moreover have "int (unat (word_of_int sz :: u32)) = sz" using u by (simp only: uint_nat)
  ultimately have "int (unat (RT_ALIGN_DOWN (word_of_int sz) 4)) = sz div 4 * 4"
    by (metis of_nat_mult of_nat_numeral zdiv_int)
  then have al: "uint (RT_ALIGN_DOWN (word_of_int sz) 4) = sz - sz mod 4"
    unfolding uint_nat by (simp only: minus_mod_eq_div_mult)
  have "0 < sz - sz mod 4" "sz - sz mod 4 \<le> sz" using assms(1) by presburger+
  then have "0 < sz - sz mod 4" "sz - sz mod 4 < 2 ^ 15" "sz - sz mod 4 \<le> int (length pool)"
    using assms(2,3) by linarith+
  then show ?thesis
    using assms(1) al by (simp add: nat_le_iff rt_ringbuffer_init_def rb_inv_def rb_contents_def rb_capacity_def)
qed

section \<open>Forced writes\<close>

lemma rb_force_straight:
  assumes inv: "rb_inv rb" and k: "length src < rb_capacity rb - write_index rb"
    and over: "rb_capacity rb - length (rb_contents rb) < length src"
    and w': "w' = write_index rb + length src"
    and rb': "rb' = rb\<lparr>buffer := take (write_index rb) (buffer rb) @ src @ drop w' (buffer rb),
                     write_index := w', read_index := w'\<rparr>"
  shows "rb_inv rb' \<and> rb_capacity rb' = rb_capacity rb \<and> read_mirror rb \<noteq> write_mirror rb
    \<and> rb_contents rb'
      = drop (length src - (rb_capacity rb - length (rb_contents rb))) (rb_contents rb) @ src"
proof -
  let ?r = "read_index rb" and ?w = "write_index rb" and ?cap = "rb_capacity rb"
  have cap: "rb_capacity rb' = ?cap" by (simp add: rb' rb_capacity_def)
  have len: "?cap \<le> length (buffer rb)" and r: "?r < ?cap" using inv by (simp_all add: rb_inv_def)
  have diff: "read_mirror rb \<noteq> write_mirror rb" and space: "?cap - length (rb_contents rb) = ?r - ?w"
    using rb_space_cases [OF inv] over k by (auto split: if_splits)
  have wr: "?w \<le> ?r" using inv diff by (simp add: rb_inv_def)
  have "rb_contents rb' = take (?cap - w') (drop w' (buffer rb)) @ take ?w (buffer rb) @ src"
    using diff k len w' by (simp add: rb_contents_def cap) (simp add: rb')
  moreover have "drop (length src - (?r - ?w)) (rb_contents rb)
      = take (?cap - w') (drop w' (buffer rb)) @ take ?w (buffer rb)"
    using diff k len w' wr over space r by (simp add: rb_contents_def drop_take add.commute)
  moreover have "rb_inv rb'" using inv k diff w' unfolding rb_inv_def cap by (auto simp: rb')
  ultimately show ?thesis using cap diff space by simp
qed

lemma rb_force_wrapped:
  assumes inv: "rb_inv rb" and k: "rb_capacity rb - write_index rb \<le> length src"
    and small: "length src \<le> rb_capacity rb"
    and over: "rb_capacity rb - length (rb_contents rb) < length src"
    and rest: "rest = rb_capacity rb - write_index rb" and w': "w' = length src - rest"
    and rb': "rb' = rb\<lparr>buffer := drop rest src @ drop w'
                        (take (write_index rb) (buffer rb) @ take rest src
                         @ drop (rb_capacity rb) (buffer rb)),
                     write_mirror := \<not> write_mirror rb, write_index := w',
                     read_mirror := \<not> read_mirror rb, read_index := w'\<rparr>"
  shows "rb_inv rb' \<and> rb_capacity rb' = rb_capacity rb
    \<and> rb_contents rb' = (if read_mirror rb = write_mirror rb then []
      else drop (length src - (rb_capacity rb - length (rb_contents rb))) (rb_contents rb) @ src)"
proof -
  let ?r = "read_index rb" and ?w = "write_index rb" and ?cap = "rb_capacity rb"
  have cap: "rb_capacity rb' = ?cap" by (simp add: rb' rb_capacity_def)
  have len: "?cap \<le> length (buffer rb)" and r: "?r < ?cap" and w: "?w < ?cap"
    using inv by (simp_all add: rb_inv_def)
  have w'w: "w' \<le> ?w" using w' rest small w by simp
  have l2: "length (drop rest src) = w'" using w' by simp
  have "rb_inv rb'"
    using inv w'w w l2 k rest unfolding rb_inv_def cap by (auto simp: rb')
  moreover have "rb_contents rb' = []" if "read_mirror rb = write_mirror rb"
    using that by (simp add: rb_contents_def rb')
  moreover have "rb_contents rb'
      = drop (length src - (?cap - length (rb_contents rb))) (rb_contents rb) @ src"
    if diff: "read_mirror rb \<noteq> write_mirror rb"
  proof -
    let ?buf1 = "take ?w (buffer rb) @ take rest src @ drop ?cap (buffer rb)"
    have space: "?cap - length (rb_contents rb) = ?r - ?w" and wr: "?w \<le> ?r"
      using rb_space_cases [OF inv] diff inv by (simp_all add: rb_inv_def)
    have "rb_contents rb' = take (?cap - w') (drop w' ?buf1) @ drop rest src"
      using diff l2 unfolding rb_contents_def cap
      by (simp add: rb' blit_skip [OF l2 order_refl] del: drop_append)
    also have "take (?cap - w') (drop w' ?buf1) = drop w' (take ?w (buffer rb)) @ take rest src"
      using blit_window [of w' ?w "buffer rb" rest "take rest src" "drop ?cap (buffer rb)"]
        w'w w len k rest by (simp add: drop_take)
    also have "drop w' (take ?w (buffer rb)) = drop (length src - (?r - ?w)) (rb_contents rb)"
      using diff len wr w' rest k r w by (simp add: rb_contents_def)
    finally show ?thesis using space by simp
  qed
  ultimately show ?thesis using cap by auto
qed

lemma rb_put_force_block:
  fixes ptr :: "u8 list"
  assumes inv: "rb_inv rb" and n: "n \<le> length ptr"
    and k: "k = min n (rb_capacity rb)" and src: "src = drop (n - k) (take n ptr)"
    and space: "space = rb_capacity rb - length (rb_contents rb)"
  shows "\<exists>rb'. rt_ringbuffer_put_force rb ptr n = Some (k, rb') \<and> rb_inv rb'
          \<and> rb_capacity rb' = rb_capacity rb
          \<and> rb_contents rb' = (if k > space \<and> read_mirror rb = write_mirror rb then []
                               else drop (k - space) (rb_contents rb) @ src)"
proof -
  let ?w = "write_index rb" and ?cap = "rb_capacity rb"
  let ?ptr = "drop (n - k) ptr"
  have len: "?cap \<le> length (buffer rb)" and w: "?w < ?cap" using inv by (simp_all add: rb_inv_def)
  note c15 = rb_capacity_bound [OF inv] and sz = rb_size_int [OF inv]
  have kb: "k \<le> ?cap" "k \<le> length ?ptr" using n k by auto
  have lsrc: "length src = k" using src n k by simp
  have ps: "take k ?ptr = src" using src k by (simp add: drop_take)
  have ptr: "(if int n > buffer_size rb then drop (nat (int n - buffer_size rb)) ptr else ptr) = ?ptr"
    "(if int n > buffer_size rb then nat (buffer_size rb mod 2 ^ 16) else n) = k"
    using c15 k by (auto simp: sz nat_diff_distrib)
  show ?thesis
  proof (cases "k < ?cap - ?w")
    case True
    let ?w' = "?w + k"
    let ?rb = "rb\<lparr>buffer := take ?w (buffer rb) @ src @ drop ?w' (buffer rb), write_index := ?w'\<rparr>"
    have "buffer_size rb - int ?w > int k" using True w sz by simp
    then have "rt_ringbuffer_put_force rb ptr n
        = Some (k, if k > space then ?rb\<lparr>read_index := ?w'\<rparr> else ?rb)"
      using True kb len c15 w ps lsrc
      unfolding rt_ringbuffer_put_force_def rb_space_len16 [OF inv] Let_def ptr space
      by (simp add: arr_read_def arr_write_def idx15_in_range nat_add_distrib)
    then show ?thesis
      using rb_force_straight [OF inv _ _ refl refl, of src] rb_write_straight [OF inv _ _ refl, of src]
        True by (auto simp: lsrc space)
  next
    case False
    let ?rest = "?cap - ?w"
    let ?buf1 = "take ?w (buffer rb) @ take ?rest src @ drop ?cap (buffer rb)"
    let ?buf2 = "drop ?rest src @ drop (k - ?rest) ?buf1"
    let ?rb = "rb\<lparr>buffer := ?buf2, write_mirror := \<not> write_mirror rb, write_index := k - ?rest\<rparr>"
    have rest: "buffer_size rb - int ?w = int ?rest" using w sz by simp
    have sz: "size32 (int ?rest) = ?rest" "size32 (int k - int ?rest) = k - ?rest"
      "idx15 (int k - int ?rest) = k - ?rest"
      using False kb c15 by (auto simp: size32_in_range size32_diff idx15_diff)
    have "\<not> int ?rest > int k" using False by simp
    moreover have "arr_read ?ptr 0 ?rest = Some (take ?rest src)"
      "arr_read ?ptr ?rest (k - ?rest) = Some (drop ?rest src)"
      using False kb by (simp_all add: arr_read_def drop_take flip: ps)
    moreover have "arr_write (buffer rb) ?w (take ?rest src) = Some ?buf1"
      "arr_write ?buf1 0 (drop ?rest src) = Some ?buf2"
      using False len w lsrc kb by (simp_all add: arr_write_def)
    ultimately have "rt_ringbuffer_put_force rb ptr n = Some (k, if k > space
        then ?rb\<lparr>read_mirror := \<not> read_mirror rb, read_index := k - ?rest\<rparr> else ?rb)"
      unfolding rt_ringbuffer_put_force_def rb_space_len16 [OF inv] Let_def ptr rest sz space
      by simp
    then show ?thesis
      using rb_force_wrapped [OF inv _ _ _ refl refl refl, of src]
        rb_write_wrapped [OF inv _ _ refl refl, of src] False kb by (auto simp: lsrc space)
  qed
qed

lemma rb_putchar_force:
  assumes inv: "rb_inv rb"
  shows "\<exists>rb'. rt_ringbuffer_putchar_force rb ch = Some (1, rb') \<and> rb_inv rb'
          \<and> rb_capacity rb' = rb_capacity rb
          \<and> rb_contents rb' = drop (length (rb_contents rb) + 1 - rb_capacity rb) (rb_contents rb) @ [ch]"
proof (cases "length (rb_contents rb) < rb_capacity rb")
  case True
  then have "rt_ringbuffer_space_len rb \<noteq> 0" by (simp add: rb_space_len [OF inv])
  moreover have "rt_ringbuffer_status rb \<noteq> RT_RINGBUFFER_FULL"
    using True inv rb_data_len [OF inv] rb_size_int [OF inv] rb_capacity_bound [OF inv]
    by (auto simp: rt_ringbuffer_data_len_def size32_in_range)
  ultimately have "rt_ringbuffer_putchar_force rb ch = rt_ringbuffer_putchar rb ch"
    by (cases "arr_set (buffer rb) (write_index rb) ch")
       (auto simp: rt_ringbuffer_putchar_force_def rt_ringbuffer_putchar_def Let_def)
  with rb_putchar_room [OF inv True, of ch] True show ?thesis by auto
next
  case False
  let ?w = "write_index rb" and ?cap = "rb_capacity rb"
  have len: "?cap \<le> length (buffer rb)" and w: "?w < ?cap" using inv by (simp_all add: rb_inv_def)
  have full: "length (rb_contents rb) = ?cap" using False rb_contents_bound [OF inv] by simp
  then have diff: "read_mirror rb \<noteq> write_mirror rb" and eq: "read_index rb = ?w"
    using rb_space_cases [OF inv] inv w by (auto simp: rb_inv_def split: if_splits)
  then have st: "rt_ringbuffer_status rb = RT_RINGBUFFER_FULL" by (simp add: rt_ringbuffer_status_def)
  let ?buf = "take ?w (buffer rb) @ ch # drop (?w + 1) (buffer rb)"
  have set: "arr_set (buffer rb) ?w ch = Some ?buf"
    using w len by (simp add: arr_set_eq_write arr_write_def)
  show ?thesis
  proof (cases "?w = ?cap - 1")
    case wl: False
    then have F: "length [ch] < ?cap - ?w" and ne: "int ?w \<noteq> int ?cap - 1" using w by auto
    have "rt_ringbuffer_putchar_force rb ch
        = Some (1, rb\<lparr>buffer := ?buf, write_index := ?w + 1, read_index := ?w + 1\<rparr>)"
      using F ne set st rb_capacity_bound [OF inv]
      by (simp add: rt_ringbuffer_putchar_force_def rb_size_int [OF inv] Let_def idx15_Suc)
    with rb_force_straight [OF inv F _ refl refl] full show ?thesis by simp
  next
    case True
    with w have F: "?cap - ?w \<le> length [ch]" "length [ch] \<le> ?cap" and cap: "?cap = ?w + 1"
      by simp_all
    have one: "?cap - ?w = 1" using cap by simp
    let ?rb = "rb\<lparr>buffer := ?buf, write_mirror := \<not> write_mirror rb, write_index := 0,
                  read_mirror := \<not> read_mirror rb, read_index := 0\<rparr>"
    have "rt_ringbuffer_putchar_force rb ch = Some (1, ?rb)"
      using set st by (simp add: rt_ringbuffer_putchar_force_def rb_size_int [OF inv] cap Let_def)
    moreover have "?rb = rb\<lparr>buffer := drop 1 [ch] @ drop 0 (take ?w (buffer rb)
        @ take 1 [ch] @ drop ?cap (buffer rb)), write_mirror := \<not> write_mirror rb, write_index := 0,
        read_mirror := \<not> read_mirror rb, read_index := 0\<rparr>" by (simp add: cap)
    from rb_force_wrapped [OF inv F _ one [symmetric] _ this]
    have "rb_inv ?rb \<and> rb_capacity ?rb = ?cap \<and> rb_contents ?rb = drop 1 (rb_contents rb) @ [ch]"
      using full diff by simp
    ultimately show ?thesis using full by simp
  qed
qed

lemma rb_peak_prefix:
  assumes inv: "rb_inv rb" and ne: "rb_contents rb \<noteq> []"
    and eq: "rt_ringbuffer_peak rb = (n, pos, rb')"
  shows "0 < n \<and> pos = Some (read_index rb) \<and> rb_inv rb' \<and> rb_capacity rb' = rb_capacity rb
     \<and> rb_contents rb = take n (drop (read_index rb) (buffer rb)) @ rb_contents rb'"
proof (cases "length (rb_contents rb) < rb_capacity rb - read_index rb")
  case True
  let ?k = "length (rb_contents rb)"
  have "int ?k < buffer_size rb - int (read_index rb)" using True rb_size_int [OF inv] by simp
  then have "rb' = rb\<lparr>read_index := read_index rb + ?k\<rparr>" "n = ?k" "pos = Some (read_index rb)"
    using eq ne True rb_capacity_bound [OF inv] rb_contents_bound [OF inv]
    by (auto simp: rt_ringbuffer_peak_def rb_data_len [OF inv] Let_def idx15_in_range nat_add_distrib)
  then show ?thesis using rb_read_straight [OF inv True order_refl refl] ne by simp
next
  case False
  let ?rest = "rb_capacity rb - read_index rb"
  have r: "read_index rb < rb_capacity rb" using inv by (simp add: rb_inv_def)
  then have sz: "buffer_size rb - int (read_index rb) = int ?rest" using rb_size_int [OF inv] by simp
  have s32: "size32 (int ?rest) = ?rest"
    using rb_capacity_bound [OF inv] by (simp add: size32_in_range)
  have nlt: "\<not> int (length (rb_contents rb)) < int ?rest" using False by simp
  have F: "rb_capacity rb - read_index rb \<le> ?rest" "?rest \<le> length (rb_contents rb)" using False by auto
  have "rt_ringbuffer_peak rb = (?rest, Some (read_index rb),
      rb\<lparr>read_mirror := \<not> read_mirror rb, read_index := ?rest - ?rest\<rparr>)"
    using ne nlt unfolding rt_ringbuffer_peak_def rb_data_len [OF inv] Let_def sz s32 by simp
  with eq have rb': "rb' = rb\<lparr>read_mirror := \<not> read_mirror rb, read_index := ?rest - ?rest\<rparr>"
    and n: "n = ?rest" and pos: "pos = Some (read_index rb)" by simp_all
  show ?thesis
    unfolding n pos using rb_read_wrapped [OF inv F refl rb'] r
    by (simp only: diff_self_eq_0 take_0 append_Nil) simp
qed

section \<open>Properties\<close>

text \<open>
  Writing a block of \<open>n\<close> bytes into a well-formed ring buffer never leaves the pool: it appends
  the first \<open>min n space\<close> bytes of the block to the queue in order (whether or not the write wraps),
  returns that number, and keeps the buffer well formed.
\<close>

lemma rt_ringbuffer_put_spec:
  assumes "rb_inv rb" and "n \<le> length ptr" and "k = min n (rb_capacity rb - length (rb_contents rb))"
  shows "\<exists>rb'. rt_ringbuffer_put rb ptr n = Some (k, rb') \<and> rb_inv rb'
           \<and> rb_capacity rb' = rb_capacity rb \<and> rb_contents rb' = rb_contents rb @ take k ptr"
  using rb_put_block [OF assms(1,2)] assms(3) by simp

text \<open>
  Reading up to \<open>n\<close> bytes from a well-formed ring buffer copies exactly the \<open>n\<close> oldest bytes (or
  all of them, when there are fewer), returns their number, removes them from the queue, and keeps the
  buffer well formed.
\<close>

lemma rt_ringbuffer_get_spec:
  assumes "rb_inv rb" and "k = min n (length (rb_contents rb))"
  shows "\<exists>rb'. rt_ringbuffer_get rb n = Some (k, take n (rb_contents rb), rb') \<and> rb_inv rb'
           \<and> rb_capacity rb' = rb_capacity rb \<and> rb_contents rb' = drop n (rb_contents rb)"
  using rb_get_block [OF assms(1)] assms(2) by simp

text \<open>
  A sequence of bytes that fits the capacity, written one byte at a time with
  \<^verbatim>\<open>rt_ringbuffer_putchar\<close> into an empty buffer, is read back by \<^verbatim>\<open>rt_ringbuffer_getchar\<close> unchanged
  and in order, and the buffer is empty again.
\<close>

lemma rt_ringbuffer_roundtrip:
  assumes "rb_inv rb" and "rb_contents rb = []" and "length xs \<le> rb_capacity rb"
  shows "\<exists>rb' rb''. put_list rb_put1 rb xs = Some rb' \<and> get_n rb_get1 rb' (length xs) = Some (xs, rb'')
                    \<and> rb_contents rb'' = []"
  using assms by (intro rb.put_then_get_all) simp_all

text \<open>
  C24. What a forced write of \<open>n\<close> bytes does. The last \<open>k = min n capacity\<close> bytes of the block are
  stored. While they fit, they are appended; when they do not fit, the oldest bytes are dropped to make
  room, except when the read and write mirrors were equal: then the code leaves the buffer empty and
  every byte, old and new, is lost.
\<close>

theorem rt_ringbuffer_put_force_spec:
  assumes "rb_inv rb" and "n \<le> length ptr"
    and "k = min n (rb_capacity rb)" and "space = rb_capacity rb - length (rb_contents rb)"
  shows "\<exists>rb'. rt_ringbuffer_put_force rb ptr n = Some (k, rb') \<and> rb_inv rb'
          \<and> rb_capacity rb' = rb_capacity rb
          \<and> rb_contents rb' = (if k > space \<and> read_mirror rb = write_mirror rb then []
                               else drop (k - space) (rb_contents rb) @ drop (n - k) (take n ptr))"
  using rb_put_force_block [OF assms(1-3) refl assms(4)] .

theorem rt_ringbuffer_put_force_spec_witness:
  "\<exists>rb'. rt_ringbuffer_put_force rb_sample [1, 2, 3, 4, 5, 6, 7] 7 = Some (7, rb') \<and> rb_inv rb'
     \<and> rb_capacity rb' = rb_capacity rb_sample \<and> rb_contents rb' = []"
proof -
  have "rb_inv rb_sample" and c: "6 = rb_capacity rb_sample - length (rb_contents rb_sample)"
    and k: "7 = min 7 (rb_capacity rb_sample)" and m: "read_mirror rb_sample = write_mirror rb_sample"
    by (simp_all add: rb_sample_def rb_inv_def rb_contents_def rb_capacity_def)
  from rt_ringbuffer_put_force_spec [OF this(1) _ k c, of "[1, 2, 3, 4, 5, 6, 7]"] m
  show ?thesis by simp
qed

end
