(* ===== verification/Heap.thy ===== *)
theory Heap
  imports Prelude
begin

text \<open>
  The system heap of \<^verbatim>\<open>os/mem.c\<close> (first fit over a doubly linked list of blocks). The
  state is the set of static variables of that file; the headers of the blocks are a finite map from
  offsets into the heap to \<^verbatim>\<open>struct heap_mem\<close>, so that reading a header that was never written is
  \<open>None\<close>, and \<open>heap_bytes\<close> holds the bytes the clients store in their blocks, indexed by offset.
  Offsets and sizes are naturals with the 32-bit wrap-around of \<^verbatim>\<open>rt_size_t\<close> written out
  (\<open>add32\<close>, \<open>sub32\<close>). The heap semaphore makes the operations atomic; the argument \<open>nest\<close> is
  \<^verbatim>\<open>rt_interrupt_nest\<close>, tested by \<^verbatim>\<open>RT_DEBUG_NOT_IN_INTERRUPT\<close>.
\<close>

section \<open>Definitions\<close>

definition add32 :: "nat \<Rightarrow> nat \<Rightarrow> nat" where
  "add32 a b = (a + b) mod 2 ^ 32"

definition sub32 :: "nat \<Rightarrow> nat \<Rightarrow> nat" where
  "sub32 a b = nat ((int a - int b) mod 2 ^ 32)"

definition align_up4 :: "nat \<Rightarrow> nat" where
  "align_up4 n = add32 n 3 div 4 * 4"

definition align_down4 :: "nat \<Rightarrow> nat" where
  "align_down4 n = n div 4 * 4"

abbreviation (input) HEAP_MAGIC :: nat where "HEAP_MAGIC \<equiv> 0x1ea0"
abbreviation (input) SIZEOF_STRUCT_MEM :: nat where "SIZEOF_STRUCT_MEM \<equiv> 12"
abbreviation (input) MIN_SIZE_ALIGNED :: nat where "MIN_SIZE_ALIGNED \<equiv> 12"

record heap_mem =
  hm_magic :: nat
  hm_used :: nat
  hm_next :: nat
  hm_prev :: nat

record rt_heap =
  heap_ptr :: nat
  heap_end :: nat
  lfree :: nat
  mem_size_aligned :: nat
  used_mem :: nat
  max_mem :: nat
  heap_hdr :: "nat \<rightharpoonup> heap_mem"
  heap_bytes :: "nat \<Rightarrow> u8"

definition hdr_upd :: "nat \<Rightarrow> (heap_mem \<Rightarrow> heap_mem) \<Rightarrow> rt_heap \<Rightarrow> rt_heap option" where
  "hdr_upd p f h = do {
     m \<leftarrow> heap_hdr h p;
     Some (h\<lparr>heap_hdr := (heap_hdr h)(p \<mapsto> f m)\<rparr>)
   }"

definition plug_holes :: "rt_heap \<Rightarrow> nat \<Rightarrow> rt_heap option" where
  "plug_holes h mem = do {
     rt_assert (mem < heap_end h);
     m \<leftarrow> heap_hdr h mem;
     rt_assert (hm_used m = 0);
     let nmem = hm_next m;
     nm \<leftarrow> heap_hdr h nmem;
     h1 \<leftarrow> (if mem \<noteq> nmem \<and> hm_used nm = 0 \<and> nmem \<noteq> heap_end h then do {
              let h' = (if lfree h = nmem then h\<lparr>lfree := mem\<rparr> else h);
              h'' \<leftarrow> hdr_upd mem (\<lambda>x. x\<lparr>hm_next := hm_next nm\<rparr>) h';
              hdr_upd (hm_next nm) (\<lambda>x. x\<lparr>hm_prev := mem\<rparr>) h''
            } else Some h);
     m1 \<leftarrow> heap_hdr h1 mem;
     let pmem = hm_prev m1;
     pm \<leftarrow> heap_hdr h1 pmem;
     if pmem \<noteq> mem \<and> hm_used pm = 0 then do {
       let h' = (if lfree h1 = mem then h1\<lparr>lfree := pmem\<rparr> else h1);
       h'' \<leftarrow> hdr_upd pmem (\<lambda>x. x\<lparr>hm_next := hm_next m1\<rparr>) h';
       hdr_upd (hm_next m1) (\<lambda>x. x\<lparr>hm_prev := pmem\<rparr>) h''
     } else Some h1
   }"

text \<open>\<^verbatim>\<open>rt_system_heap_init\<close>; the semaphore it initialises belongs to the locking that is not
  modelled. The error branch prints a message and leaves the state as it is.\<close>

definition rt_system_heap_init :: "rt_heap \<Rightarrow> nat \<Rightarrow> nat \<Rightarrow> nat \<Rightarrow> rt_heap option" where
  "rt_system_heap_init h nest begin_addr end_addr = do {
     let begin_align = align_up4 begin_addr;
     let end_align = align_down4 end_addr;
     rt_assert (nest = 0);
     if end_align > 2 * SIZEOF_STRUCT_MEM \<and> end_align - 2 * SIZEOF_STRUCT_MEM \<ge> begin_align then do {
       let msa = end_align - begin_align - 2 * SIZEOF_STRUCT_MEM;
       let e = msa + SIZEOF_STRUCT_MEM;
       Some (h\<lparr>mem_size_aligned := msa, heap_ptr := begin_align, heap_end := e, lfree := 0,
               heap_hdr := (heap_hdr h)
                 (0 \<mapsto> \<lparr>hm_magic = HEAP_MAGIC, hm_used = 0, hm_next = e, hm_prev = 0\<rparr>,
                  e \<mapsto> \<lparr>hm_magic = HEAP_MAGIC, hm_used = 1, hm_next = e, hm_prev = e\<rparr>)\<rparr>)
     }
     else Some h
   }"

text \<open>The loop that advances \<^verbatim>\<open>lfree\<close> to the next free block.\<close>

partial_function (option) lfree_advance :: "rt_heap \<Rightarrow> nat \<Rightarrow> nat option" where
  "lfree_advance h p = do {
     m \<leftarrow> heap_hdr h p;
     if hm_used m \<noteq> 0 \<and> p \<noteq> heap_end h then lfree_advance h (hm_next m) else Some p
   }"

text \<open>What the search loop of \<^verbatim>\<open>rt_malloc\<close> does when it found the block \<open>ptr\<close> with header \<open>m\<close>: the block is
  marked as used, and split when the rest is large enough; then \<^verbatim>\<open>lfree\<close> is advanced.\<close>

definition malloc_mark :: "rt_heap \<Rightarrow> nat \<Rightarrow> nat \<Rightarrow> heap_mem \<Rightarrow> rt_heap option" where
  "malloc_mark h sz ptr m =
     (if sub32 (hm_next m) (add32 ptr SIZEOF_STRUCT_MEM) \<ge> add32 sz (SIZEOF_STRUCT_MEM + MIN_SIZE_ALIGNED) then do {
        let ptr2 = add32 (add32 ptr SIZEOF_STRUCT_MEM) sz;
        let h' = h\<lparr>heap_hdr := (heap_hdr h)
           (ptr2 \<mapsto> \<lparr>hm_magic = HEAP_MAGIC, hm_used = 0, hm_next = hm_next m, hm_prev = ptr\<rparr>,
            ptr \<mapsto> m\<lparr>hm_next := ptr2, hm_used := 1\<rparr>)\<rparr>;
        h'' \<leftarrow> (if hm_next m \<noteq> mem_size_aligned h + SIZEOF_STRUCT_MEM
                then hdr_upd (hm_next m) (\<lambda>x. x\<lparr>hm_prev := ptr2\<rparr>) h' else Some h');
        let u = add32 (used_mem h'') (add32 sz SIZEOF_STRUCT_MEM);
        Some (h''\<lparr>used_mem := u, max_mem := max (max_mem h'') u\<rparr>)
      } else do {
        let u = add32 (used_mem h) (sub32 (hm_next m) ptr);
        Some (h\<lparr>heap_hdr := (heap_hdr h)(ptr \<mapsto> m\<lparr>hm_used := 1\<rparr>),
                used_mem := u, max_mem := max (max_mem h) u\<rparr>)
      })"

definition malloc_take :: "rt_heap \<Rightarrow> nat \<Rightarrow> nat \<Rightarrow> heap_mem \<Rightarrow> rt_heap option" where
  "malloc_take h sz ptr m = do {
     h1 \<leftarrow> malloc_mark h sz ptr m;
     h2 \<leftarrow> hdr_upd ptr (\<lambda>x. x\<lparr>hm_magic := HEAP_MAGIC\<rparr>) h1;
     if ptr = lfree h2 then do {
       p \<leftarrow> lfree_advance h2 (lfree h2);
       pm \<leftarrow> heap_hdr h2 p;
       rt_assert (p = heap_end h2 \<or> hm_used pm = 0);
       Some (h2\<lparr>lfree := p\<rparr>)
     } else Some h2
   }"

partial_function (option) malloc_scan :: "rt_heap \<Rightarrow> nat \<Rightarrow> nat \<Rightarrow> (nat option \<times> rt_heap) option" where
  "malloc_scan h sz ptr =
     (if ptr < sub32 (mem_size_aligned h) sz then do {
        m \<leftarrow> heap_hdr h ptr;
        if hm_used m = 0 \<and> sub32 (hm_next m) (add32 ptr SIZEOF_STRUCT_MEM) \<ge> sz then do {
          h' \<leftarrow> malloc_take h sz ptr m;
          rt_assert (ptr + SIZEOF_STRUCT_MEM + sz \<le> heap_end h');
          rt_assert ((heap_ptr h' + ptr + SIZEOF_STRUCT_MEM) mod 4 = 0);
          rt_assert ((heap_ptr h' + ptr) mod 4 = 0);
          Some (Some (heap_ptr h' + ptr + SIZEOF_STRUCT_MEM), h')
        }
        else malloc_scan h sz (hm_next m)
      }
      else Some (None, h))"

definition rt_malloc :: "rt_heap \<Rightarrow> nat \<Rightarrow> nat \<Rightarrow> (nat option \<times> rt_heap) option" where
  "rt_malloc h nest sz0 =
     (if sz0 = 0 then Some (None, h)
      else do {
        rt_assert (nest = 0);
        let sz = align_up4 sz0;
        if sz > mem_size_aligned h then Some (None, h)
        else malloc_scan h (if sz < MIN_SIZE_ALIGNED then MIN_SIZE_ALIGNED else sz) (lfree h)
      })"

definition rt_free :: "rt_heap \<Rightarrow> nat \<Rightarrow> nat option \<Rightarrow> rt_heap option" where
  "rt_free h nest rmem0 =
     (case rmem0 of
        None \<Rightarrow> Some h
      | Some rmem \<Rightarrow> do {
          rt_assert (nest = 0);
          rt_assert (rmem mod 4 = 0);
          rt_assert (heap_ptr h \<le> rmem \<and> rmem < heap_ptr h + heap_end h);
          rt_assert (heap_ptr h + SIZEOF_STRUCT_MEM \<le> rmem);
          let mem = rmem - SIZEOF_STRUCT_MEM - heap_ptr h;
          m \<leftarrow> heap_hdr h mem;
          rt_assert (hm_used m \<noteq> 0);
          rt_assert (hm_magic m = HEAP_MAGIC);
          let h1 = h\<lparr>heap_hdr := (heap_hdr h)(mem \<mapsto> m\<lparr>hm_used := 0, hm_magic := HEAP_MAGIC\<rparr>)\<rparr>;
          let h2 = (if mem < lfree h1 then h1\<lparr>lfree := mem\<rparr> else h1);
          let h3 = h2\<lparr>used_mem := sub32 (used_mem h2) (sub32 (hm_next m) mem)\<rparr>;
          plug_holes h3 mem
        })"

text \<open>Copying and filling payload bytes; \<open>o1\<close> and \<open>o2\<close> are offsets from \<^verbatim>\<open>heap_ptr\<close>.\<close>

definition bytes_copy :: "(nat \<Rightarrow> u8) \<Rightarrow> nat \<Rightarrow> nat \<Rightarrow> nat \<Rightarrow> nat \<Rightarrow> u8" where
  "bytes_copy b o1 o2 n = (\<lambda>i. if o1 \<le> i \<and> i < o1 + n then b (o2 + (i - o1)) else b i)"

definition bytes_fill :: "(nat \<Rightarrow> u8) \<Rightarrow> nat \<Rightarrow> u8 \<Rightarrow> nat \<Rightarrow> nat \<Rightarrow> u8" where
  "bytes_fill b o1 c n = (\<lambda>i. if o1 \<le> i \<and> i < o1 + n then c else b i)"

text \<open>The branch of \<^verbatim>\<open>rt_realloc\<close> that splits a block in place.\<close>

definition realloc_shrink :: "rt_heap \<Rightarrow> nat \<Rightarrow> heap_mem \<Rightarrow> nat \<Rightarrow> nat \<Rightarrow> rt_heap option" where
  "realloc_shrink h ptr m sz newsize = do {
     let ptr2 = ptr + SIZEOF_STRUCT_MEM + newsize;
     let h1 = h\<lparr>used_mem := sub32 (used_mem h) (sz - newsize),
        heap_hdr := (heap_hdr h)
         (ptr2 \<mapsto> \<lparr>hm_magic = HEAP_MAGIC, hm_used = 0, hm_next = hm_next m, hm_prev = ptr\<rparr>,
          ptr \<mapsto> m\<lparr>hm_next := ptr2\<rparr>)\<rparr>;
     h2 \<leftarrow> (if hm_next m \<noteq> mem_size_aligned h + SIZEOF_STRUCT_MEM
            then hdr_upd (hm_next m) (\<lambda>x. x\<lparr>hm_prev := ptr2\<rparr>) h1 else Some h1);
     plug_holes (if ptr2 < lfree h2 then h2\<lparr>lfree := ptr2\<rparr> else h2) ptr2
   }"

definition rt_realloc :: "rt_heap \<Rightarrow> nat \<Rightarrow> nat option \<Rightarrow> nat \<Rightarrow> (nat option \<times> rt_heap) option" where
  "rt_realloc h nest rmem0 newsize0 = do {
     rt_assert (nest = 0);
     let newsize = align_up4 newsize0;
     if newsize > mem_size_aligned h then Some (None, h)
     else if newsize = 0 then do { h' \<leftarrow> rt_free h nest rmem0; Some (None, h') }
     else (case rmem0 of
       None \<Rightarrow> rt_malloc h nest newsize
     | Some rmem \<Rightarrow>
         if rmem < heap_ptr h \<or> rmem \<ge> heap_ptr h + heap_end h then Some (Some rmem, h)
         else do {
           rt_assert (heap_ptr h + SIZEOF_STRUCT_MEM \<le> rmem);
           let ptr = rmem - SIZEOF_STRUCT_MEM - heap_ptr h;
           m \<leftarrow> heap_hdr h ptr;
           let sz = sub32 (sub32 (hm_next m) ptr) SIZEOF_STRUCT_MEM;
           if sz = newsize then Some (Some rmem, h)
           else if newsize + SIZEOF_STRUCT_MEM + 12 < sz then do {
             h1 \<leftarrow> realloc_shrink h ptr m sz newsize;
             Some (Some rmem, h1)
           }
           else do {
             (nmem, h1) \<leftarrow> rt_malloc h nest newsize;
             case nmem of
               None \<Rightarrow> Some (None, h1)
             | Some np \<Rightarrow> do {
                 let h2 = h1\<lparr>heap_bytes := bytes_copy (heap_bytes h1) (np - heap_ptr h1)
                               (rmem - heap_ptr h1) (if sz < newsize then sz else newsize)\<rparr>;
                 h3 \<leftarrow> rt_free h2 nest (Some rmem);
                 Some (Some np, h3)
               }
           }
         })
   }"

definition rt_calloc :: "rt_heap \<Rightarrow> nat \<Rightarrow> nat \<Rightarrow> nat \<Rightarrow> (nat option \<times> rt_heap) option" where
  "rt_calloc h nest count sz = do {
     let n = (count * sz) mod 2 ^ 32;
     (p, h1) \<leftarrow> rt_malloc h nest n;
     case p of
       None \<Rightarrow> Some (None, h1)
     | Some a \<Rightarrow> Some (Some a, h1\<lparr>heap_bytes := bytes_fill (heap_bytes h1) (a - heap_ptr h1) 0 n\<rparr>)
   }"

definition rt_memory_info :: "rt_heap \<Rightarrow> nat \<times> nat \<times> nat" where
  "rt_memory_info h = (mem_size_aligned h, used_mem h, max_mem h)"

end
