(* ===== verification/Heap_Spec.thy ===== *)
theory Heap_Spec
  imports Heap
begin

text \<open>
  The heap as a sequence of blocks. A heap is well formed when its headers describe a sequence of blocks that
  tile it without gaps, no two free blocks are neighbours, \<^verbatim>\<open>lfree\<close> is the lowest free block and
  \<^verbatim>\<open>used_mem\<close> the sum of the sizes of the used ones. Allocation and release refine operations on the
  sequence: first fit with splitting, and release with merging of the neighbours.
\<close>

section \<open>Definitions\<close>

text \<open>A block: its size, header included, and whether it is used. \<open>hchain f pr p bs e\<close>: the headers \<open>f\<close> from
  offset \<open>p\<close> to \<open>e\<close> describe the blocks \<open>bs\<close>, and the block before \<open>p\<close> is \<open>pr\<close>.\<close>

type_synonym block = "nat \<times> bool"

fun hchain :: "(nat \<rightharpoonup> heap_mem) \<Rightarrow> nat \<Rightarrow> nat \<Rightarrow> block list \<Rightarrow> nat \<Rightarrow> bool" where
  "hchain f pr p [] e = (p = e)"
| "hchain f pr p ((g, u) # bs) e =
     (f p = Some \<lparr>hm_magic = HEAP_MAGIC, hm_used = (if u then 1 else 0), hm_next = p + g, hm_prev = pr\<rparr>
      \<and> SIZEOF_STRUCT_MEM \<le> g \<and> 4 dvd g \<and> hchain f p (p + g) bs e)"

definition extent :: "block list \<Rightarrow> nat" where
  "extent bs = sum_list (map fst bs)"

fun used_sum :: "block list \<Rightarrow> nat" where
  "used_sum [] = 0"
| "used_sum ((g, u) # bs) = (if u then g else 0) + used_sum bs"

fun low_free :: "nat \<Rightarrow> block list \<Rightarrow> nat" where
  "low_free p [] = p"
| "low_free p ((g, u) # bs) = (if u then low_free (p + g) bs else p)"

fun no_adjacent_free :: "block list \<Rightarrow> bool" where
  "no_adjacent_free ((g, u) # (g', u') # bs) = ((u \<or> u') \<and> no_adjacent_free ((g', u') # bs))"
| "no_adjacent_free _ = True"

text \<open>The offset of the last block of \<open>bs\<close> from \<open>p\<close>, or \<open>pr\<close>.\<close>

fun last_pos :: "nat \<Rightarrow> nat \<Rightarrow> block list \<Rightarrow> nat" where
  "last_pos pr p [] = pr"
| "last_pos pr p ((g, u) # bs) = last_pos p (p + g) bs"

definition heap_shape :: "rt_heap \<Rightarrow> block list \<Rightarrow> bool" where
  "heap_shape h bs \<longleftrightarrow> hchain (heap_hdr h) 0 0 bs (heap_end h) \<and> bs \<noteq> []
     \<and> (\<exists>m. heap_hdr h (heap_end h) = Some m \<and> hm_used m = 1 \<and> hm_next m = heap_end h)
     \<and> mem_size_aligned h + SIZEOF_STRUCT_MEM = heap_end h \<and> heap_ptr h + heap_end h + SIZEOF_STRUCT_MEM < 2 ^ 32
     \<and> 4 dvd heap_ptr h \<and> lfree h = low_free 0 bs \<and> used_mem h = used_sum bs
     \<and> (\<forall>b \<in> set bs. snd b \<longrightarrow> SIZEOF_STRUCT_MEM < fst b)"

definition heap_wf :: "rt_heap \<Rightarrow> block list \<Rightarrow> bool" where
  "heap_wf h bs \<longleftrightarrow> heap_shape h bs \<and> no_adjacent_free bs"

text \<open>First fit: the free block that the search finds, with the blocks before and behind it. The search
  gives up at offset \<open>msa - sz\<close>.\<close>

fun first_fit :: "nat \<Rightarrow> nat \<Rightarrow> nat \<Rightarrow> block list \<Rightarrow> (block list \<times> nat \<times> block list) option" where
  "first_fit msa sz p [] = None"
| "first_fit msa sz p ((g, u) # bs) =
     (if p < msa - sz then
        if \<not> u \<and> sz + SIZEOF_STRUCT_MEM \<le> g then Some ([], g, bs)
        else map_option (\<lambda>(xs, g', ys). ((g, u) # xs, g', ys)) (first_fit msa sz (p + g) bs)
      else None)"

text \<open>Taking \<open>sz\<close> bytes from a free block, and releasing a block.\<close>

definition take_block :: "nat \<Rightarrow> nat \<Rightarrow> block list" where
  "take_block sz g =
     (if sz + 2 * SIZEOF_STRUCT_MEM + MIN_SIZE_ALIGNED \<le> g
      then [(sz + SIZEOF_STRUCT_MEM, True), (g - sz - SIZEOF_STRUCT_MEM, False)] else [(g, True)])"

definition merge_next :: "nat \<Rightarrow> block list \<Rightarrow> block list" where
  "merge_next g ys = (case ys of (g', False) # zs \<Rightarrow> (g + g', False) # zs | _ \<Rightarrow> (g, False) # ys)"

definition merge_blocks :: "block list \<Rightarrow> nat \<Rightarrow> block list \<Rightarrow> block list" where
  "merge_blocks xs g ys =
     (if xs \<noteq> [] \<and> \<not> snd (last xs) then butlast xs @ merge_next (fst (last xs) + g) ys else xs @ merge_next g ys)"

text \<open>The allocated blocks, as offset and size.\<close>

fun used_blocks :: "nat \<Rightarrow> block list \<Rightarrow> (nat \<times> nat) list" where
  "used_blocks p [] = []"
| "used_blocks p ((g, u) # bs) = (if u then [(p, g)] else []) @ used_blocks (p + g) bs"

text \<open>What the operations never change.\<close>

definition same_arena :: "rt_heap \<Rightarrow> rt_heap \<Rightarrow> bool" where
  "same_arena h h' \<longleftrightarrow> heap_ptr h' = heap_ptr h \<and> heap_end h' = heap_end h \<and> mem_size_aligned h' = mem_size_aligned h"

text \<open>A heap of 200 bytes with an allocated block of 24 bytes at its start.\<close>

definition sample_heap :: rt_heap where
  "sample_heap = \<lparr>heap_ptr = 4096, heap_end = 200, lfree = 24, mem_size_aligned = 188, used_mem = 24, max_mem = 24,
     heap_hdr = [0 \<mapsto> \<lparr>hm_magic = HEAP_MAGIC, hm_used = 1, hm_next = 24, hm_prev = 0\<rparr>,
       24 \<mapsto> \<lparr>hm_magic = HEAP_MAGIC, hm_used = 0, hm_next = 200, hm_prev = 0\<rparr>,
       200 \<mapsto> \<lparr>hm_magic = HEAP_MAGIC, hm_used = 1, hm_next = 200, hm_prev = 200\<rparr>],
     heap_bytes = (\<lambda>_. 7)\<rparr>"

text \<open>The addresses that are handed out, and a client: it owns the addresses \<open>A\<close>, writes bytes and calls the
  operations, releasing only what it owns.\<close>

definition live_addresses :: "rt_heap \<Rightarrow> block list \<Rightarrow> nat set" where
  "live_addresses h bs = (\<lambda>b. heap_ptr h + fst b + SIZEOF_STRUCT_MEM) ` set (used_blocks 0 bs)"

definition heap_owned :: "rt_heap \<times> nat set \<Rightarrow> bool" where
  "heap_owned s \<longleftrightarrow> (\<exists>bs. heap_wf (fst s) bs \<and> MIN_SIZE_ALIGNED \<le> mem_size_aligned (fst s) \<and> snd s = live_addresses (fst s) bs)"

definition payload_size :: "rt_heap \<Rightarrow> nat \<Rightarrow> nat" where
  "payload_size h a = (case heap_hdr h (a - SIZEOF_STRUCT_MEM - heap_ptr h) of
      None \<Rightarrow> 0 | Some m \<Rightarrow> hm_next m - (a - heap_ptr h))"

inductive heap_step :: "rt_heap \<times> nat set \<Rightarrow> rt_heap \<times> nat set \<Rightarrow> bool" where
  client_write: "heap_step (h, A) (h\<lparr>heap_bytes := f\<rparr>, A)"
| client_malloc: "n \<le> 2 ^ 32 - 4 \<Longrightarrow> rt_malloc h 0 n = Some (r, h') \<Longrightarrow> heap_step (h, A) (h', A \<union> set_option r)"
| client_calloc: "c * n \<le> 2 ^ 32 - 4 \<Longrightarrow> rt_calloc h 0 c n = Some (r, h') \<Longrightarrow> heap_step (h, A) (h', A \<union> set_option r)"
| client_free: "a \<in> A \<Longrightarrow> rt_free h 0 (Some a) = Some h' \<Longrightarrow> heap_step (h, A) (h', A - {a})"
| client_realloc: "a \<in> A \<Longrightarrow> 0 < n \<Longrightarrow> n \<le> 2 ^ 32 - 4 \<Longrightarrow> rt_realloc h 0 (Some a) n = Some (Some b, h')
    \<Longrightarrow> heap_step (h, A) (h', insert b (A - {a}))"
| client_realloc_fails: "a \<in> A \<Longrightarrow> 0 < n \<Longrightarrow> n \<le> 2 ^ 32 - 4 \<Longrightarrow> rt_realloc h 0 (Some a) n = Some (None, h')
    \<Longrightarrow> heap_step (h, A) (h', A)"

section \<open>Chains\<close>

lemma extent_simps [simp]: "extent [] = 0" "extent ((g, u) # bs) = g + extent bs" "extent (xs @ ys) = extent xs + extent ys"
  by (simp_all add: extent_def)

lemma hchain_append:
  "hchain f pr p (xs @ ys) e \<longleftrightarrow> hchain f pr p xs (p + extent xs) \<and> hchain f (last_pos pr p xs) (p + extent xs) ys e"
  by (induction xs arbitrary: pr p) (auto simp: add.assoc)

lemma hchain_end: "hchain f pr p bs e \<Longrightarrow> e = p + extent bs"
proof (induction bs arbitrary: pr p)
  case (Cons b bs)
  obtain g u where b: "b = (g, u)" by (cases b)
  have "hchain f p (p + g) bs e" using Cons.prems by (simp add: b)
  from Cons.IH [OF this] show ?case by (simp add: b)
qed simp

lemma hchain_cong:
  "hchain f pr p bs e \<Longrightarrow> (\<And>q. p \<le> q \<Longrightarrow> q < e \<Longrightarrow> f' q = f q) \<Longrightarrow> hchain f' pr p bs e"
proof (induction bs arbitrary: pr p)
  case (Cons b bs)
  obtain g u where b: "b = (g, u)" by (cases b)
  have e: "e = p + g + extent bs" using hchain_end [OF Cons.prems(1)] by (simp add: b)
  have "p < e" using Cons.prems(1) e by (simp add: b)
  then show ?case using Cons.prems Cons.IH [of p "p + g"] by (auto simp: b)
qed simp

lemma hchain_upd_outside:
  "hchain f pr p bs e \<Longrightarrow> q < p \<or> e \<le> q \<Longrightarrow> hchain (f(q \<mapsto> m)) pr p bs e"
  by (erule hchain_cong) auto

text \<open>The block in front of a chain is recorded in its first header.\<close>

lemma hchain_new_prev:
  assumes "hchain f pr p ys e" "ys \<noteq> []"
  obtains m where "f p = Some m" "hchain (f(p \<mapsto> m\<lparr>hm_prev := pr'\<rparr>)) pr' p ys e" "hm_next m = p + fst (hd ys)"
    "hm_used m = (if snd (hd ys) then 1 else 0)" "p < e"
proof -
  obtain g u zs where ys: "ys = (g, u) # zs" using assms(2) by (metis list.exhaust prod.exhaust)
  let ?m = "\<lparr>hm_magic = HEAP_MAGIC, hm_used = (if u then 1 else 0 :: nat), hm_next = p + g, hm_prev = pr\<rparr>"
  have D: "f p = Some ?m" "12 \<le> g" "4 dvd g" "hchain f p (p + g) zs e" using assms(1) by (simp_all add: ys)
  have "hchain (f(p \<mapsto> ?m\<lparr>hm_prev := pr'\<rparr>)) p (p + g) zs e" using D by (intro hchain_upd_outside) auto
  moreover have "p < e" using hchain_end [OF D(4)] D(2) by simp
  ultimately show thesis using that [of ?m] D by (simp add: ys)
qed

lemma hchain_dvd: "hchain f pr p bs e \<Longrightarrow> 4 dvd p \<Longrightarrow> 4 dvd e"
  by (induction bs arbitrary: pr p) auto

lemma last_pos_append [simp]: "last_pos pr p (xs @ [(g, u)]) = p + extent xs"
  by (induction xs arbitrary: pr p) (auto simp: add.assoc)

lemma used_sum_append [simp]: "used_sum (xs @ ys) = used_sum xs + used_sum ys"
  by (induction xs) auto

lemma used_sum_bound: "used_sum bs \<le> extent bs"
  by (induction bs rule: used_sum.induct) auto

lemma low_free_append:
  "low_free p (xs @ ys) = (if \<exists>b \<in> set xs. \<not> snd b then low_free p xs else low_free (p + extent xs) ys)"
  by (induction p xs rule: low_free.induct) (auto simp: add.assoc)

section \<open>Arithmetic\<close>

lemma add32_small: "a + b < 2 ^ 32 \<Longrightarrow> add32 a b = a + b"
  by (simp add: add32_def)

lemma sub32_small: "b \<le> a \<Longrightarrow> a < 2 ^ 32 \<Longrightarrow> sub32 a b = a - b"
  by (simp add: sub32_def nat_diff_distrib flip: of_nat_diff)

lemma align_up4_bounds:
  assumes "n \<le> 2 ^ 32 - 4"
  shows "n \<le> align_up4 n" "align_up4 n < n + 4" "4 dvd align_up4 n"
proof -
  have a: "align_up4 n = (n + 3) div 4 * 4" using assms by (simp add: align_up4_def add32_def)
  show "n \<le> align_up4 n" "align_up4 n < n + 4" "4 dvd align_up4 n" unfolding a by auto
qed

section \<open>Searching\<close>

lemma no_adjacent_free_append:
  "no_adjacent_free (xs @ ys) \<longleftrightarrow> no_adjacent_free xs \<and> no_adjacent_free ys
     \<and> (xs = [] \<or> ys = [] \<or> snd (last xs) \<or> snd (hd ys))"
proof (induction xs)
  case (Cons b xs)
  obtain g u where b: "b = (g, u)" by (cases b)
  note IH = Cons.IH
  show ?case
  proof (cases xs)
    case Nil
    then show ?thesis by (cases ys) (auto simp: b)
  next
    case (Cons c zs)
    obtain g' u' where c: "c = (g', u')" by (cases c)
    show ?thesis using IH by (auto simp: b c Cons)
  qed
qed simp

lemma lfree_advance_chain:
  assumes "hchain (heap_hdr h) pr p bs (heap_end h)" "heap_hdr h (heap_end h) = Some m" "hm_used m = 1"
  shows "lfree_advance h p = Some (low_free p bs)"
  using assms(1)
proof (induction bs arbitrary: pr p)
  case Nil
  then show ?case using assms(2,3) by (subst lfree_advance.simps) simp
next
  case (Cons b bs)
  obtain g u where b: "b = (g, u)" by (cases b)
  have "hchain (heap_hdr h) p (p + g) bs (heap_end h)" "p < heap_end h"
    using Cons.prems hchain_end [OF Cons.prems] by (simp_all add: b)
  then show ?case using Cons.IH [of p "p + g"] Cons.prems by (subst lfree_advance.simps) (simp add: b)
qed

lemma low_free_block:
  assumes "hchain f pr p bs e"
  shows "low_free p bs = e \<or> (\<exists>m. f (low_free p bs) = Some m \<and> hm_used m = 0)"
  using assms by (induction p bs arbitrary: pr rule: low_free.induct) auto

lemma heap_wf_shape: "heap_wf h bs \<Longrightarrow> heap_shape h bs"
  by (simp add: heap_wf_def)

text \<open>A heap with the block \<open>(g, u)\<close> in the middle.\<close>

lemma heap_shape_split:
  assumes "heap_shape h (xs @ (g, u) # ys)"
  shows "hchain (heap_hdr h) 0 0 xs (extent xs)"
    "heap_hdr h (extent xs) = Some \<lparr>hm_magic = HEAP_MAGIC, hm_used = (if u then 1 else 0),
       hm_next = extent xs + g, hm_prev = last_pos 0 0 xs\<rparr>"
    "12 \<le> g" "4 dvd g" "hchain (heap_hdr h) (extent xs) (extent xs + g) ys (heap_end h)"
    "heap_end h = extent xs + g + extent ys" "heap_ptr h + heap_end h + 12 < 2 ^ 32" "4 dvd extent xs"
proof -
  have ch: "hchain (heap_hdr h) 0 0 (xs @ (g, u) # ys) (heap_end h)" and b: "heap_ptr h + heap_end h + 12 < 2 ^ 32"
    using assms unfolding heap_shape_def by blast+
  note A = ch [unfolded hchain_append, simplified]
  show "hchain (heap_hdr h) 0 0 xs (extent xs)" "12 \<le> g" "4 dvd g"
    "heap_hdr h (extent xs) = Some \<lparr>hm_magic = HEAP_MAGIC, hm_used = (if u then 1 else 0),
       hm_next = extent xs + g, hm_prev = last_pos 0 0 xs\<rparr>"
    "hchain (heap_hdr h) (extent xs) (extent xs + g) ys (heap_end h)" using A by simp_all
  show "heap_end h = extent xs + g + extent ys" using hchain_end [OF ch] by simp
  show "heap_ptr h + heap_end h + 12 < 2 ^ 32" by (rule b)
  show "4 dvd extent xs" using hchain_dvd [of "heap_hdr h" 0 0 xs "extent xs"] A by simp
qed

lemma take_block_simps:
  assumes "sz + 12 \<le> g"
  shows "extent (take_block sz g) = g" "used_sum (take_block sz g) = fst (hd (take_block sz g))"
    "take_block sz g \<noteq> []" "snd (hd (take_block sz g))" "sz + 12 \<le> fst (hd (take_block sz g))"
    "\<forall>b \<in> set (take_block sz g). snd b \<longrightarrow> sz + 12 \<le> fst b"
  using assms by (auto simp: take_block_def)

lemma take_block_cons: "sz + 12 \<le> g \<Longrightarrow> \<exists>g1 rs. take_block sz g = (g1, True) # rs \<and> sz + 12 \<le> g1"
  by (auto simp: take_block_def)

lemma take_block_naf:
  "no_adjacent_free (xs @ (g, False) # ys) \<Longrightarrow> no_adjacent_free (xs @ take_block sz g @ ys)"
  by (auto simp: no_adjacent_free_append take_block_def) (cases ys; force simp: no_adjacent_free_append)+

lemma take_block_low:
  assumes "low_free 0 (xs @ (g, False) # ys) \<noteq> extent xs"
  shows "low_free 0 (xs @ take_block sz g @ ys) = low_free 0 (xs @ (g, False) # ys)"
  using assms by (auto simp: low_free_append split: if_splits)

lemma take_block_low':
  assumes "low_free 0 (xs @ (g, False) # ys) = extent xs" "hchain f 0 0 xs (extent xs)"
  shows "low_free 0 (xs @ take_block sz g @ ys) = low_free (extent xs) (take_block sz g @ ys)"
proof -
  have lt: "low_free p zs < p + extent zs" if "\<exists>b \<in> set zs. \<not> snd b" "hchain f pr p zs (p + extent zs)" for p pr zs
    using that
  proof (induction zs arbitrary: p pr)
    case (Cons b zs)
    obtain g u where b: "b = (g, u)" by (cases b)
    show ?case using Cons.IH [where p = "p + g" and pr = p] Cons.prems by (auto simp: b add.assoc)
  qed simp
  have "\<not> (\<exists>b \<in> set xs. \<not> snd b)"
  proof
    assume "\<exists>b \<in> set xs. \<not> snd b"
    then show False using lt [of xs 0 0] assms by (simp add: low_free_append)
  qed
  then show ?thesis by (simp add: low_free_append)
qed

section \<open>Allocation\<close>

lemma split_headers:
  assumes wf: "heap_shape h (xs @ (g, u) # ys)" and n: "n + 12 \<le> g" "12 \<le> n" "4 dvd n"
    and f: "f' (extent xs) = Some \<lparr>hm_magic = HEAP_MAGIC, hm_used = 1, hm_next = extent xs + n, hm_prev = last_pos 0 0 xs\<rparr>"
      "f' (extent xs + n) = Some \<lparr>hm_magic = HEAP_MAGIC, hm_used = 0, hm_next = extent xs + g, hm_prev = extent xs\<rparr>"
      "ys \<noteq> [] \<Longrightarrow> f' (extent xs + g) = map_option (\<lambda>m. m\<lparr>hm_prev := extent xs + n\<rparr>) (heap_hdr h (extent xs + g))"
      "\<And>q. q \<noteq> extent xs \<Longrightarrow> q \<noteq> extent xs + n \<Longrightarrow> q \<noteq> extent xs + g \<Longrightarrow> f' q = heap_hdr h q"
  shows "hchain f' 0 0 (xs @ (n, True) # (g - n, False) # ys) (heap_end h)"
proof -
  note W = heap_shape_split [OF wf]
  have xs: "hchain f' 0 0 xs (extent xs)" by (rule hchain_cong [OF W(1)]) (use f(4) W(3) in auto)
  have ys: "hchain f' (extent xs + n) (extent xs + g) ys (heap_end h)"
  proof (cases "ys = []")
    case False
    obtain m where m: "heap_hdr h (extent xs + g) = Some m"
        and c: "hchain ((heap_hdr h)(extent xs + g \<mapsto> m\<lparr>hm_prev := extent xs + n\<rparr>)) (extent xs + n) (extent xs + g) ys (heap_end h)"
      by (rule hchain_new_prev [OF W(5) False]) blast
    show ?thesis by (rule hchain_cong [OF c]) (use f(3,4) False m n(1) in auto)
  qed (use W(6) in simp)
  have "4 dvd g - n" using W(4) n(3) by (simp add: dvd_diff_nat)
  then show ?thesis using xs ys f(1,2) n W(3,4) by (simp add: hchain_append)
qed

lemma use_header:
  assumes wf: "heap_shape h (xs @ (g, u) # ys)"
  shows "hchain ((heap_hdr h)(extent xs \<mapsto> \<lparr>hm_magic = HEAP_MAGIC, hm_used = (if v then 1 else 0), hm_next = extent xs + g,
      hm_prev = last_pos 0 0 xs\<rparr>)) 0 0 (xs @ (g, v) # ys) (heap_end h)"
proof -
  note W = heap_shape_split [OF wf]
  show ?thesis using W(3,4) hchain_upd_outside [OF W(1)] hchain_upd_outside [OF W(5)] by (simp add: hchain_append)
qed

text \<open>The block is marked and, if it is large, split.\<close>

lemma malloc_mark_ok:
  fixes sz :: nat and h :: rt_heap and xs ys :: "block list" and g :: nat
  assumes wf: "heap_wf h (xs @ (g, False) # ys)" and sz: "sz + 12 \<le> g" "12 \<le> sz" "4 dvd sz"
  defines "p \<equiv> extent xs"
  defines "m \<equiv> \<lparr>hm_magic = HEAP_MAGIC, hm_used = 0, hm_next = p + g, hm_prev = last_pos 0 0 xs\<rparr>"
  obtains h1 where "malloc_mark h sz p m = Some h1"
    "hchain (heap_hdr h1) 0 0 (xs @ take_block sz g @ ys) (heap_end h)" "same_arena h h1" "lfree h1 = lfree h"
    "heap_hdr h1 (heap_end h) = heap_hdr h (heap_end h)" "used_mem h1 = used_sum (xs @ take_block sz g @ ys)"
    "heap_bytes h1 = heap_bytes h"
proof -
  note W = heap_shape_split [OF heap_wf_shape [OF wf], folded p_def]
  have e: "heap_end h = mem_size_aligned h + 12" and um: "used_mem h = used_sum (xs @ (g, False) # ys)"
    using wf by (simp_all add: heap_wf_def heap_shape_def)
  have arith: "sub32 (p + g) (add32 p 12) = g - 12" "add32 sz 24 = sz + 24" "add32 (add32 p 12) sz = p + 12 + sz"
    "sub32 (p + g) p = g" "add32 sz 12 = sz + 12"
    using W(3,6,7) sz(1) by (simp_all add: add32_small sub32_small)
  have ub: "used_sum (xs @ (g, False) # ys) + g < 2 ^ 32"
    using used_sum_bound [of xs] used_sum_bound [of ys] W(6,7) by (simp add: p_def)
  show thesis
  proof (cases "sz + 36 \<le> g")
    case True
    let ?n = "sz + 12"
    have tb: "take_block sz g = [(?n, True), (g - ?n, False)]" using True by (simp add: take_block_def)
    let ?f = "(heap_hdr h)(p + ?n \<mapsto> \<lparr>hm_magic = HEAP_MAGIC, hm_used = 0, hm_next = p + g, hm_prev = p\<rparr>,
        p \<mapsto> m\<lparr>hm_next := p + ?n, hm_used := 1\<rparr>)"
    let ?f' = "if ys = [] then ?f else ?f(p + g := map_option (\<lambda>m. m\<lparr>hm_prev := p + ?n\<rparr>) (heap_hdr h (p + g)))"
    let ?h1 = "h\<lparr>heap_hdr := ?f', used_mem := used_mem h + ?n, max_mem := max (max_mem h) (used_mem h + ?n)\<rparr>"
    have pg: "p + g = heap_end h \<longleftrightarrow> ys = []"
    proof
      assume "p + g = heap_end h"
      then have "extent ys = 0" using W(6) by (simp add: p_def)
      then show "ys = []" using W(5) by (cases ys) auto
    qed (use W(6) p_def in simp)
    have "heap_hdr h (p + g) \<noteq> None" if "ys \<noteq> []" using W(5) that by (cases ys) auto
    then have upd: "hdr_upd (p + g) (\<lambda>x. x\<lparr>hm_prev := p + ?n\<rparr>) (h\<lparr>heap_hdr := ?f\<rparr>) = Some (h\<lparr>heap_hdr := ?f'\<rparr>)" if "ys \<noteq> []"
      using that True sz by (auto simp: hdr_upd_def fun_upd_twist)
    have u: "used_mem h + ?n < 2 ^ 32" using ub um True by simp
    have ptr2: "p + 12 + sz = p + ?n" by simp
    have cond: "add32 sz (12 + 12) \<le> sub32 (hm_next m) (add32 p 12)" using True by (simp add: m_def arith)
    have "malloc_mark h sz p m = Some ?h1"
      unfolding malloc_mark_def arith(3,5) ptr2 Let_def if_P [OF cond]
      using pg upd u by (cases "ys = []") (simp_all add: m_def e [symmetric] add32_small)
    moreover have "hchain ?f' 0 0 (xs @ (?n, True) # (g - ?n, False) # ys) (heap_end h)"
      by (rule split_headers [OF heap_wf_shape [OF wf], folded p_def]) (use True sz in \<open>auto simp: m_def\<close>)
    moreover have "?f' (heap_end h) = heap_hdr h (heap_end h)"
      using pg W(6) True sz by (auto simp: p_def)
    ultimately show thesis using that [of ?h1] tb um by (simp add: same_arena_def)
  next
    case False
    have tb: "take_block sz g = [(g, True)]" using False by (simp add: take_block_def)
    let ?h1 = "h\<lparr>heap_hdr := (heap_hdr h)(p \<mapsto> m\<lparr>hm_used := 1\<rparr>), used_mem := used_mem h + g, max_mem := max (max_mem h) (used_mem h + g)\<rparr>"
    have cond: "\<not> add32 sz (12 + 12) \<le> sub32 (hm_next m) (add32 p 12)" using False W(3) by (simp add: m_def arith)
    have "malloc_mark h sz p m = Some ?h1"
      unfolding malloc_mark_def if_not_P [OF cond] using ub um by (simp add: m_def arith Let_def add32_small)
    moreover have "hchain ((heap_hdr h)(p \<mapsto> m\<lparr>hm_used := 1\<rparr>)) 0 0 (xs @ (g, True) # ys) (heap_end h)"
      using use_header [OF heap_wf_shape [OF wf], of True] by (simp add: m_def p_def)
    ultimately show thesis using that [of ?h1] tb um W(3,6) by (simp add: same_arena_def p_def)
  qed
qed

lemma malloc_take_ok:
  fixes sz :: nat and h :: rt_heap and xs ys :: "block list" and g :: nat
  assumes wf: "heap_wf h (xs @ (g, False) # ys)" and sz: "sz + 12 \<le> g" "12 \<le> sz" "4 dvd sz"
  obtains h' where "malloc_take h sz (extent xs) \<lparr>hm_magic = HEAP_MAGIC, hm_used = 0, hm_next = extent xs + g,
      hm_prev = last_pos 0 0 xs\<rparr> = Some h'" "heap_wf h' (xs @ take_block sz g @ ys)" "same_arena h h'"
    "heap_bytes h' = heap_bytes h"
proof -
  let ?p = "extent xs" and ?bs = "xs @ take_block sz g @ ys"
  let ?m = "\<lparr>hm_magic = HEAP_MAGIC, hm_used = 0, hm_next = ?p + g, hm_prev = last_pos 0 0 xs\<rparr>"
  obtain h1 where mk: "malloc_mark h sz ?p ?m = Some h1" and c1: "hchain (heap_hdr h1) 0 0 ?bs (heap_end h)" and ar: "same_arena h h1"
    and lf: "lfree h1 = lfree h" and e1: "heap_hdr h1 (heap_end h) = heap_hdr h (heap_end h)" and um: "used_mem h1 = used_sum ?bs"
    and bt: "heap_bytes h1 = heap_bytes h" by (rule malloc_mark_ok [OF wf sz])
  obtain g1 u1 rs where tb: "take_block sz g @ ys = (g1, u1) # rs" using take_block_simps(3) [OF sz(1)] by (cases "take_block sz g") auto
  have "heap_hdr h1 ?p = Some \<lparr>hm_magic = HEAP_MAGIC, hm_used = (if u1 then 1 else 0), hm_next = ?p + g1, hm_prev = last_pos 0 0 xs\<rparr>"
    using c1 by (simp add: tb hchain_append)
  then have mg: "hdr_upd ?p (\<lambda>x. x\<lparr>hm_magic := HEAP_MAGIC\<rparr>) h1 = Some h1"
    by (auto simp: hdr_upd_def intro!: rt_heap.equality)
  have end1: "\<exists>m. heap_hdr h1 (heap_end h) = Some m \<and> hm_used m = 1 \<and> hm_next m = heap_end h"
    using wf e1 by (simp add: heap_wf_def heap_shape_def)
  have base: "heap_end h1 = heap_end h" "heap_ptr h1 = heap_ptr h" "mem_size_aligned h1 = mem_size_aligned h"
    using ar by (simp_all add: same_arena_def)
  have naf: "no_adjacent_free ?bs" using take_block_naf [of xs g ys sz] wf by (simp add: heap_wf_def heap_shape_def)
  have used: "\<forall>b \<in> set ?bs. snd b \<longrightarrow> 12 < fst b"
  proof
    fix b assume b: "b \<in> set ?bs"
    show "snd b \<longrightarrow> 12 < fst b"
    proof (cases "b \<in> set (take_block sz g)")
      case True
      then have "snd b \<longrightarrow> sz + 12 \<le> fst b" using take_block_simps(6) [OF sz(1)] by blast
      then show ?thesis using sz(2) by auto
    next
      case False
      then show ?thesis using b wf by (auto simp: heap_wf_def heap_shape_def)
    qed
  qed
  have wf': "heap_wf (h1\<lparr>lfree := low_free 0 ?bs\<rparr>) ?bs"
    using c1 end1 base um naf wf tb used by (simp add: heap_wf_def heap_shape_def)
  have lo: "lfree h = low_free 0 (xs @ (g, False) # ys)" using wf by (simp add: heap_wf_def heap_shape_def)
  show thesis
  proof (cases "?p = lfree h1")
    case True
    have "low_free 0 ?bs = low_free ?p (take_block sz g @ ys)"
      using take_block_low' [OF _ heap_shape_split(1) [OF heap_wf_shape [OF wf]]] True lf lo by simp
    moreover have ch: "hchain (heap_hdr h1) (last_pos 0 0 xs) ?p (take_block sz g @ ys) (heap_end h1)"
      using c1 base by (simp add: hchain_append)
    moreover have "lfree_advance h1 ?p = Some (low_free ?p (take_block sz g @ ys))"
      using lfree_advance_chain [OF ch] end1 base by auto
    moreover have "\<exists>pm. heap_hdr h1 (low_free ?p (take_block sz g @ ys)) = Some pm
        \<and> (low_free ?p (take_block sz g @ ys) = heap_end h1 \<or> hm_used pm = 0)"
      using low_free_block [OF ch] end1 base by auto
    ultimately have "malloc_take h sz ?p ?m = Some (h1\<lparr>lfree := low_free 0 ?bs\<rparr>)"
      using mk mg True [symmetric] by (auto simp: malloc_take_def)
    then show thesis using that [OF _ wf'] ar by (simp add: same_arena_def bt)
  next
    case False
    then have "malloc_take h sz ?p ?m = Some h1" using mk mg by (simp add: malloc_take_def)
    moreover have "h1\<lparr>lfree := low_free 0 ?bs\<rparr> = h1"
      using take_block_low [of xs g ys sz] False lf lo by (auto intro!: rt_heap.equality)
    ultimately show thesis using that wf' ar bt by simp
  qed
qed

text \<open>The search, from a block on. All blocks before it are used or too small.\<close>

lemma first_fit_split:
  "first_fit msa sz p bs = Some (xs, g, ys) \<Longrightarrow> bs = xs @ (g, False) # ys \<and> sz + 12 \<le> g \<and> p + extent xs < msa - sz"
  by (induction msa sz p bs arbitrary: xs rule: first_fit.induct) (auto split: if_splits)

lemma malloc_scan_chain:
  assumes "hchain (heap_hdr h) pr p bs (heap_end h)" "heap_end h = mem_size_aligned h + 12" "heap_end h < 2 ^ 32"
    "sz \<le> mem_size_aligned h"
  shows "malloc_scan h sz p = (case first_fit (mem_size_aligned h) sz p bs of
      None \<Rightarrow> Some (None, h)
    | Some (xs, g, ys) \<Rightarrow> do {
        let ptr = p + extent xs;
        h' \<leftarrow> malloc_take h sz ptr \<lparr>hm_magic = HEAP_MAGIC, hm_used = 0, hm_next = ptr + g, hm_prev = last_pos pr p xs\<rparr>;
        rt_assert (ptr + SIZEOF_STRUCT_MEM + sz \<le> heap_end h');
        rt_assert ((heap_ptr h' + ptr + SIZEOF_STRUCT_MEM) mod 4 = 0);
        rt_assert ((heap_ptr h' + ptr) mod 4 = 0);
        Some (Some (heap_ptr h' + ptr + SIZEOF_STRUCT_MEM), h')
      })"
  using assms(1)
proof (induction bs arbitrary: pr p)
  case Nil
  then have "\<not> p < sub32 (mem_size_aligned h) sz" using assms(2-4) by (simp add: sub32_small)
  then show ?case by (subst malloc_scan.simps) simp
next
  case (Cons b bs)
  obtain g u where b: "b = (g, u)" by (cases b)
  have D: "heap_hdr h p = Some \<lparr>hm_magic = HEAP_MAGIC, hm_used = (if u then 1 else 0), hm_next = p + g, hm_prev = pr\<rparr>"
    "12 \<le> g" "hchain (heap_hdr h) p (p + g) bs (heap_end h)" using Cons.prems by (simp_all add: b)
  have bound: "p + g \<le> heap_end h" using hchain_end [OF D(3)] by simp
  have ar: "sub32 (p + g) (add32 p 12) = g - 12" "sub32 (mem_size_aligned h) sz = mem_size_aligned h - sz"
    using bound D(2) assms(2-4) by (simp_all add: add32_small sub32_small)
  show ?case
  proof (cases "p < mem_size_aligned h - sz")
    case False
    then show ?thesis by (subst malloc_scan.simps) (simp add: b ar)
  next
    case True
    show ?thesis
    proof (cases "\<not> u \<and> sz + 12 \<le> g")
      case fit: True
      then have "sz \<le> g - 12" by linarith
      then show ?thesis using True fit D(1) by (subst malloc_scan.simps) (simp add: b ar Let_def cong: if_cong)
    next
      case nofit: False
      have nf: "\<not> (hm_used \<lparr>hm_magic = HEAP_MAGIC, hm_used = (if u then 1 else 0 :: nat), hm_next = p + g, hm_prev = pr\<rparr> = 0
          \<and> sz \<le> g - 12)" using nofit D(2) by auto
      have "malloc_scan h sz p = malloc_scan h sz (p + g)"
        using True D(1) nf by (subst malloc_scan.simps) (cases u; simp add: ar)
      moreover have "first_fit (mem_size_aligned h) sz p (b # bs)
          = map_option (\<lambda>(xs, g', ys). ((g, u) # xs, g', ys)) (first_fit (mem_size_aligned h) sz (p + g) bs)"
        unfolding b first_fit.simps if_P [OF True] if_not_P [OF nofit] ..
      ultimately show ?thesis
        using Cons.IH [OF D(3)]
        by (cases "first_fit (mem_size_aligned h) sz (p + g) bs") (auto simp: add.assoc)
    qed
  qed
qed

lemma first_fit_far: "msa - sz \<le> p \<Longrightarrow> first_fit msa sz p bs = None"
  by (cases bs) auto

lemma first_fit_skip:
  assumes "\<forall>b \<in> set us. snd b"
  shows "first_fit msa sz p (us @ rest) = map_option (\<lambda>(xs, g, ys). (us @ xs, g, ys)) (first_fit msa sz (p + extent us) rest)"
  using assms
proof (induction us arbitrary: p)
  case Nil
  then show ?case by (simp add: option.map_ident_strong split_beta)
next
  case (Cons b us)
  obtain g u where b: "b = (g, u)" by (cases b)
  show ?case
  proof (cases "p < msa - sz")
    case True
    then show ?thesis using Cons.IH [of "p + g"] Cons.prems
      by (simp add: b add.assoc option.map_comp o_def split_beta)
  next
    case False
    then show ?thesis using first_fit_far [of msa sz "p + (g + extent us)" rest] by (simp add: b)
  qed
qed

lemma low_free_split: "\<exists>us rest. bs = us @ rest \<and> (\<forall>b \<in> set us. snd b) \<and> low_free p bs = p + extent us"
proof (induction p bs rule: low_free.induct)
  case (2 p g u bs)
  show ?case
  proof (cases u)
    case True
    then obtain us rest where "bs = us @ rest" "\<forall>b \<in> set us. snd b" "low_free (p + g) bs = p + g + extent us" using 2 by blast
    then show ?thesis using True by (intro exI [of _ "(g, u) # us"] exI [of _ rest]) simp
  qed (intro exI [of _ "[]"] exI [of _ "(g, u) # bs"], simp)
qed simp

lemma last_pos_app: "last_pos pr p (xs @ ys) = last_pos (last_pos pr p xs) (p + extent xs) ys"
  by (induction xs arbitrary: pr p) (auto simp: add.assoc)

theorem malloc_refines:
  assumes wf: "heap_wf h bs" and n: "0 < n" "n \<le> 2 ^ 32 - 4" and m: "12 \<le> mem_size_aligned h"
  defines "sz \<equiv> max 12 (align_up4 n)"
  shows "case first_fit (mem_size_aligned h) sz 0 bs of
      None \<Rightarrow> rt_malloc h 0 n = Some (None, h)
    | Some (xs, g, ys) \<Rightarrow> \<exists>h'. rt_malloc h 0 n = Some (Some (heap_ptr h + extent xs + 12), h')
        \<and> heap_wf h' (xs @ take_block sz g @ ys) \<and> same_arena h h' \<and> heap_bytes h' = heap_bytes h"
proof -
  note A = align_up4_bounds [OF n(2)]
  have sz: "12 \<le> sz" "4 dvd sz" "(if align_up4 n < 12 then 12 else align_up4 n) = sz" using A(3) by (auto simp: sz_def max_def)
  obtain us rest where bs: "bs = us @ rest" "\<forall>b \<in> set us. snd b" "low_free 0 bs = extent us"
    using low_free_split [of bs 0] by auto
  have H: "hchain (heap_hdr h) 0 0 bs (heap_end h)" "heap_end h = mem_size_aligned h + 12" "heap_end h < 2 ^ 32"
    "lfree h = extent us" "4 dvd heap_ptr h"
    using wf bs(3) by (simp_all add: heap_wf_def heap_shape_def)
  show ?thesis
  proof (cases "align_up4 n > mem_size_aligned h")
    case True
    then have "mem_size_aligned h - sz \<le> 0" by (simp add: sz_def)
    then show ?thesis using True n(1) first_fit_far [of "mem_size_aligned h" sz 0 bs] by (simp add: rt_malloc_def Let_def)
  next
    case False
    then have szm: "sz \<le> mem_size_aligned h" using m by (simp add: sz_def)
    have ch: "hchain (heap_hdr h) (last_pos 0 0 us) (extent us) rest (heap_end h)" using H(1) by (simp add: bs(1) hchain_append)
    have mal: "rt_malloc h 0 n = malloc_scan h sz (extent us)"
      using False n(1) sz(3) H(4) by (simp add: rt_malloc_def Let_def)
    note scan = malloc_scan_chain [OF ch H(2,3) szm]
    have ff: "first_fit (mem_size_aligned h) sz 0 bs
        = map_option (\<lambda>(xs, g, ys). (us @ xs, g, ys)) (first_fit (mem_size_aligned h) sz (extent us) rest)"
      using first_fit_skip [OF bs(2), of "mem_size_aligned h" sz 0 rest] by (simp add: bs(1))
    show ?thesis
    proof (cases "first_fit (mem_size_aligned h) sz (extent us) rest")
      case None
      then show ?thesis using mal scan ff by simp
    next
      case (Some r)
      obtain xs g ys where r: "r = (xs, g, ys)" by (cases r)
      note S = first_fit_split [OF Some [unfolded r]]
      have wf': "heap_wf h ((us @ xs) @ (g, False) # ys)" using wf S by (simp add: bs(1))
      have fit: "sz + 12 \<le> g" using S by blast
      obtain h' where tk: "malloc_take h sz (extent (us @ xs)) \<lparr>hm_magic = HEAP_MAGIC, hm_used = 0,
          hm_next = extent (us @ xs) + g, hm_prev = last_pos 0 0 (us @ xs)\<rparr> = Some h'"
        and w: "heap_wf h' ((us @ xs) @ take_block sz g @ ys)" and ar: "same_arena h h'" and bt: "heap_bytes h' = heap_bytes h"
        by (rule malloc_take_ok [OF wf' fit sz(1,2)])
      note W = heap_shape_split [OF heap_wf_shape [OF wf']]
      have "extent (us @ xs) + 12 + sz \<le> heap_end h'" "heap_ptr h' = heap_ptr h"
        using W(6) fit ar by (simp_all add: same_arena_def)
      moreover have "(heap_ptr h + extent (us @ xs)) mod 4 = 0" "(heap_ptr h + extent (us @ xs) + 12) mod 4 = 0"
        using W(8) H(5) by (simp_all add: dvd_add mod_eq_0_iff_dvd)
      ultimately have "malloc_scan h sz (extent us) = Some (Some (heap_ptr h + extent (us @ xs) + 12), h')"
        using scan Some r tk by (simp add: last_pos_app Let_def)
      then show ?thesis using mal ff Some r w ar bt by simp
    qed
  qed
qed

section \<open>Release\<close>

lemma low_free_le: "low_free p bs \<le> p + extent bs"
  by (induction p bs rule: low_free.induct) auto

lemma low_free_ge: "p \<le> low_free p bs"
  by (induction p bs rule: low_free.induct) auto

lemma low_free_at: "low_free 0 (xs @ (g, False) # ys) \<le> extent xs"
  using low_free_le [of 0 xs] by (simp add: low_free_append)

text \<open>Releasing a block below \<^verbatim>\<open>lfree\<close> makes it the lowest free one.\<close>

lemma low_free_release:
  "(if extent xs < low_free 0 (xs @ (g, True) # ys) then extent xs else low_free 0 (xs @ (g, True) # ys)) = low_free 0 (xs @ (g, False) # ys)"
proof (cases "\<exists>b \<in> set xs. \<not> snd b")
  case True
  then show ?thesis using low_free_le [of 0 xs] by (simp add: low_free_append)
next
  case False
  then have "low_free 0 (xs @ (g, True) # ys) = low_free (extent xs + g) ys" "low_free 0 (xs @ (g, False) # ys) = extent xs"
    unfolding low_free_append by auto
  then show ?thesis using low_free_ge [of "extent xs + g" ys] by auto
qed

lemma end_or_block:
  assumes "heap_shape h (xs @ (g, u) # ys)"
  obtains m where "heap_hdr h (extent xs + g) = Some m" "hm_used m = (case ys of [] \<Rightarrow> 1 | (_, v) # _ \<Rightarrow> if v then 1 else 0)"
    "hm_next m = (case ys of [] \<Rightarrow> extent xs + g | (g', _) # _ \<Rightarrow> extent xs + g + g')" "extent xs + g = heap_end h \<longleftrightarrow> ys = []"
proof -
  note W = heap_shape_split [OF assms]
  show thesis
  proof (cases ys)
    case Nil
    then show thesis using that W(6) assms by (auto simp: heap_shape_def)
  next
    case (Cons b zs)
    obtain g' v where b: "b = (g', v)" by (cases b)
    show thesis using that W(5,6) by (auto simp: Cons b)
  qed
qed

text \<open>Two free neighbours become one block.\<close>

lemma merge_headers:
  assumes sh: "heap_shape h (xs @ (g, False) # (g', False) # ys)"
  defines "p \<equiv> extent xs"
  obtains h1 h' where "hdr_upd p (\<lambda>x. x\<lparr>hm_next := p + g + g'\<rparr>) (if lfree h = p + g then h\<lparr>lfree := p\<rparr> else h) = Some h1"
    "hdr_upd (p + g + g') (\<lambda>x. x\<lparr>hm_prev := p\<rparr>) h1 = Some h'"
    "heap_shape h' (xs @ (g + g', False) # ys)" "same_arena h h'" "heap_bytes h' = heap_bytes h"
proof -
  note W = heap_shape_split [OF sh, folded p_def]
  have sh2: "heap_shape h ((xs @ [(g, False)]) @ (g', False) # ys)" using sh by simp
  note W2 = heap_shape_split [OF sh2]
  have lf: "lfree h \<noteq> p + g" using sh low_free_at [of xs g "(g', False) # ys"] W(3) by (simp add: heap_shape_def p_def)
  obtain m' where m': "heap_hdr h (p + g + g') = Some m'" by (rule end_or_block [OF sh2]) (simp add: p_def)
  let ?m = "\<lparr>hm_magic = HEAP_MAGIC, hm_used = 0, hm_next = p + (g + g'), hm_prev = last_pos 0 0 xs\<rparr>"
  let ?f = "(heap_hdr h)(p \<mapsto> ?m, p + g + g' \<mapsto> m'\<lparr>hm_prev := p\<rparr>)"
  have gg: "0 < g" "0 < g'" using W(3) W2(3) by auto
  have xs: "hchain ?f 0 0 xs p" using W(1) gg by (intro hchain_upd_outside) auto
  have ys: "hchain ?f p (p + (g + g')) ys (heap_end h)"
  proof (cases "ys = []")
    case True
    then show ?thesis using W(6) by (simp add: p_def)
  next
    case False
    have "hchain (heap_hdr h) (p + g) (p + g + g') ys (heap_end h)" using W2(5) by (simp add: p_def add.assoc)
    from hchain_new_prev [OF this False, of p] m'
    have c: "hchain ((heap_hdr h)(p + g + g' \<mapsto> m'\<lparr>hm_prev := p\<rparr>)) p (p + (g + g')) ys (heap_end h)" by (auto simp: add.assoc)
    show ?thesis by (rule hchain_cong [OF c]) (use gg in simp)
  qed
  have ch: "hchain ?f 0 0 (xs @ (g + g', False) # ys) (heap_end h)"
    using xs ys W(3,4) W2(4) by (simp add: hchain_append p_def [symmetric])
  have e: "\<exists>m. ?f (heap_end h) = Some m \<and> hm_used m = 1 \<and> hm_next m = heap_end h"
  proof -
    obtain m where m: "heap_hdr h (heap_end h) = Some m" "hm_used m = 1" "hm_next m = heap_end h" using sh by (auto simp: heap_shape_def)
    show ?thesis using m m' W(6) gg by (cases "p + g + g' = heap_end h") (auto simp: p_def)
  qed
  let ?h1 = "h\<lparr>heap_hdr := (heap_hdr h)(p \<mapsto> ?m)\<rparr>" and ?h = "h\<lparr>heap_hdr := ?f\<rparr>"
  have 1: "hdr_upd p (\<lambda>x. x\<lparr>hm_next := p + g + g'\<rparr>) (if lfree h = p + g then h\<lparr>lfree := p\<rparr> else h) = Some ?h1"
    using W(2) lf by (simp add: hdr_upd_def add.assoc)
  have 2: "hdr_upd (p + g + g') (\<lambda>x. x\<lparr>hm_prev := p\<rparr>) ?h1 = Some ?h" using m' gg by (simp add: hdr_upd_def)
  have "heap_shape ?h (xs @ (g + g', False) # ys)"
    using sh ch e by (auto simp: heap_shape_def low_free_append)
  then show thesis using that [OF 1 2] by (simp add: same_arena_def)
qed

lemma merge_next_cons: "\<exists>g1 zs. merge_next g ys = (g1, False) # zs \<and> set zs \<subseteq> set ys"
  by (auto simp: merge_next_def split: list.splits bool.splits)

lemma no_adjacent_free_cons:
  "no_adjacent_free ((g, u) # bs) \<longleftrightarrow> no_adjacent_free bs \<and> (bs = [] \<or> u \<or> snd (hd bs))"
  by (cases "(g, u) # bs" rule: no_adjacent_free.cases) auto

lemma merge_next_naf: "no_adjacent_free ys \<Longrightarrow> no_adjacent_free (merge_next g ys)"
  by (cases ys) (auto simp: merge_next_def no_adjacent_free_cons split: bool.splits)

lemma merge_blocks_naf:
  assumes "no_adjacent_free xs" "no_adjacent_free ys"
  shows "no_adjacent_free (merge_blocks xs g ys)"
proof (cases "xs \<noteq> [] \<and> \<not> snd (last xs)")
  case True
  then have "xs = butlast xs @ [last xs]" by simp
  then have "no_adjacent_free (butlast xs)" "butlast xs = [] \<or> snd (last (butlast xs))"
    using assms(1) True no_adjacent_free_append [of "butlast xs" "[last xs]"] by auto
  then show ?thesis using True merge_next_naf [OF assms(2)] by (auto simp: merge_blocks_def no_adjacent_free_append)
next
  case False
  then show ?thesis using assms merge_next_naf [OF assms(2)] unfolding merge_blocks_def if_not_P [OF False]
    by (auto simp: no_adjacent_free_append)
qed

text \<open>\<^verbatim>\<open>plug_holes\<close> first looks forward.\<close>

lemma plug_forward:
  assumes sh: "heap_shape h (xs @ (g, False) # ys)"
  defines "p \<equiv> extent xs"
  obtains nm h1 where "heap_hdr h (p + g) = Some nm"
    "(if p \<noteq> p + g \<and> hm_used nm = 0 \<and> p + g \<noteq> heap_end h then do {
        h'' \<leftarrow> hdr_upd p (\<lambda>x. x\<lparr>hm_next := hm_next nm\<rparr>) (if lfree h = p + g then h\<lparr>lfree := p\<rparr> else h);
        hdr_upd (hm_next nm) (\<lambda>x. x\<lparr>hm_prev := p\<rparr>) h''
      } else Some h) = Some h1"
    "heap_shape h1 (xs @ merge_next g ys)" "same_arena h h1" "heap_bytes h1 = heap_bytes h"
proof -
  have g: "0 < g" using heap_shape_split(3) [OF sh] by simp
  obtain nm where nm: "heap_hdr h (p + g) = Some nm" "hm_used nm = (case ys of [] \<Rightarrow> 1 | (_, v) # _ \<Rightarrow> if v then 1 else 0)"
    "hm_next nm = (case ys of [] \<Rightarrow> p + g | (g', _) # _ \<Rightarrow> p + g + g')" "p + g = heap_end h \<longleftrightarrow> ys = []"
    using end_or_block [OF sh] unfolding p_def by blast
  consider (merge) g' zs where "ys = (g', False) # zs" | (keep) "ys = [] \<or> (\<exists>g' zs. ys = (g', True) # zs)"
    by (metis list.exhaust surj_pair)
  then show thesis
  proof cases
    case merge
    obtain h1 h' where "hdr_upd p (\<lambda>x. x\<lparr>hm_next := p + g + g'\<rparr>) (if lfree h = p + g then h\<lparr>lfree := p\<rparr> else h) = Some h1"
      "hdr_upd (p + g + g') (\<lambda>x. x\<lparr>hm_prev := p\<rparr>) h1 = Some h'"
      "heap_shape h' (xs @ (g + g', False) # zs)" "same_arena h h'" "heap_bytes h' = heap_bytes h"
      using merge_headers [OF sh [unfolded merge]] unfolding p_def by blast
    then show thesis using that [OF nm(1), of h'] nm g by (simp add: merge merge_next_def)
  next
    case keep
    then have "hm_used nm = 1 \<and> merge_next g ys = (g, False) # ys" using nm(2) by (auto simp: merge_next_def)
    then show thesis using that [OF nm(1), of h] sh by (simp add: same_arena_def)
  qed
qed

lemma plug_holes_ok:
  assumes sh: "heap_shape h (xs @ (g, False) # ys)" and naf: "no_adjacent_free xs" "no_adjacent_free ys"
  obtains h' where "plug_holes h (extent xs) = Some h'" "heap_wf h' (merge_blocks xs g ys)" "same_arena h h'"
    "heap_bytes h' = heap_bytes h"
proof -
  note W = heap_shape_split [OF sh]
  have lt: "extent xs < heap_end h" using W(3,6) by simp
  obtain nm h1 where nm: "heap_hdr h (extent xs + g) = Some nm" and h1: "(if extent xs \<noteq> extent xs + g \<and> hm_used nm = 0 \<and> extent xs + g \<noteq> heap_end h then do {
        h'' \<leftarrow> hdr_upd (extent xs) (\<lambda>x. x\<lparr>hm_next := hm_next nm\<rparr>) (if lfree h = extent xs + g then h\<lparr>lfree := extent xs\<rparr> else h);
        hdr_upd (hm_next nm) (\<lambda>x. x\<lparr>hm_prev := extent xs\<rparr>) h''
      } else Some h) = Some h1"
    and s1: "heap_shape h1 (xs @ merge_next g ys)" and a1: "same_arena h h1" "heap_bytes h1 = heap_bytes h"
    by (rule plug_forward [OF sh])
  obtain g1 zs where mn: "merge_next g ys = (g1, False) # zs" using merge_next_cons by blast
  note V = heap_shape_split [OF s1 [unfolded mn]]
  let ?m1 = "\<lparr>hm_magic = HEAP_MAGIC, hm_used = 0, hm_next = extent xs + g1, hm_prev = last_pos 0 0 xs\<rparr>"
  have m1: "heap_hdr h1 (extent xs) = Some ?m1" using V(2) by simp
  have plug: "plug_holes h (extent xs) = do {
     pm \<leftarrow> heap_hdr h1 (last_pos 0 0 xs);
     if last_pos 0 0 xs \<noteq> extent xs \<and> hm_used pm = 0 then do {
       let h' = (if lfree h1 = extent xs then h1\<lparr>lfree := last_pos 0 0 xs\<rparr> else h1);
       h'' \<leftarrow> hdr_upd (last_pos 0 0 xs) (\<lambda>x. x\<lparr>hm_next := extent xs + g1\<rparr>) h';
       hdr_upd (extent xs + g1) (\<lambda>x. x\<lparr>hm_prev := last_pos 0 0 xs\<rparr>) h''
     } else Some h1 }"
    using lt W(2) nm h1 m1 by (simp add: plug_holes_def Let_def cong: if_cong)
  note naf' = merge_blocks_naf [OF naf, of g]
  show thesis
  proof (cases xs rule: rev_cases)
    case Nil
    then have "plug_holes h (extent xs) = Some h1" using plug m1 by simp
    moreover have "heap_wf h1 (merge_blocks xs g ys)" using s1 naf' by (simp add: heap_wf_def merge_blocks_def Nil)
    ultimately show thesis using that a1 by blast
  next
    case (snoc xs' b)
    obtain gp up where b: "b = (gp, up)" by (cases b)
    have sp: "heap_shape h1 (xs' @ (gp, up) # (g1, False) # zs)" using s1 by (simp add: snoc b mn)
    note P = heap_shape_split [OF sp]
    have lp: "last_pos 0 0 xs = extent xs'" "extent xs = extent xs' + gp" by (simp_all add: snoc b)
    show thesis
    proof (cases up)
      case True
      then have "plug_holes h (extent xs) = Some h1" using plug P(2) lp by simp
      moreover have "heap_wf h1 (merge_blocks xs g ys)" using s1 naf' True by (simp add: heap_wf_def merge_blocks_def snoc b)
      ultimately show thesis using that a1 by blast
    next
      case False
      then have sp': "heap_shape h1 (xs' @ (gp, False) # (g1, False) # zs)" using sp by simp
      obtain h2 h' where M: "hdr_upd (extent xs') (\<lambda>x. x\<lparr>hm_next := extent xs' + gp + g1\<rparr>)
          (if lfree h1 = extent xs' + gp then h1\<lparr>lfree := extent xs'\<rparr> else h1) = Some h2"
        "hdr_upd (extent xs' + gp + g1) (\<lambda>x. x\<lparr>hm_prev := extent xs'\<rparr>) h2 = Some h'"
        "heap_shape h' (xs' @ (gp + g1, False) # zs)" "same_arena h1 h'" "heap_bytes h' = heap_bytes h1"
        by (rule merge_headers [OF sp'])
      have "plug_holes h (extent xs) = Some h'" using plug P(2,3) lp M(1,2) False by (simp add: Let_def cong: if_cong)
      moreover have "merge_blocks xs g ys = xs' @ (gp + g1, False) # zs"
        using mn False by (cases ys) (auto simp: merge_blocks_def merge_next_def snoc b split: bool.splits)
      then have "heap_wf h' (merge_blocks xs g ys)" using M(3) naf' by (simp add: heap_wf_def)
      ultimately show thesis using that a1 M(4,5) by (simp add: same_arena_def)
    qed
  qed
qed

lemma free_refines:
  assumes wf: "heap_wf h (xs @ (g, True) # ys)"
  obtains h' where "rt_free h 0 (Some (heap_ptr h + extent xs + 12)) = Some h'" "heap_wf h' (merge_blocks xs g ys)"
    "same_arena h h'" "heap_bytes h' = heap_bytes h"
proof -
  note sh = heap_wf_shape [OF wf]
  note W = heap_shape_split [OF sh]
  have g: "12 < g" using sh by (simp add: heap_shape_def)
  let ?p = "extent xs" and ?bs = "xs @ (g, False) # ys"
  let ?m = "\<lparr>hm_magic = HEAP_MAGIC, hm_used = 0, hm_next = ?p + g, hm_prev = last_pos 0 0 xs\<rparr>"
  let ?h = "h\<lparr>heap_hdr := (heap_hdr h)(?p \<mapsto> ?m), lfree := (if ?p < lfree h then ?p else lfree h), used_mem := used_mem h - g\<rparr>"
  have um: "used_mem h = used_sum xs + g + used_sum ys" using sh by (simp add: heap_shape_def)
  have "used_mem h < 2 ^ 32" using um used_sum_bound [of xs] used_sum_bound [of ys] W(6,7) by simp
  then have ar: "sub32 (?p + g) ?p = g" "sub32 (used_mem h) g = used_mem h - g"
    using W(6,7) um by (simp_all add: sub32_small)
  have lf: "(if ?p < lfree h then ?p else lfree h) = low_free 0 ?bs"
  proof -
    have l: "lfree h = low_free 0 (xs @ (g, True) # ys)" using sh by (simp add: heap_shape_def)
    show ?thesis unfolding l by (rule low_free_release)
  qed
  have ch: "hchain ((heap_hdr h)(?p \<mapsto> ?m)) 0 0 ?bs (heap_end h)" using use_header [OF sh, of False] by simp
  have "heap_shape ?h ?bs" using sh ch lf um W(3,6) by (simp add: heap_shape_def)
  moreover have "no_adjacent_free xs" "no_adjacent_free ys"
    using wf by (auto simp: heap_wf_def no_adjacent_free_append no_adjacent_free_cons)
  ultimately obtain h' where P: "plug_holes ?h ?p = Some h'" "heap_wf h' (merge_blocks xs g ys)" "same_arena ?h h'"
      "heap_bytes h' = heap_bytes ?h" by (rule plug_holes_ok)
  have heq: "?h = (if ?p < lfree h then ?h else h\<lparr>heap_hdr := (heap_hdr h)(?p \<mapsto> ?m), used_mem := used_mem h - g\<rparr>)"
    by (auto intro!: rt_heap.equality)
  have "(heap_ptr h + ?p + 12) mod 4 = 0" using W(8) sh by (simp add: heap_shape_def dvd_add mod_eq_0_iff_dvd)
  moreover have "heap_ptr h + ?p + 12 - 12 - heap_ptr h = ?p" by simp
  moreover have "heap_ptr h + ?p + 12 < heap_ptr h + heap_end h" using W(6) g by simp
  ultimately have "rt_free h 0 (Some (heap_ptr h + ?p + 12)) = Some h'"
    using P(1) W(2) ar heq by (cases "?p < lfree h") (simp_all add: rt_free_def Let_def)
  then show thesis using that P by (simp add: same_arena_def)
qed

section \<open>Shrinking\<close>

lemma realloc_shrinks:
  assumes wf: "heap_wf h (xs @ (g, True) # ys)" and n: "n \<le> 2 ^ 32 - 4" "0 < n" "align_up4 n + 36 < g"
  obtains h' where "rt_realloc h 0 (Some (heap_ptr h + extent xs + 12)) n = Some (Some (heap_ptr h + extent xs + 12), h')"
    "heap_wf h' (xs @ (align_up4 n + 12, True) # merge_next (g - align_up4 n - 12) ys)" "same_arena h h'" "heap_bytes h' = heap_bytes h"
proof -
  note sh = heap_wf_shape [OF wf]
  note W = heap_shape_split [OF sh]
  note A = align_up4_bounds [OF n(1)]
  let ?p = "extent xs" and ?ns = "align_up4 n" and ?k = "align_up4 n + 12"
  let ?bs = "(xs @ [(?k, True)]) @ (g - ?k, False) # ys"
  have nz: "?ns \<noteq> 0" using A(1) n(2) by simp
  have e: "heap_end h = mem_size_aligned h + 12" using sh by (simp add: heap_shape_def)
  have ar: "sub32 (?p + g) ?p = g" "sub32 g 12 = g - 12" using W(3,6,7) by (simp_all add: sub32_small)
  have um: "used_mem h = used_sum xs + g + used_sum ys" using sh by (simp add: heap_shape_def)
  have ar2: "sub32 (used_mem h) (g - 12 - ?ns) = used_sum ?bs"
    using um n(3) W(6,7) used_sum_bound [of xs] used_sum_bound [of ys] by (simp add: sub32_small)
  obtain nm where nm: "heap_hdr h (?p + g) = Some nm" "?p + g = heap_end h \<longleftrightarrow> ys = []" by (rule end_or_block [OF sh])
  let ?f = "(heap_hdr h)(?p + ?k \<mapsto> \<lparr>hm_magic = HEAP_MAGIC, hm_used = 0, hm_next = ?p + g, hm_prev = ?p\<rparr>,
      ?p \<mapsto> \<lparr>hm_magic = HEAP_MAGIC, hm_used = 1, hm_next = ?p + ?k, hm_prev = last_pos 0 0 xs\<rparr>)"
  let ?f' = "if ys = [] then ?f else ?f(?p + g \<mapsto> nm\<lparr>hm_prev := ?p + ?k\<rparr>)"
  let ?l = "if ?p + ?k < lfree h then ?p + ?k else lfree h"
  let ?h = "h\<lparr>used_mem := used_sum ?bs, heap_hdr := ?f', lfree := ?l\<rparr>"
  have ch: "hchain ?f' 0 0 (xs @ (?k, True) # (g - ?k, False) # ys) (heap_end h)"
    by (rule split_headers [OF sh]) (use n(3) A(3) nm in auto)
  have lf: "?l = low_free 0 ?bs"
  proof -
    have "low_free 0 ((xs @ [(?k, True)]) @ (g - ?k, True) # ys) = low_free 0 (xs @ (g, True) # ys)"
      using n(3) by (auto simp: low_free_append add.assoc)
    then have l: "lfree h = low_free 0 ((xs @ [(?k, True)]) @ (g - ?k, True) # ys)" using sh by (simp add: heap_shape_def)
    have x: "extent (xs @ [(?k, True)]) = ?p + ?k" by simp
    show ?thesis unfolding l using low_free_release [of "xs @ [(?k, True)]" "g - ?k" ys] unfolding x .
  qed
  have "?f' (heap_end h) = heap_hdr h (heap_end h)" using nm(2) W(6) n(3) by auto
  then have sh': "heap_shape ?h ?bs"
    using sh ch lf n(2) A(1) by (simp add: heap_shape_def)
  have "no_adjacent_free (xs @ [(?k, True)])" "no_adjacent_free ys"
    using wf by (auto simp: heap_wf_def no_adjacent_free_append no_adjacent_free_cons)
  from plug_holes_ok [OF sh' this] obtain h' where P: "plug_holes ?h (?p + ?k) = Some h'"
    "heap_wf h' (merge_blocks (xs @ [(?k, True)]) (g - ?k) ys)" "same_arena ?h h'" "heap_bytes h' = heap_bytes ?h" by auto
  have up: "(if ?p + g \<noteq> mem_size_aligned h + 12 then hdr_upd (?p + g) (\<lambda>x. x\<lparr>hm_prev := ?p + ?k\<rparr>)
      (h\<lparr>used_mem := used_sum ?bs, heap_hdr := ?f\<rparr>) else Some (h\<lparr>used_mem := used_sum ?bs, heap_hdr := ?f\<rparr>))
      = Some (h\<lparr>used_mem := used_sum ?bs, heap_hdr := ?f'\<rparr>)"
    using nm n(3) by (auto simp: e [symmetric] hdr_upd_def)
  have c: "heap_ptr h + ?p + 12 - 12 - heap_ptr h = ?p" "\<not> ?ns > mem_size_aligned h" "?ns + 12 + 12 < g - 12" "\<not> g - 12 = ?ns"
    "\<not> (heap_ptr h + ?p + 12 < heap_ptr h \<or> heap_ptr h + heap_end h \<le> heap_ptr h + ?p + 12)" "?p + 12 + ?ns = ?p + ?k"
    using n(3) W(6) e by auto
  have heq: "?h = (if ?p + ?k < lfree h then ?h else h\<lparr>used_mem := used_sum ?bs, heap_hdr := ?f'\<rparr>)"
    by (auto intro!: rt_heap.equality)
  have "realloc_shrink h ?p \<lparr>hm_magic = HEAP_MAGIC, hm_used = 1, hm_next = ?p + g, hm_prev = last_pos 0 0 xs\<rparr> (g - 12) ?ns = Some h'"
    unfolding realloc_shrink_def Let_def c(6) ar2 heap_mem.simps up using P(1) heq
    by (cases "?p + ?k < lfree h") (simp_all cong: if_cong)
  then have "rt_realloc h 0 (Some (heap_ptr h + ?p + 12)) n = Some (Some (heap_ptr h + ?p + 12), h')"
    unfolding rt_realloc_def using W(2) nz c(1-5) by (simp add: Let_def ar)
  then show thesis using that P by (simp add: same_arena_def merge_blocks_def)
qed

section \<open>Moving\<close>

lemma used_blocks_append [simp]: "used_blocks p (xs @ ys) = used_blocks p xs @ used_blocks (p + extent xs) ys"
  by (induction p xs rule: used_blocks.induct) (auto simp: add.assoc)

lemma used_blocks_bounds: "(q, g) \<in> set (used_blocks p bs) \<Longrightarrow> p \<le> q \<and> q + g \<le> p + extent bs"
  by (induction p bs rule: used_blocks.induct) (auto split: if_splits)

lemma used_blocks_split:
  "(q, g) \<in> set (used_blocks p bs) \<Longrightarrow> \<exists>xs ys. bs = xs @ (g, True) # ys \<and> q = p + extent xs"
proof (induction p bs rule: used_blocks.induct)
  case (2 p g' u bs)
  show ?case
  proof (cases "(q, g) \<in> set (used_blocks (p + g') bs)")
    case True
    then obtain xs ys where "bs = xs @ (g, True) # ys \<and> q = p + g' + extent xs" using 2 by blast
    then show ?thesis by (intro exI [of _ "(g', u) # xs"] exI [of _ ys]) simp
  next
    case False
    then show ?thesis using "2.prems" by (intro exI [of _ "[]"] exI [of _ bs]) (auto split: if_splits)
  qed
qed simp

lemma used_blocks_sorted: "sorted_wrt (\<lambda>b c. fst b + snd b \<le> fst c) (used_blocks p bs)"
  by (induction p bs rule: used_blocks.induct) (use used_blocks_bounds in \<open>fastforce+\<close>)

lemma used_take:
  assumes "sz + 12 \<le> g"
  shows "set (used_blocks 0 (xs @ take_block sz g @ ys))
    = insert (extent xs, fst (hd (take_block sz g))) (set (used_blocks 0 (xs @ (g, False) # ys)))"
  using assms by (auto simp: take_block_def)

lemma used_merge_next [simp]: "used_blocks p (merge_next g ys) = used_blocks (p + g) ys"
  by (auto simp: merge_next_def add.assoc split: list.splits bool.splits)

lemma used_merge: "used_blocks 0 (merge_blocks xs g ys) = used_blocks 0 xs @ used_blocks (extent xs + g) ys"
proof (cases xs rule: rev_cases)
  case (snoc zs b)
  then show ?thesis by (cases b) (auto simp: merge_blocks_def add.assoc)
qed (simp add: merge_blocks_def)

text \<open>The owner of an address knows the block.\<close>

lemma live_split:
  assumes "a \<in> live_addresses h bs"
  obtains xs g ys where "bs = xs @ (g, True) # ys" "a = heap_ptr h + extent xs + 12"
proof -
  obtain q g where "(q, g) \<in> set (used_blocks 0 bs)" "a = heap_ptr h + q + 12" using assms by (auto simp: live_addresses_def)
  then show thesis using that used_blocks_split [of q g 0 bs] by auto
qed

lemma live_merge:
  assumes "heap_shape h' (xs @ (g, True) # ys)"
  shows "live_addresses h (merge_blocks xs g ys) = live_addresses h (xs @ (g, True) # ys) - {heap_ptr h + extent xs + 12}"
proof -
  have pos: "\<forall>b \<in> set (xs @ (g, True) # ys). snd b \<longrightarrow> 12 < fst b" using assms unfolding heap_shape_def by blast
  have xs: "q \<noteq> extent xs" if "(q, g') \<in> set (used_blocks 0 xs)" for q g'
  proof -
    have "(g', True) \<in> set xs" using used_blocks_split [OF that] by auto
    then have "12 < g'" using pos [rule_format, of "(g', True)"] by simp
    then show ?thesis using used_blocks_bounds [OF that] by auto
  qed
  have ys: "q \<noteq> extent xs" if "(q, g') \<in> set (used_blocks (extent xs + g) ys)" for q g'
    using used_blocks_bounds [OF that] pos by auto
  show ?thesis by (auto simp: live_addresses_def used_merge dest: xs ys)
qed

lemma live_take:
  "sz + 12 \<le> g \<Longrightarrow> live_addresses h (xs @ take_block sz g @ ys)
     = insert (heap_ptr h + extent xs + 12) (live_addresses h (xs @ (g, False) # ys))"
  unfolding live_addresses_def used_take by simp

lemma live_arena: "same_arena h h' \<Longrightarrow> live_addresses h' bs = live_addresses h bs"
  by (simp add: live_addresses_def same_arena_def)

lemma payload_block: "heap_shape h (xs @ (g, u) # ys) \<Longrightarrow> payload_size h (heap_ptr h + extent xs + 12) = g - 12"
  using heap_shape_split(2) [of h xs g u ys] by (simp add: payload_size_def)

lemma payload_used:
  assumes "heap_wf h bs" "(q, g) \<in> set (used_blocks 0 bs)"
  shows "payload_size h (heap_ptr h + q + 12) = g - 12"
proof -
  obtain xs ys where "bs = xs @ (g, True) # ys" "q = extent xs" using used_blocks_split [OF assms(2)] by auto
  then show ?thesis using payload_block [of h xs g True ys] heap_wf_shape [OF assms(1)] by simp
qed

lemma payload_kept:
  assumes "heap_wf h bs" "heap_wf h' bs'" "heap_ptr h' = heap_ptr h" "b \<in> live_addresses h bs"
    "\<And>q g. (q, g) \<in> set (used_blocks 0 bs) \<Longrightarrow> b = heap_ptr h + q + 12 \<Longrightarrow> (q, g) \<in> set (used_blocks 0 bs')"
  shows "payload_size h' b = payload_size h b"
proof -
  obtain q g where "(q, g) \<in> set (used_blocks 0 bs)" "b = heap_ptr h + q + 12" using assms(4) by (auto simp: live_addresses_def)
  then show ?thesis using payload_used [OF assms(1)] payload_used [OF assms(2)] assms(3,5) by metis
qed

lemma owned_bytes [simp]:
  "heap_owned (h\<lparr>heap_bytes := f\<rparr>, B) = heap_owned (h, B)" "payload_size (h\<lparr>heap_bytes := f\<rparr>) a = payload_size h a"
  by (simp_all add: heap_owned_def heap_wf_def heap_shape_def live_addresses_def payload_size_def split: option.split)

text \<open>The operations on an owned heap.\<close>

lemma owned_malloc:
  assumes "heap_owned (h, A)" "n \<le> 2 ^ 32 - 4"
  obtains r h' where "rt_malloc h 0 n = Some (r, h')" "heap_owned (h', A \<union> set_option r)" "same_arena h h'"
    "heap_bytes h' = heap_bytes h" "r = None \<longrightarrow> h' = h"
    "\<forall>a. r = Some a \<longrightarrow> a \<notin> A \<and> n \<le> payload_size h' a" "\<forall>b \<in> A. payload_size h' b = payload_size h b"
proof (cases "n = 0")
  case True
  then show thesis using that [of None h] assms by (simp add: rt_malloc_def same_arena_def)
next
  case False
  obtain bs where B: "heap_wf h bs" "12 \<le> mem_size_aligned h" "A = live_addresses h bs" using assms(1) by (auto simp: heap_owned_def)
  let ?sz = "max 12 (align_up4 n)"
  note R = malloc_refines [OF B(1) _ assms(2) B(2)]
  show thesis
  proof (cases "first_fit (mem_size_aligned h) ?sz 0 bs")
    case None
    then show thesis using that [of None h] R False assms(1) by (simp add: same_arena_def)
  next
    case (Some r)
    obtain xs g ys where r: "r = (xs, g, ys)" by (cases r)
    then obtain h' where M: "rt_malloc h 0 n = Some (Some (heap_ptr h + extent xs + 12), h')"
        "heap_wf h' (xs @ take_block ?sz g @ ys)" "same_arena h h'" "heap_bytes h' = heap_bytes h"
      using R False Some by auto
    have S: "bs = xs @ (g, False) # ys" "?sz + 12 \<le> g" using first_fit_split [OF Some [unfolded r]] by blast+
    have "heap_owned (h', A \<union> set_option (Some (heap_ptr h + extent xs + 12)))"
      using M(2,3) B S(1) live_take [OF S(2), of h xs ys] live_arena [OF M(3)]
      by (auto simp: heap_owned_def same_arena_def)
    moreover have "heap_ptr h + extent xs + 12 \<notin> A"
    proof
      assume "heap_ptr h + extent xs + 12 \<in> A"
      then obtain us k vs where U: "bs = us @ (k, True) # vs" "extent us = extent xs" unfolding B(3) by (rule live_split) simp
      show False using heap_shape_split(2) [OF heap_wf_shape [OF B(1) [unfolded U(1)]]]
          heap_shape_split(2) [OF heap_wf_shape [OF B(1) [unfolded S(1)]]] U(2) by simp
    qed
    moreover have "n \<le> payload_size h' (heap_ptr h + extent xs + 12)"
    proof -
      obtain g1 rs where tb: "take_block ?sz g @ ys = (g1, True) # rs" "?sz + 12 \<le> g1"
        using take_block_cons [OF S(2)] by auto
      have "n \<le> ?sz" using align_up4_bounds(1) [OF assms(2)] by linarith
      moreover have "heap_ptr h' = heap_ptr h" using M(3) by (simp add: same_arena_def)
      ultimately show ?thesis using heap_shape_split(2) [OF heap_wf_shape [OF M(2) [unfolded tb(1)]]] tb(2)
        by (simp add: payload_size_def)
    qed
    moreover have "\<forall>b \<in> A. payload_size h' b = payload_size h b"
      using M(3) used_take [OF S(2), of xs ys] unfolding B(3)
      by (auto intro!: payload_kept [OF B(1) M(2)] simp: same_arena_def S(1))
    ultimately show thesis using that [OF M(1)] M(3,4) by simp
  qed
qed

lemma owned_free:
  assumes "heap_owned (h, A)" "a \<in> A"
  obtains h' where "rt_free h 0 (Some a) = Some h'" "heap_owned (h', A - {a})" "same_arena h h'" "heap_bytes h' = heap_bytes h"
    "\<forall>b \<in> A - {a}. payload_size h' b = payload_size h b"
proof -
  obtain bs where B: "heap_wf h bs" "12 \<le> mem_size_aligned h" "A = live_addresses h bs" using assms(1) by (auto simp: heap_owned_def)
  obtain xs g ys where S: "bs = xs @ (g, True) # ys" "a = heap_ptr h + extent xs + 12" using assms(2) unfolding B(3) by (rule live_split)
  obtain h' where F: "rt_free h 0 (Some a) = Some h'" "heap_wf h' (merge_blocks xs g ys)" "same_arena h h'" "heap_bytes h' = heap_bytes h"
    using free_refines [OF B(1) [unfolded S(1)]] unfolding S(2) by blast
  have "heap_owned (h', A - {a})"
    using F(2,3) B(2,3) live_merge [OF heap_wf_shape [OF B(1) [unfolded S(1)]], of h] live_arena [OF F(3)]
    by (auto simp: heap_owned_def same_arena_def S)
  moreover have "\<forall>b \<in> A - {a}. payload_size h' b = payload_size h b"
  proof
    fix b assume b: "b \<in> A - {a}"
    show "payload_size h' b = payload_size h b"
      by (rule payload_kept [OF B(1) F(2)]) (use b F(3) in \<open>auto simp: B(3) same_arena_def S used_merge\<close>)
  qed
  ultimately show thesis using that F by blast
qed

lemma align_up4_idem: "n \<le> 2 ^ 32 - 4 \<Longrightarrow> align_up4 n \<le> 2 ^ 32 - 4 \<Longrightarrow> align_up4 (align_up4 n) = align_up4 n"
  using align_up4_bounds [of n] align_up4_bounds [of "align_up4 n"] by (auto elim!: dvdE)

lemma owned_realloc:
  assumes own: "heap_owned (h, A)" and a: "a \<in> A" and n: "0 < n" "n \<le> 2 ^ 32 - 4"
  obtains (fails) "rt_realloc h 0 (Some a) n = Some (None, h)"
  | (resized) b h' where "rt_realloc h 0 (Some a) n = Some (Some b, h')" "heap_owned (h', insert b (A - {a}))"
      "n \<le> payload_size h' b" "same_arena h h'"
      "\<forall>i < min (payload_size h a) n. heap_bytes h' (b - heap_ptr h + i) = heap_bytes h (a - heap_ptr h + i)"
      "\<forall>c \<in> A - {a}. payload_size h' c = payload_size h c"
proof -
  obtain bs where B: "heap_wf h bs" "12 \<le> mem_size_aligned h" "A = live_addresses h bs" using own by (auto simp: heap_owned_def)
  obtain xs g ys where S: "bs = xs @ (g, True) # ys" "a = heap_ptr h + extent xs + 12" using a unfolding B(3) by (rule live_split)
  note sh = heap_wf_shape [OF B(1) [unfolded S(1)]]
  note W = heap_shape_split [OF sh]
  have g: "12 < g" and e: "heap_end h = mem_size_aligned h + 12" using sh by (simp_all add: heap_shape_def)
  let ?ns = "align_up4 n"
  have nz: "?ns \<noteq> 0" "n \<le> ?ns" using align_up4_bounds(1) [OF n(2)] n(1) by auto
  have pa: "payload_size h a = g - 12" using payload_block [OF sh] by (simp add: S(2))
  have ar: "sub32 (sub32 (extent xs + g) (extent xs)) 12 = g - 12" using W(3,6,7) by (simp add: sub32_small)
  have inr: "\<not> (a < heap_ptr h \<or> heap_ptr h + heap_end h \<le> a)" "heap_ptr h + 12 \<le> a" "a - 12 - heap_ptr h = extent xs"
    using W(6) g by (auto simp: S(2))
  consider (big) "?ns > mem_size_aligned h" | (same) "\<not> ?ns > mem_size_aligned h" "g - 12 = ?ns"
    | (shrink) "?ns + 36 < g" | (move) "\<not> ?ns > mem_size_aligned h" "g - 12 \<noteq> ?ns" "\<not> ?ns + 24 < g - 12"
    by linarith
  then show thesis
  proof cases
    case big
    then show thesis using fails by (simp add: rt_realloc_def Let_def)
  next
    case same
    have "rt_realloc h 0 (Some a) n = Some (Some a, h)"
      unfolding rt_realloc_def using same inr W(2) nz ar by (simp add: Let_def)
    then show thesis using resized [of a h] own a pa same(2) nz by (simp add: insert_absorb same_arena_def)
  next
    case shrink
    obtain h' where R: "rt_realloc h 0 (Some a) n = Some (Some a, h')"
      "heap_wf h' (xs @ (?ns + 12, True) # merge_next (g - ?ns - 12) ys)" "same_arena h h'" "heap_bytes h' = heap_bytes h"
      using realloc_shrinks [OF B(1) [unfolded S(1)] n(2,1) shrink] unfolding S(2) by blast
    have "live_addresses h (xs @ (?ns + 12, True) # merge_next (g - ?ns - 12) ys) = A"
      using shrink by (simp add: B(3) S(1) live_addresses_def add.assoc)
    then have "heap_owned (h', insert a (A - {a}))"
      using R(2,3) B(2) a live_arena [OF R(3)] by (auto simp: heap_owned_def same_arena_def insert_absorb)
    moreover have "n \<le> payload_size h' a"
      using payload_block [OF heap_wf_shape [OF R(2)]] R(3) nz by (simp add: S(2) same_arena_def)
    moreover have "\<forall>c \<in> A - {a}. payload_size h' c = payload_size h c"
    proof
      fix c assume c: "c \<in> A - {a}"
      have "extent xs + g = extent xs + (?ns + 12) + (g - ?ns - 12)" using shrink by simp
      then show "payload_size h' c = payload_size h c"
        by (intro payload_kept [OF B(1) R(2)]) (use c R(3) in \<open>auto simp: B(3) same_arena_def S add.assoc\<close>)
    qed
    ultimately show thesis using resized [OF R(1)] R(3,4) by simp
  next
    case move
    have ns4: "?ns \<le> 2 ^ 32 - 4" using move(1) W(7) e by simp
    obtain r h1 where M: "rt_malloc h 0 ?ns = Some (r, h1)" "heap_owned (h1, A \<union> set_option r)" "same_arena h h1"
      "heap_bytes h1 = heap_bytes h" "r = None \<longrightarrow> h1 = h" "\<forall>b. r = Some b \<longrightarrow> b \<notin> A \<and> ?ns \<le> payload_size h1 b"
      "\<forall>b \<in> A. payload_size h1 b = payload_size h b"
      by (rule owned_malloc [OF own ns4])
    show thesis
    proof (cases r)
      case None
      have "rt_realloc h 0 (Some a) n = Some (None, h)"
        unfolding rt_realloc_def using move inr W(2) nz ar M(1,5) None by (simp add: Let_def)
      then show thesis by (rule fails)
    next
      case (Some b)
      let ?k = "if g - 12 < ?ns then g - 12 else ?ns"
      let ?h2 = "h1\<lparr>heap_bytes := bytes_copy (heap_bytes h1) (b - heap_ptr h1) (a - heap_ptr h1) ?k\<rparr>"
      have own2: "heap_owned (?h2, insert b A)" using M(2) Some by simp
      obtain h' where F: "rt_free ?h2 0 (Some a) = Some h'" "heap_owned (h', insert b A - {a})" "same_arena ?h2 h'" "heap_bytes h' = heap_bytes ?h2"
          "\<forall>c \<in> insert b A - {a}. payload_size h' c = payload_size ?h2 c"
        by (rule owned_free [OF own2 insertI2 [OF a]])
      have "b \<noteq> a" using M(6) Some a by auto
      then have own': "heap_owned (h', insert b (A - {a}))" using F(2) by (simp add: insert_Diff_if)
      have sa: "same_arena h h'" using M(3) F(3) by (simp add: same_arena_def)
      have R: "rt_realloc h 0 (Some a) n = Some (Some b, h')"
        unfolding rt_realloc_def using move inr W(2) nz ar M(1) F(1) Some
        by (cases "g - 12 < ?ns") (simp_all add: Let_def)
      have "min (g - 12) n \<le> ?k" using nz by auto
      then have bytes: "\<forall>i < min (payload_size h a) n. heap_bytes h' (b - heap_ptr h + i) = heap_bytes h (a - heap_ptr h + i)"
        using F(4) M(3,4) by (auto simp: pa bytes_copy_def same_arena_def)
      have p2: "payload_size ?h2 c = payload_size h1 c" for c by simp
      have pb: "n \<le> payload_size h' b" using F(5) \<open>b \<noteq> a\<close> M(6) Some nz(2) p2 by auto
      show thesis using resized [OF R own' pb sa bytes] F(5) M(7) p2 by auto
    qed
  qed
qed

lemma owned_calloc:
  assumes own: "heap_owned (h, A)" and n: "c * n \<le> 2 ^ 32 - 4"
  obtains r h' where "rt_calloc h 0 c n = Some (r, h')" "heap_owned (h', A \<union> set_option r)" "same_arena h h'" "r = None \<longrightarrow> h' = h"
    "\<forall>a. r = Some a \<longrightarrow> a \<notin> A \<and> c * n \<le> payload_size h' a \<and> heap_bytes h' = bytes_fill (heap_bytes h) (a - heap_ptr h) 0 (c * n)"
    "\<forall>b \<in> A. payload_size h' b = payload_size h b"
proof -
  have m: "c * n < 4294967296" using n by simp
  obtain r h1 where M: "rt_malloc h 0 (c * n) = Some (r, h1)" "heap_owned (h1, A \<union> set_option r)" "same_arena h h1"
      "heap_bytes h1 = heap_bytes h" "r = None \<longrightarrow> h1 = h" "\<forall>a. r = Some a \<longrightarrow> a \<notin> A \<and> c * n \<le> payload_size h1 a"
      "\<forall>b \<in> A. payload_size h1 b = payload_size h b" by (rule owned_malloc [OF own n])
  show thesis
  proof (cases r)
    case None
    then show thesis using that [of None h1] M by (simp add: rt_calloc_def m Let_def)
  next
    case (Some a)
    let ?h = "h1\<lparr>heap_bytes := bytes_fill (heap_bytes h1) (a - heap_ptr h1) 0 (c * n)\<rparr>"
    have "rt_calloc h 0 c n = Some (Some a, ?h)" using M(1) Some by (simp add: rt_calloc_def m Let_def)
    then show thesis using that [of "Some a" ?h] M Some by (simp add: same_arena_def)
  qed
qed

lemma owned_init:
  assumes "b \<le> 2 ^ 32 - 4" "e < 2 ^ 32" "align_up4 b + 36 \<le> align_down4 e" "used_mem h = 0"
  obtains h' where "rt_system_heap_init h 0 b e = Some h'" "heap_owned (h', {})" "heap_wf h' [(align_down4 e - align_up4 b - 12, False)]"
    "heap_ptr h' = align_up4 b"
proof -
  note A = align_up4_bounds [OF assms(1)]
  have E: "align_down4 e \<le> e" "4 dvd align_down4 e" by (auto simp: align_down4_def)
  let ?g = "align_down4 e - align_up4 b - 12"
  obtain h' where h': "rt_system_heap_init h 0 b e = Some h'" "mem_size_aligned h' = ?g - 12" "heap_ptr h' = align_up4 b" "heap_end h' = ?g"
    "lfree h' = 0" "used_mem h' = 0" "heap_hdr h' = (heap_hdr h)(0 \<mapsto> \<lparr>hm_magic = HEAP_MAGIC, hm_used = 0, hm_next = ?g, hm_prev = 0\<rparr>,
      ?g \<mapsto> \<lparr>hm_magic = HEAP_MAGIC, hm_used = 1, hm_next = ?g, hm_prev = ?g\<rparr>)"
  proof -
    have c: "24 < align_down4 e \<and> align_up4 b \<le> align_down4 e - 24" "align_down4 e - align_up4 b - 24 + 12 = ?g"
      "align_down4 e - align_up4 b - 24 = ?g - 12" using assms(3) by auto
    show thesis
      by (rule that [of "h\<lparr>mem_size_aligned := ?g - 12, heap_ptr := align_up4 b, heap_end := ?g, lfree := 0, heap_hdr := (heap_hdr h)
            (0 \<mapsto> \<lparr>hm_magic = HEAP_MAGIC, hm_used = 0, hm_next = ?g, hm_prev = 0\<rparr>,
             ?g \<mapsto> \<lparr>hm_magic = HEAP_MAGIC, hm_used = 1, hm_next = ?g, hm_prev = ?g\<rparr>)\<rparr>"])
        (use c assms(4) in \<open>simp_all add: rt_system_heap_init_def Let_def\<close>)
  qed
  have d: "4 dvd ?g" using A(3) E(2) by (simp add: dvd_diff_nat)
  have wf: "heap_wf h' [(?g, False)]" using h' assms(2,3) E A(3) d by (auto simp: heap_wf_def heap_shape_def)
  then have "heap_owned (h', {})" using h'(2) assms(3) by (auto simp: heap_owned_def live_addresses_def)
  then show thesis using that h'(1,3) wf by blast
qed

lemma heap_step_owned: "heap_step s t \<Longrightarrow> heap_owned s \<Longrightarrow> heap_owned t"
proof (induction rule: heap_step.induct)
  case (client_write h A f)
  then show ?case by simp
next
  case (client_malloc n h r h' A)
  from owned_malloc [OF client_malloc(3,1)] client_malloc(2) show ?case by (metis option.inject prod.inject)
next
  case (client_calloc c n h r h' A)
  from owned_calloc [OF client_calloc(3,1)] client_calloc(2) show ?case by (metis option.inject prod.inject)
next
  case (client_free a A h h')
  from owned_free [OF client_free(3,1)] client_free(2) show ?case by (metis option.inject)
next
  case (client_realloc a A n h b h')
  show ?case by (rule owned_realloc [OF client_realloc(5,1,2,3)]) (use client_realloc(4) in auto)
next
  case (client_realloc_fails a A n h h')
  show ?case by (rule owned_realloc [OF client_realloc_fails(5,1,2,3)]) (use client_realloc_fails(4,5) in auto)
qed

lemma heap_run_owned: "heap_step\<^sup>*\<^sup>* s t \<Longrightarrow> heap_owned s \<Longrightarrow> heap_owned t"
  by (induction rule: rtranclp_induct) (auto intro: heap_step_owned)

text \<open>The live blocks lie in the heap, are aligned and do not overlap.\<close>

lemma owned_block:
  assumes "heap_owned (h, A)" "a \<in> A"
  shows "heap_ptr h + 12 \<le> a \<and> a + payload_size h a \<le> heap_ptr h + heap_end h \<and> 4 dvd a \<and> 0 < payload_size h a"
proof -
  obtain bs where B: "heap_wf h bs" "A = live_addresses h bs" using assms(1) by (auto simp: heap_owned_def)
  obtain xs g ys where S: "bs = xs @ (g, True) # ys" "a = heap_ptr h + extent xs + 12" using assms(2) unfolding B(2) by (rule live_split)
  note sh = heap_wf_shape [OF B(1) [unfolded S(1)]]
  note W = heap_shape_split [OF sh]
  have "4 dvd heap_ptr h" "12 < g" using sh by (simp_all add: heap_shape_def)
  then show ?thesis using payload_block [OF sh] W(6,8) by (simp add: S(2) dvd_add)
qed

lemma owned_disjoint:
  assumes "heap_owned (h, A)" "a \<in> A" "b \<in> A" "a < b"
  shows "a + payload_size h a \<le> b - 12"
proof -
  obtain bs where B: "heap_wf h bs" "A = live_addresses h bs" using assms(1) by (auto simp: heap_owned_def)
  obtain q g where Q: "(q, g) \<in> set (used_blocks 0 bs)" "a = heap_ptr h + q + 12" using assms(2) by (auto simp: B(2) live_addresses_def)
  obtain r k where R: "(r, k) \<in> set (used_blocks 0 bs)" "b = heap_ptr h + r + 12" using assms(3) by (auto simp: B(2) live_addresses_def)
  let ?u = "used_blocks 0 bs"
  obtain i j where ij: "i < length ?u" "?u ! i = (q, g)" "j < length ?u" "?u ! j = (r, k)" using Q(1) R(1) by (auto simp: in_set_conv_nth)
  have so: "fst (?u ! x) + snd (?u ! x) \<le> fst (?u ! y)" if "x < y" "y < length ?u" for x y
    using used_blocks_sorted [of 0 bs] that by (simp add: sorted_wrt_iff_nth_less)
  have qr: "q < r" using assms(4) Q(2) R(2) by simp
  then have "i \<noteq> j" using ij by auto
  moreover have "\<not> j < i" using so [of j i] ij qr by auto
  ultimately have "q + g \<le> r" using so [of i j] ij by auto
  moreover have "12 < g" using owned_block [OF assms(1,2)] payload_used [OF B(1) Q(1)] Q(2) by simp
  ultimately show ?thesis using payload_used [OF B(1) Q(1)] Q(2) R(2) by simp
qed

section \<open>Properties\<close>

lemma sample_heap_wf: "heap_wf sample_heap [(24, True), (176, False)]"
  by (simp add: heap_wf_def heap_shape_def sample_heap_def)

lemma sample_heap_owned: "heap_owned (sample_heap, {4108})"
  unfolding heap_owned_def
  by (rule exI [of _ "[(24, True), (176, False)]"]) (simp add: sample_heap_wf [simplified] live_addresses_def, simp add: sample_heap_def)

text \<open>
  C6. \<^verbatim>\<open>rt_malloc\<close> of at most \<open>2 ^ 32 - 4\<close> bytes is first fit: it takes the lowest free block that is large enough (the search stops
  before \<^verbatim>\<open>mem_size_aligned - size\<close>), splits it when the rest can hold a block, and leaves a well-formed
  heap; when there is none it returns \<^verbatim>\<open>RT_NULL\<close> and changes nothing.
\<close>

theorem rt_malloc_first_fit:
  assumes "heap_wf h bs" "0 < n" "n \<le> 2 ^ 32 - 4" "12 \<le> mem_size_aligned h"
  shows "case first_fit (mem_size_aligned h) (max 12 (align_up4 n)) 0 bs of
      None \<Rightarrow> rt_malloc h 0 n = Some (None, h)
    | Some (xs, g, ys) \<Rightarrow> \<exists>h'. rt_malloc h 0 n = Some (Some (heap_ptr h + extent xs + 12), h')
        \<and> heap_wf h' (xs @ take_block (max 12 (align_up4 n)) g @ ys) \<and> same_arena h h' \<and> heap_bytes h' = heap_bytes h"
  by (rule malloc_refines [OF assms])

theorem rt_malloc_first_fit_witness:
  "\<exists>h'. rt_malloc sample_heap 0 20 = Some (Some 4132, h') \<and> heap_wf h' [(24, True), (32, True), (144, False)]"
  using rt_malloc_first_fit [OF sample_heap_wf, of 20]
  by (simp add: align_up4_def add32_def sample_heap_def take_block_def) blast

text \<open>
  C12. \<^verbatim>\<open>rt_free\<close> of an allocated block releases it, merges it with a free block in front of it and a free
  block behind it, and leaves a well-formed heap: no two free blocks are ever neighbours.
\<close>

theorem rt_free_coalesces:
  assumes "heap_wf h (xs @ (g, True) # ys)"
  shows "\<exists>h'. rt_free h 0 (Some (heap_ptr h + extent xs + 12)) = Some h' \<and> heap_wf h' (merge_blocks xs g ys)
    \<and> same_arena h h' \<and> heap_bytes h' = heap_bytes h"
  using free_refines [OF assms] by blast

theorem rt_free_coalesces_witness: "\<exists>h'. rt_free sample_heap 0 (Some 4108) = Some h' \<and> heap_wf h' [(200, False)]"
  using rt_free_coalesces [of sample_heap "[]" 24 "[(176, False)]"] sample_heap_wf
  by (auto simp: merge_blocks_def merge_next_def sample_heap_def)

text \<open>
  Releasing a block at once gives back the heap as it was: the same sequence of blocks, the same lowest free
  block and the same count of used bytes.
\<close>

lemma rt_malloc_free_restores:
  assumes wf: "heap_wf h bs" and n: "n \<le> 2 ^ 32 - 4" and m: "12 \<le> mem_size_aligned h"
    and r: "rt_malloc h 0 n = Some (Some a, h1)"
  shows "\<exists>h2. rt_free h1 0 (Some a) = Some h2 \<and> heap_wf h2 bs \<and> lfree h2 = lfree h \<and> used_mem h2 = used_mem h"
proof -
  let ?sz = "max 12 (align_up4 n)"
  have "0 < n" using r by (cases "n = 0") (auto simp: rt_malloc_def)
  note R = malloc_refines [OF wf this n m]
  obtain xs g ys where ff: "first_fit (mem_size_aligned h) ?sz 0 bs = Some (xs, g, ys)" using R r by (auto split: option.splits)
  have S: "bs = xs @ (g, False) # ys" "?sz + 12 \<le> g" using first_fit_split [OF ff] by blast+
  have M: "a = heap_ptr h + extent xs + 12" "heap_wf h1 (xs @ take_block ?sz g @ ys)" "heap_ptr h1 = heap_ptr h"
    using R r ff by (auto simp: same_arena_def)
  obtain g1 rs where tb: "take_block ?sz g = (g1, True) # rs" using take_block_cons [OF S(2)] by blast
  have wf1: "heap_wf h1 (xs @ (g1, True) # (rs @ ys))" using M(2) by (simp add: tb)
  obtain h2 where F: "rt_free h1 0 (Some a) = Some h2" "heap_wf h2 (merge_blocks xs g1 (rs @ ys))"
    using free_refines [OF wf1] M(1,3) by auto
  have naf: "xs = [] \<or> snd (last xs)" "ys = [] \<or> snd (hd ys)"
    using wf by (auto simp: S(1) heap_wf_def no_adjacent_free_append no_adjacent_free_cons)
  have "merge_next g1 (rs @ ys) = (g, False) # ys"
    using tb naf(2) by (auto simp: take_block_def merge_next_def split: if_splits list.splits bool.splits)
  then have "merge_blocks xs g1 (rs @ ys) = bs" using naf(1) by (auto simp: merge_blocks_def S(1))
  then show ?thesis using F wf by (auto simp: heap_wf_def heap_shape_def)
qed

text \<open>
  C4. From a freshly initialised heap, after any sequence of allocations, releases, reallocations and writes by a
  client that releases only what it owns and asks for at most \<open>2 ^ 32 - 4\<close> bytes: every block handed out lies inside the heap and is aligned, no two of
  them overlap, and no assertion of the allocator fails in the next allocation or release.
\<close>

theorem heap_run_safe:
  assumes "b \<le> 2 ^ 32 - 4" "e < 2 ^ 32" "align_up4 b + 36 \<le> align_down4 e" "used_mem hi = 0"
    "rt_system_heap_init hi 0 b e = Some h0" "heap_step\<^sup>*\<^sup>* (h0, {}) (h, A)"
  shows "(\<forall>a \<in> A. heap_ptr h + 12 \<le> a \<and> a + payload_size h a \<le> heap_ptr h + heap_end h \<and> 4 dvd a)
    \<and> (\<forall>a \<in> A. \<forall>c \<in> A. a \<noteq> c \<longrightarrow> a + payload_size h a \<le> c \<or> c + payload_size h c \<le> a)
    \<and> (\<forall>n \<le> 2 ^ 32 - 4. rt_malloc h 0 n \<noteq> None) \<and> (\<forall>a \<in> A. rt_free h 0 (Some a) \<noteq> None)"
proof -
  have "heap_owned (h0, {})" by (rule owned_init [OF assms(1-4)]) (use assms(5) in simp)
  then have own: "heap_owned (h, A)" by (rule heap_run_owned [OF assms(6)])
  have "a + payload_size h a \<le> c \<or> c + payload_size h c \<le> a" if "a \<in> A" "c \<in> A" "a \<noteq> c" for a c
    using owned_disjoint [OF own that(1,2)] owned_disjoint [OF own that(2,1)] that(3) by linarith
  moreover have "rt_malloc h 0 n \<noteq> None" if "n \<le> 2 ^ 32 - 4" for n by (rule owned_malloc [OF own that]) simp
  moreover have "rt_free h 0 (Some a) \<noteq> None" if "a \<in> A" for a by (rule owned_free [OF own that]) simp
  ultimately show ?thesis using owned_block [OF own] by blast
qed

theorem heap_run_safe_witness:
  "\<exists>h0 h1 a. rt_system_heap_init (sample_heap\<lparr>used_mem := 0\<rparr>) 0 4097 4352 = Some h0 \<and> rt_malloc h0 0 20 = Some (Some a, h1)
     \<and> 4 dvd a \<and> rt_free h1 0 (Some a) \<noteq> None"
proof -
  let ?h = "sample_heap\<lparr>used_mem := 0\<rparr>"
  have al: "align_up4 4097 = 4100" "align_down4 4352 = 4352" "align_up4 20 = 20" by (simp_all add: align_up4_def align_down4_def add32_def)
  obtain h0 where h0: "rt_system_heap_init ?h 0 4097 4352 = Some h0" "heap_wf h0 [(240, False)]"
    by (rule owned_init [of 4097 4352 ?h]) (simp_all add: al)
  have "mem_size_aligned h0 = 228" using hchain_end [of "heap_hdr h0" 0 0 "[(240, False)]" "heap_end h0"] h0(2)
    by (simp add: heap_wf_def heap_shape_def)
  then obtain a h1 where m: "rt_malloc h0 0 20 = Some (Some a, h1)" using malloc_refines [OF h0(2), of 20] by (auto simp: al)
  have "heap_step\<^sup>*\<^sup>* (h0, {}) (h1, {} \<union> set_option (Some a))" by (rule r_into_rtranclp, rule client_malloc [OF _ m]) simp
  then have st: "heap_step\<^sup>*\<^sup>* (h0, {}) (h1, {a})" by simp
  have "4 dvd a \<and> rt_free h1 0 (Some a) \<noteq> None" using heap_run_safe [OF _ _ _ _ h0(1) st] by (simp add: al)
  then show ?thesis using h0(1) m by blast
qed

text \<open>
  C21. \<^verbatim>\<open>rt_realloc\<close> of an owned block to a positive size of at most \<open>2 ^ 32 - 4\<close> bytes either fails and changes nothing, or gives a block of at
  least that size that holds the first bytes of the old one, up to the smaller of the two sizes. The caller owns
  the new block in place of the old one, and every other block keeps its size.
\<close>

theorem rt_realloc_keeps_data:
  assumes "heap_owned (h, A)" "a \<in> A" "0 < n" "n \<le> 2 ^ 32 - 4"
  shows "rt_realloc h 0 (Some a) n = Some (None, h) \<or> (\<exists>c h'. rt_realloc h 0 (Some a) n = Some (Some c, h')
    \<and> heap_owned (h', insert c (A - {a})) \<and> n \<le> payload_size h' c
    \<and> (\<forall>i < min (payload_size h a) n. heap_bytes h' (c - heap_ptr h + i) = heap_bytes h (a - heap_ptr h + i))
    \<and> (\<forall>d \<in> A - {a}. payload_size h' d = payload_size h d))"
  by (rule owned_realloc [OF assms]) blast+

theorem rt_realloc_keeps_data_witness:
  "\<exists>c h'. rt_realloc sample_heap 0 (Some 4108) 40 = Some (Some c, h') \<and> heap_owned (h', {c}) \<and> heap_bytes h' (c - 4096 + 11) = 7"
proof -
  have p: "payload_size sample_heap 4108 = 12" "heap_ptr sample_heap = 4096" "heap_bytes sample_heap i = 7" for i
    by (simp_all add: payload_size_def sample_heap_def)
  obtain h1 where "rt_malloc sample_heap 0 40 = Some (Some 4132, h1)"
    using malloc_refines [OF sample_heap_wf, of 40] by (auto simp: align_up4_def add32_def sample_heap_def)
  moreover have "heap_hdr sample_heap 0 = Some \<lparr>hm_magic = HEAP_MAGIC, hm_used = 1, hm_next = 24, hm_prev = 0\<rparr>" "align_up4 40 = 40"
    "sub32 (sub32 24 0) 12 = 12" "heap_end sample_heap = 200" "mem_size_aligned sample_heap = 188"
    by (simp_all add: sample_heap_def align_up4_def add32_def sub32_def)
  ultimately have "rt_realloc sample_heap 0 (Some 4108) 40 \<noteq> Some (None, sample_heap)"
    by (simp add: rt_realloc_def Let_def p bind_eq_Some_conv)
  then show ?thesis using rt_realloc_keeps_data [OF sample_heap_owned, of 4108 40] by (auto simp: p)
qed

text \<open>
  \<^verbatim>\<open>rt_calloc\<close>, when the product of its arguments does not overflow, clears exactly the bytes it was asked
  for in a new block and leaves all other bytes of the heap as they were.
\<close>

lemma rt_calloc_clears:
  assumes "heap_owned (h, A)" "c * n \<le> 2 ^ 32 - 4" "rt_calloc h 0 c n = Some (Some a, h')"
  shows "a \<notin> A \<and> heap_owned (h', insert a A) \<and> c * n \<le> payload_size h' a
    \<and> (\<forall>i < c * n. heap_bytes h' (a - heap_ptr h + i) = 0)
    \<and> (\<forall>j. j < a - heap_ptr h \<or> a - heap_ptr h + c * n \<le> j \<longrightarrow> heap_bytes h' j = heap_bytes h j)"
  by (rule owned_calloc [OF assms(1,2)]) (use assms(3) in \<open>auto simp: bytes_fill_def\<close>)

end
