(* ===== verification/Kernel_State.thy ===== *)
theory Kernel_State
  imports Heap
begin

text \<open>
  The state of the RT-Thread kernel (\<^verbatim>\<open>os/\<close>): the records of \<^verbatim>\<open>rtdef.h\<close> and the global variables of
  \<^verbatim>\<open>scheduler.c\<close>, \<^verbatim>\<open>timer.c\<close>, \<^verbatim>\<open>clock.c\<close>, \<^verbatim>\<open>irq.c\<close>, \<^verbatim>\<open>object.c\<close>, \<^verbatim>\<open>idle.c\<close> and \<^verbatim>\<open>kservice.c\<close>, in the
  configuration of \<^verbatim>\<open>board/rtconfig.h\<close> (32 priorities, one timer list, no signals, no soft timers).

  A thread or kernel object is named by its address (a natural). The intrusive lists
  (\<^verbatim>\<open>rt_list_t\<close>) are read as sequences: \<open>k_list\<close> gives, for every list head a thread's \<^verbatim>\<open>tlist\<close> node
  can be linked to, the threads in order; \<open>timer_list\<close> is \<^verbatim>\<open>rt_timer_list[0]\<close>; \<open>k_container\<close> the
  object lists of \<^verbatim>\<open>rt_object_container\<close>. The theory \<open>RtList\<close> shows that the pointer operations of
  \<^verbatim>\<open>rtservice.h\<close> act on these sequences as the model says.
\<close>

section \<open>Constants\<close>

abbreviation (input) RT_THREAD_PRIORITY_MAX :: nat where "RT_THREAD_PRIORITY_MAX \<equiv> 32"
abbreviation (input) RT_TICK_MAX :: u32 where "RT_TICK_MAX \<equiv> 0xffffffff"
abbreviation (input) RT_WAITING_FOREVER :: int where "RT_WAITING_FOREVER \<equiv> - 1"

abbreviation (input) RT_THREAD_INIT :: u8 where "RT_THREAD_INIT \<equiv> 0x00"
abbreviation (input) RT_THREAD_READY :: u8 where "RT_THREAD_READY \<equiv> 0x01"
abbreviation (input) RT_THREAD_SUSPEND :: u8 where "RT_THREAD_SUSPEND \<equiv> 0x02"
abbreviation (input) RT_THREAD_CLOSE :: u8 where "RT_THREAD_CLOSE \<equiv> 0x04"
abbreviation (input) RT_THREAD_STAT_MASK :: u8 where "RT_THREAD_STAT_MASK \<equiv> 0x0f"

abbreviation (input) RT_TIMER_FLAG_ACTIVATED :: u8 where "RT_TIMER_FLAG_ACTIVATED \<equiv> 0x1"
abbreviation (input) RT_TIMER_FLAG_PERIODIC :: u8 where "RT_TIMER_FLAG_PERIODIC \<equiv> 0x2"

abbreviation (input) RT_Object_Class_Thread :: u8 where "RT_Object_Class_Thread \<equiv> 0x01"
abbreviation (input) RT_Object_Class_Semaphore :: u8 where "RT_Object_Class_Semaphore \<equiv> 0x02"
abbreviation (input) RT_Object_Class_Mutex :: u8 where "RT_Object_Class_Mutex \<equiv> 0x03"
abbreviation (input) RT_Object_Class_Event :: u8 where "RT_Object_Class_Event \<equiv> 0x04"
abbreviation (input) RT_Object_Class_MailBox :: u8 where "RT_Object_Class_MailBox \<equiv> 0x05"
abbreviation (input) RT_Object_Class_MessageQueue :: u8 where "RT_Object_Class_MessageQueue \<equiv> 0x06"
abbreviation (input) RT_Object_Class_MemHeap :: u8 where "RT_Object_Class_MemHeap \<equiv> 0x07"
abbreviation (input) RT_Object_Class_MemPool :: u8 where "RT_Object_Class_MemPool \<equiv> 0x08"
abbreviation (input) RT_Object_Class_Device :: u8 where "RT_Object_Class_Device \<equiv> 0x09"
abbreviation (input) RT_Object_Class_Timer :: u8 where "RT_Object_Class_Timer \<equiv> 0x0a"
abbreviation (input) RT_Object_Class_Static :: u8 where "RT_Object_Class_Static \<equiv> 0x80"

abbreviation (input) RT_IPC_FLAG_PRIO :: u8 where "RT_IPC_FLAG_PRIO \<equiv> 0x01"

abbreviation (input) RT_EVENT_FLAG_AND :: u8 where "RT_EVENT_FLAG_AND \<equiv> 0x01"
abbreviation (input) RT_EVENT_FLAG_OR :: u8 where "RT_EVENT_FLAG_OR \<equiv> 0x02"
abbreviation (input) RT_EVENT_FLAG_CLEAR :: u8 where "RT_EVENT_FLAG_CLEAR \<equiv> 0x04"

section \<open>Records\<close>

type_synonym tid = nat

text \<open>Pointers to kernel objects; \<open>K_thread_timer t\<close> is the timer embedded in thread \<open>t\<close>.\<close>

datatype kptr =
    K_thread tid | K_sem nat | K_mutex nat | K_event nat | K_mb nat | K_mq nat | K_memheap nat | K_mp nat | K_dev nat
  | K_timer nat | K_thread_timer tid

text \<open>The heads a thread's \<^verbatim>\<open>tlist\<close> can be linked to.\<close>

datatype thead =
    Ready nat | Defunct | Sem_q nat | Mutex_q nat | Event_q nat | Mb_q nat | Mb_send_q nat
  | Mq_q nat | Mq_send_q nat | Mp_q nat | Dq_push_q nat | Dq_pop_q nat | Comp_q nat

record rt_object =
  o_name :: "u8 list"
  o_type :: u8
  o_flag :: u8

text \<open>A timer callback with its parameter: \<^verbatim>\<open>rt_thread_timeout\<close> of a thread, or a user function.\<close>

datatype timeout_func = Thread_timeout tid | User_timeout nat

record rt_timer =
  tm_timeout_func :: timeout_func
  tm_init_tick :: u32
  tm_timeout_tick :: u32

record rt_thread =
  th_sp :: nat
  th_entry :: nat
  th_parameter :: nat
  th_stack_addr :: nat
  th_stack_size :: nat
  th_stack_guard :: u8
  th_error :: int
  th_stat :: u8
  th_current_priority :: nat
  th_init_priority :: nat
  th_number_mask :: u32
  th_event_set :: u32
  th_event_info :: u8
  th_init_tick :: u32
  th_remaining_tick :: u32
  th_cleanup :: "nat option"
  th_user_data :: nat

record rt_semaphore =
  sem_value :: nat

record rt_mutex =
  mutex_value :: nat
  mutex_original_priority :: nat
  mutex_hold :: nat
  mutex_owner :: "tid option"

record rt_event =
  event_set :: u32

record rt_mailbox =
  mb_pool_addr :: nat
  mb_msg_pool :: "u32 list"
  mb_size :: nat
  mb_entry :: nat
  mb_in_offset :: nat
  mb_out_offset :: nat

text \<open>The message blocks of a queue are numbered as they lie in the pool; \<open>mq_next\<close> is the
  \<^verbatim>\<open>struct rt_mq_message\<close> link of a block and \<open>mq_data\<close> the bytes behind it.\<close>

record rt_messagequeue =
  mq_pool_addr :: nat
  mq_msg_size :: nat
  mq_max_msgs :: nat
  mq_entry :: nat
  mq_next :: "nat \<Rightarrow> nat option"
  mq_data :: "nat \<Rightarrow> nat \<Rightarrow> u8"
  mq_head :: "nat option"
  mq_tail :: "nat option"
  mq_free :: "nat option"

record kstate =
  k_obj :: "kptr \<Rightarrow> rt_object"
  k_container :: "u8 \<Rightarrow> kptr list"
  k_thr :: "tid \<Rightarrow> rt_thread"
  k_tmr :: "kptr \<Rightarrow> rt_timer"
  k_sem :: "nat \<Rightarrow> rt_semaphore"
  k_mutex :: "nat \<Rightarrow> rt_mutex"
  k_event :: "nat \<Rightarrow> rt_event"
  k_mb :: "nat \<Rightarrow> rt_mailbox"
  k_mq :: "nat \<Rightarrow> rt_messagequeue"
  k_list :: "thead \<Rightarrow> tid list"
  ready_priority_group :: u32
  scheduler_lock_nest :: int
  interrupt_nest :: nat
  current_thread :: "tid option"
  rt_current_priority :: nat
  timer_list :: "kptr list"
  timer_check_list :: "kptr list"
  rt_tick :: u32
  k_heap :: rt_heap
  rt_errno :: int
  idle_hook_list :: "nat option list"

section \<open>Accessors\<close>

definition thr_upd :: "tid \<Rightarrow> (rt_thread \<Rightarrow> rt_thread) \<Rightarrow> kstate \<Rightarrow> kstate" where
  "thr_upd t f k = k\<lparr>k_thr := (k_thr k)(t := f (k_thr k t))\<rparr>"

definition obj_upd :: "kptr \<Rightarrow> (rt_object \<Rightarrow> rt_object) \<Rightarrow> kstate \<Rightarrow> kstate" where
  "obj_upd p f k = k\<lparr>k_obj := (k_obj k)(p := f (k_obj k p))\<rparr>"

definition tmr_upd :: "kptr \<Rightarrow> (rt_timer \<Rightarrow> rt_timer) \<Rightarrow> kstate \<Rightarrow> kstate" where
  "tmr_upd p f k = k\<lparr>k_tmr := (k_tmr k)(p := f (k_tmr k p))\<rparr>"

text \<open>\<^verbatim>\<open>thread->stat & RT_THREAD_STAT_MASK\<close>.\<close>

definition thread_state :: "kstate \<Rightarrow> tid \<Rightarrow> u8" where
  "thread_state k t = th_stat (k_thr k t) AND RT_THREAD_STAT_MASK"

text \<open>The list operations on \<^verbatim>\<open>tlist\<close> nodes: unlinking a thread from whatever list holds it,
  linking it at the end of a list (\<^verbatim>\<open>rt_list_insert_before\<close> on the head) and at its front
  (\<^verbatim>\<open>rt_list_insert_after\<close> on the head).\<close>

definition tlist_remove :: "tid \<Rightarrow> kstate \<Rightarrow> kstate" where
  "tlist_remove t k = k\<lparr>k_list := (\<lambda>h. filter (\<lambda>x. x \<noteq> t) (k_list k h))\<rparr>"

definition tlist_insert_before :: "thead \<Rightarrow> tid \<Rightarrow> kstate \<Rightarrow> kstate" where
  "tlist_insert_before h t k = k\<lparr>k_list := (k_list k)(h := k_list k h @ [t])\<rparr>"

definition tlist_insert_after :: "thead \<Rightarrow> tid \<Rightarrow> kstate \<Rightarrow> kstate" where
  "tlist_insert_after h t k = k\<lparr>k_list := (k_list k)(h := t # k_list k h)\<rparr>"

text \<open>\<^verbatim>\<open>rt_object_get_type\<close> and \<^verbatim>\<open>rt_object_is_systemobject\<close> of \<^verbatim>\<open>object.c\<close>; they only read the object.\<close>

definition rt_object_get_type :: "kstate \<Rightarrow> kptr \<Rightarrow> u8" where
  "rt_object_get_type k p = o_type (k_obj k p) AND NOT RT_Object_Class_Static"

definition rt_object_is_systemobject :: "kstate \<Rightarrow> kptr \<Rightarrow> bool" where
  "rt_object_is_systemobject k p \<longleftrightarrow> o_type (k_obj k p) AND RT_Object_Class_Static \<noteq> 0"

text \<open>The debug checks \<^verbatim>\<open>RT_DEBUG_NOT_IN_INTERRUPT\<close> and \<^verbatim>\<open>RT_DEBUG_IN_THREAD_CONTEXT\<close>.\<close>

definition not_in_interrupt :: "kstate \<Rightarrow> unit option" where
  "not_in_interrupt k = rt_assert (interrupt_nest k = 0)"

definition in_thread_context :: "kstate \<Rightarrow> unit option" where
  "in_thread_context k = rt_assert (current_thread k \<noteq> None \<and> interrupt_nest k = 0)"

section \<open>The state at reset, and a small running system\<close>

text \<open>All variables zero, all lists empty.\<close>

definition zero_thread :: rt_thread where
  "zero_thread = \<lparr>th_sp = 0, th_entry = 0, th_parameter = 0, th_stack_addr = 0, th_stack_size = 0,
     th_stack_guard = 0, th_error = 0, th_stat = 0, th_current_priority = 0, th_init_priority = 0,
     th_number_mask = 0, th_event_set = 0, th_event_info = 0, th_init_tick = 0, th_remaining_tick = 0,
     th_cleanup = None, th_user_data = 0\<rparr>"

definition zero_heap :: rt_heap where
  "zero_heap = \<lparr>heap_ptr = 0, heap_end = 0, lfree = 0, mem_size_aligned = 0, used_mem = 0, max_mem = 0,
     heap_hdr = (\<lambda>_. None), heap_bytes = (\<lambda>_. 0)\<rparr>"

definition kernel_zero :: kstate where
  "kernel_zero = \<lparr>k_obj = (\<lambda>_. \<lparr>o_name = replicate 8 0, o_type = 0, o_flag = 0\<rparr>),
     k_container = (\<lambda>_. []), k_thr = (\<lambda>_. zero_thread),
     k_tmr = (\<lambda>_. \<lparr>tm_timeout_func = User_timeout 0, tm_init_tick = 0, tm_timeout_tick = 0\<rparr>),
     k_sem = (\<lambda>_. \<lparr>sem_value = 0\<rparr>),
     k_mutex = (\<lambda>_. \<lparr>mutex_value = 0, mutex_original_priority = 0, mutex_hold = 0, mutex_owner = None\<rparr>),
     k_event = (\<lambda>_. \<lparr>event_set = 0\<rparr>),
     k_mb = (\<lambda>_. \<lparr>mb_pool_addr = 0, mb_msg_pool = [], mb_size = 0, mb_entry = 0, mb_in_offset = 0,
                  mb_out_offset = 0\<rparr>),
     k_mq = (\<lambda>_. \<lparr>mq_pool_addr = 0, mq_msg_size = 0, mq_max_msgs = 0, mq_entry = 0,
                  mq_next = (\<lambda>_. None), mq_data = (\<lambda>_ _. 0), mq_head = None, mq_tail = None,
                  mq_free = None\<rparr>),
     k_list = (\<lambda>_. []), ready_priority_group = 0, scheduler_lock_nest = 0, interrupt_nest = 0,
     current_thread = None, rt_current_priority = 0, timer_list = [], timer_check_list = [],
     rt_tick = 0, k_heap = zero_heap, rt_errno = 0, idle_hook_list = [None, None, None, None]\<rparr>"

text \<open>Three threads: 1 (priority 5) and 2 (priority 3) are ready, 3 (priority 4) waits for the
  semaphore at address 10 with its timer set to tick 50; thread 2 runs. The objects at 10 to 14 are
  a semaphore, a mutex, an event set, a mailbox and a message queue.\<close>

definition sample_thread :: "nat \<Rightarrow> u8 \<Rightarrow> rt_thread" where
  "sample_thread p s = zero_thread\<lparr>th_sp := 200, th_stack_addr := 100, th_stack_size := 200,
     th_stack_guard := 0x23, th_stat := s, th_current_priority := p, th_init_priority := p,
     th_number_mask := push_bit p 1, th_init_tick := 10, th_remaining_tick := 10\<rparr>"

definition sample_object :: "kptr \<Rightarrow> rt_object" where
  "sample_object p = \<lparr>o_name = replicate 8 0,
     o_type = (case p of K_thread _ \<Rightarrow> 0x81 | K_sem _ \<Rightarrow> 0x82 | K_mutex _ \<Rightarrow> 0x83 | K_event _ \<Rightarrow> 0x84
               | K_mb _ \<Rightarrow> 0x85 | K_mq _ \<Rightarrow> 0x86 | K_memheap _ \<Rightarrow> 0x87 | K_mp _ \<Rightarrow> 0x88 | K_dev _ \<Rightarrow> 0x89 | _ \<Rightarrow> 0x8a),
     o_flag = (if p = K_thread_timer 3 then 1 else 0)\<rparr>"

definition sample_kernel :: kstate where
  "sample_kernel = kernel_zero\<lparr>k_obj := sample_object,
     k_thr := (k_thr kernel_zero)(1 := sample_thread 5 1, 2 := sample_thread 3 1, 3 := sample_thread 4 2),
     k_tmr := (\<lambda>p. case p of
         K_thread_timer t \<Rightarrow> \<lparr>tm_timeout_func = Thread_timeout t, tm_init_tick = 40, tm_timeout_tick = 50\<rparr>
       | _ \<Rightarrow> \<lparr>tm_timeout_func = User_timeout 0, tm_init_tick = 0, tm_timeout_tick = 0\<rparr>),
     k_list := (\<lambda>_. [])(Ready 5 := [1], Ready 3 := [2], Sem_q 10 := [3]),
     ready_priority_group := 0x28, current_thread := Some 2, rt_current_priority := 3,
     timer_list := [K_thread_timer 3], rt_tick := 20\<rparr>"

section \<open>Reading back updates\<close>

lemma thr_upd_simps [simp]:
  "k_thr (thr_upd t f k) = (k_thr k)(t := f (k_thr k t))"
  "k_list (thr_upd t f k) = k_list k"
  "k_obj (thr_upd t f k) = k_obj k"
  "k_tmr (thr_upd t f k) = k_tmr k"
  "k_container (thr_upd t f k) = k_container k"
  "timer_list (thr_upd t f k) = timer_list k"
  "timer_check_list (thr_upd t f k) = timer_check_list k"
  "ready_priority_group (thr_upd t f k) = ready_priority_group k"
  "scheduler_lock_nest (thr_upd t f k) = scheduler_lock_nest k"
  "interrupt_nest (thr_upd t f k) = interrupt_nest k"
  "current_thread (thr_upd t f k) = current_thread k"
  "rt_current_priority (thr_upd t f k) = rt_current_priority k"
  "rt_tick (thr_upd t f k) = rt_tick k"
  "k_sem (thr_upd t f k) = k_sem k"
  "k_mutex (thr_upd t f k) = k_mutex k"
  "k_event (thr_upd t f k) = k_event k"
  "k_mb (thr_upd t f k) = k_mb k"
  "k_mq (thr_upd t f k) = k_mq k"
  "k_heap (thr_upd t f k) = k_heap k"
  by (simp_all add: thr_upd_def)

lemma obj_upd_simps [simp]:
  "k_obj (obj_upd p f k) = (k_obj k)(p := f (k_obj k p))"
  "k_list (obj_upd p f k) = k_list k"
  "k_thr (obj_upd p f k) = k_thr k"
  "k_tmr (obj_upd p f k) = k_tmr k"
  "k_container (obj_upd p f k) = k_container k"
  "timer_list (obj_upd p f k) = timer_list k"
  "timer_check_list (obj_upd p f k) = timer_check_list k"
  "ready_priority_group (obj_upd p f k) = ready_priority_group k"
  "scheduler_lock_nest (obj_upd p f k) = scheduler_lock_nest k"
  "interrupt_nest (obj_upd p f k) = interrupt_nest k"
  "current_thread (obj_upd p f k) = current_thread k"
  "rt_current_priority (obj_upd p f k) = rt_current_priority k"
  "rt_tick (obj_upd p f k) = rt_tick k"
  "k_sem (obj_upd p f k) = k_sem k"
  "k_mutex (obj_upd p f k) = k_mutex k"
  "k_event (obj_upd p f k) = k_event k"
  "k_mb (obj_upd p f k) = k_mb k"
  "k_mq (obj_upd p f k) = k_mq k"
  "k_heap (obj_upd p f k) = k_heap k"
  by (simp_all add: obj_upd_def)

lemma tmr_upd_simps [simp]:
  "k_tmr (tmr_upd p f k) = (k_tmr k)(p := f (k_tmr k p))"
  "k_list (tmr_upd p f k) = k_list k"
  "k_thr (tmr_upd p f k) = k_thr k"
  "k_obj (tmr_upd p f k) = k_obj k"
  "k_container (tmr_upd p f k) = k_container k"
  "timer_list (tmr_upd p f k) = timer_list k"
  "timer_check_list (tmr_upd p f k) = timer_check_list k"
  "ready_priority_group (tmr_upd p f k) = ready_priority_group k"
  "scheduler_lock_nest (tmr_upd p f k) = scheduler_lock_nest k"
  "interrupt_nest (tmr_upd p f k) = interrupt_nest k"
  "current_thread (tmr_upd p f k) = current_thread k"
  "rt_current_priority (tmr_upd p f k) = rt_current_priority k"
  "rt_tick (tmr_upd p f k) = rt_tick k"
  "k_sem (tmr_upd p f k) = k_sem k"
  "k_mutex (tmr_upd p f k) = k_mutex k"
  "k_event (tmr_upd p f k) = k_event k"
  "k_mb (tmr_upd p f k) = k_mb k"
  "k_mq (tmr_upd p f k) = k_mq k"
  "k_heap (tmr_upd p f k) = k_heap k"
  by (simp_all add: tmr_upd_def)

lemma tlist_remove_simps [simp]:
  "k_list (tlist_remove t k) h = filter (\<lambda>x. x \<noteq> t) (k_list k h)"
  "k_thr (tlist_remove t k) = k_thr k"
  "k_tmr (tlist_remove t k) = k_tmr k"
  "k_obj (tlist_remove t k) = k_obj k"
  "k_container (tlist_remove t k) = k_container k"
  "timer_list (tlist_remove t k) = timer_list k"
  "timer_check_list (tlist_remove t k) = timer_check_list k"
  "ready_priority_group (tlist_remove t k) = ready_priority_group k"
  "scheduler_lock_nest (tlist_remove t k) = scheduler_lock_nest k"
  "interrupt_nest (tlist_remove t k) = interrupt_nest k"
  "current_thread (tlist_remove t k) = current_thread k"
  "rt_current_priority (tlist_remove t k) = rt_current_priority k"
  "rt_tick (tlist_remove t k) = rt_tick k"
  "k_sem (tlist_remove t k) = k_sem k"
  "k_mutex (tlist_remove t k) = k_mutex k"
  "k_event (tlist_remove t k) = k_event k"
  "k_mb (tlist_remove t k) = k_mb k"
  "k_mq (tlist_remove t k) = k_mq k"
  "k_heap (tlist_remove t k) = k_heap k"
  by (simp_all add: tlist_remove_def)

lemma tlist_insert_simps [simp]:
  "k_list (tlist_insert_before g t k) = (k_list k)(g := k_list k g @ [t])"
  "k_list (tlist_insert_after g t k) = (k_list k)(g := t # k_list k g)"
  "k_thr (tlist_insert_before g t k) = k_thr k"
  "k_thr (tlist_insert_after g t k) = k_thr k"
  by (simp_all add: tlist_insert_before_def tlist_insert_after_def)

end
