(* ===== verification/Scheduler.thy ===== *)
theory Scheduler
  imports Kernel_State
begin

text \<open>
  The priority scheduler (\<^verbatim>\<open>os/scheduler.c\<close>) and the find-first-set routine it relies on
  (\<^verbatim>\<open>__rt_ffs\<close>, the assembly version of \<^verbatim>\<open>libcpu/arm/cortex-m4/cpuport.c\<close> that the configuration
  selects, and the table version of \<^verbatim>\<open>os/kservice.c\<close>). A context switch is the change of
  \<^verbatim>\<open>rt_current_thread\<close>; the hooks are \<^verbatim>\<open>RT_NULL\<close>.
\<close>

section \<open>Definitions: find first set\<close>

text \<open>The instructions \<^verbatim>\<open>RBIT\<close> and \<^verbatim>\<open>CLZ\<close> on a 32-bit register.\<close>

definition rbit :: "u32 \<Rightarrow> u32" where
  "rbit w = horner_sum of_bool 2 (map (\<lambda>i. bit w (31 - i)) [0..<32])"

fun clz_from :: "nat \<Rightarrow> u32 \<Rightarrow> nat" where
  "clz_from 0 w = 0"
| "clz_from (Suc n) w = (if bit w n then 0 else Suc (clz_from n w))"

definition rt_ffs_asm :: "u32 \<Rightarrow> nat" where
  "rt_ffs_asm v = (if v = 0 then 0 else clz_from 32 (rbit v) + 1)"

text \<open>The table \<^verbatim>\<open>__lowest_bit_bitmap\<close>: its 256 entries are sixteen rows that differ in their first
  entry only.\<close>

definition lowest_bit_row :: "nat \<Rightarrow> nat list" where
  "lowest_bit_row n = [n, 0, 1, 0, 2, 0, 1, 0, 3, 0, 1, 0, 2, 0, 1, 0]"

definition lowest_bit_bitmap :: "nat list" where
  "lowest_bit_bitmap = concat (map lowest_bit_row [0, 4, 5, 4, 6, 4, 5, 4, 7, 4, 5, 4, 6, 4, 5, 4])"

definition rt_ffs_table :: "u32 \<Rightarrow> nat option" where
  "rt_ffs_table v =
     (if v = 0 then Some 0
      else if v AND 0xff \<noteq> 0 then
        map_option (\<lambda>n. n + 1) (arr_get lowest_bit_bitmap (unat (v AND 0xff)))
      else if v AND 0xff00 \<noteq> 0 then
        map_option (\<lambda>n. n + 9) (arr_get lowest_bit_bitmap (unat (drop_bit 8 (v AND 0xff00))))
      else if v AND 0xff0000 \<noteq> 0 then
        map_option (\<lambda>n. n + 17) (arr_get lowest_bit_bitmap (unat (drop_bit 16 (v AND 0xff0000))))
      else
        map_option (\<lambda>n. n + 25) (arr_get lowest_bit_bitmap (unat (drop_bit 24 (v AND 0xff000000)))))"

section \<open>Definitions: the scheduler\<close>

text \<open>A stack overflow reported by \<^verbatim>\<open>_rt_scheduler_stack_check\<close> spins with interrupts disabled.\<close>

definition rt_scheduler_stack_check :: "kstate \<Rightarrow> tid \<Rightarrow> unit option" where
  "rt_scheduler_stack_check k t =
     (let th = k_thr k t in
      if th_stack_guard th \<noteq> 0x23 \<or> th_sp th \<le> th_stack_addr th
         \<or> th_sp th > add32 (th_stack_addr th) (th_stack_size th)
      then None else Some ())"

definition rt_system_scheduler_init :: "kstate \<Rightarrow> kstate" where
  "rt_system_scheduler_init k =
     k\<lparr>scheduler_lock_nest := 0,
       k_list := (\<lambda>h. case h of Ready p \<Rightarrow> if p < RT_THREAD_PRIORITY_MAX then [] else k_list k h
                      | Defunct \<Rightarrow> [] | _ \<Rightarrow> k_list k h),
       rt_current_priority := RT_THREAD_PRIORITY_MAX - 1,
       current_thread := None, ready_priority_group := 0\<rparr>"

text \<open>The thread at the head of the highest ready priority; with no ready thread the code reads
  outside \<^verbatim>\<open>rt_thread_priority_table\<close>.\<close>

definition highest_ready :: "kstate \<Rightarrow> (nat \<times> tid) option" where
  "highest_ready k =
     (let n = rt_ffs_asm (ready_priority_group k) in
      if n = 0 then None
      else case k_list k (Ready (n - 1)) of [] \<Rightarrow> None | t # _ \<Rightarrow> Some (n - 1, t))"

definition rt_system_scheduler_start :: "kstate \<Rightarrow> kstate option" where
  "rt_system_scheduler_start k = do {
     (_, to_thread) \<leftarrow> highest_ready k;
     Some (k\<lparr>current_thread := Some to_thread\<rparr>)
   }"

definition rt_schedule :: "kstate \<Rightarrow> kstate option" where
  "rt_schedule k =
     (if scheduler_lock_nest k = 0 then do {
        (prio, to_thread) \<leftarrow> highest_ready k;
        if current_thread k \<noteq> Some to_thread then do {
          rt_scheduler_stack_check k to_thread;
          Some (k\<lparr>rt_current_priority := prio, current_thread := Some to_thread\<rparr>)
        }
        else Some k
      }
      else Some k)"

text \<open>The state bits of \<^verbatim>\<open>thread->stat\<close> are replaced, the others kept.\<close>

definition set_stat :: "u8 \<Rightarrow> rt_thread \<Rightarrow> rt_thread" where
  "set_stat s th = th\<lparr>th_stat := s OR (th_stat th AND NOT RT_THREAD_STAT_MASK)\<rparr>"

text \<open>Both operations index \<^verbatim>\<open>rt_thread_priority_table\<close> with the current priority.\<close>

definition rt_schedule_insert_thread :: "tid \<Rightarrow> kstate \<Rightarrow> kstate option" where
  "rt_schedule_insert_thread t k = do {
     let k1 = thr_upd t (set_stat RT_THREAD_READY) k;
     let th = k_thr k1 t;
     rt_assert (th_current_priority th < RT_THREAD_PRIORITY_MAX);
     let k2 = tlist_insert_before (Ready (th_current_priority th)) t k1;
     Some (k2\<lparr>ready_priority_group := ready_priority_group k2 OR th_number_mask th\<rparr>)
   }"

definition rt_schedule_remove_thread :: "tid \<Rightarrow> kstate \<Rightarrow> kstate option" where
  "rt_schedule_remove_thread t k = do {
     let k1 = tlist_remove t k;
     let th = k_thr k1 t;
     rt_assert (th_current_priority th < RT_THREAD_PRIORITY_MAX);
     Some (if k_list k1 (Ready (th_current_priority th)) = []
           then k1\<lparr>ready_priority_group := ready_priority_group k1 AND NOT (th_number_mask th)\<rparr>
           else k1)
   }"

text \<open>The nesting counter is a signed 16-bit integer.\<close>

definition wrap_s16 :: "int \<Rightarrow> int" where
  "wrap_s16 i = (i + 2 ^ 15) mod 2 ^ 16 - 2 ^ 15"

definition rt_enter_critical :: "kstate \<Rightarrow> kstate" where
  "rt_enter_critical k = k\<lparr>scheduler_lock_nest := wrap_s16 (scheduler_lock_nest k + 1)\<rparr>"

definition rt_exit_critical :: "kstate \<Rightarrow> kstate option" where
  "rt_exit_critical k =
     (let n = wrap_s16 (scheduler_lock_nest k - 1) in
      if n \<le> 0 then
        let k1 = k\<lparr>scheduler_lock_nest := 0\<rparr> in
        if current_thread k1 \<noteq> None then rt_schedule k1 else Some k1
      else Some (k\<lparr>scheduler_lock_nest := n\<rparr>))"

definition rt_critical_level :: "kstate \<Rightarrow> nat" where
  "rt_critical_level k = nat (scheduler_lock_nest k mod 2 ^ 16)"

text \<open>
  The scheduler invariant. A thread is linked to a ready queue exactly when its state is READY, and
  then to the queue of its current priority; bit \<open>p\<close> of the ready group says whether queue \<open>p\<close> is
  non-empty; no thread is linked twice; the waiting queues hold suspended threads and the defunct
  queue closed ones.
\<close>

definition prio_ok :: "rt_thread \<Rightarrow> bool" where
  "prio_ok th \<longleftrightarrow> th_current_priority th < RT_THREAD_PRIORITY_MAX
      \<and> th_number_mask th = push_bit (th_current_priority th) 1"

definition head_state :: "thead \<Rightarrow> u8" where
  "head_state h = (case h of Ready p \<Rightarrow> RT_THREAD_READY | Defunct \<Rightarrow> RT_THREAD_CLOSE
                   | _ \<Rightarrow> RT_THREAD_SUSPEND)"

text \<open>The invariant for all threads but those in \<open>X\<close>, which are linked nowhere: the states inside an
  operation that moves a thread.\<close>

definition sched_wf_except :: "tid set \<Rightarrow> kstate \<Rightarrow> bool" where
  "sched_wf_except X k \<longleftrightarrow>
     (\<forall>h. distinct (k_list k h))
     \<and> (\<forall>h h' t. t \<in> set (k_list k h) \<longrightarrow> t \<in> set (k_list k h') \<longrightarrow> h = h')
     \<and> (\<forall>h t. t \<in> set (k_list k h) \<longrightarrow> t \<notin> X \<and> thread_state k t = head_state h)
     \<and> (\<forall>t. t \<notin> X \<longrightarrow> thread_state k t = RT_THREAD_READY
            \<longrightarrow> t \<in> set (k_list k (Ready (th_current_priority (k_thr k t)))))
     \<and> (\<forall>p t. t \<in> set (k_list k (Ready p)) \<longrightarrow> th_current_priority (k_thr k t) = p)
     \<and> (\<forall>t. t \<notin> X \<longrightarrow> thread_state k t = RT_THREAD_READY \<or> thread_state k t = RT_THREAD_SUSPEND
            \<longrightarrow> prio_ok (k_thr k t))
     \<and> (\<forall>p < RT_THREAD_PRIORITY_MAX. bit (ready_priority_group k) p \<longleftrightarrow> k_list k (Ready p) \<noteq> [])"

definition sched_wf :: "kstate \<Rightarrow> bool" where
  "sched_wf k \<longleftrightarrow> sched_wf_except {} k"

text \<open>Two states that agree on everything the scheduler invariant reads.\<close>

definition sched_same :: "kstate \<Rightarrow> kstate \<Rightarrow> bool" where
  "sched_same k k' \<longleftrightarrow> k_list k' = k_list k \<and> ready_priority_group k' = ready_priority_group k
     \<and> (\<forall>t. th_stat (k_thr k' t) = th_stat (k_thr k t)
            \<and> th_current_priority (k_thr k' t) = th_current_priority (k_thr k t)
            \<and> th_number_mask (k_thr k' t) = th_number_mask (k_thr k t))"

text \<open>The promise of a preemptive priority scheduler: while it is unlocked, the current thread is READY and no
  READY thread has a smaller priority number.\<close>

definition runs_highest :: "kstate \<Rightarrow> bool" where
  "runs_highest k \<longleftrightarrow> (\<exists>t. current_thread k = Some t \<and> thread_state k t = RT_THREAD_READY
     \<and> (\<forall>s. thread_state k s = RT_THREAD_READY
           \<longrightarrow> th_current_priority (k_thr k t) \<le> th_current_priority (k_thr k s)))"

definition stacks_ok :: "kstate \<Rightarrow> bool" where
  "stacks_ok k \<longleftrightarrow> (\<forall>t. rt_scheduler_stack_check k t = Some ()
      \<or> thread_state k t \<noteq> RT_THREAD_READY \<and> thread_state k t \<noteq> RT_THREAD_SUSPEND)"

text \<open>What the table has to hold from index \<open>b\<close> on: the number of the lowest bit of the index.\<close>

definition lowest_bit_ok :: "nat \<Rightarrow> nat \<Rightarrow> bool" where
  "lowest_bit_ok b n \<longleftrightarrow> b mod 2 ^ n = 0 \<and> odd (b div 2 ^ n)"

fun lowest_bits_ok :: "nat \<Rightarrow> nat list \<Rightarrow> bool" where
  "lowest_bits_ok b [] = True"
| "lowest_bits_ok b (n # ns) = (lowest_bit_ok b n \<and> lowest_bits_ok (b + 1) ns)"

section \<open>Find first set\<close>

lemma bit_rbit: "i < 32 \<Longrightarrow> bit (rbit v) i = bit v (31 - i)"
  by (simp add: rbit_def bit_horner_sum_bit_iff)

lemma clz_from_unique:
  "i < n \<Longrightarrow> bit w i \<Longrightarrow> (\<And>j. i < j \<Longrightarrow> j < n \<Longrightarrow> \<not> bit w j) \<Longrightarrow> clz_from n w = n - 1 - i"
proof (induction n)
  case (Suc n)
  show ?case
  proof (cases "i = n")
    case False
    with Suc.prems have "i < n" "\<not> bit w n" by auto
    with Suc.IH Suc.prems show ?thesis by auto
  qed (use Suc.prems in simp)
qed simp

lemma rt_ffs_asm_lowest:
  assumes "bit v n" and "\<And>m. m < n \<Longrightarrow> \<not> bit v m"
  shows "rt_ffs_asm v = n + 1"
proof -
  have n: "n < 32" using bit_imp_le_length [OF assms(1)] by simp
  have "clz_from 32 (rbit v) = 32 - 1 - (31 - n)"
    using n assms by (intro clz_from_unique) (auto simp: bit_rbit)
  moreover have "v \<noteq> 0" using assms(1) by auto
  ultimately show ?thesis using n by (simp add: rt_ffs_asm_def)
qed

lemma lowest_bit_exists:
  fixes v :: u32
  assumes "v \<noteq> 0"
  obtains n where "bit v n" "n < 32" "\<And>m. m < n \<Longrightarrow> \<not> bit v m"
proof -
  have "\<exists>n. bit v n"
  proof (rule ccontr)
    assume "\<not> (\<exists>n. bit v n)"
    then have "v = 0" by (intro bit_eqI) simp
    with assms show False by simp
  qed
  then have "bit v (LEAST n. bit v n)" by (rule LeastI_ex)
  moreover have "(LEAST n. bit v n) < 32" using bit_imp_le_length [OF calculation] by simp
  ultimately show thesis using that not_less_Least by blast
qed

lemma lowest_bits_ok_nth: "lowest_bits_ok b ns \<Longrightarrow> i < length ns \<Longrightarrow> lowest_bit_ok (b + i) (ns ! i)"
proof (induction b ns arbitrary: i rule: lowest_bits_ok.induct)
  case (2 b n ns)
  then show ?case by (cases i) auto
qed simp

lemma lowest_bit_bitmap_ok: "lowest_bits_ok 1 (tl lowest_bit_bitmap)"
  by (simp add: lowest_bit_bitmap_def lowest_bit_row_def lowest_bit_ok_def)

lemma length_lowest_bit_bitmap: "length lowest_bit_bitmap = 256"
  by (simp add: lowest_bit_bitmap_def lowest_bit_row_def)

lemma lowest_bit_bitmap_lowest:
  assumes "0 < b" "b < 256"
  shows "bit b (lowest_bit_bitmap ! b)" "m < lowest_bit_bitmap ! b \<Longrightarrow> \<not> bit b m"
proof -
  have ok: "lowest_bit_ok b (lowest_bit_bitmap ! b)"
    using lowest_bits_ok_nth [OF lowest_bit_bitmap_ok, of "b - 1"] assms
    by (simp add: length_lowest_bit_bitmap nth_tl)
  then show "bit b (lowest_bit_bitmap ! b)" by (simp add: lowest_bit_ok_def bit_iff_odd)
  assume m: "m < lowest_bit_bitmap ! b"
  from ok have "2 ^ (lowest_bit_bitmap ! b) dvd b" by (auto simp: lowest_bit_ok_def)
  moreover have "(2::nat) ^ Suc m dvd 2 ^ (lowest_bit_bitmap ! b)" using m by (intro le_imp_power_dvd) simp
  ultimately have "2 ^ Suc m dvd b" by (rule dvd_trans [rotated])
  then show "\<not> bit b m" by (auto simp: bit_iff_odd elim!: dvdE)
qed

lemma table_byte:
  fixes v :: u32
  assumes nz: "v AND push_bit s (mask 8) \<noteq> 0" and low: "\<And>m. m < s \<Longrightarrow> \<not> bit v m" and s: "s \<le> 24"
    and b: "b = unat (drop_bit s (v AND push_bit s (mask 8)))"
  shows "map_option (\<lambda>n. n + (s + 1)) (arr_get lowest_bit_bitmap b) = Some (rt_ffs_asm v)"
proof -
  let ?w = "drop_bit s (v AND push_bit s (mask 8))" and ?n = "lowest_bit_bitmap ! b"
  have bw: "bit ?w m \<longleftrightarrow> m < 8 \<and> bit v (s + m)" for m
    using s by (auto simp: bit_simps dest: bit_imp_le_length)
  have bb: "bit b m \<longleftrightarrow> bit ?w m" for m
    unfolding b bit_unsigned_iff by (auto dest: bit_imp_le_length)
  have "b < 256"
  proof -
    have "b = take_bit 8 b" by (rule bit_eqI) (simp only: bit_take_bit_iff bb bw, blast)
    then have "b < 2 ^ 8" by (metis take_bit_nat_less_exp)
    then show ?thesis by simp
  qed
  moreover have "0 < b"
  proof (rule ccontr)
    assume "\<not> 0 < b"
    then have nw: "\<not> bit ?w m" for m using bb [of m] by simp
    have "\<not> bit (v AND push_bit s (mask 8)) m" for m
    proof
      assume "bit (v AND push_bit s (mask 8)) m"
      then have "s \<le> m" "m - s < 8" "bit v m" by (auto simp: bit_simps)
      then show False using nw [of "m - s"] bw [of "m - s"] by simp
    qed
    then have "v AND push_bit s (mask 8) = 0" by (intro bit_word_eqI) simp
    with nz show False by simp
  qed
  ultimately have n: "bit ?w ?n" "\<And>m. m < ?n \<Longrightarrow> \<not> bit ?w m"
    using lowest_bit_bitmap_lowest [of b] bb by auto
  have "\<not> bit v m" if "m < s + ?n" for m
    using that low n(2) [of "m - s"] n(1) bw [of "m - s"] bw [of ?n] by (cases "m < s") auto
  then have "rt_ffs_asm v = s + ?n + 1" using n(1) bw by (intro rt_ffs_asm_lowest) auto
  then show "map_option (\<lambda>n. n + (s + 1)) (arr_get lowest_bit_bitmap b) = Some (rt_ffs_asm v)"
    using \<open>b < 256\<close> by (simp_all add: arr_get_def length_lowest_bit_bitmap)
qed

lemma no_bits_below:
  fixes v :: u32
  assumes "v AND push_bit s (mask 8) = 0" and "\<And>m. m < s \<Longrightarrow> \<not> bit v m" and "m < s + 8" "s \<le> 24"
  shows "\<not> bit v m"
proof
  assume "bit v m"
  moreover have "\<not> m < s" using assms(2) calculation by blast
  ultimately have "bit (v AND push_bit s (mask 8)) m"
    using assms(3,4) by (auto simp: bit_simps)
  with assms(1) show False by simp
qed

lemma byte_masks:
  "(0xff :: u32) = push_bit 0 (mask 8)" "(0xff00 :: u32) = push_bit 8 (mask 8)"
  "(0xff0000 :: u32) = push_bit 16 (mask 8)" "(0xff000000 :: u32) = push_bit 24 (mask 8)"
  by (simp_all add: mask_eq_exp_minus_1 push_bit_eq_mult)

lemma ffs_table_eq_asm: "rt_ffs_table v = Some (rt_ffs_asm v)"
proof (cases "v = 0")
  case nz: False
  have b8: "m < 8 \<Longrightarrow> \<not> bit v m" if "v AND push_bit 0 (mask 8) = 0" for m
    using no_bits_below [OF that] by simp
  have b16: "m < 16 \<Longrightarrow> \<not> bit v m"
    if "v AND push_bit 0 (mask 8) = 0" "v AND push_bit 8 (mask 8) = 0" for m
    using no_bits_below [OF that(2) b8 [OF that(1)]] by simp
  have b24: "m < 24 \<Longrightarrow> \<not> bit v m"
    if "v AND push_bit 0 (mask 8) = 0" "v AND push_bit 8 (mask 8) = 0" "v AND push_bit 16 (mask 8) = 0"
    for m using no_bits_below [OF that(3) b16 [OF that(1,2)]] by simp
  have b32: "v AND push_bit 24 (mask 8) \<noteq> 0"
    if "v AND push_bit 0 (mask 8) = 0" "v AND push_bit 8 (mask 8) = 0" "v AND push_bit 16 (mask 8) = 0"
  proof
    assume "v AND push_bit 24 (mask 8) = 0"
    then have "\<not> bit v m" if "m < 32" for m
      using no_bits_below [OF _ b24 [OF \<open>v AND push_bit 0 (mask 8) = 0\<close> \<open>v AND push_bit 8 (mask 8) = 0\<close>
          \<open>v AND push_bit 16 (mask 8) = 0\<close>]] that by simp
    then have "v = 0" by (intro bit_word_eqI) simp
    with nz show False by simp
  qed
  show ?thesis
    unfolding rt_ffs_table_def byte_masks
    using nz table_byte [of v 0, OF _ _ _ refl] table_byte [of v 8, OF _ b8 _ refl]
      table_byte [of v 16, OF _ b16 _ refl] table_byte [of v 24, OF b32 b24 _ refl]
    by simp
qed (simp add: rt_ffs_table_def rt_ffs_asm_def)

section \<open>The invariant\<close>

lemma stat_bits: "(s OR (x AND NOT m)) AND m = s AND (m :: 'a::len word)"
  by (rule bit_word_eqI) (auto simp: bit_simps)

lemma set_stat_state [simp]: "th_stat (set_stat s th) AND 0x0f = s AND 0x0f"
proof -
  have "th_stat (set_stat s th) = s OR (th_stat th AND NOT 0x0f)" by (simp add: set_stat_def)
  then show ?thesis by (simp only: stat_bits)
qed

lemma set_stat_simps [simp]:
  "th_sp (set_stat s th) = th_sp th" "th_stack_addr (set_stat s th) = th_stack_addr th"
  "th_stack_size (set_stat s th) = th_stack_size th" "th_stack_guard (set_stat s th) = th_stack_guard th"
  "th_current_priority (set_stat s th) = th_current_priority th"
  "th_number_mask (set_stat s th) = th_number_mask th"
  "th_init_priority (set_stat s th) = th_init_priority th"
  "prio_ok (set_stat s th) = prio_ok th"
  by (simp_all add: set_stat_def prio_ok_def)

lemma head_state_simps [simp]:
  "head_state (Ready p) = 1" "head_state Defunct = 4" "head_state (Sem_q n) = 2"
  "head_state (Mutex_q n) = 2" "head_state (Event_q n) = 2" "head_state (Mb_q n) = 2"
  "head_state (Mb_send_q n) = 2" "head_state (Mq_q n) = 2" "head_state (Mq_send_q n) = 2"
  "head_state (Mp_q n) = 2" "head_state (Dq_push_q n) = 2" "head_state (Dq_pop_q n) = 2" "head_state (Comp_q n) = 2"
  by (simp_all add: head_state_def)

lemma head_state_READY [simp]: "head_state h = 1 \<longleftrightarrow> (\<exists>p. h = Ready p)"
  by (cases h) simp_all

lemma prio_ok_cong:
  "th_current_priority a = th_current_priority b \<Longrightarrow> th_number_mask a = th_number_mask b
   \<Longrightarrow> prio_ok a = prio_ok b"
  by (simp add: prio_ok_def)

lemma sched_same_refl [simp]: "sched_same k k"
  by (simp add: sched_same_def)

lemma sched_same_trans: "sched_same a b \<Longrightarrow> sched_same b c \<Longrightarrow> sched_same a c"
  by (simp add: sched_same_def)

lemma sched_wf_cong:
  assumes "sched_same k k'"
  shows "sched_wf_except X k' = sched_wf_except X k"
proof -
  have "thread_state k' t = thread_state k t" "prio_ok (k_thr k' t) = prio_ok (k_thr k t)" for t
    using assms by (simp_all add: sched_same_def thread_state_def prio_ok_def)
  then show ?thesis using assms by (simp add: sched_wf_except_def sched_same_def)
qed

lemma bit_group_or:
  fixes g :: u32
  shows "p < 32 \<Longrightarrow> q < 32 \<Longrightarrow> bit (g OR push_bit p 1) q \<longleftrightarrow> bit g q \<or> q = p"
  by (auto simp: bit_simps)

lemma bit_group_andnot:
  fixes g :: u32
  shows "p < 32 \<Longrightarrow> q < 32 \<Longrightarrow> bit (g AND NOT (push_bit p 1)) q \<longleftrightarrow> bit g q \<and> q \<noteq> p"
  by (auto simp: bit_simps)

text \<open>Consequences of the invariant in the form the operations need.\<close>

lemma sched_wf_exceptD:
  assumes "sched_wf_except X k"
  shows sched_wf_distinct: "distinct (k_list k h)"
    and sched_wf_unique: "t \<in> set (k_list k h) \<Longrightarrow> t \<in> set (k_list k h') \<Longrightarrow> h = h'"
    and sched_wf_not_X: "t \<in> set (k_list k h) \<Longrightarrow> t \<notin> X"
    and sched_wf_state: "t \<in> set (k_list k h) \<Longrightarrow> thread_state k t = head_state h"
    and sched_wf_ready: "t \<notin> X \<Longrightarrow> thread_state k t = RT_THREAD_READY
          \<Longrightarrow> t \<in> set (k_list k (Ready (th_current_priority (k_thr k t))))"
    and sched_wf_prio: "t \<in> set (k_list k (Ready p)) \<Longrightarrow> th_current_priority (k_thr k t) = p"
    and sched_wf_prio_ok: "t \<notin> X \<Longrightarrow> thread_state k t = RT_THREAD_READY \<or> thread_state k t = RT_THREAD_SUSPEND
          \<Longrightarrow> prio_ok (k_thr k t)"
    and sched_wf_bit: "p < RT_THREAD_PRIORITY_MAX
          \<Longrightarrow> bit (ready_priority_group k) p \<longleftrightarrow> k_list k (Ready p) \<noteq> []"
  using assms unfolding sched_wf_except_def by blast+

lemma sched_wf_exceptI:
  assumes "\<And>h. distinct (k_list k h)"
    and "\<And>h h' t. t \<in> set (k_list k h) \<Longrightarrow> t \<in> set (k_list k h') \<Longrightarrow> h = h'"
    and "\<And>h t. t \<in> set (k_list k h) \<Longrightarrow> t \<notin> X"
    and "\<And>h t. t \<in> set (k_list k h) \<Longrightarrow> thread_state k t = head_state h"
    and "\<And>t. t \<notin> X \<Longrightarrow> thread_state k t = RT_THREAD_READY
          \<Longrightarrow> t \<in> set (k_list k (Ready (th_current_priority (k_thr k t))))"
    and "\<And>p t. t \<in> set (k_list k (Ready p)) \<Longrightarrow> th_current_priority (k_thr k t) = p"
    and "\<And>t. t \<notin> X \<Longrightarrow> thread_state k t = RT_THREAD_READY \<or> thread_state k t = RT_THREAD_SUSPEND
          \<Longrightarrow> prio_ok (k_thr k t)"
    and "\<And>p. p < RT_THREAD_PRIORITY_MAX
          \<Longrightarrow> bit (ready_priority_group k) p \<longleftrightarrow> k_list k (Ready p) \<noteq> []"
  shows "sched_wf_except X k"
  unfolding sched_wf_except_def using assms by blast

lemma rt_schedule_remove_thread_form:
  "rt_schedule_remove_thread t k = Some k' \<Longrightarrow>
   k' = k\<lparr>k_list := (\<lambda>h. filter (\<lambda>x. x \<noteq> t) (k_list k h)),
          ready_priority_group := ready_priority_group k'\<rparr>"
  by (cases k) (auto simp: rt_schedule_remove_thread_def tlist_remove_def Let_def split: if_splits)

lemma rt_schedule_insert_thread_form:
  "rt_schedule_insert_thread t k = Some k' \<Longrightarrow>
   k' = k\<lparr>k_thr := (k_thr k)(t := set_stat RT_THREAD_READY (k_thr k t)),
          k_list := (k_list k)(Ready (th_current_priority (k_thr k t))
             := k_list k (Ready (th_current_priority (k_thr k t))) @ [t]),
          ready_priority_group := ready_priority_group k OR th_number_mask (k_thr k t)\<rparr>"
  by (auto simp: rt_schedule_insert_thread_def tlist_insert_before_def thr_upd_def Let_def)

lemma remove_thread_wf:
  assumes wf: "sched_wf_except X k" and ok: "prio_ok (k_thr k t)"
  obtains k' where "rt_schedule_remove_thread t k = Some k'" "sched_wf_except (insert t X) k'"
    "k_thr k' = k_thr k"
proof -
  let ?p = "th_current_priority (k_thr k t)"
  let ?L = "\<lambda>h. filter (\<lambda>x. x \<noteq> t) (k_list k h)"
  have p: "?p < 32" and m: "th_number_mask (k_thr k t) = push_bit ?p 1"
    using ok by (simp_all add: prio_ok_def)
  have tp: "t \<in> set (k_list k (Ready q)) \<Longrightarrow> q = ?p" for q using sched_wf_prio [OF wf] by blast
  have "\<exists>k'. rt_schedule_remove_thread t k = Some k'"
    using p by (simp add: rt_schedule_remove_thread_def Let_def)
  then obtain k' where k': "rt_schedule_remove_thread t k = Some k'" by blast
  note form = rt_schedule_remove_thread_form [OF k']
  have L: "k_list k' = ?L" by (subst form) simp
  have thr: "k_thr k' = k_thr k" by (subst form) simp
  have grp: "ready_priority_group k' = (if ?L (Ready ?p) = []
      then ready_priority_group k AND NOT (push_bit ?p 1) else ready_priority_group k)"
    using k' p m by (auto simp: rt_schedule_remove_thread_def Let_def)
  have st: "thread_state k' = thread_state k" by (rule ext) (simp add: thread_state_def thr)
  have bits: "bit (ready_priority_group k') q \<longleftrightarrow> ?L (Ready q) \<noteq> []" if "q < 32" for q
  proof (cases "q = ?p")
    case True
    then show ?thesis using grp bit_group_andnot [OF p that] sched_wf_bit [OF wf that]
      by (auto split: if_splits)
  next
    case False
    then have "t \<notin> set (k_list k (Ready q))" using tp by auto
    then have "?L (Ready q) = k_list k (Ready q)" by (auto intro!: filter_True)
    then show ?thesis using grp bit_group_andnot [OF p that] sched_wf_bit [OF wf that] False by simp
  qed
  have "sched_wf_except (insert t X) k'"
    unfolding sched_wf_except_def L thr st using wf bits
    by (auto simp: sched_wf_except_def)
  with that k' thr show thesis by blast
qed

text \<open>Adding a thread to a list.\<close>

lemma insert_list_wf:
  assumes wf: "sched_wf_except (insert t X) k" and tX: "t \<notin> X"
    and L: "\<And>g. set (k_list k' g) = (if g = h then insert t (set (k_list k g)) else set (k_list k g))"
    and D: "\<And>g. distinct (k_list k' g)"
    and thr: "\<And>s. s \<noteq> t \<Longrightarrow> k_thr k' s = k_thr k s"
    and st: "thread_state k' t = head_state h"
    and ok: "h \<noteq> Defunct \<Longrightarrow> prio_ok (k_thr k' t)"
    and rp: "\<And>p. h = Ready p \<Longrightarrow> p = th_current_priority (k_thr k' t)"
    and grp: "\<And>p. p < 32 \<Longrightarrow> bit (ready_priority_group k') p
                \<longleftrightarrow> bit (ready_priority_group k) p \<or> h = Ready p"
  shows "sched_wf_except X k'"
proof -
  have notin: "t \<notin> set (k_list k g)" for g using wf by (auto simp: sched_wf_except_def)
  have st': "thread_state k' s = thread_state k s" if "s \<noteq> t" for s
    using thr [OF that] by (simp add: thread_state_def)
  have bits: "bit (ready_priority_group k') p \<longleftrightarrow> k_list k' (Ready p) \<noteq> []" if "p < 32" for p
    using grp [OF that] sched_wf_bit [OF wf that] L [of "Ready p"]
    by (auto simp flip: set_empty split: if_splits)
  have A: "s \<in> set (k_list k' g) \<Longrightarrow> s \<in> set (k_list k' g') \<Longrightarrow> g = g'" for s g g'
    using L [of g] L [of g'] notin [of g] notin [of g'] sched_wf_unique [OF wf] by (metis insertE)
  have B: "s \<notin> X \<and> thread_state k' s = head_state g" if "s \<in> set (k_list k' g)" for s g
  proof (cases "s = t")
    case True
    then show ?thesis using that L [of g] notin [of g] st tX by (auto split: if_splits)
  next
    case False
    then have "s \<in> set (k_list k g)" using that L [of g] by (auto split: if_splits)
    then show ?thesis using sched_wf_not_X [OF wf] sched_wf_state [OF wf] st' [OF False] by auto
  qed
  have C: "s \<in> set (k_list k' (Ready (th_current_priority (k_thr k' s))))"
    if "s \<notin> X" "thread_state k' s = 1" for s
  proof (cases "s = t")
    case True
    with that st have "head_state h = 1" by simp
    then obtain p where "h = Ready p" by auto
    with rp L True show ?thesis by simp
  next
    case False
    then show ?thesis using sched_wf_ready [OF wf] that st' thr L by auto
  qed
  have E: "th_current_priority (k_thr k' s) = p" if "s \<in> set (k_list k' (Ready p))" for s p
    using that L [of "Ready p"] rp thr sched_wf_prio [OF wf, of s p] notin
    by (cases "s = t") (auto split: if_splits)
  have F: "prio_ok (k_thr k' s)" if "s \<notin> X" "thread_state k' s = 1 \<or> thread_state k' s = 2" for s
  proof (cases "s = t")
    case True
    then have "h \<noteq> Defunct" using that st by auto
    then show ?thesis using ok True by simp
  next
    case False
    then show ?thesis using sched_wf_prio_ok [OF wf, of s] that st' [OF False] thr [OF False] by auto
  qed
  show ?thesis unfolding sched_wf_except_def using D A B C E F bits by blast
qed

lemma insert_thread_wf:
  assumes wf: "sched_wf_except (insert t X) k" and tX: "t \<notin> X" and ok: "prio_ok (k_thr k t)"
  obtains k' where "rt_schedule_insert_thread t k = Some k'" "sched_wf_except X k'"
    "k_thr k' = (k_thr k)(t := set_stat RT_THREAD_READY (k_thr k t))"
proof -
  let ?p = "th_current_priority (k_thr k t)"
  have p: "?p < 32" and m: "th_number_mask (k_thr k t) = push_bit ?p 1"
    using ok by (simp_all add: prio_ok_def)
  have "\<exists>k'. rt_schedule_insert_thread t k = Some k'"
    using p by (simp add: rt_schedule_insert_thread_def Let_def)
  then obtain k' where k': "rt_schedule_insert_thread t k = Some k'" by blast
  note form = rt_schedule_insert_thread_form [OF k']
  have notin: "t \<notin> set (k_list k g)" for g using wf by (auto simp: sched_wf_except_def)
  have "sched_wf_except X k'"
  proof (rule insert_list_wf [OF wf tX, where h = "Ready ?p"])
    show "distinct (k_list k' g)" for g
      using sched_wf_distinct [OF wf] notin by (simp add: form)
    show "thread_state k' t = head_state (Ready ?p)" by (simp add: form thread_state_def)
  qed (use form p m ok bit_group_or [OF p] in \<open>auto simp: thread_state_def\<close>)
  with that k' form show thesis by simp
qed

text \<open>Removing a thread from the invariant's exceptions when it stays unlinked.\<close>

lemma unlinked_wf:
  assumes wf: "sched_wf_except (insert t X) k" and tX: "t \<notin> X"
    and st: "thread_state k t \<noteq> RT_THREAD_READY"
    and ok: "thread_state k t = RT_THREAD_SUSPEND \<Longrightarrow> prio_ok (k_thr k t)"
  shows "sched_wf_except X k"
proof -
  note D = sched_wf_exceptD [OF wf]
  show ?thesis
  proof (rule sched_wf_exceptI)
    show "s \<in> set (k_list k (Ready (th_current_priority (k_thr k s))))"
      if "s \<notin> X" "thread_state k s = 1" for s
      using D(5) [of s] that st by auto
    show "prio_ok (k_thr k s)" if "s \<notin> X" "thread_state k s = 1 \<or> thread_state k s = 2" for s
      using D(7) [of s] that st ok by auto
    show "s \<notin> X" if "s \<in> set (k_list k h)" for s h using D(3) [OF that] by simp
  qed (use D(1,2,4,6,8) in blast)+
qed

text \<open>Changing a thread that is excepted.\<close>

lemma except_upd_wf:
  assumes wf: "sched_wf_except X k" and t: "t \<in> X"
  shows "sched_wf_except X (thr_upd t f k)"
proof -
  let ?k = "thr_upd t f k"
  have st: "thread_state ?k s = thread_state k s" "k_thr ?k s = k_thr k s" if "s \<notin> X" for s
    using that t by (auto simp: thread_state_def)
  note notin = sched_wf_not_X [OF wf] and D = sched_wf_exceptD [OF wf]
  show ?thesis
  proof (rule sched_wf_exceptI)
    fix s h h' p
    show "h = h'" if "s \<in> set (k_list ?k h)" "s \<in> set (k_list ?k h')"
      using D(2) [of s h h'] that by simp
    show "s \<notin> X" if "s \<in> set (k_list ?k h)" using notin [of s h] that by simp
    then show "thread_state ?k s = head_state h" if "s \<in> set (k_list ?k h)"
      using D(4) [of s h] that st(1) by simp
    show "th_current_priority (k_thr ?k s) = p" if "s \<in> set (k_list ?k (Ready p))"
      using D(6) [of s p] that st(2) [OF notin [of s "Ready p"]] by simp
    show "s \<in> set (k_list ?k (Ready (th_current_priority (k_thr ?k s))))"
      if "s \<notin> X" "thread_state ?k s = 1"
      using D(5) [of s] that unfolding st [OF that(1)] by simp
    show "prio_ok (k_thr ?k s)" if "s \<notin> X" "thread_state ?k s = 1 \<or> thread_state ?k s = 2"
      using D(7) [of s] that unfolding st [OF that(1)] by simp
  qed (use D(1,8) in simp_all)
qed

lemma tlist_remove_wf:
  assumes wf: "sched_wf_except X k" and t: "thread_state k t \<noteq> RT_THREAD_READY"
  shows "sched_wf_except (insert t X) (tlist_remove t k)"
proof -
  have st: "thread_state (tlist_remove t k) = thread_state k" by (rule ext) (simp add: thread_state_def)
  have "t \<notin> set (k_list k (Ready p))" for p using sched_wf_state [OF wf, of t "Ready p"] t by auto
  then have R: "filter (\<lambda>x. x \<noteq> t) (k_list k (Ready p)) = k_list k (Ready p)" for p
    by (metis (mono_tags, lifting) filter_True)
  note D = sched_wf_exceptD [OF wf]
  show ?thesis
    by (rule sched_wf_exceptI) (use D(1,3) in \<open>auto simp: st R intro: D(2,4-7) simp: D(8)\<close>)
qed

section \<open>Choosing a thread\<close>

lemma highest_ready_spec:
  assumes wf: "sched_wf k" and r: "thread_state k s = RT_THREAD_READY"
  obtains p t ts where "highest_ready k = Some (p, t)" "k_list k (Ready p) = t # ts" "p < 32"
    "\<And>q. q < p \<Longrightarrow> k_list k (Ready q) = []"
proof -
  have wf': "sched_wf_except {} k" using wf by (simp add: sched_wf_def)
  have "s \<in> set (k_list k (Ready (th_current_priority (k_thr k s))))" "prio_ok (k_thr k s)"
    using sched_wf_ready [OF wf', of s] sched_wf_prio_ok [OF wf', of s] r by simp_all
  then have "bit (ready_priority_group k) (th_current_priority (k_thr k s))"
    using sched_wf_bit [OF wf'] by (auto simp: prio_ok_def)
  then have "ready_priority_group k \<noteq> 0" by auto
  then obtain p where p: "bit (ready_priority_group k) p" "p < 32"
      "\<And>m. m < p \<Longrightarrow> \<not> bit (ready_priority_group k) m" by (rule lowest_bit_exists) blast
  from rt_ffs_asm_lowest [OF p(1) p(3)] have ffs: "rt_ffs_asm (ready_priority_group k) = p + 1" .
  obtain t ts where t: "k_list k (Ready p) = t # ts"
    using sched_wf_bit [OF wf' p(2)] p(1) by (cases "k_list k (Ready p)") auto
  have "highest_ready k = Some (p, t)" using ffs t by (simp add: highest_ready_def Let_def)
  moreover have "k_list k (Ready q) = []" if "q < p" for q
    using sched_wf_bit [OF wf', of q] p(2,3) that by (auto intro: less_trans)
  ultimately show thesis using that t p(2) by blast
qed

lemma rt_schedule_cases:
  assumes "rt_schedule k = Some k'"
  shows "k' = k \<or> (\<exists>p t. k' = k\<lparr>rt_current_priority := p, current_thread := Some t\<rparr>)"
proof (cases "scheduler_lock_nest k = 0")
  case True
  then obtain p t where "highest_ready k = Some (p, t)" using assms by (auto simp: rt_schedule_def bind_Some_iff)
  with True assms show ?thesis by (cases "current_thread k = Some t") (auto simp: rt_schedule_def bind_Some_iff)
qed (use assms in \<open>simp add: rt_schedule_def\<close>)

lemma rt_schedule_form:
  assumes "rt_schedule k = Some k'"
  shows "\<exists>p c. k' = k\<lparr>rt_current_priority := p, current_thread := c\<rparr>"
proof (cases "k' = k")
  case True
  then have "k' = k\<lparr>rt_current_priority := rt_current_priority k, current_thread := current_thread k\<rparr>"
    by simp
  then show ?thesis by blast
qed (use rt_schedule_cases [OF assms] in blast)

lemma rt_schedule_same [rt_frame]: "rt_schedule k = Some k' \<Longrightarrow> sched_same k k'"
  by (auto dest!: rt_schedule_form simp: sched_same_def)

lemma rt_schedule_current:
  "rt_schedule k = Some k' \<Longrightarrow> current_thread k \<noteq> None \<Longrightarrow> current_thread k' \<noteq> None"
  by (drule rt_schedule_cases) auto

lemma rt_exit_critical_form:
  assumes "rt_exit_critical k = Some k'"
  shows "\<exists>n p c. k' = k\<lparr>scheduler_lock_nest := n, rt_current_priority := p, current_thread := c\<rparr>"
proof (cases "\<exists>n. k' = k\<lparr>scheduler_lock_nest := n\<rparr>")
  case True
  then obtain n where "k' = k\<lparr>scheduler_lock_nest := n, rt_current_priority := rt_current_priority k,
      current_thread := current_thread k\<rparr>" by auto
  then show ?thesis by blast
next
  case False
  with assms show ?thesis
    unfolding rt_exit_critical_def by (auto simp: Let_def split: if_splits dest!: rt_schedule_form)
qed

lemma rt_exit_critical_same [rt_frame]: "rt_exit_critical k = Some k' \<Longrightarrow> sched_same k k'"
  by (auto dest!: rt_exit_critical_form simp: sched_same_def)

lemma rt_enter_critical_same [rt_frame]: "sched_same k (rt_enter_critical k)"
  by (simp add: rt_enter_critical_def sched_same_def)

lemma rt_schedule_wf: "rt_schedule k = Some k' \<Longrightarrow> sched_wf k \<Longrightarrow> sched_wf k'"
  using sched_wf_cong [OF rt_schedule_same] by (simp add: sched_wf_def)

lemma highest_ready_runs:
  assumes wf: "sched_wf k" and h: "highest_ready k = Some (p, t)"
  obtains ts where "k_list k (Ready p) = t # ts" "th_current_priority (k_thr k t) = p"
    "thread_state k t = RT_THREAD_READY"
    "\<And>s. thread_state k s = RT_THREAD_READY \<Longrightarrow> p \<le> th_current_priority (k_thr k s)"
proof -
  have wf': "sched_wf_except {} k" using wf by (simp add: sched_wf_def)
  obtain ts where L: "k_list k (Ready p) = t # ts"
    using h by (auto simp: highest_ready_def Let_def split: if_splits list.splits)
  have tp: "th_current_priority (k_thr k t) = p" "thread_state k t = 1"
    using sched_wf_prio [OF wf', of t p] sched_wf_state [OF wf', of t "Ready p"] L by simp_all
  obtain p' t' ts' where "highest_ready k = Some (p', t')" and low: "\<And>q. q < p' \<Longrightarrow> k_list k (Ready q) = []"
    using highest_ready_spec [OF wf tp(2)] by metis
  then have p': "p' = p" using h by simp
  have "p \<le> th_current_priority (k_thr k r)" if "thread_state k r = 1" for r
    using sched_wf_ready [OF wf' _ that] low unfolding p' by (metis empty_iff empty_set linorder_not_less)
  with that L tp show thesis by blast
qed

lemma rt_schedule_runs_highest:
  assumes wf: "sched_wf k" and lock: "scheduler_lock_nest k = 0" and sch: "rt_schedule k = Some k'"
  shows "runs_highest k'"
proof -
  obtain p t where h: "highest_ready k = Some (p, t)" using sch lock by (auto simp: rt_schedule_def bind_Some_iff)
  have cur: "current_thread k' = Some t" and k': "k_thr k' = k_thr k"
    using sch lock h by (cases "current_thread k = Some t"; auto simp: rt_schedule_def bind_Some_iff)+
  have "thread_state k' = thread_state k" by (rule ext) (simp add: thread_state_def k')
  then show ?thesis
    using highest_ready_runs [OF wf h] cur unfolding runs_highest_def k' by metis
qed

lemma rt_schedule_succeeds:
  assumes wf: "sched_wf k" and st: "stacks_ok k" and r: "thread_state k s = RT_THREAD_READY"
  obtains k' where "rt_schedule k = Some k'"
proof -
  obtain p t ts where h: "highest_ready k = Some (p, t)" using highest_ready_spec [OF wf r] by metis
  have "thread_state k t = RT_THREAD_READY" by (rule highest_ready_runs [OF wf h])
  then have "rt_scheduler_stack_check k t = Some ()" using st by (auto simp: stacks_ok_def)
  with h have "\<exists>k'. rt_schedule k = Some k'" by (simp add: rt_schedule_def)
  with that show thesis by blast
qed

lemma scheduler_init_wf:
  assumes "\<And>t. thread_state k t = RT_THREAD_INIT" and "\<And>h. (\<forall>p. h = Ready p \<longrightarrow> 32 \<le> p) \<Longrightarrow> k_list k h = []"
  shows "sched_wf (rt_system_scheduler_init k)"
proof -
  have L: "k_list (rt_system_scheduler_init k) h = []" for h
    using assms(2) [of h] by (cases h) (auto simp: rt_system_scheduler_init_def)
  have "thread_state (rt_system_scheduler_init k) t = 0" for t
    using assms(1) [of t] by (simp add: thread_state_def rt_system_scheduler_init_def)
  then show ?thesis
    unfolding sched_wf_def sched_wf_except_def L by (simp add: rt_system_scheduler_init_def)
qed

section \<open>The sample system is well formed\<close>

lemma sample_kernel_list:
  "k_list sample_kernel = (\<lambda>_. [])(Ready 5 := [1], Ready 3 := [2], Sem_q 10 := [3])"
  by (simp add: sample_kernel_def)

lemma sample_kernel_thr:
  "k_thr sample_kernel = (\<lambda>_. zero_thread)(1 := sample_thread 5 1, 2 := sample_thread 3 1, 3 := sample_thread 4 2)"
  by (simp add: sample_kernel_def kernel_zero_def)

lemma sample_thread_simps [simp]:
  "th_stat (sample_thread p s) = s" "th_current_priority (sample_thread p s) = p"
  "th_number_mask (sample_thread p s) = push_bit p 1" "th_error (sample_thread p s) = 0"
  "prio_ok (sample_thread p s) \<longleftrightarrow> p < 32"
  by (simp_all add: sample_thread_def zero_thread_def prio_ok_def)

lemma zero_thread_stat [simp]: "th_stat zero_thread = 0"
  by (simp add: zero_thread_def)

lemma sample_kernel_state:
  "thread_state sample_kernel t = (if t = 1 \<or> t = 2 then 1 else if t = 3 then 2 else 0)"
  by (simp add: thread_state_def sample_kernel_thr)

lemma sample_kernel_wf: "sched_wf sample_kernel"
proof -
  have bits: "bit (0x28 :: u32) p \<longleftrightarrow> p = 3 \<or> p = 5" for p
  proof -
    have "(0x28 :: u32) = push_bit 3 1 OR push_bit 5 1" by (simp add: push_bit_eq_mult)
    then show ?thesis
      unfolding bit_or_iff bit_push_bit_iff bit_1_iff
      by (simp only: bit_or_iff bit_push_bit_iff bit_1_iff possible_bit_word) auto
  qed
  have grp: "ready_priority_group sample_kernel = 0x28" by (simp add: sample_kernel_def)
  show ?thesis
    unfolding sched_wf_def
  proof (rule sched_wf_exceptI)
    show "bit (ready_priority_group sample_kernel) p \<longleftrightarrow> k_list sample_kernel (Ready p) \<noteq> []" for p
      unfolding grp bits by (auto simp: sample_kernel_list)
  qed (auto simp: sample_kernel_list sample_kernel_state sample_kernel_thr split: if_splits)
qed

section \<open>Properties\<close>

text \<open>
  C2. The scheduler runs the highest-priority ready thread. In a well-formed state with the scheduler
  unlocked and at least one ready thread, and with no overflowed stack among the ready threads,
  \<^verbatim>\<open>rt_schedule\<close> returns and the current thread is then the first thread of its ready queue, is READY,
  and no READY thread has a smaller priority number.
\<close>

theorem rt_schedule_highest_priority:
  assumes "sched_wf k" and "scheduler_lock_nest k = 0" and "thread_state k s = RT_THREAD_READY"
    and stacks: "\<And>t. thread_state k t = RT_THREAD_READY \<Longrightarrow> rt_scheduler_stack_check k t = Some ()"
  shows "\<exists>k' t ts. rt_schedule k = Some k' \<and> current_thread k' = Some t
           \<and> thread_state k' t = RT_THREAD_READY
           \<and> k_list k' (Ready (th_current_priority (k_thr k' t))) = t # ts
           \<and> (\<forall>s. thread_state k' s = RT_THREAD_READY
                  \<longrightarrow> th_current_priority (k_thr k' t) \<le> th_current_priority (k_thr k' s))
           \<and> sched_wf k'"
proof -
  have wf: "sched_wf_except {} k" using assms(1) by (simp add: sched_wf_def)
  obtain p t ts where h: "highest_ready k = Some (p, t)" "k_list k (Ready p) = t # ts"
      "\<And>q. q < p \<Longrightarrow> k_list k (Ready q) = []"
    using highest_ready_spec [OF assms(1,3)] by metis
  have tp: "th_current_priority (k_thr k t) = p" "thread_state k t = 1"
    using sched_wf_prio [OF wf, of t p] sched_wf_state [OF wf, of t "Ready p"] h(2) by simp_all
  have low: "p \<le> th_current_priority (k_thr k r)" if "thread_state k r = 1" for r
    using sched_wf_ready [OF wf _ that] h(3) by (metis empty_iff empty_set linorder_not_less)
  define k' where "k' = k\<lparr>rt_current_priority := (if current_thread k = Some t
      then rt_current_priority k else p), current_thread := Some t\<rparr>"
  have "rt_schedule k = Some k'"
    using assms(2) h(1) stacks [OF tp(2)] by (simp add: rt_schedule_def k'_def)
  moreover have "thread_state k' = thread_state k" by (rule ext) (simp add: thread_state_def k'_def)
  moreover have "sched_wf k'" using rt_schedule_wf [OF calculation(1) assms(1)] .
  ultimately show ?thesis using tp h(2) low by (auto simp: k'_def)
qed

theorem rt_schedule_highest_priority_witness:
  "\<exists>k' t ts. rt_schedule (sample_kernel\<lparr>current_thread := Some 1\<rparr>) = Some k' \<and> current_thread k' = Some t
     \<and> thread_state k' t = 1 \<and> k_list k' (Ready (th_current_priority (k_thr k' t))) = t # ts
     \<and> (\<forall>s. thread_state k' s = 1 \<longrightarrow> th_current_priority (k_thr k' t) \<le> th_current_priority (k_thr k' s))
     \<and> sched_wf k'"
proof -
  let ?k = "sample_kernel\<lparr>current_thread := Some 1\<rparr>"
  have st: "thread_state ?k = thread_state sample_kernel" by (rule ext) (simp add: thread_state_def)
  have "sched_wf ?k"
    using sample_kernel_wf sched_wf_cong [of sample_kernel ?k "{}"] by (simp add: sched_wf_def sched_same_def)
  moreover have "rt_scheduler_stack_check ?k t = Some ()" if "thread_state ?k t = 1" for t
    using that unfolding st sample_kernel_state
    by (auto simp: rt_scheduler_stack_check_def sample_kernel_thr sample_thread_def zero_thread_def add32_def
        split: if_splits)
  moreover have "scheduler_lock_nest ?k = 0" by (simp add: sample_kernel_def kernel_zero_def)
  moreover have "thread_state ?k 1 = 1" unfolding st by (simp add: sample_kernel_state)
  ultimately show ?thesis by (intro rt_schedule_highest_priority)
qed

text \<open>
  C22. The assembly find-first-set routine (bit reversal and leading-zero count) and the table-driven
  one agree on every 32-bit value, and on a non-zero value they return one plus the number of its
  lowest set bit; the table is never indexed outside its 256 entries.
\<close>

theorem rt_ffs_equivalence:
  "rt_ffs_table v = Some (rt_ffs_asm v)
   \<and> (v = 0 \<and> rt_ffs_asm v = 0
      \<or> (\<exists>n < 32. rt_ffs_asm v = n + 1 \<and> bit v n \<and> (\<forall>m < n. \<not> bit v m)))"
proof (cases "v = 0")
  case True
  then show ?thesis by (simp add: rt_ffs_table_def rt_ffs_asm_def)
next
  case False
  then obtain n where "bit v n" "n < 32" "\<And>m. m < n \<Longrightarrow> \<not> bit v m"
    by (rule lowest_bit_exists) blast
  then show ?thesis using rt_ffs_asm_lowest [of v n] ffs_table_eq_asm by auto
qed

theorem rt_ffs_equivalence_witness: "rt_ffs_table 40 = Some (rt_ffs_asm 40)"
  using rt_ffs_equivalence [of 40] by blast

end
