(* ===== verification/Object.thy ===== *)
theory Object
  imports Scheduler
begin

text \<open>
  The object system (\<^verbatim>\<open>os/object.c\<close>): every kernel object is registered in the list of its class.
  The initialisation and the search run inside \<^verbatim>\<open>rt_enter_critical\<close>/\<^verbatim>\<open>rt_exit_critical\<close>, whose exit
  may reschedule; the rest of the body is executed in the same step, as it touches only the object
  being initialised. Names are the bytes of a C string before its terminator.
\<close>

section \<open>Definitions\<close>

abbreviation (input) RT_NAME_MAX :: nat where "RT_NAME_MAX \<equiv> 8"

text \<open>The classes and sizes of \<^verbatim>\<open>rt_object_container\<close> (ARM layout of the structures), that of memory heaps among them.\<close>

definition rt_object_container :: "(u8 \<times> nat) list" where
  "rt_object_container =
     [(RT_Object_Class_Thread, 128), (RT_Object_Class_Semaphore, 32), (RT_Object_Class_Mutex, 36),
      (RT_Object_Class_Event, 32), (RT_Object_Class_MailBox, 48), (RT_Object_Class_MessageQueue, 60),
      (RT_Object_Class_MemHeap, 100), (RT_Object_Class_MemPool, 52), (RT_Object_Class_Device, 68), (RT_Object_Class_Timer, 44)]"

definition rt_object_get_information :: "u8 \<Rightarrow> nat option" where
  "rt_object_get_information type = map_of rt_object_container type"

definition rt_object_get_length :: "kstate \<Rightarrow> u8 \<Rightarrow> nat" where
  "rt_object_get_length k type =
     (case rt_object_get_information type of None \<Rightarrow> 0 | Some _ \<Rightarrow> length (k_container k type))"

text \<open>The second component is the contents of the caller's array.\<close>

definition rt_object_get_pointers :: "kstate \<Rightarrow> u8 \<Rightarrow> int \<Rightarrow> nat \<times> kptr list" where
  "rt_object_get_pointers k type maxlen =
     (if maxlen \<le> 0 then (0, [])
      else case rt_object_get_information type of
             None \<Rightarrow> (0, [])
           | Some _ \<Rightarrow> (let ps = take (nat maxlen) (k_container k type) in (length ps, ps)))"

text \<open>\<^verbatim>\<open>rt_strncpy(dst, name, RT_NAME_MAX)\<close> into a name field, and whether
  \<^verbatim>\<open>rt_strncmp(cs, ct, count)\<close> is 0; a string list is read as 0 behind its end.\<close>

definition byte_at :: "u8 list \<Rightarrow> u8" where
  "byte_at s = (case s of [] \<Rightarrow> 0 | c # _ \<Rightarrow> c)"

fun name_copy :: "nat \<Rightarrow> u8 list \<Rightarrow> u8 list" where
  "name_copy 0 s = []"
| "name_copy (Suc n) s =
     (if byte_at s = 0 then replicate (Suc n) 0 else byte_at s # name_copy n (tl s))"

fun name_equal :: "nat \<Rightarrow> u8 list \<Rightarrow> u8 list \<Rightarrow> bool" where
  "name_equal 0 cs ct = True"
| "name_equal (Suc n) cs ct =
     (if byte_at cs \<noteq> byte_at ct then False
      else if byte_at cs = 0 then True else name_equal n (tl cs) (tl ct))"

definition object_link :: "u8 \<Rightarrow> kptr \<Rightarrow> kstate \<Rightarrow> kstate" where
  "object_link type p k = k\<lparr>k_container := (k_container k)(type := p # k_container k type)\<rparr>"

definition object_unlink :: "kptr \<Rightarrow> kstate \<Rightarrow> kstate" where
  "object_unlink p k = k\<lparr>k_container := (\<lambda>c. filter (\<lambda>x. x \<noteq> p) (k_container k c))\<rparr>"

definition rt_object_init :: "kptr \<Rightarrow> u8 \<Rightarrow> u8 list \<Rightarrow> kstate \<Rightarrow> kstate option" where
  "rt_object_init p type name k = do {
     rt_assert (rt_object_get_information type \<noteq> None);
     let k1 = rt_enter_critical k;
     rt_assert (p \<notin> set (k_container k1 type));
     k2 \<leftarrow> rt_exit_critical k1;
     let k3 = obj_upd p (\<lambda>ob. ob\<lparr>o_type := type OR RT_Object_Class_Static,
                                 o_name := name_copy RT_NAME_MAX name\<rparr>) k2;
     Some (object_link type p k3)
   }"

definition rt_object_detach :: "kptr \<Rightarrow> kstate \<Rightarrow> kstate" where
  "rt_object_detach p k = object_unlink p (obj_upd p (\<lambda>ob. ob\<lparr>o_type := 0\<rparr>) k)"

text \<open>The typed pointer for an address, and the address of a pointer.\<close>

definition mk_kptr :: "u8 \<Rightarrow> nat \<Rightarrow> kptr" where
  "mk_kptr type a =
     (if type = RT_Object_Class_Thread then K_thread a
      else if type = RT_Object_Class_Semaphore then K_sem a
      else if type = RT_Object_Class_Mutex then K_mutex a
      else if type = RT_Object_Class_Event then K_event a
      else if type = RT_Object_Class_MailBox then K_mb a
      else if type = RT_Object_Class_MessageQueue then K_mq a
      else if type = RT_Object_Class_MemHeap then K_memheap a
      else if type = RT_Object_Class_MemPool then K_mp a
      else if type = RT_Object_Class_Device then K_dev a
      else K_timer a)"

fun kaddr :: "kptr \<Rightarrow> nat" where
  "kaddr (K_thread a) = a" | "kaddr (K_sem a) = a" | "kaddr (K_mutex a) = a" | "kaddr (K_event a) = a"
| "kaddr (K_mb a) = a" | "kaddr (K_mq a) = a" | "kaddr (K_memheap a) = a" | "kaddr (K_mp a) = a" | "kaddr (K_dev a) = a"
| "kaddr (K_timer a) = a" | "kaddr (K_thread_timer a) = a + 76"

text \<open>\<^verbatim>\<open>rt_malloc\<close> and \<^verbatim>\<open>rt_free\<close> on the kernel's heap.\<close>

definition k_malloc :: "nat \<Rightarrow> kstate \<Rightarrow> (nat option \<times> kstate) option" where
  "k_malloc n k = do {
     (p, h) \<leftarrow> rt_malloc (k_heap k) (interrupt_nest k) n;
     Some (p, k\<lparr>k_heap := h\<rparr>)
   }"

definition k_free :: "nat option \<Rightarrow> kstate \<Rightarrow> kstate option" where
  "k_free p k = do { h \<leftarrow> rt_free (k_heap k) (interrupt_nest k) p; Some (k\<lparr>k_heap := h\<rparr>) }"

text \<open>\<^verbatim>\<open>rt_memset(object, 0, object_size)\<close> on a fresh object.\<close>

definition object_zero :: "kptr \<Rightarrow> kstate \<Rightarrow> kstate" where
  "object_zero p k =
     (let k0 = obj_upd p (\<lambda>_. \<lparr>o_name = replicate RT_NAME_MAX 0, o_type = 0, o_flag = 0\<rparr>) k in
      case p of
        K_thread t \<Rightarrow> thr_upd t (\<lambda>_. \<lparr>th_sp = 0, th_entry = 0, th_parameter = 0, th_stack_addr = 0,
            th_stack_size = 0, th_stack_guard = th_stack_guard (k_thr k t), th_error = 0, th_stat = 0,
            th_current_priority = 0, th_init_priority = 0, th_number_mask = 0, th_event_set = 0,
            th_event_info = 0, th_init_tick = 0, th_remaining_tick = 0, th_cleanup = None,
            th_user_data = 0\<rparr>) k0
      | K_sem a \<Rightarrow> k0\<lparr>k_sem := (k_sem k0)(a := \<lparr>sem_value = 0\<rparr>)\<rparr>
      | K_mutex a \<Rightarrow> k0\<lparr>k_mutex := (k_mutex k0)(a := \<lparr>mutex_value = 0, mutex_original_priority = 0,
            mutex_hold = 0, mutex_owner = None\<rparr>)\<rparr>
      | K_event a \<Rightarrow> k0\<lparr>k_event := (k_event k0)(a := \<lparr>event_set = 0\<rparr>)\<rparr>
      | K_mb a \<Rightarrow> k0\<lparr>k_mb := (k_mb k0)(a := \<lparr>mb_pool_addr = 0, mb_msg_pool = [], mb_size = 0, mb_entry = 0,
            mb_in_offset = 0, mb_out_offset = 0\<rparr>)\<rparr>
      | K_mq a \<Rightarrow> k0\<lparr>k_mq := (k_mq k0)(a := (k_mq k0 a)\<lparr>mq_pool_addr := 0, mq_msg_size := 0, mq_max_msgs := 0, mq_entry := 0,
            mq_head := None, mq_tail := None, mq_free := None\<rparr>)\<rparr>
      | _ \<Rightarrow> k0)"

definition rt_object_allocate :: "u8 \<Rightarrow> u8 list \<Rightarrow> kstate \<Rightarrow> (nat option \<times> kstate) option" where
  "rt_object_allocate type name k = do {
     not_in_interrupt k;
     sz \<leftarrow> rt_object_get_information type;
     (r, k1) \<leftarrow> k_malloc sz k;
     case r of
       None \<Rightarrow> Some (None, k1)
     | Some a \<Rightarrow> do {
         let p = mk_kptr type a;
         let k2 = object_zero p k1;
         let k3 = obj_upd p (\<lambda>ob. ob\<lparr>o_type := type, o_flag := 0,
                                     o_name := name_copy RT_NAME_MAX name\<rparr>) k2;
         Some (Some a, object_link type p k3)
       }
   }"

definition rt_object_delete :: "kptr \<Rightarrow> kstate \<Rightarrow> kstate option" where
  "rt_object_delete p k = do {
     rt_assert (o_type (k_obj k p) AND RT_Object_Class_Static = 0);
     let k1 = obj_upd p (\<lambda>ob. ob\<lparr>o_type := 0\<rparr>) k;
     let k2 = object_unlink p k1;
     k_free (Some (kaddr p)) k2
   }"

definition rt_object_find :: "u8 list option \<Rightarrow> u8 \<Rightarrow> kstate \<Rightarrow> (kptr option \<times> kstate) option" where
  "rt_object_find name type k =
     (case name of
        None \<Rightarrow> Some (None, k)
      | Some nm \<Rightarrow>
          (case rt_object_get_information type of
             None \<Rightarrow> Some (None, k)
           | Some _ \<Rightarrow> do {
               not_in_interrupt k;
               let k1 = rt_enter_critical k;
               let r = find (\<lambda>p. name_equal RT_NAME_MAX (o_name (k_obj k1 p)) nm) (k_container k1 type);
               k2 \<leftarrow> rt_exit_critical k1;
               Some (r, k2)
             }))"

section \<open>What the operations leave unchanged\<close>

lemma object_link_same [rt_frame]: "sched_same k (object_link type p k)"
  by (simp add: object_link_def sched_same_def)

lemma object_unlink_same [rt_frame]: "sched_same k (object_unlink p k)"
  by (simp add: object_unlink_def sched_same_def)

lemma obj_upd_same [rt_frame]: "sched_same k (obj_upd p f k)"
  by (simp add: sched_same_def)

lemma rt_object_detach_same [rt_frame]: "sched_same k (rt_object_detach p k)"
  unfolding rt_object_detach_def using obj_upd_same object_unlink_same by (rule sched_same_trans)

lemma rt_object_init_form:
  assumes "rt_object_init p type name k = Some k'"
  shows "\<exists>n pr c. k' = k\<lparr>scheduler_lock_nest := n, rt_current_priority := pr, current_thread := c,
      k_obj := (k_obj k)(p := (k_obj k p)\<lparr>o_type := type OR 0x80, o_name := name_copy 8 name\<rparr>),
      k_container := (k_container k)(type := p # k_container k type)\<rparr> \<and> p \<notin> set (k_container k type)"
  using assms
  by (auto simp: rt_object_init_def bind_Some_iff rt_enter_critical_def object_link_def obj_upd_def Let_def
      dest!: rt_exit_critical_form) blast

lemma rt_object_init_same [rt_frame]: "rt_object_init p type name k = Some k' \<Longrightarrow> sched_same k k'"
  by (auto dest!: rt_object_init_form simp: sched_same_def)

lemma k_free_form: "k_free p k = Some k' \<Longrightarrow> \<exists>h. k' = k\<lparr>k_heap := h\<rparr>"
  by (auto simp: k_free_def bind_Some_iff)

lemma k_malloc_form: "k_malloc n k = Some (r, k') \<Longrightarrow> \<exists>h. k' = k\<lparr>k_heap := h\<rparr>"
  by (auto simp: k_malloc_def bind_Some_iff)

lemma rt_object_delete_same [rt_frame]: "rt_object_delete p k = Some k' \<Longrightarrow> sched_same k k'"
  by (auto simp: rt_object_delete_def obj_upd_def object_unlink_def Let_def sched_same_def dest!: k_free_form)

section \<open>Names\<close>

lemma byte_at_simps [simp]: "byte_at [] = 0" "byte_at (c # cs) = c"
  by (simp_all add: byte_at_def)

lemma length_name_copy [simp]: "length (name_copy n s) = n"
  by (induction n s rule: name_copy.induct) auto

lemma name_copy_equal [simp]: "name_equal n (name_copy n s) s"
  by (induction n s rule: name_copy.induct) auto

text \<open>What equality of names means: the bytes before the first zero agree, up to \<open>n\<close> of them.\<close>

lemma name_equal_iff: "name_equal n a b \<longleftrightarrow> name_copy n a = name_copy n b"
proof (induction n arbitrary: a b)
  case (Suc n)
  show ?case using Suc [of "tl a" "tl b"] by (cases a; cases b) auto
qed simp

end
