(* ===== verification/Timer.thy ===== *)
theory Timer
  imports Object
begin

text \<open>
  Timers (\<^verbatim>\<open>os/timer.c\<close>, hard timers only, one list level): the active timers are kept in a list
  ordered by the tick at which they expire. A 32-bit tick counter wraps, so "earlier" is decided by
  the unsigned difference being below half the range. The loop \<^verbatim>\<open>rt_timer_check\<close>, which runs the
  callbacks, is in the theory \<open>Clock\<close>, because the callbacks belong to the thread management.
\<close>

section \<open>Definitions\<close>

abbreviation (input) RT_TICK_HALF :: u32 where "RT_TICK_HALF \<equiv> 0x7fffffff"

text \<open>\<^verbatim>\<open>_rt_timer_remove\<close>: unlink a timer from the list that holds it.\<close>

definition rt_timer_remove :: "kptr \<Rightarrow> kstate \<Rightarrow> kstate" where
  "rt_timer_remove p k =
     k\<lparr>timer_list := filter (\<lambda>x. x \<noteq> p) (timer_list k),
       timer_check_list := filter (\<lambda>x. x \<noteq> p) (timer_check_list k)\<rparr>"

definition timer_flag_clear :: "u8 \<Rightarrow> kptr \<Rightarrow> kstate \<Rightarrow> kstate" where
  "timer_flag_clear m p k = obj_upd p (\<lambda>ob. ob\<lparr>o_flag := o_flag ob AND NOT m\<rparr>) k"

definition timer_flag_set :: "u8 \<Rightarrow> kptr \<Rightarrow> kstate \<Rightarrow> kstate" where
  "timer_flag_set m p k = obj_upd p (\<lambda>ob. ob\<lparr>o_flag := o_flag ob OR m\<rparr>) k"

definition timer_active :: "kstate \<Rightarrow> kptr \<Rightarrow> bool" where
  "timer_active k p \<longleftrightarrow> o_flag (k_obj k p) AND RT_TIMER_FLAG_ACTIVATED \<noteq> 0"

definition timer_periodic :: "kstate \<Rightarrow> kptr \<Rightarrow> bool" where
  "timer_periodic k p \<longleftrightarrow> o_flag (k_obj k p) AND RT_TIMER_FLAG_PERIODIC \<noteq> 0"

text \<open>\<^verbatim>\<open>_rt_timer_init\<close>; \<^verbatim>\<open>rt_list_init\<close> of the row leaves the node linked to itself only.\<close>

definition rt_timer_init_fields :: "kptr \<Rightarrow> timeout_func \<Rightarrow> u32 \<Rightarrow> u8 \<Rightarrow> kstate \<Rightarrow> kstate" where
  "rt_timer_init_fields p timeout time flag k =
     (let k1 = obj_upd p (\<lambda>ob. ob\<lparr>o_flag := flag AND NOT RT_TIMER_FLAG_ACTIVATED\<rparr>) k in
      tmr_upd p (\<lambda>_. \<lparr>tm_timeout_func = timeout, tm_init_tick = time, tm_timeout_tick = 0\<rparr>) k1)"

definition rt_timer_list_next_timeout :: "kstate \<Rightarrow> u32" where
  "rt_timer_list_next_timeout k =
     (case timer_list k of [] \<Rightarrow> RT_TICK_MAX | p # _ \<Rightarrow> tm_timeout_tick (k_tmr k p))"

definition rt_timer_next_timeout_tick :: "kstate \<Rightarrow> u32" where
  "rt_timer_next_timeout_tick k = rt_timer_list_next_timeout k"

definition rt_timer_init ::
    "kptr \<Rightarrow> u8 list \<Rightarrow> timeout_func \<Rightarrow> u32 \<Rightarrow> u8 \<Rightarrow> kstate \<Rightarrow> kstate option" where
  "rt_timer_init p name timeout time flag k = do {
     k1 \<leftarrow> rt_object_init p RT_Object_Class_Timer name k;
     Some (rt_timer_init_fields p timeout time flag k1)
   }"

definition rt_timer_detach :: "kptr \<Rightarrow> kstate \<Rightarrow> kstate option" where
  "rt_timer_detach p k = do {
     rt_assert (rt_object_get_type k p = RT_Object_Class_Timer);
     rt_assert (rt_object_is_systemobject k p);
     let k1 = rt_timer_remove p k;
     let k2 = timer_flag_clear RT_TIMER_FLAG_ACTIVATED p k1;
     Some (rt_object_detach p k2)
   }"

definition rt_timer_create ::
    "u8 list \<Rightarrow> timeout_func \<Rightarrow> u32 \<Rightarrow> u8 \<Rightarrow> kstate \<Rightarrow> (nat option \<times> kstate) option" where
  "rt_timer_create name timeout time flag k = do {
     (r, k1) \<leftarrow> rt_object_allocate RT_Object_Class_Timer name k;
     case r of
       None \<Rightarrow> Some (None, k1)
     | Some a \<Rightarrow> Some (Some a, rt_timer_init_fields (K_timer a) timeout time flag k1)
   }"

definition rt_timer_delete :: "kptr \<Rightarrow> kstate \<Rightarrow> kstate option" where
  "rt_timer_delete p k = do {
     rt_assert (rt_object_get_type k p = RT_Object_Class_Timer);
     rt_assert (\<not> rt_object_is_systemobject k p);
     let k1 = rt_timer_remove p k;
     let k2 = timer_flag_clear RT_TIMER_FLAG_ACTIVATED p k1;
     rt_object_delete p k2
   }"

text \<open>The search loop of \<^verbatim>\<open>rt_timer_start\<close>: skip the timers that expire before the new one or at the
  same tick, and link the new timer in front of the first one that expires later.\<close>

fun timer_insert :: "(kptr \<Rightarrow> u32) \<Rightarrow> kptr \<Rightarrow> kptr list \<Rightarrow> kptr list" where
  "timer_insert tt p [] = [p]"
| "timer_insert tt p (q # qs) =
     (if tt q - tt p = 0 then q # timer_insert tt p qs
      else if tt q - tt p < RT_TICK_HALF then p # q # qs
      else q # timer_insert tt p qs)"

definition rt_timer_start :: "kptr \<Rightarrow> kstate \<Rightarrow> kstate option" where
  "rt_timer_start p k = do {
     rt_assert (rt_object_get_type k p = RT_Object_Class_Timer);
     let k1 = rt_timer_remove p k;
     let k2 = timer_flag_clear RT_TIMER_FLAG_ACTIVATED p k1;
     rt_assert (tm_init_tick (k_tmr k2 p) < RT_TICK_HALF);
     let k3 = tmr_upd p (\<lambda>tm. tm\<lparr>tm_timeout_tick := rt_tick k2 + tm_init_tick tm\<rparr>) k2;
     let k4 = k3\<lparr>timer_list := timer_insert (\<lambda>q. tm_timeout_tick (k_tmr k3 q)) p (timer_list k3)\<rparr>;
     Some (timer_flag_set RT_TIMER_FLAG_ACTIVATED p k4)
   }"

definition rt_timer_stop :: "kptr \<Rightarrow> kstate \<Rightarrow> (int \<times> kstate) option" where
  "rt_timer_stop p k = do {
     rt_assert (rt_object_get_type k p = RT_Object_Class_Timer);
     if \<not> timer_active k p then Some (- RT_ERROR, k)
     else Some (RT_EOK, timer_flag_clear RT_TIMER_FLAG_ACTIVATED p (rt_timer_remove p k))
   }"

datatype timer_cmd =
    RT_TIMER_CTRL_SET_TIME u32 | RT_TIMER_CTRL_GET_TIME | RT_TIMER_CTRL_SET_ONESHOT
  | RT_TIMER_CTRL_SET_PERIODIC | RT_TIMER_CTRL_GET_STATE | RT_TIMER_CTRL_OTHER

text \<open>The first component is the value stored through \<^verbatim>\<open>arg\<close>, if any.\<close>

definition rt_timer_control :: "kptr \<Rightarrow> timer_cmd \<Rightarrow> kstate \<Rightarrow> (u32 option \<times> kstate) option" where
  "rt_timer_control p cmd k = do {
     rt_assert (rt_object_get_type k p = RT_Object_Class_Timer);
     Some (case cmd of
       RT_TIMER_CTRL_GET_TIME \<Rightarrow> (Some (tm_init_tick (k_tmr k p)), k)
     | RT_TIMER_CTRL_SET_TIME v \<Rightarrow> (None, tmr_upd p (\<lambda>tm. tm\<lparr>tm_init_tick := v\<rparr>) k)
     | RT_TIMER_CTRL_SET_ONESHOT \<Rightarrow> (None, timer_flag_clear RT_TIMER_FLAG_PERIODIC p k)
     | RT_TIMER_CTRL_SET_PERIODIC \<Rightarrow> (None, timer_flag_set RT_TIMER_FLAG_PERIODIC p k)
     | RT_TIMER_CTRL_GET_STATE \<Rightarrow> (Some (if timer_active k p then 1 else 0), k)
     | RT_TIMER_CTRL_OTHER \<Rightarrow> (None, k))
   }"

definition rt_system_timer_init :: "kstate \<Rightarrow> kstate" where
  "rt_system_timer_init k = k\<lparr>timer_list := []\<rparr>"

text \<open>The distance of a timer's expiry from the tick \<open>d\<close> before the current one, and the order of the
  timer list. Between interrupts the list is ordered with \<open>d = 0\<close>; while the tick interrupt runs the
  callbacks, \<open>rt_tick\<close> has been incremented and \<open>d = 1\<close>, because the timers of the last tick may still be
  in the list.\<close>

definition timer_off :: "u32 \<Rightarrow> kstate \<Rightarrow> kptr \<Rightarrow> u32" where
  "timer_off d k p = tm_timeout_tick (k_tmr k p) - (rt_tick k - d)"

definition timers_sorted :: "u32 \<Rightarrow> kstate \<Rightarrow> bool" where
  "timers_sorted d k \<longleftrightarrow> distinct (timer_list k)
     \<and> (\<forall>p \<in> set (timer_list k). timer_off d k p < RT_TICK_HALF + d)
     \<and> sorted_wrt (\<lambda>p q. timer_off d k p \<le> timer_off d k q) (timer_list k)"

section \<open>What the operations leave unchanged\<close>

lemma timer_flag_simps [simp]:
  "k_list (timer_flag_clear m p k) = k_list k" "k_list (timer_flag_set m p k) = k_list k"
  "k_thr (timer_flag_clear m p k) = k_thr k" "k_thr (timer_flag_set m p k) = k_thr k"
  "k_tmr (timer_flag_clear m p k) = k_tmr k" "k_tmr (timer_flag_set m p k) = k_tmr k"
  "timer_list (timer_flag_clear m p k) = timer_list k" "timer_list (timer_flag_set m p k) = timer_list k"
  "rt_tick (timer_flag_clear m p k) = rt_tick k" "rt_tick (timer_flag_set m p k) = rt_tick k"
  by (simp_all add: timer_flag_clear_def timer_flag_set_def)

lemma rt_timer_remove_simps [simp]:
  "k_list (rt_timer_remove p k) = k_list k" "k_thr (rt_timer_remove p k) = k_thr k"
  "k_tmr (rt_timer_remove p k) = k_tmr k" "k_obj (rt_timer_remove p k) = k_obj k"
  "timer_list (rt_timer_remove p k) = filter (\<lambda>x. x \<noteq> p) (timer_list k)"
  "rt_tick (rt_timer_remove p k) = rt_tick k"
  by (simp_all add: rt_timer_remove_def)

lemma timer_flag_clear_same [rt_frame]: "sched_same k (timer_flag_clear m p k)"
  unfolding timer_flag_clear_def by (rule obj_upd_same)

lemma rt_timer_remove_same [rt_frame]: "sched_same k (rt_timer_remove p k)"
  by (simp add: rt_timer_remove_def sched_same_def)

lemma rt_timer_stop_form:
  assumes "rt_timer_stop p k = Some (r, k')"
  shows "\<exists>l c ob. k' = k\<lparr>timer_list := l, timer_check_list := c, k_obj := ob\<rparr>
     \<and> (\<forall>q. o_type (ob q) = o_type (k_obj k q)) \<and> set l \<subseteq> set (timer_list k)"
proof (cases "timer_active k p")
  case True
  with assms have "k' = k\<lparr>timer_list := filter (\<lambda>x. x \<noteq> p) (timer_list k),
      timer_check_list := filter (\<lambda>x. x \<noteq> p) (timer_check_list k),
      k_obj := (k_obj k)(p := (k_obj k p)\<lparr>o_flag := o_flag (k_obj k p) AND NOT 1\<rparr>)\<rparr>"
    by (auto simp: rt_timer_stop_def timer_flag_clear_def rt_timer_remove_def obj_upd_def)
  then show ?thesis by fastforce
next
  case False
  with assms have "k' = k\<lparr>timer_list := timer_list k, timer_check_list := timer_check_list k, k_obj := k_obj k\<rparr>"
    by (auto simp: rt_timer_stop_def)
  then show ?thesis by blast
qed

lemma rt_timer_stop_same [rt_frame]: "rt_timer_stop p k = Some (r, k') \<Longrightarrow> sched_same k k'"
  by (auto dest!: rt_timer_stop_form simp: sched_same_def)

lemma rt_timer_start_form:
  assumes "rt_timer_start p k = Some k'"
  shows "k' = k\<lparr>timer_list := timer_list k', timer_check_list := timer_check_list k',
      k_obj := (k_obj k)(p := (k_obj k p)\<lparr>o_flag := (o_flag (k_obj k p) AND NOT 1) OR 1\<rparr>),
      k_tmr := (k_tmr k)(p := (k_tmr k p)\<lparr>tm_timeout_tick := rt_tick k + tm_init_tick (k_tmr k p)\<rparr>)\<rparr>"
  using assms unfolding rt_timer_start_def Let_def
  by (auto simp: timer_flag_clear_def timer_flag_set_def rt_timer_remove_def obj_upd_def tmr_upd_def)

lemma rt_timer_start_same [rt_frame]: "rt_timer_start p k = Some k' \<Longrightarrow> sched_same k k'"
  by (subst rt_timer_start_form, assumption) (simp add: sched_same_def)

lemma rt_timer_control_same [rt_frame]: "rt_timer_control p cmd k = Some (r, k') \<Longrightarrow> sched_same k k'"
  by (auto simp: rt_timer_control_def timer_flag_clear_def timer_flag_set_def sched_same_def
      split: timer_cmd.splits)

lemma rt_timer_detach_same [rt_frame]: "rt_timer_detach p k = Some k' \<Longrightarrow> sched_same k k'"
  by (auto simp: rt_timer_detach_def Let_def
      intro!: sched_same_trans [OF _ rt_object_detach_same] sched_same_trans [OF _ timer_flag_clear_same]
        rt_timer_remove_same)

lemma rt_timer_init_same [rt_frame]: "rt_timer_init p name f time flag k = Some k' \<Longrightarrow> sched_same k k'"
  by (auto simp: rt_timer_init_def bind_Some_iff rt_timer_init_fields_def Let_def sched_same_def
      dest!: rt_object_init_form)

section \<open>The order of the timer list\<close>

lemma tick_window:
  fixes d n :: u32
  assumes "d \<le> 1" "n < RT_TICK_HALF"
  shows "n + d < RT_TICK_HALF + d" "d \<le> n + d" "unat (n + d) = unat n + unat d"
proof -
  have "unat d \<le> 1" "unat n < 2147483647" using assms by (simp_all add: word_less_nat_alt word_le_nat_alt)
  moreover from this show "unat (n + d) = unat n + unat d" by (simp add: unat_add_lem [symmetric])
  moreover have "unat (RT_TICK_HALF + d) = 2147483647 + unat d"
    using \<open>unat d \<le> 1\<close> by (simp add: unat_word_ariths)
  ultimately show "n + d < RT_TICK_HALF + d" "d \<le> n + d" by (simp_all add: word_less_nat_alt word_le_nat_alt)
qed

lemma tick_diff_less:
  fixes a b d :: u32
  assumes d: "d \<le> 1" and a: "a < RT_TICK_HALF + d" and b: "d \<le> b" "b < RT_TICK_HALF + d" and "a \<noteq> b"
  shows "a - b < RT_TICK_HALF \<longleftrightarrow> b < a"
proof -
  have h: "unat (RT_TICK_HALF + d) = 2147483647 + unat d" "unat d \<le> 1"
    using d by (simp_all add: word_le_nat_alt unat_word_ariths)
  then have n: "unat a < 2147483647 + unat d" "unat d \<le> unat b" "unat b < 2147483647 + unat d"
    using a b by (simp_all add: word_less_nat_alt word_le_nat_alt)
  show ?thesis
  proof (cases "b < a")
    case True
    then have "unat (a - b) = unat a - unat b" by (simp add: unat_sub less_imp_le)
    then show ?thesis using True n by (simp add: word_less_nat_alt)
  next
    case False
    then have lt: "unat a < unat b" using \<open>a \<noteq> b\<close> by (simp add: word_less_nat_alt [symmetric])
    have "unat (a - b) = unat a + 4294967296 - unat b" using lt by (simp add: unat_sub_if')
    then have "\<not> unat (a - b) < 2147483647" using n h by linarith
    then show ?thesis using False by (simp add: word_less_nat_alt)
  qed
qed

lemma timer_insert_split:
  assumes d: "d \<le> 1" and q: "\<And>q. q \<in> set qs \<Longrightarrow> tt q - now < RT_TICK_HALF + d"
    and p: "d \<le> tt p - now" "tt p - now < RT_TICK_HALF + d"
  shows "timer_insert tt p qs = takeWhile (\<lambda>q. tt q - now \<le> tt p - now) qs @ p
           # dropWhile (\<lambda>q. tt q - now \<le> tt p - now) qs"
  using q
proof (induction qs)
  case (Cons q qs)
  have diff: "tt q - tt p = (tt q - now) - (tt p - now)" by simp
  have eq: "tt q - tt p = 0 \<longleftrightarrow> tt q - now = tt p - now" by (simp add: eq_diff_eq)
  have "tt q - now < RT_TICK_HALF + d" using Cons.prems by simp
  from tick_diff_less [OF d this p] have lt: "tt q - now \<noteq> tt p - now \<Longrightarrow>
      tt q - tt p < RT_TICK_HALF \<longleftrightarrow> tt p - now < tt q - now" unfolding diff by blast
  show ?case
    using Cons eq lt by (cases "tt q - now = tt p - now") (auto simp: not_less)
qed simp

lemma sorted_wrt_insert:
  assumes "sorted_wrt (\<lambda>x y. f x \<le> (f y :: 'b::linorder)) xs"
  shows "sorted_wrt (\<lambda>x y. f x \<le> f y) (takeWhile (\<lambda>q. f q \<le> f p) xs @ p # dropWhile (\<lambda>q. f q \<le> f p) xs)"
  using assms
proof (induction xs)
  case (Cons x xs)
  then show ?case by (auto dest: set_takeWhileD set_dropWhileD)
qed simp

lemma insert_split_set: "set (takeWhile P qs @ p # dropWhile P qs) = insert p (set qs)"
  by (induction qs) auto

lemma insert_split_distinct:
  "distinct (takeWhile P qs @ p # dropWhile P qs) \<longleftrightarrow> distinct qs \<and> p \<notin> set qs"
proof (induction qs)
  case (Cons q qs)
  show ?case
  proof (cases "P q")
    case True
    then have "distinct (takeWhile P (q # qs) @ p # dropWhile P (q # qs))
        \<longleftrightarrow> q \<notin> set (takeWhile P qs @ p # dropWhile P qs) \<and> distinct (takeWhile P qs @ p # dropWhile P qs)"
      by simp
    then show ?thesis unfolding insert_split_set Cons by auto
  qed auto
qed simp

lemma timers_sortedD:
  assumes "timers_sorted d k"
  shows timers_distinct: "distinct (timer_list k)"
    and timers_window: "p \<in> set (timer_list k) \<Longrightarrow> timer_off d k p < RT_TICK_HALF + d"
    and timers_order: "sorted_wrt (\<lambda>p q. timer_off d k p \<le> timer_off d k q) (timer_list k)"
  using assms by (simp_all add: timers_sorted_def)

lemma timers_sorted_filter:
  assumes "timers_sorted d k" "k_tmr k' = k_tmr k" "rt_tick k' = rt_tick k"
    "timer_list k' = filter P (timer_list k)"
  shows "timers_sorted d k'"
  using assms by (auto simp: timers_sorted_def timer_off_def intro: sorted_wrt_filter)

lemma rt_timer_start_list:
  assumes d: "d \<le> 1" and sorted: "timers_sorted d k" and start: "rt_timer_start p k = Some k'"
  defines "n \<equiv> tm_init_tick (k_tmr k p)" and "qs \<equiv> filter (\<lambda>x. x \<noteq> p) (timer_list k)"
  shows "timers_sorted d k'" "timer_active k' p" "timer_off d k' p = n + d"
    "\<And>q. q \<noteq> p \<Longrightarrow> timer_off d k' q = timer_off d k q"
    "timer_list k' = takeWhile (\<lambda>q. timer_off d k q \<le> n + d) qs @ p # dropWhile (\<lambda>q. timer_off d k q \<le> n + d) qs"
    "set (timer_list k') = insert p (set (timer_list k))"
proof -
  let ?now = "rt_tick k - d"
  let ?tt = "\<lambda>q. tm_timeout_tick (if q = p then (k_tmr k p)\<lparr>tm_timeout_tick := rt_tick k + n\<rparr> else k_tmr k q)"
  have init: "n < RT_TICK_HALF" and tl: "timer_list k' = timer_insert ?tt p qs"
    using start by (auto simp: rt_timer_start_def Let_def n_def qs_def cong: if_cong)
  note form = rt_timer_start_form [OF start] and W = tick_window [OF d init]
  have tmr: "k_tmr k' = (k_tmr k)(p := (k_tmr k p)\<lparr>tm_timeout_tick := rt_tick k + n\<rparr>)"
    and tick: "rt_tick k' = rt_tick k" by (subst form, simp add: n_def)+
  show offp: "timer_off d k' p = n + d" and off: "\<And>q. q \<noteq> p \<Longrightarrow> timer_off d k' q = timer_off d k q"
    by (simp_all add: timer_off_def tmr tick)
  have "o_flag (k_obj k' p) AND 1 = 1"
    by (subst form) (simp add: bit_eq_iff bit_simps)
  then show "timer_active k' p" by (simp add: timer_active_def)
  have tt: "?tt q - ?now = timer_off d k' q" for q by (simp add: timer_off_def tmr tick)
  have win: "timer_off d k' q < RT_TICK_HALF + d" if "q \<in> set qs" for q
    using that timers_window [OF sorted, of q] off by (auto simp: qs_def)
  have "timer_list k' = takeWhile (\<lambda>q. timer_off d k' q \<le> timer_off d k' p) qs @ p
       # dropWhile (\<lambda>q. timer_off d k' q \<le> timer_off d k' p) qs"
    unfolding tl using timer_insert_split [OF d, of qs ?tt ?now p] win W(1,2) by (simp only: tt offp)
  then have tl': "timer_list k' = takeWhile (\<lambda>q. timer_off d k' q \<le> timer_off d k' p) qs @ p
       # dropWhile (\<lambda>q. timer_off d k' q \<le> timer_off d k' p) qs" .
  have cong: "takeWhile (\<lambda>q. timer_off d k' q \<le> timer_off d k' p) qs = takeWhile (\<lambda>q. timer_off d k q \<le> n + d) qs"
      "dropWhile (\<lambda>q. timer_off d k' q \<le> timer_off d k' p) qs = dropWhile (\<lambda>q. timer_off d k q \<le> n + d) qs"
    using off offp by (auto intro!: takeWhile_cong dropWhile_cong simp: qs_def)
  then show "timer_list k' = takeWhile (\<lambda>q. timer_off d k q \<le> n + d) qs @ p
      # dropWhile (\<lambda>q. timer_off d k q \<le> n + d) qs" using tl' by simp
  have "sorted_wrt (\<lambda>p q. timer_off d k' p \<le> timer_off d k' q) qs"
    unfolding qs_def using timers_order [OF sorted] off
    by (intro sorted_wrt_mono_rel [OF _ sorted_wrt_filter]) auto
  from sorted_wrt_insert [OF this, of p]
  have ord: "sorted_wrt (\<lambda>p q. timer_off d k' p \<le> timer_off d k' q) (timer_list k')" unfolding tl' .
  show mset: "set (timer_list k') = insert p (set (timer_list k))"
    unfolding tl' insert_split_set by (auto simp: qs_def)
  have "distinct (timer_list k')"
    unfolding tl' insert_split_distinct using timers_distinct [OF sorted] by (simp add: qs_def)
  then show "timers_sorted d k'"
    unfolding timers_sorted_def using ord mset timers_window [OF sorted] off offp W(1) by (metis insertE)
qed

lemma rt_timer_start_succeeds:
  "rt_object_get_type k p = RT_Object_Class_Timer \<Longrightarrow> tm_init_tick (k_tmr k p) < RT_TICK_HALF \<Longrightarrow>
   \<exists>k'. rt_timer_start p k = Some k'"
  by (simp add: rt_timer_start_def Let_def)

end
