(* ===== verification/Thread.thy ===== *)
theory Thread
  imports Timer
begin

text \<open>
  Threads (\<^verbatim>\<open>os/thread.c\<close>): creation, start, suspension and resumption, delays, priority change,
  termination. The initial stack pointer is that of \<^verbatim>\<open>rt_hw_stack_init\<close>
  (\<^verbatim>\<open>libcpu/arm/cortex-m4/cpuport.c\<close>).

  A call that waits is split at its call of \<^verbatim>\<open>rt_schedule\<close>: the first part ends with \<open>Wait c\<close>
  after the scheduler ran, where \<open>c\<close> says which call waits and what its local variables hold, and the
  rest (\<open>rt_thread_sleep_cont\<close> and the like) is executed when the thread runs again. The parameter \<open>uf\<close> stands for the functions applications register with
  the kernel (cleanup functions here, timer callbacks in \<open>Clock\<close>).
\<close>

section \<open>Definitions\<close>

datatype callback = CB_timer nat | CB_cleanup nat tid | CB_idle nat

type_synonym user_fun = "callback \<Rightarrow> kstate \<Rightarrow> kstate option"

datatype cont =
    C_sleep | C_delay_until | C_sem_take | C_mutex_take | C_event_recv
  | C_mb_send nat u32 int u32 | C_mb_recv nat int u32
  | C_mq_send nat "u8 list" nat int u32 | C_mq_recv nat nat int u32

datatype wait_result = Return int | Wait cont

text \<open>\<^verbatim>\<open>sizeof(struct stack_frame)\<close> with the FPU flag word: 9 saved words and 8 exception words.\<close>

definition rt_hw_stack_init :: "nat \<Rightarrow> nat" where
  "rt_hw_stack_init stack_addr = sub32 (add32 stack_addr 4 div 8 * 8) 68"

definition thread_cleanup_execute :: "user_fun \<Rightarrow> tid \<Rightarrow> kstate \<Rightarrow> kstate option" where
  "thread_cleanup_execute uf t k =
     (case th_cleanup (k_thr k t) of None \<Rightarrow> Some k | Some c \<Rightarrow> uf (CB_cleanup c t) k)"

definition rt_thread_exit :: "user_fun \<Rightarrow> kstate \<Rightarrow> kstate option" where
  "rt_thread_exit uf k = do {
     t \<leftarrow> current_thread k;
     k1 \<leftarrow> thread_cleanup_execute uf t k;
     k2 \<leftarrow> rt_schedule_remove_thread t k1;
     let k3 = thr_upd t (\<lambda>th. th\<lparr>th_stat := RT_THREAD_CLOSE\<rparr>) k2;
     k4 \<leftarrow> rt_timer_detach (K_thread_timer t) k3;
     let k5 = (if rt_object_is_systemobject k4 (K_thread t) then rt_object_detach (K_thread t) k4
               else tlist_insert_after Defunct t k4);
     rt_schedule k5
   }"

text \<open>\<^verbatim>\<open>_rt_thread_init\<close>. The stack is filled with \<open>#\<close>, then the initial frame is written at its top;
  whether the lowest byte survives matters to the stack check only, which also refuses a stack
  pointer at or below \<^verbatim>\<open>stack_addr\<close>.\<close>

definition rt_thread_init_fields ::
    "tid \<Rightarrow> nat \<Rightarrow> nat \<Rightarrow> nat \<Rightarrow> nat \<Rightarrow> nat \<Rightarrow> u32 \<Rightarrow> kstate \<Rightarrow> kstate option" where
  "rt_thread_init_fields t entry parameter stack_start stack_size priority tick k = do {
     let k1 = tlist_remove t k;
     rt_assert (priority < RT_THREAD_PRIORITY_MAX);
     let k2 = thr_upd t (\<lambda>th. th\<lparr>th_entry := entry, th_parameter := parameter,
                 th_stack_addr := stack_start, th_stack_size := stack_size, th_stack_guard := 0x23,
                 th_sp := rt_hw_stack_init (sub32 (add32 stack_start stack_size) 4),
                 th_init_priority := priority, th_current_priority := priority,
                 th_number_mask := 0, th_init_tick := tick, th_remaining_tick := tick,
                 th_error := RT_EOK, th_stat := RT_THREAD_INIT, th_cleanup := None,
                 th_user_data := 0\<rparr>) k1;
     rt_timer_init (K_thread_timer t) (o_name (k_obj k2 (K_thread t))) (Thread_timeout t) 0 0 k2
   }"

definition rt_thread_init ::
    "tid \<Rightarrow> u8 list \<Rightarrow> nat \<Rightarrow> nat \<Rightarrow> nat \<Rightarrow> nat \<Rightarrow> nat \<Rightarrow> u32 \<Rightarrow> kstate \<Rightarrow> kstate option" where
  "rt_thread_init t name entry parameter stack_start stack_size priority tick k = do {
     rt_assert (stack_start \<noteq> 0);
     k1 \<leftarrow> rt_object_init (K_thread t) RT_Object_Class_Thread name k;
     rt_thread_init_fields t entry parameter stack_start stack_size priority tick k1
   }"

definition rt_thread_self :: "kstate \<Rightarrow> tid option" where
  "rt_thread_self k = current_thread k"

definition rt_thread_suspend :: "tid \<Rightarrow> kstate \<Rightarrow> (int \<times> kstate) option" where
  "rt_thread_suspend t k = do {
     rt_assert (rt_object_get_type k (K_thread t) = RT_Object_Class_Thread);
     if thread_state k t \<noteq> RT_THREAD_READY then Some (- RT_ERROR, k)
     else do {
       k1 \<leftarrow> rt_schedule_remove_thread t k;
       let k2 = thr_upd t (set_stat RT_THREAD_SUSPEND) k1;
       (_, k3) \<leftarrow> rt_timer_stop (K_thread_timer t) k2;
       Some (RT_EOK, k3)
     }
   }"

text \<open>The two sections of \<^verbatim>\<open>rt_thread_resume\<close>: interrupts are disabled in the first one, enabled behind it, and disabled again in
  \<^verbatim>\<open>rt_schedule_insert_thread\<close>. The operations that resume a thread with interrupts disabled execute both at once.\<close>

definition resume_unlink :: "tid \<Rightarrow> kstate \<Rightarrow> kstate option" where
  "resume_unlink t k = do {
     let k1 = tlist_remove t k;
     (_, k2) \<leftarrow> rt_timer_stop (K_thread_timer t) k1;
     Some k2
   }"

definition rt_thread_resume :: "tid \<Rightarrow> kstate \<Rightarrow> (int \<times> kstate) option" where
  "rt_thread_resume t k = do {
     rt_assert (rt_object_get_type k (K_thread t) = RT_Object_Class_Thread);
     if thread_state k t \<noteq> RT_THREAD_SUSPEND then Some (- RT_ERROR, k)
     else do {
       k1 \<leftarrow> resume_unlink t k;
       k2 \<leftarrow> rt_schedule_insert_thread t k1;
       Some (RT_EOK, k2)
     }
   }"

definition startup_prepare :: "tid \<Rightarrow> kstate \<Rightarrow> kstate" where
  "startup_prepare t k = thr_upd t (\<lambda>th. th\<lparr>th_current_priority := th_init_priority th,
     th_number_mask := push_bit (th_init_priority th) 1, th_stat := RT_THREAD_SUSPEND\<rparr>) k"

definition rt_thread_startup :: "tid \<Rightarrow> kstate \<Rightarrow> kstate option" where
  "rt_thread_startup t k = do {
     rt_assert (thread_state k t = RT_THREAD_INIT);
     rt_assert (rt_object_get_type k (K_thread t) = RT_Object_Class_Thread);
     let k1 = startup_prepare t k;
     (_, k2) \<leftarrow> rt_thread_resume t k1;
     if rt_thread_self k2 \<noteq> None then rt_schedule k2 else Some k2
   }"

definition rt_thread_detach :: "user_fun \<Rightarrow> tid \<Rightarrow> kstate \<Rightarrow> kstate option" where
  "rt_thread_detach uf t k = do {
     rt_assert (rt_object_get_type k (K_thread t) = RT_Object_Class_Thread);
     rt_assert (rt_object_is_systemobject k (K_thread t));
     if thread_state k t = RT_THREAD_CLOSE then Some k
     else do {
       k1 \<leftarrow> (if thread_state k t \<noteq> RT_THREAD_INIT then rt_schedule_remove_thread t k else Some k);
       k2 \<leftarrow> thread_cleanup_execute uf t k1;
       k3 \<leftarrow> rt_timer_detach (K_thread_timer t) k2;
       let k4 = thr_upd t (\<lambda>th. th\<lparr>th_stat := RT_THREAD_CLOSE\<rparr>) k3;
       Some (if rt_object_is_systemobject k4 (K_thread t) then rt_object_detach (K_thread t) k4
             else tlist_insert_after Defunct t k4)
     }
   }"

definition rt_thread_create ::
    "u8 list \<Rightarrow> nat \<Rightarrow> nat \<Rightarrow> nat \<Rightarrow> nat \<Rightarrow> u32 \<Rightarrow> kstate \<Rightarrow> (tid option \<times> kstate) option" where
  "rt_thread_create name entry parameter stack_size priority tick k = do {
     (r, k1) \<leftarrow> rt_object_allocate RT_Object_Class_Thread name k;
     case r of
       None \<Rightarrow> Some (None, k1)
     | Some t \<Rightarrow> do {
         (s, k2) \<leftarrow> k_malloc stack_size k1;
         case s of
           None \<Rightarrow> do { k3 \<leftarrow> rt_object_delete (K_thread t) k2; Some (None, k3) }
         | Some stack_start \<Rightarrow> do {
             k3 \<leftarrow> rt_thread_init_fields t entry parameter stack_start stack_size priority tick k2;
             Some (Some t, k3)
           }
       }
   }"

definition rt_thread_delete :: "user_fun \<Rightarrow> tid \<Rightarrow> kstate \<Rightarrow> kstate option" where
  "rt_thread_delete uf t k = do {
     rt_assert (rt_object_get_type k (K_thread t) = RT_Object_Class_Thread);
     rt_assert (\<not> rt_object_is_systemobject k (K_thread t));
     if thread_state k t = RT_THREAD_CLOSE then Some k
     else do {
       k1 \<leftarrow> (if thread_state k t \<noteq> RT_THREAD_INIT then rt_schedule_remove_thread t k else Some k);
       k2 \<leftarrow> thread_cleanup_execute uf t k1;
       k3 \<leftarrow> rt_timer_detach (K_thread_timer t) k2;
       let k4 = thr_upd t (\<lambda>th. th\<lparr>th_stat := RT_THREAD_CLOSE\<rparr>) k3;
       Some (tlist_insert_after Defunct t k4)
     }
   }"

text \<open>\<^verbatim>\<open>tlist.next != tlist.prev\<close>: the ready queue of the running thread holds another thread.\<close>

definition rt_thread_yield :: "kstate \<Rightarrow> kstate option" where
  "rt_thread_yield k = do {
     t \<leftarrow> current_thread k;
     let q = Ready (th_current_priority (k_thr k t));
     if thread_state k t = RT_THREAD_READY \<and> length (k_list k q) \<ge> 2 then
       rt_schedule (tlist_insert_before q t (tlist_remove t k))
     else Some k
   }"

text \<open>Delays. \<open>thread_arm\<close> is the common step: suspend the thread and start its timer.\<close>

definition thread_arm :: "tid \<Rightarrow> u32 \<Rightarrow> kstate \<Rightarrow> kstate option" where
  "thread_arm t tick k = do {
     (_, k1) \<leftarrow> rt_thread_suspend t k;
     (_, k2) \<leftarrow> rt_timer_control (K_thread_timer t) (RT_TIMER_CTRL_SET_TIME tick) k1;
     rt_timer_start (K_thread_timer t) k2
   }"

definition rt_thread_sleep :: "u32 \<Rightarrow> kstate \<Rightarrow> (wait_result \<times> kstate) option" where
  "rt_thread_sleep tick k = do {
     t \<leftarrow> current_thread k;
     rt_assert (rt_object_get_type k (K_thread t) = RT_Object_Class_Thread);
     k1 \<leftarrow> thread_arm t tick k;
     k2 \<leftarrow> rt_schedule k1;
     Some (Wait C_sleep, k2)
   }"

definition thread_clear_timeout :: "tid \<Rightarrow> kstate \<Rightarrow> kstate" where
  "thread_clear_timeout t k =
     (if th_error (k_thr k t) = - RT_ETIMEOUT then thr_upd t (\<lambda>th. th\<lparr>th_error := RT_EOK\<rparr>) k else k)"

definition rt_thread_sleep_cont :: "tid \<Rightarrow> kstate \<Rightarrow> int \<times> kstate" where
  "rt_thread_sleep_cont t k = (RT_EOK, thread_clear_timeout t k)"

definition rt_thread_delay :: "u32 \<Rightarrow> kstate \<Rightarrow> (wait_result \<times> kstate) option" where
  "rt_thread_delay tick k = rt_thread_sleep tick k"

text \<open>The second component is the value of \<^verbatim>\<open>*tick\<close>.\<close>

definition rt_thread_delay_until :: "u32 \<Rightarrow> u32 \<Rightarrow> kstate \<Rightarrow> (wait_result \<times> u32 \<times> kstate) option" where
  "rt_thread_delay_until tick inc_tick k = do {
     t \<leftarrow> rt_thread_self k;
     rt_assert (rt_object_get_type k (K_thread t) = RT_Object_Class_Thread);
     if rt_tick k - tick < inc_tick then do {
       let tick' = tick + inc_tick - rt_tick k;
       k1 \<leftarrow> thread_arm t tick' k;
       k2 \<leftarrow> rt_schedule k1;
       Some (Wait C_delay_until, tick', k2)
     }
     else Some (Return RT_EOK, rt_tick k, k)
   }"

definition rt_thread_delay_until_cont :: "tid \<Rightarrow> kstate \<Rightarrow> int \<times> u32 \<times> kstate" where
  "rt_thread_delay_until_cont t k = (RT_EOK, rt_tick k, thread_clear_timeout t k)"

datatype thread_cmd =
    RT_THREAD_CTRL_STARTUP | RT_THREAD_CTRL_CLOSE | RT_THREAD_CTRL_CHANGE_PRIORITY nat
  | RT_THREAD_CTRL_OTHER

definition set_priority :: "nat \<Rightarrow> rt_thread \<Rightarrow> rt_thread" where
  "set_priority p th = th\<lparr>th_current_priority := p, th_number_mask := push_bit p 1\<rparr>"

text \<open>The command \<^verbatim>\<open>RT_THREAD_CTRL_CHANGE_PRIORITY\<close>.\<close>

definition thread_change_priority :: "tid \<Rightarrow> nat \<Rightarrow> kstate \<Rightarrow> kstate option" where
  "thread_change_priority t p k = do {
     rt_assert (rt_object_get_type k (K_thread t) = RT_Object_Class_Thread);
     if thread_state k t = RT_THREAD_READY then do {
       k1 \<leftarrow> rt_schedule_remove_thread t k;
       let k2 = thr_upd t (set_priority p) k1;
       rt_schedule_insert_thread t k2
     }
     else Some (thr_upd t (set_priority p) k)
   }"

definition rt_thread_control :: "user_fun \<Rightarrow> tid \<Rightarrow> thread_cmd \<Rightarrow> kstate \<Rightarrow> kstate option" where
  "rt_thread_control uf t cmd k = do {
     rt_assert (rt_object_get_type k (K_thread t) = RT_Object_Class_Thread);
     case cmd of
       RT_THREAD_CTRL_CHANGE_PRIORITY p \<Rightarrow> thread_change_priority t p k
     | RT_THREAD_CTRL_STARTUP \<Rightarrow> rt_thread_startup t k
     | RT_THREAD_CTRL_CLOSE \<Rightarrow>
         if rt_object_is_systemobject k (K_thread t) then rt_thread_detach uf t k
         else rt_thread_delete uf t k
     | RT_THREAD_CTRL_OTHER \<Rightarrow> Some k
   }"

definition rt_thread_timeout :: "tid \<Rightarrow> kstate \<Rightarrow> kstate option" where
  "rt_thread_timeout t k = do {
     rt_assert (thread_state k t = RT_THREAD_SUSPEND);
     rt_assert (rt_object_get_type k (K_thread t) = RT_Object_Class_Thread);
     let k1 = thr_upd t (\<lambda>th. th\<lparr>th_error := - RT_ETIMEOUT\<rparr>) k;
     k2 \<leftarrow> rt_schedule_insert_thread t (tlist_remove t k1);
     rt_schedule k2
   }"

definition rt_thread_find :: "u8 list option \<Rightarrow> kstate \<Rightarrow> (kptr option \<times> kstate) option" where
  "rt_thread_find name k = rt_object_find name RT_Object_Class_Thread k"

text \<open>What the operations on a thread keep of the rest of the state: the other threads, the kinds of the
  objects, and all fields that do not belong to the scheduler or the timers.\<close>

definition thread_frame :: "tid set \<Rightarrow> kstate \<Rightarrow> kstate \<Rightarrow> bool" where
  "thread_frame X k k' \<longleftrightarrow>
     (\<forall>s. s \<notin> X \<longrightarrow> k_thr k' s = k_thr k s)
     \<and> (\<forall>p. o_type (k_obj k' p) = o_type (k_obj k p))
     \<and> (\<forall>p. (\<forall>s \<in> X. p \<noteq> K_thread_timer s) \<longrightarrow> k_obj k' p = k_obj k p \<and> k_tmr k' p = k_tmr k p)
     \<and> k_sem k' = k_sem k \<and> k_mutex k' = k_mutex k \<and> k_event k' = k_event k \<and> k_mb k' = k_mb k
     \<and> k_mq k' = k_mq k \<and> k_container k' = k_container k \<and> k_heap k' = k_heap k
     \<and> rt_tick k' = rt_tick k \<and> interrupt_nest k' = interrupt_nest k
     \<and> scheduler_lock_nest k' = scheduler_lock_nest k"

section \<open>Effects on the scheduler state\<close>

lemma thread_frame_refl [simp]: "thread_frame X k k"
  by (simp add: thread_frame_def)

lemma thread_frame_trans:
  "thread_frame X a b \<Longrightarrow> thread_frame Y b c \<Longrightarrow> thread_frame (X \<union> Y) a c"
  by (simp add: thread_frame_def)

lemma thread_frame_trans1: "thread_frame X a b \<Longrightarrow> thread_frame X b c \<Longrightarrow> thread_frame X a c"
  using thread_frame_trans [of X a b X c] by simp

lemma thread_frame_mono: "thread_frame X k k' \<Longrightarrow> X \<subseteq> Y \<Longrightarrow> thread_frame Y k k'"
  unfolding thread_frame_def by (metis subsetD)

lemma thr_upd_frame: "thread_frame {t} k (thr_upd t f k)"
  by (simp add: thread_frame_def)

lemma tlist_remove_frame: "thread_frame {} k (tlist_remove t k)"
  by (simp add: thread_frame_def)

lemma remove_thread_frame:
  "rt_schedule_remove_thread t k = Some k' \<Longrightarrow> thread_frame {} k k' \<and> current_thread k' = current_thread k"
  by (auto simp: rt_schedule_remove_thread_def Let_def thread_frame_def split: if_splits)

lemma insert_thread_frame:
  "rt_schedule_insert_thread t k = Some k' \<Longrightarrow> thread_frame {t} k k' \<and> current_thread k' = current_thread k"
  by (auto dest!: rt_schedule_insert_thread_form simp: thread_frame_def)

lemma rt_schedule_frame: "rt_schedule k = Some k' \<Longrightarrow> thread_frame {} k k'"
  by (auto dest!: rt_schedule_form simp: thread_frame_def)

lemma thread_state_same: "sched_same k k' \<Longrightarrow> thread_state k' t = thread_state k t"
  by (simp add: sched_same_def thread_state_def)

lemma prio_ok_same: "sched_same k k' \<Longrightarrow> prio_ok (k_thr k' t) = prio_ok (k_thr k t)"
  by (simp add: sched_same_def prio_ok_def)

lemma rt_timer_stop_frame:
  assumes "rt_timer_stop (K_thread_timer t) k = Some (r, k')"
  shows "thread_frame {t} k k'" "k_thr k' = k_thr k" "current_thread k' = current_thread k"
  using assms
  by (auto simp: rt_timer_stop_def timer_flag_clear_def rt_timer_remove_def obj_upd_def thread_frame_def
      split: if_splits)

lemma except_unlinked:
  assumes "sched_wf_except X k" "\<And>h. t \<notin> set (k_list k h)"
  shows "sched_wf_except (insert t X) k"
  using sched_wf_exceptD [OF assms(1)] assms(2)
  by (intro sched_wf_exceptI) (blast+)

lemma rt_thread_suspend_wf:
  assumes wf: "sched_wf k" and st: "thread_state k t = RT_THREAD_READY"
    and sus: "rt_thread_suspend t k = Some (r, k')"
  shows "r = RT_EOK" "sched_wf_except {t} k'" "thread_state k' t = RT_THREAD_SUSPEND" "prio_ok (k_thr k' t)"
    "k_thr k' t = set_stat RT_THREAD_SUSPEND (k_thr k t)" "thread_frame {t} k k'"
    "current_thread k' = current_thread k"
proof -
  have wf': "sched_wf_except {} k" using wf by (simp add: sched_wf_def)
  have ok: "prio_ok (k_thr k t)" using sched_wf_prio_ok [OF wf', of t] st by simp
  obtain k1 where k1: "rt_schedule_remove_thread t k = Some k1" "sched_wf_except {t} k1" "k_thr k1 = k_thr k"
    using remove_thread_wf [OF wf' ok] by auto
  let ?k2 = "thr_upd t (set_stat RT_THREAD_SUSPEND) k1"
  obtain r' where stop: "rt_timer_stop (K_thread_timer t) ?k2 = Some (r', k')" and r: "r = RT_EOK"
    using sus st k1(1) by (auto simp: rt_thread_suspend_def bind_Some_iff Let_def)
  note same = rt_timer_stop_same [OF stop] and fr = rt_timer_stop_frame [OF stop]
  show "r = RT_EOK" by (rule r)
  show "sched_wf_except {t} k'"
    using sched_wf_cong [OF same] except_upd_wf [OF k1(2), of t "set_stat RT_THREAD_SUSPEND"] by simp
  show thr: "k_thr k' t = set_stat RT_THREAD_SUSPEND (k_thr k t)" using fr(2) k1(3) by simp
  show "thread_state k' t = RT_THREAD_SUSPEND" by (simp add: thread_state_def thr)
  show "prio_ok (k_thr k' t)" using ok by (simp add: thr)
  have "thread_frame {t} k ?k2"
    using thread_frame_trans [OF conjunct1 [OF remove_thread_frame [OF k1(1)]] thr_upd_frame] by simp
  then show "thread_frame {t} k k'" using fr(1) by (rule thread_frame_trans1)
  show "current_thread k' = current_thread k"
    using fr(3) remove_thread_frame [OF k1(1)] by simp
qed

lemma rt_thread_resume_wf:
  assumes wf: "sched_wf k" and st: "thread_state k t = RT_THREAD_SUSPEND"
    and res: "rt_thread_resume t k = Some (r, k')"
  shows "r = RT_EOK" "sched_wf k'" "thread_state k' t = RT_THREAD_READY" "thread_frame {t} k k'"
    "k_thr k' t = set_stat RT_THREAD_READY (k_thr k t)" "current_thread k' = current_thread k"
    "\<And>h. (\<forall>p. h \<noteq> Ready p) \<Longrightarrow> k_list k' h = filter (\<lambda>x. x \<noteq> t) (k_list k h)"
proof -
  have wf': "sched_wf_except {} k" using wf by (simp add: sched_wf_def)
  have ok: "prio_ok (k_thr k t)" using sched_wf_prio_ok [OF wf', of t] st by simp
  let ?k1 = "tlist_remove t k"
  have wf1: "sched_wf_except {t} ?k1" using tlist_remove_wf [OF wf', of t] st by simp
  obtain r' k2 where stop: "rt_timer_stop (K_thread_timer t) ?k1 = Some (r', k2)"
      and ins: "rt_schedule_insert_thread t k2 = Some k'" and r: "r = RT_EOK"
    using res st by (auto simp: rt_thread_resume_def resume_unlink_def bind_Some_iff Let_def)
  note same = rt_timer_stop_same [OF stop] and fr = rt_timer_stop_frame [OF stop]
  have wf2: "sched_wf_except {t} k2" using sched_wf_cong [OF same] wf1 by simp
  have thr2: "k_thr k2 = k_thr k" using fr(2) by simp
  from insert_thread_wf [OF wf2 _ ok [folded thr2]] ins
  have wf3: "sched_wf_except {} k'" and thr: "k_thr k' = (k_thr k)(t := set_stat RT_THREAD_READY (k_thr k t))"
    using thr2 by (metis empty_iff option.inject)+
  note form = rt_schedule_insert_thread_form [OF ins]
  have L2: "k_list k2 = k_list ?k1" using same by (simp add: sched_same_def)
  show "r = RT_EOK" by (rule r)
  show "sched_wf k'" using wf3 by (simp add: sched_wf_def)
  show "k_thr k' t = set_stat RT_THREAD_READY (k_thr k t)" by (simp add: thr)
  then show "thread_state k' t = RT_THREAD_READY" by (simp add: thread_state_def)
  have "thread_frame {t} k k2" using thread_frame_trans [OF tlist_remove_frame fr(1)] by simp
  then show "thread_frame {t} k k'"
    using insert_thread_frame [OF ins] thread_frame_trans1 by blast
  show "current_thread k' = current_thread k" using fr(3) insert_thread_frame [OF ins] by simp
  show "\<And>h. (\<forall>p. h \<noteq> Ready p) \<Longrightarrow> k_list k' h = filter (\<lambda>x. x \<noteq> t) (k_list k h)"
    using form L2 by simp
qed

lemma sched_wf_perm:
  assumes wf: "sched_wf_except X k" and thr: "k_thr k' = k_thr k"
    and grp: "ready_priority_group k' = ready_priority_group k"
    and L: "\<And>h. set (k_list k' h) = set (k_list k h)" and D: "\<And>h. distinct (k_list k' h)"
  shows "sched_wf_except X k'"
proof -
  have st: "thread_state k' = thread_state k" by (rule ext) (simp add: thread_state_def thr)
  have E: "k_list k' h = [] \<longleftrightarrow> k_list k h = []" for h using L [of h] by (metis set_empty)
  show ?thesis using wf D unfolding sched_wf_except_def st thr grp L E by blast
qed

lemma rotate_wf:
  assumes wf: "sched_wf k" and st: "thread_state k t = RT_THREAD_READY"
  shows "sched_wf (tlist_insert_before (Ready (th_current_priority (k_thr k t))) t (tlist_remove t k))"
proof -
  let ?q = "Ready (th_current_priority (k_thr k t))"
  have wf': "sched_wf_except {} k" using wf by (simp add: sched_wf_def)
  have tq: "t \<in> set (k_list k ?q)" using sched_wf_ready [OF wf', of t] st by simp
  then have notin: "h \<noteq> ?q \<Longrightarrow> t \<notin> set (k_list k h)" for h using sched_wf_unique [OF wf'] by blast
  show ?thesis
    unfolding sched_wf_def
    using sched_wf_distinct [OF wf'] tq notin by (intro sched_wf_perm [OF wf']) (auto simp: tlist_insert_before_def)
qed

lemma rt_thread_yield_cases:
  assumes wf: "sched_wf k" and y: "rt_thread_yield k = Some k'"
  obtains "k' = k" | t k1 where "current_thread k = Some t" "thread_state k t = RT_THREAD_READY"
    "k1 = tlist_insert_before (Ready (th_current_priority (k_thr k t))) t (tlist_remove t k)"
    "sched_wf k1" "rt_schedule k1 = Some k'"
proof -
  obtain t where t: "current_thread k = Some t" using y by (auto simp: rt_thread_yield_def bind_Some_iff)
  show thesis
  proof (cases "thread_state k t = RT_THREAD_READY \<and> length (k_list k (Ready (th_current_priority (k_thr k t)))) \<ge> 2")
    case True
    then have "rt_schedule (tlist_insert_before (Ready (th_current_priority (k_thr k t))) t (tlist_remove t k)) = Some k'"
      using y t by (simp add: rt_thread_yield_def Let_def)
    then show thesis using that(2) [OF t] True rotate_wf [OF wf] by blast
  next
    case False
    then have "k' = k" using y t by (auto simp: rt_thread_yield_def Let_def)
    then show thesis by (rule that(1))
  qed
qed

lemma rt_thread_yield_wf:
  assumes wf: "sched_wf k" and y: "rt_thread_yield k = Some k'"
  shows "sched_wf k'"
  by (cases rule: rt_thread_yield_cases [OF wf y]) (use wf rt_schedule_wf in blast)+

lemma thread_change_priority_wf:
  assumes wf: "sched_wf k" and p: "p < 32" and cp: "thread_change_priority t p k = Some k'"
  shows "sched_wf k'" "thread_frame {t} k k'" "current_thread k' = current_thread k"
    "thread_state k' t = thread_state k t" "th_current_priority (k_thr k' t) = p"
    "\<And>h. (\<forall>q. h \<noteq> Ready q) \<Longrightarrow> k_list k' h = k_list k h"
proof -
  have wf': "sched_wf_except {} k" using wf by (simp add: sched_wf_def)
  have ok: "prio_ok (set_priority p th)" for th using p by (simp add: set_priority_def prio_ok_def)
  have "sched_wf k' \<and> thread_frame {t} k k' \<and> current_thread k' = current_thread k
    \<and> thread_state k' t = thread_state k t \<and> th_current_priority (k_thr k' t) = p
    \<and> (\<forall>h. (\<forall>q. h \<noteq> Ready q) \<longrightarrow> k_list k' h = k_list k h)"
  proof (cases "thread_state k t = RT_THREAD_READY")
    case True
    have pk: "prio_ok (k_thr k t)" using sched_wf_prio_ok [OF wf', of t] True by simp
    obtain k1 where k1: "rt_schedule_remove_thread t k = Some k1" "sched_wf_except {t} k1" "k_thr k1 = k_thr k"
      using remove_thread_wf [OF wf' pk] by auto
    let ?k2 = "thr_upd t (set_priority p) k1"
    have ins: "rt_schedule_insert_thread t ?k2 = Some k'"
      using cp True k1(1) by (simp add: thread_change_priority_def Let_def split: if_splits)
    have wf2: "sched_wf_except {t} ?k2" by (rule except_upd_wf [OF k1(2)]) simp
    have ok2: "prio_ok (k_thr ?k2 t)" by (simp add: ok)
    have wf3: "sched_wf k'" using insert_thread_wf [OF wf2 _ ok2] ins by (metis empty_iff option.inject sched_wf_def)
    have "thread_frame {t} k ?k2"
      using thread_frame_trans [OF conjunct1 [OF remove_thread_frame [OF k1(1)]] thr_upd_frame] by simp
    then have fr: "thread_frame {t} k k'" using insert_thread_frame [OF ins] thread_frame_trans1 by blast
    have cur: "current_thread k' = current_thread k"
      using insert_thread_frame [OF ins] remove_thread_frame [OF k1(1)] by simp
    note form = rt_schedule_insert_thread_form [OF ins]
    have thr: "k_thr k' t = set_stat RT_THREAD_READY (set_priority p (k_thr k t))"
      using k1(3) by (simp add: form)
    have "k_list k' h = k_list k h" if "\<forall>q. h \<noteq> Ready q" for h
    proof -
      have "t \<notin> set (k_list k h)" using sched_wf_state [OF wf', of t h] True that by (auto split: thead.splits)
      then have "filter (\<lambda>x. x \<noteq> t) (k_list k h) = k_list k h" by (metis (mono_tags, lifting) filter_True)
      moreover have "k_list k1 h = filter (\<lambda>x. x \<noteq> t) (k_list k h)"
        by (subst rt_schedule_remove_thread_form [OF k1(1)]) simp
      ultimately show ?thesis using form that by simp
    qed
    then show ?thesis using wf3 fr cur thr True by (simp add: thread_state_def set_priority_def)
  next
    case False
    then have k': "k' = thr_upd t (set_priority p) k"
      using cp by (simp add: thread_change_priority_def split: if_splits)
    have st: "thread_state k' s = thread_state k s" for s
      by (simp add: k' thread_state_def set_priority_def)
    have nr: "t \<notin> set (k_list k (Ready q))" for q using sched_wf_state [OF wf', of t "Ready q"] False by auto
    have "sched_wf_except {} k'"
    proof (rule sched_wf_exceptI)
      show "prio_ok (k_thr k' s)" if "thread_state k' s = 1 \<or> thread_state k' s = 2" for s
        using that sched_wf_prio_ok [OF wf', of s] st ok by (auto simp: k')
    qed (use False nr sched_wf_exceptD [OF wf'] in \<open>auto simp: st, auto simp: k'\<close>)
    then show ?thesis
      using thr_upd_frame [of t k "set_priority p"]
      by (simp add: sched_wf_def k' st [unfolded k']) (simp add: set_priority_def)
  qed
  then show "sched_wf k'" "thread_frame {t} k k'" "current_thread k' = current_thread k"
    "thread_state k' t = thread_state k t" "th_current_priority (k_thr k' t) = p"
    "\<And>h. (\<forall>q. h \<noteq> Ready q) \<Longrightarrow> k_list k' h = k_list k h" by blast+
qed

lemma thr_upd_same:
  "(\<And>th. th_stat (f th) = th_stat th) \<Longrightarrow> (\<And>th. th_current_priority (f th) = th_current_priority th)
   \<Longrightarrow> (\<And>th. th_number_mask (f th) = th_number_mask th) \<Longrightarrow> sched_same k (thr_upd t f k)"
  by (simp add: sched_same_def)

lemma thread_wake_wf:
  assumes wf: "sched_wf k" and st: "thread_state k t = RT_THREAD_SUSPEND"
    and ins: "rt_schedule_insert_thread t (tlist_remove t k) = Some k'"
  shows "sched_wf k'" "thread_state k' t = RT_THREAD_READY" "thread_frame {t} k k'"
    "k_thr k' = (k_thr k)(t := set_stat RT_THREAD_READY (k_thr k t))"
    "current_thread k' = current_thread k" "timer_list k' = timer_list k"
    "timer_check_list k' = timer_check_list k" "k_obj k' = k_obj k" "k_tmr k' = k_tmr k"
proof -
  have wf': "sched_wf_except {} k" using wf by (simp add: sched_wf_def)
  have ok: "prio_ok (k_thr k t)" using sched_wf_prio_ok [OF wf', of t] st by simp
  have wf1: "sched_wf_except {t} (tlist_remove t k)" using tlist_remove_wf [OF wf', of t] st by simp
  from insert_thread_wf [OF wf1, of thesis for thesis] ok ins show wf2: "sched_wf k'"
    by (metis empty_iff option.inject sched_wf_def tlist_remove_simps(2))
  note form = rt_schedule_insert_thread_form [OF ins]
  show "k_thr k' = (k_thr k)(t := set_stat RT_THREAD_READY (k_thr k t))" by (simp add: form)
  then show "thread_state k' t = RT_THREAD_READY" by (simp add: thread_state_def)
  show "thread_frame {t} k k'"
    using thread_frame_trans [OF tlist_remove_frame conjunct1 [OF insert_thread_frame [OF ins]]] by simp
qed (simp_all add: rt_schedule_insert_thread_form [OF ins])

lemma rt_thread_timeout_wf:
  assumes wf: "sched_wf k" and to: "rt_thread_timeout t k = Some k'"
  shows "sched_wf k'" "thread_state k t = RT_THREAD_SUSPEND" "thread_state k' t = RT_THREAD_READY"
    "th_error (k_thr k' t) = - RT_ETIMEOUT" "thread_frame {t} k k'"
    "timer_list k' = timer_list k" "timer_check_list k' = timer_check_list k" "k_obj k' = k_obj k"
    "k_tmr k' = k_tmr k" "k_thr k' t = set_stat RT_THREAD_READY ((k_thr k t)\<lparr>th_error := - RT_ETIMEOUT\<rparr>)"
    "current_thread k \<noteq> None \<Longrightarrow> current_thread k' \<noteq> None"
proof -
  let ?k1 = "thr_upd t (\<lambda>th. th\<lparr>th_error := - RT_ETIMEOUT\<rparr>) k"
  obtain k2 where st: "thread_state k t = RT_THREAD_SUSPEND"
      and ins: "rt_schedule_insert_thread t (tlist_remove t ?k1) = Some k2" and sch: "rt_schedule k2 = Some k'"
    using to by (auto simp: rt_thread_timeout_def bind_Some_iff Let_def)
  have same: "sched_same k ?k1" by (rule thr_upd_same) simp_all
  have wf1: "sched_wf ?k1" using sched_wf_cong [OF same] wf by (simp add: sched_wf_def)
  have st1: "thread_state ?k1 t = RT_THREAD_SUSPEND" using thread_state_same [OF same] st by simp
  note W = thread_wake_wf [OF wf1 st1 ins]
  obtain pr c where k': "k' = k2\<lparr>rt_current_priority := pr, current_thread := c\<rparr>"
    using rt_schedule_form [OF sch] by blast
  show "sched_wf k'" using rt_schedule_wf [OF sch W(1)] .
  show "thread_state k t = RT_THREAD_SUSPEND" by (rule st)
  show "thread_state k' t = RT_THREAD_READY" using thread_state_same [OF rt_schedule_same [OF sch]] W(2) by simp
  show "th_error (k_thr k' t) = - RT_ETIMEOUT" using W(4) by (simp add: k' set_stat_def)
  show "thread_frame {t} k k'"
    using thread_frame_trans1 [OF thr_upd_frame thread_frame_trans1 [OF W(3)
        thread_frame_mono [OF rt_schedule_frame [OF sch] empty_subsetI]]] .
  show "timer_list k' = timer_list k" "timer_check_list k' = timer_check_list k" "k_obj k' = k_obj k"
    "k_tmr k' = k_tmr k" using W(6-9) by (simp_all add: k')
  show "k_thr k' t = set_stat RT_THREAD_READY ((k_thr k t)\<lparr>th_error := - RT_ETIMEOUT\<rparr>)"
    using W(4) by (simp add: k')
  show "current_thread k \<noteq> None \<Longrightarrow> current_thread k' \<noteq> None"
    using rt_schedule_current [OF sch] W(5) by simp
qed

lemma stacks_ok_cong:
  assumes "stacks_ok k" and "\<And>t. th_stack_guard (k_thr k' t) = th_stack_guard (k_thr k t)"
    "\<And>t. th_sp (k_thr k' t) = th_sp (k_thr k t)" "\<And>t. th_stack_addr (k_thr k' t) = th_stack_addr (k_thr k t)"
    "\<And>t. th_stack_size (k_thr k' t) = th_stack_size (k_thr k t)"
    and "\<And>t. thread_state k' t = RT_THREAD_READY \<or> thread_state k' t = RT_THREAD_SUSPEND \<Longrightarrow>
      thread_state k t = RT_THREAD_READY \<or> thread_state k t = RT_THREAD_SUSPEND"
  shows "stacks_ok k'"
  unfolding stacks_ok_def
proof
  fix t
  have "rt_scheduler_stack_check k' t = rt_scheduler_stack_check k t"
    using assms(2-5) [of t] by (simp add: rt_scheduler_stack_check_def)
  then show "rt_scheduler_stack_check k' t = Some ()
      \<or> thread_state k' t \<noteq> RT_THREAD_READY \<and> thread_state k' t \<noteq> RT_THREAD_SUSPEND"
    using assms(1) assms(6) [of t] unfolding stacks_ok_def by metis
qed

lemma rt_thread_timeout_succeeds:
  assumes wf: "sched_wf k" and st: "thread_state k t = RT_THREAD_SUSPEND"
    and ty: "rt_object_get_type k (K_thread t) = RT_Object_Class_Thread" and stk: "stacks_ok k"
  obtains k' where "rt_thread_timeout t k = Some k'"
proof -
  let ?k1 = "thr_upd t (\<lambda>th. th\<lparr>th_error := - RT_ETIMEOUT\<rparr>) k"
  have same: "sched_same k ?k1" by (rule thr_upd_same) simp_all
  have wf1: "sched_wf ?k1" using sched_wf_cong [OF same] wf by (simp add: sched_wf_def)
  have st1: "thread_state ?k1 t = RT_THREAD_SUSPEND" using thread_state_same [OF same] st by simp
  have "prio_ok (k_thr ?k1 t)" using sched_wf_prio_ok [of "{}" ?k1 t] wf1 st1 by (simp add: sched_wf_def)
  then obtain k2 where k2: "rt_schedule_insert_thread t (tlist_remove t ?k1) = Some k2"
    by (simp add: rt_schedule_insert_thread_def Let_def prio_ok_def)
  note W = thread_wake_wf [OF wf1 st1 k2]
  have "stacks_ok k2"
    by (rule stacks_ok_cong [OF stk]) (use W(2) st in \<open>auto simp: W(4) thread_state_def split: if_splits\<close>)
  then obtain k' where k': "rt_schedule k2 = Some k'" using rt_schedule_succeeds [OF W(1) _ W(2)] by blast
  have "rt_thread_timeout t k = Some k'"
    using st ty k2 k' by (simp add: rt_thread_timeout_def Let_def)
  then show thesis by (rule that)
qed

lemma startup_prepare_wf:
  assumes wf: "sched_wf k" and ip: "th_init_priority (k_thr k t) < 32" and st: "thread_state k t = RT_THREAD_INIT"
  defines "f \<equiv> \<lambda>th. th\<lparr>th_current_priority := th_init_priority th,
      th_number_mask := push_bit (th_init_priority th) 1, th_stat := RT_THREAD_SUSPEND\<rparr>"
  shows "sched_wf (thr_upd t f k)" "thread_state (thr_upd t f k) t = RT_THREAD_SUSPEND"
proof -
  have wf': "sched_wf_except {} k" using wf by (simp add: sched_wf_def)
  have notin: "t \<notin> set (k_list k h)" for h
    using sched_wf_state [OF wf', of t h] st by (cases h) auto
  have wf1: "sched_wf_except {t} (thr_upd t f k)"
    using except_upd_wf [OF except_unlinked [OF wf' notin]] by simp
  show s: "thread_state (thr_upd t f k) t = RT_THREAD_SUSPEND" by (simp add: thread_state_def f_def)
  have ok: "prio_ok (k_thr (thr_upd t f k) t)" using ip by (simp add: prio_ok_def f_def)
  show "sched_wf (thr_upd t f k)"
    unfolding sched_wf_def using s ok by (intro unlinked_wf [OF wf1]) simp_all
qed

lemma rt_thread_startup_wf:
  assumes wf: "sched_wf k" and ip: "th_init_priority (k_thr k t) < 32"
    and su: "rt_thread_startup t k = Some k'"
  shows "sched_wf k'" "thread_state k' t = RT_THREAD_READY"
proof -
  let ?f = "\<lambda>th. th\<lparr>th_current_priority := th_init_priority th,
      th_number_mask := push_bit (th_init_priority th) 1, th_stat := RT_THREAD_SUSPEND\<rparr>"
  obtain r k2 where st: "thread_state k t = RT_THREAD_INIT" and res: "rt_thread_resume t (thr_upd t ?f k) = Some (r, k2)"
      and k': "k' = k2 \<or> rt_schedule k2 = Some k'"
    using su by (auto simp: rt_thread_startup_def startup_prepare_def bind_Some_iff Let_def split: if_splits)
  note R = rt_thread_resume_wf [OF startup_prepare_wf [OF wf ip st] res]
  show "sched_wf k'" using k' R(2) rt_schedule_wf by blast
  show "thread_state k' t = RT_THREAD_READY"
    using k' R(3) thread_state_same [OF rt_schedule_same, of k2 k' t] by auto
qed

text \<open>Closing a thread. A cleanup function is assumed not to touch the scheduler's data.\<close>

lemma thread_close_wf:
  assumes wf: "sched_wf_except {t} k"
  shows "sched_wf (tlist_insert_after Defunct t (thr_upd t (\<lambda>th. th\<lparr>th_stat := RT_THREAD_CLOSE\<rparr>) k))"
    "sched_wf (thr_upd t (\<lambda>th. th\<lparr>th_stat := RT_THREAD_CLOSE\<rparr>) k)"
proof -
  let ?k1 = "thr_upd t (\<lambda>th. th\<lparr>th_stat := RT_THREAD_CLOSE\<rparr>) k"
  have wf1: "sched_wf_except {t} ?k1" by (rule except_upd_wf [OF wf]) simp
  have st: "thread_state ?k1 t = RT_THREAD_CLOSE" by (simp add: thread_state_def)
  show "sched_wf ?k1" unfolding sched_wf_def using st by (intro unlinked_wf [OF wf1]) auto
  have notin: "t \<notin> set (k_list k g)" for g using sched_wf_not_X [OF wf] by blast
  show "sched_wf (tlist_insert_after Defunct t ?k1)"
    unfolding sched_wf_def
  proof (rule insert_list_wf [OF wf1, where h = Defunct])
    show "distinct (k_list (tlist_insert_after Defunct t ?k1) g)" for g
      using sched_wf_distinct [OF wf] notin by simp
  qed (use st in \<open>auto simp: tlist_insert_after_def thread_state_def\<close>)
qed

lemma rt_timer_detach_is_same:
  "rt_timer_detach p k = Some k' \<Longrightarrow> sched_wf_except X k' = sched_wf_except X k"
  by (rule sched_wf_cong [OF rt_timer_detach_same])

lemma rt_object_detach_is_same: "sched_wf_except X (rt_object_detach p k) = sched_wf_except X k"
  by (rule sched_wf_cong [OF rt_object_detach_same])

lemma rt_timer_detach_frame:
  "rt_timer_detach p k = Some k' \<Longrightarrow> k_thr k' = k_thr k"
  by (auto simp: rt_timer_detach_def rt_object_detach_def object_unlink_def Let_def)

lemma rt_thread_exit_wf:
  assumes wf: "sched_wf k" and cur: "current_thread k = Some t" and st: "thread_state k t = RT_THREAD_READY"
    and cl: "th_cleanup (k_thr k t) = None" and ex: "rt_thread_exit uf k = Some k'"
  shows "sched_wf k'" "thread_state k' t = RT_THREAD_CLOSE"
proof -
  let ?close = "\<lambda>th. th\<lparr>th_stat := RT_THREAD_CLOSE\<rparr>"
  have wf': "sched_wf_except {} k" using wf by (simp add: sched_wf_def)
  have ok: "prio_ok (k_thr k t)" using sched_wf_prio_ok [OF wf', of t] st by simp
  obtain k2 where k2: "rt_schedule_remove_thread t k = Some k2" "sched_wf_except {t} k2" "k_thr k2 = k_thr k"
    using remove_thread_wf [OF wf' ok] by auto
  let ?k3 = "thr_upd t ?close k2"
  obtain k4 k5 where k4: "rt_timer_detach (K_thread_timer t) ?k3 = Some k4"
      and k5: "k5 = rt_object_detach (K_thread t) k4 \<or> k5 = tlist_insert_after Defunct t k4"
      and sch: "rt_schedule k5 = Some k'"
    using ex cur cl k2(1)
    by (auto simp: rt_thread_exit_def thread_cleanup_execute_def bind_Some_iff Let_def split: if_splits)
  have same: "sched_same ?k3 k4" by (rule rt_timer_detach_same [OF k4])
  have thr4: "k_thr k4 = (k_thr k2)(t := ?close (k_thr k2 t))" using rt_timer_detach_frame [OF k4] by simp
  have st4: "thread_state k4 t = RT_THREAD_CLOSE" by (simp add: thread_state_def thr4)
  have wf4: "sched_wf_except {t} k4"
    using sched_wf_cong [OF same] except_upd_wf [OF k2(2), of t ?close] by simp
  have thr_id: "thr_upd t ?close k4 = k4"
    by (simp add: thr_upd_def thr4 fun_upd_idem)
  note close = thread_close_wf [OF wf4, unfolded thr_id]
  have wf5: "sched_wf k5" using k5 close rt_object_detach_is_same [of "{}" "K_thread t" k4]
    by (auto simp: sched_wf_def)
  show "sched_wf k'" using rt_schedule_wf [OF sch wf5] .
  have "thread_state k5 t = RT_THREAD_CLOSE"
    using k5 st4 by (auto simp: thread_state_def rt_object_detach_def object_unlink_def)
  then show "thread_state k' t = RT_THREAD_CLOSE"
    using thread_state_same [OF rt_schedule_same [OF sch]] by simp
qed

end
