(* ===== verification/Clock.thy ===== *)
theory Clock
  imports Thread
begin

text \<open>
  The clock (\<^verbatim>\<open>os/clock.c\<close>), the timer check that runs in the tick interrupt (\<^verbatim>\<open>os/timer.c\<close>), the
  interrupt nesting counter (\<^verbatim>\<open>os/irq.c\<close>), the idle thread (\<^verbatim>\<open>os/idle.c\<close>) and the error number
  (\<^verbatim>\<open>os/kservice.c\<close>).
\<close>

section \<open>Definitions\<close>

definition rt_tick_get :: "kstate \<Rightarrow> u32" where
  "rt_tick_get k = rt_tick k"

definition rt_tick_set :: "u32 \<Rightarrow> kstate \<Rightarrow> kstate" where
  "rt_tick_set tick k = k\<lparr>rt_tick := tick\<rparr>"

definition run_timeout_func :: "user_fun \<Rightarrow> timeout_func \<Rightarrow> kstate \<Rightarrow> kstate option" where
  "run_timeout_func uf f k =
     (case f of Thread_timeout t \<Rightarrow> rt_thread_timeout t k | User_timeout n \<Rightarrow> uf (CB_timer n) k)"

text \<open>The body of the loop of \<^verbatim>\<open>rt_timer_check\<close> for the first timer \<open>p\<close>, which is due.\<close>

definition timer_fire :: "user_fun \<Rightarrow> kptr \<Rightarrow> kstate \<Rightarrow> kstate option" where
  "timer_fire uf p k = do {
     let k1 = rt_timer_remove p k;
     let k2 = (if timer_periodic k1 p then k1 else timer_flag_clear RT_TIMER_FLAG_ACTIVATED p k1);
     let k3 = k2\<lparr>timer_check_list := p # timer_check_list k2\<rparr>;
     k4 \<leftarrow> run_timeout_func uf (tm_timeout_func (k_tmr k3 p)) k3;
     if timer_check_list k4 = [] then Some k4
     else do {
       let k5 = rt_timer_remove p k4;
       if timer_periodic k5 p \<and> timer_active k5 p
       then rt_timer_start p (timer_flag_clear RT_TIMER_FLAG_ACTIVATED p k5)
       else Some k5
     }
   }"

definition timer_due :: "u32 \<Rightarrow> kstate \<Rightarrow> kptr \<Rightarrow> bool" where
  "timer_due now k p \<longleftrightarrow> now - tm_timeout_tick (k_tmr k p) < RT_TICK_HALF"

text \<open>The loop re-reads \<^verbatim>\<open>rt_tick\<close> after every callback. It need not end: a periodic timer with
  period 0 is due again as soon as it is restarted.\<close>

partial_function (option) timer_check_loop :: "user_fun \<Rightarrow> u32 \<Rightarrow> kstate \<Rightarrow> kstate option" where
  "timer_check_loop uf current_tick k =
     (case timer_list k of
        [] \<Rightarrow> Some k
      | p # _ \<Rightarrow>
          if timer_due current_tick k p
          then do { k' \<leftarrow> timer_fire uf p k; timer_check_loop uf (rt_tick k') k' }
          else Some k)"

definition rt_timer_check :: "user_fun \<Rightarrow> kstate \<Rightarrow> kstate option" where
  "rt_timer_check uf k = timer_check_loop uf (rt_tick_get k) (k\<lparr>timer_check_list := []\<rparr>)"

text \<open>\<^verbatim>\<open>rt_tick_increase\<close>: the tick and the time slice of the running thread, then the timer check.\<close>

definition tick_slice :: "kstate \<Rightarrow> kstate option" where
  "tick_slice k = do {
     let k1 = k\<lparr>rt_tick := rt_tick k + 1\<rparr>;
     t \<leftarrow> rt_thread_self k1;
     let k2 = thr_upd t (\<lambda>th. th\<lparr>th_remaining_tick := th_remaining_tick th - 1\<rparr>) k1;
     if th_remaining_tick (k_thr k2 t) = 0
     then rt_thread_yield (thr_upd t (\<lambda>th. th\<lparr>th_remaining_tick := th_init_tick th\<rparr>) k2)
     else Some k2
   }"

definition rt_tick_increase :: "user_fun \<Rightarrow> kstate \<Rightarrow> kstate option" where
  "rt_tick_increase uf k = do { k1 \<leftarrow> tick_slice k; rt_timer_check uf k1 }"

text \<open>The argument is a signed 32-bit integer, the result an unsigned one.\<close>

definition rt_tick_from_millisecond :: "int \<Rightarrow> u32" where
  "rt_tick_from_millisecond ms =
     (if ms < 0 then - 1
      else word_of_int (1000 * (ms div 1000)) + word_of_int ((1000 * (ms mod 1000) + 999) div 1000))"

definition rt_thread_mdelay :: "int \<Rightarrow> kstate \<Rightarrow> (wait_result \<times> kstate) option" where
  "rt_thread_mdelay ms k = rt_thread_sleep (rt_tick_from_millisecond ms) k"

text \<open>The nesting counter is an unsigned byte.\<close>

definition rt_interrupt_enter :: "kstate \<Rightarrow> kstate" where
  "rt_interrupt_enter k = k\<lparr>interrupt_nest := (interrupt_nest k + 1) mod 256\<rparr>"

definition rt_interrupt_leave :: "kstate \<Rightarrow> kstate" where
  "rt_interrupt_leave k = k\<lparr>interrupt_nest := (interrupt_nest k + 255) mod 256\<rparr>"

definition rt_interrupt_get_nest :: "kstate \<Rightarrow> nat" where
  "rt_interrupt_get_nest k = interrupt_nest k"

definition rt_get_errno :: "kstate \<Rightarrow> int" where
  "rt_get_errno k =
     (if rt_interrupt_get_nest k \<noteq> 0 then rt_errno k
      else case rt_thread_self k of None \<Rightarrow> rt_errno k | Some t \<Rightarrow> th_error (k_thr k t))"

definition rt_set_errno :: "int \<Rightarrow> kstate \<Rightarrow> kstate" where
  "rt_set_errno e k =
     (if rt_interrupt_get_nest k \<noteq> 0 then k\<lparr>rt_errno := e\<rparr>
      else case rt_thread_self k of None \<Rightarrow> k\<lparr>rt_errno := e\<rparr>
           | Some t \<Rightarrow> thr_upd t (\<lambda>th. th\<lparr>th_error := e\<rparr>) k)"

section \<open>Definitions: the idle thread\<close>

fun hook_replace :: "nat option \<Rightarrow> nat option \<Rightarrow> nat option list \<Rightarrow> nat option list option" where
  "hook_replace old new [] = None"
| "hook_replace old new (x # xs) =
     (if x = old then Some (new # xs) else map_option (\<lambda>ys. x # ys) (hook_replace old new xs))"

definition rt_thread_idle_sethook :: "nat option \<Rightarrow> kstate \<Rightarrow> int \<times> kstate" where
  "rt_thread_idle_sethook hook k =
     (case hook_replace None hook (idle_hook_list k) of
        None \<Rightarrow> (- RT_EFULL, k) | Some hs \<Rightarrow> (RT_EOK, k\<lparr>idle_hook_list := hs\<rparr>))"

definition rt_thread_idle_delhook :: "nat option \<Rightarrow> kstate \<Rightarrow> int \<times> kstate" where
  "rt_thread_idle_delhook hook k =
     (case hook_replace hook None (idle_hook_list k) of
        None \<Rightarrow> (- RT_ENOSYS, k) | Some hs \<Rightarrow> (RT_EOK, k\<lparr>idle_hook_list := hs\<rparr>))"

definition has_defunct_thread :: "kstate \<Rightarrow> bool" where
  "has_defunct_thread k \<longleftrightarrow> k_list k Defunct \<noteq> []"

text \<open>One round of the loop of \<^verbatim>\<open>rt_thread_idle_excute\<close>, and the loop.\<close>

definition idle_reap :: "tid \<Rightarrow> kstate \<Rightarrow> kstate option" where
  "idle_reap t k = do {
     let k1 = tlist_remove t k;
     k2 \<leftarrow> k_free (if th_stack_addr (k_thr k1 t) = 0 then None else Some (th_stack_addr (k_thr k1 t))) k1;
     rt_object_delete (K_thread t) k2
   }"

partial_function (option) idle_loop :: "kstate \<Rightarrow> kstate option" where
  "idle_loop k =
     (case k_list k Defunct of
        [] \<Rightarrow> Some k
      | t # _ \<Rightarrow> do { k' \<leftarrow> idle_reap t k; idle_loop k' })"

definition rt_thread_idle_excute :: "kstate \<Rightarrow> kstate option" where
  "rt_thread_idle_excute k = do { not_in_interrupt k; idle_loop k }"

text \<open>One round of \<^verbatim>\<open>rt_thread_idle_entry\<close>: the hooks in order, then the defunct threads.\<close>

fun run_hooks :: "user_fun \<Rightarrow> nat list \<Rightarrow> kstate \<Rightarrow> kstate option" where
  "run_hooks uf [] k = Some k"
| "run_hooks uf (i # is) k = do {
     h \<leftarrow> arr_get (idle_hook_list k) i;
     k' \<leftarrow> (case h of None \<Rightarrow> Some k | Some n \<Rightarrow> uf (CB_idle n) k);
     run_hooks uf is k'
   }"

definition rt_thread_idle_round :: "user_fun \<Rightarrow> kstate \<Rightarrow> kstate option" where
  "rt_thread_idle_round uf k = do { k1 \<leftarrow> run_hooks uf [0..<4] k; rt_thread_idle_excute k1 }"

text \<open>\<open>idle\<close> and \<open>stack\<close> are the addresses of the static variables of \<^verbatim>\<open>idle.c\<close>.\<close>

definition rt_thread_idle_init :: "tid \<Rightarrow> nat \<Rightarrow> nat \<Rightarrow> kstate \<Rightarrow> kstate option" where
  "rt_thread_idle_init idle stack entry k = do {
     k1 \<leftarrow> rt_thread_init idle [116, 105, 100, 108, 101] entry 0 stack 1024 (RT_THREAD_PRIORITY_MAX - 1) 32 k;
     rt_thread_startup idle k1
   }"

end
