(* ===== verification/Ipc.thy ===== *)
theory Ipc
  imports Clock
begin

text \<open>
  The waiting queues shared by all inter-process communication objects, and the semaphore
  (\<^verbatim>\<open>os/ipc.c\<close>). A waiting queue is the list of the threads suspended on the object, in the order
  of arrival (\<^verbatim>\<open>RT_IPC_FLAG_FIFO\<close>) or of priority (\<^verbatim>\<open>RT_IPC_FLAG_PRIO\<close>).
\<close>

section \<open>Definitions: waiting queues\<close>

text \<open>\<^verbatim>\<open>rt_list_init\<close> of a waiting queue.\<close>

definition rt_ipc_object_init :: "thead \<Rightarrow> kstate \<Rightarrow> kstate" where
  "rt_ipc_object_init h k = k\<lparr>k_list := (k_list k)(h := [])\<rparr>"

fun prio_insert :: "(tid \<Rightarrow> nat) \<Rightarrow> tid \<Rightarrow> tid list \<Rightarrow> tid list" where
  "prio_insert pr t [] = [t]"
| "prio_insert pr t (s # ss) = (if pr t < pr s then t # s # ss else s # prio_insert pr t ss)"

definition rt_ipc_list_suspend :: "thead \<Rightarrow> tid \<Rightarrow> u8 \<Rightarrow> kstate \<Rightarrow> kstate option" where
  "rt_ipc_list_suspend h t flag k = do {
     (_, k1) \<leftarrow> rt_thread_suspend t k;
     Some (if flag = 0 then tlist_insert_before h t k1
           else if flag = RT_IPC_FLAG_PRIO then
             k1\<lparr>k_list := (k_list k1)
                  (h := prio_insert (\<lambda>x. th_current_priority (k_thr k1 x)) t (k_list k1 h))\<rparr>
           else k1)
   }"

definition rt_ipc_list_resume :: "thead \<Rightarrow> kstate \<Rightarrow> kstate option" where
  "rt_ipc_list_resume h k = do {
     t \<leftarrow> list_first (k_list k h);
     (_, k1) \<leftarrow> rt_thread_resume t k;
     Some k1
   }"

partial_function (option) rt_ipc_list_resume_all :: "thead \<Rightarrow> kstate \<Rightarrow> kstate option" where
  "rt_ipc_list_resume_all h k =
     (case k_list k h of
        [] \<Rightarrow> Some k
      | t # _ \<Rightarrow> do {
          (_, k1) \<leftarrow> rt_thread_resume t (thr_upd t (\<lambda>th. th\<lparr>th_error := - RT_ERROR\<rparr>) k);
          rt_ipc_list_resume_all h k1
        })"

text \<open>The common part of the waiting calls: suspend the thread on the queue, arm its timer when the
  timeout is positive, and run the scheduler.\<close>

definition ipc_wait :: "thead \<Rightarrow> tid \<Rightarrow> u8 \<Rightarrow> int \<Rightarrow> kstate \<Rightarrow> kstate option" where
  "ipc_wait h t flag time k = do {
     k1 \<leftarrow> rt_ipc_list_suspend h t flag k;
     k2 \<leftarrow> (if time > 0 then do {
              (_, k') \<leftarrow> rt_timer_control (K_thread_timer t) (RT_TIMER_CTRL_SET_TIME (word_of_int time)) k1;
              rt_timer_start (K_thread_timer t) k'
            } else Some k1);
     rt_schedule k2
   }"

definition thread_set_error :: "tid \<Rightarrow> int \<Rightarrow> kstate \<Rightarrow> kstate" where
  "thread_set_error t e k = thr_upd t (\<lambda>th. th\<lparr>th_error := e\<rparr>) k"

text \<open>The flag of a kernel object, and setting it.\<close>

definition set_flag :: "kptr \<Rightarrow> u8 \<Rightarrow> kstate \<Rightarrow> kstate" where
  "set_flag p flag k = obj_upd p (\<lambda>ob. ob\<lparr>o_flag := flag\<rparr>) k"

section \<open>Definitions: the semaphore\<close>

abbreviation (input) RT_SEM_VALUE_MAX :: nat where "RT_SEM_VALUE_MAX \<equiv> 0xffff"

definition sem_set :: "nat \<Rightarrow> nat \<Rightarrow> kstate \<Rightarrow> kstate" where
  "sem_set s v k = k\<lparr>k_sem := (k_sem k)(s := (k_sem k s)\<lparr>sem_value := v\<rparr>)\<rparr>"

definition rt_sem_init :: "nat \<Rightarrow> u8 list \<Rightarrow> nat \<Rightarrow> u8 \<Rightarrow> kstate \<Rightarrow> kstate option" where
  "rt_sem_init s name v flag k = do {
     rt_assert (v < 0x10000);
     k1 \<leftarrow> rt_object_init (K_sem s) RT_Object_Class_Semaphore name k;
     Some (set_flag (K_sem s) flag (sem_set s v (rt_ipc_object_init (Sem_q s) k1)))
   }"

definition rt_sem_detach :: "nat \<Rightarrow> kstate \<Rightarrow> kstate option" where
  "rt_sem_detach s k = do {
     rt_assert (rt_object_get_type k (K_sem s) = RT_Object_Class_Semaphore);
     rt_assert (rt_object_is_systemobject k (K_sem s));
     k1 \<leftarrow> rt_ipc_list_resume_all (Sem_q s) k;
     Some (rt_object_detach (K_sem s) k1)
   }"

definition rt_sem_create :: "u8 list \<Rightarrow> nat \<Rightarrow> u8 \<Rightarrow> kstate \<Rightarrow> (nat option \<times> kstate) option" where
  "rt_sem_create name v flag k = do {
     not_in_interrupt k;
     rt_assert (v < 0x10000);
     (r, k1) \<leftarrow> rt_object_allocate RT_Object_Class_Semaphore name k;
     case r of
       None \<Rightarrow> Some (None, k1)
     | Some s \<Rightarrow> Some (Some s, set_flag (K_sem s) flag (sem_set s v (rt_ipc_object_init (Sem_q s) k1)))
   }"

definition rt_sem_delete :: "nat \<Rightarrow> kstate \<Rightarrow> kstate option" where
  "rt_sem_delete s k = do {
     not_in_interrupt k;
     rt_assert (rt_object_get_type k (K_sem s) = RT_Object_Class_Semaphore);
     rt_assert (\<not> rt_object_is_systemobject k (K_sem s));
     k1 \<leftarrow> rt_ipc_list_resume_all (Sem_q s) k;
     rt_object_delete (K_sem s) k1
   }"

definition rt_sem_take :: "nat \<Rightarrow> int \<Rightarrow> kstate \<Rightarrow> (wait_result \<times> kstate) option" where
  "rt_sem_take s time k = do {
     rt_assert (rt_object_get_type k (K_sem s) = RT_Object_Class_Semaphore);
     if sem_value (k_sem k s) > 0 then Some (Return RT_EOK, sem_set s (sem_value (k_sem k s) - 1) k)
     else if time = 0 then Some (Return (- RT_ETIMEOUT), k)
     else do {
       in_thread_context k;
       t \<leftarrow> rt_thread_self k;
       let k1 = thread_set_error t RT_EOK k;
       k2 \<leftarrow> ipc_wait (Sem_q s) t (o_flag (k_obj k1 (K_sem s))) time k1;
       Some (Wait C_sem_take, k2)
     }
   }"

definition rt_sem_take_cont :: "tid \<Rightarrow> kstate \<Rightarrow> int" where
  "rt_sem_take_cont t k = (if th_error (k_thr k t) \<noteq> RT_EOK then th_error (k_thr k t) else RT_EOK)"

definition rt_sem_trytake :: "nat \<Rightarrow> kstate \<Rightarrow> (wait_result \<times> kstate) option" where
  "rt_sem_trytake s k = rt_sem_take s 0 k"

definition rt_sem_release :: "nat \<Rightarrow> kstate \<Rightarrow> (int \<times> kstate) option" where
  "rt_sem_release s k = do {
     rt_assert (rt_object_get_type k (K_sem s) = RT_Object_Class_Semaphore);
     if k_list k (Sem_q s) \<noteq> [] then do {
       k1 \<leftarrow> rt_ipc_list_resume (Sem_q s) k;
       k2 \<leftarrow> rt_schedule k1;
       Some (RT_EOK, k2)
     }
     else if sem_value (k_sem k s) < RT_SEM_VALUE_MAX
     then Some (RT_EOK, sem_set s (sem_value (k_sem k s) + 1) k)
     else Some (- RT_EFULL, k)
   }"

text \<open>The commands of the control functions: \<^verbatim>\<open>RT_IPC_CMD_RESET\<close> with its argument, or another.\<close>

datatype ipc_cmd = RT_IPC_CMD_RESET nat | RT_IPC_CMD_UNKNOWN

definition rt_sem_control :: "nat \<Rightarrow> ipc_cmd \<Rightarrow> kstate \<Rightarrow> (int \<times> kstate) option" where
  "rt_sem_control s cmd k = do {
     rt_assert (rt_object_get_type k (K_sem s) = RT_Object_Class_Semaphore);
     case cmd of
       RT_IPC_CMD_RESET v \<Rightarrow> do {
         k1 \<leftarrow> rt_ipc_list_resume_all (Sem_q s) k;
         k2 \<leftarrow> rt_schedule (sem_set s (v mod 2 ^ 16) k1);
         Some (RT_EOK, k2)
       }
     | RT_IPC_CMD_UNKNOWN \<Rightarrow> Some (- RT_ERROR, k)
   }"

text \<open>The heads of waiting queues, and two states that differ only in data the scheduler and the timers
  do not read: the values of the IPC objects, and the error and event fields of the threads.\<close>

fun waiting_queue :: "thead \<Rightarrow> bool" where
  "waiting_queue (Ready _) = False" | "waiting_queue Defunct = False" | "waiting_queue _ = True"

definition data_only :: "kstate \<Rightarrow> kstate \<Rightarrow> bool" where
  "data_only k k' \<longleftrightarrow> sched_same k k' \<and> timer_list k' = timer_list k \<and> k_obj k' = k_obj k
     \<and> k_tmr k' = k_tmr k \<and> rt_tick k' = rt_tick k \<and> current_thread k' = current_thread k
     \<and> scheduler_lock_nest k' = scheduler_lock_nest k"

section \<open>Waiting queues\<close>

lemma head_state_waiting: "waiting_queue h \<Longrightarrow> head_state h = RT_THREAD_SUSPEND"
  by (cases h) simp_all

lemma waiting_not_ready: "waiting_queue h \<Longrightarrow> h \<noteq> Ready p \<and> h \<noteq> Defunct"
  by (cases h) simp_all

lemma set_prio_insert [simp]: "set (prio_insert pr t ss) = insert t (set ss)"
  by (induction pr t ss rule: prio_insert.induct) auto

lemma distinct_prio_insert [simp]: "distinct (prio_insert pr t ss) \<longleftrightarrow> distinct ss \<and> t \<notin> set ss"
  by (induction pr t ss rule: prio_insert.induct) auto

lemma sorted_prio_insert:
  "sorted_wrt (\<lambda>a b. pr a \<le> (pr b :: nat)) ss \<Longrightarrow> sorted_wrt (\<lambda>a b. pr a \<le> pr b) (prio_insert pr t ss)"
  by (induction pr t ss rule: prio_insert.induct) auto

text \<open>The new thread stands behind the threads of the same priority.\<close>

lemma prio_insert_split:
  "sorted_wrt (\<lambda>a b. pr a \<le> (pr b :: nat)) ss \<Longrightarrow>
   prio_insert pr t ss = filter (\<lambda>s. pr s \<le> pr t) ss @ t # filter (\<lambda>s. pr t < pr s) ss"
proof (induction pr t ss rule: prio_insert.induct)
  case (2 pr t s ss)
  show ?case
  proof (cases "pr t < pr s")
    case True
    then have "\<forall>x \<in> set ss. pr t < pr x" using 2(2) by (auto intro: less_le_trans)
    then have "filter (\<lambda>s. pr s \<le> pr t) ss = []" "filter (\<lambda>s. pr t < pr s) ss = ss"
      by (auto simp: filter_empty_conv intro!: filter_True)
    with True show ?thesis by simp
  next
    case False
    with 2 show ?thesis by simp
  qed
qed simp

lemma rt_ipc_list_suspend_wf:
  assumes wf: "sched_wf k" and st: "thread_state k t = RT_THREAD_READY" and h: "waiting_queue h"
    and sus: "rt_ipc_list_suspend h t flag k = Some k'"
  shows "sched_wf k'" "thread_state k' t = RT_THREAD_SUSPEND" "thread_frame {t} k k'"
    "current_thread k' = current_thread k"
proof -
  obtain r k1 where k1: "rt_thread_suspend t k = Some (r, k1)"
    and k': "k' = tlist_insert_before h t k1
      \<or> k' = k1\<lparr>k_list := (k_list k1)(h := prio_insert (\<lambda>x. th_current_priority (k_thr k1 x)) t (k_list k1 h))\<rparr>
      \<or> k' = k1"
    using sus by (auto simp: rt_ipc_list_suspend_def bind_Some_iff split: if_splits)
  note S = rt_thread_suspend_wf [OF wf st k1]
  have notin: "t \<notin> set (k_list k1 g)" for g using sched_wf_not_X [OF S(2)] by blast
  have thr: "k_thr k' = k_thr k1" and cur: "current_thread k' = current_thread k1"
    and grp: "ready_priority_group k' = ready_priority_group k1"
    using k' by (auto simp: tlist_insert_before_def)
  show st': "thread_state k' t = RT_THREAD_SUSPEND" using S(3) by (simp add: thread_state_def thr)
  show "current_thread k' = current_thread k" using cur S(7) by simp
  have "thread_frame {t} k1 k'" using k' by (auto simp: thread_frame_def tlist_insert_before_def)
  with S(6) show "thread_frame {t} k k'" by (rule thread_frame_trans1)
  show "sched_wf k'"
  proof (cases "k' = k1")
    case True
    show ?thesis unfolding sched_wf_def True using S(3,4) by (intro unlinked_wf [OF S(2)]) auto
  next
    case False
    with k' have L: "set (k_list k' g) = (if g = h then insert t (set (k_list k1 g)) else set (k_list k1 g))"
      and D: "distinct (k_list k' g)" for g
      using notin sched_wf_distinct [OF S(2)] by (auto simp: tlist_insert_before_def)
    show ?thesis
      unfolding sched_wf_def
      using st' head_state_waiting [OF h] waiting_not_ready [OF h] S(4) grp thr
      by (intro insert_list_wf [OF S(2) _ L D]) auto
  qed
qed

lemma ipc_wait_wf:
  assumes wf: "sched_wf k" and st: "thread_state k t = RT_THREAD_READY" and h: "waiting_queue h"
    and w: "ipc_wait h t flag time k = Some k'"
  shows "sched_wf k'"
proof -
  obtain k1 k2 where k1: "rt_ipc_list_suspend h t flag k = Some k1"
    and k2: "k2 = k1 \<or> (\<exists>r k3. rt_timer_control (K_thread_timer t) (RT_TIMER_CTRL_SET_TIME (word_of_int time)) k1
        = Some (r, k3) \<and> rt_timer_start (K_thread_timer t) k3 = Some k2)"
    and sch: "rt_schedule k2 = Some k'"
    using w by (auto simp: ipc_wait_def bind_Some_iff split: if_splits)
  have "sched_same k1 k2"
    using k2 rt_timer_control_same rt_timer_start_same sched_same_trans by fastforce
  then have "sched_wf k2"
    using sched_wf_cong rt_ipc_list_suspend_wf(1) [OF wf st h k1] by (simp add: sched_wf_def)
  then show ?thesis by (rule rt_schedule_wf [OF sch])
qed

end
