(* ===== verification/Mutex.thy ===== *)
theory Mutex
  imports Ipc
begin

text \<open>
  The mutex (\<^verbatim>\<open>os/ipc.c\<close>): recursive, with an owner, and with priority inheritance: a thread that
  waits raises the owner to its own priority, and the last release restores the owner's original one.
\<close>

section \<open>Definitions\<close>

abbreviation (input) RT_MUTEX_HOLD_MAX :: nat where "RT_MUTEX_HOLD_MAX \<equiv> 0xff"
abbreviation (input) RT_MUTEX_VALUE_MAX :: nat where "RT_MUTEX_VALUE_MAX \<equiv> 0xffff"

definition mutex_upd :: "nat \<Rightarrow> (rt_mutex \<Rightarrow> rt_mutex) \<Rightarrow> kstate \<Rightarrow> kstate" where
  "mutex_upd m f k = k\<lparr>k_mutex := (k_mutex k)(m := f (k_mutex k m))\<rparr>"

definition mutex_fields_init :: "nat \<Rightarrow> u8 \<Rightarrow> kstate \<Rightarrow> kstate" where
  "mutex_fields_init m flag k =
     set_flag (K_mutex m) flag
       (mutex_upd m (\<lambda>x. x\<lparr>mutex_value := 1, mutex_owner := None, mutex_original_priority := 0xff,
                           mutex_hold := 0\<rparr>) (rt_ipc_object_init (Mutex_q m) k))"

definition rt_mutex_init :: "nat \<Rightarrow> u8 list \<Rightarrow> u8 \<Rightarrow> kstate \<Rightarrow> kstate option" where
  "rt_mutex_init m name flag k = do {
     k1 \<leftarrow> rt_object_init (K_mutex m) RT_Object_Class_Mutex name k;
     Some (mutex_fields_init m flag k1)
   }"

definition rt_mutex_detach :: "nat \<Rightarrow> kstate \<Rightarrow> kstate option" where
  "rt_mutex_detach m k = do {
     rt_assert (rt_object_get_type k (K_mutex m) = RT_Object_Class_Mutex);
     rt_assert (rt_object_is_systemobject k (K_mutex m));
     k1 \<leftarrow> rt_ipc_list_resume_all (Mutex_q m) k;
     Some (rt_object_detach (K_mutex m) k1)
   }"

definition rt_mutex_create :: "u8 list \<Rightarrow> u8 \<Rightarrow> kstate \<Rightarrow> (nat option \<times> kstate) option" where
  "rt_mutex_create name flag k = do {
     not_in_interrupt k;
     (r, k1) \<leftarrow> rt_object_allocate RT_Object_Class_Mutex name k;
     case r of
       None \<Rightarrow> Some (None, k1)
     | Some m \<Rightarrow> Some (Some m, mutex_fields_init m flag k1)
   }"

definition rt_mutex_delete :: "nat \<Rightarrow> kstate \<Rightarrow> kstate option" where
  "rt_mutex_delete m k = do {
     not_in_interrupt k;
     rt_assert (rt_object_get_type k (K_mutex m) = RT_Object_Class_Mutex);
     rt_assert (\<not> rt_object_is_systemobject k (K_mutex m));
     k1 \<leftarrow> rt_ipc_list_resume_all (Mutex_q m) k;
     rt_object_delete (K_mutex m) k1
   }"

definition rt_mutex_take :: "nat \<Rightarrow> int \<Rightarrow> kstate \<Rightarrow> (wait_result \<times> kstate) option" where
  "rt_mutex_take m time k = do {
     in_thread_context k;
     rt_assert (rt_object_get_type k (K_mutex m) = RT_Object_Class_Mutex);
     t \<leftarrow> rt_thread_self k;
     let k1 = thread_set_error t RT_EOK k;
     let mx = k_mutex k1 m;
     if mutex_owner mx = Some t then
       if mutex_hold mx < RT_MUTEX_HOLD_MAX
       then Some (Return RT_EOK, mutex_upd m (\<lambda>x. x\<lparr>mutex_hold := mutex_hold x + 1\<rparr>) k1)
       else Some (Return (- RT_EFULL), k1)
     else if mutex_value mx > 0 then
       let k2 = mutex_upd m (\<lambda>x. x\<lparr>mutex_value := mutex_value x - 1, mutex_owner := Some t,
                   mutex_original_priority := th_current_priority (k_thr k1 t)\<rparr>) k1 in
       if mutex_hold mx < RT_MUTEX_HOLD_MAX
       then Some (Return RT_EOK, mutex_upd m (\<lambda>x. x\<lparr>mutex_hold := mutex_hold x + 1\<rparr>) k2)
       else Some (Return (- RT_EFULL), k2)
     else if time = 0 then Some (Return (- RT_ETIMEOUT), thread_set_error t (- RT_ETIMEOUT) k1)
     else do {
       ow \<leftarrow> mutex_owner mx;
       k2 \<leftarrow> (if th_current_priority (k_thr k1 t) < th_current_priority (k_thr k1 ow)
              then thread_change_priority ow (th_current_priority (k_thr k1 t)) k1 else Some k1);
       k3 \<leftarrow> ipc_wait (Mutex_q m) t (o_flag (k_obj k2 (K_mutex m))) time k2;
       Some (Wait C_mutex_take, k3)
     }
   }"

definition rt_mutex_take_cont :: "tid \<Rightarrow> kstate \<Rightarrow> int" where
  "rt_mutex_take_cont t k = (if th_error (k_thr k t) \<noteq> RT_EOK then th_error (k_thr k t) else RT_EOK)"

text \<open>The end of the last release: the mutex goes to the first waiting thread, or becomes free.\<close>

definition mutex_hand_on :: "nat \<Rightarrow> kstate \<Rightarrow> (int \<times> kstate) option" where
  "mutex_hand_on m k2 =
     (case k_list k2 (Mutex_q m) of
       t' # _ \<Rightarrow> do {
         let k3 = mutex_upd m (\<lambda>x. x\<lparr>mutex_owner := Some t',
                      mutex_original_priority := th_current_priority (k_thr k2 t')\<rparr>) k2;
         if mutex_hold (k_mutex k3 m) < RT_MUTEX_HOLD_MAX then do {
           let k4 = mutex_upd m (\<lambda>x. x\<lparr>mutex_hold := mutex_hold x + 1\<rparr>) k3;
           k5 \<leftarrow> rt_ipc_list_resume (Mutex_q m) k4;
           k6 \<leftarrow> rt_schedule k5;
           Some (RT_EOK, k6)
         }
         else Some (- RT_EFULL, k3)
       }
     | [] \<Rightarrow>
         if mutex_value (k_mutex k2 m) < RT_MUTEX_VALUE_MAX
         then Some (RT_EOK, mutex_upd m (\<lambda>x. x\<lparr>mutex_value := mutex_value x + 1,
                      mutex_owner := None, mutex_original_priority := 0xff\<rparr>) k2)
         else Some (- RT_EFULL, k2))"

definition rt_mutex_release :: "nat \<Rightarrow> kstate \<Rightarrow> (int \<times> kstate) option" where
  "rt_mutex_release m k = do {
     rt_assert (rt_object_get_type k (K_mutex m) = RT_Object_Class_Mutex);
     in_thread_context k;
     t \<leftarrow> rt_thread_self k;
     if mutex_owner (k_mutex k m) \<noteq> Some t then Some (- RT_ERROR, thread_set_error t (- RT_ERROR) k)
     else do {
       let k1 = mutex_upd m (\<lambda>x. x\<lparr>mutex_hold := (mutex_hold x + 255) mod 256\<rparr>) k;
       if mutex_hold (k_mutex k1 m) = 0 then do {
         k2 \<leftarrow> (if mutex_original_priority (k_mutex k1 m) \<noteq> th_current_priority (k_thr k1 t)
                then thread_change_priority t (mutex_original_priority (k_mutex k1 m)) k1 else Some k1);
         mutex_hand_on m k2
       }
       else Some (RT_EOK, k1)
     }
   }"

definition rt_mutex_control :: "nat \<Rightarrow> ipc_cmd \<Rightarrow> kstate \<Rightarrow> (int \<times> kstate) option" where
  "rt_mutex_control m cmd k = do {
     rt_assert (rt_object_get_type k (K_mutex m) = RT_Object_Class_Mutex);
     Some (- RT_ERROR, k)
   }"

end
