(* ===== verification/Event.thy ===== *)
theory Event
  imports Ipc
begin

text \<open>
  The event set (\<^verbatim>\<open>os/ipc.c\<close>): 32 event bits; a thread waits for all (\<^verbatim>\<open>RT_EVENT_FLAG_AND\<close>) or any
  (\<^verbatim>\<open>RT_EVENT_FLAG_OR\<close>) of a set of bits, and may clear the bits it received.
\<close>

section \<open>Definitions\<close>

definition event_put :: "nat \<Rightarrow> u32 \<Rightarrow> kstate \<Rightarrow> kstate" where
  "event_put e v k = k\<lparr>k_event := (k_event k)(e := (k_event k e)\<lparr>event_set := v\<rparr>)\<rparr>"

definition rt_event_init :: "nat \<Rightarrow> u8 list \<Rightarrow> u8 \<Rightarrow> kstate \<Rightarrow> kstate option" where
  "rt_event_init e name flag k = do {
     k1 \<leftarrow> rt_object_init (K_event e) RT_Object_Class_Event name k;
     Some (event_put e 0 (rt_ipc_object_init (Event_q e) (set_flag (K_event e) flag k1)))
   }"

definition rt_event_detach :: "nat \<Rightarrow> kstate \<Rightarrow> kstate option" where
  "rt_event_detach e k = do {
     rt_assert (rt_object_get_type k (K_event e) = RT_Object_Class_Event);
     rt_assert (rt_object_is_systemobject k (K_event e));
     k1 \<leftarrow> rt_ipc_list_resume_all (Event_q e) k;
     Some (rt_object_detach (K_event e) k1)
   }"

definition rt_event_create :: "u8 list \<Rightarrow> u8 \<Rightarrow> kstate \<Rightarrow> (nat option \<times> kstate) option" where
  "rt_event_create name flag k = do {
     not_in_interrupt k;
     (r, k1) \<leftarrow> rt_object_allocate RT_Object_Class_Event name k;
     case r of
       None \<Rightarrow> Some (None, k1)
     | Some e \<Rightarrow>
         Some (Some e, event_put e 0 (rt_ipc_object_init (Event_q e) (set_flag (K_event e) flag k1)))
   }"

definition rt_event_delete :: "nat \<Rightarrow> kstate \<Rightarrow> kstate option" where
  "rt_event_delete e k = do {
     rt_assert (rt_object_get_type k (K_event e) = RT_Object_Class_Event);
     rt_assert (\<not> rt_object_is_systemobject k (K_event e));
     not_in_interrupt k;
     k1 \<leftarrow> rt_ipc_list_resume_all (Event_q e) k;
     rt_object_delete (K_event e) k1
   }"

text \<open>The loop of \<^verbatim>\<open>rt_event_send\<close> over the waiting threads. The successor is read before a thread is
  resumed, and only that thread leaves the queue, so the loop runs over the queue as it was at the
  start. \<open>need\<close> is \<^verbatim>\<open>need_schedule\<close>; the first component of the result is the error of the early
  return.\<close>

fun event_send_loop ::
    "nat \<Rightarrow> tid list \<Rightarrow> bool \<Rightarrow> kstate \<Rightarrow> (int option \<times> bool \<times> kstate) option" where
  "event_send_loop e [] need k = Some (None, need, k)"
| "event_send_loop e (t # ts) need k =
     (let th = k_thr k t; es = event_set (k_event k e);
          wake = (\<lambda>k1. do {
            let k2 = (if th_event_info (k_thr k1 t) AND RT_EVENT_FLAG_CLEAR \<noteq> 0
                      then event_put e (es AND NOT (th_event_set (k_thr k1 t))) k1 else k1);
            (_, k3) \<leftarrow> rt_thread_resume t k2;
            event_send_loop e ts True k3
          }) in
      if th_event_info th AND RT_EVENT_FLAG_AND \<noteq> 0 then
        if th_event_set th AND es = th_event_set th then wake k else event_send_loop e ts need k
      else if th_event_info th AND RT_EVENT_FLAG_OR \<noteq> 0 then
        if th_event_set th AND es \<noteq> 0
        then wake (thr_upd t (\<lambda>x. x\<lparr>th_event_set := th_event_set x AND es\<rparr>) k)
        else event_send_loop e ts need k
      else Some (Some (- RT_EINVAL), need, k))"

definition rt_event_send :: "nat \<Rightarrow> u32 \<Rightarrow> kstate \<Rightarrow> (int \<times> kstate) option" where
  "rt_event_send e evs k = do {
     rt_assert (rt_object_get_type k (K_event e) = RT_Object_Class_Event);
     if evs = 0 then Some (- RT_ERROR, k)
     else do {
       let k1 = event_put e (event_set (k_event k e) OR evs) k;
       (err, need, k2) \<leftarrow> event_send_loop e (k_list k1 (Event_q e)) False k1;
       case err of
         Some r \<Rightarrow> Some (r, k2)
       | None \<Rightarrow> do {
           k3 \<leftarrow> (if need then rt_schedule k2 else Some k2);
           Some (RT_EOK, k3)
         }
     }
   }"

text \<open>The second component of the result is the value stored through \<^verbatim>\<open>recved\<close> (when the caller
  passes a pointer).\<close>

definition rt_event_recv ::
    "nat \<Rightarrow> u32 \<Rightarrow> u8 \<Rightarrow> int \<Rightarrow> kstate \<Rightarrow> (wait_result \<times> u32 option \<times> kstate) option" where
  "rt_event_recv e evs opt timeout k = do {
     in_thread_context k;
     rt_assert (rt_object_get_type k (K_event e) = RT_Object_Class_Event);
     if evs = 0 then Some (Return (- RT_ERROR), None, k)
     else do {
       t \<leftarrow> rt_thread_self k;
       let k1 = thread_set_error t RT_EOK k;
       let es = event_set (k_event k1 e);
       ok \<leftarrow> (if opt AND RT_EVENT_FLAG_AND \<noteq> 0 then Some (es AND evs = evs)
              else if opt AND RT_EVENT_FLAG_OR \<noteq> 0 then Some (es AND evs \<noteq> 0)
              else None);
       if ok then do {
         let k2 = thr_upd t (\<lambda>x. x\<lparr>th_event_set := es AND evs, th_event_info := opt\<rparr>) k1;
         let k3 = (if opt AND RT_EVENT_FLAG_CLEAR \<noteq> 0 then event_put e (es AND NOT evs) k2 else k2);
         Some (Return (th_error (k_thr k3 t)), Some (es AND evs), k3)
       }
       else if timeout = 0 then Some (Return (- RT_ETIMEOUT), None, thread_set_error t (- RT_ETIMEOUT) k1)
       else do {
         let k2 = thr_upd t (\<lambda>x. x\<lparr>th_event_set := evs, th_event_info := opt\<rparr>) k1;
         k3 \<leftarrow> ipc_wait (Event_q e) t (o_flag (k_obj k2 (K_event e))) timeout k2;
         Some (Wait C_event_recv, None, k3)
       }
     }
   }"

definition rt_event_recv_cont :: "tid \<Rightarrow> kstate \<Rightarrow> int \<times> u32 option" where
  "rt_event_recv_cont t k =
     (if th_error (k_thr k t) \<noteq> RT_EOK then (th_error (k_thr k t), None)
      else (th_error (k_thr k t), Some (th_event_set (k_thr k t))))"

definition rt_event_control :: "nat \<Rightarrow> ipc_cmd \<Rightarrow> kstate \<Rightarrow> (int \<times> kstate) option" where
  "rt_event_control e cmd k = do {
     rt_assert (rt_object_get_type k (K_event e) = RT_Object_Class_Event);
     case cmd of
       RT_IPC_CMD_RESET _ \<Rightarrow> do {
         k1 \<leftarrow> rt_ipc_list_resume_all (Event_q e) k;
         k2 \<leftarrow> rt_schedule (event_put e 0 k1);
         Some (RT_EOK, k2)
       }
     | RT_IPC_CMD_UNKNOWN \<Rightarrow> Some (- RT_ERROR, k)
   }"

end
