(* ===== verification/Mailbox.thy ===== *)
theory Mailbox
  imports Ipc Fifo
begin

text \<open>
  The mailbox (\<^verbatim>\<open>os/ipc.c\<close>): a ring of 32-bit mails with two waiting queues, the receivers (the
  queue of the IPC object) and the senders. A waiting call may be woken and find the mailbox full
  (empty) again, so its loop is continued by \<open>rt_mb_send_cont\<close> (\<open>rt_mb_recv_cont\<close>) with the
  remaining timeout and the tick at which the wait began.
\<close>

section \<open>Definitions\<close>

abbreviation (input) RT_MB_ENTRY_MAX :: nat where "RT_MB_ENTRY_MAX \<equiv> 0xffff"

definition mb_upd :: "nat \<Rightarrow> (rt_mailbox \<Rightarrow> rt_mailbox) \<Rightarrow> kstate \<Rightarrow> kstate" where
  "mb_upd m f k = k\<lparr>k_mb := (k_mb k)(m := f (k_mb k m))\<rparr>"

text \<open>The bytes at an address of the heap, read as little-endian words.\<close>

definition heap_word :: "rt_heap \<Rightarrow> nat \<Rightarrow> u32" where
  "heap_word h a =
     (let b = (\<lambda>i. of_nat (unat (heap_bytes h (a - heap_ptr h + i))) :: u32) in
      b 0 OR push_bit 8 (b 1) OR push_bit 16 (b 2) OR push_bit 24 (b 3))"

definition rt_mb_init ::
    "nat \<Rightarrow> u8 list \<Rightarrow> nat \<Rightarrow> u32 list \<Rightarrow> nat \<Rightarrow> u8 \<Rightarrow> kstate \<Rightarrow> kstate option" where
  "rt_mb_init m name pool_addr msgpool sz flag k = do {
     k1 \<leftarrow> rt_object_init (K_mb m) RT_Object_Class_MailBox name k;
     let k2 = rt_ipc_object_init (Mb_q m) (set_flag (K_mb m) flag k1);
     let k3 = mb_upd m (\<lambda>_. \<lparr>mb_pool_addr = pool_addr, mb_msg_pool = msgpool, mb_size = sz mod 2 ^ 16,
                            mb_entry = 0, mb_in_offset = 0, mb_out_offset = 0\<rparr>) k2;
     Some (rt_ipc_object_init (Mb_send_q m) k3)
   }"

definition rt_mb_detach :: "nat \<Rightarrow> kstate \<Rightarrow> kstate option" where
  "rt_mb_detach m k = do {
     rt_assert (rt_object_get_type k (K_mb m) = RT_Object_Class_MailBox);
     rt_assert (rt_object_is_systemobject k (K_mb m));
     k1 \<leftarrow> rt_ipc_list_resume_all (Mb_q m) k;
     k2 \<leftarrow> rt_ipc_list_resume_all (Mb_send_q m) k1;
     Some (rt_object_detach (K_mb m) k2)
   }"

definition rt_mb_create :: "u8 list \<Rightarrow> nat \<Rightarrow> u8 \<Rightarrow> kstate \<Rightarrow> (nat option \<times> kstate) option" where
  "rt_mb_create name sz flag k = do {
     not_in_interrupt k;
     (r, k1) \<leftarrow> rt_object_allocate RT_Object_Class_MailBox name k;
     case r of
       None \<Rightarrow> Some (None, k1)
     | Some m \<Rightarrow> do {
         let n = sz mod 2 ^ 16;
         let k2 = rt_ipc_object_init (Mb_q m) (set_flag (K_mb m) flag k1);
         (p, k3) \<leftarrow> k_malloc (n * 4) (mb_upd m (\<lambda>x. x\<lparr>mb_size := n\<rparr>) k2);
         case p of
           None \<Rightarrow> do { k4 \<leftarrow> rt_object_delete (K_mb m) k3; Some (None, k4) }
         | Some a \<Rightarrow> do {
             let pool = map (\<lambda>i. heap_word (k_heap k3) (a + 4 * i)) [0..<n];
             let k4 = mb_upd m (\<lambda>x. x\<lparr>mb_pool_addr := a, mb_msg_pool := pool, mb_entry := 0,
                                      mb_in_offset := 0, mb_out_offset := 0\<rparr>) k3;
             Some (Some m, rt_ipc_object_init (Mb_send_q m) k4)
           }
       }
   }"

definition rt_mb_delete :: "nat \<Rightarrow> kstate \<Rightarrow> kstate option" where
  "rt_mb_delete m k = do {
     not_in_interrupt k;
     rt_assert (rt_object_get_type k (K_mb m) = RT_Object_Class_MailBox);
     rt_assert (\<not> rt_object_is_systemobject k (K_mb m));
     k1 \<leftarrow> rt_ipc_list_resume_all (Mb_q m) k;
     k2 \<leftarrow> rt_ipc_list_resume_all (Mb_send_q m) k1;
     k3 \<leftarrow> k_free (if mb_pool_addr (k_mb k2 m) = 0 then None else Some (mb_pool_addr (k_mb k2 m))) k2;
     rt_object_delete (K_mb m) k3
   }"

text \<open>Writing and reading the ring.\<close>

definition mb_store :: "u32 \<Rightarrow> rt_mailbox \<Rightarrow> (bool \<times> rt_mailbox) option" where
  "mb_store v mb = do {
     pool \<leftarrow> arr_set (mb_msg_pool mb) (mb_in_offset mb) v;
     let i = (mb_in_offset mb + 1) mod 2 ^ 16;
     let mb1 = mb\<lparr>mb_msg_pool := pool, mb_in_offset := (if i \<ge> mb_size mb then 0 else i)\<rparr>;
     Some (if mb_entry mb1 < RT_MB_ENTRY_MAX then (True, mb1\<lparr>mb_entry := mb_entry mb1 + 1\<rparr>)
           else (False, mb1))
   }"

definition mb_fetch :: "rt_mailbox \<Rightarrow> (u32 \<times> rt_mailbox) option" where
  "mb_fetch mb = do {
     v \<leftarrow> arr_get (mb_msg_pool mb) (mb_out_offset mb);
     let i = (mb_out_offset mb + 1) mod 2 ^ 16;
     let mb1 = mb\<lparr>mb_out_offset := (if i \<ge> mb_size mb then 0 else i)\<rparr>;
     Some (v, if mb_entry mb1 > 0 then mb1\<lparr>mb_entry := mb_entry mb1 - 1\<rparr> else mb1)
   }"

text \<open>Resume the first thread of a waiting queue, if there is one, and reschedule.\<close>

definition wake_first :: "thead \<Rightarrow> kstate \<Rightarrow> kstate option" where
  "wake_first h k =
     (if k_list k h \<noteq> [] then do { k1 \<leftarrow> rt_ipc_list_resume h k; rt_schedule k1 } else Some k)"

text \<open>The loop of \<^verbatim>\<open>rt_mb_send_wait\<close> from its test on, and what follows it. \<open>th\<close> is the local
  variable \<^verbatim>\<open>thread\<close>.\<close>

definition mb_send_loop ::
    "tid option \<Rightarrow> nat \<Rightarrow> u32 \<Rightarrow> int \<Rightarrow> kstate \<Rightarrow> (wait_result \<times> kstate) option" where
  "mb_send_loop th m v timeout k =
     (if mb_entry (k_mb k m) = mb_size (k_mb k m) then do {
        t \<leftarrow> th;
        let k1 = thread_set_error t RT_EOK k;
        if timeout = 0 then Some (Return (- RT_EFULL), k1)
        else do {
          in_thread_context k1;
          k2 \<leftarrow> ipc_wait (Mb_send_q m) t (o_flag (k_obj k1 (K_mb m))) timeout k1;
          Some (Wait (C_mb_send m v timeout (rt_tick k1)), k2)
        }
      }
      else do {
        (ok, mb) \<leftarrow> mb_store v (k_mb k m);
        let k1 = mb_upd m (\<lambda>_. mb) k;
        if ok then do { k2 \<leftarrow> wake_first (Mb_q m) k1; Some (Return RT_EOK, k2) }
        else Some (Return (- RT_EFULL), k1)
      })"

definition rt_mb_send_wait :: "nat \<Rightarrow> u32 \<Rightarrow> int \<Rightarrow> kstate \<Rightarrow> (wait_result \<times> kstate) option" where
  "rt_mb_send_wait m v timeout k = do {
     rt_assert (rt_object_get_type k (K_mb m) = RT_Object_Class_MailBox);
     if mb_entry (k_mb k m) = mb_size (k_mb k m) \<and> timeout = 0 then Some (Return (- RT_EFULL), k)
     else mb_send_loop (rt_thread_self k) m v timeout k
   }"

text \<open>The timeout that is left after a wait that began at tick \<open>start\<close>: \<^verbatim>\<open>timeout -= tick_delta\<close> on a
  signed 32-bit integer.\<close>

definition timeout_left :: "int \<Rightarrow> u32 \<Rightarrow> u32 \<Rightarrow> int" where
  "timeout_left timeout start now =
     (if timeout > 0 then
        let r = sint (word_of_int timeout - (now - start) :: u32) in if r < 0 then 0 else r
      else timeout)"

definition rt_mb_send_cont ::
    "tid \<Rightarrow> nat \<Rightarrow> u32 \<Rightarrow> int \<Rightarrow> u32 \<Rightarrow> kstate \<Rightarrow> (wait_result \<times> kstate) option" where
  "rt_mb_send_cont t m v timeout start k =
     (if th_error (k_thr k t) \<noteq> RT_EOK then Some (Return (th_error (k_thr k t)), k)
      else mb_send_loop (Some t) m v (timeout_left timeout start (rt_tick k)) k)"

definition rt_mb_send :: "nat \<Rightarrow> u32 \<Rightarrow> kstate \<Rightarrow> (wait_result \<times> kstate) option" where
  "rt_mb_send m v k = rt_mb_send_wait m v 0 k"

text \<open>Receiving; the second component of the result is what is stored through \<^verbatim>\<open>value\<close>.\<close>

definition mb_recv_loop ::
    "tid option \<Rightarrow> nat \<Rightarrow> int \<Rightarrow> kstate \<Rightarrow> (wait_result \<times> u32 option \<times> kstate) option" where
  "mb_recv_loop th m timeout k =
     (if mb_entry (k_mb k m) = 0 then do {
        t \<leftarrow> th;
        let k1 = thread_set_error t RT_EOK k;
        if timeout = 0
        then Some (Return (- RT_ETIMEOUT), None, thread_set_error t (- RT_ETIMEOUT) k1)
        else do {
          in_thread_context k1;
          k2 \<leftarrow> ipc_wait (Mb_q m) t (o_flag (k_obj k1 (K_mb m))) timeout k1;
          Some (Wait (C_mb_recv m timeout (rt_tick k1)), None, k2)
        }
      }
      else do {
        (v, mb) \<leftarrow> mb_fetch (k_mb k m);
        k2 \<leftarrow> wake_first (Mb_send_q m) (mb_upd m (\<lambda>_. mb) k);
        Some (Return RT_EOK, Some v, k2)
      })"

definition rt_mb_recv :: "nat \<Rightarrow> int \<Rightarrow> kstate \<Rightarrow> (wait_result \<times> u32 option \<times> kstate) option" where
  "rt_mb_recv m timeout k = do {
     rt_assert (rt_object_get_type k (K_mb m) = RT_Object_Class_MailBox);
     if mb_entry (k_mb k m) = 0 \<and> timeout = 0 then Some (Return (- RT_ETIMEOUT), None, k)
     else mb_recv_loop (rt_thread_self k) m timeout k
   }"

definition rt_mb_recv_cont ::
    "tid \<Rightarrow> nat \<Rightarrow> int \<Rightarrow> u32 \<Rightarrow> kstate \<Rightarrow> (wait_result \<times> u32 option \<times> kstate) option" where
  "rt_mb_recv_cont t m timeout start k =
     (if th_error (k_thr k t) \<noteq> RT_EOK then Some (Return (th_error (k_thr k t)), None, k)
      else mb_recv_loop (Some t) m (timeout_left timeout start (rt_tick k)) k)"

definition rt_mb_control :: "nat \<Rightarrow> ipc_cmd \<Rightarrow> kstate \<Rightarrow> (int \<times> kstate) option" where
  "rt_mb_control m cmd k = do {
     rt_assert (rt_object_get_type k (K_mb m) = RT_Object_Class_MailBox);
     case cmd of
       RT_IPC_CMD_RESET _ \<Rightarrow> do {
         k1 \<leftarrow> rt_ipc_list_resume_all (Mb_q m) k;
         k2 \<leftarrow> rt_ipc_list_resume_all (Mb_send_q m) k1;
         k3 \<leftarrow> rt_schedule
           (mb_upd m (\<lambda>x. x\<lparr>mb_entry := 0, mb_in_offset := 0, mb_out_offset := 0\<rparr>) k2);
         Some (RT_EOK, k3)
       }
     | RT_IPC_CMD_UNKNOWN \<Rightarrow> Some (- RT_ERROR, k)
   }"

text \<open>The mails in the order in which they will be received; the two halves of the ring as one bounded queue.\<close>

definition mb_inv :: "rt_mailbox \<Rightarrow> bool" where
  "mb_inv mb \<longleftrightarrow> 0 < mb_size mb \<and> mb_size mb < 2 ^ 16 \<and> length (mb_msg_pool mb) = mb_size mb
     \<and> mb_entry mb \<le> mb_size mb \<and> mb_out_offset mb < mb_size mb
     \<and> mb_in_offset mb = (mb_out_offset mb + mb_entry mb) mod mb_size mb"

definition mb_contents :: "rt_mailbox \<Rightarrow> u32 list" where
  "mb_contents mb = map (\<lambda>i. mb_msg_pool mb ! ((mb_out_offset mb + i) mod mb_size mb)) [0..<mb_entry mb]"

definition mb_put :: "rt_mailbox \<Rightarrow> u32 \<Rightarrow> rt_mailbox option" where
  "mb_put mb v = (if mb_entry mb = mb_size mb then None else map_option snd (mb_store v mb))"

definition mb_get :: "rt_mailbox \<Rightarrow> (u32 \<times> rt_mailbox) option" where
  "mb_get mb = (if mb_entry mb = 0 then None else mb_fetch mb)"

section \<open>The ring is a bounded queue\<close>

lemma length_mb_contents [simp]: "length (mb_contents mb) = mb_entry mb"
  by (simp add: mb_contents_def)

lemma ring_next:
  assumes "0 < n" "o1 < n" "n < 2 ^ 16"
  shows "(let i = (o1 + 1) mod 2 ^ 16 in if i \<ge> n then 0 else i) = (o1 + 1) mod (n :: nat)"
proof -
  have "(o1 + 1) mod 2 ^ 16 = o1 + 1" using assms by simp
  moreover have "(o1 + 1) mod n = (if o1 + 1 \<ge> n then 0 else o1 + 1)" using assms by (cases "o1 + 1 = n") simp_all
  ultimately show ?thesis by (simp add: Let_def)
qed

lemma ring_distinct: "i < e \<Longrightarrow> e < n \<Longrightarrow> (p + i) mod n \<noteq> (p + e) mod (n :: nat)"
proof
  assume i: "i < e" "e < n" and eq: "(p + i) mod n = (p + e) mod n"
  then have "n dvd (p + e) - (p + i)" using mod_eq_dvd_iff_nat [of "p + i" "p + e" n] by simp
  then show False using i by (auto dest!: dvd_imp_le)
qed

lemma mb_store_room:
  assumes inv: "mb_inv mb" and room: "mb_entry mb < mb_size mb"
  shows "\<exists>mb'. mb_store v mb = Some (True, mb') \<and> mb_inv mb' \<and> mb_contents mb' = mb_contents mb @ [v]
    \<and> mb_size mb' = mb_size mb"
proof -
  let ?n = "mb_size mb" and ?e = "mb_entry mb" and ?i = "mb_in_offset mb" and ?o = "mb_out_offset mb"
  define mb' where "mb' = mb\<lparr>mb_msg_pool := (mb_msg_pool mb)[?i := v], mb_in_offset := (?i + 1) mod ?n, mb_entry := ?e + 1\<rparr>"
  have n: "0 < ?n" "?n < 2 ^ 16" "length (mb_msg_pool mb) = ?n" "?i < ?n" "?i = (?o + ?e) mod ?n" "?o < ?n"
    using inv by (simp_all add: mb_inv_def)
  have "mb_store v mb = Some (True, mb')"
    using n room ring_next [OF n(1,4,2)] by (simp add: mb_store_def arr_set_def mb'_def Let_def)
  moreover have "mb_inv mb'"
    using n room inv by (simp add: mb'_def mb_inv_def mod_Suc_eq)
  moreover have "mb_contents mb' = mb_contents mb @ [v]"
  proof -
    have "(mb_msg_pool mb)[?i := v] ! ((?o + j) mod ?n) = mb_msg_pool mb ! ((?o + j) mod ?n)" if "j < ?e" for j
      using ring_distinct [OF that room, of ?o] n(5) by (simp add: nth_list_update)
    then show ?thesis using n by (simp add: mb_contents_def mb'_def)
  qed
  ultimately show ?thesis by (auto simp: mb'_def)
qed

lemma mb_fetch_some:
  assumes inv: "mb_inv mb" and c: "mb_contents mb = v # vs"
  shows "\<exists>mb'. mb_fetch mb = Some (v, mb') \<and> mb_inv mb' \<and> mb_contents mb' = vs \<and> mb_size mb' = mb_size mb"
proof -
  let ?n = "mb_size mb" and ?e = "mb_entry mb" and ?o = "mb_out_offset mb"
  define mb' where "mb' = mb\<lparr>mb_out_offset := (?o + 1) mod ?n, mb_entry := ?e - 1\<rparr>"
  have n: "0 < ?n" "?n < 2 ^ 16" "length (mb_msg_pool mb) = ?n" "?o < ?n" using inv by (simp_all add: mb_inv_def)
  have e: "0 < ?e" using c length_mb_contents [of mb] by simp
  have split: "[0..<?e] = 0 # map Suc [0..<?e - 1]" using e by (simp add: map_Suc_upt upt_conv_Cons)
  have v: "v = mb_msg_pool mb ! ?o" and vs: "vs = map (\<lambda>i. mb_msg_pool mb ! ((?o + Suc i) mod ?n)) [0..<?e - 1]"
    using c n(4) unfolding mb_contents_def split by (auto simp: o_def)
  have "mb_fetch mb = Some (v, mb')"
    using n e v ring_next [OF n(1,4,2)] by (simp add: mb_fetch_def arr_get_def mb'_def Let_def)
  moreover have "((?o + 1) mod ?n + (?e - 1)) mod ?n = (?o + ?e) mod ?n"
    using e by (cases "?e") (simp_all add: mod_add_left_eq)
  then have "mb_inv mb'" using n e inv by (auto simp: mb'_def mb_inv_def)
  moreover have "mb_contents mb' = vs" by (simp add: mb_contents_def mb'_def vs mod_add_left_eq)
  ultimately show ?thesis by (auto simp: mb'_def)
qed

interpretation mb: bounded_fifo mb_inv "\<lambda>_. True" mb_contents mb_size mb_put mb_get
proof
  fix s :: rt_mailbox and x :: u32 and xs :: "u32 list"
  assume inv: "mb_inv s"
  show "length (mb_contents s) < mb_size s \<Longrightarrow> \<exists>s'. mb_put s x = Some s' \<and> mb_inv s'
      \<and> mb_contents s' = mb_contents s @ [x] \<and> mb_size s' = mb_size s"
    using mb_store_room [OF inv, of x] by (auto simp: mb_put_def)
  show "length (mb_contents s) = mb_size s \<Longrightarrow> mb_put s x = None" by (simp add: mb_put_def)
  show "mb_contents s = x # xs \<Longrightarrow> \<exists>s'. mb_get s = Some (x, s') \<and> mb_inv s' \<and> mb_contents s' = xs \<and> mb_size s' = mb_size s"
    using mb_fetch_some [OF inv] length_mb_contents [of s] by (auto simp: mb_get_def)
  show "mb_contents s = [] \<Longrightarrow> mb_get s = None" using length_mb_contents [of s] by (simp add: mb_get_def)
  show "length (mb_contents s) \<le> mb_size s" using inv by (simp add: mb_inv_def)
qed

end
