(* ===== verification/MsgQueue.thy ===== *)
theory MsgQueue
  imports Mailbox
begin

text \<open>
  The message queue (\<^verbatim>\<open>os/ipc.c\<close>): messages of bounded size in blocks of a pool. The blocks are
  linked by pointers (\<open>mq_next\<close>) into the queue of messages and the list of free blocks. The copy of
  the message bytes, which the code does with interrupts enabled, is part of the same step.
\<close>

section \<open>Definitions\<close>

abbreviation (input) RT_MQ_ENTRY_MAX :: nat where "RT_MQ_ENTRY_MAX \<equiv> 0xffff"

definition mq_upd :: "nat \<Rightarrow> (rt_messagequeue \<Rightarrow> rt_messagequeue) \<Rightarrow> kstate \<Rightarrow> kstate" where
  "mq_upd q f k = k\<lparr>k_mq := (k_mq k)(q := f (k_mq k q))\<rparr>"

text \<open>The loop that links the first \<open>n\<close> blocks into the free list.\<close>

fun mq_link_free :: "nat \<Rightarrow> rt_messagequeue \<Rightarrow> rt_messagequeue" where
  "mq_link_free 0 mq = mq"
| "mq_link_free (Suc n) mq =
     (let mq1 = mq_link_free n mq in
      mq1\<lparr>mq_next := (mq_next mq1)(n := mq_free mq1), mq_free := Some n\<rparr>)"

definition mq_lists_init :: "rt_messagequeue \<Rightarrow> rt_messagequeue" where
  "mq_lists_init mq =
     (mq_link_free (mq_max_msgs mq) (mq\<lparr>mq_head := None, mq_tail := None, mq_free := None\<rparr>))
       \<lparr>mq_entry := 0\<rparr>"

definition rt_mq_init ::
    "nat \<Rightarrow> u8 list \<Rightarrow> nat \<Rightarrow> nat \<Rightarrow> nat \<Rightarrow> u8 \<Rightarrow> kstate \<Rightarrow> kstate option" where
  "rt_mq_init q name msgpool msg_size pool_size flag k = do {
     k1 \<leftarrow> rt_object_init (K_mq q) RT_Object_Class_MessageQueue name k;
     let k2 = rt_ipc_object_init (Mq_q q) (set_flag (K_mq q) flag k1);
     let ms = align_up4 msg_size mod 2 ^ 16;
     let k3 = mq_upd q (\<lambda>mq. mq_lists_init (mq\<lparr>mq_pool_addr := msgpool, mq_msg_size := ms,
                           mq_max_msgs := (pool_size div (ms + 4)) mod 2 ^ 16\<rparr>)) k2;
     Some (rt_ipc_object_init (Mq_send_q q) k3)
   }"

definition rt_mq_detach :: "nat \<Rightarrow> kstate \<Rightarrow> kstate option" where
  "rt_mq_detach q k = do {
     rt_assert (rt_object_get_type k (K_mq q) = RT_Object_Class_MessageQueue);
     rt_assert (rt_object_is_systemobject k (K_mq q));
     k1 \<leftarrow> rt_ipc_list_resume_all (Mq_q q) k;
     k2 \<leftarrow> rt_ipc_list_resume_all (Mq_send_q q) k1;
     Some (rt_object_detach (K_mq q) k2)
   }"

definition rt_mq_create :: "u8 list \<Rightarrow> nat \<Rightarrow> nat \<Rightarrow> u8 \<Rightarrow> kstate \<Rightarrow> (nat option \<times> kstate) option" where
  "rt_mq_create name msg_size max_msgs flag k = do {
     not_in_interrupt k;
     (r, k1) \<leftarrow> rt_object_allocate RT_Object_Class_MessageQueue name k;
     case r of
       None \<Rightarrow> Some (None, k1)
     | Some q \<Rightarrow> do {
         let k2 = rt_ipc_object_init (Mq_q q) (set_flag (K_mq q) flag k1);
         let ms = align_up4 msg_size mod 2 ^ 16;
         let n = max_msgs mod 2 ^ 16;
         (p, k3) \<leftarrow> k_malloc (((ms + 4) * n) mod 2 ^ 32)
                     (mq_upd q (\<lambda>mq. mq\<lparr>mq_msg_size := ms, mq_max_msgs := n\<rparr>) k2);
         case p of
           None \<Rightarrow> do { k4 \<leftarrow> rt_object_delete (K_mq q) k3; Some (None, k4) }
         | Some a \<Rightarrow>
             Some (Some q, rt_ipc_object_init (Mq_send_q q)
                     (mq_upd q (\<lambda>mq. mq_lists_init (mq\<lparr>mq_pool_addr := a\<rparr>)) k3))
       }
   }"

definition rt_mq_delete :: "nat \<Rightarrow> kstate \<Rightarrow> kstate option" where
  "rt_mq_delete q k = do {
     not_in_interrupt k;
     rt_assert (rt_object_get_type k (K_mq q) = RT_Object_Class_MessageQueue);
     rt_assert (\<not> rt_object_is_systemobject k (K_mq q));
     k1 \<leftarrow> rt_ipc_list_resume_all (Mq_q q) k;
     k2 \<leftarrow> rt_ipc_list_resume_all (Mq_send_q q) k1;
     k3 \<leftarrow> k_free (if mq_pool_addr (k_mq k2 q) = 0 then None else Some (mq_pool_addr (k_mq k2 q))) k2;
     rt_object_delete (K_mq q) k3
   }"

text \<open>\<^verbatim>\<open>rt_memcpy(msg + 1, buffer, size)\<close>: the first bytes of block \<open>b\<close> are overwritten.\<close>

definition block_write :: "u8 list \<Rightarrow> (nat \<Rightarrow> u8) \<Rightarrow> nat \<Rightarrow> u8" where
  "block_write bs d = (\<lambda>i. if i < length bs then bs ! i else d i)"

text \<open>Linking a message at the tail (\<^verbatim>\<open>rt_mq_send_wait\<close>) and at the head (\<^verbatim>\<open>rt_mq_urgent\<close>) of the
  queue, taking the block from the free list. The flag tells whether the entry counter could be
  incremented.\<close>

definition mq_count :: "rt_messagequeue \<Rightarrow> bool \<times> rt_messagequeue" where
  "mq_count mq = (if mq_entry mq < RT_MQ_ENTRY_MAX then (True, mq\<lparr>mq_entry := mq_entry mq + 1\<rparr>)
                  else (False, mq))"

definition mq_push_tail :: "u8 list \<Rightarrow> nat \<Rightarrow> rt_messagequeue \<Rightarrow> bool \<times> rt_messagequeue" where
  "mq_push_tail bs b mq =
     (let mq1 = mq\<lparr>mq_free := mq_next mq b, mq_next := (mq_next mq)(b := None),
                   mq_data := (mq_data mq)(b := block_write bs (mq_data mq b))\<rparr>;
          mq2 = (case mq_tail mq1 of None \<Rightarrow> mq1
                 | Some l \<Rightarrow> mq1\<lparr>mq_next := (mq_next mq1)(l := Some b)\<rparr>);
          mq3 = mq2\<lparr>mq_tail := Some b\<rparr>;
          mq4 = (if mq_head mq3 = None then mq3\<lparr>mq_head := Some b\<rparr> else mq3) in
      mq_count mq4)"

definition mq_push_head :: "u8 list \<Rightarrow> nat \<Rightarrow> rt_messagequeue \<Rightarrow> bool \<times> rt_messagequeue" where
  "mq_push_head bs b mq =
     (let mq1 = mq\<lparr>mq_free := mq_next mq b,
                   mq_data := (mq_data mq)(b := block_write bs (mq_data mq b))\<rparr>;
          mq2 = mq1\<lparr>mq_next := (mq_next mq1)(b := mq_head mq1), mq_head := Some b\<rparr>;
          mq3 = (if mq_tail mq2 = None then mq2\<lparr>mq_tail := Some b\<rparr> else mq2) in
      mq_count mq3)"

text \<open>Unlinking the first message and returning its block to the free list; the result is the first
  \<open>n\<close> bytes of the message.\<close>

definition mq_unlink_head :: "rt_messagequeue \<Rightarrow> nat \<Rightarrow> rt_messagequeue" where
  "mq_unlink_head mq b =
     (let mq1 = mq\<lparr>mq_head := mq_next mq b\<rparr> in
      if mq_tail mq1 = Some b then mq1\<lparr>mq_tail := None\<rparr> else mq1)"

definition mq_free_block :: "rt_messagequeue \<Rightarrow> nat \<Rightarrow> rt_messagequeue" where
  "mq_free_block mq b = mq\<lparr>mq_next := (mq_next mq)(b := mq_free mq), mq_free := Some b\<rparr>"

definition mq_pop :: "nat \<Rightarrow> rt_messagequeue \<Rightarrow> (u8 list \<times> rt_messagequeue) option" where
  "mq_pop n mq = do {
     b \<leftarrow> mq_head mq;
     let mq1 = mq_unlink_head mq b;
     let mq2 = (if mq_entry mq1 > 0 then mq1\<lparr>mq_entry := mq_entry mq1 - 1\<rparr> else mq1);
     let bs = map (mq_data mq2 b) [0..<(if n > mq_msg_size mq2 then mq_msg_size mq2 else n)];
     Some (bs, mq_free_block mq2 b)
   }"

text \<open>\<^verbatim>\<open>rt_mq_send_wait\<close> from its loop on; \<open>bs\<close> is the caller's buffer, \<open>n\<close> the size it gives.\<close>

definition mq_send_loop ::
    "tid option \<Rightarrow> nat \<Rightarrow> u8 list \<Rightarrow> nat \<Rightarrow> int \<Rightarrow> kstate \<Rightarrow> (wait_result \<times> kstate) option" where
  "mq_send_loop th q bs n timeout k =
     (case mq_free (k_mq k q) of
        None \<Rightarrow> do {
          t \<leftarrow> th;
          let k1 = thread_set_error t RT_EOK k;
          if timeout = 0 then Some (Return (- RT_EFULL), k1)
          else do {
            in_thread_context k1;
            k2 \<leftarrow> ipc_wait (Mq_send_q q) t (o_flag (k_obj k1 (K_mq q))) timeout k1;
            Some (Wait (C_mq_send q bs n timeout (rt_tick k1)), k2)
          }
        }
      | Some b \<Rightarrow> do {
          msg \<leftarrow> arr_read bs 0 n;
          let (ok, mq) = mq_push_tail msg b (k_mq k q);
          let k1 = mq_upd q (\<lambda>_. mq) k;
          if ok then do { k2 \<leftarrow> wake_first (Mq_q q) k1; Some (Return RT_EOK, k2) }
          else Some (Return (- RT_EFULL), k1)
        })"

definition rt_mq_send_wait ::
    "nat \<Rightarrow> u8 list \<Rightarrow> nat \<Rightarrow> int \<Rightarrow> kstate \<Rightarrow> (wait_result \<times> kstate) option" where
  "rt_mq_send_wait q bs n timeout k = do {
     rt_assert (rt_object_get_type k (K_mq q) = RT_Object_Class_MessageQueue);
     rt_assert (n \<noteq> 0);
     if n > mq_msg_size (k_mq k q) then Some (Return (- RT_ERROR), k)
     else if mq_free (k_mq k q) = None \<and> timeout = 0 then Some (Return (- RT_EFULL), k)
     else mq_send_loop (rt_thread_self k) q bs n timeout k
   }"

definition rt_mq_send_cont ::
    "tid \<Rightarrow> nat \<Rightarrow> u8 list \<Rightarrow> nat \<Rightarrow> int \<Rightarrow> u32 \<Rightarrow> kstate \<Rightarrow> (wait_result \<times> kstate) option" where
  "rt_mq_send_cont t q bs n timeout start k =
     (if th_error (k_thr k t) \<noteq> RT_EOK then Some (Return (th_error (k_thr k t)), k)
      else mq_send_loop (Some t) q bs n (timeout_left timeout start (rt_tick k)) k)"

definition rt_mq_send :: "nat \<Rightarrow> u8 list \<Rightarrow> nat \<Rightarrow> kstate \<Rightarrow> (wait_result \<times> kstate) option" where
  "rt_mq_send q bs n k = rt_mq_send_wait q bs n 0 k"

definition rt_mq_urgent :: "nat \<Rightarrow> u8 list \<Rightarrow> nat \<Rightarrow> kstate \<Rightarrow> (int \<times> kstate) option" where
  "rt_mq_urgent q bs n k = do {
     rt_assert (rt_object_get_type k (K_mq q) = RT_Object_Class_MessageQueue);
     rt_assert (n \<noteq> 0);
     if n > mq_msg_size (k_mq k q) then Some (- RT_ERROR, k)
     else (case mq_free (k_mq k q) of
       None \<Rightarrow> Some (- RT_EFULL, k)
     | Some b \<Rightarrow> do {
         msg \<leftarrow> arr_read bs 0 n;
         let (ok, mq) = mq_push_head msg b (k_mq k q);
         let k1 = mq_upd q (\<lambda>_. mq) k;
         if ok then do { k2 \<leftarrow> wake_first (Mq_q q) k1; Some (RT_EOK, k2) }
         else Some (- RT_EFULL, k1)
       })
   }"

text \<open>Receiving; the second component of the result is what is copied to the caller's buffer.\<close>

definition mq_recv_loop ::
    "tid option \<Rightarrow> nat \<Rightarrow> nat \<Rightarrow> int \<Rightarrow> kstate \<Rightarrow> (wait_result \<times> u8 list \<times> kstate) option" where
  "mq_recv_loop th q n timeout k =
     (if mq_entry (k_mq k q) = 0 then do {
        in_thread_context k;
        t \<leftarrow> th;
        let k1 = thread_set_error t RT_EOK k;
        if timeout = 0 then Some (Return (- RT_ETIMEOUT), [], thread_set_error t (- RT_ETIMEOUT) k1)
        else do {
          k2 \<leftarrow> ipc_wait (Mq_q q) t (o_flag (k_obj k1 (K_mq q))) timeout k1;
          Some (Wait (C_mq_recv q n timeout (rt_tick k1)), [], k2)
        }
      }
      else do {
        (bs, mq) \<leftarrow> mq_pop n (k_mq k q);
        k2 \<leftarrow> wake_first (Mq_send_q q) (mq_upd q (\<lambda>_. mq) k);
        Some (Return RT_EOK, bs, k2)
      })"

definition rt_mq_recv :: "nat \<Rightarrow> nat \<Rightarrow> int \<Rightarrow> kstate \<Rightarrow> (wait_result \<times> u8 list \<times> kstate) option" where
  "rt_mq_recv q n timeout k = do {
     rt_assert (rt_object_get_type k (K_mq q) = RT_Object_Class_MessageQueue);
     rt_assert (n \<noteq> 0);
     if mq_entry (k_mq k q) = 0 \<and> timeout = 0 then Some (Return (- RT_ETIMEOUT), [], k)
     else mq_recv_loop (rt_thread_self k) q n timeout k
   }"

definition rt_mq_recv_cont ::
    "tid \<Rightarrow> nat \<Rightarrow> nat \<Rightarrow> int \<Rightarrow> u32 \<Rightarrow> kstate \<Rightarrow> (wait_result \<times> u8 list \<times> kstate) option" where
  "rt_mq_recv_cont t q n timeout start k =
     (if th_error (k_thr k t) \<noteq> RT_EOK then Some (Return (th_error (k_thr k t)), [], k)
      else mq_recv_loop (Some t) q n (timeout_left timeout start (rt_tick k)) k)"

text \<open>The loop of \<^verbatim>\<open>rt_mq_control\<close> that moves every message to the free list.\<close>

partial_function (option) mq_flush :: "rt_messagequeue \<Rightarrow> rt_messagequeue option" where
  "mq_flush mq =
     (case mq_head mq of
        None \<Rightarrow> Some mq
      | Some b \<Rightarrow> mq_flush (mq_free_block (mq_unlink_head mq b) b))"

definition rt_mq_control :: "nat \<Rightarrow> ipc_cmd \<Rightarrow> kstate \<Rightarrow> (int \<times> kstate) option" where
  "rt_mq_control q cmd k = do {
     rt_assert (rt_object_get_type k (K_mq q) = RT_Object_Class_MessageQueue);
     case cmd of
       RT_IPC_CMD_RESET _ \<Rightarrow> do {
         k1 \<leftarrow> rt_ipc_list_resume_all (Mq_q q) k;
         k2 \<leftarrow> rt_ipc_list_resume_all (Mq_send_q q) k1;
         mq \<leftarrow> mq_flush (k_mq k2 q);
         k3 \<leftarrow> rt_schedule (mq_upd q (\<lambda>_. mq\<lparr>mq_entry := 0\<rparr>) k2);
         Some (RT_EOK, k3)
       }
     | RT_IPC_CMD_UNKNOWN \<Rightarrow> Some (- RT_ERROR, k)
   }"

text \<open>A chain of blocks, read off the links; the two chains of a queue, which partition the pool.\<close>

fun chain :: "(nat \<Rightarrow> nat option) \<Rightarrow> nat option \<Rightarrow> nat list \<Rightarrow> bool" where
  "chain nx p [] = (p = None)"
| "chain nx p (b # bs) = (p = Some b \<and> chain nx (nx b) bs)"

definition mq_lists :: "rt_messagequeue \<Rightarrow> nat list \<Rightarrow> nat list \<Rightarrow> bool" where
  "mq_lists mq qs fs \<longleftrightarrow> chain (mq_next mq) (mq_head mq) qs \<and> chain (mq_next mq) (mq_free mq) fs
     \<and> distinct (qs @ fs) \<and> set (qs @ fs) = {0..<mq_max_msgs mq}
     \<and> mq_tail mq = (if qs = [] then None else Some (last qs))"

definition mq_ok :: "rt_messagequeue \<Rightarrow> nat list \<Rightarrow> nat list \<Rightarrow> bool" where
  "mq_ok mq qs fs \<longleftrightarrow> mq_lists mq qs fs \<and> mq_entry mq = length qs \<and> mq_max_msgs mq < 2 ^ 16"

text \<open>The blocks of the queue from its head on, and the first \<open>n\<close> bytes of each.\<close>

fun mq_walk :: "nat \<Rightarrow> (nat \<Rightarrow> nat option) \<Rightarrow> nat option \<Rightarrow> nat list" where
  "mq_walk (Suc n) nx (Some b) = b # mq_walk n nx (nx b)"
| "mq_walk _ nx _ = []"

definition mq_contents :: "nat \<Rightarrow> rt_messagequeue \<Rightarrow> u8 list list" where
  "mq_contents n mq = map (\<lambda>b. map (mq_data mq b) [0..<n]) (mq_walk (mq_entry mq) (mq_next mq) (mq_head mq))"

definition mq_inv :: "rt_messagequeue \<Rightarrow> bool" where
  "mq_inv mq \<longleftrightarrow> (\<exists>qs fs. mq_ok mq qs fs)"

section \<open>Chains\<close>

lemma mq_walk_chain: "chain nx p bs \<Longrightarrow> mq_walk (length bs) nx p = bs"
  by (induction bs arbitrary: p) auto

lemma chain_upd [simp]: "b \<notin> set bs \<Longrightarrow> chain (nx(b := x)) p bs = chain nx p bs"
  by (induction bs arbitrary: p) auto

lemma chain_extend:
  "chain nx p (bs @ [l]) \<Longrightarrow> distinct (bs @ [l, b]) \<Longrightarrow> nx b = None \<Longrightarrow> chain (nx(l := Some b)) p (bs @ [l, b])"
  by (induction bs arbitrary: p) auto

lemma mq_ok_contents: "mq_ok mq qs fs \<Longrightarrow> mq_contents n mq = map (\<lambda>b. map (mq_data mq b) [0..<n]) qs"
  using mq_walk_chain [of "mq_next mq" "mq_head mq" qs] by (simp add: mq_contents_def mq_ok_def mq_lists_def)

lemma mq_ok_length: "mq_ok mq qs fs \<Longrightarrow> length qs + length fs = mq_max_msgs mq"
proof -
  assume "mq_ok mq qs fs"
  then have "distinct (qs @ fs)" "set (qs @ fs) = {0..<mq_max_msgs mq}" by (simp_all add: mq_ok_def mq_lists_def)
  then have "length (qs @ fs) = card {0..<mq_max_msgs mq}" using distinct_card [of "qs @ fs"] by simp
  then show ?thesis by simp
qed

lemma mq_free_Some: "mq_ok mq qs fs \<Longrightarrow> mq_free mq = (case fs of [] \<Rightarrow> None | b # _ \<Rightarrow> Some b)"
  by (cases fs) (simp_all add: mq_ok_def mq_lists_def)

section \<open>Sending, receiving and flushing as list operations\<close>

lemma block_write_take: "n = length bs \<Longrightarrow> map (block_write bs d) [0..<n] = bs"
  by (rule nth_equalityI) (simp_all add: block_write_def)

lemma mq_push_tail_ok:
  assumes ok: "mq_ok mq qs (b # fs)"
  obtains mq' where "mq_push_tail bs b mq = (True, mq')" "mq_ok mq' (qs @ [b]) fs"
    "mq_data mq' = (mq_data mq)(b := block_write bs (mq_data mq b))" "mq_msg_size mq' = mq_msg_size mq"
    "mq_max_msgs mq' = mq_max_msgs mq"
proof -
  let ?nx = "(mq_next mq)(b := None)"
  let ?nx' = "if qs = [] then ?nx else ?nx(last qs := Some b)"
  let ?mq = "mq\<lparr>mq_free := mq_next mq b, mq_next := ?nx', mq_data := (mq_data mq)(b := block_write bs (mq_data mq b)),
     mq_tail := Some b, mq_head := (if qs = [] then Some b else mq_head mq), mq_entry := mq_entry mq + 1\<rparr>"
  have D: "chain (mq_next mq) (mq_head mq) qs" "mq_free mq = Some b" "chain (mq_next mq) (mq_next mq b) fs"
    "distinct (qs @ b # fs)" "mq_tail mq = (if qs = [] then None else Some (last qs))" "mq_entry mq = length qs"
    using ok by (simp_all add: mq_ok_def mq_lists_def)
  have hd: "mq_head mq = None \<longleftrightarrow> qs = []" using D(1) by (cases qs) auto
  have "mq_entry mq < 0xffff" using mq_ok_length [OF ok] ok D(6) by (simp add: mq_ok_def)
  then have push: "mq_push_tail bs b mq = (True, ?mq)"
    using D(5) hd by (auto simp: mq_push_tail_def mq_count_def Let_def)
  have "chain ?nx' (mq_head ?mq) (qs @ [b])"
  proof (cases "qs = []")
    case False
    have q: "qs = butlast qs @ [last qs]" using False by simp
    have "chain ?nx (mq_head mq) (butlast qs @ [last qs])" using D(1,4) q by simp
    moreover have "distinct (butlast qs @ [last qs, b])" using D(4) by (subst (asm) q) auto
    ultimately have "chain (?nx(last qs := Some b)) (mq_head mq) (butlast qs @ [last qs, b])" by (intro chain_extend) simp_all
    moreover have "butlast qs @ [last qs, b] = qs @ [b]" using q by (metis append.assoc append_Cons append_Nil)
    ultimately show ?thesis using False by simp
  qed simp
  moreover have "chain ?nx' (mq_next mq b) fs" using D(3,4) by (cases "qs = []") (auto simp: disjoint_iff)
  ultimately have "mq_ok ?mq (qs @ [b]) fs" using ok by (auto simp: mq_ok_def mq_lists_def)
  then show thesis using that push by simp
qed

lemma mq_push_head_ok:
  assumes ok: "mq_ok mq qs (b # fs)"
  obtains mq' where "mq_push_head bs b mq = (True, mq')" "mq_ok mq' (b # qs) fs"
    "mq_data mq' = (mq_data mq)(b := block_write bs (mq_data mq b))" "mq_msg_size mq' = mq_msg_size mq"
    "mq_max_msgs mq' = mq_max_msgs mq"
proof -
  let ?mq = "mq\<lparr>mq_free := mq_next mq b, mq_next := (mq_next mq)(b := mq_head mq),
     mq_data := (mq_data mq)(b := block_write bs (mq_data mq b)), mq_head := Some b,
     mq_tail := (if qs = [] then Some b else mq_tail mq), mq_entry := mq_entry mq + 1\<rparr>"
  have D: "chain (mq_next mq) (mq_head mq) qs" "chain (mq_next mq) (mq_next mq b) fs"
    "distinct (qs @ b # fs)" "mq_tail mq = (if qs = [] then None else Some (last qs))" "mq_entry mq = length qs"
    using ok by (simp_all add: mq_ok_def mq_lists_def)
  have "mq_entry mq < 0xffff" using mq_ok_length [OF ok] ok D(5) by (simp add: mq_ok_def)
  then have push: "mq_push_head bs b mq = (True, ?mq)"
    using D(4) by (auto simp: mq_push_head_def mq_count_def Let_def)
  have "mq_ok ?mq (b # qs) fs" using ok D by (auto simp: mq_ok_def mq_lists_def)
  then show thesis using that push by simp
qed

lemma mq_unlink_lists:
  assumes "mq_lists mq (b # qs) fs"
  shows "mq_head mq = Some b" "mq_lists (mq_free_block (mq_unlink_head mq b) b) qs (b # fs)"
    "mq_entry (mq_free_block (mq_unlink_head mq b) b) = mq_entry mq"
    "mq_max_msgs (mq_free_block (mq_unlink_head mq b) b) = mq_max_msgs mq"
    "mq_msg_size (mq_free_block (mq_unlink_head mq b) b) = mq_msg_size mq"
    "mq_data (mq_free_block (mq_unlink_head mq b) b) = mq_data mq"
proof -
  have D: "mq_head mq = Some b" "chain (mq_next mq) (mq_next mq b) qs" "chain (mq_next mq) (mq_free mq) fs"
    "distinct (b # qs @ fs)" "mq_tail mq = Some (last (b # qs))" "insert b (set (qs @ fs)) = {0..<mq_max_msgs mq}"
    using assms by (simp_all add: mq_lists_def)
  have "last (b # qs) = b \<longleftrightarrow> qs = []" using D(4) by (cases qs rule: rev_cases) auto
  then show "mq_lists (mq_free_block (mq_unlink_head mq b) b) qs (b # fs)"
    using D by (auto simp: mq_lists_def mq_free_block_def mq_unlink_head_def Let_def)
  show "mq_head mq = Some b" by (rule D(1))
qed (simp_all add: mq_free_block_def mq_unlink_head_def Let_def)

lemma mq_pop_ok:
  assumes ok: "mq_ok mq (b # qs) fs" and n: "n \<le> mq_msg_size mq"
  obtains mq' where "mq_pop n mq = Some (map (mq_data mq b) [0..<n], mq')" "mq_ok mq' qs (b # fs)"
    "mq_data mq' = mq_data mq" "mq_msg_size mq' = mq_msg_size mq" "mq_max_msgs mq' = mq_max_msgs mq"
proof -
  have e: "mq_entry mq = Suc (length qs)" and l: "mq_lists mq (b # qs) fs" using ok by (simp_all add: mq_ok_def)
  note U = mq_unlink_lists [OF l]
  let ?mq = "(mq_free_block (mq_unlink_head mq b) b)\<lparr>mq_entry := length qs\<rparr>"
  have "mq_pop n mq = Some (map (mq_data mq b) [0..<n], ?mq)"
    using U(1,3,5,6) e n by (simp add: mq_pop_def mq_free_block_def Let_def)
  moreover have "mq_ok ?mq qs (b # fs)" using U(2,4) ok by (simp add: mq_ok_def mq_lists_def)
  ultimately show thesis using that U by simp
qed

text \<open>The flush of \<^verbatim>\<open>rt_mq_control\<close> ends, and every block is free again.\<close>

lemma mq_flush_lists:
  "mq_lists mq qs fs \<Longrightarrow> \<exists>mq'. mq_flush mq = Some mq' \<and> mq_lists mq' [] (rev qs @ fs)
     \<and> mq_max_msgs mq' = mq_max_msgs mq \<and> mq_msg_size mq' = mq_msg_size mq"
proof (induction qs arbitrary: mq fs)
  case Nil
  then show ?case by (subst mq_flush.simps) (auto simp: mq_lists_def)
next
  case (Cons b qs)
  note U = mq_unlink_lists [OF Cons.prems]
  show ?case using Cons.IH [OF U(2)] U(1,4,5) by (subst mq_flush.simps) simp
qed

lemma mq_link_free_chain:
  "mq_free mq = None \<Longrightarrow> chain (mq_next (mq_link_free n mq)) (mq_free (mq_link_free n mq)) (rev [0..<n])
     \<and> mq_head (mq_link_free n mq) = mq_head mq \<and> mq_tail (mq_link_free n mq) = mq_tail mq
     \<and> mq_max_msgs (mq_link_free n mq) = mq_max_msgs mq \<and> mq_msg_size (mq_link_free n mq) = mq_msg_size mq"
  by (induction n) (simp_all add: Let_def)

lemma mq_lists_init_ok:
  assumes "mq_max_msgs mq < 2 ^ 16"
  shows "mq_ok (mq_lists_init mq) [] (rev [0..<mq_max_msgs mq])"
  using assms mq_link_free_chain [of "mq\<lparr>mq_head := None, mq_tail := None, mq_free := None\<rparr>" "mq_max_msgs mq"]
  by (simp add: mq_ok_def mq_lists_def mq_lists_init_def)

end
