(* ===== verification/Kernel_Inv.thy ===== *)
theory Kernel_Inv
  imports Mutex Event MsgQueue
begin

text \<open>
  Invariants of the kernel operations. The locale \<open>kernel_invariant\<close> is the contract between an
  invariant and the operations of \<^verbatim>\<open>ipc.c\<close>: a property of kernel states that the few primitives
  these operations are built from (suspending a thread on a queue, arming its timer, resuming it,
  scheduling, changing a priority, changing IPC data) preserve. Every operation on semaphores,
  mutexes, event sets, mailboxes and message queues then preserves it, which is proved once in the
  locale. It is interpreted for the scheduler invariant and for the timer invariant.
\<close>

section \<open>Definitions\<close>

text \<open>The timer invariant (\<open>d\<close> as for \<open>timers_sorted\<close>): the list is ordered, its members are active timers, a
  thread's own timer runs only while the thread is suspended, and it is a one-shot timer whose callback is
  \<^verbatim>\<open>rt_thread_timeout\<close> on that thread, which no other timer has as its callback.\<close>

definition timers_wf :: "u32 \<Rightarrow> kstate \<Rightarrow> bool" where
  "timers_wf d k \<longleftrightarrow> timers_sorted d k
     \<and> (\<forall>p \<in> set (timer_list k). timer_active k p)
     \<and> (\<forall>t. K_thread_timer t \<in> set (timer_list k)
            \<longrightarrow> thread_state k t = RT_THREAD_SUSPEND \<and> rt_object_get_type k (K_thread t) = RT_Object_Class_Thread)
     \<and> (\<forall>t. rt_object_get_type k (K_thread t) = RT_Object_Class_Thread
            \<longrightarrow> tm_timeout_func (k_tmr k (K_thread_timer t)) = Thread_timeout t
              \<and> \<not> timer_periodic k (K_thread_timer t))
     \<and> (\<forall>p t. tm_timeout_func (k_tmr k p) = Thread_timeout t \<longrightarrow> p = K_thread_timer t)"

text \<open>The priority a mutex restores is a priority.\<close>

definition mutex_prio_cond :: "rt_mutex \<Rightarrow> bool" where
  "mutex_prio_cond x \<longleftrightarrow> (mutex_owner x \<noteq> None \<longrightarrow> mutex_original_priority x < RT_THREAD_PRIORITY_MAX)"

definition mutex_prio_ok :: "kstate \<Rightarrow> bool" where
  "mutex_prio_ok k \<longleftrightarrow> (\<forall>m. mutex_prio_cond (k_mutex k m))"

text \<open>The kernel invariant, between interrupts (\<open>d = 0\<close>) and in the tick interrupt (\<open>d = 1\<close>).\<close>

definition kernel_inv :: "u32 \<Rightarrow> kstate \<Rightarrow> bool" where
  "kernel_inv d k \<longleftrightarrow> sched_wf k \<and> timers_wf d k \<and> mutex_prio_ok k"

text \<open>The running thread is READY: it has not suspended or closed itself.\<close>

definition running_ready :: "kstate \<Rightarrow> bool" where
  "running_ready k \<longleftrightarrow> (\<forall>t. current_thread k = Some t \<longrightarrow> thread_state k t = RT_THREAD_READY)"

fun ipc_object :: "kptr \<Rightarrow> bool" where
  "ipc_object (K_sem _) = True" | "ipc_object (K_mutex _) = True" | "ipc_object (K_event _) = True"
| "ipc_object (K_mb _) = True" | "ipc_object (K_mq _) = True" | "ipc_object _ = False"

section \<open>Updates of IPC data\<close>

lemma data_only_simps [simp]:
  "data_only k k"
  "data_only k (sem_set s v k)" "data_only k (mutex_upd m f k)" "data_only k (event_put e w k)"
  "data_only k (mb_upd n g k)" "data_only k (mq_upd q j k)" "data_only k (thread_set_error t err k)"
  "data_only k (thr_upd t (\<lambda>x. x\<lparr>th_event_set := a x\<rparr>) k)"
  "data_only k (thr_upd t (\<lambda>x. x\<lparr>th_event_set := a x, th_event_info := b x\<rparr>) k)"
  "data_only k (thr_upd t (\<lambda>th. th\<lparr>th_error := err\<rparr>) k)"
  by (simp_all add: data_only_def sched_same_def sem_set_def mutex_upd_def event_put_def mb_upd_def mq_upd_def
      thread_set_error_def thr_upd_def)

lemma data_mutex_simps [simp]:
  "k_mutex (sem_set s v k) = k_mutex k" "k_mutex (event_put e w k) = k_mutex k"
  "k_mutex (mb_upd n g k) = k_mutex k" "k_mutex (mq_upd q j k) = k_mutex k"
  "k_mutex (thread_set_error t err k) = k_mutex k" "k_mutex (mutex_upd m f k) = (k_mutex k)(m := f (k_mutex k m))"
  by (simp_all add: sem_set_def event_put_def mb_upd_def mq_upd_def thread_set_error_def mutex_upd_def)

lemma data_only_state: "data_only k k' \<Longrightarrow> thread_state k' t = thread_state k t"
  by (simp add: data_only_def thread_state_same)

lemma thread_state_data [simp]:
  "thread_state (thread_set_error t e k) s = thread_state k s"
  "thread_state (thr_upd t (\<lambda>x. x\<lparr>th_event_set := a, th_event_info := b\<rparr>) k) s = thread_state k s"
  by (simp_all add: data_only_state)

lemma data_only_current: "data_only k k' \<Longrightarrow> current_thread k' = current_thread k"
  by (simp add: data_only_def)

lemma data_only_wf: "data_only k k' \<Longrightarrow> sched_wf k' = sched_wf k"
  by (simp add: data_only_def sched_wf_def sched_wf_cong)

lemma suspend_type:
  "rt_ipc_list_suspend h t flag k = Some k' \<Longrightarrow> rt_object_get_type k (K_thread t) = RT_Object_Class_Thread"
  by (auto simp: rt_ipc_list_suspend_def rt_thread_suspend_def bind_Some_iff split: if_splits)

lemma thread_frame_type: "thread_frame X k k' \<Longrightarrow> rt_object_get_type k' p = rt_object_get_type k p"
  by (simp add: thread_frame_def rt_object_get_type_def)

section \<open>The contract\<close>

locale kernel_invariant =
  fixes I :: "kstate \<Rightarrow> bool"
  assumes inv_sched: "I k \<Longrightarrow> sched_wf k"
    and inv_data: "I k \<Longrightarrow> data_only k k' \<Longrightarrow> k_mutex k' = k_mutex k \<Longrightarrow> I k'"
    and inv_mutex: "I k \<Longrightarrow> mutex_prio_cond (f (k_mutex k m)) \<Longrightarrow> I (mutex_upd m f k)"
    and inv_suspend: "I k \<Longrightarrow> waiting_queue h \<Longrightarrow> thread_state k t = RT_THREAD_READY \<Longrightarrow>
          rt_ipc_list_suspend h t flag k = Some k' \<Longrightarrow> I k'"
    and inv_arm: "I k \<Longrightarrow> thread_state k t = RT_THREAD_SUSPEND \<Longrightarrow>
          rt_object_get_type k (K_thread t) = RT_Object_Class_Thread \<Longrightarrow>
          rt_timer_start (K_thread_timer t) (tmr_upd (K_thread_timer t) (\<lambda>tm. tm\<lparr>tm_init_tick := v\<rparr>) k) = Some k'
          \<Longrightarrow> I k'"
    and inv_resume: "I k \<Longrightarrow> rt_thread_resume t k = Some (r, k') \<Longrightarrow> I k'"
    and inv_priority: "I k \<Longrightarrow> p < RT_THREAD_PRIORITY_MAX \<Longrightarrow> thread_change_priority t p k = Some k' \<Longrightarrow> I k'"
    and inv_schedule: "I k \<Longrightarrow> rt_schedule k = Some k' \<Longrightarrow> I k'"
    and inv_detach: "I k \<Longrightarrow> ipc_object ob \<Longrightarrow> I (rt_object_detach ob k)"
begin

lemma ipc_wait_inv:
  assumes I: "I k" and st: "thread_state k t = RT_THREAD_READY" and h: "waiting_queue h"
    and w: "ipc_wait h t flag time k = Some k'"
  shows "I k'"
proof -
  obtain k1 k2 where k1: "rt_ipc_list_suspend h t flag k = Some k1"
    and k2: "k2 = k1 \<or> rt_timer_start (K_thread_timer t) (tmr_upd (K_thread_timer t)
        (\<lambda>tm. tm\<lparr>tm_init_tick := word_of_int time\<rparr>) k1) = Some k2"
    and sch: "rt_schedule k2 = Some k'"
    using w by (auto simp: ipc_wait_def rt_timer_control_def bind_Some_iff split: if_splits)
  have I1: "I k1" by (rule inv_suspend [OF I h st k1])
  note S = rt_ipc_list_suspend_wf [OF inv_sched [OF I] st h k1]
  have "rt_object_get_type k1 (K_thread t) = RT_Object_Class_Thread"
    using thread_frame_type [OF S(3)] suspend_type [OF k1] by simp
  then have "I k2" using k2 I1 inv_arm [OF I1 S(2)] by blast
  then show ?thesis by (rule inv_schedule [OF _ sch])
qed

lemma ipc_resume_inv: "I k \<Longrightarrow> rt_ipc_list_resume h k = Some k' \<Longrightarrow> I k'"
  by (auto simp: rt_ipc_list_resume_def bind_Some_iff intro: inv_resume)

lemma ipc_resume_all_inv:
  assumes "rt_ipc_list_resume_all h k = Some k'"
  shows "I k \<longrightarrow> I k'"
proof (rule rt_ipc_list_resume_all.raw_induct [where P = "\<lambda>h k y. I k \<longrightarrow> I y", OF _ assms], goal_cases)
  case (1 f h k y)
  show ?case
  proof (cases "k_list k h")
    case Nil
    then show ?thesis using 1(2) by simp
  next
    case (Cons t ts)
    then obtain r k1 where "rt_thread_resume t (thr_upd t (\<lambda>th. th\<lparr>th_error := - RT_ERROR\<rparr>) k) = Some (r, k1)"
        "f h k1 = Some y" using 1(2) by (auto simp: bind_Some_iff)
    then show ?thesis using 1(1) inv_resume inv_data by (metis data_only_simps(10) thr_upd_simps(15))
  qed
qed

lemma upd_inv:
  assumes "I k"
  shows "I (sem_set s v k)" "I (event_put e w k)" "I (mb_upd n g k)" "I (mq_upd q j k)"
    "I (thread_set_error t err k)" "I (thr_upd t (\<lambda>x. x\<lparr>th_event_set := a x\<rparr>) k)"
  using inv_data [OF assms] by simp_all

lemma schedule_data_inv:
  "rt_schedule k1 = Some k' \<Longrightarrow> data_only k k1 \<Longrightarrow> k_mutex k1 = k_mutex k \<Longrightarrow> I k \<Longrightarrow> I k'"
  using inv_schedule inv_data by blast

lemma wake_first_inv: "I k \<Longrightarrow> wake_first h k = Some k' \<Longrightarrow> I k'"
  by (auto simp: wake_first_def bind_Some_iff split: if_splits dest: ipc_resume_inv inv_schedule)

lemma sem_take_inv:
  assumes "I k" "running_ready k" "rt_sem_take s time k = Some (r, k')"
  shows "I k'"
proof -
  consider "k' = k" | v where "k' = sem_set s v k"
    | t where "current_thread k = Some t"
        "ipc_wait (Sem_q s) t (o_flag (k_obj (thread_set_error t RT_EOK k) (K_sem s))) time (thread_set_error t RT_EOK k) = Some k'"
    using assms(3) by (auto simp: rt_sem_take_def in_thread_context_def rt_thread_self_def bind_Some_iff Let_def
        split: if_splits)
  then show ?thesis
  proof cases
    case 3
    have "thread_state (thread_set_error t RT_EOK k) t = RT_THREAD_READY"
      using assms(2) 3(1) data_only_state [of k "thread_set_error t RT_EOK k"] by (simp add: running_ready_def)
    then show ?thesis using ipc_wait_inv [OF inv_data [OF assms(1)] _ _ 3(2)] by simp
  qed (use assms(1) inv_data in \<open>auto\<close>)
qed

lemma sem_release_inv: "I k \<Longrightarrow> rt_sem_release s k = Some (r, k') \<Longrightarrow> I k'"
  by (auto simp: rt_sem_release_def bind_Some_iff split: if_splits
      dest: ipc_resume_inv inv_schedule intro: inv_data)

lemma sem_control_inv: "I k \<Longrightarrow> rt_sem_control s cmd k = Some (r, k') \<Longrightarrow> I k'"
  by (auto simp: rt_sem_control_def bind_Some_iff split: ipc_cmd.splits
      dest!: ipc_resume_all_inv) (metis schedule_data_inv data_only_simps(2) data_mutex_simps(1))

lemma sem_detach_inv: "I k \<Longrightarrow> rt_sem_detach s k = Some k' \<Longrightarrow> I k'"
  by (auto simp: rt_sem_detach_def bind_Some_iff dest: ipc_resume_all_inv intro!: inv_detach)

lemma self_ready:
  "running_ready k \<Longrightarrow> current_thread k = Some t \<Longrightarrow> data_only k k1 \<Longrightarrow> thread_state k1 t = RT_THREAD_READY"
  by (simp add: running_ready_def data_only_state)

lemma wait_data_inv:
  assumes "ipc_wait h t flag time k1 = Some k'" "data_only k k1" "k_mutex k1 = k_mutex k" "I k" "running_ready k"
    "current_thread k = Some t" "waiting_queue h"
  shows "I k'"
  using ipc_wait_inv [OF inv_data [OF assms(4,2,3)] self_ready [OF assms(5,6,2)] assms(7,1)] .

lemma mutex_take_inv:
  assumes I: "I k" and mp: "mutex_prio_ok k" and run: "running_ready k" and take: "rt_mutex_take m time k = Some (r, k')"
  shows "I k'"
proof -
  obtain t where cur: "current_thread k = Some t"
    using take by (auto simp: rt_mutex_take_def rt_thread_self_def bind_Some_iff)
  let ?k1 = "thread_set_error t RT_EOK k" and ?hold = "\<lambda>x. x\<lparr>mutex_hold := mutex_hold x + 1\<rparr>"
  let ?own = "\<lambda>x. x\<lparr>mutex_value := mutex_value x - 1, mutex_owner := Some t,
      mutex_original_priority := th_current_priority (k_thr ?k1 t)\<rparr>"
  have I1: "I ?k1" by (rule inv_data [OF I]) simp_all
  have wf1: "sched_wf ?k1" by (rule inv_sched [OF I1])
  have st1: "thread_state ?k1 t = RT_THREAD_READY" using self_ready [OF run cur] by simp
  have p: "th_current_priority (k_thr ?k1 t) < 32"
    using sched_wf_prio_ok [of "{}" ?k1 t] wf1 st1 by (simp add: sched_wf_def prio_ok_def)
  have own: "mutex_prio_cond (?own x)" "mutex_prio_cond (?hold (?own x))" for x using p by (simp_all add: mutex_prio_cond_def)
  have hold: "mutex_prio_cond (?hold (k_mutex ?k1 m))" using mp by (simp add: mutex_prio_ok_def mutex_prio_cond_def)
  consider "k' = mutex_upd m ?hold (mutex_upd m ?own ?k1)" | "k' = mutex_upd m ?hold ?k1"
    | "k' = mutex_upd m ?own ?k1" | "k' = ?k1" | e where "k' = thread_set_error t e ?k1"
    | ow k2 where "mutex_owner (k_mutex ?k1 m) = Some ow" "mutex_owner (k_mutex ?k1 m) \<noteq> Some t"
        "k2 = ?k1 \<or> th_current_priority (k_thr ?k1 t) < th_current_priority (k_thr ?k1 ow) \<and>
          thread_change_priority ow (th_current_priority (k_thr ?k1 t)) ?k1 = Some k2"
        "ipc_wait (Mutex_q m) t (o_flag (k_obj k2 (K_mutex m))) time k2 = Some k'"
    using take cur
    by (auto simp: rt_mutex_take_def rt_thread_self_def in_thread_context_def bind_Some_iff Let_def split: if_splits)
  then show ?thesis
  proof cases
    case 1
    have I2: "I (mutex_upd m ?own ?k1)" by (rule inv_mutex [OF I1 own(1)])
    show ?thesis unfolding 1 by (rule inv_mutex [OF I2]) (use own(2) [of "k_mutex ?k1 m"] in simp)
  next
    case 2
    then show ?thesis using inv_mutex [where f = ?hold, OF I1 hold] by simp
  next
    case 3
    then show ?thesis using inv_mutex [where f = ?own, OF I1 own(1)] by simp
  next
    case (6 ow k2)
    have I2: "I k2" using 6(3) I1 inv_priority [OF I1 p] by blast
    have st2: "thread_state k2 t = RT_THREAD_READY"
      using 6 st1 thread_change_priority_wf(2) [OF wf1 p, of ow k2]
      by (auto simp: thread_frame_def thread_state_def)
    show ?thesis using ipc_wait_inv [OF I2 st2 _ 6(4)] by simp
  qed (use I1 inv_data in auto)
qed

lemma mutex_hand_over_inv:
  fixes t' :: tid
  assumes I2: "I k2" and q: "k_list k2 (Mutex_q m) = t' # ts"
  defines "own \<equiv> \<lambda>x. x\<lparr>mutex_owner := Some t', mutex_original_priority := th_current_priority (k_thr k2 t')\<rparr>"
  shows "I (mutex_upd m own k2)" "I (mutex_upd m (\<lambda>x. x\<lparr>mutex_hold := mutex_hold x + 1\<rparr>) (mutex_upd m own k2))"
proof -
  let ?hold = "\<lambda>x. x\<lparr>mutex_hold := mutex_hold x + 1\<rparr>"
  have wf2: "sched_wf_except {} k2" using inv_sched [OF I2] by (simp add: sched_wf_def)
  have "prio_ok (k_thr k2 t')"
    using sched_wf_state [OF wf2, of t' "Mutex_q m"] sched_wf_prio_ok [OF wf2, of t'] q by simp
  then have own: "mutex_prio_cond (own x)" "mutex_prio_cond (?hold (own x))" for x
    by (simp_all add: mutex_prio_cond_def prio_ok_def own_def)
  show I3: "I (mutex_upd m own k2)" by (rule inv_mutex [OF I2 own(1)])
  show "I (mutex_upd m ?hold (mutex_upd m own k2))"
    by (rule inv_mutex [OF I3]) (use own(2) [of "k_mutex k2 m"] in simp)
qed

lemma mutex_hand_on_cases:
  assumes I: "I k" and h: "mutex_hand_on m k = Some (r, k')"
  obtains (quiet) f where "k' = mutex_upd m f k" "I k'" | (same) "k' = k"
    | (woken) k5 where "I k5" "rt_schedule k5 = Some k'"
proof (cases "k_list k (Mutex_q m)")
  case Nil
  let ?f = "\<lambda>x. x\<lparr>mutex_value := mutex_value x + 1, mutex_owner := None, mutex_original_priority := 0xff\<rparr>"
  have "I (mutex_upd m ?f k)" by (rule inv_mutex [OF I]) (simp add: mutex_prio_cond_def)
  then show thesis using quiet [of ?f] same h Nil by (auto simp: mutex_hand_on_def split: if_splits)
next
  case (Cons t' ts)
  let ?own = "mutex_upd m (\<lambda>x. x\<lparr>mutex_owner := Some t', mutex_original_priority := th_current_priority (k_thr k t')\<rparr>) k"
  let ?hold = "mutex_upd m (\<lambda>x. x\<lparr>mutex_hold := mutex_hold x + 1\<rparr>) ?own"
  note I34 = mutex_hand_over_inv [OF I Cons]
  show thesis
  proof (cases "mutex_hold (k_mutex ?own m) < 255")
    case True
    then obtain k5 where "rt_ipc_list_resume (Mutex_q m) ?hold = Some k5" "rt_schedule k5 = Some k'"
      using h Cons unfolding mutex_hand_on_def Let_def by (auto simp: bind_Some_iff)
    then show thesis using woken ipc_resume_inv [OF I34(2)] by blast
  next
    case False
    then have "k' = ?own" using h Cons unfolding mutex_hand_on_def Let_def by auto
    then show thesis using quiet I34(1) by blast
  qed
qed

lemma mutex_release_cases:
  assumes I: "I k" and mp: "mutex_prio_ok k" and rel: "rt_mutex_release m k = Some (r, k')"
  obtains (error) t e where "k' = thread_set_error t e k"
    | (nested) f where "k' = mutex_upd m f k" "I k'"
    | (last) f t k2 where "I (mutex_upd m f k)" "I k2" "current_thread k = Some t"
        "k2 = mutex_upd m f k \<or> (\<exists>p < RT_THREAD_PRIORITY_MAX. thread_change_priority t p (mutex_upd m f k) = Some k2)"
        "mutex_hand_on m k2 = Some (r, k')"
proof -
  obtain t where cur: "current_thread k = Some t"
    using rel by (auto simp: rt_mutex_release_def rt_thread_self_def bind_Some_iff)
  let ?f = "\<lambda>x. x\<lparr>mutex_hold := (mutex_hold x + 255) mod 256\<rparr>"
  let ?k1 = "mutex_upd m ?f k"
  have mc: "mutex_prio_cond (k_mutex k m)" using mp by (simp add: mutex_prio_ok_def)
  have I1: "I ?k1" by (rule inv_mutex [OF I]) (use mc in \<open>simp add: mutex_prio_cond_def\<close>)
  consider "k' = thread_set_error t (- RT_ERROR) k" | "k' = ?k1"
    | k2 where "mutex_owner (k_mutex k m) = Some t" "(if mutex_original_priority (k_mutex ?k1 m) \<noteq> th_current_priority (k_thr ?k1 t)
        then thread_change_priority t (mutex_original_priority (k_mutex ?k1 m)) ?k1 else Some ?k1) = Some k2"
        "mutex_hand_on m k2 = Some (r, k')"
    using rel cur unfolding rt_mutex_release_def rt_thread_self_def Let_def
    by (cases "mutex_owner (k_mutex k m) = Some t"; cases "mutex_hold (k_mutex ?k1 m) = 0")
      (auto simp: bind_Some_iff [of "if _ then thread_change_priority _ _ _ else _"] bind_Some_iff [of "rt_assert _"]
        bind_Some_iff [of "in_thread_context _"])
  then show thesis
  proof cases
    case (3 k2)
    have op: "mutex_original_priority (k_mutex ?k1 m) < 32" using mc 3(1) by (simp add: mutex_prio_cond_def)
    have k2: "k2 = ?k1 \<or> (\<exists>p < 32. thread_change_priority t p ?k1 = Some k2)"
      using 3(2) op by (auto split: if_splits)
    then have "I k2" using I1 inv_priority [OF I1] by blast
    then show thesis using last [OF I1 _ cur k2 3(3)] by blast
  qed (use error nested I1 in blast)+
qed

lemma mutex_release_inv:
  assumes I: "I k" and mp: "mutex_prio_ok k" and rel: "rt_mutex_release m k = Some (r, k')"
  shows "I k'"
proof (cases rule: mutex_release_cases [OF assms])
  case (1 t e)
  then show ?thesis using upd_inv(5) [OF I] by simp
next
  case (3 f t k2)
  show ?thesis by (cases rule: mutex_hand_on_cases [OF 3(2,5)]) (use 3(2) inv_schedule in blast)+
qed

lemma event_send_loop_inv:
  "event_send_loop e ts need k = Some (err, need', k') \<Longrightarrow> I k \<Longrightarrow> I k'"
proof (induction ts arbitrary: need k)
  case (Cons t ts)
  let ?th = "k_thr k t" and ?es = "event_set (k_event k e)"
  let ?k1 = "\<lambda>b. if b then k else thr_upd t (\<lambda>x. x\<lparr>th_event_set := th_event_set x AND ?es\<rparr>) k"
  let ?k2 = "\<lambda>k1. if th_event_info (k_thr k1 t) AND 4 \<noteq> 0
      then event_put e (?es AND NOT (th_event_set (k_thr k1 t))) k1 else k1"
  have I2: "I (?k2 (?k1 b))" for b using Cons.prems(2) by (simp add: upd_inv)
  have wake: "I k'" if w: "(rt_thread_resume t (?k2 (?k1 b)) \<bind> (\<lambda>(_, k3). event_send_loop e ts True k3))
      = Some (err, need', k')" for b
    using w inv_resume [OF I2] Cons.IH by (auto simp: bind_Some_iff)
  show ?case
    using Cons wake [of True] wake [of False] by (simp add: Let_def split: if_splits)
qed simp

lemma event_send_inv: "I k \<Longrightarrow> rt_event_send e evs k = Some (r, k') \<Longrightarrow> I k'"
  by (auto simp: rt_event_send_def bind_Some_iff Let_def split: if_splits option.splits
      dest!: event_send_loop_inv intro: upd_inv inv_schedule)

lemma event_recv_inv:
  assumes I: "I k" and run: "running_ready k" and recv: "rt_event_recv e evs opt timeout k = Some (r, v, k')"
  shows "I k'"
proof (cases "evs = 0")
  case True
  then show ?thesis using recv I by (auto simp: rt_event_recv_def bind_Some_iff)
next
  case False
  then obtain t where cur: "current_thread k = Some t"
    using recv by (auto simp: rt_event_recv_def rt_thread_self_def bind_Some_iff)
  let ?k1 = "thread_set_error t RT_EOK k"
  have I1: "I ?k1" by (rule upd_inv [OF I])
  consider a b x where "k' = thr_upd t (\<lambda>x. x\<lparr>th_event_set := a, th_event_info := b\<rparr>) ?k1
        \<or> k' = event_put e x (thr_upd t (\<lambda>x. x\<lparr>th_event_set := a, th_event_info := b\<rparr>) ?k1)"
    | err where "k' = thread_set_error t err ?k1"
    | a b where "ipc_wait (Event_q e) t (o_flag (k_obj ?k1 (K_event e))) timeout
        (thr_upd t (\<lambda>x. x\<lparr>th_event_set := a, th_event_info := b\<rparr>) ?k1) = Some k'"
    using recv cur False
    by (auto simp: rt_event_recv_def rt_thread_self_def bind_Some_iff Let_def split: if_splits)
  then show ?thesis
  proof cases
    case (1 a b x)
    then show ?thesis using inv_data [OF I1] upd_inv by auto
  next
    case (3 a b)
    have "thread_state (thr_upd t (\<lambda>x. x\<lparr>th_event_set := a, th_event_info := b\<rparr>) ?k1) t = RT_THREAD_READY"
      using run cur by (simp add: running_ready_def)
    then show ?thesis using ipc_wait_inv [OF inv_data [OF I1] _ _ 3] by simp
  qed (use I1 upd_inv in simp)
qed

lemma event_control_inv: "I k \<Longrightarrow> rt_event_control e cmd k = Some (r, k') \<Longrightarrow> I k'"
  by (auto simp: rt_event_control_def bind_Some_iff split: ipc_cmd.splits
      dest!: ipc_resume_all_inv intro: upd_inv inv_schedule)

lemma mb_send_loop_inv:
  assumes I: "I k" and st: "\<And>t. th = Some t \<Longrightarrow> thread_state k t = RT_THREAD_READY"
    and snd: "mb_send_loop th m v timeout k = Some (r, k')"
  shows "I k'"
proof (cases "mb_entry (k_mb k m) = mb_size (k_mb k m)")
  case True
  then obtain t where t: "th = Some t" using snd by (auto simp: mb_send_loop_def bind_Some_iff)
  have st1: "thread_state (thread_set_error t RT_EOK k) t = RT_THREAD_READY"
    using st [OF t] by simp
  show ?thesis
    using snd True t ipc_wait_inv [OF upd_inv(5) [OF I] st1, of "Mb_send_q m"] upd_inv(5) [OF I]
    by (auto simp: mb_send_loop_def bind_Some_iff Let_def split: if_splits)
next
  case False
  then show ?thesis
    using snd upd_inv(3) [OF I] wake_first_inv [OF upd_inv(3) [OF I]]
    by (auto simp: mb_send_loop_def bind_Some_iff Let_def split: if_splits)
qed

lemma mb_recv_loop_inv:
  assumes I: "I k" and st: "\<And>t. th = Some t \<Longrightarrow> thread_state k t = RT_THREAD_READY"
    and rcv: "mb_recv_loop th m timeout k = Some (r, v, k')"
  shows "I k'"
proof (cases "mb_entry (k_mb k m) = 0")
  case True
  then obtain t where t: "th = Some t" using rcv by (auto simp: mb_recv_loop_def bind_Some_iff)
  have st1: "thread_state (thread_set_error t RT_EOK k) t = RT_THREAD_READY"
    using st [OF t] by simp
  show ?thesis
    using rcv True t ipc_wait_inv [OF upd_inv(5) [OF I] st1, of "Mb_q m"] upd_inv(5) [OF upd_inv(5) [OF I]]
    by (auto simp: mb_recv_loop_def bind_Some_iff Let_def split: if_splits)
next
  case False
  then show ?thesis
    using rcv upd_inv(3) [OF I] wake_first_inv [OF upd_inv(3) [OF I]]
    by (auto simp: mb_recv_loop_def bind_Some_iff Let_def split: if_splits)
qed

lemma mq_send_loop_inv:
  assumes I: "I k" and st: "\<And>t. th = Some t \<Longrightarrow> thread_state k t = RT_THREAD_READY"
    and snd: "mq_send_loop th q bs n timeout k = Some (r, k')"
  shows "I k'"
proof (cases "mq_free (k_mq k q)")
  case None
  then obtain t where t: "th = Some t" using snd by (auto simp: mq_send_loop_def bind_Some_iff)
  have st1: "thread_state (thread_set_error t RT_EOK k) t = RT_THREAD_READY"
    using st [OF t] by simp
  show ?thesis
    using snd None t ipc_wait_inv [OF upd_inv(5) [OF I] st1, of "Mq_send_q q"] upd_inv(5) [OF I]
    by (auto simp: mq_send_loop_def bind_Some_iff Let_def split: if_splits)
next
  case (Some b)
  then show ?thesis
    using snd upd_inv(4) [OF I] wake_first_inv [OF upd_inv(4) [OF I]]
    by (auto simp: mq_send_loop_def bind_Some_iff Let_def case_prod_beta split: if_splits)
qed

lemma mq_recv_loop_inv:
  assumes I: "I k" and st: "\<And>t. th = Some t \<Longrightarrow> thread_state k t = RT_THREAD_READY"
    and rcv: "mq_recv_loop th q n timeout k = Some (r, v, k')"
  shows "I k'"
proof (cases "mq_entry (k_mq k q) = 0")
  case True
  then obtain t where t: "th = Some t" using rcv by (auto simp: mq_recv_loop_def bind_Some_iff)
  have st1: "thread_state (thread_set_error t RT_EOK k) t = RT_THREAD_READY"
    using st [OF t] by simp
  show ?thesis
    using rcv True t ipc_wait_inv [OF upd_inv(5) [OF I] st1, of "Mq_q q"] upd_inv(5) [OF upd_inv(5) [OF I]]
    by (auto simp: mq_recv_loop_def bind_Some_iff Let_def split: if_splits)
next
  case False
  then show ?thesis
    using rcv upd_inv(4) [OF I] wake_first_inv [OF upd_inv(4) [OF I]]
    by (auto simp: mq_recv_loop_def bind_Some_iff Let_def split: if_splits)
qed

lemma mq_urgent_inv: "I k \<Longrightarrow> rt_mq_urgent q bs n k = Some (r, k') \<Longrightarrow> I k'"
  by (auto simp: rt_mq_urgent_def bind_Some_iff Let_def case_prod_beta split: if_splits option.splits
      dest: wake_first_inv [rotated] intro: upd_inv)

lemma mb_control_inv: "I k \<Longrightarrow> rt_mb_control m cmd k = Some (r, k') \<Longrightarrow> I k'"
  by (auto simp: rt_mb_control_def bind_Some_iff split: ipc_cmd.splits
      dest!: ipc_resume_all_inv intro: upd_inv inv_schedule)

lemma mq_control_inv: "I k \<Longrightarrow> rt_mq_control q cmd k = Some (r, k') \<Longrightarrow> I k'"
  by (auto simp: rt_mq_control_def bind_Some_iff split: ipc_cmd.splits
      dest!: ipc_resume_all_inv intro: upd_inv inv_schedule)

lemma detach_inv:
  "I k \<Longrightarrow> rt_mutex_detach n k = Some k' \<Longrightarrow> I k'"
  "I k \<Longrightarrow> rt_event_detach n k = Some k' \<Longrightarrow> I k'"
  "I k \<Longrightarrow> rt_mb_detach n k = Some k' \<Longrightarrow> I k'"
  "I k \<Longrightarrow> rt_mq_detach n k = Some k' \<Longrightarrow> I k'"
  by (auto simp: rt_mutex_detach_def rt_event_detach_def rt_mb_detach_def rt_mq_detach_def bind_Some_iff
      dest!: ipc_resume_all_inv intro!: inv_detach)

end

section \<open>The scheduler invariant\<close>

lemma suspend_keeps_sched:
  "sched_wf k \<Longrightarrow> waiting_queue h \<Longrightarrow> thread_state k t = RT_THREAD_READY \<Longrightarrow>
   rt_ipc_list_suspend h t flag k = Some k' \<Longrightarrow> sched_wf k'"
  using rt_ipc_list_suspend_wf(1) by blast

lemma arm_keeps_sched:
  assumes "sched_wf k" "rt_timer_start p (tmr_upd p f k) = Some k'"
  shows "sched_wf k'"
proof -
  have "sched_same k (tmr_upd p f k)" by (simp add: sched_same_def)
  from sched_same_trans [OF this rt_timer_start_same [OF assms(2)]] assms(1) show ?thesis
    by (simp add: sched_wf_def sched_wf_cong)
qed

lemma resume_keeps_sched:
  assumes "sched_wf k" "rt_thread_resume t k = Some (r, k')"
  shows "sched_wf k'"
proof (cases "thread_state k t = RT_THREAD_SUSPEND")
  case True
  then show ?thesis using rt_thread_resume_wf(2) [OF assms(1) True assms(2)] by simp
next
  case False
  then show ?thesis using assms by (auto simp: rt_thread_resume_def resume_unlink_def)
qed

lemma detach_keeps_sched: "sched_wf k \<Longrightarrow> sched_wf (rt_object_detach ob k)"
  using rt_object_detach_is_same [of "{}"] by (simp add: sched_wf_def)

interpretation sched: kernel_invariant sched_wf
proof unfold_locales
  fix k k' t p
  show "sched_wf k \<Longrightarrow> data_only k k' \<Longrightarrow> sched_wf k'" by (simp add: data_only_wf)
  show "sched_wf k \<Longrightarrow> sched_wf (mutex_upd m f k)" for m f using data_only_wf [of k "mutex_upd m f k"] by simp
  show "sched_wf k \<Longrightarrow> p < RT_THREAD_PRIORITY_MAX \<Longrightarrow> thread_change_priority t p k = Some k' \<Longrightarrow> sched_wf k'"
    by (rule thread_change_priority_wf(1))
qed (fact suspend_keeps_sched arm_keeps_sched resume_keeps_sched
  | erule detach_keeps_sched | erule (1) rt_schedule_wf [rotated] arm_keeps_sched | assumption)+

section \<open>The timer invariant\<close>

lemma remove_thread_form_ex:
  "rt_schedule_remove_thread t k = Some k' \<Longrightarrow>
   \<exists>g. k' = k\<lparr>k_list := (\<lambda>h. filter (\<lambda>x. x \<noteq> t) (k_list k h)), ready_priority_group := g\<rparr>"
  using rt_schedule_remove_thread_form by blast

lemma timers_wfD:
  assumes "timers_wf d k"
  shows timers_wf_sorted: "timers_sorted d k"
    and timers_wf_active: "p \<in> set (timer_list k) \<Longrightarrow> timer_active k p"
    and timers_wf_suspended: "K_thread_timer t \<in> set (timer_list k) \<Longrightarrow>
          thread_state k t = RT_THREAD_SUSPEND \<and> rt_object_get_type k (K_thread t) = RT_Object_Class_Thread"
    and timers_wf_func: "rt_object_get_type k (K_thread t) = RT_Object_Class_Thread \<Longrightarrow>
          tm_timeout_func (k_tmr k (K_thread_timer t)) = Thread_timeout t \<and> \<not> timer_periodic k (K_thread_timer t)"
    and timers_wf_user: "tm_timeout_func (k_tmr k p) = Thread_timeout t \<Longrightarrow> p = K_thread_timer t"
  using assms by (simp_all add: timers_wf_def)

lemma timers_wf_filter:
  assumes wf: "timers_wf d k" and L: "timer_list k' = filter P (timer_list k)"
    and tmr: "k_tmr k' = k_tmr k" and tick: "rt_tick k' = rt_tick k"
    and fl: "\<And>q. P q \<Longrightarrow> q \<in> set (timer_list k) \<Longrightarrow> timer_active k' q = timer_active k q"
    and ty: "\<And>t. o_type (k_obj k' (K_thread t)) = o_type (k_obj k (K_thread t))"
    and per: "\<And>t. timer_periodic k' (K_thread_timer t) = timer_periodic k (K_thread_timer t)"
    and st: "\<And>t. P (K_thread_timer t) \<Longrightarrow> thread_state k t = RT_THREAD_SUSPEND \<Longrightarrow>
          thread_state k' t = RT_THREAD_SUSPEND"
  shows "timers_wf d k'"
  using timers_sorted_filter [OF timers_wf_sorted [OF wf] tmr tick L] wf fl st
  unfolding timers_wf_def L tmr rt_object_get_type_def ty per by auto

lemma timer_flags_cong [simp]:
  "timer_active (thr_upd t f k) p = timer_active k p" "timer_periodic (thr_upd t f k) p = timer_periodic k p"
  "timer_active (tlist_remove t k) p = timer_active k p" "timer_periodic (tlist_remove t k) p = timer_periodic k p"
  by (simp_all add: timer_active_def timer_periodic_def)

lemma timer_flag_clear_periodic [simp]:
  "timer_periodic (timer_flag_clear 1 p k) q = timer_periodic k q"
proof -
  have "(f AND NOT 1) AND 2 = f AND (2 :: u8)" for f
    by (simp add: ac_simps)
  then show ?thesis by (simp add: timer_periodic_def timer_flag_clear_def)
qed

lemma timer_remove_flags [simp]:
  "timer_active (rt_timer_remove p k) q = timer_active k q"
  "timer_periodic (rt_timer_remove p k) q = timer_periodic k q"
  by (simp_all add: timer_active_def timer_periodic_def)

lemma timer_flag_clear_other [simp]:
  "q \<noteq> p \<Longrightarrow> timer_active (timer_flag_clear m p k) q = timer_active k q"
  "o_type (k_obj (timer_flag_clear m p k) q) = o_type (k_obj k q)"
  by (simp_all add: timer_active_def timer_flag_clear_def)

lemmas timers_wf_cong = timers_wf_filter [where P = "\<lambda>_. True", simplified]

lemma timer_stop_timers:
  assumes wf: "timers_wf d k" and stop: "rt_timer_stop p k = Some (r, k')"
  shows "timers_wf d k'" "p \<notin> set (timer_list k')"
proof -
  have L: "timer_list k' = filter (\<lambda>q. q \<noteq> p) (timer_list k)"
  proof (cases "timer_active k p")
    case False
    then have "p \<notin> set (timer_list k)" "k' = k"
      using timers_wf_active [OF wf] stop by (auto simp: rt_timer_stop_def)
    then show ?thesis by (simp add: filter_True [symmetric]) (metis (mono_tags, lifting) filter_True)
  qed (use stop in \<open>auto simp: rt_timer_stop_def\<close>)
  then show "p \<notin> set (timer_list k')" by simp
  show "timers_wf d k'"
    using stop
    by (intro timers_wf_filter [OF wf L])
      (auto simp: rt_timer_stop_def thread_state_def split: if_splits)
qed

lemma suspend_timers:
  assumes wf: "timers_wf d k" and sus: "rt_thread_suspend t k = Some (r, k')"
  shows "timers_wf d k'"
proof (cases "thread_state k t = RT_THREAD_READY")
  case True
  then obtain k1 r' where k1: "rt_schedule_remove_thread t k = Some k1"
    and stop: "rt_timer_stop (K_thread_timer t) (thr_upd t (set_stat RT_THREAD_SUSPEND) k1) = Some (r', k')"
    using sus by (auto simp: rt_thread_suspend_def bind_Some_iff Let_def)
  from remove_thread_form_ex [OF k1] obtain g
    where F: "k1 = k\<lparr>k_list := (\<lambda>h. filter (\<lambda>x. x \<noteq> t) (k_list k h)), ready_priority_group := g\<rparr>" by blast
  have "timers_wf d (thr_upd t (set_stat RT_THREAD_SUSPEND) k1)"
    by (rule timers_wf_cong [OF wf]) (simp_all add: F thread_state_def timer_active_def timer_periodic_def)
  then show ?thesis using timer_stop_timers(1) [OF _ stop] by blast
qed (use assms in \<open>auto simp: rt_thread_suspend_def\<close>)

lemma ipc_suspend_timers:
  assumes wf: "timers_wf d k" and sus: "rt_ipc_list_suspend h t flag k = Some k'"
  shows "timers_wf d k'"
proof -
  obtain r k1 where k1: "rt_thread_suspend t k = Some (r, k1)"
    and k': "k' = k1 \<or> (\<exists>l. k' = k1\<lparr>k_list := l\<rparr>)"
    using sus unfolding rt_ipc_list_suspend_def tlist_insert_before_def
    by (auto simp: bind_Some_iff split: if_splits)
  have "timers_wf d (k1\<lparr>k_list := l\<rparr>)" for l
    by (rule timers_wf_cong [OF suspend_timers [OF wf k1]]) (simp_all add: thread_state_def timer_active_def timer_periodic_def)
  then show ?thesis using k' suspend_timers [OF wf k1] by blast
qed

lemma resume_timers:
  assumes wf: "timers_wf d k" and res: "rt_thread_resume t k = Some (r, k')"
  shows "timers_wf d k'"
proof (cases "thread_state k t = RT_THREAD_SUSPEND")
  case True
  then obtain k2 r' where stop: "rt_timer_stop (K_thread_timer t) (tlist_remove t k) = Some (r', k2)"
    and ins: "rt_schedule_insert_thread t k2 = Some k'"
    using res by (auto simp: rt_thread_resume_def resume_unlink_def bind_Some_iff Let_def)
  have "timers_wf d (tlist_remove t k)"
    by (rule timers_wf_cong [OF wf]) (simp_all add: thread_state_def timer_active_def timer_periodic_def)
  note S = timer_stop_timers [OF this stop] and F = rt_schedule_insert_thread_form [OF ins]
  have L: "timer_list k' = filter (\<lambda>q. q \<noteq> K_thread_timer t) (timer_list k2)"
    using S(2) by (simp add: F) (metis (mono_tags, lifting) filter_True)
  show ?thesis by (rule timers_wf_filter [OF S(1) L]) (simp_all add: F thread_state_def timer_active_def timer_periodic_def)
qed (use assms in \<open>auto simp: rt_thread_resume_def resume_unlink_def\<close>)

lemma timer_start_timers:
  assumes d: "d \<le> 1" and wf: "timers_wf d k" and start: "rt_timer_start p k = Some k'"
    and thr: "\<And>t. p = K_thread_timer t \<Longrightarrow>
          thread_state k t = RT_THREAD_SUSPEND \<and> rt_object_get_type k (K_thread t) = RT_Object_Class_Thread"
  shows "timers_wf d k'"
proof -
  note S = rt_timer_start_list [OF d timers_wf_sorted [OF wf] start] and F = rt_timer_start_form [OF start]
  have ty: "p \<noteq> K_thread t" if "rt_object_get_type k (K_thread t) = RT_Object_Class_Thread" for t
    using start that by (auto simp: rt_timer_start_def bind_Some_iff)
  have st: "thread_state k' s = thread_state k s"
    and gt: "rt_object_get_type k' q = rt_object_get_type k q"
    and fn: "tm_timeout_func (k_tmr k' q) = tm_timeout_func (k_tmr k q)"
    and ob: "q \<noteq> p \<Longrightarrow> k_obj k' q = k_obj k q" for s q
    by (subst F, simp add: thread_state_def rt_object_get_type_def)+
  have "((f AND NOT 1) OR 1) AND 2 = f AND (2 :: u8)" for f
    by (simp add: bit_eq_iff bit_simps) (auto simp: bit_simps)
  then have per: "timer_periodic k' q = timer_periodic k q" for q
    by (cases "q = p") (simp add: timer_periodic_def, subst F, simp, simp add: timer_periodic_def ob)
  show ?thesis
    unfolding timers_wf_def st gt fn per
  proof (intro conjI allI impI ballI)
    show "timer_active k' q" if "q \<in> set (timer_list k')" for q
      using that S(2,6) timers_wf_active [OF wf, of q] ob [of q] by (cases "q = p") (auto simp: timer_active_def)
  qed (use S(1,6) thr timers_wf_suspended [OF wf] timers_wf_func [OF wf] timers_wf_user [OF wf] in auto)
qed

lemma arm_timers:
  assumes d: "d \<le> 1" and wf: "timers_wf d k" and st: "thread_state k t = RT_THREAD_SUSPEND"
    and thr: "rt_object_get_type k (K_thread t) = RT_Object_Class_Thread"
    and arm: "rt_timer_start (K_thread_timer t) (tmr_upd (K_thread_timer t) (\<lambda>tm. tm\<lparr>tm_init_tick := v\<rparr>) k) = Some k'"
  shows "timers_wf d k'"
proof -
  let ?k1 = "tmr_upd (K_thread_timer t) (\<lambda>tm. tm\<lparr>tm_init_tick := v\<rparr>) k"
  have "timer_off d ?k1 q = timer_off d k q" for q by (simp add: timer_off_def)
  then have "timers_wf d ?k1"
    using wf by (auto simp: timers_wf_def timers_sorted_def timer_active_def timer_periodic_def thread_state_def
        rt_object_get_type_def)
  then show ?thesis
    using st thr by (intro timer_start_timers [OF d _ arm]) (auto simp: thread_state_def rt_object_get_type_def)
qed

lemma priority_timers:
  assumes wf: "timers_wf d k" and cp: "thread_change_priority t p k = Some k'"
  shows "timers_wf d k'"
proof (cases "thread_state k t = RT_THREAD_READY")
  case True
  then obtain k1 where k1: "rt_schedule_remove_thread t k = Some k1"
    and ins: "rt_schedule_insert_thread t (thr_upd t (set_priority p) k1) = Some k'"
    using cp by (auto simp: thread_change_priority_def bind_Some_iff Let_def)
  from remove_thread_form_ex [OF k1] obtain g
    where F: "k1 = k\<lparr>k_list := (\<lambda>h. filter (\<lambda>x. x \<noteq> t) (k_list k h)), ready_priority_group := g\<rparr>" by blast
  have "thread_state k' s = RT_THREAD_SUSPEND" if "thread_state k s = RT_THREAD_SUSPEND" for s
    using that True by (auto simp: rt_schedule_insert_thread_form [OF ins] F thread_state_def set_priority_def)
  then show ?thesis
    by (intro timers_wf_cong [OF wf]) (simp_all add: rt_schedule_insert_thread_form [OF ins] F timer_active_def timer_periodic_def)
next
  case False
  then have k': "k' = thr_upd t (set_priority p) k"
    using cp by (simp add: thread_change_priority_def split: if_splits)
  show ?thesis by (rule timers_wf_cong [OF wf]) (auto simp: k' thread_state_def set_priority_def)
qed

lemma schedule_timers:
  assumes "timers_wf d k" "rt_schedule k = Some k'"
  shows "timers_wf d k'"
proof -
  obtain p c where "k' = k\<lparr>rt_current_priority := p, current_thread := c\<rparr>"
    using rt_schedule_form [OF assms(2)] by blast
  then show ?thesis by (intro timers_wf_cong [OF assms(1)]) (simp_all add: thread_state_def timer_active_def timer_periodic_def)
qed

lemma data_timers: "timers_wf d k \<Longrightarrow> data_only k k' \<Longrightarrow> timers_wf d k'"
  by (rule timers_wf_cong) (auto simp: data_only_def sched_same_def thread_state_def timer_active_def timer_periodic_def)

lemma detach_timers:
  assumes wf: "timers_wf d k" and ob: "ipc_object ob"
  shows "timers_wf d (rt_object_detach ob k)"
proof -
  have "ob \<noteq> K_thread t" for t using ob by auto
  then show ?thesis
    by (intro timers_wf_cong [OF wf])
      (auto simp: rt_object_detach_def object_unlink_def thread_state_def timer_active_def timer_periodic_def)
qed

lemma mutex_prio_ok_cong: "mutex_prio_ok k \<Longrightarrow> k_mutex k' = k_mutex k \<Longrightarrow> mutex_prio_ok k'"
  by (simp add: mutex_prio_ok_def)

lemma mutex_prio_ok_upd: "mutex_prio_ok k \<Longrightarrow> mutex_prio_cond (f (k_mutex k m)) \<Longrightarrow> mutex_prio_ok (mutex_upd m f k)"
  by (simp add: mutex_prio_ok_def)

lemma thread_frame_mutex: "thread_frame X k k' \<Longrightarrow> k_mutex k' = k_mutex k"
  by (simp add: thread_frame_def)

lemma resume_frame:
  assumes "sched_wf k" "rt_thread_resume t k = Some (r, k')"
  shows "thread_frame {t} k k'" "current_thread k' = current_thread k"
    "thread_state k s = RT_THREAD_READY \<Longrightarrow> thread_state k' s = RT_THREAD_READY"
proof -
  have "thread_frame {t} k k' \<and> current_thread k' = current_thread k
      \<and> (thread_state k s = RT_THREAD_READY \<longrightarrow> thread_state k' s = RT_THREAD_READY)"
  proof (cases "thread_state k t = RT_THREAD_SUSPEND")
    case True
    note R = rt_thread_resume_wf [OF assms(1) True assms(2)]
    then show ?thesis using True by (cases "s = t") (auto simp: thread_frame_def thread_state_def)
  qed (use assms in \<open>auto simp: rt_thread_resume_def resume_unlink_def\<close>)
  then show "thread_frame {t} k k'" "current_thread k' = current_thread k"
    "thread_state k s = RT_THREAD_READY \<Longrightarrow> thread_state k' s = RT_THREAD_READY" by blast+
qed

lemma start_mutex: "rt_timer_start p k = Some k' \<Longrightarrow> k_mutex k' = k_mutex k"
  by (subst rt_timer_start_form, assumption) simp

lemma kernel_inv_invariant:
  assumes d: "d \<le> 1"
  shows "kernel_invariant (kernel_inv d)"
proof unfold_locales
  fix k k' h t flag v r p ob f m
  assume I: "kernel_inv d k"
  then have wf: "sched_wf k" and tw: "timers_wf d k" and mp: "mutex_prio_ok k" by (simp_all add: kernel_inv_def)
  show "sched_wf k" by (rule wf)
  show "kernel_inv d k'" if "data_only k k'" "k_mutex k' = k_mutex k"
    using data_only_wf [OF that(1)] wf data_timers [OF tw that(1)] mutex_prio_ok_cong [OF mp that(2)]
    by (simp add: kernel_inv_def)
  show "kernel_inv d (mutex_upd m f k)" if "mutex_prio_cond (f (k_mutex k m))"
    using data_only_wf [of k "mutex_upd m f k"] wf data_timers [OF tw, of "mutex_upd m f k"] mutex_prio_ok_upd [OF mp, of f, OF that]
    by (simp add: kernel_inv_def)
  show "kernel_inv d k'" if h: "waiting_queue h" "thread_state k t = RT_THREAD_READY" and s: "rt_ipc_list_suspend h t flag k = Some k'"
    using rt_ipc_list_suspend_wf [OF wf h(2,1) s] ipc_suspend_timers [OF tw s] mutex_prio_ok_cong [OF mp thread_frame_mutex]
    unfolding kernel_inv_def by blast
  show "kernel_inv d k'" if st: "thread_state k t = RT_THREAD_SUSPEND"
      "rt_object_get_type k (K_thread t) = RT_Object_Class_Thread"
      and arm: "rt_timer_start (K_thread_timer t) (tmr_upd (K_thread_timer t) (\<lambda>tm. tm\<lparr>tm_init_tick := v\<rparr>) k) = Some k'"
    using arm_keeps_sched [OF wf arm] arm_timers [OF d tw st arm] mutex_prio_ok_cong [OF mp, of k'] start_mutex [OF arm]
    by (simp add: kernel_inv_def)
  show "kernel_inv d k'" if res: "rt_thread_resume t k = Some (r, k')"
    using resume_keeps_sched [OF wf res] resume_timers [OF tw res]
      mutex_prio_ok_cong [OF mp thread_frame_mutex [OF resume_frame(1) [OF wf res]]]
    by (simp add: kernel_inv_def)
  show "kernel_inv d k'" if p: "p < RT_THREAD_PRIORITY_MAX" and cp: "thread_change_priority t p k = Some k'"
    using thread_change_priority_wf(1,2) [OF wf p cp] priority_timers [OF tw cp] mutex_prio_ok_cong [OF mp thread_frame_mutex]
    unfolding kernel_inv_def by blast
  show "kernel_inv d k'" if sch: "rt_schedule k = Some k'"
    using rt_schedule_wf [OF sch wf] schedule_timers [OF tw sch]
      mutex_prio_ok_cong [OF mp thread_frame_mutex [OF rt_schedule_frame [OF sch]]]
    by (simp add: kernel_inv_def)
  show "kernel_inv d (rt_object_detach ob k)" if "ipc_object ob"
    using detach_keeps_sched [OF wf] detach_timers [OF tw that] mutex_prio_ok_cong [OF mp, of "rt_object_detach ob k"]
    by (simp add: kernel_inv_def rt_object_detach_def object_unlink_def)
qed

interpretation kern: kernel_invariant "kernel_inv 0"
  by (rule kernel_inv_invariant) simp

interpretation ticking: kernel_invariant "kernel_inv 1"
  by (rule kernel_inv_invariant) simp

section \<open>The scheduler lock\<close>

text \<open>While the scheduler is locked, no operation changes the running thread; none changes the lock.\<close>

lemma lock_invariant:
  "kernel_invariant (\<lambda>k. sched_wf k \<and> scheduler_lock_nest k = n \<and> (n \<noteq> 0 \<longrightarrow> current_thread k = c)
    \<and> (c \<noteq> None \<longrightarrow> current_thread k \<noteq> None))"
proof unfold_locales
  fix k k' h t flag v r p ob f m
  assume I: "sched_wf k \<and> scheduler_lock_nest k = n \<and> (n \<noteq> 0 \<longrightarrow> current_thread k = c)
    \<and> (c \<noteq> None \<longrightarrow> current_thread k \<noteq> None)"
  then have wf: "sched_wf k" and l: "scheduler_lock_nest k = n" and c: "n \<noteq> 0 \<longrightarrow> current_thread k = c"
    "c \<noteq> None \<longrightarrow> current_thread k \<noteq> None" by simp_all
  let ?I = "\<lambda>k. sched_wf k \<and> scheduler_lock_nest k = n \<and> (n \<noteq> 0 \<longrightarrow> current_thread k = c)
    \<and> (c \<noteq> None \<longrightarrow> current_thread k \<noteq> None)"
  have fr: "?I k'" if "sched_wf k'" "thread_frame X k k'" "current_thread k' = current_thread k" for X
    using that l c by (simp add: thread_frame_def)
  show "sched_wf k" by (rule wf)
  have dat: "?I k1" if "data_only k k1" for k1 using that I data_only_wf [OF that] by (simp add: data_only_def)
  show "?I k'" if "data_only k k'" by (rule dat [OF that])
  show "?I (mutex_upd m f k)" by (rule dat) simp
  show "?I k'" if "waiting_queue h" "thread_state k t = RT_THREAD_READY" "rt_ipc_list_suspend h t flag k = Some k'"
    using fr rt_ipc_list_suspend_wf [OF wf that(2,1,3)] by blast
  show "?I k'"
    if arm: "rt_timer_start (K_thread_timer t) (tmr_upd (K_thread_timer t) (\<lambda>tm. tm\<lparr>tm_init_tick := v\<rparr>) k) = Some k'"
  proof -
    have "scheduler_lock_nest k' = scheduler_lock_nest k" "current_thread k' = current_thread k"
      by (subst rt_timer_start_form [OF arm], simp)+
    then show ?thesis using arm_keeps_sched [OF wf arm] l c by simp
  qed
  show "?I k'" if "rt_thread_resume t k = Some (r, k')"
    using fr resume_keeps_sched [OF wf that] resume_frame [OF wf that] by blast
  show "?I k'" if "p < RT_THREAD_PRIORITY_MAX" "thread_change_priority t p k = Some k'"
    using fr thread_change_priority_wf [OF wf that] by blast
  show "?I k'" if sch: "rt_schedule k = Some k'"
  proof (cases "n = 0")
    case True
    then show ?thesis
      using rt_schedule_wf [OF sch wf] rt_schedule_frame [OF sch] rt_schedule_current [OF sch] l c
      by (simp add: thread_frame_def)
  next
    case False
    then show ?thesis using sch I by (simp add: rt_schedule_def)
  qed
  show "?I (rt_object_detach ob k)"
    using I detach_keeps_sched [OF wf] by (simp add: rt_object_detach_def object_unlink_def)
qed

interpretation lock: kernel_invariant "\<lambda>k. sched_wf k \<and> scheduler_lock_nest k = n \<and> (n \<noteq> 0 \<longrightarrow> current_thread k = c)
    \<and> (c \<noteq> None \<longrightarrow> current_thread k \<noteq> None)"
  for n c
  by (rule lock_invariant)

end
