(* ===== verification/Kernel_Tick.thy ===== *)
theory Kernel_Tick
  imports Kernel_Inv
begin

text \<open>
  The tick interrupt: \<^verbatim>\<open>rt_tick_increase\<close> and the loop of \<^verbatim>\<open>rt_timer_check\<close>. The loop keeps the scheduler and
  timer invariants, leaves no due timer behind, and wakes exactly the threads whose timers are due.
\<close>

section \<open>Definitions\<close>

text \<open>A number of tick interrupts in a row.\<close>

fun ticks :: "user_fun \<Rightarrow> nat \<Rightarrow> kstate \<Rightarrow> kstate option" where
  "ticks uf 0 k = Some k"
| "ticks uf (Suc n) k = do { k1 \<leftarrow> rt_tick_increase uf k; ticks uf n k1 }"

text \<open>Kernels in which every active timer is the timer of a thread.\<close>

definition thread_timers_only :: "kstate \<Rightarrow> bool" where
  "thread_timers_only k \<longleftrightarrow> (\<forall>p \<in> set (timer_list k). \<exists>t. p = K_thread_timer t)"

definition sleeping_ok :: "kstate \<Rightarrow> bool" where
  "sleeping_ok k \<longleftrightarrow> sched_wf k \<and> timers_wf 0 k \<and> stacks_ok k \<and> thread_timers_only k \<and> current_thread k \<noteq> None"

text \<open>The state while the callbacks run, and user callbacks that keep a property of the kernel.\<close>

definition tick_inv :: "kstate \<Rightarrow> bool" where
  "tick_inv k \<longleftrightarrow> sched_wf k \<and> timers_wf 1 k"

definition callbacks_keep :: "user_fun \<Rightarrow> (kstate \<Rightarrow> bool) \<Rightarrow> bool" where
  "callbacks_keep uf J \<longleftrightarrow> (\<forall>n k k'. J k \<longrightarrow> uf (CB_timer n) k = Some k' \<longrightarrow> J k')"

section \<open>Firing a timer\<close>

lemma due_off:
  fixes o1 :: u32
  assumes "o1 < RT_TICK_HALF + 1"
  shows "1 - o1 < RT_TICK_HALF \<longleftrightarrow> o1 \<le> 1"
proof -
  have "unat o1 < 2147483648" using assms by (simp add: word_less_nat_alt)
  then show ?thesis
    by (simp add: word_less_nat_alt word_le_nat_alt unat_sub_if') linarith
qed

lemma timer_due_iff:
  assumes "timers_wf 1 k" "p \<in> set (timer_list k)"
  shows "timer_due (rt_tick k) k p \<longleftrightarrow> timer_off 1 k p \<le> 1"
proof -
  have "rt_tick k - tm_timeout_tick (k_tmr k p) = 1 - timer_off 1 k p" by (simp add: timer_off_def)
  then show ?thesis
    using due_off [OF timers_window [OF timers_wf_sorted [OF assms(1)] assms(2)]] by (simp add: timer_due_def)
qed

lemma timer_off_0: "timer_off 0 k p = timer_off 1 k p - 1"
  by (simp add: timer_off_def)

text \<open>Between two ticks: advancing the tick, and closing the check when nothing is due any more.\<close>

lemma tick_advance_timers:
  assumes "timers_wf 0 k"
  shows "timers_wf 1 (k\<lparr>rt_tick := rt_tick k + 1\<rparr>)"
proof -
  have off: "timer_off 1 (k\<lparr>rt_tick := rt_tick k + 1\<rparr>) p = timer_off 0 k p" for p by (simp add: timer_off_def)
  have win: "x < RT_TICK_HALF \<Longrightarrow> x < 2147483648" for x :: u32 by (simp add: word_less_nat_alt)
  from assms show ?thesis
    by (auto simp: timers_wf_def timers_sorted_def off timer_active_def timer_periodic_def thread_state_def
        rt_object_get_type_def intro: win)
qed

lemma no_due_timers:
  assumes wf: "timers_wf 1 k" and head: "timer_list k = p # ps" "\<not> timer_due (rt_tick k) k p"
    and q: "q \<in> set (timer_list k)"
  shows "1 < timer_off 1 k q"
proof -
  have "timer_off 1 k p \<le> timer_off 1 k q"
    using timers_order [OF timers_wf_sorted [OF wf]] q by (auto simp: head(1))
  moreover have "1 < timer_off 1 k p" using timer_due_iff [OF wf, of p] head by simp
  ultimately show ?thesis by simp
qed

lemma off_pred:
  fixes a b :: u32
  assumes "1 < a"
  shows "a < RT_TICK_HALF + 1 \<Longrightarrow> a - 1 < RT_TICK_HALF" "1 < b \<Longrightarrow> a \<le> b \<Longrightarrow> a - 1 \<le> b - 1" "0 < a - 1"
proof -
  have a: "1 < unat a" "unat (a - 1) = unat a - 1"
    using assms by (simp_all add: word_less_nat_alt unat_sub_if')
  then show "a < RT_TICK_HALF + 1 \<Longrightarrow> a - 1 < RT_TICK_HALF" "0 < a - 1"
    by (simp_all add: word_less_nat_alt)
  assume "1 < b" "a \<le> b"
  then have "unat (b - 1) = unat b - 1" "unat a \<le> unat b"
    by (simp_all add: word_less_nat_alt unat_sub_if' word_le_nat_alt)
  then show "a - 1 \<le> b - 1" using a by (simp add: word_le_nat_alt)
qed

lemma tick_done_timers:
  assumes wf: "timers_wf 1 k" and due: "\<And>q. q \<in> set (timer_list k) \<Longrightarrow> 1 < timer_off 1 k q"
  shows "timers_wf 0 k"
proof -
  note S = timers_wf_sorted [OF wf]
  have "sorted_wrt (\<lambda>p q. timer_off 0 k p \<le> timer_off 0 k q) (timer_list k)"
    unfolding timer_off_0 using timers_order [OF S] due off_pred(2)
    by (intro sorted_wrt_mono_rel [OF _ timers_order [OF S]]) blast
  moreover have "timer_off 0 k p < RT_TICK_HALF + 0" if "p \<in> set (timer_list k)" for p
    using off_pred(1) [OF due [OF that]] timers_window [OF S that] by (simp add: timer_off_0)
  ultimately have "timers_sorted 0 k" using timers_distinct [OF S] by (simp add: timers_sorted_def)
  then show ?thesis using wf by (simp add: timers_wf_def)
qed

text \<open>The state in which the callback of timer \<open>p\<close> runs.\<close>

lemma fire_start:
  fixes p :: kptr
  assumes wf: "sched_wf k" "timers_wf d k"
  defines "k1 \<equiv> rt_timer_remove p k"
  defines "k2 \<equiv> (if timer_periodic k1 p then k1 else timer_flag_clear RT_TIMER_FLAG_ACTIVATED p k1)"
  defines "k3 \<equiv> k2\<lparr>timer_check_list := p # timer_check_list k2\<rparr>"
  shows "sched_wf k3" "timers_wf d k3" "timer_list k3 = filter (\<lambda>q. q \<noteq> p) (timer_list k)"
    "timer_check_list k3 \<noteq> []" "k_tmr k3 = k_tmr k" "k_thr k3 = k_thr k" "k_list k3 = k_list k"
    "timer_periodic k3 q = timer_periodic k q" "rt_object_get_type k3 q = rt_object_get_type k q"
proof -
  have same: "sched_same k k3"
    by (auto simp: k3_def k2_def k1_def sched_same_def timer_flag_clear_def rt_timer_remove_def)
  then show "sched_wf k3" using wf(1) by (simp add: sched_wf_def sched_wf_cong)
  have per: "timer_periodic k3 q = timer_periodic k q" for q
  proof -
    have "timer_periodic k3 q = timer_periodic k2 q" by (simp add: k3_def timer_periodic_def)
    also have "\<dots> = timer_periodic k q" by (simp add: k2_def k1_def)
    finally show ?thesis .
  qed
  then show "timer_periodic k3 q = timer_periodic k q" .
  show L: "timer_list k3 = filter (\<lambda>q. q \<noteq> p) (timer_list k)" and tmr: "k_tmr k3 = k_tmr k"
    and "timer_check_list k3 \<noteq> []" "k_thr k3 = k_thr k" "k_list k3 = k_list k"
    by (simp_all add: k3_def k2_def k1_def)
  have ty: "o_type (k_obj k3 q) = o_type (k_obj k q)" for q by (simp add: k3_def k2_def k1_def)
  then show "rt_object_get_type k3 q = rt_object_get_type k q" by (simp add: rt_object_get_type_def)
  show "timers_wf d k3"
  proof (rule timers_wf_filter [OF wf(2) L tmr])
    show "timer_active k3 q = timer_active k q" if "q \<noteq> p" for q
      using that by (simp add: k3_def k2_def k1_def timer_active_def timer_flag_clear_def)
  qed (use ty per in \<open>simp_all add: k3_def k2_def k1_def thread_state_def\<close>)
qed

lemma thread_timer_fire:
  assumes wf: "sched_wf k" "timers_wf d k" and t: "K_thread_timer t \<in> set (timer_list k)"
    and fire: "timer_fire uf (K_thread_timer t) k = Some k'"
  shows "sched_wf k'" "timers_wf d k'" "thread_state k' t = RT_THREAD_READY"
    "th_error (k_thr k' t) = - RT_ETIMEOUT" "thread_frame {t} k k'"
    "timer_list k' = filter (\<lambda>q. q \<noteq> K_thread_timer t) (timer_list k)" "k_tmr k' = k_tmr k"
    "\<exists>k1 k2. rt_thread_timeout t k1 = Some k2 \<and> sched_wf k1 \<and> k' = rt_timer_remove (K_thread_timer t) k2"
    "k_thr k' t = set_stat RT_THREAD_READY ((k_thr k t)\<lparr>th_error := - RT_ETIMEOUT\<rparr>)"
    "current_thread k \<noteq> None \<Longrightarrow> current_thread k' \<noteq> None"
proof -
  let ?p = "K_thread_timer t"
  note F = timers_wf_suspended [OF wf(2) t]
  note N = timers_wf_func [OF wf(2) conjunct2 [OF F]]
  define k3 where "k3 = (timer_flag_clear 1 ?p (rt_timer_remove ?p k))
      \<lparr>timer_check_list := ?p # timer_check_list (timer_flag_clear 1 ?p (rt_timer_remove ?p k))\<rparr>"
  have S: "sched_wf k3" "timers_wf d k3" "timer_list k3 = filter (\<lambda>q. q \<noteq> ?p) (timer_list k)"
    "timer_check_list k3 \<noteq> []" "k_tmr k3 = k_tmr k" "k_thr k3 = k_thr k" "\<not> timer_periodic k3 ?p"
    using fire_start [OF wf, of ?p] N by (simp_all add: k3_def)
  have fr3: "thread_frame {t} k k3"
    by (simp add: k3_def thread_frame_def timer_flag_clear_def rt_timer_remove_def)
  obtain k4 where k4: "rt_thread_timeout t k3 = Some k4"
    and rest: "(if timer_check_list k4 = [] then Some k4
       else let k5 = rt_timer_remove ?p k4 in
         if timer_periodic k5 ?p \<and> timer_active k5 ?p
         then rt_timer_start ?p (timer_flag_clear 1 ?p k5) else Some k5) = Some k'"
    using fire N by (auto simp: timer_fire_def run_timeout_func_def Let_def bind_Some_iff k3_def)
  note T = rt_thread_timeout_wf [OF S(1) k4]
  have k': "k' = rt_timer_remove ?p k4"
    using rest T(7,8) S(4,7) by (auto simp: Let_def timer_periodic_def)
  have L4: "timer_list k' = filter (\<lambda>q. q \<noteq> ?p) (timer_list k3)" using T(6) by (simp add: k')
  then show "timer_list k' = filter (\<lambda>q. q \<noteq> ?p) (timer_list k)" using S(3) by simp
  show "k_tmr k' = k_tmr k" using T(9) S(5) by (simp add: k')
  have same: "sched_same k4 k'" unfolding k' by (rule rt_timer_remove_same)
  show "sched_wf k'" using T(1) sched_wf_cong [OF same] by (simp add: sched_wf_def)
  show "thread_state k' t = RT_THREAD_READY" using T(3) thread_state_same [OF same] by simp
  show "th_error (k_thr k' t) = - RT_ETIMEOUT" using T(4) by (simp add: k')
  have fr: "thread_frame {t} k3 k'"
    using T(5) by (simp add: thread_frame_def k' rt_timer_remove_def)
  then show "thread_frame {t} k k'" by (rule thread_frame_trans1 [OF fr3])
  show "timers_wf d k'"
  proof (rule timers_wf_filter [OF S(2) L4])
    show "thread_state k' s = RT_THREAD_SUSPEND"
      if "K_thread_timer s \<noteq> ?p" "thread_state k3 s = RT_THREAD_SUSPEND" for s
      using that fr by (simp add: thread_frame_def thread_state_def)
  qed (use T(8,9) S(5) fr in \<open>simp_all add: k' thread_frame_def timer_active_def timer_periodic_def\<close>)
  show "\<exists>k1 k2. rt_thread_timeout t k1 = Some k2 \<and> sched_wf k1 \<and> k' = rt_timer_remove ?p k2"
    using k4 S(1) k' by blast
  show "k_thr k' t = set_stat RT_THREAD_READY ((k_thr k t)\<lparr>th_error := - RT_ETIMEOUT\<rparr>)"
    using T(10) S(6) by (simp add: k')
  show "current_thread k \<noteq> None \<Longrightarrow> current_thread k' \<noteq> None"
    using T(11) by (simp add: k' k3_def rt_timer_remove_def timer_flag_clear_def)
qed

lemma thread_timer_fire_succeeds:
  assumes wf: "sched_wf k" "timers_wf d k" and stk: "stacks_ok k" and t: "K_thread_timer t \<in> set (timer_list k)"
  obtains k' where "timer_fire uf (K_thread_timer t) k = Some k'"
proof -
  let ?p = "K_thread_timer t"
  note F = timers_wf_suspended [OF wf(2) t]
  note N = timers_wf_func [OF wf(2) conjunct2 [OF F]]
  define k3 where "k3 = (timer_flag_clear 1 ?p (rt_timer_remove ?p k))
      \<lparr>timer_check_list := ?p # timer_check_list (timer_flag_clear 1 ?p (rt_timer_remove ?p k))\<rparr>"
  note S = fire_start [OF wf, of ?p, folded k3_def]
  have S': "sched_wf k3" "timer_check_list k3 \<noteq> []" "k_tmr k3 = k_tmr k" "k_thr k3 = k_thr k"
    "\<not> timer_periodic k3 ?p" "rt_object_get_type k3 (K_thread t) = RT_Object_Class_Thread"
    using fire_start [OF wf, of ?p] F N by (simp_all add: k3_def)
  have "stacks_ok k3" by (rule stacks_ok_cong [OF stk]) (simp_all add: S'(4) thread_state_def)
  moreover have "thread_state k3 t = RT_THREAD_SUSPEND" using F by (simp add: thread_state_def S'(4))
  ultimately obtain k4 where k4: "rt_thread_timeout t k3 = Some k4"
    using rt_thread_timeout_succeeds [OF S'(1) _ S'(6)] by blast
  note T = rt_thread_timeout_wf [OF S'(1) k4]
  have "timer_fire uf ?p k = Some (rt_timer_remove ?p k4)"
    using N k4 T(7,8) S'(2,3,5)
    by (simp add: timer_fire_def run_timeout_func_def Let_def k3_def [symmetric] timer_periodic_def)
  then show thesis by (rule that)
qed

text \<open>A user callback: it keeps the invariants, and so does the restart of a periodic timer.\<close>

lemma timer_remove_inv:
  assumes "kernel_inv d k"
  shows "kernel_inv d (rt_timer_remove p k)" "kernel_inv d (timer_flag_clear 1 p (rt_timer_remove p k))"
proof -
  let ?k5 = "rt_timer_remove p k" and ?k6 = "timer_flag_clear 1 p (rt_timer_remove p k)"
  have "sched_wf ?k5" "sched_wf ?k6"
    using assms sched_wf_cong [OF rt_timer_remove_same] sched_wf_cong [OF timer_flag_clear_same]
    by (simp_all add: sched_wf_def kernel_inv_def)
  moreover have tw: "timers_wf d k" using assms by (simp add: kernel_inv_def)
  then have "timers_wf d ?k5" "timers_wf d ?k6"
    by (rule timers_wf_filter [OF _, where P = "\<lambda>q. q \<noteq> p"]; simp add: thread_state_def)+
  moreover have "k_mutex ?k5 = k_mutex k" "k_mutex ?k6 = k_mutex k"
    by (simp_all add: rt_timer_remove_def timer_flag_clear_def)
  ultimately show "kernel_inv d ?k5" "kernel_inv d ?k6"
    using assms by (simp_all add: kernel_inv_def mutex_prio_ok_def)
qed

lemma timer_start_inv:
  assumes d: "d \<le> 1" and I: "kernel_inv d k" and p: "\<nexists>t. p = K_thread_timer t" and start: "rt_timer_start p k = Some k'"
  shows "kernel_inv d k'"
proof -
  have "timers_wf d k'" using I p by (intro timer_start_timers [OF d _ start]) (auto simp: kernel_inv_def)
  moreover have "sched_wf k'"
    using sched_wf_cong [OF rt_timer_start_same [OF start]] I by (simp add: sched_wf_def kernel_inv_def)
  ultimately show ?thesis using I start_mutex [OF start] by (simp add: kernel_inv_def mutex_prio_ok_def)
qed

lemma timer_restart_inv:
  assumes I: "kernel_inv 1 k" and p: "\<nexists>t. p = K_thread_timer t"
    and k': "k' = k \<or> k' = rt_timer_remove p k \<or> rt_timer_start p (timer_flag_clear 1 p (rt_timer_remove p k)) = Some k'"
  shows "kernel_inv 1 k'"
  using k' I timer_remove_inv [OF I] timer_start_inv [OF order_refl timer_remove_inv(2) [OF I] p] by blast

lemma timer_fire_inv:
  assumes I: "kernel_inv 1 k" and p: "p \<in> set (timer_list k)"
    and uf: "callbacks_keep uf (kernel_inv 1)"
    and fire: "timer_fire uf p k = Some k'"
  shows "kernel_inv 1 k'"
proof -
  have wf: "sched_wf k" "timers_wf 1 k" and mp: "mutex_prio_ok k" using I by (simp_all add: kernel_inv_def)
  show ?thesis
  proof (cases "\<exists>t. p = K_thread_timer t")
    case True
    then obtain t where t: "p = K_thread_timer t" by blast
    note F = thread_timer_fire [OF wf p [unfolded t] fire [unfolded t]]
    show ?thesis
      using F(1,2) mutex_prio_ok_cong [OF mp thread_frame_mutex [OF F(5)]] by (simp add: kernel_inv_def)
  next
    case False
    then obtain n where n: "tm_timeout_func (k_tmr k p) = User_timeout n"
      using timers_wf_user [OF wf(2)] by (cases "tm_timeout_func (k_tmr k p)") blast+
    define k1 where "k1 = rt_timer_remove p k"
    define k2 where "k2 = (if timer_periodic k1 p then k1 else timer_flag_clear RT_TIMER_FLAG_ACTIVATED p k1)"
    define k3 where "k3 = k2\<lparr>timer_check_list := p # timer_check_list k2\<rparr>"
    note S = fire_start [OF wf, of p, folded k1_def, folded k2_def, folded k3_def]
    have "k_mutex k3 = k_mutex k" by (simp add: k3_def k2_def k1_def rt_timer_remove_def timer_flag_clear_def)
    then have I3: "kernel_inv 1 k3" using S(1,2) mutex_prio_ok_cong [OF mp] by (simp add: kernel_inv_def)
    obtain k4 where k4: "uf (CB_timer n) k3 = Some k4"
      and rest: "k' = k4 \<or> k' = rt_timer_remove p k4
        \<or> rt_timer_start p (timer_flag_clear 1 p (rt_timer_remove p k4)) = Some k'"
      using fire
      unfolding timer_fire_def Let_def k1_def [symmetric] k2_def [symmetric] k3_def [symmetric] run_timeout_func_def S(5) n
      by (auto simp: bind_Some_iff split: if_splits)
    have I4: "kernel_inv 1 k4" using uf I3 k4 unfolding callbacks_keep_def by blast
    show ?thesis using timer_restart_inv [OF I4 _ rest] False by blast
  qed
qed

section \<open>The check\<close>

lemma timer_check_loop_inv:
  assumes loop: "timer_check_loop uf now k = Some k'"
  shows "callbacks_keep uf (kernel_inv 1) \<longrightarrow> now = rt_tick k \<longrightarrow> kernel_inv 1 k \<longrightarrow>
    kernel_inv 1 k' \<and> (\<forall>q \<in> set (timer_list k'). 1 < timer_off 1 k' q)"
proof (rule timer_check_loop.raw_induct [where P = "\<lambda>uf now k y.
      callbacks_keep uf (kernel_inv 1) \<longrightarrow> now = rt_tick k \<longrightarrow> kernel_inv 1 k \<longrightarrow>
      kernel_inv 1 y \<and> (\<forall>q \<in> set (timer_list y). 1 < timer_off 1 y q)", OF _ loop], goal_cases)
  case (1 f uf now k y)
  show ?case
  proof (intro impI)
    assume uf: "callbacks_keep uf (kernel_inv 1)" and now: "now = rt_tick k" and I: "kernel_inv 1 k"
    have wf: "sched_wf k" "timers_wf 1 k" using I by (simp_all add: kernel_inv_def)
    show "kernel_inv 1 y \<and> (\<forall>q \<in> set (timer_list y). 1 < timer_off 1 y q)"
    proof (cases "timer_list k")
      case Nil
      then show ?thesis using 1(2) I by simp
    next
      case (Cons p ps)
      show ?thesis
      proof (cases "timer_due now k p")
        case True
        then obtain k1 where k1: "timer_fire uf p k = Some k1" and y: "f uf (rt_tick k1) k1 = Some y"
          using 1(2) Cons by (auto simp: bind_Some_iff)
        have "kernel_inv 1 k1" by (rule timer_fire_inv [OF I _ uf k1]) (simp add: Cons)
        then show ?thesis using 1(1) [OF y] uf by blast
      next
        case False
        then have "y = k" using 1(2) Cons by simp
        then show ?thesis using I no_due_timers [OF wf(2) Cons] False now by simp
      qed
    qed
  qed
qed

lemma rt_timer_check_inv:
  assumes uf: "callbacks_keep uf (kernel_inv 1)" and I: "kernel_inv 1 k" and chk: "rt_timer_check uf k = Some k'"
  shows "kernel_inv 0 k'" "\<And>q. q \<in> set (timer_list k') \<Longrightarrow> 0 < timer_off 0 k' q"
proof -
  let ?k1 = "k\<lparr>timer_check_list := []\<rparr>"
  have wf: "sched_wf k" "timers_wf 1 k" using I by (simp_all add: kernel_inv_def)
  have "sched_same k ?k1" by (simp add: sched_same_def)
  then have wf1: "sched_wf ?k1" using wf(1) by (simp add: sched_wf_def sched_wf_cong)
  have "timers_wf 1 ?k1"
    by (rule timers_wf_cong [OF wf(2)]) (simp_all add: timer_active_def timer_periodic_def thread_state_def)
  with wf1 have I1: "kernel_inv 1 ?k1" using I by (simp add: kernel_inv_def mutex_prio_ok_def)
  have loop: "timer_check_loop uf (rt_tick k) ?k1 = Some k'" using chk by (simp add: rt_timer_check_def rt_tick_get_def)
  have W: "kernel_inv 1 k'" "\<And>q. q \<in> set (timer_list k') \<Longrightarrow> 1 < timer_off 1 k' q"
    using timer_check_loop_inv [OF loop] uf I1 by simp_all
  then show "kernel_inv 0 k'" using tick_done_timers [of k'] by (simp add: kernel_inv_def)
  show "0 < timer_off 0 k' q" if "q \<in> set (timer_list k')" for q
    using off_pred(3) [OF W(2) [OF that]] by (simp add: timer_off_0)
qed

lemma timer_check_loop_wakes:
  assumes "sched_wf k" "timers_wf 1 k" "stacks_ok k" "\<forall>p \<in> set (timer_list k). \<exists>t. p = K_thread_timer t"
  shows "\<exists>k'. timer_check_loop uf (rt_tick k) k = Some k' \<and> sched_wf k' \<and> timers_wf 1 k' \<and> stacks_ok k' \<and> k_tmr k' = k_tmr k \<and> rt_tick k' = rt_tick k
     \<and> (current_thread k \<noteq> None \<longrightarrow> current_thread k' \<noteq> None)
     \<and> timer_list k' = filter (\<lambda>p. 1 < timer_off 1 k p) (timer_list k)
     \<and> (\<forall>t. if K_thread_timer t \<in> set (timer_list k) \<and> timer_off 1 k (K_thread_timer t) \<le> 1
            then thread_state k' t = RT_THREAD_READY \<and> th_error (k_thr k' t) = - RT_ETIMEOUT
            else k_thr k' t = k_thr k t)"
  using assms
proof (induction "timer_list k" arbitrary: k)
  case Nil
  then show ?case by (intro exI [of _ k]) (subst timer_check_loop.simps, simp)
next
  case (Cons p ps)
  note L = Cons.hyps(2) [symmetric] and wf = Cons.prems(1,2)
  obtain t where t: "p = K_thread_timer t" using Cons.prems(4) L by auto
  have in': "K_thread_timer t \<in> set (timer_list k)" by (simp add: L t)
  have dist: "p \<notin> set ps" using timers_distinct [OF timers_wf_sorted [OF wf(2)]] by (simp add: L)
  have due: "timer_due (rt_tick k) k p \<longleftrightarrow> timer_off 1 k p \<le> 1" using timer_due_iff [OF wf(2), of p] L by simp
  show ?case
  proof (cases "timer_off 1 k p \<le> 1")
    case True
    obtain k1 where k1: "timer_fire uf p k = Some k1"
      using thread_timer_fire_succeeds [OF wf Cons.prems(3) in'] unfolding t by blast
    note F = thread_timer_fire [OF wf in' k1 [unfolded t]]
    have L1: "timer_list k1 = ps" using F(6) dist by (simp add: L t) (metis (mono_tags, lifting) filter_True)
    have tick: "rt_tick k1 = rt_tick k" using F(5) by (simp add: thread_frame_def)
    have off: "timer_off 1 k1 q = timer_off 1 k q" for q by (simp add: timer_off_def F(7) tick)
    have thr: "s \<noteq> t \<Longrightarrow> k_thr k1 s = k_thr k s" for s using F(5) by (simp add: thread_frame_def)
    have fld: "th_stack_guard (k_thr k1 s) = th_stack_guard (k_thr k s)" "th_sp (k_thr k1 s) = th_sp (k_thr k s)"
        "th_stack_addr (k_thr k1 s) = th_stack_addr (k_thr k s)"
        "th_stack_size (k_thr k1 s) = th_stack_size (k_thr k s)" for s
      by (cases "s = t"; simp add: F(9) thr)+
    have stk: "stacks_ok k1"
    proof (rule stacks_ok_cong [OF Cons.prems(3)])
      show "thread_state k s = RT_THREAD_READY \<or> thread_state k s = RT_THREAD_SUSPEND"
        if "thread_state k1 s = RT_THREAD_READY \<or> thread_state k1 s = RT_THREAD_SUSPEND" for s
        using that thr [of s] timers_wf_suspended [OF wf(2) in'] by (cases "s = t") (auto simp: thread_state_def)
    qed (simp_all add: fld)
    obtain k' where loop: "timer_check_loop uf (rt_tick k1) k1 = Some k'"
      and inv: "sched_wf k' \<and> timers_wf 1 k' \<and> stacks_ok k' \<and> k_tmr k' = k_tmr k1 \<and> rt_tick k' = rt_tick k1
        \<and> (current_thread k1 \<noteq> None \<longrightarrow> current_thread k' \<noteq> None)"
      and L': "timer_list k' = filter (\<lambda>q. 1 < timer_off 1 k1 q) (timer_list k1)"
      and W: "\<And>s. if K_thread_timer s \<in> set (timer_list k1) \<and> timer_off 1 k1 (K_thread_timer s) \<le> 1
            then thread_state k' s = RT_THREAD_READY \<and> th_error (k_thr k' s) = - RT_ETIMEOUT
            else k_thr k' s = k_thr k1 s"
      using Cons.hyps(1) [of k1] L1 F(1,2) stk Cons.prems(4) L by auto
    have "timer_check_loop uf (rt_tick k) k = Some k'"
      using L k1 loop True due by (subst timer_check_loop.simps) (simp add: tick)
    moreover have "timer_list k' = filter (\<lambda>q. 1 < timer_off 1 k q) (timer_list k)"
      using L' L1 True by (simp add: L off)
    moreover have "if K_thread_timer s \<in> set (timer_list k) \<and> timer_off 1 k (K_thread_timer s) \<le> 1
            then thread_state k' s = RT_THREAD_READY \<and> th_error (k_thr k' s) = - RT_ETIMEOUT
            else k_thr k' s = k_thr k s" for s
      using W [of s] F(3,4) dist thr [of s] True
      by (cases "s = t") (auto simp: L1 off L t thread_state_def split: if_splits)
    moreover have "sched_wf k' \<and> timers_wf 1 k' \<and> stacks_ok k' \<and> k_tmr k' = k_tmr k \<and> rt_tick k' = rt_tick k
        \<and> (current_thread k \<noteq> None \<longrightarrow> current_thread k' \<noteq> None)"
      using inv F(7,10) tick by simp
    ultimately show ?thesis by blast
  next
    case False
    have "timer_check_loop uf (rt_tick k) k = Some k"
      using L False due by (subst timer_check_loop.simps) simp
    moreover have "\<forall>q \<in> set (timer_list k). 1 < timer_off 1 k q"
      using no_due_timers [OF wf(2) L] due False by blast
    ultimately show ?thesis using wf Cons.prems(3) by (intro exI [of _ k]) (auto simp: not_le [symmetric])
  qed
qed

lemma yield_timers:
  assumes wf: "timers_wf d k" and y: "rt_thread_yield k = Some k'"
  shows "timers_wf d k'"
proof -
  obtain k1 where k1: "k' = k \<or> (\<exists>t l. k1 = k\<lparr>k_list := l\<rparr> \<and> rt_schedule k1 = Some k')"
    using y by (auto simp: rt_thread_yield_def bind_Some_iff Let_def tlist_insert_before_def tlist_remove_def
        split: if_splits)
  have "timers_wf d (k\<lparr>k_list := l\<rparr>)" for l
    by (rule timers_wf_cong [OF wf]) (simp_all add: thread_state_def timer_active_def timer_periodic_def)
  then show ?thesis using k1 wf schedule_timers by blast
qed

lemma tick_slice_inv:
  assumes wf: "sched_wf k" "timers_wf 0 k" and sl: "tick_slice k = Some k'"
  shows "tick_inv k'"
proof -
  let ?k1 = "k\<lparr>rt_tick := rt_tick k + 1\<rparr>"
  have I1: "sched_wf ?k1" "timers_wf 1 ?k1"
    using wf sched_wf_cong [of k ?k1 "{}"] tick_advance_timers [OF wf(2)]
    by (simp_all add: sched_wf_def sched_same_def)
  obtain t where k': "k' = thr_upd t (\<lambda>th. th\<lparr>th_remaining_tick := th_remaining_tick th - 1\<rparr>) ?k1
      \<or> rt_thread_yield (thr_upd t (\<lambda>th. th\<lparr>th_remaining_tick := th_init_tick th\<rparr>)
          (thr_upd t (\<lambda>th. th\<lparr>th_remaining_tick := th_remaining_tick th - 1\<rparr>) ?k1)) = Some k'"
    using sl by (auto simp: tick_slice_def Let_def bind_Some_iff split: if_splits)
  have upd: "sched_wf (thr_upd t (\<lambda>th. th\<lparr>th_remaining_tick := g th\<rparr>) k0) \<and>
      timers_wf 1 (thr_upd t (\<lambda>th. th\<lparr>th_remaining_tick := g th\<rparr>) k0)"
    if "sched_wf k0" "timers_wf 1 k0" for g k0
  proof -
    have "sched_same k0 (thr_upd t (\<lambda>th. th\<lparr>th_remaining_tick := g th\<rparr>) k0)" by (rule thr_upd_same) simp_all
    then have "sched_wf (thr_upd t (\<lambda>th. th\<lparr>th_remaining_tick := g th\<rparr>) k0)"
      using that(1) sched_wf_cong by (simp add: sched_wf_def)
    moreover have "timers_wf 1 (thr_upd t (\<lambda>th. th\<lparr>th_remaining_tick := g th\<rparr>) k0)"
      by (rule timers_wf_cong [OF that(2)]) (auto simp: thread_state_def)
    ultimately show ?thesis ..
  qed
  note I2 = upd [OF I1] and I3 = upd [OF conjunct1 [OF upd [OF I1]] conjunct2 [OF upd [OF I1]]]
  from k' show ?thesis
  proof
    assume y: "rt_thread_yield (thr_upd t (\<lambda>th. th\<lparr>th_remaining_tick := th_init_tick th\<rparr>)
          (thr_upd t (\<lambda>th. th\<lparr>th_remaining_tick := th_remaining_tick th - 1\<rparr>) ?k1)) = Some k'"
    show ?thesis
      unfolding tick_inv_def using rt_thread_yield_wf [OF conjunct1 [OF I3] y] yield_timers [OF conjunct2 [OF I3] y] ..
  qed (use I2 in \<open>simp only: tick_inv_def\<close>)
qed

lemma yield_frame:
  assumes y: "rt_thread_yield k = Some k'"
  shows "k_thr k' = k_thr k" "timer_list k' = timer_list k" "k_tmr k' = k_tmr k" "rt_tick k' = rt_tick k"
    "current_thread k' \<noteq> None" "k_obj k' = k_obj k"
proof -
  obtain t where t: "current_thread k = Some t" using y by (auto simp: rt_thread_yield_def bind_Some_iff)
  have "k_thr k' = k_thr k \<and> timer_list k' = timer_list k \<and> k_tmr k' = k_tmr k \<and> rt_tick k' = rt_tick k
        \<and> current_thread k' \<noteq> None \<and> k_obj k' = k_obj k"
  proof (cases "k' = k")
    case False
    define k1 where "k1 = tlist_insert_before (Ready (th_current_priority (k_thr k t))) t (tlist_remove t k)"
    have sch: "rt_schedule k1 = Some k'"
      using y t False by (simp add: rt_thread_yield_def Let_def k1_def split: if_splits)
    obtain p c where "k' = k1\<lparr>rt_current_priority := p, current_thread := c\<rparr>" using rt_schedule_form [OF sch] by blast
    moreover have "current_thread k' \<noteq> None" using rt_schedule_current [OF sch] t by (simp add: k1_def tlist_insert_before_def)
    ultimately show ?thesis
      by (simp add: k1_def tlist_insert_before_def)
  qed (simp add: t)
  then show "k_thr k' = k_thr k" "timer_list k' = timer_list k" "k_tmr k' = k_tmr k" "rt_tick k' = rt_tick k"
    "current_thread k' \<noteq> None" "k_obj k' = k_obj k" by blast+
qed

lemma yield_succeeds:
  assumes wf: "sched_wf k" and stk: "stacks_ok k" and cur: "current_thread k = Some t"
  obtains k' where "rt_thread_yield k = Some k'"
proof (cases "thread_state k t = RT_THREAD_READY \<and> length (k_list k (Ready (th_current_priority (k_thr k t)))) \<ge> 2")
  case True
  let ?q = "Ready (th_current_priority (k_thr k t))"
  let ?k1 = "tlist_insert_before ?q t (tlist_remove t k)"
  have "sched_wf ?k1" using rotate_wf [OF wf] True by blast
  moreover have "stacks_ok ?k1" by (rule stacks_ok_cong [OF stk]) (simp_all add: thread_state_def)
  moreover have "thread_state ?k1 t = RT_THREAD_READY" using True by (simp add: thread_state_def)
  ultimately obtain k' where "rt_schedule ?k1 = Some k'" by (rule rt_schedule_succeeds)
  with True cur that show thesis by (simp add: rt_thread_yield_def Let_def)
next
  case False
  with cur that show thesis by (auto simp: rt_thread_yield_def Let_def)
qed

lemma tick_slice_frame:
  assumes sl: "tick_slice k = Some k'"
  shows "timer_list k' = timer_list k" "k_tmr k' = k_tmr k" "rt_tick k' = rt_tick k + 1" "current_thread k' \<noteq> None"
    "\<exists>t g. k_thr k' = (k_thr k)(t := (k_thr k t)\<lparr>th_remaining_tick := g\<rparr>)"
proof -
  let ?k1 = "k\<lparr>rt_tick := rt_tick k + 1\<rparr>"
  obtain t k2 where t: "current_thread k = Some t"
      and k2: "k2 = thr_upd t (\<lambda>th. th\<lparr>th_remaining_tick := th_remaining_tick th - 1\<rparr>) ?k1"
      and k': "k' = k2 \<or> rt_thread_yield (thr_upd t (\<lambda>th. th\<lparr>th_remaining_tick := th_init_tick th\<rparr>) k2) = Some k'"
    using sl by (auto simp: tick_slice_def Let_def bind_Some_iff rt_thread_self_def split: if_splits)
  show "timer_list k' = timer_list k" "k_tmr k' = k_tmr k" "rt_tick k' = rt_tick k + 1" "current_thread k' \<noteq> None"
    using k' yield_frame [of "thr_upd t (\<lambda>th. th\<lparr>th_remaining_tick := th_init_tick th\<rparr>) k2" k'] t
    by (auto simp: k2)
  show "\<exists>t g. k_thr k' = (k_thr k)(t := (k_thr k t)\<lparr>th_remaining_tick := g\<rparr>)"
    using k' yield_frame(1) [of "thr_upd t (\<lambda>th. th\<lparr>th_remaining_tick := th_init_tick th\<rparr>) k2" k']
    by (intro exI [of _ t]) (auto simp: k2)
qed

lemma tick_slice_succeeds:
  assumes wf: "sched_wf k" and stk: "stacks_ok k" and cur: "current_thread k \<noteq> None"
  obtains k' where "tick_slice k = Some k'"
proof -
  obtain t where t: "current_thread k = Some t" using cur by blast
  define k3 where "k3 = thr_upd t (\<lambda>th. th\<lparr>th_remaining_tick := th_init_tick th\<rparr>)
      (thr_upd t (\<lambda>th. th\<lparr>th_remaining_tick := th_remaining_tick th - 1\<rparr>) (k\<lparr>rt_tick := rt_tick k + 1\<rparr>))"
  have "sched_same k k3" by (simp add: k3_def sched_same_def)
  then have wf3: "sched_wf k3" using wf by (simp add: sched_wf_def sched_wf_cong)
  have "stacks_ok k3"
    by (rule stacks_ok_cong [OF stk]) (auto simp: k3_def thread_state_def split: if_splits)
  then obtain k4 where "rt_thread_yield k3 = Some k4"
    by (rule yield_succeeds [OF wf3 _, of t]) (simp add: k3_def t)
  then have "\<exists>k'. tick_slice k = Some k'"
    by (simp add: tick_slice_def Let_def rt_thread_self_def t k3_def)
  with that show thesis by blast
qed

lemma thr_fields_slice:
  assumes "\<exists>t g. k_thr k' = (k_thr k)(t := (k_thr k t)\<lparr>th_remaining_tick := g\<rparr>)"
  shows "thread_state k' s = thread_state k s" "th_error (k_thr k' s) = th_error (k_thr k s)"
    "stacks_ok k \<Longrightarrow> stacks_ok k'"
proof -
  obtain t g where k': "k_thr k' = (k_thr k)(t := (k_thr k t)\<lparr>th_remaining_tick := g\<rparr>)" using assms by blast
  show "thread_state k' s = thread_state k s" "th_error (k_thr k' s) = th_error (k_thr k s)"
    by (simp_all add: k' thread_state_def)
  show "stacks_ok k \<Longrightarrow> stacks_ok k'"
    by (erule stacks_ok_cong) (auto simp: k' thread_state_def split: if_splits)
qed

lemma timer_check_wakes:
  assumes I: "tick_inv k" and stk: "stacks_ok k" and only: "thread_timers_only k"
  obtains k' where "rt_timer_check uf k = Some k'" "sched_wf k'" "timers_wf 0 k'" "stacks_ok k'"
    "k_tmr k' = k_tmr k" "rt_tick k' = rt_tick k" "current_thread k \<noteq> None \<Longrightarrow> current_thread k' \<noteq> None"
    "timer_list k' = filter (\<lambda>p. 1 < timer_off 1 k p) (timer_list k)"
    "\<And>t. if K_thread_timer t \<in> set (timer_list k) \<and> timer_off 1 k (K_thread_timer t) \<le> 1
       then thread_state k' t = RT_THREAD_READY \<and> th_error (k_thr k' t) = - RT_ETIMEOUT
       else k_thr k' t = k_thr k t"
proof -
  let ?k1 = "k\<lparr>timer_check_list := []\<rparr>"
  have wf: "sched_wf k" "timers_wf 1 k" using I by (simp_all add: tick_inv_def)
  have wf1: "sched_wf ?k1" "timers_wf 1 ?k1"
    using wf sched_wf_cong [of k ?k1 "{}"] timers_wf_cong [OF wf(2), of ?k1]
    by (simp_all add: sched_wf_def sched_same_def timer_active_def timer_periodic_def thread_state_def)
  have stk1: "stacks_ok ?k1" by (rule stacks_ok_cong [OF stk]) (simp_all add: thread_state_def)
  have off: "timer_off 1 ?k1 p = timer_off 1 k p" for p by (simp add: timer_off_def)
  from timer_check_loop_wakes [OF wf1 stk1, of uf] only obtain k' where
    k': "timer_check_loop uf (rt_tick k) ?k1 = Some k'" "timer_list k' = filter (\<lambda>p. 1 < timer_off 1 k p) (timer_list k)"
    "\<And>t. if K_thread_timer t \<in> set (timer_list k) \<and> timer_off 1 k (K_thread_timer t) \<le> 1
       then thread_state k' t = RT_THREAD_READY \<and> th_error (k_thr k' t) = - RT_ETIMEOUT
       else k_thr k' t = k_thr k t"
    and inv: "sched_wf k'" "timers_wf 1 k'" "stacks_ok k'" "k_tmr k' = k_tmr k" "rt_tick k' = rt_tick k"
      "current_thread k \<noteq> None \<Longrightarrow> current_thread k' \<noteq> None"
    unfolding off by (auto simp: thread_timers_only_def)
  have chk: "rt_timer_check uf k = Some k'" using k'(1) by (simp add: rt_timer_check_def rt_tick_get_def)
  have "1 < timer_off 1 k' q" if "q \<in> set (timer_list k')" for q
    using that by (simp add: k'(2) timer_off_def inv(4,5))
  then have "timers_wf 0 k'" by (rule tick_done_timers [OF inv(2)])
  then show thesis using that [OF chk inv(1) _ inv(3-6) k'(2,3)] by blast
qed

lemma sleeping_tick:
  assumes ok: "sleeping_ok k"
  obtains k' where "rt_tick_increase uf k = Some k'" "sleeping_ok k'"
    "\<And>t. K_thread_timer t \<in> set (timer_list k) \<Longrightarrow> timer_off 0 k (K_thread_timer t) \<le> 1 \<Longrightarrow>
       thread_state k' t = RT_THREAD_READY \<and> th_error (k_thr k' t) = - RT_ETIMEOUT"
    "\<And>t. K_thread_timer t \<in> set (timer_list k) \<Longrightarrow> 1 < timer_off 0 k (K_thread_timer t) \<Longrightarrow>
       K_thread_timer t \<in> set (timer_list k')
       \<and> timer_off 0 k' (K_thread_timer t) = timer_off 0 k (K_thread_timer t) - 1"
proof -
  note D = ok [unfolded sleeping_ok_def]
  obtain k1 where k1: "tick_slice k = Some k1" using tick_slice_succeeds D by blast
  note F = tick_slice_frame [OF k1]
  note G = thr_fields_slice [OF F(5)]
  have I1: "tick_inv k1" using tick_slice_inv D k1 by blast
  have only1: "thread_timers_only k1" using D by (simp add: thread_timers_only_def F(1))
  have off: "timer_off 1 k1 p = timer_off 0 k p" for p by (simp add: timer_off_def F(2,3))
  obtain k' where k': "rt_timer_check uf k1 = Some k'" "sched_wf k'" "timers_wf 0 k'" "stacks_ok k'"
    "k_tmr k' = k_tmr k1" "rt_tick k' = rt_tick k1" "current_thread k1 \<noteq> None \<Longrightarrow> current_thread k' \<noteq> None"
    "timer_list k' = filter (\<lambda>p. 1 < timer_off 1 k1 p) (timer_list k1)"
    "\<And>t. if K_thread_timer t \<in> set (timer_list k1) \<and> timer_off 1 k1 (K_thread_timer t) \<le> 1
       then thread_state k' t = RT_THREAD_READY \<and> th_error (k_thr k' t) = - RT_ETIMEOUT
       else k_thr k' t = k_thr k1 t"
    using timer_check_wakes [OF I1 G(3) only1, of uf] D by blast
  show thesis
  proof (rule that [of k'])
    show "rt_tick_increase uf k = Some k'" using k1 k'(1) by (simp add: rt_tick_increase_def)
    show "sleeping_ok k'"
      using k'(2,3,4,7) F(4) only1 by (simp add: sleeping_ok_def thread_timers_only_def k'(8))
    show "thread_state k' t = RT_THREAD_READY \<and> th_error (k_thr k' t) = - RT_ETIMEOUT"
      if "K_thread_timer t \<in> set (timer_list k)" "timer_off 0 k (K_thread_timer t) \<le> 1" for t
      using k'(9) [of t] that by (simp add: off F(1))
    show "K_thread_timer t \<in> set (timer_list k')
       \<and> timer_off 0 k' (K_thread_timer t) = timer_off 0 k (K_thread_timer t) - 1"
      if "K_thread_timer t \<in> set (timer_list k)" "1 < timer_off 0 k (K_thread_timer t)" for t
      using that by (simp add: k'(8) off F(1)) (simp add: timer_off_def k'(5,6) F(2,3))
  qed
qed

lemma sleeping_ticks:
  assumes "sleeping_ok k" "K_thread_timer t \<in> set (timer_list k)" "m < unat (timer_off 0 k (K_thread_timer t))"
  shows "\<exists>k'. ticks uf m k = Some k' \<and> thread_state k' t = RT_THREAD_SUSPEND"
  using assms
proof (induction m arbitrary: k)
  case 0
  then show ?case using timers_wf_suspended [of 0 k t] by (simp add: sleeping_ok_def)
next
  case (Suc m)
  let ?o = "timer_off 0 k (K_thread_timer t)"
  have o: "1 < ?o" using Suc.prems(3) by (simp add: word_less_nat_alt)
  obtain k1 where k1: "rt_tick_increase uf k = Some k1" "sleeping_ok k1" "K_thread_timer t \<in> set (timer_list k1)"
      "timer_off 0 k1 (K_thread_timer t) = ?o - 1"
    using sleeping_tick [OF Suc.prems(1), of uf] Suc.prems(2) o by metis
  have "m < unat (?o - 1)" using Suc.prems(3) o by (simp add: unat_sub_if' word_less_nat_alt)
  then show ?case using Suc.IH [OF k1(2,3)] k1(1,4) by simp
qed

lemma sleeping_wakes:
  assumes "sleeping_ok k" "K_thread_timer t \<in> set (timer_list k)" "unat (timer_off 0 k (K_thread_timer t)) = Suc n"
  shows "\<exists>k'. ticks uf (Suc n) k = Some k' \<and> thread_state k' t = RT_THREAD_READY
     \<and> th_error (k_thr k' t) = - RT_ETIMEOUT \<and> sleeping_ok k'"
  using assms
proof (induction n arbitrary: k)
  case 0
  let ?o = "timer_off 0 k (K_thread_timer t)"
  have "?o \<le> 1" using 0(3) by (simp add: word_le_nat_alt)
  then obtain k1 where "rt_tick_increase uf k = Some k1" "sleeping_ok k1"
      "thread_state k1 t = RT_THREAD_READY \<and> th_error (k_thr k1 t) = - RT_ETIMEOUT"
    using sleeping_tick [OF 0(1), of uf] 0(2) by metis
  then show ?case by simp
next
  case (Suc n)
  let ?o = "timer_off 0 k (K_thread_timer t)"
  have o: "1 < ?o" using Suc.prems(3) by (simp add: word_less_nat_alt)
  obtain k1 where k1: "rt_tick_increase uf k = Some k1" "sleeping_ok k1" "K_thread_timer t \<in> set (timer_list k1)"
      "timer_off 0 k1 (K_thread_timer t) = ?o - 1"
    using sleeping_tick [OF Suc.prems(1), of uf] Suc.prems(2) o by metis
  have "unat (?o - 1) = Suc n" using Suc.prems(3) o by (simp add: unat_sub_if' word_less_nat_alt)
  then show ?case using Suc.IH [OF k1(2,3)] k1(1,4) by simp
qed

lemma suspend_timer_list:
  assumes sus: "rt_thread_suspend t k = Some (r, k')"
  shows "set (timer_list k') \<subseteq> set (timer_list k)"
proof (cases "thread_state k t = RT_THREAD_READY")
  case True
  then obtain k1 r' where k1: "rt_schedule_remove_thread t k = Some k1"
    and stop: "rt_timer_stop (K_thread_timer t) (thr_upd t (set_stat RT_THREAD_SUSPEND) k1) = Some (r', k')"
    using sus by (auto simp: rt_thread_suspend_def bind_Some_iff Let_def)
  obtain g where "k1 = k\<lparr>k_list := (\<lambda>h. filter (\<lambda>x. x \<noteq> t) (k_list k h)), ready_priority_group := g\<rparr>"
    using remove_thread_form_ex [OF k1] by blast
  then have "timer_list k1 = timer_list k" by simp
  moreover obtain l c ob where "k' = (thr_upd t (set_stat RT_THREAD_SUSPEND) k1)\<lparr>timer_list := l, timer_check_list := c, k_obj := ob\<rparr>"
      "set l \<subseteq> set (timer_list k1)"
    using rt_timer_stop_form [OF stop] by auto
  ultimately show ?thesis by simp
qed (use sus in \<open>auto simp: rt_thread_suspend_def\<close>)

lemma rt_thread_sleep_arms:
  assumes ok: "sleeping_ok k" and cur: "current_thread k = Some t" and st: "thread_state k t = RT_THREAD_READY"
    and sl: "rt_thread_sleep n k = Some (r, k')"
  shows "r = Wait C_sleep" "sleeping_ok k'" "K_thread_timer t \<in> set (timer_list k')"
    "timer_off 0 k' (K_thread_timer t) = n"
proof -
  note D = ok [unfolded sleeping_ok_def]
  have wf: "sched_wf k" "timers_wf 0 k" using D by auto
  let ?p = "K_thread_timer t"
  obtain x k1 k3 where k1: "rt_thread_suspend t k = Some (x, k1)"
    and k3: "rt_timer_start ?p (tmr_upd ?p (\<lambda>tm. tm\<lparr>tm_init_tick := n\<rparr>) k1) = Some k3"
    and sch: "rt_schedule k3 = Some k'" and r: "r = Wait C_sleep"
    and ty: "rt_object_get_type k (K_thread t) = RT_Object_Class_Thread"
    using sl cur
    by (auto simp: rt_thread_sleep_def thread_arm_def rt_timer_control_def bind_Some_iff)
  show "r = Wait C_sleep" by (rule r)
  let ?k2 = "tmr_upd ?p (\<lambda>tm. tm\<lparr>tm_init_tick := n\<rparr>) k1"
  note S = rt_thread_suspend_wf [OF wf(1) st k1]
  have wf1: "sched_wf k1" unfolding sched_wf_def using S(3,4) by (intro unlinked_wf [OF S(2)]) auto
  have tw1: "timers_wf 0 k1" by (rule suspend_timers [OF wf(2) k1])
  have ty1: "rt_object_get_type k1 (K_thread t) = RT_Object_Class_Thread"
    using thread_frame_type [OF S(6)] ty by simp
  have tw3: "timers_wf 0 k3" by (rule arm_timers [OF _ tw1 S(3) ty1 k3]) simp
  have wf3: "sched_wf k3" by (rule arm_keeps_sched [OF wf1 k3])
  have "timer_off 0 ?k2 q = timer_off 0 k1 q" for q by (simp add: timer_off_def)
  then have s2: "timers_sorted 0 ?k2" using timers_wf_sorted [OF tw1] by (simp add: timers_sorted_def)
  note T = rt_timer_start_list [OF _ s2 k3]
  have thr3: "k_thr k3 = k_thr k1" by (subst rt_timer_start_form [OF k3]) simp
  obtain p c where k': "k' = k3\<lparr>rt_current_priority := p, current_thread := c\<rparr>"
    using rt_schedule_form [OF sch] by blast
  have L': "set (timer_list k') = insert ?p (set (timer_list k1))" using T(6) by (simp add: k')
  then show "?p \<in> set (timer_list k')" by simp
  show "timer_off 0 k' ?p = n" using T(3) by (simp add: k' timer_off_def)
  have sub: "set (timer_list k1) \<subseteq> set (timer_list k)"
    by (rule suspend_timer_list [OF k1])
  have "thread_timers_only k'" using D sub L' by (auto simp: thread_timers_only_def)
  moreover have "stacks_ok k'"
  proof (rule stacks_ok_cong)
    show "stacks_ok k" using D by simp
    have thr: "k_thr k' s = (if s = t then set_stat RT_THREAD_SUSPEND (k_thr k t) else k_thr k s)" for s
      using S(5,6) thr3 by (simp add: k' thread_frame_def)
    show "th_stack_guard (k_thr k' s) = th_stack_guard (k_thr k s)" "th_sp (k_thr k' s) = th_sp (k_thr k s)"
      "th_stack_addr (k_thr k' s) = th_stack_addr (k_thr k s)" "th_stack_size (k_thr k' s) = th_stack_size (k_thr k s)"
      "thread_state k' s = RT_THREAD_READY \<or> thread_state k' s = RT_THREAD_SUSPEND \<Longrightarrow>
       thread_state k s = RT_THREAD_READY \<or> thread_state k s = RT_THREAD_SUSPEND" for s
      using st by (auto simp: thr thread_state_def split: if_splits)
  qed
  moreover have "current_thread k3 = current_thread k1" by (subst rt_timer_start_form [OF k3]) simp
  moreover have "current_thread k' \<noteq> None"
    using rt_schedule_current [OF sch] calculation(3) S(7) cur by simp
  ultimately show "sleeping_ok k'"
    unfolding sleeping_ok_def using rt_schedule_wf [OF sch wf3] schedule_timers [OF tw3 sch] by simp
qed

lemma rt_thread_sleep_succeeds:
  assumes ok: "sleeping_ok k" and cur: "current_thread k = Some t" and st: "thread_state k t = RT_THREAD_READY"
    and ty: "rt_object_get_type k (K_thread t) = RT_Object_Class_Thread"
      "rt_object_get_type k (K_thread_timer t) = RT_Object_Class_Timer"
    and n: "n < RT_TICK_HALF" and s: "s \<noteq> t" "thread_state k s = RT_THREAD_READY"
  obtains k' where "rt_thread_sleep n k = Some (Wait C_sleep, k')"
proof -
  note D = ok [unfolded sleeping_ok_def]
  have wf: "sched_wf k" "timers_wf 0 k" using D by auto
  let ?p = "K_thread_timer t"
  have "prio_ok (k_thr k t)" using sched_wf_prio_ok [of "{}" k t] wf(1) st by (simp add: sched_wf_def)
  then obtain k0 where k0: "rt_schedule_remove_thread t k = Some k0"
    using remove_thread_wf [of "{}" k t] wf(1) by (auto simp: sched_wf_def)
  obtain g where k0': "k0 = k\<lparr>k_list := (\<lambda>h. filter (\<lambda>x. x \<noteq> t) (k_list k h)), ready_priority_group := g\<rparr>"
    using remove_thread_form_ex [OF k0] by blast
  have "\<exists>x k1. rt_thread_suspend t k = Some (x, k1)"
    using st ty k0 by (simp add: rt_thread_suspend_def rt_timer_stop_def rt_object_get_type_def k0' Let_def)
  then obtain x k1 where k1: "rt_thread_suspend t k = Some (x, k1)" by blast
  note S = rt_thread_suspend_wf [OF wf(1) st k1]
  let ?k2 = "tmr_upd ?p (\<lambda>tm. tm\<lparr>tm_init_tick := n\<rparr>) k1"
  have ty2: "rt_object_get_type k1 ?p = RT_Object_Class_Timer" using thread_frame_type [OF S(6)] ty(2) by simp
  then have "rt_object_get_type ?k2 ?p = RT_Object_Class_Timer" by (simp add: rt_object_get_type_def)
  then obtain k3 where k3: "rt_timer_start ?p ?k2 = Some k3" using rt_timer_start_succeeds [of ?k2 ?p] n by auto
  have wf1: "sched_wf k1" unfolding sched_wf_def using S(3,4) by (intro unlinked_wf [OF S(2)]) auto
  have wf3: "sched_wf k3" by (rule arm_keeps_sched [OF wf1 k3])
  have thr3: "k_thr k3 = k_thr k1" by (subst rt_timer_start_form [OF k3]) simp
  have thr: "k_thr k3 u = (if u = t then set_stat RT_THREAD_SUSPEND (k_thr k t) else k_thr k u)" for u
    using S(5,6) by (simp add: thr3 thread_frame_def)
  have "stacks_ok k3"
    by (rule stacks_ok_cong [of k]) (use D st in \<open>auto simp: thr thread_state_def split: if_splits\<close>)
  moreover have "thread_state k3 s = RT_THREAD_READY" using s by (simp add: thr thread_state_def)
  ultimately obtain k' where sch: "rt_schedule k3 = Some k'" by (rule rt_schedule_succeeds [OF wf3])
  have "rt_thread_sleep n k = Some (Wait C_sleep, k')"
    using cur ty ty2 k1 k3 sch by (simp add: rt_thread_sleep_def thread_arm_def rt_timer_control_def)
  then show thesis by (rule that)
qed

section \<open>The sample system\<close>

lemma sample_kernel_stacks: "stacks_ok sample_kernel"
  unfolding stacks_ok_def
proof
  fix t
  show "rt_scheduler_stack_check sample_kernel t = Some ()
     \<or> thread_state sample_kernel t \<noteq> RT_THREAD_READY \<and> thread_state sample_kernel t \<noteq> RT_THREAD_SUSPEND"
    by (cases "t = 1 \<or> t = 2 \<or> t = 3")
      (auto simp: rt_scheduler_stack_check_def sample_kernel_state sample_kernel_thr sample_thread_def zero_thread_def
        add32_def)
qed

lemma sample_kernel_types:
  "rt_object_get_type sample_kernel (K_thread t) = RT_Object_Class_Thread"
  "rt_object_get_type sample_kernel (K_thread_timer t) = RT_Object_Class_Timer"
  "rt_object_get_type sample_kernel (K_sem n) = RT_Object_Class_Semaphore"
  "rt_object_get_type sample_kernel (K_mutex n) = RT_Object_Class_Mutex"
  "rt_object_get_type sample_kernel (K_event n) = RT_Object_Class_Event"
  "rt_object_get_type sample_kernel (K_mb n) = RT_Object_Class_MailBox"
  "rt_object_get_type sample_kernel (K_mq n) = RT_Object_Class_MessageQueue"
  by (simp_all add: rt_object_get_type_def sample_kernel_def sample_object_def)

lemma sample_kernel_fields [simp]:
  "timer_list sample_kernel = [K_thread_timer 3]" "rt_tick sample_kernel = 20" "current_thread sample_kernel = Some 2"
  "scheduler_lock_nest sample_kernel = 0" "interrupt_nest sample_kernel = 0"
  by (simp_all add: sample_kernel_def kernel_zero_def)

lemma sample_kernel_timers: "timers_wf 0 sample_kernel" "timers_wf 1 (sample_kernel\<lparr>rt_tick := 50\<rparr>)"
  by (auto simp: timers_wf_def timers_sorted_def timer_off_def timer_active_def timer_periodic_def
      sample_kernel_state sample_kernel_types thread_state_def sample_kernel_thr rt_object_get_type_def
      sample_kernel_def sample_object_def split: kptr.splits)

lemma sample_kernel_sleeping: "sleeping_ok sample_kernel"
  using sample_kernel_wf sample_kernel_timers(1) sample_kernel_stacks
  by (simp add: sleeping_ok_def thread_timers_only_def)

section \<open>Properties\<close>

text \<open>
  C20. The timer check of the tick interrupt. When every active timer belongs to a thread and no stack has
  overflowed, \<^verbatim>\<open>rt_timer_check\<close> terminates; it removes exactly the due timers from the timer list, keeping
  the order of the others; the threads of the due timers become READY with error \<^verbatim>\<open>-RT_ETIMEOUT\<close>, and no
  other thread changes. The scheduler and timer invariants hold again afterwards.
\<close>

theorem rt_timer_check_wakes_due:
  assumes "tick_inv k" and "stacks_ok k" and "thread_timers_only k"
  shows "\<exists>k'. rt_timer_check uf k = Some k' \<and> sched_wf k' \<and> timers_wf 0 k'
     \<and> timer_list k' = filter (\<lambda>p. \<not> timer_due (rt_tick k) k p) (timer_list k)
     \<and> (\<forall>t. if K_thread_timer t \<in> set (timer_list k) \<and> timer_due (rt_tick k) k (K_thread_timer t)
            then thread_state k' t = RT_THREAD_READY \<and> th_error (k_thr k' t) = - RT_ETIMEOUT
            else k_thr k' t = k_thr k t)"
proof -
  have due: "p \<in> set (timer_list k) \<Longrightarrow> timer_due (rt_tick k) k p \<longleftrightarrow> timer_off 1 k p \<le> 1" for p
    using timer_due_iff assms(1) by (simp add: tick_inv_def)
  obtain k' where k': "rt_timer_check uf k = Some k'" "sched_wf k'" "timers_wf 0 k'"
    "timer_list k' = filter (\<lambda>p. 1 < timer_off 1 k p) (timer_list k)"
    "\<And>t. if K_thread_timer t \<in> set (timer_list k) \<and> timer_off 1 k (K_thread_timer t) \<le> 1
       then thread_state k' t = RT_THREAD_READY \<and> th_error (k_thr k' t) = - RT_ETIMEOUT
       else k_thr k' t = k_thr k t"
    using timer_check_wakes [OF assms, of uf] by metis
  have L: "timer_list k' = filter (\<lambda>p. \<not> timer_due (rt_tick k) k p) (timer_list k)"
    unfolding k'(4) using due by (intro filter_cong) auto
  have W: "if K_thread_timer t \<in> set (timer_list k) \<and> timer_due (rt_tick k) k (K_thread_timer t)
       then thread_state k' t = RT_THREAD_READY \<and> th_error (k_thr k' t) = - RT_ETIMEOUT
       else k_thr k' t = k_thr k t" for t
    using k'(5) [of t] due [of "K_thread_timer t"] by (auto split: if_splits)
  show ?thesis using k'(1-3) L W by blast
qed

theorem rt_timer_check_wakes_due_witness:
  "\<exists>k'. rt_timer_check (\<lambda>_. Some) (sample_kernel\<lparr>rt_tick := 50\<rparr>) = Some k' \<and> timer_list k' = []
     \<and> thread_state k' 3 = RT_THREAD_READY \<and> th_error (k_thr k' 3) = - RT_ETIMEOUT"
proof -
  let ?k = "sample_kernel\<lparr>rt_tick := 50\<rparr>"
  have "sched_same sample_kernel ?k" by (simp add: sched_same_def)
  then have I: "tick_inv ?k"
    using sample_kernel_wf sample_kernel_timers(2) by (simp add: tick_inv_def sched_wf_def sched_wf_cong)
  have stk: "stacks_ok ?k" by (rule stacks_ok_cong [OF sample_kernel_stacks]) (simp_all add: thread_state_def)
  have only: "thread_timers_only ?k" by (simp add: thread_timers_only_def)
  have due: "timer_due (rt_tick ?k) ?k (K_thread_timer 3)"
    by (simp add: timer_due_def sample_kernel_def)
  obtain k' where k': "rt_timer_check (\<lambda>_. Some) ?k = Some k'"
    and L: "timer_list k' = filter (\<lambda>p. \<not> timer_due (rt_tick ?k) ?k p) (timer_list ?k)"
    and W: "\<And>t. if K_thread_timer t \<in> set (timer_list ?k) \<and> timer_due (rt_tick ?k) ?k (K_thread_timer t)
            then thread_state k' t = RT_THREAD_READY \<and> th_error (k_thr k' t) = - RT_ETIMEOUT
            else k_thr k' t = k_thr ?k t"
    using rt_timer_check_wakes_due [OF I stk only, of "\<lambda>_. Some"] by metis
  have "timer_list k' = []" unfolding L using due by simp
  moreover have "thread_state k' 3 = RT_THREAD_READY \<and> th_error (k_thr k' 3) = - RT_ETIMEOUT"
    using W [of 3] due by simp
  ultimately show ?thesis using k' by blast
qed

text \<open>
  C7. A sleeping thread wakes at its tick, neither earlier nor later. In a well-formed system whose active
  timers belong to threads, with another READY thread, \<^verbatim>\<open>rt_thread_sleep(n)\<close> of the running thread (n at
  least 1 and below half the tick range) suspends it; after fewer than n tick interrupts it is still
  suspended, after n it is READY, and the rest of its call then returns \<^verbatim>\<open>RT_EOK\<close> with the error cleared.
\<close>

theorem rt_thread_sleep_wakes:
  assumes ok: "sleeping_ok k" and cur: "current_thread k = Some t" and st: "thread_state k t = RT_THREAD_READY"
    and ty: "rt_object_get_type k (K_thread t) = RT_Object_Class_Thread"
      "rt_object_get_type k (K_thread_timer t) = RT_Object_Class_Timer"
    and n: "0 < n" "n < RT_TICK_HALF" and s: "s \<noteq> t" "thread_state k s = RT_THREAD_READY"
  shows "\<exists>k1. rt_thread_sleep n k = Some (Wait C_sleep, k1)
     \<and> (\<forall>m < unat n. \<exists>k2. ticks uf m k1 = Some k2 \<and> thread_state k2 t = RT_THREAD_SUSPEND)
     \<and> (\<exists>k2. ticks uf (unat n) k1 = Some k2 \<and> thread_state k2 t = RT_THREAD_READY
          \<and> fst (rt_thread_sleep_cont t k2) = RT_EOK
          \<and> th_error (k_thr (snd (rt_thread_sleep_cont t k2)) t) = RT_EOK)"
proof -
  obtain k1 where k1: "rt_thread_sleep n k = Some (Wait C_sleep, k1)"
    by (rule rt_thread_sleep_succeeds [OF ok cur st ty n(2) s])
  note A = rt_thread_sleep_arms [OF ok cur st k1]
  obtain i where i: "unat n = Suc i" using n(1) by (metis Suc_pred unat_gt_0 word_neq_0_conv)
  have "\<exists>k2. ticks uf m k1 = Some k2 \<and> thread_state k2 t = RT_THREAD_SUSPEND" if "m < unat n" for m
    using sleeping_ticks [OF A(2,3)] that by (simp add: A(4))
  moreover obtain k2 where "ticks uf (Suc i) k1 = Some k2" "thread_state k2 t = RT_THREAD_READY"
      "th_error (k_thr k2 t) = - RT_ETIMEOUT"
    using sleeping_wakes [OF A(2,3), of i uf] i by (auto simp: A(4))
  then have "ticks uf (unat n) k1 = Some k2" "thread_state k2 t = RT_THREAD_READY"
      "fst (rt_thread_sleep_cont t k2) = RT_EOK"
      "th_error (k_thr (snd (rt_thread_sleep_cont t k2)) t) = RT_EOK"
    by (simp_all add: rt_thread_sleep_cont_def thread_clear_timeout_def i)
  ultimately show ?thesis using k1 by blast
qed

theorem rt_thread_sleep_wakes_witness:
  "\<exists>k1. rt_thread_sleep 7 sample_kernel = Some (Wait C_sleep, k1)
     \<and> (\<forall>m < 7. \<exists>k2. ticks (\<lambda>_. Some) m k1 = Some k2 \<and> thread_state k2 2 = RT_THREAD_SUSPEND)
     \<and> (\<exists>k2. ticks (\<lambda>_. Some) 7 k1 = Some k2 \<and> thread_state k2 2 = RT_THREAD_READY)"
proof -
  have n: "unat (7 :: u32) = 7" by simp
  have st: "thread_state sample_kernel 1 = RT_THREAD_READY" "thread_state sample_kernel 2 = RT_THREAD_READY"
    by (simp_all add: sample_kernel_state)
  show ?thesis
    using rt_thread_sleep_wakes [OF sample_kernel_sleeping sample_kernel_fields(3) st(2) sample_kernel_types(1,2),
        of 7 1 "\<lambda>_. Some"] st(1) unfolding n by auto
qed

end
