(* ===== verification/Kernel_Calls.thy ===== *)
theory Kernel_Calls
  imports Kernel_Tick
begin

text \<open>
  Where the operations of \<^verbatim>\<open>ipc.c\<close> and \<^verbatim>\<open>thread.c\<close> run the scheduler. Most calls either change only data
  or end with a call of \<^verbatim>\<open>rt_schedule\<close> (\<open>resched\<close>), so that the running thread is again one of the highest
  priority; \<^verbatim>\<open>rt_mutex_release\<close> and \<^verbatim>\<open>rt_event_send\<close> may also return without it (\<open>settled\<close>), which keeps
  only that the running thread is READY.
\<close>

section \<open>Definitions\<close>

definition sched_kept :: "kstate \<Rightarrow> kstate \<Rightarrow> bool" where
  "sched_kept k k' \<longleftrightarrow> sched_same k k' \<and> current_thread k' = current_thread k
     \<and> scheduler_lock_nest k' = scheduler_lock_nest k"

definition resched :: "(kstate \<Rightarrow> bool) \<Rightarrow> kstate \<Rightarrow> kstate \<Rightarrow> bool" where
  "resched I k k' \<longleftrightarrow> (\<exists>k1. I k1 \<and> rt_schedule k1 = Some k') \<or> sched_kept k k'"

definition ready_kept :: "kstate \<Rightarrow> kstate \<Rightarrow> bool" where
  "ready_kept k k' \<longleftrightarrow> current_thread k' = current_thread k
     \<and> (\<forall>t. thread_state k t = RT_THREAD_READY \<longrightarrow> thread_state k' t = RT_THREAD_READY)"

definition settled :: "(kstate \<Rightarrow> bool) \<Rightarrow> kstate \<Rightarrow> kstate \<Rightarrow> bool" where
  "settled I k k' \<longleftrightarrow> (\<exists>k1. I k1 \<and> rt_schedule k1 = Some k') \<or> ready_kept k k'"

text \<open>The state of an unlocked kernel.\<close>

definition unlocked :: "kstate \<Rightarrow> bool" where
  "unlocked k \<longleftrightarrow> sched_wf k \<and> scheduler_lock_nest k = 0"

section \<open>Kept and rescheduled states\<close>

lemma sched_kept_refl [simp]: "sched_kept k k"
  by (simp add: sched_kept_def)

lemma sched_kept_trans: "sched_kept a b \<Longrightarrow> sched_kept b c \<Longrightarrow> sched_kept a c"
  unfolding sched_kept_def using sched_same_trans by metis

lemma data_only_kept: "data_only k k' \<Longrightarrow> sched_kept k k'"
  by (simp add: data_only_def sched_kept_def)

lemma sched_kept_upd [simp]:
  "sched_kept k (sem_set s v k1) = sched_kept k k1" "sched_kept k (mutex_upd m f k1) = sched_kept k k1"
  "sched_kept k (event_put e w k1) = sched_kept k k1" "sched_kept k (mb_upd n g k1) = sched_kept k k1"
  "sched_kept k (mq_upd q j k1) = sched_kept k k1" "sched_kept k (thread_set_error t err k1) = sched_kept k k1"
  "sched_kept k (thr_upd t (\<lambda>x. x\<lparr>th_event_set := a x, th_event_info := b x\<rparr>) k1) = sched_kept k k1"
  "sched_kept k (thr_upd t (\<lambda>x. x\<lparr>th_event_set := a x\<rparr>) k1) = sched_kept k k1"
  "sched_kept k (thr_upd t (\<lambda>x. x\<lparr>th_error := err\<rparr>) k1) = sched_kept k k1"
  by (auto simp: sched_kept_def sched_same_def sem_set_def mutex_upd_def event_put_def mb_upd_def mq_upd_def
      thread_set_error_def thr_upd_def)

lemma resched_trans_kept: "sched_kept k k1 \<Longrightarrow> resched I k1 k' \<Longrightarrow> resched I k k'"
  unfolding resched_def using sched_kept_trans by blast

lemma resched_schedule: "I k1 \<Longrightarrow> rt_schedule k1 = Some k' \<Longrightarrow> resched I k k'"
  unfolding resched_def by blast

lemma resched_kept: "sched_kept k k' \<Longrightarrow> resched I k k'"
  by (simp add: resched_def)

lemma ready_kept_refl [simp]: "ready_kept k k"
  by (simp add: ready_kept_def)

lemma ready_kept_trans: "ready_kept a b \<Longrightarrow> ready_kept b c \<Longrightarrow> ready_kept a c"
  by (simp add: ready_kept_def)

lemma sched_kept_ready: "sched_kept k k' \<Longrightarrow> ready_kept k k'"
  unfolding sched_kept_def ready_kept_def using thread_state_same by metis

lemma resched_settled: "resched I k k' \<Longrightarrow> settled I k k'"
  unfolding resched_def settled_def using sched_kept_ready by blast

lemma runs_highest_running: "runs_highest k \<Longrightarrow> running_ready k"
  by (auto simp: runs_highest_def running_ready_def)

lemma runs_highest_kept:
  assumes "runs_highest k" "sched_kept k k'"
  shows "runs_highest k'"
proof -
  have "thread_state k' t = thread_state k t" "th_current_priority (k_thr k' t) = th_current_priority (k_thr k t)"
    "current_thread k' = current_thread k" for t
    using assms(2) thread_state_same [of k k' t] by (simp_all add: sched_kept_def sched_same_def)
  then show ?thesis using assms(1) by (simp add: runs_highest_def)
qed

lemma unlocked_invariant: "kernel_invariant unlocked"
proof -
  have "unlocked = (\<lambda>k. sched_wf k \<and> scheduler_lock_nest k = 0 \<and> ((0::int) \<noteq> 0 \<longrightarrow> current_thread k = None)
      \<and> ((None :: tid option) \<noteq> None \<longrightarrow> current_thread k \<noteq> None))"
    by (rule ext) (simp add: unlocked_def)
  then show ?thesis using lock_invariant [of 0 None] by simp
qed

interpretation free: kernel_invariant unlocked
  by (rule unlocked_invariant)

lemma resched_runs_highest: "resched unlocked k k' \<Longrightarrow> runs_highest k \<Longrightarrow> runs_highest k'"
  unfolding resched_def unlocked_def using rt_schedule_runs_highest runs_highest_kept by blast

lemma settled_running: "settled unlocked k k' \<Longrightarrow> running_ready k \<Longrightarrow> running_ready k'"
  unfolding settled_def unlocked_def
  using rt_schedule_runs_highest runs_highest_running by (auto simp: running_ready_def ready_kept_def)

section \<open>The calls\<close>

context kernel_invariant
begin

lemma ipc_wait_resched:
  assumes I: "I k" and st: "thread_state k t = RT_THREAD_READY" and h: "waiting_queue h"
    and w: "ipc_wait h t flag time k = Some k'"
  shows "resched I k0 k'"
proof -
  obtain k1 k2 where k1: "rt_ipc_list_suspend h t flag k = Some k1"
    and k2: "k2 = k1 \<or> rt_timer_start (K_thread_timer t) (tmr_upd (K_thread_timer t)
        (\<lambda>tm. tm\<lparr>tm_init_tick := word_of_int time\<rparr>) k1) = Some k2"
    and sch: "rt_schedule k2 = Some k'"
    using w by (auto simp: ipc_wait_def rt_timer_control_def bind_Some_iff split: if_splits)
  have I1: "I k1" by (rule inv_suspend [OF I h st k1])
  note S = rt_ipc_list_suspend_wf [OF inv_sched [OF I] st h k1]
  have "rt_object_get_type k1 (K_thread t) = RT_Object_Class_Thread"
    using thread_frame_type [OF S(3)] suspend_type [OF k1] by simp
  then have "I k2" using k2 I1 inv_arm [OF I1 S(2)] by blast
  then show ?thesis by (rule resched_schedule [OF _ sch])
qed

lemma wake_first_resched: "I k \<Longrightarrow> wake_first h k = Some k' \<Longrightarrow> resched I k k'"
  by (auto simp: wake_first_def bind_Some_iff split: if_splits
      intro: resched_kept resched_schedule dest: ipc_resume_inv)

lemma sem_take_resched:
  assumes "I k" "running_ready k" "rt_sem_take s time k = Some (r, k')"
  shows "resched I k k'"
proof -
  consider "k' = k" | v where "k' = sem_set s v k"
    | t where "current_thread k = Some t"
        "ipc_wait (Sem_q s) t (o_flag (k_obj (thread_set_error t RT_EOK k) (K_sem s))) time (thread_set_error t RT_EOK k) = Some k'"
    using assms(3) by (auto simp: rt_sem_take_def in_thread_context_def rt_thread_self_def bind_Some_iff Let_def
        split: if_splits)
  then show ?thesis
  proof cases
    case 3
    have "thread_state (thread_set_error t RT_EOK k) t = RT_THREAD_READY"
      using assms(2) 3(1) by (simp add: running_ready_def)
    then show ?thesis using ipc_wait_resched [OF upd_inv(5) [OF assms(1)] _ _ 3(2)] by simp
  qed (auto intro!: resched_kept)
qed

lemma resume_resched: "I k \<Longrightarrow> rt_ipc_list_resume h k = Some k1 \<Longrightarrow> rt_schedule k1 = Some k' \<Longrightarrow> resched I k0 k'"
  by (rule resched_schedule [OF ipc_resume_inv])

lemma sem_release_resched:
  assumes I: "I k" and rel: "rt_sem_release s k = Some (r, k')"
  shows "resched I k k'"
proof (cases "k_list k (Sem_q s)")
  case Nil
  then show ?thesis using rel by (auto simp: rt_sem_release_def split: if_splits intro!: resched_kept)
next
  case Cons
  then obtain k1 where "rt_ipc_list_resume (Sem_q s) k = Some k1" "rt_schedule k1 = Some k'"
    using rel by (auto simp: rt_sem_release_def bind_Some_iff)
  then show ?thesis by (rule resume_resched [OF I])
qed

lemma control_resched:
  "I k \<Longrightarrow> rt_sem_control s cmd k = Some (r, k') \<Longrightarrow> resched I k k'"
  "I k \<Longrightarrow> rt_event_control e cmd k = Some (r, k') \<Longrightarrow> resched I k k'"
  "I k \<Longrightarrow> rt_mb_control m cmd k = Some (r, k') \<Longrightarrow> resched I k k'"
  "I k \<Longrightarrow> rt_mq_control q cmd k = Some (r, k') \<Longrightarrow> resched I k k'"
proof -
  show "I k \<Longrightarrow> rt_sem_control s cmd k = Some (r, k') \<Longrightarrow> resched I k k'"
    by (cases cmd) (auto simp: rt_sem_control_def bind_Some_iff dest!: ipc_resume_all_inv
        intro: resched_kept resched_schedule [where I = I, OF upd_inv(1)])
  show "I k \<Longrightarrow> rt_event_control e cmd k = Some (r, k') \<Longrightarrow> resched I k k'"
    by (cases cmd) (auto simp: rt_event_control_def bind_Some_iff dest!: ipc_resume_all_inv
        intro: resched_kept resched_schedule [where I = I, OF upd_inv(2)])
  show "I k \<Longrightarrow> rt_mb_control m cmd k = Some (r, k') \<Longrightarrow> resched I k k'"
    by (cases cmd) (auto simp: rt_mb_control_def bind_Some_iff dest!: ipc_resume_all_inv
        intro: resched_kept resched_schedule [where I = I, OF upd_inv(3)])
  show "I k \<Longrightarrow> rt_mq_control q cmd k = Some (r, k') \<Longrightarrow> resched I k k'"
    by (cases cmd) (auto simp: rt_mq_control_def bind_Some_iff dest!: ipc_resume_all_inv
        intro: resched_kept resched_schedule [where I = I, OF upd_inv(4)])
qed

lemma mutex_take_resched:
  assumes I: "I k" and run: "running_ready k" and take: "rt_mutex_take m time k = Some (r, k')"
  shows "resched I k k'"
proof -
  obtain t where cur: "current_thread k = Some t"
    using take by (auto simp: rt_mutex_take_def rt_thread_self_def bind_Some_iff)
  let ?k1 = "thread_set_error t RT_EOK k"
  have I1: "I ?k1" by (rule upd_inv [OF I])
  have wf1: "sched_wf ?k1" by (rule inv_sched [OF I1])
  have st1: "thread_state ?k1 t = RT_THREAD_READY" using self_ready [OF run cur] by simp
  have p: "th_current_priority (k_thr ?k1 t) < 32"
    using sched_wf_prio_ok [of "{}" ?k1 t] wf1 st1 by (simp add: sched_wf_def prio_ok_def)
  consider "sched_kept ?k1 k'"
    | ow k2 where "mutex_owner (k_mutex ?k1 m) = Some ow" "mutex_owner (k_mutex ?k1 m) \<noteq> Some t"
        "k2 = ?k1 \<or> thread_change_priority ow (th_current_priority (k_thr ?k1 t)) ?k1 = Some k2"
        "ipc_wait (Mutex_q m) t (o_flag (k_obj k2 (K_mutex m))) time k2 = Some k'"
    using take cur
    by (auto simp: rt_mutex_take_def rt_thread_self_def in_thread_context_def bind_Some_iff Let_def split: if_splits)
  then show ?thesis
  proof cases
    case 1
    then show ?thesis using sched_kept_trans [OF data_only_kept 1] by (intro resched_kept) simp
  next
    case (2 ow k2)
    have I2: "I k2" using 2(3) I1 inv_priority [OF I1 p] by blast
    have st2: "thread_state k2 t = RT_THREAD_READY"
      using 2 st1 thread_change_priority_wf(2) [OF wf1 p, of ow k2]
      by (auto simp: thread_frame_def thread_state_def)
    show ?thesis using ipc_wait_resched [OF I2 st2 _ 2(4)] by simp
  qed
qed

lemma event_recv_resched:
  assumes I: "I k" and run: "running_ready k" and recv: "rt_event_recv e evs opt timeout k = Some (r, v, k')"
  shows "resched I k k'"
proof (cases "evs = 0")
  case True
  then show ?thesis using recv by (auto simp: rt_event_recv_def bind_Some_iff intro: resched_kept)
next
  case False
  then obtain t where cur: "current_thread k = Some t"
    using recv by (auto simp: rt_event_recv_def rt_thread_self_def bind_Some_iff)
  let ?k1 = "thread_set_error t RT_EOK k"
  consider "sched_kept k k'"
    | a b where "ipc_wait (Event_q e) t (o_flag (k_obj ?k1 (K_event e))) timeout
        (thr_upd t (\<lambda>x. x\<lparr>th_event_set := a, th_event_info := b\<rparr>) ?k1) = Some k'"
    using recv cur False
    by (auto simp: rt_event_recv_def rt_thread_self_def bind_Some_iff Let_def split: if_splits)
  then show ?thesis
  proof cases
    case (2 a b)
    have st: "thread_state (thr_upd t (\<lambda>x. x\<lparr>th_event_set := a, th_event_info := b\<rparr>) ?k1) t = RT_THREAD_READY"
      using run cur by (simp add: running_ready_def)
    have "I ?k1" by (rule upd_inv [OF I])
    then show ?thesis using ipc_wait_resched [OF inv_data [of ?k1] st _ 2] by simp
  qed (rule resched_kept)
qed

lemma mb_send_resched:
  assumes I: "I k" and st: "\<And>t. th = Some t \<Longrightarrow> thread_state k t = RT_THREAD_READY"
    and snd: "mb_send_loop th m v timeout k = Some (r, k')"
  shows "resched I k k'"
proof (cases "mb_entry (k_mb k m) = mb_size (k_mb k m)")
  case True
  then obtain t where t: "th = Some t" using snd by (auto simp: mb_send_loop_def bind_Some_iff)
  have st1: "thread_state (thread_set_error t RT_EOK k) t = RT_THREAD_READY" using st [OF t] by simp
  show ?thesis
    using snd True t ipc_wait_resched [OF upd_inv(5) [OF I] st1, of "Mb_send_q m"]
    by (auto simp: mb_send_loop_def bind_Some_iff Let_def split: if_splits intro: resched_kept)
next
  case False
  then show ?thesis
    using snd resched_trans_kept [OF _ wake_first_resched [OF upd_inv(3) [OF I]]]
    by (auto simp: mb_send_loop_def bind_Some_iff Let_def split: if_splits intro: resched_kept)
qed

lemma mb_recv_resched:
  assumes I: "I k" and st: "\<And>t. th = Some t \<Longrightarrow> thread_state k t = RT_THREAD_READY"
    and rcv: "mb_recv_loop th m timeout k = Some (r, v, k')"
  shows "resched I k k'"
proof (cases "mb_entry (k_mb k m) = 0")
  case True
  then obtain t where t: "th = Some t" using rcv by (auto simp: mb_recv_loop_def bind_Some_iff)
  have st1: "thread_state (thread_set_error t RT_EOK k) t = RT_THREAD_READY" using st [OF t] by simp
  show ?thesis
    using rcv True t ipc_wait_resched [OF upd_inv(5) [OF I] st1, of "Mb_q m"]
    by (auto simp: mb_recv_loop_def bind_Some_iff Let_def split: if_splits intro: resched_kept)
next
  case False
  then show ?thesis
    using rcv resched_trans_kept [OF _ wake_first_resched [OF upd_inv(3) [OF I]]]
    by (auto simp: mb_recv_loop_def bind_Some_iff Let_def split: if_splits intro: resched_kept)
qed

lemma mq_send_resched:
  assumes I: "I k" and st: "\<And>t. th = Some t \<Longrightarrow> thread_state k t = RT_THREAD_READY"
    and snd: "mq_send_loop th q bs n timeout k = Some (r, k')"
  shows "resched I k k'"
proof (cases "mq_free (k_mq k q)")
  case None
  then obtain t where t: "th = Some t" using snd by (auto simp: mq_send_loop_def bind_Some_iff)
  have st1: "thread_state (thread_set_error t RT_EOK k) t = RT_THREAD_READY" using st [OF t] by simp
  show ?thesis
    using snd None t ipc_wait_resched [OF upd_inv(5) [OF I] st1, of "Mq_send_q q"]
    by (auto simp: mq_send_loop_def bind_Some_iff Let_def split: if_splits intro: resched_kept)
next
  case (Some b)
  then show ?thesis
    using snd resched_trans_kept [OF _ wake_first_resched [OF upd_inv(4) [OF I]]]
    by (auto simp: mq_send_loop_def bind_Some_iff Let_def case_prod_beta split: if_splits intro: resched_kept)
qed

lemma mq_recv_resched:
  assumes I: "I k" and st: "\<And>t. th = Some t \<Longrightarrow> thread_state k t = RT_THREAD_READY"
    and rcv: "mq_recv_loop th q n timeout k = Some (r, v, k')"
  shows "resched I k k'"
proof (cases "mq_entry (k_mq k q) = 0")
  case True
  then obtain t where t: "th = Some t" using rcv by (auto simp: mq_recv_loop_def bind_Some_iff)
  have st1: "thread_state (thread_set_error t RT_EOK k) t = RT_THREAD_READY" using st [OF t] by simp
  show ?thesis
    using rcv True t ipc_wait_resched [OF upd_inv(5) [OF I] st1, of "Mq_q q"]
    by (auto simp: mq_recv_loop_def bind_Some_iff Let_def split: if_splits intro: resched_kept)
next
  case False
  then show ?thesis
    using rcv resched_trans_kept [OF _ wake_first_resched [OF upd_inv(4) [OF I]]]
    by (auto simp: mq_recv_loop_def bind_Some_iff Let_def split: if_splits intro: resched_kept)
qed

lemma mq_urgent_resched:
  assumes I: "I k" and snd: "rt_mq_urgent q bs n k = Some (r, k')"
  shows "resched I k k'"
  using snd resched_trans_kept [OF _ wake_first_resched [OF upd_inv(4) [OF I]]]
  by (auto simp: rt_mq_urgent_def bind_Some_iff Let_def case_prod_beta split: if_splits option.splits
      intro: resched_kept)

text \<open>The two calls that may return without scheduling.\<close>

lemma priority_ready:
  assumes "I k" "p < RT_THREAD_PRIORITY_MAX" "thread_change_priority t p k = Some k'"
  shows "ready_kept k k'"
  using thread_change_priority_wf(2-4) [OF inv_sched [OF assms(1)] assms(2,3)]
  unfolding ready_kept_def by (metis thread_frame_def thread_state_def singletonD)

lemma mutex_release_settled:
  assumes I: "I k" and mp: "mutex_prio_ok k" and rel: "rt_mutex_release m k = Some (r, k')"
  shows "settled I k k'"
proof -
  have kept: "ready_kept k2 (mutex_upd m f k2)" for f k2 by (rule sched_kept_ready) simp
  show ?thesis
  proof (cases rule: mutex_release_cases [OF assms])
    case (1 t e)
    then show ?thesis unfolding settled_def using sched_kept_ready [of k k'] by simp
  next
    case (2 f)
    then show ?thesis unfolding settled_def using kept by simp
  next
    case (3 f t k2)
    have r2: "ready_kept k k2" using 3(4) kept [of k f] priority_ready [OF 3(1)] ready_kept_trans by blast
    show ?thesis
    proof (cases rule: mutex_hand_on_cases [OF 3(2,5)])
      case (1 g)
      then show ?thesis unfolding settled_def using r2 kept [of k2 g] ready_kept_trans by blast
    qed (use r2 in \<open>unfold settled_def, blast+\<close>)
  qed
qed

lemma event_loop_ready:
  "event_send_loop e ts need k = Some (err, need', k') \<Longrightarrow> I k \<Longrightarrow> ready_kept k k'"
proof (induction ts arbitrary: need k)
  case (Cons t ts)
  let ?th = "k_thr k t" and ?es = "event_set (k_event k e)"
  let ?k1 = "\<lambda>b. if b then k else thr_upd t (\<lambda>x. x\<lparr>th_event_set := th_event_set x AND ?es\<rparr>) k"
  let ?k2 = "\<lambda>k1. if th_event_info (k_thr k1 t) AND 4 \<noteq> 0
      then event_put e (?es AND NOT (th_event_set (k_thr k1 t))) k1 else k1"
  have I2: "I (?k2 (?k1 b))" for b using Cons.prems(2) by (simp add: upd_inv)
  have r2: "ready_kept k (?k2 (?k1 b))" for b by (rule sched_kept_ready) simp
  have wake: "ready_kept k k'" if w: "(rt_thread_resume t (?k2 (?k1 b)) \<bind> (\<lambda>(_, k3). event_send_loop e ts True k3))
      = Some (err, need', k')" for b
  proof -
    obtain x k3 where k3: "rt_thread_resume t (?k2 (?k1 b)) = Some (x, k3)"
        and l: "event_send_loop e ts True k3 = Some (err, need', k')" using w by (auto simp: bind_Some_iff)
    note R = resume_frame [OF inv_sched [OF I2] k3]
    have "ready_kept (?k2 (?k1 b)) k3" using R(2,3) unfolding ready_kept_def by blast
    then show ?thesis using r2 Cons.IH [OF l inv_resume [OF I2 k3]] ready_kept_trans by blast
  qed
  show ?case
    using Cons wake [of True] wake [of False] by (simp add: Let_def split: if_splits)
qed simp

lemma event_send_settled:
  assumes I: "I k" and snd: "rt_event_send e evs k = Some (r, k')"
  shows "settled I k k'"
proof (cases "evs = 0")
  case True
  then show ?thesis using snd by (auto simp: rt_event_send_def settled_def)
next
  case False
  let ?k1 = "event_put e (event_set (k_event k e) OR evs) k"
  obtain err need k2 where l: "event_send_loop e (k_list ?k1 (Event_q e)) False ?k1 = Some (err, need, k2)"
      and k': "k' = k2 \<or> rt_schedule k2 = Some k'"
    using snd False by (auto simp: rt_event_send_def bind_Some_iff Let_def split: if_splits option.splits)
  have I1: "I ?k1" by (rule upd_inv [OF I])
  have "ready_kept k k2" using event_loop_ready [OF l I1] ready_kept_trans [OF sched_kept_ready [of k ?k1]] by simp
  then show ?thesis using k' event_send_loop_inv [OF l I1] unfolding settled_def by blast
qed

end

section \<open>Thread operations\<close>

lemma kernel_invD: "kernel_inv d k \<Longrightarrow> sched_wf k" "kernel_inv d k \<Longrightarrow> timers_wf d k" "kernel_inv d k \<Longrightarrow> mutex_prio_ok k"
  by (simp_all add: kernel_inv_def)

lemma kernel_inv_list:
  assumes I: "kernel_inv d k" and wf: "sched_wf (k\<lparr>k_list := l\<rparr>)"
  shows "kernel_inv d (k\<lparr>k_list := l\<rparr>)"
proof -
  have "timers_wf d (k\<lparr>k_list := l\<rparr>)"
    by (rule timers_wf_cong [OF kernel_invD(2) [OF I]]) (simp_all add: thread_state_def timer_active_def timer_periodic_def)
  then show ?thesis using wf I by (simp add: kernel_inv_def mutex_prio_ok_def)
qed

lemma schedule_inv: "d \<le> 1 \<Longrightarrow> kernel_inv d k \<Longrightarrow> rt_schedule k = Some k' \<Longrightarrow> kernel_inv d k'"
  using kernel_invariant.inv_schedule [OF kernel_inv_invariant] by blast

lemma yield_inv:
  assumes d: "d \<le> 1" and I: "kernel_inv d k" and y: "rt_thread_yield k = Some k'"
  shows "kernel_inv d k'" "unlocked k \<Longrightarrow> resched unlocked k k'"
proof -
  note C = rt_thread_yield_cases [OF kernel_invD(1) [OF I] y]
  show "kernel_inv d k'"
  proof (cases rule: C)
    case (2 t k1)
    have "\<exists>l. k1 = k\<lparr>k_list := l\<rparr>" using 2(3) by (simp add: tlist_insert_before_def tlist_remove_def) blast
    then show ?thesis using kernel_inv_list [OF I] 2(4) schedule_inv [OF d _ 2(5)] by blast
  qed (use I in simp)
  show "resched unlocked k k'" if "unlocked k"
  proof (cases rule: C)
    case (2 t k1)
    have "unlocked k1" using 2(3,4) that by (simp add: unlocked_def tlist_insert_before_def)
    then show ?thesis using 2(5) by (rule resched_schedule)
  qed (simp add: resched_kept)
qed

text \<open>Suspending a READY thread on no queue.\<close>

lemma suspend_inv:
  assumes I: "kernel_inv d k" and sus: "rt_thread_suspend t k = Some (r, k')"
  shows "kernel_inv d k'" "scheduler_lock_nest k' = scheduler_lock_nest k" "current_thread k' = current_thread k"
    "s \<noteq> t \<Longrightarrow> thread_state k' s = thread_state k s" "rt_object_get_type k' p = rt_object_get_type k p"
    "thread_state k t = RT_THREAD_READY \<Longrightarrow> thread_state k' t = RT_THREAD_SUSPEND"
proof -
  note wf = kernel_invD(1) [OF I]
  have "kernel_inv d k' \<and> scheduler_lock_nest k' = scheduler_lock_nest k \<and> current_thread k' = current_thread k
      \<and> (s \<noteq> t \<longrightarrow> thread_state k' s = thread_state k s) \<and> rt_object_get_type k' p = rt_object_get_type k p
      \<and> (thread_state k t = RT_THREAD_READY \<longrightarrow> thread_state k' t = RT_THREAD_SUSPEND)"
  proof (cases "thread_state k t = RT_THREAD_READY")
    case True
    note S = rt_thread_suspend_wf [OF wf True sus]
    have "sched_wf k'" unfolding sched_wf_def using S(3,4) by (intro unlinked_wf [OF S(2)]) auto
    then have "kernel_inv d k'"
      using suspend_timers [OF kernel_invD(2) [OF I] sus] mutex_prio_ok_cong [OF kernel_invD(3) [OF I] thread_frame_mutex [OF S(6)]]
      by (simp add: kernel_inv_def)
    then show ?thesis using S(3,6,7) by (simp add: thread_frame_def thread_state_def rt_object_get_type_def)
  qed (use I sus in \<open>auto simp: rt_thread_suspend_def\<close>)
  then show "kernel_inv d k'" "scheduler_lock_nest k' = scheduler_lock_nest k" "current_thread k' = current_thread k"
    "s \<noteq> t \<Longrightarrow> thread_state k' s = thread_state k s" "rt_object_get_type k' p = rt_object_get_type k p"
    "thread_state k t = RT_THREAD_READY \<Longrightarrow> thread_state k' t = RT_THREAD_SUSPEND" by blast+
qed

lemma thread_arm_inv:
  assumes d: "d \<le> 1" and I: "kernel_inv d k" and st: "thread_state k t = RT_THREAD_READY"
    and ty: "rt_object_get_type k (K_thread t) = RT_Object_Class_Thread" and arm: "thread_arm t tick k = Some k'"
  shows "kernel_inv d k'" "scheduler_lock_nest k' = scheduler_lock_nest k" "current_thread k' = current_thread k"
proof -
  obtain x k1 where k1: "rt_thread_suspend t k = Some (x, k1)"
    and st': "rt_timer_start (K_thread_timer t) (tmr_upd (K_thread_timer t) (\<lambda>tm. tm\<lparr>tm_init_tick := tick\<rparr>) k1) = Some k'"
    using arm by (auto simp: thread_arm_def rt_timer_control_def bind_Some_iff)
  note S = suspend_inv [OF I k1]
  show "kernel_inv d k'"
    using kernel_invariant.inv_arm [OF kernel_inv_invariant [OF d] S(1) S(6) [OF st] _ st'] S(5) ty by simp
  have "scheduler_lock_nest k' = scheduler_lock_nest k1" "current_thread k' = current_thread k1"
    by (subst rt_timer_start_form [OF st'], simp)+
  then show "scheduler_lock_nest k' = scheduler_lock_nest k" "current_thread k' = current_thread k" using S by simp_all
qed

lemma sleep_inv:
  assumes I: "kernel_inv 0 k" and run: "running_ready k" and sl: "rt_thread_sleep n k = Some (r, k')"
  shows "kernel_inv 0 k'" "unlocked k \<Longrightarrow> resched unlocked k k'"
proof -
  obtain t k1 where cur: "current_thread k = Some t" and arm: "thread_arm t n k = Some k1" and sch: "rt_schedule k1 = Some k'"
    and ty: "rt_object_get_type k (K_thread t) = RT_Object_Class_Thread"
    using sl by (auto simp: rt_thread_sleep_def bind_Some_iff)
  have st: "thread_state k t = RT_THREAD_READY" using run cur by (simp add: running_ready_def)
  note A = thread_arm_inv [OF _ I st ty arm]
  show "kernel_inv 0 k'" using schedule_inv [OF _ A(1) sch] by simp
  show "unlocked k \<Longrightarrow> resched unlocked k k'"
    using A kernel_invD(1) [of 0 k1] by (intro resched_schedule [OF _ sch]) (simp add: unlocked_def)
qed

lemma delay_until_inv:
  assumes I: "kernel_inv 0 k" and run: "running_ready k" and sl: "rt_thread_delay_until tick inc k = Some (r, v, k')"
  shows "kernel_inv 0 k'" "unlocked k \<Longrightarrow> resched unlocked k k'"
proof -
  obtain t where cur: "current_thread k = Some t"
    and ty: "rt_object_get_type k (K_thread t) = RT_Object_Class_Thread"
    using sl by (auto simp: rt_thread_delay_until_def rt_thread_self_def bind_Some_iff)
  have st: "thread_state k t = RT_THREAD_READY" using run cur by (simp add: running_ready_def)
  show "kernel_inv 0 k'" "unlocked k \<Longrightarrow> resched unlocked k k'"
  proof (atomize (full), cases "rt_tick k - tick < inc")
    case True
    then obtain k1 where arm: "thread_arm t (tick + inc - rt_tick k) k = Some k1" and sch: "rt_schedule k1 = Some k'"
      using sl cur by (auto simp: rt_thread_delay_until_def rt_thread_self_def Let_def bind_Some_iff)
    note A = thread_arm_inv [OF _ I st ty arm]
    have "unlocked k \<longrightarrow> resched unlocked k k'"
      using A kernel_invD(1) [of 0 k1] resched_schedule [OF _ sch, of unlocked k] by (simp add: unlocked_def)
    then show "kernel_inv 0 k' \<and> (unlocked k \<longrightarrow> resched unlocked k k')" using schedule_inv [OF _ A(1) sch] by simp
  next
    case False
    then show "kernel_inv 0 k' \<and> (unlocked k \<longrightarrow> resched unlocked k k')"
      using sl cur I by (auto simp: rt_thread_delay_until_def rt_thread_self_def bind_Some_iff resched_kept)
  qed
qed

lemma startup_inv:
  assumes d: "d \<le> 1" and I: "kernel_inv d k" and ip: "th_init_priority (k_thr k t) < 32"
    and su: "rt_thread_startup t k = Some k'"
  shows "kernel_inv d k'" "unlocked k \<Longrightarrow> settled unlocked k k'"
    "unlocked k \<Longrightarrow> current_thread k \<noteq> None \<Longrightarrow> resched unlocked k k'"
proof -
  let ?f = "\<lambda>th. th\<lparr>th_current_priority := th_init_priority th,
      th_number_mask := push_bit (th_init_priority th) 1, th_stat := RT_THREAD_SUSPEND\<rparr>"
  let ?k1 = "thr_upd t ?f k"
  obtain r k2 where st: "thread_state k t = RT_THREAD_INIT" and res: "rt_thread_resume t ?k1 = Some (r, k2)"
      and k': "if current_thread k2 \<noteq> None then rt_schedule k2 = Some k' else k' = k2"
    using su by (auto simp: rt_thread_startup_def startup_prepare_def rt_thread_self_def bind_Some_iff Let_def split: if_splits)
  note W = startup_prepare_wf [OF kernel_invD(1) [OF I] ip st]
  have "timers_wf d ?k1"
    by (rule timers_wf_cong [OF kernel_invD(2) [OF I]]) (auto simp: thread_state_def)
  then have I1: "kernel_inv d ?k1" using W(1) I by (simp add: kernel_inv_def mutex_prio_ok_def)
  note inv = kernel_invariant.inv_resume [OF kernel_inv_invariant [OF d] I1 res]
  note R = rt_thread_resume_wf [OF W res]
  show "kernel_inv d k'" using k' inv schedule_inv [OF d inv] by (auto split: if_splits)
  have u2: "unlocked k2" if "unlocked k" using that R(2,4) by (simp add: unlocked_def thread_frame_def)
  have "thread_state k2 s = RT_THREAD_READY" if "thread_state k s = RT_THREAD_READY" for s
    using that R(3,4) st by (cases "s = t") (simp_all add: thread_frame_def thread_state_def)
  then have "ready_kept k k2" using R(6) by (simp add: ready_kept_def)
  then show "settled unlocked k k'" if "unlocked k" using u2 [OF that] k' by (auto simp: settled_def split: if_splits)
  show "resched unlocked k k'" if "unlocked k" "current_thread k \<noteq> None"
    using u2 [OF that(1)] k' R(6) that(2) by (auto simp: resched_def)
qed

text \<open>User timers.\<close>

lemma timer_start_kept: "rt_timer_start p k = Some k' \<Longrightarrow> sched_kept k k'"
  by (subst rt_timer_start_form, assumption) (simp add: sched_kept_def sched_same_def)

lemma timer_stop_inv:
  assumes I: "kernel_inv d k" and stop: "rt_timer_stop p k = Some (r, k')"
  shows "kernel_inv d k'" "sched_kept k k'"
proof -
  have k': "k' = k \<or> k' = timer_flag_clear 1 p (rt_timer_remove p k)"
    using stop by (auto simp: rt_timer_stop_def split: if_splits)
  then show "kernel_inv d k'" using I timer_remove_inv [OF I] by blast
  have "sched_kept k (timer_flag_clear 1 p (rt_timer_remove p k))"
    by (simp add: sched_kept_def sched_same_def timer_flag_clear_def rt_timer_remove_def)
  then show "sched_kept k k'" using k' by auto
qed

text \<open>Critical sections.\<close>

lemma kernel_inv_lock: "kernel_inv d k \<Longrightarrow> kernel_inv d (k\<lparr>scheduler_lock_nest := n\<rparr>)"
proof -
  assume I: "kernel_inv d k"
  have "sched_same k (k\<lparr>scheduler_lock_nest := n\<rparr>)" by (simp add: sched_same_def)
  then have "sched_wf (k\<lparr>scheduler_lock_nest := n\<rparr>)" using kernel_invD(1) [OF I] by (simp add: sched_wf_def sched_wf_cong)
  moreover have "timers_wf d (k\<lparr>scheduler_lock_nest := n\<rparr>)"
    by (rule timers_wf_cong [OF kernel_invD(2) [OF I]]) (simp_all add: thread_state_def timer_active_def timer_periodic_def)
  ultimately show ?thesis using I by (simp add: kernel_inv_def mutex_prio_ok_def)
qed

lemma exit_critical_inv:
  assumes d: "d \<le> 1" and I: "kernel_inv d k" and ex: "rt_exit_critical k = Some k'"
  shows "kernel_inv d k'"
    "scheduler_lock_nest k' = 0 \<Longrightarrow> current_thread k \<noteq> None \<Longrightarrow> runs_highest k'"
    "scheduler_lock_nest k' \<noteq> 0 \<Longrightarrow> current_thread k' = current_thread k"
proof -
  let ?k1 = "k\<lparr>scheduler_lock_nest := 0\<rparr>"
  consider n where "k' = k\<lparr>scheduler_lock_nest := n\<rparr>" "n \<noteq> 0" | "current_thread k = None" "k' = ?k1"
    | "rt_schedule ?k1 = Some k'"
  proof (cases "wrap_s16 (scheduler_lock_nest k - 1) \<le> 0")
    case True
    then show thesis using ex that(2,3) by (cases "current_thread k") (simp_all add: rt_exit_critical_def Let_def)
  next
    case False
    then show thesis using ex that(1) [of "wrap_s16 (scheduler_lock_nest k - 1)"] by (simp add: rt_exit_critical_def Let_def)
  qed
  then have "kernel_inv d k' \<and> (scheduler_lock_nest k' = 0 \<longrightarrow> current_thread k \<noteq> None \<longrightarrow> runs_highest k')
    \<and> (scheduler_lock_nest k' \<noteq> 0 \<longrightarrow> current_thread k' = current_thread k)"
  proof cases
    case 3
    note I1 = kernel_inv_lock [OF I, of 0]
    have "scheduler_lock_nest k' = 0" using rt_schedule_form [OF 3] by auto
    then show ?thesis
      using schedule_inv [OF d I1 3] rt_schedule_runs_highest [OF kernel_invD(1) [OF I1] _ 3] by simp
  qed (use I kernel_inv_lock in auto)
  then show "kernel_inv d k'" "scheduler_lock_nest k' = 0 \<Longrightarrow> current_thread k \<noteq> None \<Longrightarrow> runs_highest k'"
    "scheduler_lock_nest k' \<noteq> 0 \<Longrightarrow> current_thread k' = current_thread k" by blast+
qed

end
