(* ===== verification/Waiting.thy ===== *)
theory Waiting
  imports Kernel_Calls
begin

text \<open>
  Waiting and waking, with total correctness: in a live kernel (the kernel invariant holds, no stack has
  overflowed, and the objects of the threads have their types) suspending a thread on a waiting queue and
  resuming the first thread of one succeed; the lemmas say what they do to the queue, the thread and the rest.
\<close>

section \<open>Definitions\<close>

definition threads_typed :: "kstate \<Rightarrow> bool" where
  "threads_typed k \<longleftrightarrow> (\<forall>t. thread_state k t = RT_THREAD_READY \<or> thread_state k t = RT_THREAD_SUSPEND \<longrightarrow>
     rt_object_get_type k (K_thread t) = RT_Object_Class_Thread
     \<and> rt_object_get_type k (K_thread_timer t) = RT_Object_Class_Timer)"

definition kernel_live :: "kstate \<Rightarrow> bool" where
  "kernel_live k \<longleftrightarrow> kernel_inv 0 k \<and> stacks_ok k \<and> threads_typed k"

text \<open>Where a thread joins a waiting queue.\<close>

definition enqueue :: "u8 \<Rightarrow> kstate \<Rightarrow> tid \<Rightarrow> tid list \<Rightarrow> tid list" where
  "enqueue flag k t q =
     (if flag = 0 then q @ [t] else prio_insert (\<lambda>x. th_current_priority (k_thr k x)) t q)"

text \<open>The outcome of waiting on queue \<open>h\<close>, and of waking its first thread.\<close>

definition waits :: "thead \<Rightarrow> tid \<Rightarrow> u8 \<Rightarrow> int \<Rightarrow> kstate \<Rightarrow> kstate \<Rightarrow> bool" where
  "waits h t flag time k k' \<longleftrightarrow> kernel_live k' \<and> thread_frame {t} k k'
     \<and> k_thr k' t = set_stat RT_THREAD_SUSPEND (k_thr k t)
     \<and> k_list k' h = enqueue flag k t (k_list k h)
     \<and> (\<forall>g. waiting_queue g \<and> g \<noteq> h \<longrightarrow> k_list k' g = k_list k g)
     \<and> (time > 0 \<longrightarrow> K_thread_timer t \<in> set (timer_list k')
          \<and> tm_timeout_tick (k_tmr k' (K_thread_timer t)) = rt_tick k + word_of_int time)
     \<and> (scheduler_lock_nest k = 0 \<longrightarrow> runs_highest k')"

definition wakes :: "thead \<Rightarrow> tid \<Rightarrow> tid list \<Rightarrow> kstate \<Rightarrow> kstate \<Rightarrow> bool" where
  "wakes h t ts k k' \<longleftrightarrow> kernel_live k' \<and> thread_frame {t} k k'
     \<and> k_thr k' t = set_stat RT_THREAD_READY (k_thr k t)
     \<and> k_list k' h = ts
     \<and> (\<forall>g. waiting_queue g \<and> g \<noteq> h \<longrightarrow> k_list k' g = k_list k g)
     \<and> (scheduler_lock_nest k = 0 \<longrightarrow> runs_highest k')"

section \<open>Live kernels\<close>

lemma liveD:
  "kernel_live k \<Longrightarrow> kernel_inv 0 k" "kernel_live k \<Longrightarrow> stacks_ok k" "kernel_live k \<Longrightarrow> threads_typed k"
  "kernel_live k \<Longrightarrow> sched_wf k"
  by (simp_all add: kernel_live_def kernel_inv_def)

lemma live_types:
  assumes "kernel_live k" "thread_state k t = RT_THREAD_READY \<or> thread_state k t = RT_THREAD_SUSPEND"
  shows "rt_object_get_type k (K_thread t) = RT_Object_Class_Thread"
    "rt_object_get_type k (K_thread_timer t) = RT_Object_Class_Timer"
  using assms by (auto simp: kernel_live_def threads_typed_def)

lemma live_step:
  assumes live: "kernel_live k" and I: "kernel_inv 0 k'" and fr: "thread_frame {t} k k'"
    and t: "k_thr k' t = set_stat s (k_thr k t)" "thread_state k t = RT_THREAD_READY \<or> thread_state k t = RT_THREAD_SUSPEND"
  shows "kernel_live k'"
proof -
  have thr: "k_thr k' u = (if u = t then set_stat s (k_thr k t) else k_thr k u)" for u
    using fr t(1) by (simp add: thread_frame_def)
  have st: "thread_state k u = RT_THREAD_READY \<or> thread_state k u = RT_THREAD_SUSPEND"
    if "thread_state k' u = RT_THREAD_READY \<or> thread_state k' u = RT_THREAD_SUSPEND" for u
    using that t(2) by (auto simp: thr thread_state_def split: if_splits)
  have "stacks_ok k'"
    by (rule stacks_ok_cong [OF liveD(2) [OF live]]) (use st in \<open>auto simp: thr set_stat_def split: if_splits\<close>)
  moreover have "threads_typed k'"
    unfolding threads_typed_def thread_frame_type [OF fr] using liveD(3) [OF live, unfolded threads_typed_def] st by blast
  ultimately show ?thesis using I by (simp add: kernel_live_def)
qed

lemma live_fields:
  assumes live: "kernel_live k" and I: "kernel_inv 0 k'"
    and thr: "\<And>t. th_stack_guard (k_thr k' t) = th_stack_guard (k_thr k t)"
      "\<And>t. th_sp (k_thr k' t) = th_sp (k_thr k t)" "\<And>t. th_stack_addr (k_thr k' t) = th_stack_addr (k_thr k t)"
      "\<And>t. th_stack_size (k_thr k' t) = th_stack_size (k_thr k t)" "\<And>t. th_stat (k_thr k' t) = th_stat (k_thr k t)"
    and ty: "\<And>p. rt_object_get_type k' p = rt_object_get_type k p"
  shows "kernel_live k'"
proof -
  have "stacks_ok k'" by (rule stacks_ok_cong [OF liveD(2) [OF live]]) (simp_all add: thr thread_state_def)
  moreover have "threads_typed k'" using liveD(3) [OF live] by (simp add: threads_typed_def ty thr thread_state_def)
  ultimately show ?thesis using I by (simp add: kernel_live_def)
qed

lemma live_cong:
  assumes "kernel_live k" "kernel_inv 0 k'" "k_thr k' = k_thr k" "\<And>p. rt_object_get_type k' p = rt_object_get_type k p"
  shows "kernel_live k'"
  by (rule live_fields [OF assms(1,2)]) (simp_all add: assms(3,4))

lemma live_upd:
  assumes "kernel_live k"
  shows "kernel_live (thread_set_error t e k)" "kernel_live (sem_set s v k)" "kernel_live (event_put ev es k)"
    "kernel_live (mb_upd m g k)" "kernel_live (mq_upd q j k)"
    "kernel_live (thr_upd t (\<lambda>x. x\<lparr>th_event_set := a x, th_event_info := b x\<rparr>) k)"
    "kernel_live (thr_upd t (\<lambda>x. x\<lparr>th_event_set := a x\<rparr>) k)"
    "mutex_prio_cond (f (k_mutex k n)) \<Longrightarrow> kernel_live (mutex_upd n f k)"
proof -
  note I = liveD(1) [OF assms] and L = live_fields [OF assms]
  show "kernel_live (thread_set_error t e k)"
    by (rule L [OF kern.upd_inv(5) [OF I]]) (simp_all add: thread_set_error_def rt_object_get_type_def)
  show "kernel_live (sem_set s v k)" by (rule L [OF kern.upd_inv(1) [OF I]]) (simp_all add: sem_set_def rt_object_get_type_def)
  show "kernel_live (event_put ev es k)" by (rule L [OF kern.upd_inv(2) [OF I]]) (simp_all add: event_put_def rt_object_get_type_def)
  show "kernel_live (mb_upd m g k)" by (rule L [OF kern.upd_inv(3) [OF I]]) (simp_all add: mb_upd_def rt_object_get_type_def)
  show "kernel_live (mq_upd q j k)" by (rule L [OF kern.upd_inv(4) [OF I]]) (simp_all add: mq_upd_def rt_object_get_type_def)
  show "kernel_live (thr_upd t (\<lambda>x. x\<lparr>th_event_set := a x, th_event_info := b x\<rparr>) k)"
    by (rule L [OF kern.inv_data [OF I]]) (simp_all add: rt_object_get_type_def)
  show "kernel_live (thr_upd t (\<lambda>x. x\<lparr>th_event_set := a x\<rparr>) k)"
    by (rule L [OF kern.upd_inv(6) [OF I]]) (simp_all add: rt_object_get_type_def)
  show "kernel_live (mutex_upd n f k)" if "mutex_prio_cond (f (k_mutex k n))"
    by (rule L [OF kern.inv_mutex [where f = f, OF I that]]) (simp_all add: mutex_upd_def rt_object_get_type_def)
qed

lemma live_schedule:
  assumes live: "kernel_live k" and s: "thread_state k s = RT_THREAD_READY"
  obtains k' where "rt_schedule k = Some k'" "kernel_live k'" "scheduler_lock_nest k = 0 \<Longrightarrow> runs_highest k'"
    "k_thr k' = k_thr k" "k_list k' = k_list k" "timer_list k' = timer_list k" "k_tmr k' = k_tmr k" "thread_frame {} k k'"
proof -
  obtain k' where k': "rt_schedule k = Some k'" using rt_schedule_succeeds [OF liveD(4,2) [OF live] s] by blast
  obtain p c where f: "k' = k\<lparr>rt_current_priority := p, current_thread := c\<rparr>" using rt_schedule_form [OF k'] by blast
  have "kernel_live k'"
    by (rule live_cong [OF live kern.inv_schedule [OF liveD(1) [OF live] k']]) (simp_all add: f rt_object_get_type_def)
  then show thesis
    using that [OF k'] rt_schedule_runs_highest [OF liveD(4) [OF live] _ k'] rt_schedule_frame [OF k'] by (simp add: f)
qed

section \<open>Waiting\<close>

lemma suspend_succeeds:
  assumes live: "kernel_live k" and st: "thread_state k t = RT_THREAD_READY"
  obtains k1 where "rt_thread_suspend t k = Some (RT_EOK, k1)" "\<And>g. waiting_queue g \<Longrightarrow> k_list k1 g = k_list k g"
proof -
  note wf = liveD(4) [OF live]
  have "prio_ok (k_thr k t)" using sched_wf_prio_ok [of "{}" k t] wf st by (simp add: sched_wf_def)
  then obtain k0 where k0: "rt_schedule_remove_thread t k = Some k0"
    using remove_thread_wf [of "{}" k t] wf by (auto simp: sched_wf_def)
  obtain g where k0': "k0 = k\<lparr>k_list := (\<lambda>h. filter (\<lambda>x. x \<noteq> t) (k_list k h)), ready_priority_group := g\<rparr>"
    using remove_thread_form_ex [OF k0] by blast
  have "\<exists>k1. rt_thread_suspend t k = Some (RT_EOK, k1)"
    using st live_types [OF live, of t] k0
    by (simp add: rt_thread_suspend_def rt_timer_stop_def rt_object_get_type_def k0' Let_def)
  then obtain k1 where k1: "rt_thread_suspend t k = Some (RT_EOK, k1)" by blast
  moreover have "k_list k1 h = k_list k h" if h: "waiting_queue h" for h
  proof -
    have "t \<notin> set (k_list k h)"
      using sched_wf_state [of "{}" k t h] wf st head_state_waiting [OF h] by (auto simp: sched_wf_def)
    then have "filter (\<lambda>x. x \<noteq> t) (k_list k h) = k_list k h" by (auto simp: filter_id_conv)
    moreover have "k_list k1 = k_list k0"
      using k1 st k0 by (auto simp: rt_thread_suspend_def Let_def bind_Some_iff rt_timer_stop_def timer_flag_clear_def
          rt_timer_remove_def split: if_splits)
    ultimately show ?thesis by (simp add: k0')
  qed
  ultimately show thesis by (rule that)
qed

lemma ipc_suspend_succeeds:
  assumes live: "kernel_live k" and st: "thread_state k t = RT_THREAD_READY" and h: "waiting_queue h"
    and flag: "flag = 0 \<or> flag = RT_IPC_FLAG_PRIO"
  obtains k1 where "rt_ipc_list_suspend h t flag k = Some k1" "kernel_live k1" "thread_frame {t} k k1"
    "k_thr k1 t = set_stat RT_THREAD_SUSPEND (k_thr k t)" "k_list k1 h = enqueue flag k t (k_list k h)"
    "\<And>g. waiting_queue g \<Longrightarrow> g \<noteq> h \<Longrightarrow> k_list k1 g = k_list k g"
proof -
  obtain k0 where k0: "rt_thread_suspend t k = Some (RT_EOK, k0)" and L: "\<And>g. waiting_queue g \<Longrightarrow> k_list k0 g = k_list k g"
    by (rule suspend_succeeds [OF live st]) blast
  note S = rt_thread_suspend_wf [OF liveD(4) [OF live] st k0]
  have pr: "th_current_priority (k_thr k0 x) = th_current_priority (k_thr k x)" for x
    using S(5,6) by (cases "x = t") (simp_all add: thread_frame_def set_stat_def)
  define k1 where "k1 = k0\<lparr>k_list := (k_list k0)(h := enqueue flag k t (k_list k h))\<rparr>"
  have k1: "rt_ipc_list_suspend h t flag k = Some k1"
    using flag by (auto simp: rt_ipc_list_suspend_def k0 k1_def enqueue_def pr L [OF h] tlist_insert_before_def)
  have thr: "k_thr k1 t = set_stat RT_THREAD_SUSPEND (k_thr k t)" using S(5) by (simp add: k1_def)
  note fr = rt_ipc_list_suspend_wf(3) [OF liveD(4) [OF live] st h k1]
  have "kernel_live k1"
    using live_step [OF live kern.inv_suspend [OF liveD(1) [OF live] h st k1] fr thr] st by simp
  then show thesis using that [OF k1 _ fr thr] L by (simp add: k1_def)
qed

lemma arm_succeeds:
  assumes live: "kernel_live k" and st: "thread_state k t = RT_THREAD_SUSPEND"
    and time: "0 < time" "time < 0x7fffffff"
  obtains k1 where "rt_timer_start (K_thread_timer t) (tmr_upd (K_thread_timer t)
        (\<lambda>tm. tm\<lparr>tm_init_tick := word_of_int time\<rparr>) k) = Some k1"
    "kernel_live k1" "thread_frame {t} k k1" "k_thr k1 = k_thr k" "k_list k1 = k_list k"
    "K_thread_timer t \<in> set (timer_list k1)"
    "tm_timeout_tick (k_tmr k1 (K_thread_timer t)) = rt_tick k + word_of_int time"
proof -
  let ?p = "K_thread_timer t"
  let ?k = "tmr_upd ?p (\<lambda>tm. tm\<lparr>tm_init_tick := word_of_int time\<rparr>) k"
  have ty: "rt_object_get_type ?k ?p = RT_Object_Class_Timer"
    using live_types(2) [OF live] st by (simp add: rt_object_get_type_def)
  have "word_of_int time < RT_TICK_HALF" using time by (simp add: word_less_def uint_word_of_int)
  then obtain k1 where k1: "rt_timer_start ?p ?k = Some k1" using rt_timer_start_succeeds [OF ty] by auto
  obtain l c where F: "k1 = ?k\<lparr>timer_list := l, timer_check_list := c,
      k_obj := (k_obj ?k)(?p := (k_obj ?k ?p)\<lparr>o_flag := (o_flag (k_obj ?k ?p) AND NOT 1) OR 1\<rparr>),
      k_tmr := (k_tmr ?k)(?p := (k_tmr ?k ?p)\<lparr>tm_timeout_tick := rt_tick ?k + tm_init_tick (k_tmr ?k ?p)\<rparr>)\<rparr>"
    using rt_timer_start_form [OF k1] by blast
  have fr: "thread_frame {t} k k1" by (simp add: thread_frame_def F)
  have same: "k_thr k1 = k_thr k" "k_list k1 = k_list k" by (simp_all add: F)
  have "kernel_live k1"
    using kern.inv_arm [OF liveD(1) [OF live] st _ k1] live_types(1) [OF live] st
    by (intro live_cong [OF live _ same(1) thread_frame_type [OF fr]]) simp
  moreover have "timer_off 0 ?k = timer_off 0 k" by (rule ext) (simp add: timer_off_def)
  then have "timers_sorted 0 ?k"
    using timers_wf_sorted [OF kernel_invD(2) [OF liveD(1) [OF live]]] by (simp add: timers_sorted_def)
  then have "?p \<in> set (timer_list k1)" using rt_timer_start_list(6) [OF _ _ k1, of 0] by simp
  moreover have "tm_timeout_tick (k_tmr k1 ?p) = rt_tick k + word_of_int time" by (simp add: F)
  ultimately show thesis using that [OF k1 _ fr same] by blast
qed

text \<open>Arming the timer of a suspended thread, when its timeout is positive, and giving up the processor.\<close>

lemma park_succeeds:
  assumes live: "kernel_live k" and st: "thread_state k t = RT_THREAD_SUSPEND" and time: "time < 0x7fffffff"
    and s: "thread_state k s = RT_THREAD_READY"
  obtains k1 k' where "if time > 0 then rt_timer_start (K_thread_timer t)
        (tmr_upd (K_thread_timer t) (\<lambda>tm. tm\<lparr>tm_init_tick := word_of_int time\<rparr>) k) = Some k1 else k1 = k"
    "rt_schedule k1 = Some k'" "kernel_live k'" "thread_frame {t} k k'" "k_thr k' = k_thr k" "k_list k' = k_list k"
    "0 < time \<Longrightarrow> K_thread_timer t \<in> set (timer_list k')
       \<and> tm_timeout_tick (k_tmr k' (K_thread_timer t)) = rt_tick k + word_of_int time"
    "scheduler_lock_nest k = 0 \<Longrightarrow> runs_highest k'"
proof -
  let ?arm = "\<lambda>k2. if time > 0 then rt_timer_start (K_thread_timer t)
      (tmr_upd (K_thread_timer t) (\<lambda>tm. tm\<lparr>tm_init_tick := word_of_int time\<rparr>) k) = Some k2 else k2 = k"
  obtain k2 where k2: "?arm k2" and live2: "kernel_live k2" and fr2: "thread_frame {t} k k2"
    and thr2: "k_thr k2 = k_thr k" and l2: "k_list k2 = k_list k"
    and tm: "0 < time \<Longrightarrow> K_thread_timer t \<in> set (timer_list k2)
       \<and> tm_timeout_tick (k_tmr k2 (K_thread_timer t)) = rt_tick k + word_of_int time"
  proof (cases "0 < time")
    case True
    show thesis by (rule arm_succeeds [OF live st True time]) (rule that, simp_all add: True)
  qed (rule that [of k], use live in simp_all)
  have s2: "thread_state k2 s = RT_THREAD_READY" using s thr2 by (simp add: thread_state_def)
  have lk: "scheduler_lock_nest k2 = scheduler_lock_nest k" using fr2 by (simp add: thread_frame_def)
  obtain k' where k': "rt_schedule k2 = Some k'" "kernel_live k'" "scheduler_lock_nest k2 = 0 \<Longrightarrow> runs_highest k'"
    "k_thr k' = k_thr k2" "k_list k' = k_list k2" "timer_list k' = timer_list k2" "k_tmr k' = k_tmr k2" "thread_frame {} k2 k'"
    by (rule live_schedule [OF live2 s2]) blast
  show thesis
    by (rule that [OF k2 k'(1,2) thread_frame_trans1 [OF fr2 thread_frame_mono [OF k'(8) empty_subsetI]]])
      (use k' tm thr2 l2 lk in simp_all)
qed

lemma ipc_wait_succeeds:
  assumes live: "kernel_live k" and st: "thread_state k t = RT_THREAD_READY" and h: "waiting_queue h"
    and flag: "flag = 0 \<or> flag = RT_IPC_FLAG_PRIO" and time: "time < 0x7fffffff"
    and s: "s \<noteq> t" "thread_state k s = RT_THREAD_READY"
  obtains k' where "ipc_wait h t flag time k = Some k'" "waits h t flag time k k'"
proof -
  obtain k1 where k1: "rt_ipc_list_suspend h t flag k = Some k1" and live1: "kernel_live k1" and fr1: "thread_frame {t} k k1"
    and thr1: "k_thr k1 t = set_stat RT_THREAD_SUSPEND (k_thr k t)" and l1: "k_list k1 h = enqueue flag k t (k_list k h)"
    and o1: "\<And>g. waiting_queue g \<Longrightarrow> g \<noteq> h \<Longrightarrow> k_list k1 g = k_list k g"
    by (rule ipc_suspend_succeeds [OF live st h flag]) blast
  have st1: "thread_state k1 t = RT_THREAD_SUSPEND" using thr1 by (simp add: thread_state_def)
  have ty1: "rt_object_get_type k1 (K_thread_timer t) = RT_Object_Class_Timer" using live_types(2) [OF live1] st1 by blast
  have s1: "thread_state k1 s = RT_THREAD_READY" using s fr1 by (simp add: thread_frame_def thread_state_def)
  have same: "scheduler_lock_nest k1 = scheduler_lock_nest k" "rt_tick k1 = rt_tick k" using fr1 by (simp_all add: thread_frame_def)
  obtain k2 k' where k2: "if time > 0 then rt_timer_start (K_thread_timer t)
        (tmr_upd (K_thread_timer t) (\<lambda>tm. tm\<lparr>tm_init_tick := word_of_int time\<rparr>) k1) = Some k2 else k2 = k1"
    and k': "rt_schedule k2 = Some k'" and P: "kernel_live k'" "thread_frame {t} k1 k'" "k_thr k' = k_thr k1" "k_list k' = k_list k1"
      "0 < time \<Longrightarrow> K_thread_timer t \<in> set (timer_list k')
         \<and> tm_timeout_tick (k_tmr k' (K_thread_timer t)) = rt_tick k1 + word_of_int time"
      "scheduler_lock_nest k1 = 0 \<Longrightarrow> runs_highest k'"
    by (rule park_succeeds [OF live1 st1 time s1]) blast
  have "ipc_wait h t flag time k = Some k'"
    using k1 k2 k' ty1 by (simp add: ipc_wait_def rt_timer_control_def split: if_splits)
  moreover have "waits h t flag time k k'"
    unfolding waits_def using P thread_frame_trans1 [OF fr1 P(2)] thr1 l1 o1 same by simp
  ultimately show thesis using that by blast
qed

text \<open>The order of a waiting queue is of no concern to the invariant.\<close>

lemma live_reorder:
  assumes live: "kernel_live k" and h: "waiting_queue h" and q: "set q = set (k_list k h)" "distinct q"
  shows "kernel_live (k\<lparr>k_list := (k_list k)(h := q)\<rparr>)"
proof -
  let ?k = "k\<lparr>k_list := (k_list k)(h := q)\<rparr>"
  have set: "set (k_list ?k g) = set (k_list k g)" for g using q(1) by simp
  have dist: "distinct (k_list ?k g) = distinct (k_list k g)" for g
    using q(2) sched_wf_distinct [of "{}" k h] liveD(4) [OF live] by (simp add: sched_wf_def)
  have rdy: "k_list ?k (Ready p) = k_list k (Ready p)" for p using h by auto
  have "sched_wf ?k" using liveD(4) [OF live] unfolding sched_wf_def sched_wf_except_def set dist rdy by (simp add: thread_state_def)
  moreover have "timers_wf 0 ?k"
    by (rule timers_wf_cong [OF kernel_invD(2) [OF liveD(1) [OF live]]])
      (simp_all add: thread_state_def timer_active_def timer_periodic_def)
  moreover have "mutex_prio_ok ?k" using kernel_invD(3) [OF liveD(1) [OF live]] by (simp add: mutex_prio_ok_def)
  ultimately have "kernel_inv 0 ?k" by (simp add: kernel_inv_def)
  then show ?thesis by (rule live_cong [OF live]) (simp_all add: rt_object_get_type_def)
qed

section \<open>Priorities\<close>

lemma set_stat_id: "th_stat th AND RT_THREAD_STAT_MASK = s \<Longrightarrow> set_stat s th = th"
proof -
  assume "th_stat th AND RT_THREAD_STAT_MASK = s"
  then have "s OR (th_stat th AND NOT RT_THREAD_STAT_MASK) = th_stat th"
    by (auto intro!: bit_word_eqI simp: bit_simps)
  then show ?thesis by (simp add: set_stat_def)
qed

lemma priority_succeeds:
  assumes live: "kernel_live k" and p: "p < 32" and st: "thread_state k t = RT_THREAD_READY \<or> thread_state k t = RT_THREAD_SUSPEND"
  obtains k1 where "thread_change_priority t p k = Some k1" "kernel_live k1" "k_thr k1 t = set_priority p (k_thr k t)"
    "\<And>g. waiting_queue g \<Longrightarrow> k_list k1 g = k_list k g"
proof -
  note wf = liveD(4) [OF live] and ty = live_types(1) [OF live st]
  have "\<exists>k1. thread_change_priority t p k = Some k1 \<and> k_thr k1 t = set_priority p (k_thr k t)"
  proof (cases "thread_state k t = RT_THREAD_READY")
    case True
    have "prio_ok (k_thr k t)" using sched_wf_prio_ok [of "{}" k t] wf True by (simp add: sched_wf_def)
    then obtain k0 where k0: "rt_schedule_remove_thread t k = Some k0"
      using remove_thread_wf [of "{}" k t] wf by (auto simp: sched_wf_def)
    obtain g where k0': "k0 = k\<lparr>k_list := (\<lambda>h. filter (\<lambda>x. x \<noteq> t) (k_list k h)), ready_priority_group := g\<rparr>"
      using remove_thread_form_ex [OF k0] by blast
    have "set_stat RT_THREAD_READY (set_priority p (k_thr k t)) = set_priority p (k_thr k t)"
      using True by (intro set_stat_id) (simp add: thread_state_def set_priority_def)
    then show ?thesis
      using True ty k0 p rt_schedule_insert_thread_form [of t "thr_upd t (set_priority p) k0"]
      by (auto simp: thread_change_priority_def k0' rt_schedule_insert_thread_def set_priority_def Let_def)
  qed (use ty in \<open>simp add: thread_change_priority_def\<close>)
  then obtain k1 where k1: "thread_change_priority t p k = Some k1" and thr: "k_thr k1 t = set_priority p (k_thr k t)" by blast
  note W = thread_change_priority_wf [OF wf p k1]
  have fields: "P (k_thr k1 u) = P (k_thr k u)" if "\<And>x. P (set_priority p x) = P x" for P :: "rt_thread \<Rightarrow> 'a" and u
    using W(2) thr that by (cases "u = t") (simp_all add: thread_frame_def)
  have "kernel_live k1"
    by (rule live_fields [OF live kern.inv_priority [OF liveD(1) [OF live] _ k1]])
      (simp_all add: p thread_frame_type [OF W(2)] fields set_priority_def)
  then show thesis using that [OF k1 _ thr] W(6) waiting_not_ready by blast
qed

section \<open>Waking\<close>

lemma resume_succeeds:
  assumes live: "kernel_live k" and st: "thread_state k t = RT_THREAD_SUSPEND"
  obtains k1 where "rt_thread_resume t k = Some (RT_EOK, k1)" "kernel_live k1" "thread_frame {t} k k1"
    "k_thr k1 t = set_stat RT_THREAD_READY (k_thr k t)" "current_thread k1 = current_thread k"
    "\<And>g. waiting_queue g \<Longrightarrow> k_list k1 g = filter (\<lambda>x. x \<noteq> t) (k_list k g)"
proof -
  note wf = liveD(4) [OF live]
  have "prio_ok (k_thr k t)" using sched_wf_prio_ok [of "{}" k t] wf st by (simp add: sched_wf_def)
  then have p: "th_current_priority (k_thr k t) < 32" by (simp add: prio_ok_def)
  have "\<exists>k1. rt_thread_resume t k = Some (RT_EOK, k1)"
    using st live_types [OF live, of t] p
    by (simp add: rt_thread_resume_def resume_unlink_def rt_timer_stop_def rt_object_get_type_def Let_def rt_schedule_insert_thread_def
        tlist_remove_def timer_flag_clear_def rt_timer_remove_def)
  then obtain k1 where k1: "rt_thread_resume t k = Some (RT_EOK, k1)" by blast
  note R = rt_thread_resume_wf [OF wf st k1]
  have "kernel_live k1" using live_step [OF live kern.inv_resume [OF liveD(1) [OF live] k1] R(4,5)] st by simp
  moreover have "k_list k1 g = filter (\<lambda>x. x \<noteq> t) (k_list k g)" if "waiting_queue g" for g
    using R(7) waiting_not_ready [OF that] by blast
  ultimately show thesis using that [OF k1 _ R(4,5,6)] by blast
qed

text \<open>Resuming a thread that may be running already, and rescheduling.\<close>

lemma resume_or_not:
  assumes live: "kernel_live k" and st: "thread_state k t = RT_THREAD_READY \<or> thread_state k t = RT_THREAD_SUSPEND"
  obtains r k1 k' where "rt_thread_resume t k = Some (r, k1)" "rt_schedule k1 = Some k'" "kernel_live k'" "thread_frame {t} k k'"
    "k_thr k' t = set_stat RT_THREAD_READY (k_thr k t)" "scheduler_lock_nest k = 0 \<Longrightarrow> runs_highest k'"
proof -
  obtain r k1 where k1: "rt_thread_resume t k = Some (r, k1)" "kernel_live k1" "thread_frame {t} k k1"
    "k_thr k1 t = set_stat RT_THREAD_READY (k_thr k t)"
  proof (cases "thread_state k t = RT_THREAD_SUSPEND")
    case True
    then show thesis using resume_succeeds [OF live] that by metis
  next
    case False
    then have r: "thread_state k t = RT_THREAD_READY" using st by simp
    then have "rt_thread_resume t k = Some (- RT_ERROR, k)" using live_types(1) [OF live st] by (simp add: rt_thread_resume_def resume_unlink_def)
    moreover have "set_stat RT_THREAD_READY (k_thr k t) = k_thr k t" using r by (simp add: set_stat_id thread_state_def)
    ultimately show thesis using that [of "- RT_ERROR" k] live by simp
  qed
  have st: "thread_state k1 t = RT_THREAD_READY" using k1(4) by (simp add: thread_state_def)
  obtain k' where S: "rt_schedule k1 = Some k'" "kernel_live k'" "scheduler_lock_nest k1 = 0 \<Longrightarrow> runs_highest k'" "k_thr k' = k_thr k1" "thread_frame {} k1 k'"
    by (rule live_schedule [OF k1(2) st]) blast
  show thesis
    using that [OF k1(1) S(1,2) thread_frame_trans1 [OF k1(3) thread_frame_mono [OF S(5) empty_subsetI]]] S(3,4) k1(3,4)
    by (simp add: thread_frame_def)
qed

text \<open>The queues without the first thread of one of them.\<close>

lemma queue_unlink:
  assumes wf: "sched_wf k" and h: "waiting_queue h" "k_list k h = t # ts"
  shows "thread_state k t = RT_THREAD_SUSPEND" "filter (\<lambda>x. x \<noteq> t) (k_list k h) = ts"
    "g \<noteq> h \<Longrightarrow> filter (\<lambda>x. x \<noteq> t) (k_list k g) = k_list k g"
proof -
  have t: "t \<in> set (k_list k h)" using h(2) by simp
  have wf': "sched_wf_except {} k" using wf by (simp add: sched_wf_def)
  show "thread_state k t = RT_THREAD_SUSPEND" using sched_wf_state [OF wf' t] head_state_waiting [OF h(1)] by simp
  have "distinct (t # ts)" using sched_wf_distinct [OF wf', of h] h(2) by simp
  then show "filter (\<lambda>x. x \<noteq> t) (k_list k h) = ts" unfolding h(2) by (auto simp: filter_id_conv)
  show "filter (\<lambda>x. x \<noteq> t) (k_list k g) = k_list k g" if "g \<noteq> h"
    using wf' t that unfolding sched_wf_except_def filter_id_conv by blast
qed

lemma ipc_resume_succeeds:
  assumes live: "kernel_live k" and h: "waiting_queue h" "k_list k h = t # ts"
  obtains k1 k' where "rt_ipc_list_resume h k = Some k1" "rt_schedule k1 = Some k'" "wakes h t ts k k'"
    "kernel_live k1" "current_thread k1 = current_thread k"
proof -
  note Q = queue_unlink [OF liveD(4) [OF live] h]
  obtain k1 where k1: "rt_thread_resume t k = Some (RT_EOK, k1)" and live1: "kernel_live k1" and fr: "thread_frame {t} k k1"
    and thr: "k_thr k1 t = set_stat RT_THREAD_READY (k_thr k t)" and cur: "current_thread k1 = current_thread k"
    and l: "\<And>g. waiting_queue g \<Longrightarrow> k_list k1 g = filter (\<lambda>x. x \<noteq> t) (k_list k g)"
    by (rule resume_succeeds [OF live Q(1)]) blast
  have res: "rt_ipc_list_resume h k = Some k1" using h(2) k1 by (simp add: rt_ipc_list_resume_def)
  have st: "thread_state k1 t = RT_THREAD_READY" using thr by (simp add: thread_state_def)
  have lk: "scheduler_lock_nest k1 = scheduler_lock_nest k" using fr by (simp add: thread_frame_def)
  obtain k' where k': "rt_schedule k1 = Some k'" and S: "kernel_live k'" "scheduler_lock_nest k1 = 0 \<Longrightarrow> runs_highest k'"
    "k_thr k' = k_thr k1" "k_list k' = k_list k1" "thread_frame {} k1 k'"
    by (rule live_schedule [OF live1 st]) blast
  have "wakes h t ts k k'"
    unfolding wakes_def
    using S thr l h(1) Q(2,3) lk thread_frame_trans1 [OF fr thread_frame_mono [OF S(5) empty_subsetI]] by simp
  with res k' show thesis using that live1 cur by blast
qed

lemma wakesD:
  assumes "wakes h t ts k k'"
  shows "kernel_live k'" "thread_frame {t} k k'" "thread_state k' t = RT_THREAD_READY" "k_list k' h = ts"
    "scheduler_lock_nest k = 0 \<Longrightarrow> runs_highest k'"
  using assms by (simp_all add: wakes_def thread_state_def)

section \<open>The sample system is live\<close>

lemma sample_kernel_inv: "kernel_inv 0 sample_kernel"
  using sample_kernel_wf sample_kernel_timers(1)
  by (auto simp: kernel_inv_def mutex_prio_ok_def mutex_prio_cond_def sample_kernel_def kernel_zero_def)

lemma sample_kernel_runs_highest: "runs_highest sample_kernel"
  by (auto simp: runs_highest_def sample_kernel_state sample_kernel_thr split: if_splits)

lemma sample_kernel_live: "kernel_live sample_kernel"
  using sample_kernel_inv sample_kernel_stacks
  by (simp add: kernel_live_def threads_typed_def sample_kernel_types)

end
