(* ===== verification/Kernel_Step.thy ===== *)
theory Kernel_Step
  imports Waiting
begin

text \<open>
  The running system: threads that issue kernel calls, interrupt handlers that issue the calls allowed to
  them, and the tick interrupt. A step relation over the kernel state and, for every thread, the waiting call
  it has to finish when it runs again. A call is one step, up to the point where it waits, with two exceptions: a thread that
  resumes or starts another one makes a step for each of the two sections of \<^verbatim>\<open>rt_thread_resume\<close>, with interrupts and other threads in between.
  The code enables interrupts at other points of the calls as well, mostly between the section that changes the kernel objects and the call of
  the scheduler; an interrupt that arrives there is taken before or after the call. Interrupt handlers do not interrupt each
  other. The callbacks of user timers are a parameter, of which the calls they may make are assumed (\<open>callback_calls\<close>).
\<close>

section \<open>Definitions\<close>

text \<open>The calls. \<open>Sys_suspend_self\<close> is the way a thread suspends itself: \<^verbatim>\<open>rt_thread_suspend\<close> for itself and then \<^verbatim>\<open>rt_schedule\<close>.\<close>

datatype syscall =
    Sys_sem_take nat int | Sys_sem_release nat | Sys_sem_control nat ipc_cmd
  | Sys_mutex_take nat int | Sys_mutex_release nat
  | Sys_event_send nat u32 | Sys_event_recv nat u32 u8 int | Sys_event_control nat ipc_cmd
  | Sys_mb_send nat u32 int | Sys_mb_recv nat int | Sys_mb_control nat ipc_cmd
  | Sys_mq_send nat "u8 list" nat int | Sys_mq_urgent nat "u8 list" nat | Sys_mq_recv nat nat int
  | Sys_mq_control nat ipc_cmd
  | Sys_yield | Sys_sleep u32 | Sys_delay_until u32 u32 | Sys_startup tid | Sys_resume tid | Sys_suspend tid | Sys_suspend_self
  | Sys_change_priority tid nat | Sys_timer_start nat | Sys_timer_stop nat
  | Sys_enter_critical | Sys_exit_critical

definition returns :: "(int \<times> kstate) option \<Rightarrow> (wait_result \<times> kstate) option" where
  "returns = map_option (\<lambda>(r, k). (Return r, k))"

definition drops :: "(wait_result \<times> 'a \<times> kstate) option \<Rightarrow> (wait_result \<times> kstate) option" where
  "drops = map_option (\<lambda>(r, _, k). (r, k))"

definition done_with :: "kstate option \<Rightarrow> (wait_result \<times> kstate) option" where
  "done_with = map_option (\<lambda>k. (Return RT_EOK, k))"

fun exec :: "syscall \<Rightarrow> kstate \<Rightarrow> (wait_result \<times> kstate) option" where
  "exec (Sys_sem_take s time) k = rt_sem_take s time k"
| "exec (Sys_sem_release s) k = returns (rt_sem_release s k)"
| "exec (Sys_sem_control s cmd) k = returns (rt_sem_control s cmd k)"
| "exec (Sys_mutex_take m time) k = rt_mutex_take m time k"
| "exec (Sys_mutex_release m) k = returns (rt_mutex_release m k)"
| "exec (Sys_event_send e evs) k = returns (rt_event_send e evs k)"
| "exec (Sys_event_recv e evs opt time) k = drops (rt_event_recv e evs opt time k)"
| "exec (Sys_event_control e cmd) k = returns (rt_event_control e cmd k)"
| "exec (Sys_mb_send m v time) k = rt_mb_send_wait m v time k"
| "exec (Sys_mb_recv m time) k = drops (rt_mb_recv m time k)"
| "exec (Sys_mb_control m cmd) k = returns (rt_mb_control m cmd k)"
| "exec (Sys_mq_send q bs n time) k = rt_mq_send_wait q bs n time k"
| "exec (Sys_mq_urgent q bs n) k = returns (rt_mq_urgent q bs n k)"
| "exec (Sys_mq_recv q n time) k = drops (rt_mq_recv q n time k)"
| "exec (Sys_mq_control q cmd) k = returns (rt_mq_control q cmd k)"
| "exec Sys_yield k = done_with (rt_thread_yield k)"
| "exec (Sys_sleep n) k = rt_thread_sleep n k"
| "exec (Sys_delay_until tick inc) k = drops (rt_thread_delay_until tick inc k)"
| "exec (Sys_startup t) k = done_with (rt_thread_startup t k)"
| "exec (Sys_resume t) k = returns (rt_thread_resume t k)"
| "exec (Sys_suspend t) k = returns (rt_thread_suspend t k)"
| "exec Sys_suspend_self k = do {
     t \<leftarrow> rt_thread_self k;
     (_, k1) \<leftarrow> rt_thread_suspend t k;
     k2 \<leftarrow> rt_schedule k1;
     Some (Return RT_EOK, k2)
   }"
| "exec (Sys_change_priority t p) k = done_with (thread_change_priority t p k)"
| "exec (Sys_timer_start n) k = done_with (rt_timer_start (K_timer n) k)"
| "exec (Sys_timer_stop n) k = returns (rt_timer_stop (K_timer n) k)"
| "exec Sys_enter_critical k = Some (Return RT_EOK, rt_enter_critical k)"
| "exec Sys_exit_critical k = done_with (rt_exit_critical k)"

text \<open>The rest of a waiting call, when its thread \<open>t\<close> runs again.\<close>

fun resume_call :: "tid \<Rightarrow> cont \<Rightarrow> kstate \<Rightarrow> (wait_result \<times> kstate) option" where
  "resume_call t C_sleep k = Some (case rt_thread_sleep_cont t k of (r, k') \<Rightarrow> (Return r, k'))"
| "resume_call t C_delay_until k = Some (case rt_thread_delay_until_cont t k of (r, _, k') \<Rightarrow> (Return r, k'))"
| "resume_call t C_sem_take k = Some (Return (rt_sem_take_cont t k), k)"
| "resume_call t C_mutex_take k = Some (Return (rt_mutex_take_cont t k), k)"
| "resume_call t C_event_recv k = Some (Return (fst (rt_event_recv_cont t k)), k)"
| "resume_call t (C_mb_send m v timeout start) k = rt_mb_send_cont t m v timeout start k"
| "resume_call t (C_mb_recv m timeout start) k = drops (rt_mb_recv_cont t m timeout start k)"
| "resume_call t (C_mq_send q bs n timeout start) k = rt_mq_send_cont t q bs n timeout start k"
| "resume_call t (C_mq_recv q n timeout start) k = drops (rt_mq_recv_cont t q n timeout start k)"

text \<open>The calls an interrupt handler or a timer callback may make.\<close>

fun isr_call :: "syscall \<Rightarrow> bool" where
  "isr_call (Sys_sem_release _) = True" | "isr_call (Sys_event_send _ _) = True"
| "isr_call (Sys_mq_urgent _ _ _) = True" | "isr_call (Sys_resume _) = True"
| "isr_call (Sys_timer_start _) = True" | "isr_call (Sys_timer_stop _) = True"
| "isr_call (Sys_mb_send _ _ time) = (time = 0)" | "isr_call (Sys_mq_send _ _ _ time) = (time = 0)"
| "isr_call _ = False"

text \<open>The rules for calls that the kernel does not check: a call that may wait is made
  with the scheduler unlocked; a priority is in range; a thread that suspends itself calls the scheduler at once; critical
  sections nest less than 32767 deep.\<close>

fun may_wait :: "syscall \<Rightarrow> bool" where
  "may_wait (Sys_sem_take _ _) = True" | "may_wait (Sys_mutex_take _ _) = True"
| "may_wait (Sys_event_recv _ _ _ _) = True" | "may_wait (Sys_mb_send _ _ _) = True"
| "may_wait (Sys_mb_recv _ _) = True" | "may_wait (Sys_mq_send _ _ _ _) = True"
| "may_wait (Sys_mq_recv _ _ _) = True" | "may_wait (Sys_sleep _) = True"
| "may_wait (Sys_delay_until _ _) = True" | "may_wait Sys_suspend_self = True" | "may_wait _ = False"

fun call_ok :: "syscall \<Rightarrow> kstate \<Rightarrow> bool" where
  "call_ok (Sys_suspend t) k = (current_thread k \<noteq> Some t)"
| "call_ok (Sys_change_priority t p) k = (p < RT_THREAD_PRIORITY_MAX)"
| "call_ok (Sys_startup t) k = (th_init_priority (k_thr k t) < RT_THREAD_PRIORITY_MAX)"
| "call_ok Sys_enter_critical k = (scheduler_lock_nest k < 32767)"
| "call_ok c k = (may_wait c \<and> \<not> isr_call c \<longrightarrow> scheduler_lock_nest k = 0)"

fun exec_all :: "syscall list \<Rightarrow> kstate \<Rightarrow> kstate option" where
  "exec_all [] k = Some k"
| "exec_all (c # cs) k = do { (_, k1) \<leftarrow> exec c k; exec_all cs k1 }"

definition callback_calls :: "user_fun \<Rightarrow> bool" where
  "callback_calls uf \<longleftrightarrow> (\<forall>n k k'. uf (CB_timer n) k = Some k'
      \<longrightarrow> (\<exists>cs. (\<forall>c \<in> set cs. isr_call c) \<and> exec_all cs k = Some k'))"

text \<open>The calls that a thread makes in two steps: resuming a suspended thread, and starting one, which then calls the scheduler.\<close>

fun split_call :: "syscall \<Rightarrow> kstate \<Rightarrow> bool" where
  "split_call (Sys_resume u) k = (thread_state k u = RT_THREAD_SUSPEND)"
| "split_call (Sys_startup u) k = True"
| "split_call _ k = False"

definition resume_finish :: "tid \<Rightarrow> bool \<Rightarrow> kstate \<Rightarrow> kstate option" where
  "resume_finish u sched k = do {
     k1 \<leftarrow> rt_schedule_insert_thread u k;
     if sched \<and> rt_thread_self k1 \<noteq> None then rt_schedule k1 else Some k1
   }"

text \<open>The thread \<open>u\<close> is as the first section of \<^verbatim>\<open>rt_thread_resume\<close> has left it: nobody has resumed it since, let it wait or started its timer.\<close>

definition resume_parted :: "tid \<Rightarrow> kstate \<Rightarrow> bool" where
  "resume_parted u k \<longleftrightarrow> rt_object_get_type k (K_thread u) = RT_Object_Class_Thread \<and> thread_state k u = RT_THREAD_SUSPEND
     \<and> resume_unlink u k = Some k"

text \<open>The kernel; the waiting calls; and the threads that are between the two sections of \<^verbatim>\<open>rt_thread_resume\<close>, with the thread they resume and whether
  they start it.\<close>

record system =
  sys_kernel :: kstate
  sys_waiting :: "tid \<Rightarrow> cont option"
  sys_resuming :: "tid \<Rightarrow> (tid \<times> bool) option"

definition next_system :: "system \<Rightarrow> tid \<Rightarrow> wait_result \<Rightarrow> kstate \<Rightarrow> system" where
  "next_system s t r k = s\<lparr>sys_kernel := k,
     sys_waiting := (sys_waiting s)(t := (case r of Return _ \<Rightarrow> None | Wait c \<Rightarrow> Some c))\<rparr>"

inductive step :: "user_fun \<Rightarrow> system \<Rightarrow> system \<Rightarrow> bool" for uf where
  step_call: "current_thread (sys_kernel s) = Some t \<Longrightarrow> sys_waiting s t = None \<Longrightarrow> call_ok c (sys_kernel s) \<Longrightarrow>
    exec c (sys_kernel s) = Some (r, k') \<Longrightarrow> sys_resuming s t = None \<Longrightarrow> \<not> split_call c (sys_kernel s) \<Longrightarrow>
    step uf s (next_system s t r k')"
| step_resume_begin: "current_thread (sys_kernel s) = Some t \<Longrightarrow> sys_waiting s t = None \<Longrightarrow> sys_resuming s t = None \<Longrightarrow>
    rt_object_get_type (sys_kernel s) (K_thread u) = RT_Object_Class_Thread \<Longrightarrow> thread_state (sys_kernel s) u = RT_THREAD_SUSPEND \<Longrightarrow>
    resume_unlink u (sys_kernel s) = Some k' \<Longrightarrow>
    step uf s (s\<lparr>sys_kernel := k', sys_resuming := (sys_resuming s)(t := Some (u, False))\<rparr>)"
| step_startup_begin: "current_thread (sys_kernel s) = Some t \<Longrightarrow> sys_waiting s t = None \<Longrightarrow> sys_resuming s t = None \<Longrightarrow>
    call_ok (Sys_startup u) (sys_kernel s) \<Longrightarrow> thread_state (sys_kernel s) u = RT_THREAD_INIT \<Longrightarrow>
    rt_object_get_type (sys_kernel s) (K_thread u) = RT_Object_Class_Thread \<Longrightarrow>
    resume_unlink u (startup_prepare u (sys_kernel s)) = Some k' \<Longrightarrow>
    step uf s (s\<lparr>sys_kernel := k', sys_resuming := (sys_resuming s)(t := Some (u, True))\<rparr>)"
| step_resume_end: "current_thread (sys_kernel s) = Some t \<Longrightarrow> sys_resuming s t = Some (u, sched) \<Longrightarrow>
    resume_parted u (sys_kernel s) \<Longrightarrow> resume_finish u sched (sys_kernel s) = Some k' \<Longrightarrow>
    step uf s (s\<lparr>sys_kernel := k', sys_resuming := (sys_resuming s)(t := None)\<rparr>)"
| step_resume: "current_thread (sys_kernel s) = Some t \<Longrightarrow> sys_waiting s t = Some w \<Longrightarrow>
    resume_call t w (sys_kernel s) = Some (r, k') \<Longrightarrow> step uf s (next_system s t r k')"
| step_interrupt: "isr_call c \<Longrightarrow> exec c (rt_interrupt_enter (sys_kernel s)) = Some (r, k') \<Longrightarrow>
    step uf s (s\<lparr>sys_kernel := rt_interrupt_leave k'\<rparr>)"
| step_tick: "rt_tick_increase uf (rt_interrupt_enter (sys_kernel s)) = Some k' \<Longrightarrow>
    step uf s (s\<lparr>sys_kernel := rt_interrupt_leave k'\<rparr>)"

inductive reachable :: "user_fun \<Rightarrow> system \<Rightarrow> system \<Rightarrow> bool" for uf s0 where
  reach_start: "reachable uf s0 s0"
| reach_step: "reachable uf s0 s \<Longrightarrow> step uf s s' \<Longrightarrow> reachable uf s0 s'"

text \<open>The calls that \<open>kernel_invariant\<close> covers.\<close>

fun ipc_call :: "syscall \<Rightarrow> bool" where
  "ipc_call Sys_yield = False" | "ipc_call (Sys_sleep _) = False" | "ipc_call (Sys_delay_until _ _) = False"
| "ipc_call (Sys_startup _) = False" | "ipc_call (Sys_suspend _) = False" | "ipc_call Sys_suspend_self = False" | "ipc_call (Sys_timer_start _) = False"
| "ipc_call (Sys_timer_stop _) = False" | "ipc_call Sys_enter_critical = False" | "ipc_call Sys_exit_critical = False"
| "ipc_call _ = True"

definition wait_ok :: "syscall \<Rightarrow> kstate \<Rightarrow> bool" where
  "wait_ok c k \<longleftrightarrow> isr_call c \<or> (may_wait c \<longrightarrow> running_ready k)"

text \<open>What a call, or a part of one, does to the scheduler lock and the running thread.\<close>

definition orderly :: "kstate \<Rightarrow> kstate \<Rightarrow> bool" where
  "orderly k k' \<longleftrightarrow> scheduler_lock_nest k' = scheduler_lock_nest k
     \<and> (scheduler_lock_nest k \<noteq> 0 \<longrightarrow> current_thread k' = current_thread k)
     \<and> (current_thread k \<noteq> None \<longrightarrow> current_thread k' \<noteq> None)
     \<and> (scheduler_lock_nest k = 0 \<longrightarrow> running_ready k \<longrightarrow> running_ready k')"

fun critical_call :: "syscall \<Rightarrow> bool" where
  "critical_call Sys_enter_critical = True" | "critical_call Sys_exit_critical = True" | "critical_call _ = False"

text \<open>The calls that end with a call of the scheduler whenever they make a thread ready or lower the priority of the
  running one.\<close>

fun preempting_call :: "syscall \<Rightarrow> bool" where
  "preempting_call (Sys_mutex_release _) = False" | "preempting_call (Sys_event_send _ _) = False"
| "preempting_call (Sys_resume _) = False" | "preempting_call (Sys_change_priority _ _) = False"
| "preempting_call _ = True"

text \<open>The system invariant.\<close>

definition system_ok :: "system \<Rightarrow> bool" where
  "system_ok s \<longleftrightarrow> kernel_inv 0 (sys_kernel s) \<and> current_thread (sys_kernel s) \<noteq> None
     \<and> 0 \<le> scheduler_lock_nest (sys_kernel s)
     \<and> (scheduler_lock_nest (sys_kernel s) = 0 \<longrightarrow> running_ready (sys_kernel s))
     \<and> (\<forall>t. current_thread (sys_kernel s) = Some t \<longrightarrow> sys_waiting s t \<noteq> None
          \<longrightarrow> scheduler_lock_nest (sys_kernel s) = 0)"

text \<open>A system that runs thread 2 while thread 3 waits for a semaphore.\<close>

definition sample_system :: system where
  "sample_system = \<lparr>sys_kernel = sample_kernel, sys_waiting = (\<lambda>_. None)(3 := Some C_sem_take), sys_resuming = (\<lambda>_. None)\<rparr>"

section \<open>Calls on IPC objects\<close>

lemma returns_Some [simp]: "returns x = Some (r, k) \<longleftrightarrow> (\<exists>i. r = Return i \<and> x = Some (i, k))"
  by (cases x) (auto simp: returns_def)

lemma drops_Some [simp]: "drops x = Some (r, k) \<longleftrightarrow> (\<exists>v. x = Some (r, v, k))"
  by (cases x) (auto simp: drops_def)

lemma done_with_Some [simp]: "done_with x = Some (r, k) \<longleftrightarrow> r = Return RT_EOK \<and> x = Some k"
  by (cases x) (auto simp: done_with_def)

text \<open>A send that does not wait never looks at the calling thread.\<close>

lemma mb_send_cases:
  assumes "rt_mb_send_wait m v time k = Some (r, k')"
  shows "k' = k \<or> (\<exists>th. (time = 0 \<longrightarrow> th = None) \<and> (\<forall>t. th = Some t \<longrightarrow> current_thread k = Some t)
     \<and> mb_send_loop th m v time k = Some (r, k'))"
proof (cases "mb_entry (k_mb k m) = mb_size (k_mb k m) \<and> time = 0")
  case False
  then have l: "mb_send_loop (current_thread k) m v time k = Some (r, k')"
    using assms by (auto simp: rt_mb_send_wait_def rt_thread_self_def bind_Some_iff)
  show ?thesis
  proof (cases "time = 0")
    case True
    with False l have "mb_send_loop None m v time k = Some (r, k')" by (simp add: mb_send_loop_def)
    then show ?thesis by auto
  qed (use l in blast)
qed (use assms in \<open>auto simp: rt_mb_send_wait_def bind_Some_iff\<close>)

lemma mq_send_cases:
  assumes "rt_mq_send_wait q bs n time k = Some (r, k')"
  shows "k' = k \<or> (\<exists>th. (time = 0 \<longrightarrow> th = None) \<and> (\<forall>t. th = Some t \<longrightarrow> current_thread k = Some t)
     \<and> mq_send_loop th q bs n time k = Some (r, k'))"
proof (cases "n > mq_msg_size (k_mq k q) \<or> mq_free (k_mq k q) = None \<and> time = 0")
  case False
  then have l: "mq_send_loop (current_thread k) q bs n time k = Some (r, k')"
    using assms by (auto simp: rt_mq_send_wait_def rt_thread_self_def bind_Some_iff split: if_splits)
  show ?thesis
  proof (cases "time = 0")
    case True
    with False l have "mq_send_loop None q bs n time k = Some (r, k')"
      by (cases "mq_free (k_mq k q)") (simp_all add: mq_send_loop_def)
    then show ?thesis by auto
  qed (use l in blast)
qed (use assms in \<open>auto simp: rt_mq_send_wait_def bind_Some_iff split: if_splits\<close>)

lemma mb_recv_cases:
  assumes "rt_mb_recv m time k = Some (r, v, k')"
  shows "k' = k \<or> mb_recv_loop (current_thread k) m time k = Some (r, v, k')"
  using assms by (auto simp: rt_mb_recv_def rt_thread_self_def bind_Some_iff split: if_splits)

lemma mq_recv_cases:
  assumes "rt_mq_recv q n time k = Some (r, v, k')"
  shows "k' = k \<or> mq_recv_loop (current_thread k) q n time k = Some (r, v, k')"
  using assms by (auto simp: rt_mq_recv_def rt_thread_self_def bind_Some_iff split: if_splits)

lemma running_readyD: "running_ready k \<Longrightarrow> current_thread k = Some t \<Longrightarrow> thread_state k t = RT_THREAD_READY"
  by (simp add: running_ready_def)

context kernel_invariant
begin

lemma mb_send_wait_inv:
  assumes I: "I k" and w: "time = 0 \<or> running_ready k" and snd: "rt_mb_send_wait m v time k = Some (r, k')"
  shows "I k'" "resched I k k'"
proof -
  have st: "thread_state k t = RT_THREAD_READY" if "time = 0 \<longrightarrow> th = None" "\<forall>t. th = Some t \<longrightarrow> current_thread k = Some t" "th = Some t"
    for th t using that w running_readyD by auto
  have "I k' \<and> resched I k k'" using mb_send_cases [OF snd]
  proof (elim disjE exE conjE)
    fix th assume th: "time = 0 \<longrightarrow> th = None" "\<forall>t. th = Some t \<longrightarrow> current_thread k = Some t"
    show "mb_send_loop th m v time k = Some (r, k') \<Longrightarrow> I k' \<and> resched I k k'"
      by (intro conjI mb_send_resched [OF I st [OF th]] mb_send_loop_inv [OF I st [OF th]])
  qed (simp add: I resched_kept)
  then show "I k'" "resched I k k'" by simp_all
qed

lemma mq_send_wait_inv:
  assumes I: "I k" and w: "time = 0 \<or> running_ready k" and snd: "rt_mq_send_wait q bs n time k = Some (r, k')"
  shows "I k'" "resched I k k'"
proof -
  have st: "thread_state k t = RT_THREAD_READY" if "time = 0 \<longrightarrow> th = None" "\<forall>t. th = Some t \<longrightarrow> current_thread k = Some t" "th = Some t"
    for th t using that w running_readyD by auto
  have "I k' \<and> resched I k k'" using mq_send_cases [OF snd]
  proof (elim disjE exE conjE)
    fix th assume th: "time = 0 \<longrightarrow> th = None" "\<forall>t. th = Some t \<longrightarrow> current_thread k = Some t"
    show "mq_send_loop th q bs n time k = Some (r, k') \<Longrightarrow> I k' \<and> resched I k k'"
      by (intro conjI mq_send_resched [OF I st [OF th]] mq_send_loop_inv [OF I st [OF th]])
  qed (simp add: I resched_kept)
  then show "I k'" "resched I k k'" by simp_all
qed

lemma recv_inv:
  assumes I: "I k" and run: "running_ready k"
  shows "rt_mb_recv m time k = Some (r, v, k') \<Longrightarrow> I k' \<and> resched I k k'"
    "rt_mq_recv q n time k = Some (r, bs, k') \<Longrightarrow> I k' \<and> resched I k k'"
proof -
  have st: "current_thread k = Some t \<Longrightarrow> thread_state k t = RT_THREAD_READY" for t using running_readyD [OF run] .
  show "rt_mb_recv m time k = Some (r, v, k') \<Longrightarrow> I k' \<and> resched I k k'"
    by (drule mb_recv_cases, elim disjE)
      (simp add: I resched_kept, blast intro: mb_recv_loop_inv [OF I st] mb_recv_resched [OF I st])
  show "rt_mq_recv q n time k = Some (r, bs, k') \<Longrightarrow> I k' \<and> resched I k k'"
    by (drule mq_recv_cases, elim disjE)
      (simp add: I resched_kept, blast intro: mq_recv_loop_inv [OF I st] mq_recv_resched [OF I st])
qed

lemma resume_ready: "I k \<Longrightarrow> rt_thread_resume t k = Some (r, k') \<Longrightarrow> ready_kept k k'"
  unfolding ready_kept_def using resume_frame inv_sched by blast

theorem exec_ipc_inv:
  assumes I: "I k" and mp: "mutex_prio_ok k" and c: "ipc_call c" "call_ok c k" and w: "wait_ok c k"
    and ex: "exec c k = Some (r, k')"
  shows "I k'" "settled I k k'"
proof -
  have "I k' \<and> settled I k k'"
  proof (cases c)
    case (Sys_change_priority t p)
    then show ?thesis using c ex inv_priority [OF I] priority_ready [OF I] by (auto simp: settled_def)
  next
    case (Sys_resume t)
    then show ?thesis using ex inv_resume [OF I] resume_ready [OF I] by (auto simp: settled_def)
  qed (use c w ex in \<open>auto simp: wait_ok_def
      intro: sem_take_inv [OF I] sem_release_inv [OF I] sem_control_inv [OF I] mutex_take_inv [OF I mp]
        mutex_release_inv [OF I mp] event_send_inv [OF I] event_recv_inv [OF I] event_control_inv [OF I]
        mb_control_inv [OF I] mq_control_inv [OF I] mq_urgent_inv [OF I] mb_send_wait_inv(1) [OF I]
        mq_send_wait_inv(1) [OF I] inv_resume [OF I] conjunct1 [OF recv_inv(1) [OF I]] conjunct1 [OF recv_inv(2) [OF I]]
        resched_settled [OF sem_take_resched [OF I]] resched_settled [OF sem_release_resched [OF I]]
        resched_settled [OF control_resched(1) [OF I]] resched_settled [OF control_resched(2) [OF I]]
        resched_settled [OF control_resched(3) [OF I]] resched_settled [OF control_resched(4) [OF I]]
        resched_settled [OF mutex_take_resched [OF I]] mutex_release_settled [OF I mp] event_send_settled [OF I]
        resched_settled [OF event_recv_resched [OF I]] resched_settled [OF mq_urgent_resched [OF I]]
        resched_settled [OF mb_send_wait_inv(2) [OF I]] resched_settled [OF mq_send_wait_inv(2) [OF I]]
        resched_settled [OF conjunct2 [OF recv_inv(1) [OF I]]] resched_settled [OF conjunct2 [OF recv_inv(2) [OF I]]]\<close>)
  then show "I k'" "settled I k k'" by blast+
qed

lemma exec_ipc_resched:
  assumes I: "I k" and c: "ipc_call c" "preempting_call c" and w: "wait_ok c k" and ex: "exec c k = Some (r, k')"
  shows "resched I k k'"
  using c w ex
  by (cases c) (auto simp: wait_ok_def
      intro: sem_take_resched [OF I] sem_release_resched [OF I] control_resched(1) [OF I] control_resched(2) [OF I]
        control_resched(3) [OF I] control_resched(4) [OF I] mutex_take_resched [OF I] event_recv_resched [OF I]
        mq_urgent_resched [OF I] mb_send_wait_inv(2) [OF I] mq_send_wait_inv(2) [OF I]
        conjunct2 [OF recv_inv(1) [OF I]] conjunct2 [OF recv_inv(2) [OF I]])

end

section \<open>The scheduler lock and the running thread\<close>

lemma orderly_refl [simp]: "orderly k k"
  by (simp add: orderly_def)

lemma orderly_trans: "orderly a b \<Longrightarrow> orderly b c \<Longrightarrow> orderly a c"
  by (simp add: orderly_def)

lemma sched_kept_orderly: "sched_kept k k' \<Longrightarrow> orderly k k'"
proof -
  assume kept: "sched_kept k k'"
  then have "ready_kept k k'" by (rule sched_kept_ready)
  then show ?thesis using kept by (simp add: orderly_def ready_kept_def sched_kept_def running_ready_def)
qed

lemma ready_kept_orderly: "ready_kept k k' \<Longrightarrow> scheduler_lock_nest k' = scheduler_lock_nest k \<Longrightarrow> orderly k k'"
  by (simp add: orderly_def ready_kept_def running_ready_def)

lemma schedule_orderly:
  assumes wf: "sched_wf k1" and lock: "scheduler_lock_nest k1 = scheduler_lock_nest k"
    and cur: "current_thread k1 = current_thread k" and sch: "rt_schedule k1 = Some k'"
  shows "orderly k k'"
proof (cases "scheduler_lock_nest k1 = 0")
  case True
  have "scheduler_lock_nest k' = 0" using rt_schedule_form [OF sch] True by auto
  then show ?thesis
    using True lock cur rt_schedule_current [OF sch] runs_highest_running [OF rt_schedule_runs_highest [OF wf True sch]]
    by (simp add: orderly_def)
next
  case False
  then have "k' = k1" using sch by (simp add: rt_schedule_def)
  then show ?thesis using False lock cur by (simp add: orderly_def)
qed

lemma exec_ipc_orderly:
  assumes I: "kernel_inv d k" and c: "ipc_call c" "call_ok c k" and w: "wait_ok c k" and ex: "exec c k = Some (r, k')"
  shows "orderly k k'"
proof -
  note wf = kernel_invD(1) [OF I] and mp = kernel_invD(3) [OF I]
  have L: "sched_wf k' \<and> scheduler_lock_nest k' = scheduler_lock_nest k
      \<and> (scheduler_lock_nest k \<noteq> 0 \<longrightarrow> current_thread k' = current_thread k)
      \<and> (current_thread k \<noteq> None \<longrightarrow> current_thread k' \<noteq> None)"
    by (rule lock.exec_ipc_inv(1) [OF _ mp c w ex]) (simp add: wf)
  have "running_ready k'" if "scheduler_lock_nest k = 0" "running_ready k"
    using free.exec_ipc_inv(2) [OF _ mp c w ex] settled_running that wf by (simp add: unlocked_def)
  then show ?thesis using L by (simp add: orderly_def)
qed

lemma isr_call_ok: "isr_call c \<Longrightarrow> call_ok c k" "isr_call c \<Longrightarrow> wait_ok c k" "isr_call c \<Longrightarrow> \<not> critical_call c"
  by (cases c; simp add: wait_ok_def)+

text \<open>The calls on threads.\<close>

lemma yield_orderly:
  assumes wf: "sched_wf k" and y: "rt_thread_yield k = Some k'"
  shows "orderly k k'"
proof (cases rule: rt_thread_yield_cases [OF wf y])
  case (2 t k1)
  then show ?thesis
    by (intro schedule_orderly [OF 2(4) _ _ 2(5)]) (simp_all add: tlist_insert_before_def tlist_remove_def)
qed simp

lemma suspend_orderly:
  assumes I: "kernel_inv d k" and t: "current_thread k \<noteq> Some t" and sus: "rt_thread_suspend t k = Some (r, k')"
  shows "orderly k k'"
proof -
  note S = suspend_inv [OF I sus]
  have "running_ready k \<Longrightarrow> running_ready k'"
    using S(3,4) t by (cases "current_thread k") (auto simp: running_ready_def)
  then show ?thesis using S(2,3) by (simp add: orderly_def)
qed

lemma arm_orderly:
  assumes I: "kernel_inv 0 k" and run: "running_ready k" and cur: "current_thread k = Some t"
    and ty: "rt_object_get_type k (K_thread t) = RT_Object_Class_Thread" and arm: "thread_arm t n k = Some k1"
    and sch: "rt_schedule k1 = Some k'"
  shows "orderly k k'"
proof -
  note A = thread_arm_inv [OF _ I running_readyD [OF run cur] ty arm]
  show ?thesis using A kernel_invD(1) [of 0 k1] by (intro schedule_orderly [OF _ _ _ sch]) simp_all
qed

lemma sleep_orderly:
  assumes I: "kernel_inv 0 k" and run: "running_ready k"
  shows "rt_thread_sleep n k = Some (r, k') \<Longrightarrow> orderly k k'"
    "rt_thread_delay_until tick inc k = Some (r, v, k') \<Longrightarrow> orderly k k'"
  by (auto simp: rt_thread_sleep_def rt_thread_delay_until_def rt_thread_self_def bind_Some_iff Let_def split: if_splits
      intro: arm_orderly [OF I run])

lemma resume_orderly: "sched_wf k \<Longrightarrow> rt_thread_resume t k = Some (r, k') \<Longrightarrow> orderly k k'"
  using resume_frame [of k t r k'] by (intro ready_kept_orderly) (auto simp: ready_kept_def thread_frame_def)

lemma startup_orderly:
  assumes I: "kernel_inv d k" and ip: "th_init_priority (k_thr k t) < 32" and su: "rt_thread_startup t k = Some k'"
  shows "orderly k k'"
proof -
  let ?f = "\<lambda>th. th\<lparr>th_current_priority := th_init_priority th,
      th_number_mask := push_bit (th_init_priority th) 1, th_stat := RT_THREAD_SUSPEND\<rparr>"
  obtain r k2 where st: "thread_state k t = RT_THREAD_INIT" and res: "rt_thread_resume t (thr_upd t ?f k) = Some (r, k2)"
      and k': "if current_thread k2 \<noteq> None then rt_schedule k2 = Some k' else k' = k2"
    using su by (auto simp: rt_thread_startup_def startup_prepare_def rt_thread_self_def bind_Some_iff Let_def split: if_splits)
  note W = startup_prepare_wf [OF kernel_invD(1) [OF I] ip st]
  note R = rt_thread_resume_wf [OF W res] resume_frame(2) [OF W(1) res]
  have "current_thread k2 = current_thread k" "scheduler_lock_nest k2 = scheduler_lock_nest k"
    using R by (simp_all add: thread_frame_def)
  then show ?thesis
    using k' schedule_orderly [OF R(2) _ _ , of k k'] by (auto split: if_splits simp: orderly_def running_ready_def)
qed

lemma timeout_orderly:
  assumes wf: "sched_wf k" and to: "rt_thread_timeout t k = Some k'"
  shows "orderly k k'"
proof -
  let ?k1 = "thr_upd t (\<lambda>th. th\<lparr>th_error := - RT_ETIMEOUT\<rparr>) k"
  obtain k2 where st: "thread_state k t = RT_THREAD_SUSPEND"
      and ins: "rt_schedule_insert_thread t (tlist_remove t ?k1) = Some k2" and sch: "rt_schedule k2 = Some k'"
    using to by (auto simp: rt_thread_timeout_def bind_Some_iff Let_def)
  have same: "sched_same k ?k1" by (rule thr_upd_same) simp_all
  have wf1: "sched_wf ?k1" using sched_wf_cong [OF same] wf by (simp add: sched_wf_def)
  have st1: "thread_state ?k1 t = RT_THREAD_SUSPEND" using thread_state_same [OF same] st by simp
  note W = thread_wake_wf [OF wf1 st1 ins]
  have "current_thread k2 = current_thread k" "scheduler_lock_nest k2 = scheduler_lock_nest k"
    using ins by (auto simp: rt_schedule_insert_thread_def Let_def bind_Some_iff tlist_insert_before_def tlist_remove_def thr_upd_def)
  then show ?thesis by (intro schedule_orderly [OF W(1) _ _ sch])
qed

lemma suspend_self_inv:
  assumes I: "kernel_inv 0 k" and ex: "exec Sys_suspend_self k = Some (r, k')"
  shows "kernel_inv 0 k'" "orderly k k'" "scheduler_lock_nest k = 0 \<Longrightarrow> runs_highest k'"
proof -
  obtain t r1 k1 where k1: "rt_thread_suspend t k = Some (r1, k1)" and sch: "rt_schedule k1 = Some k'"
    using ex by (auto simp: bind_Some_iff)
  note S = suspend_inv [OF I k1]
  show "kernel_inv 0 k'" by (rule schedule_inv [OF _ S(1) sch]) simp
  show "orderly k k'" by (rule schedule_orderly [OF kernel_invD(1) [OF S(1)] S(2,3) sch])
  show "runs_highest k'" if "scheduler_lock_nest k = 0"
    using rt_schedule_runs_highest [OF kernel_invD(1) [OF S(1)] _ sch] S(2) that by simp
qed

text \<open>The two sections of \<^verbatim>\<open>rt_thread_resume\<close> one at a time.\<close>

lemma resume_unlink_keeps:
  assumes I: "kernel_inv d k" and st: "thread_state k u = RT_THREAD_SUSPEND" and un: "resume_unlink u k = Some k'"
  shows "kernel_inv d k'" "orderly k k'"
proof -
  obtain r where stop: "rt_timer_stop (K_thread_timer u) (tlist_remove u k) = Some (r, k')"
    using un by (auto simp: resume_unlink_def bind_Some_iff Let_def)
  have wf: "sched_wf_except {} k" using kernel_invD(1) [OF I] by (simp add: sched_wf_def)
  have s1: "thread_state (tlist_remove u k) = thread_state k" by (rule ext) (simp add: thread_state_def)
  have "sched_wf (tlist_remove u k)"
    unfolding sched_wf_def
    by (rule unlinked_wf [OF tlist_remove_wf [OF wf]]) (use st s1 sched_wf_prio_ok [OF wf, of u] in simp_all)
  moreover have "timers_wf d (tlist_remove u k)"
    by (rule timers_wf_cong [OF kernel_invD(2) [OF I]]) (simp_all add: thread_state_def timer_active_def timer_periodic_def)
  ultimately have I1: "kernel_inv d (tlist_remove u k)" using I by (simp add: kernel_inv_def mutex_prio_ok_def)
  show "kernel_inv d k'" by (rule timer_stop_inv(1) [OF I1 stop])
  have "orderly k (tlist_remove u k)" by (rule ready_kept_orderly) (simp_all add: ready_kept_def s1)
  then show "orderly k k'" using sched_kept_orderly [OF timer_stop_inv(2) [OF I1 stop]] orderly_trans by blast
qed

lemma startup_prepare_keeps:
  assumes I: "kernel_inv d k" and ip: "th_init_priority (k_thr k u) < 32" and st: "thread_state k u = RT_THREAD_INIT"
  shows "kernel_inv d (startup_prepare u k)" "orderly k (startup_prepare u k)" "thread_state (startup_prepare u k) u = RT_THREAD_SUSPEND"
proof -
  note W = startup_prepare_wf [OF kernel_invD(1) [OF I] ip st, folded startup_prepare_def]
  have "timers_wf d (startup_prepare u k)"
    by (rule timers_wf_cong [OF kernel_invD(2) [OF I]]) (auto simp: startup_prepare_def thread_state_def)
  then show "kernel_inv d (startup_prepare u k)" using W(1) I by (simp add: kernel_inv_def mutex_prio_ok_def startup_prepare_def)
  have "thread_state (startup_prepare u k) s = RT_THREAD_READY" if "thread_state k s = RT_THREAD_READY" for s
    using that st by (cases "s = u") (simp_all add: startup_prepare_def thread_state_def)
  then show "orderly k (startup_prepare u k)" by (intro ready_kept_orderly) (simp_all add: ready_kept_def startup_prepare_def)
  show "thread_state (startup_prepare u k) u = RT_THREAD_SUSPEND" by (rule W(2))
qed

lemma resume_finish_keeps:
  assumes I: "kernel_inv 0 k" and p: "resume_parted u k" and fin: "resume_finish u sched k = Some k'"
  shows "kernel_inv 0 k'" "orderly k k'"
proof -
  obtain k1 where k1: "rt_schedule_insert_thread u k = Some k1" and k': "k' = k1 \<or> rt_schedule k1 = Some k'"
    using fin by (auto simp: resume_finish_def bind_Some_iff split: if_splits)
  have res: "rt_thread_resume u k = Some (RT_EOK, k1)" using p k1 by (simp add: rt_thread_resume_def resume_parted_def)
  have I1: "kernel_inv 0 k1" by (rule kern.inv_resume [OF I res])
  then show "kernel_inv 0 k'" using k' schedule_inv [OF _ I1] by auto
  have o: "orderly k k1" by (rule resume_orderly [OF kernel_invD(1) [OF I] res])
  have "orderly k1 k'" if "rt_schedule k1 = Some k'" by (rule schedule_orderly [OF kernel_invD(1) [OF I1] refl refl that])
  then show "orderly k k'" using o k' orderly_trans by blast
qed

text \<open>A thread that has not waited since the first section is still parted.\<close>

lemma resume_unlink_parted:
  assumes "rt_object_get_type k (K_thread u) = RT_Object_Class_Thread" "thread_state k u = RT_THREAD_SUSPEND" "resume_unlink u k = Some k'"
  shows "resume_parted u k'"
proof -
  obtain r where stop: "rt_timer_stop (K_thread_timer u) (tlist_remove u k) = Some (r, k')"
    using assms(3) by (auto simp: resume_unlink_def bind_Some_iff Let_def)
  have "(f AND NOT 1) AND 1 = (0 :: u8)" for f by (rule bit_word_eqI) (auto simp: bit_simps)
  then have flag_off: "(f AND - 2) AND 1 = (0 :: u8)" for f by simp
  have L: "tlist_remove u k' = k'" and off: "rt_timer_stop (K_thread_timer u) k' = Some (- RT_ERROR, k')"
    and ty: "rt_object_get_type k' (K_thread u) = rt_object_get_type k (K_thread u)" and thr: "k_thr k' = k_thr k"
    using stop flag_off by (auto simp: rt_timer_stop_def tlist_remove_def rt_timer_remove_def timer_flag_clear_def timer_active_def
        rt_object_get_type_def split: if_splits)
  then show ?thesis using assms(1,2) by (simp add: resume_parted_def resume_unlink_def thread_state_def)
qed

text \<open>An interrupt handler that resumes the same thread between the two sections makes the second one link a thread that is linked: the
  ready queue then holds it twice.\<close>

lemma rt_thread_resume_race:
  assumes I: "kernel_inv 0 k" and st: "thread_state k u = RT_THREAD_SUSPEND" and un: "resume_unlink u k = Some k1"
    and isr: "rt_thread_resume u k1 = Some (RT_EOK, k2)" and ins: "rt_schedule_insert_thread u k2 = Some k3"
  shows "\<not> resume_parted u k2" "\<not> sched_wf k3"
proof -
  note U = resume_unlink_keeps [OF I st un]
  have "thread_state k1 u = RT_THREAD_SUSPEND" using isr by (auto simp: rt_thread_resume_def bind_Some_iff split: if_splits)
  note R = rt_thread_resume_wf [OF kernel_invD(1) [OF U(1)] this isr]
  show "\<not> resume_parted u k2" using R(3) by (simp add: resume_parted_def)
  let ?h = "Ready (th_current_priority (k_thr k2 u))"
  have "u \<in> set (k_list k2 ?h)" using sched_wf_ready [of "{}" k2 u] R(2,3) by (simp add: sched_wf_def)
  then have "\<not> distinct (k_list k3 ?h)" by (simp add: rt_schedule_insert_thread_form [OF ins])
  then show "\<not> sched_wf k3" using sched_wf_distinct [of "{}" k3 ?h] by (auto simp: sched_wf_def)
qed

section \<open>Every call keeps the kernel invariant\<close>

lemma exec_inv:
  assumes d: "d \<le> 1" and I: "kernel_inv d k" and ok: "call_ok c k" and w: "wait_ok c k"
    and c: "\<not> critical_call c" "d = 0 \<or> isr_call c" and ex: "exec c k = Some (r, k')"
  shows "kernel_inv d k' \<and> orderly k k'"
proof (cases "ipc_call c")
  case True
  then show ?thesis
    using kernel_invariant.exec_ipc_inv(1) [OF kernel_inv_invariant [OF d] I kernel_invD(3) [OF I] True ok w ex]
      exec_ipc_orderly [OF I True ok w ex] by blast
next
  case False
  note wf = kernel_invD(1) [OF I]
  show ?thesis
  proof (cases c)
    case Sys_yield
    then show ?thesis using ex yield_inv(1) [OF d I] yield_orderly [OF wf] by simp
  next
    case (Sys_sleep n)
    then have "d = 0" "running_ready k" using c w by (simp_all add: wait_ok_def)
    then show ?thesis using ex Sys_sleep I sleep_inv(1) sleep_orderly(1) by simp
  next
    case (Sys_delay_until tick inc)
    then have "d = 0" "running_ready k" using c w by (simp_all add: wait_ok_def)
    then show ?thesis using ex Sys_delay_until I delay_until_inv(1) [of k] sleep_orderly(2) [of k] by auto
  next
    case (Sys_startup t)
    then show ?thesis using ex ok startup_inv(1) [OF d I] startup_orderly [OF I] by simp
  next
    case (Sys_suspend t)
    then show ?thesis using ex ok suspend_inv(1) [OF I] suspend_orderly [OF I] by auto
  next
    case Sys_suspend_self
    then have "d = 0" "exec Sys_suspend_self k = Some (r, k')" using c ex by simp_all
    then show ?thesis using I suspend_self_inv(1,2) by blast
  next
    case (Sys_timer_start n)
    then show ?thesis using ex timer_start_inv [OF d I] sched_kept_orderly [OF timer_start_kept] by auto
  next
    case (Sys_timer_stop n)
    then show ?thesis using ex timer_stop_inv [OF I] sched_kept_orderly by auto
  qed (use False c in simp_all)
qed

lemma exec_all_inv:
  assumes "\<forall>c \<in> set cs. isr_call c" "kernel_inv 1 k" "exec_all cs k = Some k'"
  shows "kernel_inv 1 k' \<and> orderly k k'"
  using assms
proof (induction cs arbitrary: k)
  case (Cons c cs)
  obtain r k1 where k1: "exec c k = Some (r, k1)" and rest: "exec_all cs k1 = Some k'"
    using Cons.prems(3) by (auto simp: bind_Some_iff)
  have isr: "isr_call c" using Cons.prems(1) by simp
  have "kernel_inv 1 k1 \<and> orderly k k1"
    by (rule exec_inv [OF _ Cons.prems(2) isr_call_ok(1,2,3) [OF isr] _ k1]) (simp_all add: isr)
  then show ?case using Cons.IH [OF _ _ rest] Cons.prems(1) orderly_trans by auto
qed simp

lemma callback_inv:
  assumes "callback_calls uf" "kernel_inv 1 k" "uf (CB_timer n) k = Some k'"
  shows "kernel_inv 1 k' \<and> orderly k k'"
  using assms exec_all_inv unfolding callback_calls_def by meson

lemma callbacks_keep_inv: "callback_calls uf \<Longrightarrow> callbacks_keep uf (kernel_inv 1)"
  unfolding callbacks_keep_def using callback_inv by blast

section \<open>The tick interrupt\<close>

lemma timer_fire_orderly:
  assumes I: "kernel_inv 1 k" and p: "p \<in> set (timer_list k)" and uf: "callback_calls uf"
    and fire: "timer_fire uf p k = Some k'"
  shows "orderly k k'"
proof -
  define k1 where "k1 = rt_timer_remove p k"
  define k2 where "k2 = (if timer_periodic k1 p then k1 else timer_flag_clear RT_TIMER_FLAG_ACTIVATED p k1)"
  define k3 where "k3 = k2\<lparr>timer_check_list := p # timer_check_list k2\<rparr>"
  note S = fire_start [OF kernel_invD(1,2) [OF I], of p, folded k1_def, folded k2_def, folded k3_def]
  have m3: "k_mutex k3 = k_mutex k" and o3: "orderly k k3"
    by (auto simp: k3_def k2_def k1_def rt_timer_remove_def timer_flag_clear_def sched_kept_def sched_same_def
        intro!: sched_kept_orderly)
  have I3: "kernel_inv 1 k3" using S(1,2) mutex_prio_ok_cong [OF kernel_invD(3) [OF I] m3] by (simp add: kernel_inv_def)
  obtain k4 where k4: "run_timeout_func uf (tm_timeout_func (k_tmr k3 p)) k3 = Some k4"
    and rest: "k' = k4 \<or> k' = rt_timer_remove p k4
      \<or> rt_timer_start p (timer_flag_clear 1 p (rt_timer_remove p k4)) = Some k'"
    using fire
    unfolding timer_fire_def Let_def k1_def [symmetric] k2_def [symmetric] k3_def [symmetric]
    by (auto simp: bind_Some_iff split: if_splits)
  have o4: "orderly k3 k4"
    using k4 timeout_orderly [OF S(1)] callback_inv [OF uf I3]
    by (auto simp: run_timeout_func_def split: timeout_func.splits)
  have rem: "sched_kept k4 (rt_timer_remove p k4)" "sched_kept k4 (timer_flag_clear 1 p (rt_timer_remove p k4))"
    by (simp_all add: sched_kept_def sched_same_def timer_flag_clear_def rt_timer_remove_def)
  have "sched_kept k4 k'" using rest rem sched_kept_trans [OF rem(2) timer_start_kept] by auto
  then show ?thesis using o3 o4 orderly_trans sched_kept_orderly by blast
qed

lemma timer_check_loop_orderly:
  assumes loop: "timer_check_loop uf now k = Some k'"
  shows "callback_calls uf \<longrightarrow> kernel_inv 1 k \<longrightarrow> orderly k k'"
proof (rule timer_check_loop.raw_induct [where P = "\<lambda>uf now k y.
      callback_calls uf \<longrightarrow> kernel_inv 1 k \<longrightarrow> orderly k y", OF _ loop], goal_cases)
  case (1 f uf now k y)
  show ?case
  proof (intro impI)
    assume uf: "callback_calls uf" and I: "kernel_inv 1 k"
    show "orderly k y"
    proof (cases "\<exists>p ps. timer_list k = p # ps \<and> timer_due now k p")
      case True
      then obtain p ps k1 where p: "timer_list k = p # ps"
          and k1: "timer_fire uf p k = Some k1" and y: "f uf (rt_tick k1) k1 = Some y"
        using 1(2) by (auto simp: bind_Some_iff)
      have p': "p \<in> set (timer_list k)" by (simp add: p)
      have "kernel_inv 1 k1" by (rule timer_fire_inv [OF I p' callbacks_keep_inv [OF uf] k1])
      then show ?thesis using 1(1) [OF y] uf timer_fire_orderly [OF I p' uf k1] orderly_trans by blast
    next
      case False
      then have "y = k" using 1(2) by (auto split: list.splits if_splits)
      then show ?thesis by simp
    qed
  qed
qed

lemma slice_upd:
  assumes "kernel_inv 1 k"
  shows "kernel_inv 1 (thr_upd t (\<lambda>th. th\<lparr>th_remaining_tick := f th\<rparr>) k)"
    "sched_kept k (thr_upd t (\<lambda>th. th\<lparr>th_remaining_tick := f th\<rparr>) k)"
proof -
  have d: "data_only k (thr_upd t (\<lambda>th. th\<lparr>th_remaining_tick := f th\<rparr>) k)"
    by (simp add: data_only_def sched_same_def thr_upd_def)
  then show "kernel_inv 1 (thr_upd t (\<lambda>th. th\<lparr>th_remaining_tick := f th\<rparr>) k)"
    by (rule ticking.inv_data [OF assms]) simp
  show "sched_kept k (thr_upd t (\<lambda>th. th\<lparr>th_remaining_tick := f th\<rparr>) k)" by (rule data_only_kept [OF d])
qed

lemma tick_slice_kept:
  assumes I: "kernel_inv 0 k" and sl: "tick_slice k = Some k'"
  shows "kernel_inv 1 k' \<and> orderly k k'"
proof -
  let ?k1 = "k\<lparr>rt_tick := rt_tick k + 1\<rparr>"
  have same: "sched_kept k ?k1" by (simp add: sched_kept_def sched_same_def)
  then have "sched_wf ?k1" using kernel_invD(1) [OF I] by (simp add: sched_kept_def sched_wf_def sched_wf_cong)
  then have I1: "kernel_inv 1 ?k1"
    using tick_advance_timers [OF kernel_invD(2) [OF I]] kernel_invD(3) [OF I] by (simp add: kernel_inv_def mutex_prio_ok_def)
  obtain t k2 where k2: "k2 = thr_upd t (\<lambda>th. th\<lparr>th_remaining_tick := th_remaining_tick th - 1\<rparr>) ?k1"
      and k': "k' = k2 \<or> rt_thread_yield (thr_upd t (\<lambda>th. th\<lparr>th_remaining_tick := th_init_tick th\<rparr>) k2) = Some k'"
    using sl by (auto simp: tick_slice_def Let_def bind_Some_iff split: if_splits)
  let ?k3 = "thr_upd t (\<lambda>th. th\<lparr>th_remaining_tick := th_init_tick th\<rparr>) k2"
  have I2: "kernel_inv 1 k2" and o2: "orderly k k2"
    unfolding k2 by (rule slice_upd(1) [OF I1], rule sched_kept_orderly [OF sched_kept_trans [OF same slice_upd(2) [OF I1]]])
  note I3 = slice_upd(1) [OF I2] and o3 = orderly_trans [OF o2 sched_kept_orderly [OF slice_upd(2) [OF I2]]]
  show ?thesis using k'
  proof
    assume y: "rt_thread_yield ?k3 = Some k'"
    then show ?thesis
      using yield_inv(1) [OF _ I3 y] orderly_trans [OF o3 yield_orderly [OF kernel_invD(1) [OF I3] y]] by simp
  qed (use I2 o2 in simp)
qed

lemma tick_increase_inv:
  assumes I: "kernel_inv 0 k" and uf: "callback_calls uf" and tick: "rt_tick_increase uf k = Some k'"
  shows "kernel_inv 0 k' \<and> orderly k k'"
proof -
  obtain k1 where k1: "tick_slice k = Some k1" and chk: "rt_timer_check uf k1 = Some k'"
    using tick by (auto simp: rt_tick_increase_def bind_Some_iff)
  have S: "kernel_inv 1 k1" "orderly k k1" using tick_slice_kept [OF I k1] by simp_all
  let ?k2 = "k1\<lparr>timer_check_list := []\<rparr>"
  have d: "sched_kept k1 ?k2" by (simp add: sched_kept_def sched_same_def)
  have "timers_wf 1 ?k2"
    by (rule timers_wf_cong [OF kernel_invD(2) [OF S(1)]]) (simp_all add: thread_state_def timer_active_def timer_periodic_def)
  moreover have "sched_wf ?k2" using d kernel_invD(1) [OF S(1)] by (simp add: sched_kept_def sched_wf_def sched_wf_cong)
  ultimately have "kernel_inv 1 ?k2" using S(1) by (simp add: kernel_inv_def mutex_prio_ok_def)
  then have "orderly ?k2 k'" using timer_check_loop_orderly chk uf by (auto simp: rt_timer_check_def)
  then show ?thesis
    using rt_timer_check_inv(1) [OF callbacks_keep_inv [OF uf] S(1) chk] S(2) sched_kept_orderly [OF d] orderly_trans by blast
qed

section \<open>The system\<close>

lemma exec_Wait:
  assumes "exec c k = Some (Wait w, k')"
  shows "may_wait c \<and> \<not> isr_call c"
proof (cases c)
  case (Sys_mb_send m v time)
  have False if "time = 0" using that assms Sys_mb_send
    by (auto simp: rt_mb_send_wait_def mb_send_loop_def bind_Some_iff Let_def split: if_splits)
  then show ?thesis using Sys_mb_send by auto
next
  case (Sys_mq_send q bs n time)
  have False if "time = 0" using that assms Sys_mq_send
    by (auto simp: rt_mq_send_wait_def mq_send_loop_def bind_Some_iff Let_def case_prod_beta split: if_splits option.splits)
  then show ?thesis using Sys_mq_send by auto
qed (use assms in auto)

context kernel_invariant
begin

lemma clear_timeout_inv: "I k \<Longrightarrow> I (thread_clear_timeout t k) \<and> resched I k (thread_clear_timeout t k)"
  by (auto simp: thread_clear_timeout_def intro: resched_kept inv_data)

lemma resume_call_inv:
  assumes I: "I k" and st: "thread_state k t = RT_THREAD_READY" and res: "resume_call t w k = Some (r, k')"
  shows "I k' \<and> resched I k k'"
proof -
  have st': "\<And>u. Some t = Some u \<Longrightarrow> thread_state k u = RT_THREAD_READY" using st by simp
  have id: "I k \<and> resched I k k" using I by (simp add: resched_kept)
  show ?thesis
  proof (cases w)
    case (C_mb_send m v timeout start)
    then show ?thesis
      using res id mb_send_loop_inv [where th = "Some t", OF I st'] mb_send_resched [where th = "Some t", OF I st']
      by (auto simp: rt_mb_send_cont_def split: if_splits)
  next
    case (C_mb_recv m timeout start)
    then show ?thesis
      using res id mb_recv_loop_inv [where th = "Some t", OF I st'] mb_recv_resched [where th = "Some t", OF I st']
      by (auto simp: rt_mb_recv_cont_def split: if_splits)
  next
    case (C_mq_send q bs n timeout start)
    then show ?thesis
      using res id mq_send_loop_inv [where th = "Some t", OF I st'] mq_send_resched [where th = "Some t", OF I st']
      by (auto simp: rt_mq_send_cont_def split: if_splits)
  next
    case (C_mq_recv q n timeout start)
    then show ?thesis
      using res id mq_recv_loop_inv [where th = "Some t", OF I st'] mq_recv_resched [where th = "Some t", OF I st']
      by (auto simp: rt_mq_recv_cont_def split: if_splits)
  qed (use res id clear_timeout_inv [OF I] in \<open>auto simp: rt_thread_sleep_cont_def rt_thread_delay_until_cont_def\<close>)
qed

end

lemma resume_call_orderly:
  assumes I: "kernel_inv 0 k" and run: "running_ready k" and cur: "current_thread k = Some t"
    and lock: "scheduler_lock_nest k = 0" and res: "resume_call t w k = Some (r, k')"
  shows "kernel_inv 0 k' \<and> orderly k k'"
proof -
  note wf = kernel_invD(1) [OF I] and st = running_readyD [OF run cur]
  have L: "sched_wf k' \<and> scheduler_lock_nest k' = scheduler_lock_nest k
      \<and> (scheduler_lock_nest k \<noteq> 0 \<longrightarrow> current_thread k' = current_thread k)
      \<and> (current_thread k \<noteq> None \<longrightarrow> current_thread k' \<noteq> None)"
    by (rule conjunct1 [OF lock.resume_call_inv [OF _ st res]]) (simp add: wf)
  have "running_ready k'"
    using free.resume_call_inv [OF _ st res] wf lock
    by (intro settled_running [OF resched_settled run]) (simp add: unlocked_def)
  then show ?thesis using L kern.resume_call_inv [OF I st res] by (simp add: orderly_def)
qed

lemma system_ok_next:
  assumes ok: "system_ok s" and I: "kernel_inv 0 k'" and o: "orderly (sys_kernel s) k'"
    and cur: "current_thread (sys_kernel s) = Some t"
    and w: "\<And>c. r = Wait c \<Longrightarrow> scheduler_lock_nest (sys_kernel s) = 0"
  shows "system_ok (next_system s t r k')"
  using assms by (cases r) (auto simp: system_ok_def next_system_def orderly_def)

lemma system_ok_interrupt:
  assumes ok: "system_ok s" and I: "kernel_inv 0 k'" and o: "orderly (sys_kernel s) k'"
  shows "system_ok (s\<lparr>sys_kernel := k'\<rparr>)"
  using assms by (auto simp: system_ok_def orderly_def)

lemma system_ok_resuming [simp]: "system_ok (s\<lparr>sys_resuming := x\<rparr>) = system_ok s"
  by (simp add: system_ok_def)

lemma system_ok_part:
  assumes "system_ok s" and "kernel_inv 0 k'" and "orderly (sys_kernel s) k'"
  shows "system_ok (s\<lparr>sys_kernel := k', sys_resuming := x\<rparr>)"
  using system_ok_interrupt [OF assms] by (simp add: system_ok_def)

lemma nest_kept:
  assumes "kernel_inv d k"
  shows "kernel_inv d (k\<lparr>interrupt_nest := n\<rparr>)" "sched_kept k (k\<lparr>interrupt_nest := n\<rparr>)"
proof -
  show kept: "sched_kept k (k\<lparr>interrupt_nest := n\<rparr>)" by (simp add: sched_kept_def sched_same_def)
  have "timers_wf d (k\<lparr>interrupt_nest := n\<rparr>)"
    by (rule timers_wf_cong [OF kernel_invD(2) [OF assms]]) (simp_all add: thread_state_def timer_active_def timer_periodic_def)
  moreover have "sched_wf (k\<lparr>interrupt_nest := n\<rparr>)"
    using kept kernel_invD(1) [OF assms] by (simp add: sched_kept_def sched_wf_def sched_wf_cong)
  ultimately show "kernel_inv d (k\<lparr>interrupt_nest := n\<rparr>)" using assms by (simp add: kernel_inv_def mutex_prio_ok_def)
qed

text \<open>A handler between \<^verbatim>\<open>rt_interrupt_enter\<close> and \<^verbatim>\<open>rt_interrupt_leave\<close>.\<close>

lemma handler_ok:
  assumes ok: "system_ok s"
    and body: "\<And>k. kernel_inv 0 k \<Longrightarrow> k = rt_interrupt_enter (sys_kernel s) \<Longrightarrow> kernel_inv 0 k' \<and> orderly k k'"
  shows "system_ok (s\<lparr>sys_kernel := rt_interrupt_leave k'\<rparr>)"
proof -
  have I: "kernel_inv 0 (sys_kernel s)" using ok by (simp add: system_ok_def)
  note E = nest_kept [OF I, of "(interrupt_nest (sys_kernel s) + 1) mod 256", folded rt_interrupt_enter_def]
  have B: "kernel_inv 0 k'" "orderly (rt_interrupt_enter (sys_kernel s)) k'" using body [OF E(1)] by simp_all
  note L = nest_kept [OF B(1), of "(interrupt_nest k' + 255) mod 256", folded rt_interrupt_leave_def]
  show ?thesis
    using system_ok_interrupt [OF ok L(1)] orderly_trans [OF sched_kept_orderly [OF E(2)]
        orderly_trans [OF B(2) sched_kept_orderly [OF L(2)]]] by blast
qed

lemma critical_ok:
  assumes ok: "system_ok s" and cur: "current_thread (sys_kernel s) = Some t" and wait: "sys_waiting s t = None"
    and c: "critical_call c" "call_ok c (sys_kernel s)" and ex: "exec c (sys_kernel s) = Some (r, k')"
  shows "system_ok (next_system s t r k')"
proof (cases c)
  case Sys_enter_critical
  have "wrap_s16 (scheduler_lock_nest (sys_kernel s) + 1) = scheduler_lock_nest (sys_kernel s) + 1"
    using c(2) ok Sys_enter_critical by (simp add: system_ok_def wrap_s16_def)
  then show ?thesis
    using ex ok cur wait Sys_enter_critical kernel_inv_lock
    by (auto simp: system_ok_def next_system_def rt_enter_critical_def)
next
  case Sys_exit_critical
  then have ex': "rt_exit_critical (sys_kernel s) = Some k'" and r: "r = Return RT_EOK" using ex by simp_all
  have I: "kernel_inv 0 (sys_kernel s)" using ok by (simp add: system_ok_def)
  note E = exit_critical_inv [OF _ I ex']
  have "0 \<le> scheduler_lock_nest k' \<and> current_thread k' \<noteq> None"
    using ex' ok rt_schedule_form rt_schedule_current
    by (fastforce simp: rt_exit_critical_def Let_def system_ok_def wrap_s16_def split: if_splits)
  then show ?thesis
    using E cur r runs_highest_running
    by (cases "scheduler_lock_nest k' = 0") (auto simp: system_ok_def next_system_def)
qed (use c in simp_all)

lemma step_ok:
  assumes st: "step uf s s'" and uf: "callback_calls uf" and ok: "system_ok s"
  shows "system_ok s'"
proof -
  have I: "kernel_inv 0 (sys_kernel s)" using ok by (simp add: system_ok_def)
  show ?thesis using st
  proof (cases rule: step.cases)
    case (step_call t c r k')
    show ?thesis
    proof (cases "critical_call c")
      case True
      then show ?thesis using critical_ok [OF ok] step_call by blast
    next
      case False
      have lock: "scheduler_lock_nest (sys_kernel s) = 0" if "may_wait c" "\<not> isr_call c"
        using that step_call(4) by (cases c) simp_all
      then have w: "wait_ok c (sys_kernel s)" using ok by (auto simp: wait_ok_def system_ok_def)
      have "kernel_inv 0 k' \<and> orderly (sys_kernel s) k'" by (rule exec_inv [OF _ I step_call(4) w False _ step_call(5)]) simp_all
      moreover have "scheduler_lock_nest (sys_kernel s) = 0" if "r = Wait c'" for c'
        using exec_Wait [of c "sys_kernel s" c' k'] step_call(5) that lock by simp
      ultimately show ?thesis unfolding step_call(1) using system_ok_next [OF ok _ _ step_call(2)] by blast
    qed
  next
    case (step_resume_begin t u k')
    show ?thesis unfolding step_resume_begin(1)
      by (rule system_ok_part [OF ok resume_unlink_keeps [OF I step_resume_begin(6,7)]])
  next
    case (step_startup_begin t u k')
    have "th_init_priority (k_thr (sys_kernel s) u) < 32" using step_startup_begin(5) by simp
    note P = startup_prepare_keeps [OF I this step_startup_begin(6)]
    note U = resume_unlink_keeps [OF P(1,3) step_startup_begin(8)]
    show ?thesis unfolding step_startup_begin(1) by (rule system_ok_part [OF ok U(1) orderly_trans [OF P(2) U(2)]])
  next
    case (step_resume_end t u sched k')
    show ?thesis unfolding step_resume_end(1)
      by (rule system_ok_part [OF ok resume_finish_keeps [OF I step_resume_end(4,5)]])
  next
    case (step_resume t w r k')
    have lock: "scheduler_lock_nest (sys_kernel s) = 0" and run: "running_ready (sys_kernel s)"
      using ok step_resume(2,3) by (auto simp: system_ok_def)
    show ?thesis
      unfolding step_resume(1) using resume_call_orderly [OF I run step_resume(2) lock step_resume(4)] system_ok_next [OF ok _ _ step_resume(2)] lock by blast
  next
    case (step_interrupt c r k')
    have "kernel_inv 0 k' \<and> orderly k k'" if "kernel_inv 0 k" "k = rt_interrupt_enter (sys_kernel s)" for k
      by (rule exec_inv [OF _ that(1) isr_call_ok(1-3) [OF step_interrupt(2)] _ step_interrupt(3) [folded that(2)]]) simp_all
    then show ?thesis unfolding step_interrupt(1) by (rule handler_ok [OF ok])
  next
    case (step_tick k')
    have "kernel_inv 0 k' \<and> orderly k k'" if "kernel_inv 0 k" "k = rt_interrupt_enter (sys_kernel s)" for k
      by (rule tick_increase_inv [OF that(1) uf step_tick(2) [folded that(2)]])
    then show ?thesis unfolding step_tick(1) by (rule handler_ok [OF ok])
  qed
qed

lemma suspend_runs_highest:
  assumes I: "kernel_inv d k" and t: "current_thread k \<noteq> Some t" and rh: "runs_highest k"
    and sus: "rt_thread_suspend t k = Some (r, k')"
  shows "runs_highest k'"
proof (cases "thread_state k t = RT_THREAD_READY")
  case True
  note S = rt_thread_suspend_wf [OF kernel_invD(1) [OF I] True sus]
  have fr: "s \<noteq> t \<Longrightarrow> thread_state k' s = thread_state k s \<and> k_thr k' s = k_thr k s" for s
    using S(6) by (simp add: thread_frame_def thread_state_def)
  have "current_thread k' = current_thread k" "thread_state k' t \<noteq> RT_THREAD_READY"
    using suspend_inv(3,6) [OF I sus] True by simp_all
  then show ?thesis using rh t fr unfolding runs_highest_def by metis
qed (use rh sus in \<open>auto simp: rt_thread_suspend_def\<close>)

lemma reachable_ok:
  assumes "reachable uf s0 s" "callback_calls uf" "system_ok s0"
  shows "system_ok s"
  using assms by induction (auto intro: step_ok)

lemma sample_system_ok: "system_ok sample_system"
  using sample_kernel_inv runs_highest_running [OF sample_kernel_runs_highest]
  by (auto simp: system_ok_def sample_system_def)

lemma callbacks_nothing: "callback_calls (\<lambda>_. Some)"
  unfolding callback_calls_def by (metis exec_all.simps(1) empty_iff empty_set option.inject)

section \<open>Properties\<close>



text \<open>
  C3. Preemption. In a well-formed unlocked system in which the running thread is one of the highest priority,
  every kernel call of \<open>syscall\<close> but \<^verbatim>\<open>rt_mutex_release\<close>, \<^verbatim>\<open>rt_event_send\<close>, \<^verbatim>\<open>rt_thread_resume\<close> and a change of
  priority, made as the rules of \<open>call_ok\<close> allow (the running thread does not suspend itself without calling \<^verbatim>\<open>rt_schedule\<close> right after it,
  and a thread that is started has a priority in range) and executed without an interruption, leaves a state in which the running thread
  is again READY and no READY thread has a smaller priority number.
\<close>

theorem exec_runs_highest:
  assumes "kernel_inv 0 k" and "scheduler_lock_nest k = 0" and "runs_highest k"
    and "preempting_call c" and "call_ok c k" and "exec c k = Some (r, k')"
  shows "runs_highest k'"
proof -
  note I = assms(1) and rh = assms(3) and run = runs_highest_running [OF assms(3)] and ex = assms(6)
  have u: "unlocked k" using kernel_invD(1) [OF I] assms(2) by (simp add: unlocked_def)
  have w: "wait_ok c k" using run by (simp add: wait_ok_def)
  show ?thesis
  proof (cases "ipc_call c")
    case True
    show ?thesis by (rule resched_runs_highest [OF free.exec_ipc_resched [OF u True assms(4) w ex] rh])
  next
    case False
    note R = resched_runs_highest [OF _ rh]
    show ?thesis
    proof (cases c)
      case (Sys_delay_until tick inc)
      then obtain v where "rt_thread_delay_until tick inc k = Some (r, v, k')" using ex by auto
      then show ?thesis by (rule R [OF delay_until_inv(2) [OF I run _ u]])
    next
      case (Sys_startup t)
      have "current_thread k \<noteq> None" using rh by (auto simp: runs_highest_def)
      then show ?thesis using Sys_startup ex assms(5) R [OF startup_inv(3) [OF _ I _ _ u]] by simp
    next
      case (Sys_suspend t)
      then show ?thesis using ex assms(5) suspend_runs_highest [OF I _ rh] by auto
    next
      case Sys_suspend_self
      then have "exec Sys_suspend_self k = Some (r, k')" using ex by simp
      then show ?thesis using suspend_self_inv(3) [OF I] assms(2) by blast
    next
      case (Sys_timer_stop n)
      then show ?thesis using ex runs_highest_kept [OF rh timer_stop_inv(2) [OF I]] by auto
    next
      case Sys_enter_critical
      then show ?thesis using ex rh by (auto simp: rt_enter_critical_def runs_highest_def thread_state_def)
    next
      case Sys_exit_critical
      then have k': "rt_exit_critical k = Some k'" using ex by simp
      have "current_thread k \<noteq> None" using rh by (auto simp: runs_highest_def)
      moreover have "scheduler_lock_nest k' = 0"
        using k' assms(2) rt_schedule_form by (fastforce simp: rt_exit_critical_def Let_def wrap_s16_def split: if_splits)
      ultimately show ?thesis using exit_critical_inv(2) [OF _ I k'] by simp
    qed (use False ex R yield_inv(2) [OF _ I _ u] sleep_inv(2) [OF I run _ u] runs_highest_kept [OF rh timer_start_kept]
         in \<open>auto\<close>)
  qed
qed

theorem exec_runs_highest_witness:
  "\<exists>k1. exec (Sys_sleep 7) sample_kernel = Some (Wait C_sleep, k1) \<and> runs_highest k1"
proof -
  obtain k1 where k1: "rt_thread_sleep 7 sample_kernel = Some (Wait C_sleep, k1)"
    by (rule rt_thread_sleep_succeeds [of sample_kernel 2 7 1])
      (simp_all add: sample_kernel_sleeping sample_kernel_state sample_kernel_types)
  then have ex: "exec (Sys_sleep 7) sample_kernel = Some (Wait C_sleep, k1)" by simp
  have "runs_highest k1"
    by (rule exec_runs_highest [OF sample_kernel_inv _ sample_kernel_runs_highest _ _ ex]) simp_all
  then show ?thesis using ex by blast
qed

end
