(* ===== verification/Ipc_Spec.thy ===== *)
theory Ipc_Spec
  imports Waiting
begin

text \<open>
  What the operations of semaphores and mutexes promise, with total correctness on every branch:
  counting, hand-over to the first waiting thread, the order of the waiting queues, ownership,
  recursion and priority inheritance.
\<close>

section \<open>Definitions\<close>

text \<open>A thread that may block: it runs, READY, outside interrupts, and another thread is READY.\<close>

definition may_block :: "tid \<Rightarrow> kstate \<Rightarrow> bool" where
  "may_block t k \<longleftrightarrow> current_thread k = Some t \<and> thread_state k t = RT_THREAD_READY \<and> interrupt_nest k = 0
     \<and> (\<exists>s. s \<noteq> t \<and> thread_state k s = RT_THREAD_READY)"

text \<open>\<open>n\<close> calls of \<^verbatim>\<open>rt_mutex_take\<close> and of \<^verbatim>\<open>rt_mutex_release\<close> in a row, all returning \<^verbatim>\<open>RT_EOK\<close>.\<close>

fun mutex_takes :: "nat \<Rightarrow> nat \<Rightarrow> int \<Rightarrow> kstate \<Rightarrow> kstate option" where
  "mutex_takes 0 m time k = Some k"
| "mutex_takes (Suc n) m time k = do {
     (r, k1) \<leftarrow> rt_mutex_take m time k;
     rt_assert (r = Return RT_EOK);
     mutex_takes n m time k1
   }"

fun mutex_releases :: "nat \<Rightarrow> nat \<Rightarrow> kstate \<Rightarrow> kstate option" where
  "mutex_releases 0 m k = Some k"
| "mutex_releases (Suc n) m k = do {
     (r, k1) \<leftarrow> rt_mutex_release m k;
     rt_assert (r = RT_EOK);
     mutex_releases n m k1
   }"

text \<open>The mutex held \<open>h\<close> times by the running thread.\<close>

definition mutex_held :: "nat \<Rightarrow> tid \<Rightarrow> nat \<Rightarrow> kstate \<Rightarrow> kstate" where
  "mutex_held m t h k = mutex_upd m (\<lambda>_. \<lparr>mutex_value = 0, mutex_original_priority = th_current_priority (k_thr k t),
     mutex_hold = h, mutex_owner = Some t\<rparr>) (thread_set_error t RT_EOK k)"

definition mutex_free :: rt_mutex where
  "mutex_free = \<lparr>mutex_value = 1, mutex_original_priority = 0xff, mutex_hold = 0, mutex_owner = None\<rparr>"

text \<open>The sample system with thread 3 waiting for mutex 0, all mutexes held by thread \<open>t\<close>.\<close>

definition mutex_kernel :: "tid \<Rightarrow> nat \<Rightarrow> kstate" where
  "mutex_kernel t p = sample_kernel\<lparr>k_list := (\<lambda>_. [])(Ready 5 := [1], Ready 3 := [2], Mutex_q 0 := [3]),
     k_mutex := (\<lambda>_. \<lparr>mutex_value = 0, mutex_original_priority = p, mutex_hold = 1, mutex_owner = Some t\<rparr>)\<rparr>"

section \<open>Semaphores\<close>

lemma sem_value_frame: "thread_frame X k k' \<Longrightarrow> k_sem k' = k_sem k"
  by (simp add: thread_frame_def)

lemma may_block_error [simp]: "may_block t (thread_set_error u e k) = may_block t k"
proof -
  have "thread_state (thread_set_error u e k) = thread_state k" by (rule ext) simp
  moreover have "current_thread (thread_set_error u e k) = current_thread k"
    "interrupt_nest (thread_set_error u e k) = interrupt_nest k" by (simp_all add: thread_set_error_def)
  ultimately show ?thesis by (simp add: may_block_def)
qed

lemma block_succeeds:
  assumes "kernel_live k" and "may_block t k" and "waiting_queue h" and "flag = 0 \<or> flag = RT_IPC_FLAG_PRIO"
    and "time < 0x7fffffff"
  obtains k' where "ipc_wait h t flag time k = Some k'" "waits h t flag time k k'"
  using assms ipc_wait_succeeds [of k t h flag time] unfolding may_block_def by blast

section \<open>Mutexes\<close>

lemma mutex_held_simps:
  "k_mutex (mutex_held m t h k) m = \<lparr>mutex_value = 0, mutex_original_priority = th_current_priority (k_thr k t),
     mutex_hold = h, mutex_owner = Some t\<rparr>"
  "current_thread (mutex_held m t h k) = current_thread k" "interrupt_nest (mutex_held m t h k) = interrupt_nest k"
  "rt_object_get_type (mutex_held m t h k) p = rt_object_get_type k p" "k_list (mutex_held m t h k) = k_list k"
  "th_current_priority (k_thr (mutex_held m t h k) u) = th_current_priority (k_thr k u)"
  "thread_set_error t RT_EOK (mutex_held m t h k) = mutex_held m t h k"
  by (simp_all add: mutex_held_def mutex_upd_def thread_set_error_def thr_upd_def rt_object_get_type_def)

lemma mutex_take_again:
  assumes "current_thread k = Some t" "interrupt_nest k = 0" "rt_object_get_type k (K_mutex m) = RT_Object_Class_Mutex" "h < 255"
  shows "rt_mutex_take m time (mutex_held m t h k) = Some (Return RT_EOK, mutex_held m t (h + 1) k)"
  using assms
  by (simp add: rt_mutex_take_def in_thread_context_def rt_thread_self_def mutex_held_simps Let_def)
    (simp add: mutex_held_def mutex_upd_def)

lemma mutex_take_first:
  assumes "current_thread k = Some t" "interrupt_nest k = 0" "rt_object_get_type k (K_mutex m) = RT_Object_Class_Mutex"
    and "k_mutex k m = mutex_free"
  shows "rt_mutex_take m time k = Some (Return RT_EOK, mutex_held m t 1 k)"
  using assms
  by (simp add: rt_mutex_take_def in_thread_context_def rt_thread_self_def mutex_free_def Let_def
      mutex_held_def mutex_upd_def thread_set_error_def thr_upd_def)

lemma mutex_release_again:
  assumes "current_thread k = Some t" "interrupt_nest k = 0" "rt_object_get_type k (K_mutex m) = RT_Object_Class_Mutex"
    and "0 < h" "h < 255"
  shows "rt_mutex_release m (mutex_held m t (h + 1) k) = Some (RT_EOK, mutex_held m t h k)"
  using assms
  by (simp add: rt_mutex_release_def in_thread_context_def rt_thread_self_def mutex_held_simps Let_def)
    (simp add: mutex_held_def mutex_upd_def)

lemma mutex_release_last:
  assumes "current_thread k = Some t" "interrupt_nest k = 0" "rt_object_get_type k (K_mutex m) = RT_Object_Class_Mutex"
    and "k_mutex k m = mutex_free" "k_list k (Mutex_q m) = []"
  shows "rt_mutex_release m (mutex_held m t 1 k) = Some (RT_EOK, thread_set_error t RT_EOK k)"
proof -
  have "k_mutex (thread_set_error t RT_EOK k) = (k_mutex k)(m := mutex_free)"
    using assms(4) by (auto simp: thread_set_error_def)
  then have free: "mutex_upd m (\<lambda>x. x\<lparr>mutex_value := mutex_value x + 1, mutex_owner := None,
      mutex_original_priority := 0xff\<rparr>) (mutex_held m t 0 k) = thread_set_error t RT_EOK k"
    by (cases "thread_set_error t RT_EOK k") (simp add: mutex_held_def mutex_upd_def mutex_free_def)
  have "mutex_upd m (\<lambda>x. x\<lparr>mutex_hold := (mutex_hold x + 255) mod 256\<rparr>) (mutex_held m t 1 k) = mutex_held m t 0 k"
    by (simp add: mutex_held_def mutex_upd_def)
  then show ?thesis
    using assms free
    by (simp add: rt_mutex_release_def in_thread_context_def rt_thread_self_def mutex_held_simps Let_def mutex_hand_on_def)
qed

lemma mutex_takes_held:
  assumes "current_thread k = Some t" "interrupt_nest k = 0" "rt_object_get_type k (K_mutex m) = RT_Object_Class_Mutex"
  shows "h + n \<le> 255 \<Longrightarrow> mutex_takes n m time (mutex_held m t h k) = Some (mutex_held m t (h + n) k)"
  by (induction n arbitrary: h) (simp_all add: mutex_take_again [OF assms, simplified])

lemma mutex_releases_held:
  assumes "current_thread k = Some t" "interrupt_nest k = 0" "rt_object_get_type k (K_mutex m) = RT_Object_Class_Mutex"
    and free: "k_mutex k m = mutex_free" "k_list k (Mutex_q m) = []"
  shows "0 < n \<Longrightarrow> n \<le> 255 \<Longrightarrow> mutex_releases n m (mutex_held m t n k) = Some (thread_set_error t RT_EOK k)"
proof (induction n)
  case (Suc n)
  then show ?case
    using mutex_release_last [OF assms] mutex_release_again [OF assms(1-3), of n] by (cases "n = 0") simp_all
qed simp

text \<open>The last release by the owner, up to the hand-over: the owner is back at its original priority.\<close>

lemma mutex_release_restores:
  assumes live: "kernel_live k" and ty: "rt_object_get_type k (K_mutex m) = RT_Object_Class_Mutex"
    and t: "current_thread k = Some t" "interrupt_nest k = 0" "thread_state k t = RT_THREAD_READY"
    and own: "mutex_owner (k_mutex k m) = Some t" "mutex_hold (k_mutex k m) = 1"
  obtains k2 where "rt_mutex_release m k = mutex_hand_on m k2" "kernel_live k2"
    "k_mutex k2 = (k_mutex k)(m := (k_mutex k m)\<lparr>mutex_hold := 0\<rparr>)" "current_thread k2 = Some t"
    "th_current_priority (k_thr k2 t) = mutex_original_priority (k_mutex k m)" "thread_state k2 t = RT_THREAD_READY"
    "\<And>g. waiting_queue g \<Longrightarrow> k_list k2 g = k_list k g" "\<And>s. s \<noteq> t \<Longrightarrow> k_thr k2 s = k_thr k s"
    "scheduler_lock_nest k2 = scheduler_lock_nest k"
proof -
  let ?k1 = "mutex_upd m (\<lambda>x. x\<lparr>mutex_hold := (mutex_hold x + 255) mod 256\<rparr>) k"
  let ?p = "mutex_original_priority (k_mutex k m)"
  have cond: "mutex_prio_cond (k_mutex k m)"
    using kernel_invD(3) [OF liveD(1) [OF live]] by (simp add: mutex_prio_ok_def)
  then have p: "?p < 32" using own by (simp add: mutex_prio_cond_def)
  have live1: "kernel_live ?k1" using cond by (intro live_upd(8) [OF live]) (simp add: mutex_prio_cond_def)
  have f1: "k_thr ?k1 = k_thr k" "k_list ?k1 = k_list k" "current_thread ?k1 = current_thread k"
    "k_mutex ?k1 = (k_mutex k)(m := (k_mutex k m)\<lparr>mutex_hold := 0\<rparr>)" "scheduler_lock_nest ?k1 = scheduler_lock_nest k"
    using own by (simp_all add: mutex_upd_def)
  have st1: "thread_state ?k1 t = RT_THREAD_READY" using t(3) by (simp add: thread_state_def f1)
  have rel: "rt_mutex_release m k = (if ?p \<noteq> th_current_priority (k_thr k t)
      then thread_change_priority t ?p ?k1 \<bind> mutex_hand_on m else mutex_hand_on m ?k1)"
    using ty t own by (simp add: rt_mutex_release_def in_thread_context_def rt_thread_self_def f1 Let_def)
  show thesis
  proof (cases "?p = th_current_priority (k_thr k t)")
    case True
    show thesis by (rule that [of ?k1]) (use True rel live1 t(1) st1 f1 in simp_all)
  next
    case False
    obtain k2 where k2: "thread_change_priority t ?p ?k1 = Some k2" "kernel_live k2"
      "\<And>g. waiting_queue g \<Longrightarrow> k_list k2 g = k_list ?k1 g"
      by (rule priority_succeeds [OF live1 p, of t]) (use st1 in blast)+
    note W = thread_change_priority_wf [OF liveD(4) [OF live1] p k2(1)]
    show thesis
      by (rule that [of k2]) (use False rel k2 W st1 f1 t(1) in \<open>simp_all add: thread_frame_def\<close>)
  qed
qed

lemma mutex_kernel_simps:
  "k_mutex (mutex_kernel t p) m = \<lparr>mutex_value = 0, mutex_original_priority = p, mutex_hold = 1, mutex_owner = Some t\<rparr>"
  "k_thr (mutex_kernel t p) = (\<lambda>_. zero_thread)(1 := sample_thread 5 1, 2 := sample_thread 3 1, 3 := sample_thread 4 2)"
  "k_list (mutex_kernel t p) = (\<lambda>_. [])(Ready 5 := [1], Ready 3 := [2], Mutex_q 0 := [3])"
  "current_thread (mutex_kernel t p) = Some 2" "interrupt_nest (mutex_kernel t p) = 0"
  "scheduler_lock_nest (mutex_kernel t p) = 0" "rt_object_get_type (mutex_kernel t p) (K_mutex m) = RT_Object_Class_Mutex"
  "thread_state (mutex_kernel t p) s = (if s = 1 \<or> s = 2 then 1 else if s = 3 then 2 else 0)"
  "o_flag (k_obj (mutex_kernel t p) (K_mutex m)) = 0"
  using sample_kernel_types(4) sample_kernel_state
  by (simp_all add: mutex_kernel_def sample_kernel_thr thread_state_def rt_object_get_type_def)
    (simp add: sample_kernel_def sample_object_def)

lemma mutex_kernel_live: "p < 32 \<Longrightarrow> kernel_live (mutex_kernel t p)"
proof -
  assume p: "p < 32"
  let ?k = "mutex_kernel t p"
  have grp: "ready_priority_group ?k = ready_priority_group sample_kernel" by (simp add: mutex_kernel_def)
  have wf: "sched_wf_except {} sample_kernel" using sample_kernel_wf by (simp add: sched_wf_def)
  have "sched_wf ?k"
    unfolding sched_wf_def
  proof (rule sched_wf_exceptI)
    show "q < 32 \<Longrightarrow> bit (ready_priority_group ?k) q \<longleftrightarrow> k_list ?k (Ready q) \<noteq> []" for q
      using wf unfolding grp sched_wf_except_def by (auto simp: mutex_kernel_simps sample_kernel_list)
  qed (auto simp: mutex_kernel_simps split: if_splits)
  moreover have "timers_wf 0 ?k"
    by (rule timers_wf_cong [OF sample_kernel_timers(1)])
      (auto simp: mutex_kernel_def thread_state_def timer_active_def timer_periodic_def rt_object_get_type_def)
  ultimately have "kernel_inv 0 ?k" using p by (simp add: kernel_inv_def mutex_prio_ok_def mutex_prio_cond_def mutex_kernel_simps)
  then show ?thesis by (rule live_cong [OF sample_kernel_live]) (simp_all add: mutex_kernel_def rt_object_get_type_def)
qed

section \<open>Properties\<close>

text \<open>
  C14. \<^verbatim>\<open>rt_sem_release\<close>. In a live kernel the call succeeds: when threads wait, the first of the queue becomes
  READY and leaves the queue, the value does not change, its waiting call will return the error of the thread, which is
  \<^verbatim>\<open>RT_EOK\<close> when it is as \<^verbatim>\<open>rt_sem_take\<close> has left it, and a highest priority thread runs if the scheduler is not
  locked; when none waits, the value grows by one, unless it is 65535: then the call returns
  \<^verbatim>\<open>-RT_EFULL\<close> and changes nothing.
\<close>

theorem rt_sem_release_spec:
  assumes "kernel_live k" and "rt_object_get_type k (K_sem s) = RT_Object_Class_Semaphore"
  shows "case k_list k (Sem_q s) of
       t # ts \<Rightarrow> \<exists>k'. rt_sem_release s k = Some (RT_EOK, k') \<and> wakes (Sem_q s) t ts k k'
           \<and> sem_value (k_sem k' s) = sem_value (k_sem k s)
           \<and> rt_sem_take_cont t k' = th_error (k_thr k t) \<and> (th_error (k_thr k t) = RT_EOK \<longrightarrow> rt_sem_take_cont t k' = RT_EOK)
     | [] \<Rightarrow> rt_sem_release s k = Some (if sem_value (k_sem k s) < 65535
           then (RT_EOK, sem_set s (sem_value (k_sem k s) + 1) k) else (- RT_EFULL, k))"
proof (cases "k_list k (Sem_q s)")
  case (Cons t ts)
  obtain k1 k' where k': "rt_ipc_list_resume (Sem_q s) k = Some k1" "rt_schedule k1 = Some k'" "wakes (Sem_q s) t ts k k'"
    by (rule ipc_resume_succeeds [OF assms(1) _ Cons]) (simp, blast)
  then have "rt_sem_release s k = Some (RT_EOK, k')" using Cons assms(2) by (simp add: rt_sem_release_def)
  moreover have "rt_sem_take_cont t k' = th_error (k_thr k t)"
    using k'(3) by (simp add: wakes_def rt_sem_take_cont_def set_stat_def)
  ultimately show ?thesis
    using Cons k'(3) sem_value_frame [OF wakesD(2) [OF k'(3)]] by simp
qed (simp add: rt_sem_release_def assms(2))

theorem rt_sem_release_spec_witness:
  "\<exists>k'. rt_sem_release 10 sample_kernel = Some (RT_EOK, k') \<and> wakes (Sem_q 10) 3 [] sample_kernel k' \<and> rt_sem_take_cont 3 k' = RT_EOK"
  using rt_sem_release_spec [OF sample_kernel_live sample_kernel_types(3), of 10]
  by (auto simp: sample_kernel_list sample_kernel_thr)

text \<open>
  C13. \<^verbatim>\<open>rt_sem_take\<close> of a thread that may block, in a live kernel. With a positive value the call takes one unit
  and returns \<^verbatim>\<open>RT_EOK\<close>; with value 0 and no timeout it returns \<^verbatim>\<open>-RT_ETIMEOUT\<close> and changes nothing; otherwise the
  thread is suspended in its place of the queue with its error cleared, its timer is armed when the timeout is
  positive, and, if the scheduler is not locked, a highest-priority READY thread runs.
\<close>

theorem rt_sem_take_spec:
  assumes "kernel_live k" and "rt_object_get_type k (K_sem s) = RT_Object_Class_Semaphore" and "may_block t k"
    and "o_flag (k_obj k (K_sem s)) \<in> {0, RT_IPC_FLAG_PRIO}" and "time < 0x7fffffff"
  shows "if sem_value (k_sem k s) > 0
       then rt_sem_take s time k = Some (Return RT_EOK, sem_set s (sem_value (k_sem k s) - 1) k)
     else if time = 0 then rt_sem_take s time k = Some (Return (- RT_ETIMEOUT), k)
     else \<exists>k'. rt_sem_take s time k = Some (Wait C_sem_take, k')
       \<and> waits (Sem_q s) t (o_flag (k_obj k (K_sem s))) time (thread_set_error t RT_EOK k) k'"
proof -
  let ?k1 = "thread_set_error t RT_EOK k" and ?flag = "o_flag (k_obj k (K_sem s))"
  obtain k' where k': "ipc_wait (Sem_q s) t ?flag time ?k1 = Some k'" "waits (Sem_q s) t ?flag time ?k1 k'"
    by (rule block_succeeds [OF live_upd(1) [OF assms(1)], of t t RT_EOK "Sem_q s" ?flag time])
      (use assms(3,4,5) in auto)
  then show ?thesis
    using assms(2,3) by (auto simp: rt_sem_take_def in_thread_context_def rt_thread_self_def may_block_def
        thread_set_error_def thr_upd_def)
qed

theorem rt_sem_take_spec_witness:
  "\<exists>k'. rt_sem_take 10 7 sample_kernel = Some (Wait C_sem_take, k')
     \<and> waits (Sem_q 10) 2 0 7 (thread_set_error 2 RT_EOK sample_kernel) k'"
proof -
  have "may_block 2 sample_kernel" by (auto simp: may_block_def sample_kernel_state intro: exI [of _ 1])
  moreover have "o_flag (k_obj sample_kernel (K_sem 10)) = 0" "sem_value (k_sem sample_kernel 10) = 0"
    by (simp_all add: sample_kernel_def kernel_zero_def sample_object_def)
  ultimately show ?thesis
    using rt_sem_take_spec [OF sample_kernel_live sample_kernel_types(3), of 2 10 7] by simp
qed



text \<open>
  C11. Recursion of a mutex. A thread that finds the mutex free and takes it n times, n at most 255, and then releases
  it n times, succeeds every time and leaves the kernel as it was, but for its own error field, which is cleared.
\<close>

theorem rt_mutex_recursive:
  assumes "current_thread k = Some t" and "interrupt_nest k = 0"
    and "rt_object_get_type k (K_mutex m) = RT_Object_Class_Mutex" and "k_mutex k m = mutex_free"
    and "k_list k (Mutex_q m) = []" and "0 < n" and "n \<le> 255"
  shows "\<exists>k1. mutex_takes n m time k = Some k1 \<and> mutex_owner (k_mutex k1 m) = Some t \<and> mutex_hold (k_mutex k1 m) = n
     \<and> mutex_releases n m k1 = Some (thread_set_error t RT_EOK k)"
proof -
  obtain h where n: "n = Suc h" using assms(6) by (cases n) auto
  have "mutex_takes n m time k = Some (mutex_held m t n k)"
    using mutex_take_first [OF assms(1-4), of time] mutex_takes_held [OF assms(1-3), of 1 h time] assms(7) by (simp add: n)
  then show ?thesis using mutex_releases_held [OF assms] by (simp add: mutex_held_simps)
qed

theorem rt_mutex_recursive_witness:
  "\<exists>k1. mutex_takes 3 0 0 (sample_kernel\<lparr>k_mutex := (\<lambda>_. mutex_free)\<rparr>) = Some k1
     \<and> mutex_owner (k_mutex k1 0) = Some 2 \<and> mutex_hold (k_mutex k1 0) = 3
     \<and> mutex_releases 3 0 k1 = Some (thread_set_error 2 RT_EOK (sample_kernel\<lparr>k_mutex := (\<lambda>_. mutex_free)\<rparr>))"
proof -
  let ?k = "sample_kernel\<lparr>k_mutex := (\<lambda>_. mutex_free)\<rparr>"
  have "rt_object_get_type ?k (K_mutex 0) = RT_Object_Class_Mutex"
    using sample_kernel_types(4) by (simp add: rt_object_get_type_def)
  then show ?thesis using rt_mutex_recursive [of ?k 2 0 3 0] by (simp add: sample_kernel_list)
qed

text \<open>
  C9. Priority inheritance. A thread that may block and asks for a mutex owned by another live thread waits on
  the mutex, and the owner runs from then on with the better of the two priorities; the mutex does not change.
\<close>

theorem rt_mutex_take_inherits:
  assumes "kernel_live k" and "rt_object_get_type k (K_mutex m) = RT_Object_Class_Mutex" and "may_block t k"
    and "o_flag (k_obj k (K_mutex m)) \<in> {0, RT_IPC_FLAG_PRIO}" and "time \<noteq> 0" and "time < 0x7fffffff"
    and "mutex_owner (k_mutex k m) = Some ow" and "ow \<noteq> t" and "mutex_value (k_mutex k m) = 0"
    and "thread_state k ow \<in> {RT_THREAD_READY, RT_THREAD_SUSPEND}"
  shows "\<exists>k'. rt_mutex_take m time k = Some (Wait C_mutex_take, k') \<and> kernel_live k'
     \<and> thread_state k' t = RT_THREAD_SUSPEND \<and> t \<in> set (k_list k' (Mutex_q m))
     \<and> th_current_priority (k_thr k' ow) = min (th_current_priority (k_thr k ow)) (th_current_priority (k_thr k t))
     \<and> thread_state k' ow = thread_state k ow \<and> k_mutex k' = k_mutex k
     \<and> (scheduler_lock_nest k = 0 \<longrightarrow> runs_highest k')"
proof -
  let ?k1 = "thread_set_error t RT_EOK k" and ?flag = "o_flag (k_obj k (K_mutex m))"
  let ?p = "th_current_priority (k_thr k t)" and ?po = "th_current_priority (k_thr k ow)"
  have live1: "kernel_live ?k1" by (rule live_upd [OF assms(1)])
  have fields: "th_current_priority (k_thr ?k1 u) = th_current_priority (k_thr k u)" "k_mutex ?k1 = k_mutex k"
    "scheduler_lock_nest ?k1 = scheduler_lock_nest k" "k_obj ?k1 = k_obj k" for u
    by (simp_all add: thread_set_error_def)
  have b1: "may_block t ?k1" using assms(3) by simp
  have st: "thread_state ?k1 ow = RT_THREAD_READY \<or> thread_state ?k1 ow = RT_THREAD_SUSPEND" using assms(10) by simp
  have p: "?p < 32"
    using sched_wf_prio_ok [of "{}" k t] liveD(4) [OF assms(1)] assms(3) by (simp add: may_block_def sched_wf_def prio_ok_def)
  obtain k2 where k2: "(if ?p < ?po then thread_change_priority ow ?p ?k1 else Some ?k1) = Some k2"
    and live2: "kernel_live k2" and fr: "thread_frame {ow} ?k1 k2" and cur: "current_thread k2 = current_thread ?k1"
    and ow: "th_current_priority (k_thr k2 ow) = min ?po ?p" "thread_state k2 ow = thread_state k ow"
  proof (cases "?p < ?po")
    case True
    obtain k2 where k2: "thread_change_priority ow ?p ?k1 = Some k2" and "kernel_live k2"
      by (rule priority_succeeds [OF live1 p st]) blast
    then show thesis using that [of k2] True thread_change_priority_wf [OF liveD(4) [OF live1] p k2] by simp
  qed (rule that [of ?k1], use live1 fields in auto)
  have fr': "scheduler_lock_nest k2 = scheduler_lock_nest k" "interrupt_nest k2 = interrupt_nest k" "k_mutex k2 = k_mutex k"
    "o_flag (k_obj k2 (K_mutex m)) = ?flag" "u \<noteq> ow \<Longrightarrow> thread_state k2 u = thread_state k u" for u
    using fr fields by (simp_all add: thread_frame_def thread_state_def thread_set_error_def)
  have st2: "thread_state k2 u = thread_state k u" for u using fr'(5) [of u] ow(2) by (cases "u = ow") auto
  have "may_block t k2"
    using assms(3) cur st2 fr'(2) by (simp add: may_block_def thread_set_error_def)
  then obtain k' where k': "ipc_wait (Mutex_q m) t ?flag time k2 = Some k'" and w: "waits (Mutex_q m) t ?flag time k2 k'"
    by (rule block_succeeds [OF live2]) (use assms(4,6) in auto)
  have "rt_mutex_take m time k = Some (Wait C_mutex_take, k')"
    using assms k2 k' fr'(4)
    by (simp add: rt_mutex_take_def in_thread_context_def rt_thread_self_def may_block_def fields Let_def split: if_splits)
  moreover have "k_thr k' ow = k_thr k2 ow" "k_mutex k' = k_mutex k"
    using w assms(8) fr'(3) by (simp_all add: waits_def thread_frame_def)
  moreover have "thread_state k' t = RT_THREAD_SUSPEND" "t \<in> set (k_list k' (Mutex_q m))"
    using w by (simp_all add: waits_def thread_state_def enqueue_def)
  ultimately show ?thesis using w ow fr'(1) by (simp add: waits_def thread_state_def)
qed

theorem rt_mutex_take_inherits_witness:
  "\<exists>k'. rt_mutex_take 0 (- 1) (mutex_kernel 1 5) = Some (Wait C_mutex_take, k') \<and> thread_state k' 2 = RT_THREAD_SUSPEND
     \<and> th_current_priority (k_thr k' 1) = 3"
proof -
  have "may_block 2 (mutex_kernel 1 5)" by (auto simp: may_block_def mutex_kernel_simps intro: exI [of _ 1])
  then show ?thesis
    using rt_mutex_take_inherits [OF mutex_kernel_live [of 5 1], of 0 2 "- 1" 1]
    by (auto simp: mutex_kernel_simps)
qed

text \<open>
  C10. The last release of a mutex with waiting threads hands it over: the first waiting thread becomes the owner
  with hold count 1, is READY and leaves the queue; the former owner is back at the priority it had when it took
  the mutex; and a highest-priority thread runs if the scheduler is not locked.
\<close>

theorem rt_mutex_release_hands_over:
  assumes "kernel_live k" and "rt_object_get_type k (K_mutex m) = RT_Object_Class_Mutex"
    and "current_thread k = Some t" and "interrupt_nest k = 0" and "thread_state k t = RT_THREAD_READY"
    and "mutex_owner (k_mutex k m) = Some t" and "mutex_hold (k_mutex k m) = 1" and "k_list k (Mutex_q m) = u # us"
  shows "\<exists>k'. rt_mutex_release m k = Some (RT_EOK, k') \<and> kernel_live k'
     \<and> k_mutex k' m = (k_mutex k m)\<lparr>mutex_owner := Some u, mutex_hold := 1,
          mutex_original_priority := th_current_priority (k_thr k u)\<rparr>
     \<and> thread_state k' u = RT_THREAD_READY \<and> k_list k' (Mutex_q m) = us
     \<and> th_current_priority (k_thr k' t) = mutex_original_priority (k_mutex k m)
     \<and> (scheduler_lock_nest k = 0 \<longrightarrow> runs_highest k')"
proof -
  obtain k2 where rel: "rt_mutex_release m k = mutex_hand_on m k2" and live2: "kernel_live k2"
    and mx: "k_mutex k2 = (k_mutex k)(m := (k_mutex k m)\<lparr>mutex_hold := 0\<rparr>)"
    and pt: "th_current_priority (k_thr k2 t) = mutex_original_priority (k_mutex k m)"
    and st: "thread_state k2 t = RT_THREAD_READY" and q: "\<And>g. waiting_queue g \<Longrightarrow> k_list k2 g = k_list k g"
    and thr: "\<And>s. s \<noteq> t \<Longrightarrow> k_thr k2 s = k_thr k s" and lk: "scheduler_lock_nest k2 = scheduler_lock_nest k"
    by (rule mutex_release_restores [OF assms(1-7)]) blast
  have q2: "k_list k2 (Mutex_q m) = u # us" using q assms(8) by simp
  have su: "thread_state k2 u = RT_THREAD_SUSPEND" using queue_unlink(1) [OF liveD(4) [OF live2] _ q2] by simp
  then have ut: "u \<noteq> t" using st by auto
  have pu: "th_current_priority (k_thr k2 u) < 32"
    using sched_wf_prio_ok [of "{}" k2 u] liveD(4) [OF live2] su by (simp add: sched_wf_def prio_ok_def)
  define k4 where "k4 = mutex_upd m (\<lambda>x. x\<lparr>mutex_owner := Some u, mutex_original_priority := th_current_priority (k_thr k2 u),
      mutex_hold := mutex_hold x + 1\<rparr>) k2"
  have live4: "kernel_live k4" unfolding k4_def by (rule live_upd(8) [OF live2]) (simp add: mutex_prio_cond_def pu)
  have f4: "k_list k4 = k_list k2" "k_thr k4 = k_thr k2" "scheduler_lock_nest k4 = scheduler_lock_nest k2"
    "k_mutex k4 m = (k_mutex k2 m)\<lparr>mutex_owner := Some u, mutex_original_priority := th_current_priority (k_thr k2 u),
      mutex_hold := mutex_hold (k_mutex k2 m) + 1\<rparr>"
    by (simp_all add: k4_def mutex_upd_def)
  obtain k5 k' where k': "rt_ipc_list_resume (Mutex_q m) k4 = Some k5" "rt_schedule k5 = Some k'" "wakes (Mutex_q m) u us k4 k'"
    by (rule ipc_resume_succeeds [OF live4, of "Mutex_q m" u us]) (use q2 f4 in auto)
  have "mutex_hand_on m k2 = Some (RT_EOK, k')"
    using q2 k' mx by (simp add: mutex_hand_on_def k4_def mutex_upd_def Let_def)
  moreover have "k_mutex k' m = k_mutex k4 m" "k_thr k' t = k_thr k4 t"
    using wakesD(2) [OF k'(3)] ut by (simp_all add: thread_frame_def)
  ultimately show ?thesis
    using rel wakesD [OF k'(3)] f4 mx pt lk thr [OF ut] by simp
qed

theorem rt_mutex_release_hands_over_witness:
  "\<exists>k'. rt_mutex_release 0 (mutex_kernel 2 7) = Some (RT_EOK, k') \<and> mutex_owner (k_mutex k' 0) = Some 3
     \<and> thread_state k' 3 = RT_THREAD_READY \<and> th_current_priority (k_thr k' 2) = 7 \<and> runs_highest k'"
  using rt_mutex_release_hands_over [OF mutex_kernel_live [of 7 2], of 0 2 3 "[]"]
  by (auto simp: mutex_kernel_simps)

text \<open>
  The last release of a mutex without waiting threads frees it and restores the priority of its owner, but it
  does not run the scheduler: the caller keeps running even when its restored priority is lower than that of a
  READY thread.
\<close>

lemma rt_mutex_release_keeps_running:
  assumes "kernel_live k" and "rt_object_get_type k (K_mutex m) = RT_Object_Class_Mutex"
    and "current_thread k = Some t" and "interrupt_nest k = 0" and "thread_state k t = RT_THREAD_READY"
    and "mutex_owner (k_mutex k m) = Some t" and "mutex_hold (k_mutex k m) = 1" and "k_list k (Mutex_q m) = []"
    and "mutex_value (k_mutex k m) = 0"
  shows "\<exists>k'. rt_mutex_release m k = Some (RT_EOK, k') \<and> k_mutex k' m = mutex_free \<and> current_thread k' = Some t
     \<and> th_current_priority (k_thr k' t) = mutex_original_priority (k_mutex k m)
     \<and> ((\<exists>s. s \<noteq> t \<and> thread_state k s = RT_THREAD_READY
           \<and> th_current_priority (k_thr k s) < mutex_original_priority (k_mutex k m)) \<longrightarrow> \<not> runs_highest k')"
proof -
  obtain k2 where rel: "rt_mutex_release m k = mutex_hand_on m k2"
    and mx: "k_mutex k2 = (k_mutex k)(m := (k_mutex k m)\<lparr>mutex_hold := 0\<rparr>)" and cur: "current_thread k2 = Some t"
    and pt: "th_current_priority (k_thr k2 t) = mutex_original_priority (k_mutex k m)"
    and q: "\<And>g. waiting_queue g \<Longrightarrow> k_list k2 g = k_list k g" and thr: "\<And>s. s \<noteq> t \<Longrightarrow> k_thr k2 s = k_thr k s"
    by (rule mutex_release_restores [OF assms(1-7)]) blast
  let ?k' = "mutex_upd m (\<lambda>x. x\<lparr>mutex_value := mutex_value x + 1, mutex_owner := None, mutex_original_priority := 0xff\<rparr>) k2"
  have k': "rt_mutex_release m k = Some (RT_EOK, ?k')" using rel q mx assms(8,9) by (simp add: mutex_hand_on_def)
  have f: "k_thr ?k' = k_thr k2" "current_thread ?k' = Some t" "k_mutex ?k' m = mutex_free"
    using cur mx assms(9) by (simp_all add: mutex_upd_def mutex_free_def)
  have "\<not> runs_highest ?k'"
    if "s \<noteq> t" "thread_state k s = RT_THREAD_READY" "th_current_priority (k_thr k s) < mutex_original_priority (k_mutex k m)" for s
    using that f pt thr [OF that(1)] by (auto simp: runs_highest_def thread_state_def not_le intro!: exI [of _ s])
  then show ?thesis using k' f pt by auto
qed

end
