(* ===== verification/Event_Spec.thy ===== *)
theory Event_Spec
  imports Ipc_Spec
begin

text \<open>
  What the event set promises: sending events wakes exactly the waiting threads whose condition becomes true,
  in the order of the queue, where a thread that asked for it consumes its events before the next one is
  looked at. The abstract specification is a scan over the list of waiting conditions; \<^verbatim>\<open>rt_event_send\<close> refines it.
\<close>

section \<open>Definitions\<close>

text \<open>The events that satisfy a thread waiting for the set \<open>s\<close> with option \<open>info\<close>, and the scan.\<close>

definition event_match :: "u32 \<Rightarrow> u32 \<Rightarrow> u8 \<Rightarrow> u32 option" where
  "event_match es s info =
     (if info AND RT_EVENT_FLAG_AND \<noteq> 0 then (if s AND es = s then Some s else None)
      else if s AND es \<noteq> 0 then Some (s AND es) else None)"

fun event_scan :: "u32 \<Rightarrow> (tid \<times> u32 \<times> u8) list \<Rightarrow> u32 \<times> (tid \<times> u32) list" where
  "event_scan es [] = (es, [])"
| "event_scan es ((t, s, info) # ws) =
     (case event_match es s info of
        None \<Rightarrow> event_scan es ws
      | Some got \<Rightarrow>
          let (es', woken) = event_scan (if info AND RT_EVENT_FLAG_CLEAR \<noteq> 0 then es AND NOT got else es) ws
          in (es', (t, got) # woken))"

definition event_waiters :: "kstate \<Rightarrow> tid list \<Rightarrow> (tid \<times> u32 \<times> u8) list" where
  "event_waiters k ts = map (\<lambda>t. (t, th_event_set (k_thr k t), th_event_info (k_thr k t))) ts"

definition valid_waiters :: "kstate \<Rightarrow> tid list \<Rightarrow> bool" where
  "valid_waiters k ts \<longleftrightarrow> (\<forall>t \<in> set ts. th_event_info (k_thr k t) AND RT_EVENT_FLAG_AND \<noteq> 0
     \<or> th_event_info (k_thr k t) AND RT_EVENT_FLAG_OR \<noteq> 0)"

text \<open>The effect of a scan on the kernel.\<close>

definition scanned :: "nat \<Rightarrow> u32 \<Rightarrow> (tid \<times> u32) list \<Rightarrow> kstate \<Rightarrow> kstate \<Rightarrow> bool" where
  "scanned e es woken k k' \<longleftrightarrow> event_set (k_event k' e) = es
     \<and> k_list k' (Event_q e) = filter (\<lambda>t. t \<notin> fst ` set woken) (k_list k (Event_q e))
     \<and> (\<forall>(t, got) \<in> set woken. k_thr k' t = set_stat RT_THREAD_READY ((k_thr k t)\<lparr>th_event_set := got\<rparr>))
     \<and> (\<forall>t. t \<notin> fst ` set woken \<longrightarrow> k_thr k' t = k_thr k t)"

text \<open>The sample system with thread 3 waiting for the events 1 and 2 of an event set.\<close>

definition event_kernel :: kstate where
  "event_kernel = thr_upd 3 (\<lambda>x. x\<lparr>th_event_set := 3, th_event_info := 5\<rparr>)
     (sample_kernel\<lparr>k_list := (\<lambda>_. [])(Ready 5 := [1], Ready 3 := [2], Event_q 0 := [3]),
       k_event := (\<lambda>_. \<lparr>event_set = 1\<rparr>)\<rparr>)"

section \<open>The loop refines the scan\<close>

lemma event_put_simps [simp]:
  "k_thr (event_put e v k) = k_thr k" "k_list (event_put e v k) = k_list k" "event_set (k_event (event_put e v k) e) = v"
  "scheduler_lock_nest (event_put e v k) = scheduler_lock_nest k" "thread_state (event_put e v k) t = thread_state k t"
  by (simp_all add: event_put_def thread_state_def)

lemma scan_threads: "fst ` set (snd (event_scan es ws)) \<subseteq> fst ` set ws"
proof (induction es ws rule: event_scan.induct)
  case (2 es t s info ws)
  then show ?case
    by (cases "event_match es s info") (simp_all add: split_beta Let_def subset_insertI2 split: if_splits)
qed simp

lemma event_waiters_cong:
  "(\<And>t. t \<in> set ts \<Longrightarrow> k_thr k' t = k_thr k t) \<Longrightarrow> event_waiters k' ts = event_waiters k ts"
  by (simp add: event_waiters_def)

text \<open>Waking one matching thread.\<close>

lemma event_wake_succeeds:
  fixes got es' :: u32 and clear :: bool
  assumes live: "kernel_live k" and t: "t \<in> set (k_list k (Event_q e))"
  defines "k1 \<equiv> thr_upd t (\<lambda>x. x\<lparr>th_event_set := got\<rparr>) k"
  defines "k2 \<equiv> (if clear then event_put e es' k1 else k1)"
  obtains k3 where "rt_thread_resume t k2 = Some (RT_EOK, k3)" "kernel_live k3"
    "k_thr k3 t = set_stat RT_THREAD_READY ((k_thr k t)\<lparr>th_event_set := got\<rparr>)"
    "\<And>s. s \<noteq> t \<Longrightarrow> k_thr k3 s = k_thr k s" "k_list k3 (Event_q e) = filter (\<lambda>x. x \<noteq> t) (k_list k (Event_q e))"
    "event_set (k_event k3 e) = (if clear then es' else event_set (k_event k e))"
    "scheduler_lock_nest k3 = scheduler_lock_nest k"
proof -
  have live2: "kernel_live k2" unfolding k2_def k1_def using live_upd [OF live] live_upd(3) [OF live_upd(7) [OF live]] by simp
  have f: "k_list k2 = k_list k" "k_thr k2 = (k_thr k)(t := (k_thr k t)\<lparr>th_event_set := got\<rparr>)"
    "event_set (k_event k2 e) = (if clear then es' else event_set (k_event k e))"
    "scheduler_lock_nest k2 = scheduler_lock_nest k"
    by (simp_all add: k2_def k1_def)
  have st: "thread_state k2 t = RT_THREAD_SUSPEND"
    using sched_wf_state [of "{}" k2 t "Event_q e"] liveD(4) [OF live2] t f(1) by (simp add: sched_wf_def)
  obtain k3 where k3: "rt_thread_resume t k2 = Some (RT_EOK, k3)" "kernel_live k3" "thread_frame {t} k2 k3"
    "k_thr k3 t = set_stat RT_THREAD_READY (k_thr k2 t)"
    "\<And>g. waiting_queue g \<Longrightarrow> k_list k3 g = filter (\<lambda>x. x \<noteq> t) (k_list k2 g)"
    by (rule resume_succeeds [OF live2 st]) blast
  show thesis
    by (rule that [OF k3(1,2)]) (use k3(3-5) f in \<open>simp_all add: thread_frame_def\<close>)
qed

lemma thr_upd_id: "f (k_thr k t) = k_thr k t \<Longrightarrow> thr_upd t f k = k"
  by (cases k) (simp add: thr_upd_def)

lemma event_loop_Cons:
  assumes es: "event_set (k_event k e) = es" and ok: "valid_waiters k (t # ts)"
  defines "s \<equiv> th_event_set (k_thr k t)" and "info \<equiv> th_event_info (k_thr k t)"
  shows "event_send_loop e (t # ts) need k = (case event_match es s info of
      None \<Rightarrow> event_send_loop e ts need k
    | Some got \<Rightarrow> do {
        let k1 = thr_upd t (\<lambda>x. x\<lparr>th_event_set := got\<rparr>) k;
        (_, k3) \<leftarrow> rt_thread_resume t (if info AND RT_EVENT_FLAG_CLEAR \<noteq> 0 then event_put e (es AND NOT got) k1 else k1);
        event_send_loop e ts True k3
      })"
proof (cases "info AND RT_EVENT_FLAG_AND \<noteq> 0")
  case True
  have "thr_upd t (\<lambda>x. x\<lparr>th_event_set := s\<rparr>) k = k" by (rule thr_upd_id) (simp add: s_def)
  then show ?thesis using True es by (simp add: event_match_def s_def info_def Let_def)
next
  case False
  then have "info AND RT_EVENT_FLAG_OR \<noteq> 0" using ok by (simp add: valid_waiters_def info_def)
  moreover have "thr_upd t (\<lambda>x. x\<lparr>th_event_set := th_event_set x AND es\<rparr>) k = thr_upd t (\<lambda>x. x\<lparr>th_event_set := s AND es\<rparr>) k"
    by (simp add: thr_upd_def s_def)
  ultimately show ?thesis using False es by (simp add: event_match_def s_def info_def Let_def)
qed

lemma event_loop_scan:
  assumes "kernel_live k" "set ts \<subseteq> set (k_list k (Event_q e))" "distinct ts" "valid_waiters k ts"
    "event_scan (event_set (k_event k e)) (event_waiters k ts) = (es', woken)"
  shows "\<exists>k'. event_send_loop e ts need k = Some (None, need \<or> woken \<noteq> [], k') \<and> kernel_live k' \<and> scanned e es' woken k k'
     \<and> scheduler_lock_nest k' = scheduler_lock_nest k"
  using assms
proof (induction ts arbitrary: k need woken)
  case Nil
  then show ?case by (auto simp: event_waiters_def scanned_def)
next
  case (Cons t ts)
  let ?es = "event_set (k_event k e)" and ?s = "th_event_set (k_thr k t)" and ?i = "th_event_info (k_thr k t)"
  note step = event_loop_Cons [OF refl Cons.prems(4), where need = need and e = e]
  have valid: "valid_waiters k ts" using Cons.prems(4) by (simp add: valid_waiters_def)
  show ?case
  proof (cases "event_match ?es ?s ?i")
    case None
    then have "event_scan ?es (event_waiters k ts) = (es', woken)" using Cons.prems(5) by (simp add: event_waiters_def)
    from Cons.IH [OF Cons.prems(1) _ _ valid this] show ?thesis
      using Cons.prems(2,3) unfolding step None by simp
  next
    case (Some got)
    let ?clear = "?i AND RT_EVENT_FLAG_CLEAR \<noteq> 0"
    obtain k3 where k3: "rt_thread_resume t (if ?clear then event_put e (?es AND NOT got)
          (thr_upd t (\<lambda>x. x\<lparr>th_event_set := got\<rparr>) k) else thr_upd t (\<lambda>x. x\<lparr>th_event_set := got\<rparr>) k) = Some (RT_EOK, k3)"
      and live3: "kernel_live k3" and tt: "k_thr k3 t = set_stat RT_THREAD_READY ((k_thr k t)\<lparr>th_event_set := got\<rparr>)"
      and oth: "\<And>s. s \<noteq> t \<Longrightarrow> k_thr k3 s = k_thr k s" and q3: "k_list k3 (Event_q e) = filter (\<lambda>x. x \<noteq> t) (k_list k (Event_q e))"
      and es3: "event_set (k_event k3 e) = (if ?clear then ?es AND NOT got else ?es)"
      and lk: "scheduler_lock_nest k3 = scheduler_lock_nest k"
      by (rule event_wake_succeeds [OF Cons.prems(1), where t = t and e = e and got = got and clear = ?clear
            and es' = "?es AND NOT got"]) (use Cons.prems(2) in auto)
    have tn: "t \<notin> set ts" using Cons.prems(3) by simp
    have w3: "event_waiters k3 ts = event_waiters k ts" by (rule event_waiters_cong) (use tn oth in metis)
    obtain woken' where scan': "event_scan (event_set (k_event k3 e)) (event_waiters k3 ts) = (es', woken')"
      and woken: "woken = (t, got) # woken'"
      using Cons.prems(5) Some unfolding es3 w3 by (auto simp: event_waiters_def Let_def split: prod.splits)
    have valid3: "valid_waiters k3 ts" unfolding valid_waiters_def
      using valid [unfolded valid_waiters_def] oth tn by metis
    have sub3: "set ts \<subseteq> set (k_list k3 (Event_q e))" using Cons.prems(2) tn by (auto simp: q3)
    obtain k' where k': "event_send_loop e ts True k3 = Some (None, True, k')" "kernel_live k'" "scanned e es' woken' k3 k'"
      "scheduler_lock_nest k' = scheduler_lock_nest k3"
      using Cons.IH [OF live3 sub3 _ valid3 scan', of True] Cons.prems(3) by auto
    have tw: "t \<notin> fst ` set woken'"
      using scan_threads [of "event_set (k_event k3 e)" "event_waiters k3 ts"] scan' tn
      by (auto simp: event_waiters_def image_image)
    have "scanned e es' woken k k'"
      unfolding scanned_def woken
    proof (intro conjI ballI allI impI)
      note S = k'(3) [unfolded scanned_def]
      show "event_set (k_event k' e) = es'" using S by blast
      show "k_list k' (Event_q e) = filter (\<lambda>u. u \<notin> fst ` set ((t, got) # woken')) (k_list k (Event_q e))"
        using S by (simp add: q3 conj_commute)
      show "case x of (u, g) \<Rightarrow> k_thr k' u = set_stat RT_THREAD_READY ((k_thr k u)\<lparr>th_event_set := g\<rparr>)"
        if "x \<in> set ((t, got) # woken')" for x
      proof (cases "x = (t, got)")
        case True
        have "k_thr k' t = k_thr k3 t" using S tw by blast
        then show ?thesis using True tt by simp
      next
        case False
        then have x: "x \<in> set woken'" using that by simp
        then have "fst x \<noteq> t" using tw by auto
        then show ?thesis using S x oth [of "fst x"] by (auto simp: split_beta)
      qed
      show "k_thr k' u = k_thr k u" if "u \<notin> fst ` set ((t, got) # woken')" for u
        using S that oth [of u] by auto
    qed
    moreover have "event_send_loop e (t # ts) need k = Some (None, True, k')"
      unfolding step using Some k3 k'(1) by (simp add: Let_def)
    ultimately show ?thesis using k'(2,4) lk woken by auto
  qed
qed

lemma event_kernel_simps:
  "k_thr event_kernel = (\<lambda>_. zero_thread)(1 := sample_thread 5 1, 2 := sample_thread 3 1,
     3 := (sample_thread 4 2)\<lparr>th_event_set := 3, th_event_info := 5\<rparr>)"
  "k_list event_kernel = (\<lambda>_. [])(Ready 5 := [1], Ready 3 := [2], Event_q 0 := [3])"
  "event_set (k_event event_kernel e) = 1" "current_thread event_kernel = Some 2" "interrupt_nest event_kernel = 0"
  "scheduler_lock_nest event_kernel = 0" "rt_object_get_type event_kernel p = rt_object_get_type sample_kernel p"
  "thread_state event_kernel s = (if s = 1 \<or> s = 2 then 1 else if s = 3 then 2 else 0)"
  "o_flag (k_obj event_kernel (K_event e)) = 0"
  using sample_kernel_state [of s]
  by (simp_all add: event_kernel_def sample_kernel_thr thread_state_def rt_object_get_type_def)
    (simp add: sample_kernel_def sample_object_def)

lemma event_kernel_live: "kernel_live event_kernel"
proof -
  let ?k = event_kernel
  have grp: "ready_priority_group ?k = ready_priority_group sample_kernel" by (simp add: event_kernel_def)
  have wf: "sched_wf_except {} sample_kernel" using sample_kernel_wf by (simp add: sched_wf_def)
  have "sched_wf ?k"
    unfolding sched_wf_def
  proof (rule sched_wf_exceptI)
    show "q < 32 \<Longrightarrow> bit (ready_priority_group ?k) q \<longleftrightarrow> k_list ?k (Ready q) \<noteq> []" for q
      using wf unfolding grp sched_wf_except_def by (auto simp: event_kernel_simps sample_kernel_list)
    show "prio_ok (k_thr ?k t)" if "thread_state ?k t = RT_THREAD_READY \<or> thread_state ?k t = RT_THREAD_SUSPEND" for t
      using that by (auto simp: event_kernel_simps prio_ok_def split: if_splits)
  qed (auto simp: event_kernel_simps split: if_splits)
  moreover have "timers_wf 0 ?k"
    by (rule timers_wf_cong [OF sample_kernel_timers(1)])
      (auto simp: event_kernel_simps sample_kernel_state split: if_splits, simp_all add: event_kernel_def timer_active_def timer_periodic_def)
  moreover have "mutex_prio_ok ?k"
    using kernel_invD(3) [OF sample_kernel_inv] by (simp add: event_kernel_def mutex_prio_ok_def)
  ultimately have "kernel_inv 0 ?k" by (simp add: kernel_inv_def)
  then show ?thesis
    by (rule live_fields [OF sample_kernel_live])
      (simp_all add: event_kernel_def rt_object_get_type_def)
qed

section \<open>Properties\<close>

text \<open>
  C8. \<^verbatim>\<open>rt_event_send\<close> refines the scan. In a live kernel whose waiting threads all have a valid option, sending a
  non-empty set returns \<^verbatim>\<open>RT_EOK\<close>; the new event set and the woken threads, each with the events it receives, are
  those of the scan over the queue; the woken threads are READY and have left the queue, the order of the others
  is kept, no other thread changes, and a highest-priority thread runs when one was woken and the scheduler is not locked.
\<close>

theorem rt_event_send_refines:
  assumes "kernel_live k" and "rt_object_get_type k (K_event e) = RT_Object_Class_Event" and "evs \<noteq> 0"
    and "valid_waiters k (k_list k (Event_q e))"
  shows "\<exists>k' es' woken. rt_event_send e evs k = Some (RT_EOK, k')
     \<and> event_scan (event_set (k_event k e) OR evs) (event_waiters k (k_list k (Event_q e))) = (es', woken)
     \<and> kernel_live k' \<and> scanned e es' woken k k'
     \<and> (woken \<noteq> [] \<and> scheduler_lock_nest k = 0 \<longrightarrow> runs_highest k')"
proof -
  let ?es = "event_set (k_event k e) OR evs"
  let ?k1 = "event_put e ?es k"
  obtain es' woken where scan: "event_scan ?es (event_waiters k (k_list k (Event_q e))) = (es', woken)"
    by (cases "event_scan ?es (event_waiters k (k_list k (Event_q e)))") auto
  have live1: "kernel_live ?k1" by (rule live_upd [OF assms(1)])
  have d: "distinct (k_list k (Event_q e))"
    using sched_wf_distinct [of "{}" k] liveD(4) [OF assms(1)] by (simp add: sched_wf_def)
  have "valid_waiters ?k1 (k_list k (Event_q e))" "event_waiters ?k1 (k_list k (Event_q e)) = event_waiters k (k_list k (Event_q e))"
    using assms(4) by (simp_all add: valid_waiters_def event_waiters_def)
  then obtain k2 where k2: "event_send_loop e (k_list k (Event_q e)) False ?k1 = Some (None, woken \<noteq> [], k2)"
    "kernel_live k2" "scanned e es' woken ?k1 k2" "scheduler_lock_nest k2 = scheduler_lock_nest k"
    using event_loop_scan [OF live1, of "k_list k (Event_q e)" e es' woken False] d scan by auto
  have sc: "scanned e es' woken k k2" using k2(3) by (simp add: scanned_def)
  show ?thesis
  proof (cases "woken = []")
    case True
    then have "rt_event_send e evs k = Some (RT_EOK, k2)" using assms(2,3) k2(1) by (simp add: rt_event_send_def Let_def)
    then show ?thesis using scan k2(2) sc True by blast
  next
    case False
    then obtain t got where "(t, got) \<in> set woken" by (cases woken) auto
    then have "thread_state k2 t = RT_THREAD_READY" using sc by (auto simp: scanned_def thread_state_def)
    then obtain k' where k': "rt_schedule k2 = Some k'" "kernel_live k'" "scheduler_lock_nest k2 = 0 \<Longrightarrow> runs_highest k'"
      "k_thr k' = k_thr k2" "k_list k' = k_list k2" "thread_frame {} k2 k'"
      by (rule live_schedule [OF k2(2)]) blast
    have "rt_event_send e evs k = Some (RT_EOK, k')"
      using assms(2,3) k2(1) False k'(1) by (simp add: rt_event_send_def Let_def)
    moreover have "scanned e es' woken k k'" using sc k'(4-6) by (simp add: scanned_def thread_frame_def)
    ultimately show ?thesis using scan k'(2,3) k2(4) by auto
  qed
qed

theorem rt_event_send_refines_witness:
  "\<exists>k'. rt_event_send 0 2 event_kernel = Some (RT_EOK, k') \<and> scanned 0 0 [(3, 3)] event_kernel k'
     \<and> thread_state k' 3 = RT_THREAD_READY"
proof -
  have "valid_waiters event_kernel (k_list event_kernel (Event_q 0))"
    by (simp add: valid_waiters_def event_kernel_simps)
  moreover have "event_scan (event_set (k_event event_kernel 0) OR 2)
      (event_waiters event_kernel (k_list event_kernel (Event_q 0))) = (0, [(3, 3)])"
    by (simp add: event_kernel_simps event_waiters_def event_match_def)
  ultimately obtain k' where k': "rt_event_send 0 2 event_kernel = Some (RT_EOK, k')" "scanned 0 0 [(3, 3)] event_kernel k'"
    using rt_event_send_refines [OF event_kernel_live, of 0 2] sample_kernel_types(5)
    by (auto simp: event_kernel_simps(7))
  then have "thread_state k' 3 = RT_THREAD_READY" by (simp add: scanned_def thread_state_def)
  then show ?thesis using k' by blast
qed

text \<open>
  C19. \<^verbatim>\<open>rt_event_recv\<close> of a thread that may block, with a non-empty set and a valid option. When the condition holds
  it returns \<^verbatim>\<open>RT_EOK\<close> with the received events and clears them if asked to; when it does not hold the call returns
  \<^verbatim>\<open>-RT_ETIMEOUT\<close> without a timeout, and otherwise the thread waits with its condition recorded.
\<close>

theorem rt_event_recv_spec:
  assumes "kernel_live k" and "rt_object_get_type k (K_event e) = RT_Object_Class_Event" and "evs \<noteq> 0" and "may_block t k"
    and "opt AND RT_EVENT_FLAG_AND \<noteq> 0 \<or> opt AND RT_EVENT_FLAG_OR \<noteq> 0"
    and "o_flag (k_obj k (K_event e)) \<in> {0, RT_IPC_FLAG_PRIO}" and "time < 0x7fffffff"
  shows "case event_match (event_set (k_event k e)) evs opt of
       Some got \<Rightarrow> \<exists>k'. rt_event_recv e evs opt time k = Some (Return RT_EOK, Some got, k')
           \<and> event_set (k_event k' e) = (if opt AND RT_EVENT_FLAG_CLEAR \<noteq> 0
               then event_set (k_event k e) AND NOT evs else event_set (k_event k e))
           \<and> th_event_set (k_thr k' t) = got
     | None \<Rightarrow> if time = 0
         then rt_event_recv e evs opt time k = Some (Return (- RT_ETIMEOUT), None, thread_set_error t (- RT_ETIMEOUT) k)
         else \<exists>k'. rt_event_recv e evs opt time k = Some (Wait C_event_recv, None, k')
           \<and> waits (Event_q e) t (o_flag (k_obj k (K_event e))) time
               (thr_upd t (\<lambda>x. x\<lparr>th_event_set := evs, th_event_info := opt\<rparr>) (thread_set_error t RT_EOK k)) k'"
proof -
  let ?k1 = "thread_set_error t RT_EOK k" and ?es = "event_set (k_event k e)" and ?flag = "o_flag (k_obj k (K_event e))"
  let ?k2 = "thr_upd t (\<lambda>x. x\<lparr>th_event_set := evs, th_event_info := opt\<rparr>) ?k1"
  have ctx: "current_thread k = Some t" "interrupt_nest k = 0" using assms(4) by (simp_all add: may_block_def)
  have f1: "k_event ?k1 = k_event k" "k_obj ?k1 = k_obj k" "th_error (k_thr ?k1 t) = RT_EOK"
    "thread_set_error t (- RT_ETIMEOUT) ?k1 = thread_set_error t (- RT_ETIMEOUT) k"
    by (simp_all add: thread_set_error_def thr_upd_def)
  have ok: "(if opt AND RT_EVENT_FLAG_AND \<noteq> 0 then Some (?es AND evs = evs)
      else if opt AND RT_EVENT_FLAG_OR \<noteq> 0 then Some (?es AND evs \<noteq> 0) else None) = Some (event_match ?es evs opt \<noteq> None)"
    using assms(5) by (auto simp: event_match_def and.commute)
  have got: "?es AND evs = got" if "event_match ?es evs opt = Some got" for got
    using that by (auto simp: event_match_def and.commute split: if_splits)
  have live2: "kernel_live ?k2" by (rule live_upd(6) [OF live_upd(1) [OF assms(1)]])
  have "may_block t ?k2 = may_block t ?k1"
  proof -
    have "thread_state ?k2 = thread_state ?k1" by (rule ext) (simp add: thread_state_def)
    then show ?thesis by (simp add: may_block_def)
  qed
  then obtain k' where k': "ipc_wait (Event_q e) t ?flag time ?k2 = Some k'" "waits (Event_q e) t ?flag time ?k2 k'"
    by (elim block_succeeds [OF live2, of t "Event_q e" ?flag time, rotated -1]) (use assms(4,6,7) in auto)
  show ?thesis
  proof (cases "event_match ?es evs opt")
    case None
    then show ?thesis
      using assms(2,3) ctx ok k' f1
      by (simp add: rt_event_recv_def in_thread_context_def rt_thread_self_def Let_def split: if_splits)
  next
    case (Some g)
    then show ?thesis
      using assms(2,3) ctx ok f1 got [OF Some]
      by (simp add: rt_event_recv_def in_thread_context_def rt_thread_self_def Let_def split: if_splits)
  qed
qed

theorem rt_event_recv_spec_witness:
  "\<exists>k'. rt_event_recv 0 5 6 0 event_kernel = Some (Return RT_EOK, Some 1, k') \<and> event_set (k_event k' 0) = 0"
proof -
  have "may_block 2 event_kernel" by (auto simp: may_block_def event_kernel_simps intro: exI [of _ 1])
  moreover have "event_match (event_set (k_event event_kernel 0)) 5 6 = Some 1"
    by (simp add: event_kernel_simps event_match_def)
  ultimately show ?thesis
    using rt_event_recv_spec [OF event_kernel_live, of 0 5 2 6 0] sample_kernel_types(5)
    by (auto simp: event_kernel_simps)
qed

end
