(* ===== verification/RtList.thy ===== *)
theory RtList
  imports Kernel_State
begin

text \<open>
  The intrusive lists of \<^verbatim>\<open>os/include/rtservice.h\<close> at the level of their pointers: the circular doubly linked
  lists (\<^verbatim>\<open>rt_list_t\<close>) and the singly linked ones (\<^verbatim>\<open>rt_slist_t\<close>). A node is named by its address; a state gives the
  links of all nodes. The operations execute the assignments of the source in their order. The kernel model
  keeps the same lists as sequences; the refinement shows that the pointer operations, applied to the \<^verbatim>\<open>tlist\<close>
  nodes of the threads, act on those sequences as \<open>tlist_remove\<close>, \<open>tlist_insert_before\<close> and
  \<open>tlist_insert_after\<close> do.
\<close>

section \<open>Definitions\<close>

record rt_links =
  l_next :: "nat \<Rightarrow> nat"
  l_prev :: "nat \<Rightarrow> nat"

definition set_next :: "nat \<Rightarrow> nat \<Rightarrow> rt_links \<Rightarrow> rt_links" where
  "set_next a b s = s\<lparr>l_next := (l_next s)(a := b)\<rparr>"

definition set_prev :: "nat \<Rightarrow> nat \<Rightarrow> rt_links \<Rightarrow> rt_links" where
  "set_prev a b s = s\<lparr>l_prev := (l_prev s)(a := b)\<rparr>"

definition rt_list_init :: "nat \<Rightarrow> rt_links \<Rightarrow> rt_links" where
  "rt_list_init l s = set_next l l (set_prev l l s)"

definition rt_list_insert_after :: "nat \<Rightarrow> nat \<Rightarrow> rt_links \<Rightarrow> rt_links" where
  "rt_list_insert_after l n s =
     (let s1 = set_prev (l_next s l) n s;
          s2 = set_next n (l_next s1 l) s1;
          s3 = set_next l n s2 in
      set_prev n l s3)"

definition rt_list_insert_before :: "nat \<Rightarrow> nat \<Rightarrow> rt_links \<Rightarrow> rt_links" where
  "rt_list_insert_before l n s =
     (let s1 = set_next (l_prev s l) n s;
          s2 = set_prev n (l_prev s1 l) s1;
          s3 = set_prev l n s2 in
      set_next n l s3)"

definition rt_list_remove :: "nat \<Rightarrow> rt_links \<Rightarrow> rt_links" where
  "rt_list_remove n s =
     (let s1 = set_prev (l_next s n) (l_prev s n) s;
          s2 = set_next (l_prev s1 n) (l_next s1 n) s1 in
      set_next n n (set_prev n n s2))"

definition rt_list_isempty :: "nat \<Rightarrow> rt_links \<Rightarrow> bool" where
  "rt_list_isempty l s \<longleftrightarrow> l_next s l = l"

text \<open>The loop of \<^verbatim>\<open>rt_list_len\<close> with its cursor and counter; it does not end on a list that never comes back to \<open>l\<close>.\<close>

partial_function (option) list_len_loop :: "rt_links \<Rightarrow> nat \<Rightarrow> nat \<Rightarrow> nat \<Rightarrow> nat option" where
  "list_len_loop s l p len =
     (if l_next s p \<noteq> l then list_len_loop s l (l_next s p) (len + 1) else Some len)"

definition rt_list_len :: "nat \<Rightarrow> rt_links \<Rightarrow> nat option" where
  "rt_list_len l s = list_len_loop s l l 0"

text \<open>The singly linked lists: a null-terminated \<^verbatim>\<open>next\<close> link per node.\<close>

type_synonym rt_slinks = "nat \<Rightarrow> nat option"

definition rt_slist_init :: "nat \<Rightarrow> rt_slinks \<Rightarrow> rt_slinks" where
  "rt_slist_init l s = s(l := None)"

partial_function (option) rt_slist_tail :: "rt_slinks \<Rightarrow> nat \<Rightarrow> nat option" where
  "rt_slist_tail s l = (case s l of Some m \<Rightarrow> rt_slist_tail s m | None \<Rightarrow> Some l)"

definition rt_slist_append :: "nat \<Rightarrow> nat \<Rightarrow> rt_slinks \<Rightarrow> rt_slinks option" where
  "rt_slist_append l n s = do {
     node \<leftarrow> rt_slist_tail s l;
     let s1 = s(node := Some n);
     Some (s1(n := None))
   }"

definition rt_slist_insert :: "nat \<Rightarrow> nat \<Rightarrow> rt_slinks \<Rightarrow> rt_slinks" where
  "rt_slist_insert l n s = (let s1 = s(n := s l) in s1(l := Some n))"

partial_function (option) slist_len_loop :: "rt_slinks \<Rightarrow> nat option \<Rightarrow> nat \<Rightarrow> nat option" where
  "slist_len_loop s p len = (case p of Some m \<Rightarrow> slist_len_loop s (s m) (len + 1) | None \<Rightarrow> Some len)"

definition rt_slist_len :: "nat \<Rightarrow> rt_slinks \<Rightarrow> nat option" where
  "rt_slist_len l s = slist_len_loop s (s l) 0"

partial_function (option) slist_find_prev :: "rt_slinks \<Rightarrow> nat \<Rightarrow> nat \<Rightarrow> nat option" where
  "slist_find_prev s n node =
     (case s node of Some m \<Rightarrow> if m \<noteq> n then slist_find_prev s n m else Some node | None \<Rightarrow> Some node)"

definition rt_slist_remove :: "nat \<Rightarrow> nat \<Rightarrow> rt_slinks \<Rightarrow> rt_slinks option" where
  "rt_slist_remove l n s = do {
     node \<leftarrow> slist_find_prev s n l;
     Some (case s node of Some m \<Rightarrow> s(node := s m) | None \<Rightarrow> s)
   }"

definition rt_slist_first :: "rt_slinks \<Rightarrow> nat \<Rightarrow> nat option" where
  "rt_slist_first s l = s l"

definition rt_slist_next :: "rt_slinks \<Rightarrow> nat \<Rightarrow> nat option" where
  "rt_slist_next s n = s n"

definition rt_slist_isempty :: "rt_slinks \<Rightarrow> nat \<Rightarrow> bool" where
  "rt_slist_isempty s l \<longleftrightarrow> s l = None"

text \<open>What the links say. \<open>linked s a xs b\<close>: from \<open>a\<close> through the nodes \<open>xs\<close> to \<open>b\<close>, in both directions;
  \<open>rt_list s l xs\<close>: the list with head \<open>l\<close> has the nodes \<open>xs\<close>; \<open>rt_slist s l xs\<close>: the same of a single list.\<close>

fun linked :: "rt_links \<Rightarrow> nat \<Rightarrow> nat list \<Rightarrow> nat \<Rightarrow> bool" where
  "linked s a [] b \<longleftrightarrow> l_next s a = b \<and> l_prev s b = a"
| "linked s a (x # xs) b \<longleftrightarrow> l_next s a = x \<and> l_prev s x = a \<and> linked s x xs b"

definition rt_list :: "rt_links \<Rightarrow> nat \<Rightarrow> nat list \<Rightarrow> bool" where
  "rt_list s l xs \<longleftrightarrow> distinct (l # xs) \<and> linked s l xs l"

fun schain :: "rt_slinks \<Rightarrow> nat \<Rightarrow> nat list \<Rightarrow> bool" where
  "schain s a [] \<longleftrightarrow> s a = None"
| "schain s a (x # xs) \<longleftrightarrow> s a = Some x \<and> schain s x xs"

definition rt_slist :: "rt_slinks \<Rightarrow> nat \<Rightarrow> nat list \<Rightarrow> bool" where
  "rt_slist s l xs \<longleftrightarrow> distinct (l # xs) \<and> schain s l xs"

text \<open>The links of the \<^verbatim>\<open>tlist\<close> nodes, at the addresses \<open>node t\<close>, and of the list heads, at \<open>head h\<close>, represent the
  lists \<open>L\<close>: every list is well linked, a thread is in one list at most, and one that is in no list is linked to
  itself.\<close>

definition addresses_ok :: "(tid \<Rightarrow> nat) \<Rightarrow> (thead \<Rightarrow> nat) \<Rightarrow> bool" where
  "addresses_ok node head \<longleftrightarrow> inj node \<and> inj head \<and> range node \<inter> range head = {}"

definition tlists_rep :: "(tid \<Rightarrow> nat) \<Rightarrow> (thead \<Rightarrow> nat) \<Rightarrow> rt_links \<Rightarrow> (thead \<Rightarrow> tid list) \<Rightarrow> bool" where
  "tlists_rep node head s L \<longleftrightarrow>
     (\<forall>h. rt_list s (head h) (map node (L h))) \<and> (\<forall>h h' t. t \<in> set (L h) \<longrightarrow> t \<in> set (L h') \<longrightarrow> h = h')
     \<and> (\<forall>t. (\<forall>h. t \<notin> set (L h)) \<longrightarrow> rt_list s (node t) [])"

text \<open>Addresses and links for the sample system.\<close>

definition sample_node :: "tid \<Rightarrow> nat" where
  "sample_node t = 2 * t + 1"

definition head_no :: "thead \<Rightarrow> nat \<times> nat" where
  "head_no h = (case h of Ready n \<Rightarrow> (n, 0) | Defunct \<Rightarrow> (0, 1) | Sem_q n \<Rightarrow> (n, 2) | Mutex_q n \<Rightarrow> (n, 3)
     | Event_q n \<Rightarrow> (n, 4) | Mb_q n \<Rightarrow> (n, 5) | Mb_send_q n \<Rightarrow> (n, 6) | Mq_q n \<Rightarrow> (n, 7) | Mq_send_q n \<Rightarrow> (n, 8) | Mp_q n \<Rightarrow> (n, 9)
     | Dq_push_q n \<Rightarrow> (n, 10) | Dq_pop_q n \<Rightarrow> (n, 11) | Comp_q n \<Rightarrow> (n, 12))"

definition sample_head :: "thead \<Rightarrow> nat" where
  "sample_head h = 2 * (20 * fst (head_no h) + snd (head_no h))"

definition sample_links :: rt_links where
  "sample_links = \<lparr>l_next = (\<lambda>x. x)(200 := 3, 3 := 200, 120 := 5, 5 := 120, 404 := 7, 7 := 404),
     l_prev = (\<lambda>x. x)(200 := 3, 3 := 200, 120 := 5, 5 := 120, 404 := 7, 7 := 404)\<rparr>"

section \<open>Reading back the links\<close>

lemma set_link_simps [simp]:
  "l_next (set_next a b s) = (l_next s)(a := b)" "l_prev (set_next a b s) = l_prev s"
  "l_prev (set_prev a b s) = (l_prev s)(a := b)" "l_next (set_prev a b s) = l_next s"
  by (simp_all add: set_next_def set_prev_def)

lemma insert_after_links:
  "l_next (rt_list_insert_after l n s) = (l_next s)(n := l_next s l, l := n)"
  "l_prev (rt_list_insert_after l n s) = (l_prev s)(l_next s l := n, n := l)"
  by (simp_all add: rt_list_insert_after_def Let_def)

lemma insert_before_links:
  "l_prev s l \<noteq> n \<Longrightarrow> l_next (rt_list_insert_before l n s) = (l_next s)(l_prev s l := n, n := l)"
  "l_prev (rt_list_insert_before l n s) = (l_prev s)(n := l_prev s l, l := n)"
  by (simp_all add: rt_list_insert_before_def Let_def)

lemma linked_append: "linked s a (xs @ y # ys) b \<longleftrightarrow> linked s a xs y \<and> linked s y ys b"
  by (induction xs arbitrary: a) auto

lemma linked_cong:
  "linked s a xs b \<Longrightarrow> (\<And>x. x \<in> set (a # xs) \<Longrightarrow> l_next s' x = l_next s x) \<Longrightarrow> (\<And>x. x \<in> set (xs @ [b]) \<Longrightarrow> l_prev s' x = l_prev s x)
   \<Longrightarrow> linked s' a xs b"
  by (induction xs arbitrary: a) auto

lemma linked_ends:
  "linked s a xs b \<Longrightarrow> l_next s a = hd (xs @ [b]) \<and> l_prev s b = last (a # xs)"
  by (induction xs arbitrary: a) auto

lemma rt_list_cong:
  assumes "rt_list s l xs" "\<And>x. x \<in> set (l # xs) \<Longrightarrow> l_next s' x = l_next s x \<and> l_prev s' x = l_prev s x"
  shows "rt_list s' l xs"
  using assms linked_cong [of s l xs l s'] by (auto simp: rt_list_def)

lemma rt_list_nil [simp]: "rt_list s l [] \<longleftrightarrow> l_next s l = l \<and> l_prev s l = l"
  by (auto simp: rt_list_def)

section \<open>Insertion and removal\<close>

lemma linked_next_last: "linked s a (xs @ ys) b \<Longrightarrow> l_next s (last (a # xs)) = hd (ys @ [b]) \<and> l_prev s (hd (ys @ [b])) = last (a # xs)"
proof (induction xs arbitrary: a)
  case Nil
  then show ?case by (cases ys) auto
qed auto

lemma linked_insert_after:
  "linked s a (xs @ ys) b \<Longrightarrow> distinct (a # xs @ ys) \<Longrightarrow> b \<notin> set (xs @ ys) \<Longrightarrow> n \<notin> set (a # b # xs @ ys)
   \<Longrightarrow> linked (rt_list_insert_after (last (a # xs)) n s) a (xs @ n # ys) b"
proof (induction xs arbitrary: a)
  case Nil
  show ?case
  proof (cases ys)
    case Nil
    then show ?thesis using \<open>linked s a ([] @ ys) b\<close> Nil.prems by (auto simp: insert_after_links)
  next
    case (Cons y zs)
    have "linked (rt_list_insert_after a n s) y zs b"
      by (rule linked_cong [of s]) (use Nil.prems Cons in \<open>auto simp: insert_after_links\<close>)
    then show ?thesis using Nil.prems Cons by (auto simp: insert_after_links)
  qed
next
  case (Cons x xs)
  have "linked s x (xs @ ys) b" using Cons.prems by simp
  note ne = linked_next_last [OF this]
  have "x \<noteq> hd (ys @ [b])" using Cons.prems(2,3) by (cases ys) auto
  moreover have "last (x # xs) \<in> set (x # xs)" by (rule last_in_set) simp
  then have "a \<noteq> last (x # xs)" using Cons.prems(2) by auto
  ultimately show ?case using Cons ne by (auto simp: insert_after_links)
qed

lemma rt_list_insert_after_refines:
  assumes "rt_list s l (xs @ ys)" "n \<notin> set (l # xs @ ys)"
  shows "rt_list (rt_list_insert_after (last (l # xs)) n s) l (xs @ n # ys)"
  using assms linked_insert_after [of s l xs ys l n] by (auto simp: rt_list_def)

text \<open>Insertion before a node is insertion after its predecessor.\<close>

lemma insert_before_after:
  "l_next s (l_prev s q) = q \<Longrightarrow> n \<noteq> q \<Longrightarrow> n \<noteq> l_prev s q \<Longrightarrow> rt_list_insert_before q n s = rt_list_insert_after (l_prev s q) n s"
  by (rule rt_links.equality) (auto simp: insert_after_links insert_before_links)

lemma rt_list_insert_before_refines:
  assumes "rt_list s l (xs @ ys)" "n \<notin> set (l # xs @ ys)"
  shows "rt_list (rt_list_insert_before (hd (ys @ [l])) n s) l (xs @ n # ys)"
proof -
  have ne: "l_next s (last (l # xs)) = hd (ys @ [l])" "l_prev s (hd (ys @ [l])) = last (l # xs)"
    using linked_next_last [of s l xs ys l] assms(1) by (auto simp: rt_list_def)
  have "hd (ys @ [l]) \<in> set (l # ys)" by (cases ys) auto
  moreover have "last (l # xs) \<in> set (l # xs)" by (rule last_in_set) simp
  moreover have "n \<notin> set (l # ys)" "n \<notin> set (l # xs)" using assms(2) by auto
  ultimately have "n \<noteq> hd (ys @ [l])" "n \<noteq> last (l # xs)" by metis+
  then have "rt_list_insert_before (hd (ys @ [l])) n s = rt_list_insert_after (last (l # xs)) n s"
    using insert_before_after [of s "hd (ys @ [l])" n] ne by simp
  then show ?thesis using rt_list_insert_after_refines [OF assms] by simp
qed

lemma remove_links:
  "l_prev s n \<noteq> n \<Longrightarrow> l_next s n \<noteq> n \<Longrightarrow> l_next (rt_list_remove n s) = (l_next s)(l_prev s n := l_next s n, n := n)"
  "l_prev s n \<noteq> n \<Longrightarrow> l_next s n \<noteq> n \<Longrightarrow> l_prev (rt_list_remove n s) = (l_prev s)(l_next s n := l_prev s n, n := n)"
  by (simp_all add: rt_list_remove_def Let_def)

lemma remove_self: "l_prev s n = n \<Longrightarrow> l_next s n = n \<Longrightarrow> rt_list_remove n s = s"
  by (rule rt_links.equality) (auto simp: rt_list_remove_def Let_def)

lemma linked_remove:
  "linked s a (xs @ n # ys) b \<Longrightarrow> distinct (a # xs @ n # ys) \<Longrightarrow> b \<notin> set (xs @ n # ys)
   \<Longrightarrow> linked (rt_list_remove n s) a (xs @ ys) b"
proof (induction xs arbitrary: a)
  case Nil
  have nn: "l_prev s n = a" "l_next s n = hd (ys @ [b])" using Nil.prems linked_ends [of s n ys b] by auto
  have ne: "l_prev s n \<noteq> n" "l_next s n \<noteq> n" using nn Nil.prems by (auto, cases ys, auto)
  show ?case
  proof (cases ys)
    case Nil
    then show ?thesis using \<open>linked s a ([] @ n # ys) b\<close> ne nn by (auto simp: remove_links)
  next
    case (Cons y zs)
    have "linked (rt_list_remove n s) y zs b"
      by (rule linked_cong [of s]) (use Nil.prems Cons ne nn in \<open>auto simp: remove_links\<close>)
    then show ?thesis using Nil.prems Cons ne nn by (auto simp: remove_links)
  qed
next
  case (Cons x xs)
  have l: "linked s x (xs @ n # ys) b" using Cons.prems by simp
  have p: "l_prev s n = last (x # xs)" using linked_next_last [OF l] by simp
  have q: "l_next s n = hd (ys @ [b])" using l linked_ends [of s n ys b] by (simp add: linked_append)
  have m: "last (x # xs) \<in> set (x # xs)" "hd (ys @ [b]) \<in> set (b # ys)" by (rule last_in_set, simp) (cases ys; simp)
  have ne: "l_prev s n \<noteq> n" "l_next s n \<noteq> n" "a \<noteq> l_prev s n" "x \<noteq> l_next s n" "a \<noteq> n" "x \<noteq> n"
    using m p q Cons.prems(2,3) by auto
  have "linked (rt_list_remove n s) x (xs @ ys) b" using Cons l by auto
  then show ?case using Cons.prems(1) ne by (auto simp: remove_links)
qed

lemma rt_list_remove_refines:
  assumes "rt_list s l (xs @ n # ys)"
  shows "rt_list (rt_list_remove n s) l (xs @ ys)" "rt_list (rt_list_remove n s) n []"
proof -
  show "rt_list (rt_list_remove n s) l (xs @ ys)" using assms linked_remove [of s l xs n ys l] by (auto simp: rt_list_def)
  show "rt_list (rt_list_remove n s) n []" by (simp add: rt_list_remove_def Let_def)
qed

text \<open>Nodes that are not touched.\<close>

lemma links_outside:
  assumes "rt_list s l (xs @ ys)" "m \<notin> set (l # n # xs @ ys)"
  shows "l_next (rt_list_insert_after (last (l # xs)) n s) m = l_next s m" "l_prev (rt_list_insert_after (last (l # xs)) n s) m = l_prev s m"
proof -
  have "l_next s (last (l # xs)) = hd (ys @ [l])" using linked_next_last [of s l xs ys l] assms(1) by (auto simp: rt_list_def)
  moreover have "hd (ys @ [l]) \<in> set (l # ys)" "last (l # xs) \<in> set (l # xs)" by (cases ys; simp) (rule last_in_set, simp)
  ultimately show "l_next (rt_list_insert_after (last (l # xs)) n s) m = l_next s m" "l_prev (rt_list_insert_after (last (l # xs)) n s) m = l_prev s m"
    using assms(2) by (auto simp: insert_after_links)
qed

lemma remove_outside:
  assumes "rt_list s l (xs @ n # ys)" "m \<notin> set (l # xs @ n # ys)"
  shows "l_next (rt_list_remove n s) m = l_next s m" "l_prev (rt_list_remove n s) m = l_prev s m"
proof -
  have "l_next s n = hd (ys @ [l])" "l_prev s n = last (l # xs)"
    using linked_next_last [of s l xs "n # ys" l] linked_ends [of s n ys l] assms(1) by (auto simp: rt_list_def linked_append)
  moreover have "hd (ys @ [l]) \<in> set (l # ys)" "last (l # xs) \<in> set (l # xs)" by (cases ys; simp) (rule last_in_set, simp)
  ultimately show "l_next (rt_list_remove n s) m = l_next s m" "l_prev (rt_list_remove n s) m = l_prev s m"
    using assms(2) by (auto simp: rt_list_remove_def Let_def)
qed

section \<open>Length\<close>

lemma list_len_loop_linked:
  "linked s p xs l \<Longrightarrow> l \<notin> set xs \<Longrightarrow> list_len_loop s l p n = Some (n + length xs)"
proof (induction xs arbitrary: p n)
  case Nil
  then show ?case by (subst list_len_loop.simps) simp
next
  case (Cons x xs)
  then show ?case using Cons.IH [of x "n + 1"] by (subst list_len_loop.simps) auto
qed

lemma rt_list_len_refines: "rt_list s l xs \<Longrightarrow> rt_list_len l s = Some (length xs)"
  using list_len_loop_linked [of s l xs l 0] by (auto simp: rt_list_def rt_list_len_def)

lemma rt_list_isempty_refines: "rt_list s l xs \<Longrightarrow> rt_list_isempty l s \<longleftrightarrow> xs = []"
  by (cases xs) (auto simp: rt_list_def rt_list_isempty_def)

section \<open>Single lists\<close>

lemma schain_cong: "schain s a xs \<Longrightarrow> (\<And>x. x \<in> set (a # xs) \<Longrightarrow> s' x = s x) \<Longrightarrow> schain s' a xs"
  by (induction xs arbitrary: a) auto

lemma slist_tail_chain: "schain s a xs \<Longrightarrow> rt_slist_tail s a = Some (last (a # xs))"
proof (induction xs arbitrary: a)
  case Nil
  then show ?case by (subst rt_slist_tail.simps) simp
next
  case (Cons x xs)
  then show ?case using Cons.IH [of x] by (subst rt_slist_tail.simps) simp
qed

lemma slist_len_chain: "schain s a xs \<Longrightarrow> slist_len_loop s (s a) n = Some (n + length xs)"
proof (induction xs arbitrary: a n)
  case Nil
  then show ?case by (subst slist_len_loop.simps) simp
next
  case (Cons x xs)
  then show ?case using Cons.IH [of x "n + 1"] by (subst slist_len_loop.simps) simp
qed

lemma schain_append:
  "schain s a xs \<Longrightarrow> distinct (a # xs) \<Longrightarrow> n \<notin> set (a # xs) \<Longrightarrow> schain (s(last (a # xs) := Some n, n := None)) a (xs @ [n])"
proof (induction xs arbitrary: a)
  case (Cons x xs)
  have "last (x # xs) \<in> set (x # xs)" by (rule last_in_set) simp
  then have "a \<noteq> last (x # xs)" using Cons.prems(2) by auto
  then show ?case using Cons by simp
qed simp

lemma slist_find_chain:
  "schain s a (xs @ n # ys) \<Longrightarrow> n \<notin> set xs \<Longrightarrow> slist_find_prev s n a = Some (last (a # xs))"
proof (induction xs arbitrary: a)
  case Nil
  then show ?case by (subst slist_find_prev.simps) simp
next
  case (Cons x xs)
  then show ?case using Cons.IH [of x] by (subst slist_find_prev.simps) simp
qed

lemma schain_split: "schain s a (xs @ n # ys) \<Longrightarrow> s (last (a # xs)) = Some n \<and> schain s n ys"
  by (induction xs arbitrary: a) auto

lemma schain_remove:
  "schain s a (xs @ n # ys) \<Longrightarrow> distinct (a # xs @ n # ys) \<Longrightarrow> schain (s(last (a # xs) := s n)) a (xs @ ys)"
proof (induction xs arbitrary: a)
  case Nil
  show ?case
  proof (cases ys)
    case (Cons y zs)
    have sn: "s n = Some y" using Nil.prems Cons by simp
    have "schain (s(a := Some y)) y zs" by (rule schain_cong [of s]) (use Nil.prems Cons in auto)
    then show ?thesis using sn by (simp add: Cons fun_upd_def)
  qed (use Nil.prems in simp)
next
  case (Cons x xs)
  have "last (x # xs) \<in> set (x # xs)" by (rule last_in_set) simp
  then have "a \<noteq> last (x # xs)" using Cons.prems(2) by auto
  then show ?case using Cons by simp
qed

lemma rt_slist_refines:
  assumes "rt_slist s l xs"
  shows "rt_slist_len l s = Some (length xs)" "rt_slist_tail s l = Some (last (l # xs))" "rt_slist_isempty s l \<longleftrightarrow> xs = []"
    and "n \<notin> set (l # xs) \<Longrightarrow> \<exists>s'. rt_slist_append l n s = Some s' \<and> rt_slist s' l (xs @ [n])"
    and "n \<notin> set (l # xs) \<Longrightarrow> rt_slist (rt_slist_insert l n s) l (n # xs)"
    and "xs = us @ n # vs \<Longrightarrow> \<exists>s'. rt_slist_remove l n s = Some s' \<and> rt_slist s' l (us @ vs)"
proof -
  have c: "schain s l xs" and d: "distinct (l # xs)" using assms by (auto simp: rt_slist_def)
  show "rt_slist_len l s = Some (length xs)" using slist_len_chain [OF c] by (simp add: rt_slist_len_def)
  show t: "rt_slist_tail s l = Some (last (l # xs))" by (rule slist_tail_chain [OF c])
  show "rt_slist_isempty s l \<longleftrightarrow> xs = []" using c by (cases xs) (auto simp: rt_slist_isempty_def)
  show "\<exists>s'. rt_slist_append l n s = Some s' \<and> rt_slist s' l (xs @ [n])" if "n \<notin> set (l # xs)"
    using schain_append [OF c d that] t that d by (auto simp: rt_slist_append_def rt_slist_def Let_def)
  show "rt_slist (rt_slist_insert l n s) l (n # xs)" if "n \<notin> set (l # xs)"
  proof (cases xs)
    case Nil
    then show ?thesis using that c by (auto simp: rt_slist_insert_def rt_slist_def Let_def)
  next
    case (Cons y zs)
    have "schain (s(n := s l, l := Some n)) y zs" by (rule schain_cong [of s]) (use c d that Cons in auto)
    then show ?thesis using that c d Cons by (auto simp: rt_slist_insert_def rt_slist_def Let_def)
  qed
  show "\<exists>s'. rt_slist_remove l n s = Some s' \<and> rt_slist s' l (us @ vs)" if "xs = us @ n # vs"
    using slist_find_chain [of s l us n vs] schain_split [of s l us n vs] schain_remove [of s l us n vs] c d
    by (auto simp: that rt_slist_remove_def rt_slist_def)
qed

section \<open>The lists of the kernel\<close>

lemma addresses_okD:
  assumes "addresses_ok node head"
  shows "node a = node b \<longleftrightarrow> a = b" "head h = head h' \<longleftrightarrow> h = h'" "node a \<noteq> head h" "head h \<noteq> node a"
  using assms unfolding addresses_ok_def inj_def by blast+

lemma filter_absent: "t \<notin> set xs \<Longrightarrow> filter (\<lambda>x. x \<noteq> t) xs = xs"
  by (induction xs) auto

lemma tlists_disjoint:
  assumes "addresses_ok node head" "tlists_rep node head s L" "h \<noteq> h'"
  shows "set (head h # map node (L h)) \<inter> set (head h' # map node (L h')) = {}"
proof -
  note inj = addresses_okD [OF assms(1)]
  have "set (L h) \<inter> set (L h') = {}" using assms(2,3) by (auto simp: tlists_rep_def)
  then show ?thesis using assms(3) inj by auto
qed

text \<open>A change of the links that only concerns the list \<open>h\<close> and the thread \<open>t\<close>.\<close>

lemma tlists_update:
  assumes "addresses_ok node head" "tlists_rep node head s L" "\<forall>h'. h' \<noteq> h \<longrightarrow> t \<notin> set (L h')"
    and out: "\<And>m. m \<notin> set (head h # node t # map node (L h)) \<Longrightarrow> l_next s' m = l_next s m \<and> l_prev s' m = l_prev s m"
    and new: "rt_list s' (head h) (map node xs)" "set xs - {t} = set (L h) - {t}" "t \<notin> set xs \<Longrightarrow> rt_list s' (node t) []"
  shows "tlists_rep node head s' (L(h := xs))"
proof -
  have rep: "\<And>h. rt_list s (head h) (map node (L h))" "\<And>h h' t. t \<in> set (L h) \<Longrightarrow> t \<in> set (L h') \<Longrightarrow> h = h'"
    "\<And>t. \<forall>h. t \<notin> set (L h) \<Longrightarrow> rt_list s (node t) []" using assms(2) by (auto simp: tlists_rep_def)
  note inj = addresses_okD [OF assms(1)]
  have other: "rt_list s' (head h') (map node (L h'))" if "h' \<noteq> h" for h'
  proof (rule rt_list_cong [OF rep(1)])
    fix m assume m: "m \<in> set (head h' # map node (L h'))"
    have "m \<notin> set (head h # map node (L h))" using m tlists_disjoint [OF assms(1,2) that] by blast
    moreover have "m \<noteq> node t" using m assms(3) that inj by auto
    ultimately show "l_next s' m = l_next s m \<and> l_prev s' m = l_prev s m" using out by simp
  qed
  have free: "rt_list s' (node u) []" if u: "\<forall>h'. u \<notin> set ((L(h := xs)) h')" for u
  proof (cases "u = t")
    case False
    have "u \<notin> set xs" using u [rule_format, of h] by simp
    then have "u \<notin> set (L h)" using new(2) False by blast
    then have "\<forall>h'. u \<notin> set (L h')" using u by (metis fun_upd_apply)
    moreover from this have "node u \<notin> set (head h # node t # map node (L h))" using False inj by auto
    ultimately show ?thesis using rep(3) [of u] out [of "node u"] by simp
  next
    case True
    then show ?thesis using new(3) u [rule_format, of h] by simp
  qed
  have uniq: "h1 = h2" if "u \<in> set ((L(h := xs)) h1)" "u \<in> set ((L(h := xs)) h2)" for u h1 h2
  proof -
    have L: "u \<in> set (L h')" if "u \<in> set ((L(h := xs)) h')" "u \<noteq> t" for h'
      using that new(2) by (cases "h' = h") auto
    show ?thesis
    proof (cases "u = t")
      case True
      then show ?thesis using that assms(3) by (cases "h1 = h"; cases "h2 = h") auto
    next
      case False
      then show ?thesis using rep(2) L [OF that(1)] L [OF that(2)] by blast
    qed
  qed
  have all: "rt_list s' (head h') (map node ((L(h := xs)) h'))" for h'
    using other [of h'] new(1) by (cases "h' = h") simp_all
  show ?thesis unfolding tlists_rep_def
  proof (intro conjI allI impI)
    fix h' show "rt_list s' (head h') (map node ((L(h := xs)) h'))" by (rule all)
  next
    fix h1 h2 u assume "u \<in> set ((L(h := xs)) h1)" "u \<in> set ((L(h := xs)) h2)"
    then show "h1 = h2" by (rule uniq)
  next
    fix u assume "\<forall>h'. u \<notin> set ((L(h := xs)) h')"
    then show "rt_list s' (node u) []" by (rule free)
  qed
qed

lemma tlists_insert:
  assumes ad: "addresses_ok node head" and rep: "tlists_rep node head s L" and t: "\<forall>h'. t \<notin> set (L h')" and L: "L h = xs @ ys"
  shows "tlists_rep node head (rt_list_insert_after (last (head h # map node xs)) (node t) s) (L(h := xs @ t # ys))"
    and "tlists_rep node head (rt_list_insert_before (hd (map node ys @ [head h])) (node t) s) (L(h := xs @ t # ys))"
proof -
  have rl: "rt_list s (head h) (map node xs @ map node ys)" using rep [unfolded tlists_rep_def, THEN conjunct1, rule_format, of h] by (simp add: L)
  have n: "node t \<notin> set (head h # map node xs @ map node ys)" using addresses_okD [OF ad] t [rule_format, of h] L by auto
  let ?s = "rt_list_insert_after (last (head h # map node xs)) (node t) s"
  show g: "tlists_rep node head ?s (L(h := xs @ t # ys))"
  proof (rule tlists_update [OF ad rep])
    show "\<forall>h'. h' \<noteq> h \<longrightarrow> t \<notin> set (L h')" using t by blast
    show "l_next ?s m = l_next s m \<and> l_prev ?s m = l_prev s m" if "m \<notin> set (head h # node t # map node (L h))" for m
      using links_outside [OF rl, of m "node t"] that by (simp add: L)
    show "rt_list ?s (head h) (map node (xs @ t # ys))" using rt_list_insert_after_refines [OF rl n] by simp
  qed (use L t in auto)
  have ne: "l_next s (last (head h # map node xs)) = hd (map node ys @ [head h])" "l_prev s (hd (map node ys @ [head h])) = last (head h # map node xs)"
    using linked_next_last [of s "head h" "map node xs" "map node ys" "head h"] rl by (auto simp: rt_list_def)
  have "hd (map node ys @ [head h]) \<in> set (head h # map node ys)" by (cases ys) auto
  moreover have "last (head h # map node xs) \<in> set (head h # map node xs)" by (rule last_in_set) simp
  moreover have "node t \<notin> set (head h # map node ys)" "node t \<notin> set (head h # map node xs)" using n by auto
  ultimately have "node t \<noteq> hd (map node ys @ [head h])" "node t \<noteq> last (head h # map node xs)" by metis+
  then have "rt_list_insert_before (hd (map node ys @ [head h])) (node t) s = ?s"
    using insert_before_after [of s "hd (map node ys @ [head h])" "node t"] ne by simp
  then show "tlists_rep node head (rt_list_insert_before (hd (map node ys @ [head h])) (node t) s) (L(h := xs @ t # ys))" using g by simp
qed

lemma tlists_remove:
  assumes ad: "addresses_ok node head" and rep: "tlists_rep node head s L"
  shows "tlists_rep node head (rt_list_remove (node t) s) (\<lambda>h. filter (\<lambda>x. x \<noteq> t) (L h))"
proof (cases "\<forall>h. t \<notin> set (L h)")
  case True
  then have "rt_list s (node t) []" using rep by (auto simp: tlists_rep_def)
  moreover have "filter (\<lambda>x. x \<noteq> t) (L h) = L h" for h using filter_absent [of t "L h"] True by simp
  ultimately show ?thesis using rep remove_self by simp
next
  case False
  then obtain h xs ys where L: "L h = xs @ t # ys" by (metis split_list)
  have rl: "rt_list s (head h) (map node xs @ node t # map node ys)" using rep [unfolded tlists_rep_def, THEN conjunct1, rule_format, of h] by (simp add: L)
  then have nd: "distinct (xs @ t # ys)" using L by (auto simp: rt_list_def distinct_map)
  have u: "\<forall>h'. h' \<noteq> h \<longrightarrow> t \<notin> set (L h')" using rep L by (auto simp: tlists_rep_def)
  have eq: "(\<lambda>h. filter (\<lambda>x. x \<noteq> t) (L h)) = L(h := xs @ ys)"
  proof
    fix h'
    show "filter (\<lambda>x. x \<noteq> t) (L h') = (L(h := xs @ ys)) h'" using u nd L by (cases "h' = h") (auto simp: filter_absent)
  qed
  show ?thesis unfolding eq
  proof (rule tlists_update [OF ad rep u])
    show "l_next (rt_list_remove (node t) s) m = l_next s m \<and> l_prev (rt_list_remove (node t) s) m = l_prev s m"
      if "m \<notin> set (head h # node t # map node (L h))" for m using remove_outside [OF rl, of m] that by (simp add: L)
    show "rt_list (rt_list_remove (node t) s) (head h) (map node (xs @ ys))" "rt_list (rt_list_remove (node t) s) (node t) []"
      using rt_list_remove_refines [OF rl] by simp_all
  qed (use L nd in auto)
qed

section \<open>Properties\<close>

lemma tlist_links:
  "k_list (tlist_remove t k) = (\<lambda>h. filter (\<lambda>x. x \<noteq> t) (k_list k h))"
  by (simp add: tlist_remove_def)

text \<open>
  C26. The sequences of the kernel model are what the pointers say. When the \<^verbatim>\<open>next\<close> and \<^verbatim>\<open>prev\<close> links of the list heads
  and of the \<^verbatim>\<open>tlist\<close> nodes represent the lists of a kernel state, the assignments of \<^verbatim>\<open>rt_list_remove\<close> represent
  the removal of the thread from whatever list holds it; for a thread in no list, \<^verbatim>\<open>rt_list_insert_before\<close> and
  \<^verbatim>\<open>rt_list_insert_after\<close> on a head represent appending and prepending, and insertion before the node of a listed
  thread puts the new one in front of it; \<^verbatim>\<open>rt_list_len\<close> ends and returns the length, \<^verbatim>\<open>rt_list_isempty\<close> tests
  for the empty sequence.
\<close>

theorem rt_list_refines_sequences:
  assumes ad: "addresses_ok node head" and rep: "tlists_rep node head s (k_list k)"
  shows "tlists_rep node head (rt_list_remove (node t) s) (k_list (tlist_remove t k))
    \<and> rt_list_len (head h) s = Some (length (k_list k h)) \<and> (rt_list_isempty (head h) s \<longleftrightarrow> k_list k h = [])
    \<and> ((\<forall>h'. t \<notin> set (k_list k h')) \<longrightarrow>
         tlists_rep node head (rt_list_insert_before (head h) (node t) s) (k_list (tlist_insert_before h t k))
         \<and> tlists_rep node head (rt_list_insert_after (head h) (node t) s) (k_list (tlist_insert_after h t k))
         \<and> (\<forall>xs x ys. k_list k h = xs @ x # ys \<longrightarrow>
              tlists_rep node head (rt_list_insert_before (node x) (node t) s) ((k_list k)(h := xs @ t # x # ys))))"
proof (intro conjI impI allI)
  show "tlists_rep node head (rt_list_remove (node t) s) (k_list (tlist_remove t k))"
    unfolding tlist_links by (rule tlists_remove [OF ad rep])
  have rl: "rt_list s (head h) (map node (k_list k h))" using rep by (simp add: tlists_rep_def)
  show "rt_list_len (head h) s = Some (length (k_list k h))" "rt_list_isempty (head h) s \<longleftrightarrow> k_list k h = []"
    using rt_list_len_refines [OF rl] rt_list_isempty_refines [OF rl] by simp_all
  assume t: "\<forall>h'. t \<notin> set (k_list k h')"
  show "tlists_rep node head (rt_list_insert_before (head h) (node t) s) (k_list (tlist_insert_before h t k))"
    using tlists_insert(2) [OF ad rep t, of h "k_list k h" "[]"] by simp
  show "tlists_rep node head (rt_list_insert_after (head h) (node t) s) (k_list (tlist_insert_after h t k))"
    using tlists_insert(1) [OF ad rep t, of h "[]" "k_list k h"] by simp
  show "tlists_rep node head (rt_list_insert_before (node x) (node t) s) ((k_list k)(h := xs @ t # x # ys))"
    if "k_list k h = xs @ x # ys" for xs x ys using tlists_insert(2) [OF ad rep t that] by simp
qed

lemma sample_head_eq: "sample_head h = sample_head h' \<longleftrightarrow> h = h'"
proof
  have tag: "snd (head_no x) < 20" for x by (cases x) (simp_all add: head_no_def)
  assume "sample_head h = sample_head h'"
  then have e: "20 * fst (head_no h) + snd (head_no h) = 20 * fst (head_no h') + snd (head_no h')" by (simp add: sample_head_def)
  have "snd (head_no h) = snd (head_no h')" using arg_cong [OF e, of "\<lambda>x. x mod 20"] tag [of h] tag [of h'] by simp
  moreover have "fst (head_no h) = fst (head_no h')" using e calculation by simp
  ultimately show "h = h'" by (cases h; cases h') (simp_all add: head_no_def)
qed simp

lemma sample_addresses: "addresses_ok sample_node sample_head"
proof -
  have "sample_node t \<noteq> sample_head h" for t h unfolding sample_node_def sample_head_def by presburger
  then show ?thesis unfolding addresses_ok_def inj_def by (auto simp: sample_head_eq) (simp add: sample_node_def)
qed

lemma sample_links_rep: "tlists_rep sample_node sample_head sample_links (k_list sample_kernel)"
proof -
  have hd: "sample_head (Ready 5) = 200" "sample_head (Ready 3) = 120" "sample_head (Sem_q 10) = 404"
    by (simp_all add: sample_head_def head_no_def)
  have no: "sample_head h \<noteq> 200 \<and> sample_head h \<noteq> 120 \<and> sample_head h \<noteq> 404" if "h \<noteq> Ready 5" "h \<noteq> Ready 3" "h \<noteq> Sem_q 10" for h
    using sample_head_eq [of h] that hd by metis
  have odd: "sample_head h \<noteq> 3 \<and> sample_head h \<noteq> 5 \<and> sample_head h \<noteq> 7" for h unfolding sample_head_def by presburger
  have L: "k_list sample_kernel = (\<lambda>_. [])(Ready 5 := [1], Ready 3 := [2], Sem_q 10 := [3])" by (simp add: sample_kernel_def)
  have 1: "rt_list sample_links (sample_head h) (map sample_node (k_list sample_kernel h))" for h
    using no [of h] odd [of h] hd
    by (cases "h = Ready 5"; cases "h = Ready 3"; cases "h = Sem_q 10") (simp_all add: L rt_list_def sample_links_def sample_node_def)
  have 2: "rt_list sample_links (sample_node t) []" if "\<forall>h. t \<notin> set (k_list sample_kernel h)" for t
  proof -
    have "t \<noteq> 1 \<and> t \<noteq> 2 \<and> t \<noteq> 3" using that [rule_format, of "Ready 5"] that [rule_format, of "Ready 3"] that [rule_format, of "Sem_q 10"] by (simp add: L)
    moreover have "sample_node t \<noteq> 200 \<and> sample_node t \<noteq> 120 \<and> sample_node t \<noteq> 404" unfolding sample_node_def by presburger
    ultimately show ?thesis by (auto simp: sample_links_def sample_node_def)
  qed
  show ?thesis unfolding tlists_rep_def using 1 2 by (auto simp: L split: if_splits)
qed

theorem rt_list_refines_sequences_witness:
  "tlists_rep sample_node sample_head (rt_list_remove 7 sample_links) (k_list (tlist_remove 3 sample_kernel))
    \<and> tlists_rep sample_node sample_head (rt_list_insert_before 120 9 sample_links) (k_list (tlist_insert_before (Ready 3) 4 sample_kernel))
    \<and> rt_list_len 120 sample_links = Some 1"
proof -
  have n: "sample_node 3 = 7" "sample_node 4 = 9" "sample_head (Ready 3) = 120" "k_list sample_kernel (Ready 3) = [2]"
    "\<forall>h'. 4 \<notin> set (k_list sample_kernel h')"
    by (simp_all add: sample_node_def sample_head_def head_no_def sample_kernel_def)
  show ?thesis
    using rt_list_refines_sequences [OF sample_addresses sample_links_rep, of 3 "Ready 3"]
      rt_list_refines_sequences [OF sample_addresses sample_links_rep, of 4 "Ready 3"] by (simp add: n del: rt_list_nil)
qed

end
