(* ===== verification/RingBlk.thy ===== *)
theory RingBlk
  imports Heap_Spec
begin

text \<open>
  The ring block buffer of \<^verbatim>\<open>components/drivers/src/ringblk_buf.c\<close>: blocks of different sizes handed out from one
  buffer in the order of allocation. A block is named by its index in \<^verbatim>\<open>blk_set\<close>; \<^verbatim>\<open>blk_list\<close>, a single list whose
  operations \<^verbatim>\<open>RtList\<close> treats, is the sequence of the indices. Addresses are naturals, and the differences of
  addresses wrap as \<^verbatim>\<open>rt_size_t\<close> does. The state is changed with interrupts disabled, so every operation is one step.
\<close>

section \<open>Definitions\<close>

datatype rbb_status = RT_RBB_BLK_UNUSED | RT_RBB_BLK_INITED | RT_RBB_BLK_PUT | RT_RBB_BLK_GET

record rt_rbb_blk =
  blk_status :: rbb_status
  blk_size :: nat
  blk_buf :: nat

record rt_rbb =
  rbb_addr :: nat
  rbb_buf :: nat
  rbb_buf_size :: nat
  rbb_set_addr :: nat
  blk_set :: "rt_rbb_blk list"
  blk_max_num :: nat
  blk_list :: "nat list"

record rt_rbb_blk_queue =
  queue_blocks :: nat
  queue_blk_num :: nat

abbreviation blk :: "rt_rbb \<Rightarrow> nat \<Rightarrow> rt_rbb_blk" where
  "blk rbb i \<equiv> blk_set rbb ! i"

definition blk_upd :: "nat \<Rightarrow> (rt_rbb_blk \<Rightarrow> rt_rbb_blk) \<Rightarrow> rt_rbb \<Rightarrow> rt_rbb" where
  "blk_upd i f rbb = rbb\<lparr>blk_set := (blk_set rbb)[i := f (blk rbb i)]\<rparr>"

text \<open>\<^verbatim>\<open>rt_rbb_init\<close>; \<open>set0\<close> is what the memory of the blocks holds.\<close>

definition rt_rbb_init :: "nat \<Rightarrow> nat \<Rightarrow> nat \<Rightarrow> nat \<Rightarrow> rt_rbb_blk list \<Rightarrow> nat \<Rightarrow> rt_rbb" where
  "rt_rbb_init addr buf buf_size set_addr set0 max_num =
     \<lparr>rbb_addr = addr, rbb_buf = buf, rbb_buf_size = buf_size, rbb_set_addr = set_addr,
      blk_set = map (\<lambda>b. b\<lparr>blk_status := RT_RBB_BLK_UNUSED\<rparr>) set0, blk_max_num = max_num, blk_list = []\<rparr>"

definition rt_rbb_create :: "rt_heap \<Rightarrow> nat \<Rightarrow> nat \<Rightarrow> nat \<Rightarrow> rt_rbb_blk list \<Rightarrow> (rt_rbb option \<times> rt_heap) option" where
  "rt_rbb_create h nest buf_size max_num set0 = do {
     (rbb, h1) \<leftarrow> rt_malloc h nest 20;
     case rbb of
       None \<Rightarrow> Some (None, h1)
     | Some ra \<Rightarrow> do {
         (buf, h2) \<leftarrow> rt_malloc h1 nest buf_size;
         case buf of
           None \<Rightarrow> do { h3 \<leftarrow> rt_free h2 nest (Some ra); Some (None, h3) }
         | Some ba \<Rightarrow> do {
             (set, h3) \<leftarrow> rt_malloc h2 nest ((12 * max_num) mod 2 ^ 32);
             case set of
               None \<Rightarrow> do { h4 \<leftarrow> rt_free h3 nest (Some ba); h5 \<leftarrow> rt_free h4 nest (Some ra); Some (None, h5) }
             | Some sa \<Rightarrow> Some (Some (rt_rbb_init ra ba buf_size sa set0 max_num), h3)
           }
       }
   }"

definition rt_rbb_destroy :: "rt_heap \<Rightarrow> nat \<Rightarrow> rt_rbb \<Rightarrow> rt_heap option" where
  "rt_rbb_destroy h nest rbb = do {
     h1 \<leftarrow> rt_free h nest (Some (rbb_buf rbb));
     h2 \<leftarrow> rt_free h1 nest (Some (rbb_set_addr rbb));
     rt_free h2 nest (Some (rbb_addr rbb))
   }"

definition find_empty_blk_in_set :: "rt_rbb \<Rightarrow> nat option" where
  "find_empty_blk_in_set rbb = List.find (\<lambda>i. blk_status (blk rbb i) = RT_RBB_BLK_UNUSED) [0..<blk_max_num rbb]"

text \<open>Appending the new block with its address and size.\<close>

definition rbb_append :: "nat \<Rightarrow> nat \<Rightarrow> nat \<Rightarrow> rt_rbb \<Rightarrow> rt_rbb" where
  "rbb_append i buf n rbb =
     (blk_upd i (\<lambda>b. b\<lparr>blk_status := RT_RBB_BLK_INITED, blk_buf := buf, blk_size := n\<rparr>) rbb)\<lparr>blk_list := blk_list rbb @ [i]\<rparr>"

definition rt_rbb_blk_alloc :: "rt_rbb \<Rightarrow> nat \<Rightarrow> (nat option \<times> rt_rbb) option" where
  "rt_rbb_blk_alloc rbb n = do {
     rt_assert (n < 2 ^ 24);
     Some (case find_empty_blk_in_set rbb of
       None \<Rightarrow> (None, rbb)
     | Some i \<Rightarrow>
         if length (blk_list rbb) < blk_max_num rbb then
           if length (blk_list rbb) > 0 then
             let head = blk rbb (hd (blk_list rbb)); tail = blk rbb (last (blk_list rbb)) in
             if blk_buf head \<le> blk_buf tail then
               let empty1 = sub32 (rbb_buf rbb + rbb_buf_size rbb) (blk_buf tail + blk_size tail);
                   empty2 = sub32 (blk_buf head) (rbb_buf rbb) in
               if empty1 \<ge> n then (Some i, rbb_append i (blk_buf tail + blk_size tail) n rbb)
               else if empty2 \<ge> n then (Some i, rbb_append i (rbb_buf rbb) n rbb)
               else (None, rbb)
             else
               let empty1 = sub32 (blk_buf head) (blk_buf tail + blk_size tail) in
               if empty1 \<ge> n then (Some i, rbb_append i (blk_buf tail + blk_size tail) n rbb)
               else (None, rbb)
           else (Some i, rbb_append i (rbb_buf rbb) n rbb)
         else (None, rbb))
   }"

definition rt_rbb_blk_put :: "rt_rbb \<Rightarrow> nat \<Rightarrow> rt_rbb option" where
  "rt_rbb_blk_put rbb i = do {
     rt_assert (blk_status (blk rbb i) = RT_RBB_BLK_INITED);
     Some (blk_upd i (\<lambda>b. b\<lparr>blk_status := RT_RBB_BLK_PUT\<rparr>) rbb)
   }"

definition rt_rbb_blk_get :: "rt_rbb \<Rightarrow> nat option \<times> rt_rbb" where
  "rt_rbb_blk_get rbb =
     (case List.find (\<lambda>i. blk_status (blk rbb i) = RT_RBB_BLK_PUT) (blk_list rbb) of
        None \<Rightarrow> (None, rbb)
      | Some i \<Rightarrow> (Some i, blk_upd i (\<lambda>b. b\<lparr>blk_status := RT_RBB_BLK_GET\<rparr>) rbb))"

definition rt_rbb_blk_size :: "rt_rbb \<Rightarrow> nat \<Rightarrow> nat" where
  "rt_rbb_blk_size rbb i = blk_size (blk rbb i)"

definition rt_rbb_blk_buf :: "rt_rbb \<Rightarrow> nat \<Rightarrow> nat" where
  "rt_rbb_blk_buf rbb i = blk_buf (blk rbb i)"

definition rt_rbb_blk_free :: "rt_rbb \<Rightarrow> nat \<Rightarrow> rt_rbb option" where
  "rt_rbb_blk_free rbb i = do {
     rt_assert (blk_status (blk rbb i) \<noteq> RT_RBB_BLK_UNUSED);
     Some (blk_upd i (\<lambda>b. b\<lparr>blk_status := RT_RBB_BLK_UNUSED\<rparr>) (rbb\<lparr>blk_list := remove1 i (blk_list rbb)\<rparr>))
   }"

text \<open>The loop of \<^verbatim>\<open>rt_rbb_blk_queue_get\<close> over the nodes; a node keeps its link when it is removed from the list.\<close>

definition queue_take :: "nat \<Rightarrow> rt_rbb \<Rightarrow> rt_rbb" where
  "queue_take i rbb = blk_upd i (\<lambda>b. b\<lparr>blk_status := RT_RBB_BLK_GET\<rparr>) (rbb\<lparr>blk_list := remove1 i (blk_list rbb)\<rparr>)"

fun queue_get_loop :: "nat \<Rightarrow> nat list \<Rightarrow> nat option \<Rightarrow> nat \<Rightarrow> rt_rbb_blk_queue \<Rightarrow> rt_rbb \<Rightarrow> nat \<times> rt_rbb_blk_queue \<times> rt_rbb" where
  "queue_get_loop len [] prev tot q rbb = (tot, q, rbb)"
| "queue_get_loop len (i # ns) prev tot q rbb =
     (case prev of
        None \<Rightarrow>
          if blk_status (blk rbb i) = RT_RBB_BLK_PUT then
            queue_get_loop len ns (Some i) (tot + blk_size (blk rbb i))
              \<lparr>queue_blocks = i, queue_blk_num = 1\<rparr> (queue_take i rbb)
          else queue_get_loop len ns None tot q rbb
      | Some l \<Rightarrow>
          if blk_status (blk rbb i) \<noteq> RT_RBB_BLK_PUT \<or> blk_buf (blk rbb l) > blk_buf (blk rbb i)
             \<or> tot + blk_size (blk rbb i) > len
          then (tot, q, rbb)
          else queue_get_loop len ns (Some i) (tot + blk_size (blk rbb i))
                 (q\<lparr>queue_blk_num := queue_blk_num q + 1\<rparr>) (queue_take i rbb))"

definition rt_rbb_blk_queue_get :: "rt_rbb \<Rightarrow> nat \<Rightarrow> rt_rbb_blk_queue \<Rightarrow> nat \<times> rt_rbb_blk_queue \<times> rt_rbb" where
  "rt_rbb_blk_queue_get rbb len q =
     (if blk_list rbb = [] then (0, q, rbb) else queue_get_loop len (blk_list rbb) None 0 q rbb)"

definition rt_rbb_blk_queue_len :: "rt_rbb \<Rightarrow> rt_rbb_blk_queue \<Rightarrow> nat option" where
  "rt_rbb_blk_queue_len rbb q = do {
     bs \<leftarrow> arr_read (blk_set rbb) (queue_blocks q) (queue_blk_num q);
     Some (sum_list (map blk_size bs))
   }"

definition rt_rbb_blk_queue_buf :: "rt_rbb \<Rightarrow> rt_rbb_blk_queue \<Rightarrow> nat" where
  "rt_rbb_blk_queue_buf rbb q = blk_buf (blk rbb (queue_blocks q))"

fun queue_free_loop :: "nat list \<Rightarrow> rt_rbb \<Rightarrow> rt_rbb option" where
  "queue_free_loop [] rbb = Some rbb"
| "queue_free_loop (i # is) rbb = do { rbb1 \<leftarrow> rt_rbb_blk_free rbb i; queue_free_loop is rbb1 }"

definition rt_rbb_blk_queue_free :: "rt_rbb \<Rightarrow> rt_rbb_blk_queue \<Rightarrow> rt_rbb option" where
  "rt_rbb_blk_queue_free rbb q = do {
     rt_assert (queue_blocks q + queue_blk_num q \<le> length (blk_set rbb));
     queue_free_loop [queue_blocks q ..< queue_blocks q + queue_blk_num q] rbb
   }"

fun next_queue_loop :: "rt_rbb \<Rightarrow> nat list \<Rightarrow> nat option \<Rightarrow> nat \<Rightarrow> nat" where
  "next_queue_loop rbb [] prev len = len"
| "next_queue_loop rbb (i # ns) prev len =
     (case prev of
        None \<Rightarrow>
          if blk_status (blk rbb i) \<noteq> RT_RBB_BLK_PUT then next_queue_loop rbb ns None len
          else next_queue_loop rbb ns (Some i) (len + blk_size (blk rbb i))
      | Some l \<Rightarrow>
          if blk_status (blk rbb i) \<noteq> RT_RBB_BLK_PUT \<or> blk_buf (blk rbb l) > blk_buf (blk rbb i) then len
          else next_queue_loop rbb ns (Some i) (len + blk_size (blk rbb i)))"

definition rt_rbb_next_blk_queue_len :: "rt_rbb \<Rightarrow> nat" where
  "rt_rbb_next_blk_queue_len rbb = (if blk_list rbb = [] then 0 else next_queue_loop rbb (blk_list rbb) None 0)"

definition rt_rbb_get_buf_size :: "rt_rbb \<Rightarrow> nat" where
  "rt_rbb_get_buf_size rbb = rbb_buf_size rbb"

text \<open>The invariant: the blocks of the list lie in the buffer, and in the order of the addresses they are a rotation
  of the list, one behind the other without overlap. A block that is in the list is not unused.\<close>

definition blk_before :: "rt_rbb \<Rightarrow> nat \<Rightarrow> nat \<Rightarrow> bool" where
  "blk_before rbb i j \<longleftrightarrow> blk_buf (blk rbb i) + blk_size (blk rbb i) \<le> blk_buf (blk rbb j)"

definition blk_inside :: "rt_rbb \<Rightarrow> nat \<Rightarrow> bool" where
  "blk_inside rbb i \<longleftrightarrow> rbb_buf rbb \<le> blk_buf (blk rbb i) \<and> 0 < blk_size (blk rbb i)
     \<and> blk_buf (blk rbb i) + blk_size (blk rbb i) \<le> rbb_buf rbb + rbb_buf_size rbb"

definition rbb_inv :: "rt_rbb \<Rightarrow> bool" where
  "rbb_inv rbb \<longleftrightarrow> blk_max_num rbb = length (blk_set rbb) \<and> rbb_buf rbb + rbb_buf_size rbb < 2 ^ 32
     \<and> distinct (blk_list rbb)
     \<and> (\<forall>i \<in> set (blk_list rbb). i < length (blk_set rbb) \<and> blk_status (blk rbb i) \<noteq> RT_RBB_BLK_UNUSED \<and> blk_inside rbb i)
     \<and> (\<exists>xs ys. blk_list rbb = xs @ ys \<and> sorted_wrt (blk_before rbb) (ys @ xs))"

text \<open>Clients: any order of operations on blocks of the set; an allocation asks for at least one byte and at most the
  buffer.\<close>

inductive rbb_step :: "rt_rbb \<Rightarrow> rt_rbb \<Rightarrow> bool" where
  step_alloc: "0 < n \<Longrightarrow> n \<le> rbb_buf_size rbb \<Longrightarrow> rt_rbb_blk_alloc rbb n = Some (r, rbb') \<Longrightarrow> rbb_step rbb rbb'"
| step_put: "i < blk_max_num rbb \<Longrightarrow> rt_rbb_blk_put rbb i = Some rbb' \<Longrightarrow> rbb_step rbb rbb'"
| step_get: "rt_rbb_blk_get rbb = (r, rbb') \<Longrightarrow> rbb_step rbb rbb'"
| step_free: "i < blk_max_num rbb \<Longrightarrow> rt_rbb_blk_free rbb i = Some rbb' \<Longrightarrow> rbb_step rbb rbb'"
| step_queue_get: "rt_rbb_blk_queue_get rbb len q = (n, q', rbb') \<Longrightarrow> rbb_step rbb rbb'"
| step_queue_free: "rt_rbb_blk_queue_free rbb q = Some rbb' \<Longrightarrow> rbb_step rbb rbb'"

text \<open>A buffer of ten bytes at address 1000, filled by one block that has been put.\<close>

definition sample_rbb :: rt_rbb where
  "sample_rbb = \<lparr>rbb_addr = 900, rbb_buf = 1000, rbb_buf_size = 10, rbb_set_addr = 950,
     blk_set = [\<lparr>blk_status = RT_RBB_BLK_PUT, blk_size = 10, blk_buf = 1000\<rparr>, \<lparr>blk_status = RT_RBB_BLK_UNUSED, blk_size = 0, blk_buf = 0\<rparr>],
     blk_max_num = 2, blk_list = [0]\<rparr>"

section \<open>Keeping the invariant\<close>

lemma blk_upd_simps [simp]:
  "blk_list (blk_upd i f rbb) = blk_list rbb" "rbb_buf (blk_upd i f rbb) = rbb_buf rbb"
  "rbb_buf_size (blk_upd i f rbb) = rbb_buf_size rbb" "blk_max_num (blk_upd i f rbb) = blk_max_num rbb"
  "blk_set (blk_upd i f rbb) = (blk_set rbb)[i := f (blk rbb i)]"
  by (simp_all add: blk_upd_def)

lemma nth_upd: "j < length xs \<Longrightarrow> xs[i := x] ! j = (if j = i then x else xs ! j)"
  by (auto simp: nth_list_update)

lemma sorted_wrt_filter: "sorted_wrt R xs \<Longrightarrow> sorted_wrt R (filter P xs)"
  by (induction xs) auto

lemma sorted_wrt_weaken: "sorted_wrt R xs \<Longrightarrow> (\<And>x y. x \<in> set xs \<Longrightarrow> y \<in> set xs \<Longrightarrow> R x y \<Longrightarrow> S x y) \<Longrightarrow> sorted_wrt S xs"
  by (induction xs) auto

text \<open>The list may lose blocks, and blocks that stay may change their status.\<close>

lemma rbb_inv_fewer:
  assumes inv: "rbb_inv rbb" and list: "blk_list rbb' = filter P (blk_list rbb)"
    and arena: "rbb_buf rbb' = rbb_buf rbb" "rbb_buf_size rbb' = rbb_buf_size rbb" "blk_max_num rbb' = blk_max_num rbb"
      "length (blk_set rbb') = length (blk_set rbb)"
    and keep: "\<And>i. i \<in> set (blk_list rbb') \<Longrightarrow> i < length (blk_set rbb) \<Longrightarrow> blk_buf (blk rbb' i) = blk_buf (blk rbb i)
      \<and> blk_size (blk rbb' i) = blk_size (blk rbb i) \<and> (blk_status (blk rbb i) \<noteq> RT_RBB_BLK_UNUSED \<longrightarrow> blk_status (blk rbb' i) \<noteq> RT_RBB_BLK_UNUSED)"
  shows "rbb_inv rbb'"
proof -
  obtain xs ys where l: "blk_list rbb = xs @ ys" "sorted_wrt (blk_before rbb) (ys @ xs)" using inv by (auto simp: rbb_inv_def)
  have all: "\<forall>i \<in> set (blk_list rbb). i < length (blk_set rbb) \<and> blk_status (blk rbb i) \<noteq> RT_RBB_BLK_UNUSED \<and> blk_inside rbb i"
    using inv by (simp add: rbb_inv_def)
  have sub: "set (blk_list rbb') \<subseteq> set (blk_list rbb)" by (auto simp: list)
  have "sorted_wrt (blk_before rbb) (filter P (ys @ xs))" by (rule sorted_wrt_filter [OF l(2)])
  then have "sorted_wrt (blk_before rbb') (filter P (ys @ xs))"
    by (rule sorted_wrt_weaken) (use keep all in \<open>auto simp: blk_before_def list l(1)\<close>)
  then have "\<exists>xs ys. blk_list rbb' = xs @ ys \<and> sorted_wrt (blk_before rbb') (ys @ xs)"
    by (intro exI [of _ "filter P xs"] exI [of _ "filter P ys"]) (simp add: list l(1))
  moreover have "i < length (blk_set rbb') \<and> blk_status (blk rbb' i) \<noteq> RT_RBB_BLK_UNUSED \<and> blk_inside rbb' i" if "i \<in> set (blk_list rbb')" for i
    using all sub that keep [OF that] by (auto simp: blk_inside_def arena)
  ultimately show ?thesis using inv by (simp add: rbb_inv_def arena list)
qed

lemma remove1_filter: "distinct xs \<Longrightarrow> remove1 x xs = filter (\<lambda>y. y \<noteq> x) xs"
  by (simp add: distinct_remove1_removeAll removeAll_filter_not_eq) (rule filter_cong, auto)

lemma rbb_inv_list: "rbb_inv rbb \<Longrightarrow> i \<in> set (blk_list rbb) \<Longrightarrow> i < length (blk_set rbb)"
  by (simp add: rbb_inv_def)

lemma put_inv:
  assumes "rbb_inv rbb" "rt_rbb_blk_put rbb i = Some rbb'"
  shows "rbb_inv rbb'"
  by (rule rbb_inv_fewer [OF assms(1), where P = "\<lambda>_. True"])
    (use assms(2) in \<open>auto simp: rt_rbb_blk_put_def bind_Some_iff nth_upd split: if_splits\<close>)

lemma get_inv:
  assumes "rbb_inv rbb" "rt_rbb_blk_get rbb = (r, rbb')"
  shows "rbb_inv rbb'"
  by (rule rbb_inv_fewer [OF assms(1), where P = "\<lambda>_. True"])
    (use assms(2) in \<open>auto simp: rt_rbb_blk_get_def nth_upd split: option.splits if_splits\<close>)

lemma free_inv:
  assumes "rbb_inv rbb" "rt_rbb_blk_free rbb i = Some rbb'"
  shows "rbb_inv rbb'"
proof -
  have "distinct (blk_list rbb)" using assms(1) by (simp add: rbb_inv_def)
  then show ?thesis
    by (intro rbb_inv_fewer [OF assms(1), where P = "\<lambda>j. j \<noteq> i"])
      (use assms(2) in \<open>auto simp: rt_rbb_blk_free_def bind_Some_iff nth_upd remove1_filter\<close>)
qed

lemma queue_take_inv:
  assumes "rbb_inv rbb"
  shows "rbb_inv (queue_take i rbb)"
proof -
  have "distinct (blk_list rbb)" using assms(1) by (simp add: rbb_inv_def)
  then show ?thesis
    by (intro rbb_inv_fewer [OF assms(1), where P = "\<lambda>j. j \<noteq> i"]) (auto simp: queue_take_def nth_upd remove1_filter)
qed

lemma queue_get_loop_inv:
  "rbb_inv rbb \<Longrightarrow> queue_get_loop len ns prev tot q rbb = (n, q', rbb') \<Longrightarrow> rbb_inv rbb'"
  by (induction len ns prev tot q rbb rule: queue_get_loop.induct) (auto split: option.splits if_splits intro: queue_take_inv)

lemma queue_free_loop_inv: "rbb_inv rbb \<Longrightarrow> queue_free_loop is rbb = Some rbb' \<Longrightarrow> rbb_inv rbb'"
  by (induction "is" arbitrary: rbb) (auto simp: bind_Some_iff intro: free_inv)

section \<open>Allocation\<close>

lemma find_Some: "List.find P xs = Some x \<Longrightarrow> P x \<and> x \<in> set xs"
  by (auto simp: find_Some_iff)

text \<open>A new block between the blocks \<open>us\<close> and \<open>vs\<close>.\<close>

lemma rbb_append_inv:
  assumes inv: "rbb_inv rbb" and i: "i < length (blk_set rbb)" "i \<notin> set (blk_list rbb)"
    and l: "(blk_list rbb = vs @ us \<and> vs \<noteq> [] \<or> blk_list rbb = us \<and> vs = []) \<or> (us = [] \<and> blk_list rbb = vs)"
    and srt: "sorted_wrt (blk_before rbb) (us @ vs)"
    and room: "rbb_buf rbb \<le> a" "0 < n" "a + n \<le> rbb_buf rbb + rbb_buf_size rbb"
    and us: "\<forall>u \<in> set us. blk_buf (blk rbb u) + blk_size (blk rbb u) \<le> a" and vs: "\<forall>v \<in> set vs. a + n \<le> blk_buf (blk rbb v)"
  shows "rbb_inv (rbb_append i a n rbb)"
proof -
  let ?r = "rbb_append i a n rbb"
  have b: "blk ?r j = (if j = i then (blk rbb i)\<lparr>blk_status := RT_RBB_BLK_INITED, blk_buf := a, blk_size := n\<rparr> else blk rbb j)" for j
    using i by (simp add: rbb_append_def nth_list_update)
  have i': "i \<notin> set us" "i \<notin> set vs" using i(2) l by auto
  have "sorted_wrt (blk_before ?r) (us @ vs)"
    by (rule sorted_wrt_weaken [OF srt]) (use i' in \<open>auto simp: blk_before_def b\<close>)
  then have "sorted_wrt (blk_before ?r) (us @ i # vs)" using us vs i' by (auto simp: sorted_wrt_append blk_before_def b)
  moreover have "\<exists>xs ys. blk_list ?r = xs @ ys \<and> ys @ xs = us @ i # vs"
  proof -
    have lr: "blk_list ?r = blk_list rbb @ [i]" by (simp add: rbb_append_def)
    consider "blk_list rbb = vs @ us" "vs \<noteq> []" | "blk_list rbb = us" "vs = []" | "us = []" "blk_list rbb = vs" using l by blast
    then show ?thesis
    proof cases
      case 1
      then show ?thesis by (intro exI [of _ vs] exI [of _ "us @ [i]"]) (simp add: lr)
    next
      case 2
      then show ?thesis by (intro exI [of _ "[]"] exI [of _ "us @ [i]"]) (simp add: lr)
    next
      case 3
      then show ?thesis by (intro exI [of _ vs] exI [of _ "[i]"]) (simp add: lr)
    qed
  qed
  ultimately have "\<exists>xs ys. blk_list ?r = xs @ ys \<and> sorted_wrt (blk_before ?r) (ys @ xs)" by metis
  then show ?thesis using inv i room unfolding rbb_inv_def b blk_inside_def by (auto simp: rbb_append_def nth_list_update)
qed

lemma rbb_bounds:
  assumes "rbb_inv rbb" "i \<in> set (blk_list rbb)"
  shows "rbb_buf rbb \<le> blk_buf (blk rbb i)" "0 < blk_size (blk rbb i)"
    "blk_buf (blk rbb i) + blk_size (blk rbb i) \<le> rbb_buf rbb + rbb_buf_size rbb" "rbb_buf rbb + rbb_buf_size rbb < 2 ^ 32"
  using assms by (auto simp: rbb_inv_def blk_inside_def)

lemma sorted_first_last:
  assumes "sorted_wrt (blk_before rbb) xs" "x \<in> set xs"
  shows "blk_buf (blk rbb (hd xs)) \<le> blk_buf (blk rbb x)"
    "blk_buf (blk rbb x) + blk_size (blk rbb x) \<le> blk_buf (blk rbb (last xs)) + blk_size (blk rbb (last xs))"
proof -
  show "blk_buf (blk rbb (hd xs)) \<le> blk_buf (blk rbb x)" using assms by (cases xs) (auto simp: blk_before_def)
  show "blk_buf (blk rbb x) + blk_size (blk rbb x) \<le> blk_buf (blk rbb (last xs)) + blk_size (blk rbb (last xs))"
    using assms by (cases xs rule: rev_cases) (auto simp: blk_before_def sorted_wrt_append)
qed

lemma alloc_inv:
  assumes inv: "rbb_inv rbb" and n: "0 < n" "n \<le> rbb_buf_size rbb" "n < 2 ^ 24"
  shows "rt_rbb_blk_alloc rbb n = Some (None, rbb) \<or>
    (\<exists>i a. rt_rbb_blk_alloc rbb n = Some (Some i, rbb_append i a n rbb) \<and> i < length (blk_set rbb) \<and> i \<notin> set (blk_list rbb)
      \<and> rbb_inv (rbb_append i a n rbb))"
proof (cases "find_empty_blk_in_set rbb")
  case None
  then show ?thesis using n by (simp add: rt_rbb_blk_alloc_def)
next
  case (Some i)
  have i: "i < length (blk_set rbb)" "i \<notin> set (blk_list rbb)"
    using find_Some [OF Some [unfolded find_empty_blk_in_set_def]] inv by (auto simp: rbb_inv_def)
  show ?thesis
  proof (cases "length (blk_list rbb) < blk_max_num rbb")
    case False
    then show ?thesis using n Some by (simp add: rt_rbb_blk_alloc_def)
  next
    case room: True
    show ?thesis
    proof (cases "blk_list rbb = []")
      case True
      have "rbb_inv (rbb_append i (rbb_buf rbb) n rbb)" by (rule rbb_append_inv [OF inv i, of "[]" "[]"]) (use True n in auto)
      then show ?thesis using n Some room True i by (auto simp: rt_rbb_blk_alloc_def)
    next
      case False
      let ?l = "blk_list rbb" and ?h = "blk rbb (hd (blk_list rbb))" and ?t = "blk rbb (last (blk_list rbb))"
      obtain xs ys where l: "?l = xs @ ys" "sorted_wrt (blk_before rbb) (ys @ xs)" using inv by (auto simp: rbb_inv_def)
      note H = rbb_bounds [OF inv hd_in_set [OF False]] and T = rbb_bounds [OF inv last_in_set [OF False]]
      have ar: "sub32 (rbb_buf rbb + rbb_buf_size rbb) (blk_buf ?t + blk_size ?t) = rbb_buf rbb + rbb_buf_size rbb - (blk_buf ?t + blk_size ?t)"
        "sub32 (blk_buf ?h) (rbb_buf rbb) = blk_buf ?h - rbb_buf rbb" using H T by (simp_all add: sub32_small)
      have alloc: "rt_rbb_blk_alloc rbb n = Some (
          if blk_buf ?h \<le> blk_buf ?t then
            if rbb_buf rbb + rbb_buf_size rbb - (blk_buf ?t + blk_size ?t) \<ge> n then (Some i, rbb_append i (blk_buf ?t + blk_size ?t) n rbb)
            else if blk_buf ?h - rbb_buf rbb \<ge> n then (Some i, rbb_append i (rbb_buf rbb) n rbb) else (None, rbb)
          else if sub32 (blk_buf ?h) (blk_buf ?t + blk_size ?t) \<ge> n then (Some i, rbb_append i (blk_buf ?t + blk_size ?t) n rbb)
            else (None, rbb))"
        using n Some room False by (simp add: rt_rbb_blk_alloc_def Let_def ar)
      show ?thesis
      proof (cases "blk_buf ?h \<le> blk_buf ?t")
        case True
        have one: "xs = [] \<or> ys = []"
        proof (rule ccontr)
          assume "\<not> (xs = [] \<or> ys = [])"
          then have "blk_before rbb (last ?l) (hd ?l)" using l by (auto simp: sorted_wrt_append)
          then show False using True T(2) by (simp add: blk_before_def)
        qed
        then have s: "sorted_wrt (blk_before rbb) ?l" using l by auto
        have A: "rbb_inv (rbb_append i (blk_buf ?t + blk_size ?t) n rbb)" if "rbb_buf rbb + rbb_buf_size rbb - (blk_buf ?t + blk_size ?t) \<ge> n"
          by (rule rbb_append_inv [OF inv i, of "[]" ?l]) (use that s T n sorted_first_last(2) [OF s] in auto)
        have B: "rbb_inv (rbb_append i (rbb_buf rbb) n rbb)" if "blk_buf ?h - rbb_buf rbb \<ge> n"
        proof (rule rbb_append_inv [OF inv i, of ?l "[]"])
          show "\<forall>v \<in> set ?l. rbb_buf rbb + n \<le> blk_buf (blk rbb v)"
          proof
            fix v assume "v \<in> set ?l"
            from sorted_first_last(1) [OF s this] show "rbb_buf rbb + n \<le> blk_buf (blk rbb v)" using that n by linarith
          qed
        qed (use s n in auto)
        show ?thesis using alloc True A B i by auto
      next
        case gt: False
        have two: "xs \<noteq> [] \<and> ys \<noteq> []"
        proof (rule ccontr)
          assume "\<not> (xs \<noteq> [] \<and> ys \<noteq> [])"
          then have "sorted_wrt (blk_before rbb) ?l" using l by auto
          then show False using sorted_first_last(1) [of rbb ?l "last ?l"] gt False by simp
        qed
        have hx: "hd ?l = hd xs" "last ?l = last ys" using two l(1) by auto
        have le: "blk_before rbb (last ?l) (hd ?l)" using l two by (auto simp: hx sorted_wrt_append)
        have sx: "sorted_wrt (blk_before rbb) xs" "sorted_wrt (blk_before rbb) ys" using l(2) by (auto simp: sorted_wrt_append)
        have ar2: "sub32 (blk_buf ?h) (blk_buf ?t + blk_size ?t) = blk_buf ?h - (blk_buf ?t + blk_size ?t)"
          using le H by (simp add: sub32_small blk_before_def)
        have "rbb_inv (rbb_append i (blk_buf ?t + blk_size ?t) n rbb)" if fit: "blk_buf ?h - (blk_buf ?t + blk_size ?t) \<ge> n"
        proof (rule rbb_append_inv [OF inv i, of xs ys])
          show "\<forall>u \<in> set ys. blk_buf (blk rbb u) + blk_size (blk rbb u) \<le> blk_buf ?t + blk_size ?t" using sorted_first_last(2) [OF sx(2)] by (simp add: hx)
          show "\<forall>v \<in> set xs. blk_buf ?t + blk_size ?t + n \<le> blk_buf (blk rbb v)"
            using sorted_first_last(1) [OF sx(1)] fit n by (auto simp: hx intro: order_trans [of _ "blk_buf (blk rbb (hd xs))"])
          show "blk_buf ?t + blk_size ?t + n \<le> rbb_buf rbb + rbb_buf_size rbb" using fit n H by linarith
        qed (use l two T n in auto)
        then show ?thesis using alloc gt ar2 i by auto
      qed
    qed
  qed
qed

lemma rbb_step_inv: "rbb_step rbb rbb' \<Longrightarrow> rbb_inv rbb \<Longrightarrow> rbb_inv rbb'"
proof (induction rule: rbb_step.induct)
  case (step_alloc n rbb r rbb')
  have "n < 2 ^ 24" using step_alloc(3) by (simp add: rt_rbb_blk_alloc_def bind_Some_iff)
  then show ?case using alloc_inv [OF step_alloc(4,1,2)] step_alloc(3,4) by auto
next
  case (step_queue_get rbb len q n q' rbb')
  then show ?case by (auto simp: rt_rbb_blk_queue_get_def intro: queue_get_loop_inv split: if_splits)
next
  case (step_queue_free rbb q rbb')
  then show ?case by (auto simp: rt_rbb_blk_queue_free_def bind_Some_iff intro: queue_free_loop_inv)
qed (auto intro: put_inv get_inv free_inv)

lemma rbb_disjoint:
  assumes "rbb_inv rbb" "i \<in> set (blk_list rbb)" "j \<in> set (blk_list rbb)" "i \<noteq> j"
  shows "blk_before rbb i j \<or> blk_before rbb j i"
proof -
  obtain xs ys where l: "blk_list rbb = xs @ ys" "sorted_wrt (blk_before rbb) (ys @ xs)" using assms(1) by (auto simp: rbb_inv_def)
  let ?z = "ys @ xs"
  obtain a b where ab: "a < length ?z" "?z ! a = i" "b < length ?z" "?z ! b = j" using assms(2,3) l(1) by (metis in_set_conv_nth set_append Un_commute)
  then have "a \<noteq> b" using assms(4) by auto
  then show ?thesis using l(2) ab sorted_wrt_nth_less [OF l(2), of a b] sorted_wrt_nth_less [OF l(2), of b a] by (cases "a < b") auto
qed

section \<open>Properties\<close>

text \<open>\<^verbatim>\<open>rt_rbb_blk_queue_get\<close> takes its blocks out of the list, so that their memory is handed out again while the
  caller still reads them.\<close>

lemma rt_rbb_blk_queue_get_reused:
  "\<exists>q r r'. rt_rbb_blk_queue_get sample_rbb 100 \<lparr>queue_blocks = 0, queue_blk_num = 0\<rparr> = (10, q, r) \<and> rt_rbb_blk_alloc r 10 = Some (Some 1, r')
    \<and> blk_status (blk r' 0) = RT_RBB_BLK_GET \<and> blk_buf (blk r' 0) = blk_buf (blk r' 1)"
  by (simp add: rt_rbb_blk_queue_get_def sample_rbb_def queue_take_def blk_upd_def rt_rbb_blk_alloc_def find_empty_blk_in_set_def
      rbb_append_def upt_rec)

text \<open>An allocation from the empty list is not compared with the size of the buffer.\<close>

lemma rt_rbb_blk_alloc_oversized:
  "\<exists>r. rt_rbb_blk_alloc (sample_rbb\<lparr>blk_list := []\<rparr>) 11 = Some (Some 1, r) \<and> blk_buf (blk r 1) + blk_size (blk r 1) > rbb_buf r + rbb_buf_size r"
  by (simp add: sample_rbb_def blk_upd_def rt_rbb_blk_alloc_def find_empty_blk_in_set_def rbb_append_def upt_rec)

text \<open>
  C25. The blocks of a ring block buffer never overlap. After any sequence of operations on a buffer that was
  initialised, in which every allocation asks for at least one byte and at most the whole buffer, each block in the
  list lies inside the buffer and any two of them are disjoint; and \<^verbatim>\<open>rt_rbb_blk_alloc\<close> either returns null and changes
  nothing or appends a block that was not in the list, again with that property.
\<close>

theorem rt_rbb_blocks_disjoint:
  assumes "length set0 = num" "buf + sz < 2 ^ 32" "rbb_step\<^sup>*\<^sup>* (rt_rbb_init addr buf sz set_addr set0 num) rbb"
  shows "(\<forall>i \<in> set (blk_list rbb). blk_inside rbb i) \<and> (\<forall>i \<in> set (blk_list rbb). \<forall>j \<in> set (blk_list rbb). i \<noteq> j \<longrightarrow> blk_before rbb i j \<or> blk_before rbb j i)
    \<and> (\<forall>n. 0 < n \<and> n \<le> rbb_buf_size rbb \<and> n < 2 ^ 24 \<longrightarrow> rt_rbb_blk_alloc rbb n = Some (None, rbb)
         \<or> (\<exists>i rbb'. rt_rbb_blk_alloc rbb n = Some (Some i, rbb') \<and> i \<notin> set (blk_list rbb) \<and> blk_list rbb' = blk_list rbb @ [i] \<and> rbb_inv rbb'))"
proof -
  have "rbb_inv (rt_rbb_init addr buf sz set_addr set0 num)" using assms(1,2) by (simp add: rbb_inv_def rt_rbb_init_def)
  with assms(3) have inv: "rbb_inv rbb" by (induction rule: rtranclp_induct) (auto intro: rbb_step_inv)
  then have "\<forall>i \<in> set (blk_list rbb). blk_inside rbb i" by (simp add: rbb_inv_def)
  moreover have "rt_rbb_blk_alloc rbb n = Some (None, rbb)
         \<or> (\<exists>i rbb'. rt_rbb_blk_alloc rbb n = Some (Some i, rbb') \<and> i \<notin> set (blk_list rbb) \<and> blk_list rbb' = blk_list rbb @ [i] \<and> rbb_inv rbb')"
    if "0 < n \<and> n \<le> rbb_buf_size rbb \<and> n < 2 ^ 24" for n
    using alloc_inv [OF inv, of n] that by (auto simp: rbb_append_def)
  ultimately show ?thesis using rbb_disjoint [OF inv] by blast
qed

theorem rt_rbb_blocks_disjoint_witness:
  "\<exists>r. rt_rbb_blk_alloc (rt_rbb_init 900 1000 10 950 [blk sample_rbb 1, blk sample_rbb 1] 2) 4 = Some (Some 0, r) \<and> blk_inside r 0"
proof -
  let ?r0 = "rt_rbb_init 900 1000 10 950 [blk sample_rbb 1, blk sample_rbb 1] 2"
  obtain r where r: "rt_rbb_blk_alloc ?r0 4 = Some (Some 0, r)" "blk_list r = [0]"
    by (simp add: rt_rbb_init_def sample_rbb_def rt_rbb_blk_alloc_def find_empty_blk_in_set_def rbb_append_def upt_rec)
  have "rbb_step\<^sup>*\<^sup>* ?r0 r" by (rule r_into_rtranclp, rule step_alloc [OF _ _ r(1)]) (simp_all add: rt_rbb_init_def)
  from rt_rbb_blocks_disjoint [OF _ _ this] have "blk_inside r 0" by (simp add: r(2))
  then show ?thesis using r(1) by blast
qed

end
