(* ===== verification/Mempool.thy ===== *)
theory Mempool
  imports Ipc_Spec
begin

text \<open>
  The memory pool (\<^verbatim>\<open>os/mempool.c\<close>): blocks of one size, each behind a word that links it into the free list
  or, while it is in use, points back to the pool. The control blocks of the pools and the words in front of
  their blocks are kept beside the kernel state; the threads that wait for a block are in its list \<open>Mp_q\<close>. The
  hooks for allocation and release are not modelled.
\<close>

section \<open>Definitions\<close>

record rt_mempool =
  mp_start_address :: nat
  mp_size :: nat
  mp_block_size :: nat
  mp_block_list :: nat
  mp_block_total_count :: nat
  mp_block_free_count :: nat

record pools =
  pl_mp :: "nat \<Rightarrow> rt_mempool"
  pl_word :: "nat \<Rightarrow> nat"

text \<open>The address of block \<open>i\<close>, and the two writes that build the free list: a loop that links every block to the
  next one, and the zero in the last one (\<^verbatim>\<open>offset - 1\<close> wraps for a pool without blocks).\<close>

definition block_addr :: "nat \<Rightarrow> nat \<Rightarrow> nat \<Rightarrow> nat" where
  "block_addr start stride i = (start + i * stride) mod 2 ^ 32"

fun mp_link_loop :: "nat \<Rightarrow> nat \<Rightarrow> nat \<Rightarrow> nat \<Rightarrow> (nat \<Rightarrow> nat) \<Rightarrow> nat \<Rightarrow> nat" where
  "mp_link_loop start stride i 0 w = w"
| "mp_link_loop start stride i (Suc n) w =
     mp_link_loop start stride (Suc i) n (w(block_addr start stride i := block_addr start stride (Suc i)))"

definition mp_link_blocks :: "nat \<Rightarrow> nat \<Rightarrow> nat \<Rightarrow> (nat \<Rightarrow> nat) \<Rightarrow> nat \<Rightarrow> nat" where
  "mp_link_blocks start stride n w =
     (mp_link_loop start stride 0 n w)(block_addr start stride (n + 2 ^ 32 - 1) := 0)"

definition rt_mp_init :: "nat \<Rightarrow> u8 list \<Rightarrow> nat \<Rightarrow> nat \<Rightarrow> nat \<Rightarrow> kstate \<Rightarrow> pools \<Rightarrow> (kstate \<times> pools) option" where
  "rt_mp_init m name start sz bsz k P = do {
     rt_assert (start \<noteq> 0);
     rt_assert (sz > 0 \<and> bsz > 0);
     k1 \<leftarrow> rt_object_init (K_mp m) RT_Object_Class_MemPool name k;
     let size = align_down4 sz;
     let block_size = align_up4 bsz;
     let stride = add32 block_size 4;
     let n = size div stride;
     let mp = \<lparr>mp_start_address = start, mp_size = size, mp_block_size = block_size, mp_block_list = start,
               mp_block_total_count = n, mp_block_free_count = n\<rparr>;
     Some (rt_ipc_object_init (Mp_q m) k1,
           P\<lparr>pl_mp := (pl_mp P)(m := mp), pl_word := mp_link_blocks start stride n (pl_word P)\<rparr>)
   }"

definition rt_mp_detach :: "nat \<Rightarrow> kstate \<Rightarrow> kstate option" where
  "rt_mp_detach m k = do {
     rt_assert (rt_object_get_type k (K_mp m) = RT_Object_Class_MemPool);
     rt_assert (rt_object_is_systemobject k (K_mp m));
     k1 \<leftarrow> rt_ipc_list_resume_all (Mp_q m) k;
     Some (rt_object_detach (K_mp m) k1)
   }"

definition rt_mp_create :: "u8 list \<Rightarrow> nat \<Rightarrow> nat \<Rightarrow> kstate \<Rightarrow> pools \<Rightarrow> (nat option \<times> kstate \<times> pools) option" where
  "rt_mp_create name count bsz k P = do {
     not_in_interrupt k;
     rt_assert (count > 0 \<and> bsz > 0);
     (r, k1) \<leftarrow> rt_object_allocate RT_Object_Class_MemPool name k;
     case r of
       None \<Rightarrow> Some (None, k1, P)
     | Some m \<Rightarrow> do {
         let block_size = align_up4 bsz;
         let stride = add32 block_size 4;
         let size = stride * count mod 2 ^ 32;
         let mp = \<lparr>mp_start_address = 0, mp_size = size, mp_block_size = block_size, mp_block_list = 0,
                   mp_block_total_count = 0, mp_block_free_count = 0\<rparr>;
         (a, k2) \<leftarrow> k_malloc size k1;
         case a of
           None \<Rightarrow> do {
             k3 \<leftarrow> rt_object_delete (K_mp m) k2;
             Some (None, k3, P\<lparr>pl_mp := (pl_mp P)(m := mp)\<rparr>)
           }
         | Some start \<Rightarrow> do {
             let mp1 = mp\<lparr>mp_start_address := start, mp_block_total_count := count, mp_block_free_count := count,
                          mp_block_list := start\<rparr>;
             Some (Some m, rt_ipc_object_init (Mp_q m) k2,
                   P\<lparr>pl_mp := (pl_mp P)(m := mp1), pl_word := mp_link_blocks start stride count (pl_word P)\<rparr>)
           }
       }
   }"

definition rt_mp_delete :: "nat \<Rightarrow> kstate \<Rightarrow> pools \<Rightarrow> kstate option" where
  "rt_mp_delete m k P = do {
     not_in_interrupt k;
     rt_assert (rt_object_get_type k (K_mp m) = RT_Object_Class_MemPool);
     rt_assert (\<not> rt_object_is_systemobject k (K_mp m));
     k1 \<leftarrow> rt_ipc_list_resume_all (Mp_q m) k;
     k2 \<leftarrow> k_free (let a = mp_start_address (pl_mp P m) in if a = 0 then None else Some a) k1;
     rt_object_delete (K_mp m) k2
   }"

text \<open>Taking the first free block, and putting a block back.\<close>

definition mp_take :: "nat \<Rightarrow> pools \<Rightarrow> (nat \<times> pools) option" where
  "mp_take m P =
     (let mp = pl_mp P m; b = mp_block_list mp in do {
        rt_assert (b \<noteq> 0);
        Some (add32 b 4,
              P\<lparr>pl_mp := (pl_mp P)(m := mp\<lparr>mp_block_free_count := mp_block_free_count mp - 1, mp_block_list := pl_word P b\<rparr>),
                pl_word := (pl_word P)(b := m)\<rparr>)
      })"

definition mp_put :: "nat \<Rightarrow> nat \<Rightarrow> pools \<Rightarrow> pools" where
  "mp_put m b P =
     (let mp = pl_mp P m in
      P\<lparr>pl_mp := (pl_mp P)(m := mp\<lparr>mp_block_free_count := add32 (mp_block_free_count mp) 1, mp_block_list := b\<rparr>),
        pl_word := (pl_word P)(b := mp_block_list mp)\<rparr>)"

text \<open>Waiting for a block: the thread goes to the front of the list.\<close>

definition mp_wait :: "thead \<Rightarrow> tid \<Rightarrow> int \<Rightarrow> kstate \<Rightarrow> kstate option" where
  "mp_wait h t time k = do {
     (_, k1) \<leftarrow> rt_thread_suspend t k;
     let k2 = tlist_insert_after h t k1;
     k3 \<leftarrow> (if time > 0 then do {
              (_, k') \<leftarrow> rt_timer_control (K_thread_timer t) (RT_TIMER_CTRL_SET_TIME (word_of_int time)) k2;
              rt_timer_start (K_thread_timer t) k'
            } else Some k2);
     rt_schedule k3
   }"

text \<open>A call returns a block or null, or waits with the remaining time and the tick at which the wait began; the
  call goes on with \<open>rt_mp_alloc_cont\<close> when its thread runs again.\<close>

datatype mp_result = Block "nat option" | Mp_wait int u32

definition mp_alloc_loop :: "tid option \<Rightarrow> nat \<Rightarrow> int \<Rightarrow> kstate \<Rightarrow> pools \<Rightarrow> (mp_result \<times> kstate \<times> pools) option" where
  "mp_alloc_loop th m time k P =
     (if mp_block_free_count (pl_mp P m) = 0 then
        if time = 0 then Some (Block None, rt_set_errno (- RT_ETIMEOUT) k, P)
        else do {
          not_in_interrupt k;
          t \<leftarrow> th;
          k1 \<leftarrow> mp_wait (Mp_q m) t time (thread_set_error t RT_EOK k);
          Some (Mp_wait time (rt_tick_get k), k1, P)
        }
      else do { (b, P1) \<leftarrow> mp_take m P; Some (Block (Some b), k, P1) })"

definition rt_mp_alloc :: "nat \<Rightarrow> int \<Rightarrow> kstate \<Rightarrow> pools \<Rightarrow> (mp_result \<times> kstate \<times> pools) option" where
  "rt_mp_alloc m time k P = mp_alloc_loop (rt_thread_self k) m time k P"

definition rt_mp_alloc_cont ::
    "tid \<Rightarrow> nat \<Rightarrow> int \<Rightarrow> u32 \<Rightarrow> kstate \<Rightarrow> pools \<Rightarrow> (mp_result \<times> kstate \<times> pools) option" where
  "rt_mp_alloc_cont t m time start k P =
     (if th_error (k_thr k t) \<noteq> RT_EOK then Some (Block None, k, P)
      else mp_alloc_loop (Some t) m (timeout_left time start (rt_tick_get k)) k P)"

definition rt_mp_free :: "nat \<Rightarrow> kstate \<Rightarrow> pools \<Rightarrow> (kstate \<times> pools) option" where
  "rt_mp_free block k P =
     (if block = 0 then Some (k, P)
      else let b = (block + 2 ^ 32 - 4) mod 2 ^ 32; m = pl_word P b; P1 = mp_put m b P in
        case k_list k (Mp_q m) of
          [] \<Rightarrow> Some (k, P1)
        | t # _ \<Rightarrow> do {
            (_, k1) \<leftarrow> rt_thread_resume t (thread_set_error t RT_EOK k);
            k2 \<leftarrow> rt_schedule k1;
            Some (k2, P1)
          })"

text \<open>The free list of a pool, and its invariant: the free blocks \<open>fs\<close> are chained from \<^verbatim>\<open>block_list\<close>, and every other
  block points to the pool.\<close>

fun free_chain :: "(nat \<Rightarrow> nat) \<Rightarrow> nat \<Rightarrow> nat list \<Rightarrow> bool" where
  "free_chain w p [] \<longleftrightarrow> p = 0"
| "free_chain w p (b # bs) \<longleftrightarrow> p = b \<and> b \<noteq> 0 \<and> free_chain w (w b) bs"

definition mp_stride :: "rt_mempool \<Rightarrow> nat" where
  "mp_stride mp = mp_block_size mp + 4"

definition mp_blocks :: "rt_mempool \<Rightarrow> nat list" where
  "mp_blocks mp = map (\<lambda>i. mp_start_address mp + i * mp_stride mp) [0..<mp_block_total_count mp]"

definition pool_inv :: "nat \<Rightarrow> nat list \<Rightarrow> pools \<Rightarrow> bool" where
  "pool_inv m fs P \<longleftrightarrow> 0 < mp_start_address (pl_mp P m)
     \<and> mp_start_address (pl_mp P m) + mp_block_total_count (pl_mp P m) * mp_stride (pl_mp P m) < 2 ^ 32
     \<and> distinct fs \<and> set fs \<subseteq> set (mp_blocks (pl_mp P m)) \<and> length fs = mp_block_free_count (pl_mp P m)
     \<and> free_chain (pl_word P) (mp_block_list (pl_mp P m)) fs
     \<and> (\<forall>b \<in> set (mp_blocks (pl_mp P m)) - set fs. pl_word P b = m)"

text \<open>The calls on pool \<open>m\<close> in any order and in any state of the kernel, with the set of the blocks in use; only
  blocks in use are released.\<close>

definition blocks_in_use :: "nat \<Rightarrow> nat list \<Rightarrow> pools \<Rightarrow> nat set" where
  "blocks_in_use m fs P = (\<lambda>b. b + 4) ` (set (mp_blocks (pl_mp P m)) - set fs)"

inductive mp_step :: "nat \<Rightarrow> pools \<times> nat set \<Rightarrow> pools \<times> nat set \<Rightarrow> bool" for m where
  mp_alloc: "rt_mp_alloc m time k P = Some (Block (Some b), k', P') \<Longrightarrow> mp_step m (P, U) (P', insert b U)"
| mp_alloc_other: "rt_mp_alloc m time k P = Some (r, k', P') \<Longrightarrow> r = Block None \<or> (\<exists>i s. r = Mp_wait i s) \<Longrightarrow> mp_step m (P, U) (P', U)"
| mp_cont: "rt_mp_alloc_cont t m time start k P = Some (Block (Some b), k', P') \<Longrightarrow> mp_step m (P, U) (P', insert b U)"
| mp_cont_other: "rt_mp_alloc_cont t m time start k P = Some (r, k', P') \<Longrightarrow> r = Block None \<or> (\<exists>i s. r = Mp_wait i s) \<Longrightarrow> mp_step m (P, U) (P', U)"
| mp_free: "b \<in> U \<Longrightarrow> rt_mp_free b k P = Some (k', P') \<Longrightarrow> mp_step m (P, U) (P', U - {b})"

text \<open>The invariant of the runs.\<close>

definition pool_run :: "nat \<Rightarrow> nat list \<Rightarrow> nat \<Rightarrow> pools \<times> nat set \<Rightarrow> bool" where
  "pool_run m bl bsz s \<longleftrightarrow> (\<exists>fs. pool_inv m fs (fst s) \<and> snd s = blocks_in_use m fs (fst s)
     \<and> mp_blocks (pl_mp (fst s) m) = bl \<and> mp_block_size (pl_mp (fst s) m) = bsz)"

section \<open>The blocks of a pool\<close>

lemma set_mp_blocks: "b \<in> set (mp_blocks mp) \<longleftrightarrow> (\<exists>i < mp_block_total_count mp. b = mp_start_address mp + i * mp_stride mp)"
  by (auto simp: mp_blocks_def)

lemma length_mp_blocks [simp]: "length (mp_blocks mp) = mp_block_total_count mp"
  by (simp add: mp_blocks_def)

lemma mp_stride_pos [simp]: "0 < mp_stride mp" "mp_stride mp \<noteq> 0"
  by (simp_all add: mp_stride_def)

lemma distinct_mp_blocks: "distinct (mp_blocks mp)"
  by (auto simp: mp_blocks_def distinct_map inj_on_def)

lemma mp_block_bounds:
  assumes "b \<in> set (mp_blocks mp)"
  shows "mp_start_address mp \<le> b" "b + mp_stride mp \<le> mp_start_address mp + mp_block_total_count mp * mp_stride mp"
proof -
  obtain i where i: "i < mp_block_total_count mp" "b = mp_start_address mp + i * mp_stride mp" using assms by (auto simp: set_mp_blocks)
  then have "Suc i * mp_stride mp \<le> mp_block_total_count mp * mp_stride mp" by (intro mult_le_mono1) simp
  then show "b + mp_stride mp \<le> mp_start_address mp + mp_block_total_count mp * mp_stride mp" using i(2) by simp
  show "mp_start_address mp \<le> b" using i(2) by simp
qed

lemma mp_blocks_apart:
  assumes "a \<in> set (mp_blocks mp)" "b \<in> set (mp_blocks mp)" "a < b"
  shows "a + mp_stride mp \<le> b"
proof -
  obtain i j where "a = mp_start_address mp + i * mp_stride mp" "b = mp_start_address mp + j * mp_stride mp"
    using assms(1,2) by (auto simp: set_mp_blocks)
  moreover from this have "i < j" using assms(3) by simp
  then have "Suc i * mp_stride mp \<le> j * mp_stride mp" by (intro mult_le_mono1) simp
  ultimately show ?thesis by simp
qed

lemma pool_invD:
  assumes "pool_inv m fs P"
  shows "b \<in> set (mp_blocks (pl_mp P m)) \<Longrightarrow> 0 < b \<and> b + 4 < 2 ^ 32" "mp_block_total_count (pl_mp P m) < 2 ^ 32"
    "length fs \<le> mp_block_total_count (pl_mp P m)"
proof -
  let ?mp = "pl_mp P m"
  have I: "0 < mp_start_address ?mp" "mp_start_address ?mp + mp_block_total_count ?mp * mp_stride ?mp < 2 ^ 32"
    "distinct fs" "set fs \<subseteq> set (mp_blocks ?mp)"
    using assms by (simp_all add: pool_inv_def)
  show "0 < b \<and> b + 4 < 2 ^ 32" if "b \<in> set (mp_blocks ?mp)"
    using mp_block_bounds [OF that] I(1,2) unfolding mp_stride_def by linarith
  have "mp_block_total_count ?mp * 1 \<le> mp_block_total_count ?mp * mp_stride ?mp" by (intro mult_le_mono2) (simp add: mp_stride_def)
  then show "mp_block_total_count ?mp < 2 ^ 32" using I(2) by linarith
  show "length fs \<le> mp_block_total_count ?mp"
    using card_mono [OF _ I(4)] I(3) distinct_mp_blocks [of ?mp] by (simp add: distinct_card)
qed

section \<open>Taking and putting back a block\<close>

lemma free_chain_upd: "b \<notin> set bs \<Longrightarrow> free_chain (w(b := v)) p bs = free_chain w p bs"
  by (induction bs arbitrary: p) auto

lemma mp_take_inv:
  assumes inv: "pool_inv m (b # bs) P"
  obtains P' where "mp_take m P = Some (b + 4, P')" "pool_inv m bs P'" "mp_blocks (pl_mp P' m) = mp_blocks (pl_mp P m)"
    "mp_block_size (pl_mp P' m) = mp_block_size (pl_mp P m)" "mp_put m b P' = P"
proof -
  let ?mp = "pl_mp P m"
  define P' where "P' = P\<lparr>pl_mp := (pl_mp P)(m := ?mp\<lparr>mp_block_free_count := mp_block_free_count ?mp - 1, mp_block_list := pl_word P b\<rparr>),
    pl_word := (pl_word P)(b := m)\<rparr>"
  have I: "mp_block_list ?mp = b" "b \<in> set (mp_blocks ?mp)" "b \<notin> set bs" "mp_block_free_count ?mp = Suc (length bs)"
    using inv by (auto simp: pool_inv_def)
  have b: "0 < b" "b + 4 < 2 ^ 32" using pool_invD(1) [OF inv I(2)] by simp_all
  have n: "Suc (length bs) < 2 ^ 32" using pool_invD(2,3) [OF inv] by simp
  have mb: "mp_blocks (pl_mp P' m) = mp_blocks ?mp" by (simp add: P'_def mp_blocks_def mp_stride_def)
  have "mp_take m P = Some (b + 4, P')" using I(1) b by (simp add: mp_take_def Let_def P'_def add32_def)
  moreover have "pool_inv m bs P'"
    using inv I(3,4) unfolding pool_inv_def mb by (auto simp: P'_def mp_stride_def free_chain_upd)
  moreover have eq: "?mp\<lparr>mp_block_free_count := Suc (length bs), mp_block_list := b\<rparr> = ?mp" using I(1,4) by (cases ?mp) simp
  have "mp_put m b P' = P" using I(1,4) n by (simp add: mp_put_def P'_def Let_def add32_def eq)
  ultimately show thesis using that mb by (simp add: P'_def)
qed

lemma mp_put_inv:
  assumes inv: "pool_inv m fs P" and b: "b \<in> set (mp_blocks (pl_mp P m))" "b \<notin> set fs"
  shows "pl_word P b = m" "pool_inv m (b # fs) (mp_put m b P)"
    "mp_blocks (pl_mp (mp_put m b P) m) = mp_blocks (pl_mp P m)" "mp_block_size (pl_mp (mp_put m b P) m) = mp_block_size (pl_mp P m)"
proof -
  show "pl_word P b = m" using inv b by (simp add: pool_inv_def)
  show mb: "mp_blocks (pl_mp (mp_put m b P) m) = mp_blocks (pl_mp P m)" by (simp add: mp_put_def mp_blocks_def mp_stride_def Let_def)
  show "mp_block_size (pl_mp (mp_put m b P) m) = mp_block_size (pl_mp P m)" by (simp add: mp_put_def Let_def)
  have "length fs < 2 ^ 32" using pool_invD(2,3) [OF inv] by simp
  moreover have "set fs \<subset> set (mp_blocks (pl_mp P m))" using inv b by (auto simp: pool_inv_def)
  then have "card (set fs) < card (set (mp_blocks (pl_mp P m)))" by (intro psubset_card_mono) simp_all
  then have "length fs < mp_block_total_count (pl_mp P m)"
    using inv distinct_mp_blocks [of "pl_mp P m"] by (simp add: pool_inv_def distinct_card)
  ultimately have "Suc (length fs) < 2 ^ 32" using pool_invD(2) [OF inv] by linarith
  then show "pool_inv m (b # fs) (mp_put m b P)"
    using inv b pool_invD(1) [OF inv b(1)] unfolding pool_inv_def mb
    by (auto simp: mp_put_def mp_stride_def Let_def add32_def free_chain_upd)
qed

section \<open>The free list of a new pool\<close>

lemma block_addr_eq: "start + n * stride < 2 ^ 32 \<Longrightarrow> i \<le> n \<Longrightarrow> block_addr start stride i = start + i * stride"
  unfolding block_addr_def using mult_le_mono1 [of i n stride] by (intro mod_less) linarith

lemma mp_link_loop_other:
  "(\<And>j. i \<le> j \<Longrightarrow> j < i + n \<Longrightarrow> a \<noteq> block_addr start stride j) \<Longrightarrow> mp_link_loop start stride i n w a = w a"
  by (induction n arbitrary: i w) simp_all

lemma mp_link_loop_at:
  assumes "start + N * stride < 2 ^ 32" "0 < stride" "i + n \<le> N" "i \<le> j" "j < i + n"
  shows "mp_link_loop start stride i n w (start + j * stride) = start + Suc j * stride"
  using assms(3-)
proof (induction n arbitrary: i w)
  case (Suc n)
  note ad = block_addr_eq [OF assms(1)]
  show ?case
  proof (cases "j = i")
    case True
    have "mp_link_loop start stride (Suc i) n (w(start + i * stride := start + Suc i * stride)) (start + i * stride)
        = start + Suc i * stride"
      using Suc.prems assms(2) by (subst mp_link_loop_other) (simp_all add: ad)
    then show ?thesis using True Suc.prems by (simp add: ad)
  qed (use Suc in simp)
qed simp

lemma mp_link_blocks_chain:
  assumes r: "start + n * stride < 2 ^ 32" "0 < stride" "0 < start" and i: "i < n"
  shows "free_chain (mp_link_blocks start stride n w) (start + i * stride) (map (\<lambda>j. start + j * stride) [i..<n])"
proof -
  have last: "block_addr start stride (n + 2 ^ 32 - 1) = start + (n - 1) * stride"
  proof -
    have "start + (n + 2 ^ 32 - 1) * stride = start + (n - 1) * stride + stride * 2 ^ 32" using i by (cases n) (simp_all add: algebra_simps)
    then have "block_addr start stride (n + 2 ^ 32 - 1) = block_addr start stride (n - 1)" unfolding block_addr_def by (metis mod_mult_self1 mult.commute)
    then show ?thesis using block_addr_eq [OF r(1), of "n - 1"] by simp
  qed
  have at: "mp_link_blocks start stride n w (start + j * stride) = (if Suc j = n then 0 else start + Suc j * stride)" if "j < n" for j
    using mp_link_loop_at [OF r(1,2), of 0 n j w] that r(2) unfolding mp_link_blocks_def last by auto
  show ?thesis using i
  proof (induction "n - i" arbitrary: i)
    case (Suc d)
    show ?case
    proof (cases "Suc i = n")
      case True
      then show ?thesis using Suc.prems r(3) at [of i] by (simp add: upt_conv_Cons)
    next
      case False
      then have "free_chain (mp_link_blocks start stride n w) (start + Suc i * stride) (map (\<lambda>j. start + j * stride) [Suc i..<n])"
        using Suc.prems Suc.hyps(2) by (intro Suc.hyps(1)) simp_all
      then show ?thesis using Suc.prems False r(3) at [of i] by (simp add: upt_conv_Cons)
    qed
  qed simp
qed

lemma rt_mp_init_inv:
  assumes init: "rt_mp_init m name start sz bsz k P0 = Some (k1, P)"
    and room: "start + sz < 2 ^ 32" "align_up4 bsz + 4 \<le> align_down4 sz"
  shows "pool_inv m (mp_blocks (pl_mp P m)) P" "mp_start_address (pl_mp P m) = start" "mp_block_size (pl_mp P m) = align_up4 bsz"
    "mp_block_total_count (pl_mp P m) = align_down4 sz div (align_up4 bsz + 4)"
proof -
  let ?s = "align_up4 bsz + 4" and ?n = "align_down4 sz div (align_up4 bsz + 4)"
  have "align_down4 sz \<le> sz" by (simp add: align_down4_def)
  then have st: "add32 (align_up4 bsz) 4 = ?s" using room by (simp add: add32_def)
  have mp: "pl_mp P m = \<lparr>mp_start_address = start, mp_size = align_down4 sz, mp_block_size = align_up4 bsz, mp_block_list = start,
      mp_block_total_count = ?n, mp_block_free_count = ?n\<rparr>" and w: "pl_word P = mp_link_blocks start ?s ?n (pl_word P0)"
    and start: "0 < start"
    using init st by (auto simp: rt_mp_init_def bind_Some_iff Let_def)
  show "mp_start_address (pl_mp P m) = start" "mp_block_size (pl_mp P m) = align_up4 bsz" "mp_block_total_count (pl_mp P m) = ?n"
    by (simp_all add: mp)
  have "?n * ?s \<le> align_down4 sz" by simp
  then have b: "start + ?n * ?s < 2 ^ 32" using room(1) \<open>align_down4 sz \<le> sz\<close> by linarith
  have n: "0 < ?n" using room(2) by (simp add: div_greater_zero_iff)
  have bl: "mp_blocks (pl_mp P m) = map (\<lambda>j. start + j * ?s) [0..<?n]" by (simp add: mp mp_blocks_def mp_stride_def)
  have "free_chain (pl_word P) start (mp_blocks (pl_mp P m))"
    using mp_link_blocks_chain [OF b _ start n, of "pl_word P0"] by (simp add: w bl)
  then show "pool_inv m (mp_blocks (pl_mp P m)) P"
    using b start distinct_mp_blocks [of "pl_mp P m"] by (simp add: pool_inv_def mp mp_stride_def)
qed

section \<open>The calls\<close>

lemma mp_alloc_loop_free:
  assumes inv: "pool_inv m (b # bs) P"
  obtains P' where "mp_alloc_loop th m time k P = Some (Block (Some (b + 4)), k, P')" "pool_inv m bs P'"
    "mp_blocks (pl_mp P' m) = mp_blocks (pl_mp P m)" "mp_block_size (pl_mp P' m) = mp_block_size (pl_mp P m)" "mp_put m b P' = P"
proof -
  have c: "mp_block_free_count (pl_mp P m) \<noteq> 0" using inv by (auto simp: pool_inv_def)
  show thesis by (rule mp_take_inv [OF inv]) (rule that, simp_all add: mp_alloc_loop_def c)
qed

lemma mp_alloc_loop_empty:
  assumes "pool_inv m [] P"
  shows "mp_alloc_loop th m 0 k P = Some (Block None, rt_set_errno (- RT_ETIMEOUT) k, P)"
    "mp_alloc_loop th m time k P = Some (r, k', P') \<Longrightarrow> P' = P \<and> (\<forall>b. r \<noteq> Block (Some b))"
  using assms by (auto simp: mp_alloc_loop_def pool_inv_def bind_Some_iff split: if_splits)

lemma rt_mp_free_put:
  assumes inv: "pool_inv m fs P" and b: "b \<in> set (mp_blocks (pl_mp P m))" "b \<notin> set fs"
  shows "rt_mp_free (b + 4) k P = (case k_list k (Mp_q m) of [] \<Rightarrow> Some (k, mp_put m b P)
    | t # _ \<Rightarrow> do { (_, k1) \<leftarrow> rt_thread_resume t (thread_set_error t RT_EOK k); k2 \<leftarrow> rt_schedule k1; Some (k2, mp_put m b P) })"
  using mp_put_inv(1) [OF inv b] pool_invD(1) [OF inv b(1)]
  by (cases "k_list k (Mp_q m)") (simp_all add: rt_mp_free_def Let_def)

lemma mp_alloc_loop_run:
  assumes run: "pool_run m bl bsz (P, U)" and al: "mp_alloc_loop th m time k P = Some (r, k', P')"
  shows "pool_run m bl bsz (P', case r of Block (Some b) \<Rightarrow> insert b U | _ \<Rightarrow> U)" "r = Block (Some b) \<Longrightarrow> b \<notin> U"
proof -
  obtain fs where fs: "pool_inv m fs P" "U = blocks_in_use m fs P" "mp_blocks (pl_mp P m) = bl" "mp_block_size (pl_mp P m) = bsz"
    using run by (auto simp: pool_run_def)
  have "pool_run m bl bsz (P', case r of Block (Some b) \<Rightarrow> insert b U | _ \<Rightarrow> U) \<and> (\<forall>b. r = Block (Some b) \<longrightarrow> b \<notin> U)"
  proof (cases fs)
    case Nil
    then have "P' = P" "\<forall>b. r \<noteq> Block (Some b)" using mp_alloc_loop_empty(2) [OF _ al] fs(1) by auto
    then show ?thesis using run by (auto split: mp_result.split option.split)
  next
    case (Cons c cs)
    note i = fs(1) [unfolded Cons]
    obtain Q where Q: "mp_alloc_loop th m time k P = Some (Block (Some (c + 4)), k, Q)" "pool_inv m cs Q"
      "mp_blocks (pl_mp Q m) = bl" "mp_block_size (pl_mp Q m) = bsz"
      by (rule mp_alloc_loop_free [OF i, of th time k]) (use fs in auto)
    have c: "c \<in> set bl" "c \<notin> set cs" using i fs(3) by (auto simp: pool_inv_def)
    have "insert (c + 4) U = blocks_in_use m cs Q" "c + 4 \<notin> U"
      using c by (auto simp: blocks_in_use_def fs(2,3) Q(3) Cons)
    then show ?thesis using al Q by (auto simp: pool_run_def)
  qed
  then show "pool_run m bl bsz (P', case r of Block (Some b) \<Rightarrow> insert b U | _ \<Rightarrow> U)" "r = Block (Some b) \<Longrightarrow> b \<notin> U"
    by blast+
qed

lemma mp_free_run:
  assumes run: "pool_run m bl bsz (P, U)" and b: "b \<in> U" and fr: "rt_mp_free b k P = Some (k', P')"
  shows "pool_run m bl bsz (P', U - {b})"
proof -
  obtain fs where fs: "pool_inv m fs P" "U = blocks_in_use m fs P" "mp_blocks (pl_mp P m) = bl" "mp_block_size (pl_mp P m) = bsz"
    using run by (auto simp: pool_run_def)
  obtain c where c: "b = c + 4" "c \<in> set (mp_blocks (pl_mp P m))" "c \<notin> set fs" using b fs(2) by (auto simp: blocks_in_use_def)
  have "P' = mp_put m c P" using fr rt_mp_free_put [OF fs(1) c(2,3), of k] c(1) by (auto simp: bind_Some_iff split: list.splits)
  moreover note put = mp_put_inv [OF fs(1) c(2,3)]
  have "U - {b} = blocks_in_use m (c # fs) (mp_put m c P)" using c by (auto simp: blocks_in_use_def fs(2) put(3))
  ultimately show ?thesis using put fs by (auto simp: pool_run_def)
qed

lemma mp_step_run:
  assumes "mp_step m s s'" "pool_run m bl bsz s"
  shows "pool_run m bl bsz s'"
  using assms
proof (induction rule: mp_step.induct)
  case (mp_alloc time k P b k' P' U)
  then show ?case using mp_alloc_loop_run(1) [of m bl bsz P U _ _ k "Block (Some b)"] by (auto simp: rt_mp_alloc_def)
next
  case (mp_alloc_other time k P r k' P' U)
  then show ?case using mp_alloc_loop_run(1) [of m bl bsz P U _ _ k r] by (auto simp: rt_mp_alloc_def)
next
  case (mp_cont t time start k P b k' P' U)
  then show ?case
    using mp_alloc_loop_run(1) [of m bl bsz P U _ _ k "Block (Some b)"] by (auto simp: rt_mp_alloc_cont_def split: if_splits)
next
  case (mp_cont_other t time start k P r k' P' U)
  then show ?case using mp_alloc_loop_run(1) [of m bl bsz P U _ _ k r] by (auto simp: rt_mp_alloc_cont_def split: if_splits)
next
  case (mp_free b U k P k' P')
  then show ?case by (auto intro: mp_free_run)
qed

lemma pool_run_facts:
  assumes run: "pool_run m bl bsz (P, U)"
  shows "U \<subseteq> (\<lambda>b. b + 4) ` set bl" "finite U" "card U + mp_block_free_count (pl_mp P m) = length bl"
proof -
  obtain fs where fs: "pool_inv m fs P" "U = blocks_in_use m fs P" "mp_blocks (pl_mp P m) = bl"
    using run by (auto simp: pool_run_def)
  show "U \<subseteq> (\<lambda>b. b + 4) ` set bl" "finite U" by (auto simp: fs(2,3) blocks_in_use_def)
  have i: "distinct fs" "set fs \<subseteq> set bl" "length fs = mp_block_free_count (pl_mp P m)" using fs by (simp_all add: pool_inv_def)
  have "card U = card (set bl - set fs)" unfolding fs(2,3) blocks_in_use_def by (rule card_image) (simp add: inj_on_def)
  also have "\<dots> = card (set bl) - card (set fs)" by (rule card_Diff_subset) (simp_all add: i)
  also have "card (set bl) = length bl" using distinct_mp_blocks [of "pl_mp P m"] by (simp add: fs(3) distinct_card)
  finally show "card U + mp_block_free_count (pl_mp P m) = length bl"
    using i card_mono [OF _ i(2)] \<open>card (set bl) = length bl\<close> by (simp add: distinct_card)
qed

lemma pool_run_alloc:
  assumes run: "pool_run m bl bsz (P, U)" and c: "0 < mp_block_free_count (pl_mp P m)"
  shows "\<exists>b P'. rt_mp_alloc m time k P = Some (Block (Some b), k, P') \<and> b \<notin> U
    \<and> (k_list k (Mp_q m) = [] \<longrightarrow> rt_mp_free b k P' = Some (k, P))"
proof -
  obtain fs where fs: "pool_inv m fs P" using run by (auto simp: pool_run_def)
  then obtain a as where "fs = a # as" using c by (cases fs) (auto simp: pool_inv_def)
  note i = fs [unfolded this]
  obtain P' where P': "mp_alloc_loop (rt_thread_self k) m time k P = Some (Block (Some (a + 4)), k, P')" "pool_inv m as P'"
    "mp_blocks (pl_mp P' m) = mp_blocks (pl_mp P m)" "mp_put m a P' = P"
    by (rule mp_alloc_loop_free [OF i, of "rt_thread_self k" time k]) auto
  have "a \<in> set (mp_blocks (pl_mp P' m))" "a \<notin> set as" using i by (auto simp: pool_inv_def P'(3))
  from rt_mp_free_put [OF P'(2) this, of k] have "k_list k (Mp_q m) = [] \<longrightarrow> rt_mp_free (a + 4) k P' = Some (k, P)" by (simp add: P'(4))
  then show ?thesis using P'(1) mp_alloc_loop_run(2) [OF run P'(1)] unfolding rt_mp_alloc_def by blast
qed

section \<open>Waiting for a block\<close>

lemma mp_wait_succeeds:
  assumes live: "kernel_live k" and st: "thread_state k t = RT_THREAD_READY" and h: "waiting_queue h" and time: "time < 0x7fffffff"
    and s: "s \<noteq> t" "thread_state k s = RT_THREAD_READY"
  shows "\<exists>k'. mp_wait h t time k = Some k' \<and> kernel_live k' \<and> thread_frame {t} k k' \<and> thread_state k' t = RT_THREAD_SUSPEND
    \<and> k_list k' h = t # k_list k h \<and> (0 < time \<longrightarrow> K_thread_timer t \<in> set (timer_list k')
         \<and> tm_timeout_tick (k_tmr k' (K_thread_timer t)) = rt_tick k + word_of_int time)
    \<and> (scheduler_lock_nest k = 0 \<longrightarrow> runs_highest k')"
proof -
  obtain k0 where k0: "rt_thread_suspend t k = Some (RT_EOK, k0)" and L: "\<And>g. waiting_queue g \<Longrightarrow> k_list k0 g = k_list k g"
    by (rule suspend_succeeds [OF live st]) blast
  obtain k1 where k1: "rt_ipc_list_suspend h t 0 k = Some k1" and live1: "kernel_live k1" and fr1: "thread_frame {t} k k1"
    and thr1: "k_thr k1 t = set_stat RT_THREAD_SUSPEND (k_thr k t)" and l1: "k_list k1 h = k_list k h @ [t]"
    by (rule ipc_suspend_succeeds [OF live st h, of 0]) (auto simp: enqueue_def)
  have k1': "k1 = k0\<lparr>k_list := (k_list k0)(h := k_list k h @ [t])\<rparr>"
    using k1 k0 L [OF h] by (simp add: rt_ipc_list_suspend_def tlist_insert_before_def)
  define k2 where "k2 = tlist_insert_after h t k0"
  have k2: "k2 = k1\<lparr>k_list := (k_list k1)(h := t # k_list k h)\<rparr>" by (simp add: k2_def tlist_insert_after_def k1' L [OF h])
  have "distinct (k_list k1 h)" using sched_wf_distinct [of "{}" k1 h] liveD(4) [OF live1] by (simp add: sched_wf_def)
  then have live2: "kernel_live k2" unfolding k2 by (intro live_reorder [OF live1 h]) (simp_all add: l1)
  have fr2: "thread_frame {t} k k2" using fr1 by (simp add: thread_frame_def k2)
  have st2: "thread_state k2 t = RT_THREAD_SUSPEND" using thr1 by (simp add: thread_state_def k2)
  have s2: "thread_state k2 s = RT_THREAD_READY" using s fr2 by (simp add: thread_frame_def thread_state_def)
  have ty: "rt_object_get_type k2 (K_thread_timer t) = RT_Object_Class_Timer" using live_types(2) [OF live2] st2 by blast
  have same: "scheduler_lock_nest k2 = scheduler_lock_nest k" "rt_tick k2 = rt_tick k" using fr2 by (simp_all add: thread_frame_def)
  obtain k3 k' where k3: "if time > 0 then rt_timer_start (K_thread_timer t)
        (tmr_upd (K_thread_timer t) (\<lambda>tm. tm\<lparr>tm_init_tick := word_of_int time\<rparr>) k2) = Some k3 else k3 = k2"
    and k': "rt_schedule k3 = Some k'" and P: "kernel_live k'" "thread_frame {t} k2 k'" "k_thr k' = k_thr k2" "k_list k' = k_list k2"
      "0 < time \<Longrightarrow> K_thread_timer t \<in> set (timer_list k')
         \<and> tm_timeout_tick (k_tmr k' (K_thread_timer t)) = rt_tick k2 + word_of_int time"
      "scheduler_lock_nest k2 = 0 \<Longrightarrow> runs_highest k'"
    by (rule park_succeeds [OF live2 st2 time s2]) blast
  have "mp_wait h t time k = Some k'"
    using k0 k3 k' ty by (simp add: mp_wait_def k2_def [symmetric] rt_timer_control_def split: if_splits)
  moreover have "thread_state k' t = RT_THREAD_SUSPEND" using st2 P(3) by (simp add: thread_state_def)
  moreover have "k_list k' h = t # k_list k h" by (simp add: P(4) k2)
  moreover note P(1) thread_frame_trans1 [OF fr2 P(2)]
  ultimately show ?thesis using P(5,6) same by (intro exI [of _ k']) simp
qed

lemma rt_mp_alloc_waits:
  assumes live: "kernel_live k" and t: "may_block t k" and empty: "mp_block_free_count (pl_mp P m) = 0"
    and time: "time \<noteq> 0" "time < 0x7fffffff"
  shows "\<exists>k'. rt_mp_alloc m time k P = Some (Mp_wait time (rt_tick k), k', P) \<and> kernel_live k'
    \<and> thread_state k' t = RT_THREAD_SUSPEND \<and> k_list k' (Mp_q m) = t # k_list k (Mp_q m)"
proof -
  have t': "current_thread k = Some t" "interrupt_nest k = 0" using t by (simp_all add: may_block_def)
  let ?k = "thread_set_error t RT_EOK k"
  have "may_block t ?k" using t by simp
  then obtain s where "thread_state ?k t = RT_THREAD_READY" "s \<noteq> t" "thread_state ?k s = RT_THREAD_READY"
    unfolding may_block_def by blast
  from mp_wait_succeeds [OF live_upd(1) [OF live] this(1) _ time(2) this(2,3), of "Mp_q m"]
  obtain k' where "mp_wait (Mp_q m) t time ?k = Some k'" "kernel_live k'" "thread_state k' t = RT_THREAD_SUSPEND"
    "k_list k' (Mp_q m) = t # k_list k (Mp_q m)"
    by (auto simp: thread_set_error_def)
  then show ?thesis
    using t' empty time(1) by (simp add: rt_mp_alloc_def mp_alloc_loop_def rt_thread_self_def not_in_interrupt_def rt_tick_get_def)
qed

lemma rt_mp_free_wakes:
  assumes live: "kernel_live k" and inv: "pool_inv m fs P" and b: "b \<in> set (mp_blocks (pl_mp P m))" "b \<notin> set fs"
    and q: "k_list k (Mp_q m) = t # ts"
  shows "\<exists>k'. rt_mp_free (b + 4) k P = Some (k', mp_put m b P) \<and> wakes (Mp_q m) t ts (thread_set_error t RT_EOK k) k'"
proof -
  have "k_list (thread_set_error t RT_EOK k) (Mp_q m) = t # ts" using q by (simp add: thread_set_error_def)
  then obtain k1 k' where "rt_ipc_list_resume (Mp_q m) (thread_set_error t RT_EOK k) = Some k1" "rt_schedule k1 = Some k'"
    "wakes (Mp_q m) t ts (thread_set_error t RT_EOK k) k'"
    by (rule ipc_resume_succeeds [OF live_upd(1) [OF live], of "Mp_q m", rotated]) simp_all
  then show ?thesis
    using rt_mp_free_put [OF inv b, of k] q by (auto simp: rt_ipc_list_resume_def thread_set_error_def bind_Some_iff)
qed

section \<open>Safety of the pool\<close>

text \<open>
  C37. A memory pool never hands out a block twice. After \<^verbatim>\<open>rt_mp_init\<close> with room for at least one block and any sequence of allocations, waiting or not,
  and releases of blocks in use, in any state of the kernel: the blocks in use lie inside the pool with their word in
  front, do not overlap, and together with the free ones they are all the blocks of the pool; while a block is free
  \<^verbatim>\<open>rt_mp_alloc\<close> returns at once a block that is not in use, and releasing it at once restores the pool; without a
  free block a call that does not wait returns null with the error \<^verbatim>\<open>-RT_ETIMEOUT\<close>.
\<close>

theorem rt_mp_run_safe:
  assumes init: "rt_mp_init m name start sz bsz k0 P0 = Some (k1, P)"
    and room: "start + sz < 2 ^ 32" "align_up4 bsz + 4 \<le> align_down4 sz"
    and run: "(mp_step m)\<^sup>*\<^sup>* (P, {}) (P', U)"
  shows "(\<forall>a \<in> U. start + 4 \<le> a \<and> a + align_up4 bsz \<le> start + sz)
    \<and> (\<forall>a \<in> U. \<forall>b \<in> U. a \<noteq> b \<longrightarrow> a + align_up4 bsz + 4 \<le> b \<or> b + align_up4 bsz + 4 \<le> a)
    \<and> finite U \<and> card U + mp_block_free_count (pl_mp P' m) = align_down4 sz div (align_up4 bsz + 4)
    \<and> (\<forall>time k. 0 < mp_block_free_count (pl_mp P' m) \<longrightarrow> (\<exists>b P''. rt_mp_alloc m time k P' = Some (Block (Some b), k, P'')
         \<and> b \<notin> U \<and> (k_list k (Mp_q m) = [] \<longrightarrow> rt_mp_free b k P'' = Some (k, P'))))
    \<and> (mp_block_free_count (pl_mp P' m) = 0 \<longrightarrow> (\<forall>k. rt_mp_alloc m 0 k P' = Some (Block None, rt_set_errno (- RT_ETIMEOUT) k, P')))"
proof -
  let ?mp = "pl_mp P m" and ?bl = "mp_blocks (pl_mp P m)"
  note I = rt_mp_init_inv [OF init room]
  have "pool_run m ?bl (align_up4 bsz) (P, {})" using I(1,3) by (auto simp: pool_run_def blocks_in_use_def)
  with run have R: "pool_run m ?bl (align_up4 bsz) (P', U)"
    by (induction rule: rtranclp_induct) (auto intro: mp_step_run)
  note F = pool_run_facts [OF R]
  have stride: "mp_stride ?mp = align_up4 bsz + 4" by (simp add: mp_stride_def I(3))
  have "align_down4 sz div (align_up4 bsz + 4) * (align_up4 bsz + 4) \<le> sz"
    by (rule order_trans [OF div_times_less_eq_dividend]) (simp add: align_down4_def)
  then have "start + 4 \<le> a \<and> a + align_up4 bsz \<le> start + sz" if "a \<in> U" for a
    using F(1) that mp_block_bounds [of _ ?mp] unfolding stride I(2,4) by fastforce
  moreover have "a + align_up4 bsz + 4 \<le> b \<or> b + align_up4 bsz + 4 \<le> a" if ab: "a \<in> U" "b \<in> U" "a \<noteq> b" for a b
  proof -
    obtain c d where cd: "a = c + 4" "b = d + 4" "c \<in> set ?bl" "d \<in> set ?bl" using F(1) ab(1,2) by blast
    then have "c < d \<or> d < c" using ab(3) by auto
    then show ?thesis using mp_blocks_apart [OF cd(3,4)] mp_blocks_apart [OF cd(4,3)] cd(1,2) unfolding stride by auto
  qed
  moreover have "rt_mp_alloc m 0 k P' = Some (Block None, rt_set_errno (- RT_ETIMEOUT) k, P')"
    if "mp_block_free_count (pl_mp P' m) = 0" for k
    by (simp add: rt_mp_alloc_def mp_alloc_loop_def that)
  ultimately show ?thesis using F(2,3) pool_run_alloc [OF R] I(4) by simp
qed

theorem rt_mp_run_safe_witness:
  "\<exists>k1 P P'. rt_mp_init 0 [109] 1000 26 5 kernel_zero \<lparr>pl_mp = (\<lambda>_. undefined), pl_word = (\<lambda>_. 0)\<rparr> = Some (k1, P)
    \<and> rt_mp_alloc 0 0 k1 P = Some (Block (Some 1004), k1, P') \<and> mp_block_free_count (pl_mp P' 0) = 1"
proof -
  let ?P0 = "\<lparr>pl_mp = (\<lambda>_. undefined), pl_word = (\<lambda>_. 0)\<rparr>"
  obtain k1 P where i: "rt_mp_init 0 [109] 1000 26 5 kernel_zero ?P0 = Some (k1, P)"
    and P: "mp_block_list (pl_mp P 0) = 1000" "mp_block_free_count (pl_mp P 0) = 2"
    by (auto simp: rt_mp_init_def rt_object_init_def rt_object_get_information_def rt_object_container_def rt_enter_critical_def
        rt_exit_critical_def wrap_s16_def align_down4_def align_up4_def add32_def kernel_zero_def Let_def)
  obtain P' where a: "rt_mp_alloc 0 0 k1 P = Some (Block (Some 1004), k1, P')"
    using P by (auto simp: rt_mp_alloc_def mp_alloc_loop_def mp_take_def Let_def add32_def)
  have "(mp_step 0)\<^sup>*\<^sup>* (P, {}) (P', {1004})" using mp_alloc [OF a, of "{}"] by blast
  from rt_mp_run_safe [OF i _ _ this] have "mp_block_free_count (pl_mp P' 0) = 1"
    by (simp add: align_down4_def align_up4_def add32_def)
  then show ?thesis using i a by blast
qed

end
