(* ===== verification/Queue_Spec.thy ===== *)
theory Queue_Spec
  imports Ipc_Spec
begin

text \<open>
  What the mailbox and the message queue promise at the level of kernel calls: they are bounded
  first-in first-out queues (interpretations of \<open>bounded_fifo\<close> on the kernel state), a full queue refuses
  and an empty one makes the receiver wait, and threads that wait are woken one by one.
\<close>

section \<open>Definitions\<close>

text \<open>A mailbox of a live kernel as a queue: sends and receives that do not wait.\<close>

definition mbox_inv :: "nat \<Rightarrow> kstate \<Rightarrow> bool" where
  "mbox_inv m k \<longleftrightarrow> kernel_live k \<and> rt_object_get_type k (K_mb m) = RT_Object_Class_MailBox \<and> mb_inv (k_mb k m)"

definition mbox_contents :: "nat \<Rightarrow> kstate \<Rightarrow> u32 list" where
  "mbox_contents m k = mb_contents (k_mb k m)"

definition mbox_capacity :: "nat \<Rightarrow> kstate \<Rightarrow> nat" where
  "mbox_capacity m k = mb_size (k_mb k m)"

definition mbox_put :: "nat \<Rightarrow> kstate \<Rightarrow> u32 \<Rightarrow> kstate option" where
  "mbox_put m k v = do { (r, k') \<leftarrow> rt_mb_send m v k; rt_assert (r = Return RT_EOK); Some k' }"

definition mbox_get :: "nat \<Rightarrow> kstate \<Rightarrow> (u32 \<times> kstate) option" where
  "mbox_get m k = do { (r, w, k') \<leftarrow> rt_mb_recv m 0 k; rt_assert (r = Return RT_EOK); v \<leftarrow> w; Some (v, k') }"

text \<open>A message queue of a live kernel as a queue of messages of \<open>n\<close> bytes.\<close>

definition mqueue_inv :: "nat \<Rightarrow> nat \<Rightarrow> kstate \<Rightarrow> bool" where
  "mqueue_inv q n k \<longleftrightarrow> kernel_live k \<and> rt_object_get_type k (K_mq q) = RT_Object_Class_MessageQueue
     \<and> mq_inv (k_mq k q) \<and> 0 < n \<and> n \<le> mq_msg_size (k_mq k q)"

definition mqueue_contents :: "nat \<Rightarrow> nat \<Rightarrow> kstate \<Rightarrow> u8 list list" where
  "mqueue_contents q n k = mq_contents n (k_mq k q)"

definition mqueue_capacity :: "nat \<Rightarrow> kstate \<Rightarrow> nat" where
  "mqueue_capacity q k = mq_max_msgs (k_mq k q)"

definition mqueue_put :: "nat \<Rightarrow> nat \<Rightarrow> kstate \<Rightarrow> u8 list \<Rightarrow> kstate option" where
  "mqueue_put q n k bs = do { (r, k') \<leftarrow> rt_mq_send q bs n k; rt_assert (r = Return RT_EOK); Some k' }"

definition mqueue_get :: "nat \<Rightarrow> nat \<Rightarrow> kstate \<Rightarrow> (u8 list \<times> kstate) option" where
  "mqueue_get q n k = do { (r, bs, k') \<leftarrow> rt_mq_recv q n 0 k; rt_assert (r = Return RT_EOK); Some (bs, k') }"

text \<open>What waking the first thread of a queue, if any, does.\<close>

definition wakes_first :: "thead \<Rightarrow> kstate \<Rightarrow> kstate \<Rightarrow> bool" where
  "wakes_first h k k' \<longleftrightarrow> (case k_list k h of [] \<Rightarrow> k' = k | t # ts \<Rightarrow> wakes h t ts k k')"

text \<open>The sample system with an empty mailbox of two mails.\<close>

definition mbox_kernel :: kstate where
  "mbox_kernel = sample_kernel\<lparr>k_mb := (\<lambda>_. \<lparr>mb_pool_addr = 0, mb_msg_pool = [0, 0], mb_size = 2, mb_entry = 0,
     mb_in_offset = 0, mb_out_offset = 0\<rparr>)\<rparr>"

text \<open>The sample system with an empty queue of two messages of at most four bytes.\<close>

definition mqueue_kernel :: kstate where
  "mqueue_kernel = sample_kernel\<lparr>k_mq := (\<lambda>_. \<lparr>mq_pool_addr = 0, mq_msg_size = 4, mq_max_msgs = 2, mq_entry = 0,
     mq_next = (\<lambda>_. None)(1 := Some 0), mq_data = (\<lambda>_ _. 0), mq_head = None, mq_tail = None, mq_free = Some 1\<rparr>)\<rparr>"

section \<open>Waking one thread\<close>

lemma wake_first_succeeds:
  assumes live: "kernel_live k" and h: "waiting_queue h"
  obtains k' where "wake_first h k = Some k'" "wakes_first h k k'"
proof (cases "k_list k h")
  case Nil
  show thesis by (rule that [of k]) (simp_all add: Nil wake_first_def wakes_first_def)
next
  case (Cons t ts)
  show thesis
    by (rule ipc_resume_succeeds [OF live h Cons], rule that) (simp_all add: Cons wake_first_def wakes_first_def)
qed

lemma wakes_first_frame:
  assumes "wakes_first h k k'" "kernel_live k"
  shows "kernel_live k'" "k_mb k' = k_mb k" "k_mq k' = k_mq k" "rt_object_get_type k' p = rt_object_get_type k p"
    "k_obj k' (K_mb m) = k_obj k (K_mb m)"
  using assms
  by (auto simp: wakes_first_def wakes_def thread_frame_def rt_object_get_type_def split: list.splits)

section \<open>Mailboxes\<close>

lemma mb_upd_type [simp]: "rt_object_get_type (mb_upd m f k) p = rt_object_get_type k p" "k_mb (mb_upd m f k) m = f (k_mb k m)"
  by (simp_all add: mb_upd_def rt_object_get_type_def)

lemma mb_send_full:
  "mbox_inv m k \<Longrightarrow> mb_entry (k_mb k m) = mb_size (k_mb k m) \<Longrightarrow> rt_mb_send m v k = Some (Return (- RT_EFULL), k)"
  by (simp add: mbox_inv_def rt_mb_send_def rt_mb_send_wait_def)

lemma mb_send_room:
  assumes inv: "mbox_inv m k" and room: "mb_entry (k_mb k m) < mb_size (k_mb k m)"
  obtains mb k' where "rt_mb_send_wait m v time k = Some (Return RT_EOK, k')" "mb_inv mb" "mb_contents mb = mb_contents (k_mb k m) @ [v]"
    "mb_size mb = mb_size (k_mb k m)" "wakes_first (Mb_q m) (mb_upd m (\<lambda>_. mb) k) k'"
    "mbox_inv m k'" "k_mb k' m = mb"
proof -
  have live: "kernel_live k" and ty: "rt_object_get_type k (K_mb m) = RT_Object_Class_MailBox" and mb: "mb_inv (k_mb k m)"
    using inv by (simp_all add: mbox_inv_def)
  obtain mb where st: "mb_store v (k_mb k m) = Some (True, mb)" "mb_inv mb" "mb_contents mb = mb_contents (k_mb k m) @ [v]"
    "mb_size mb = mb_size (k_mb k m)" using mb_store_room [OF mb room] by blast
  note live1 = live_upd(4) [OF live, of m "\<lambda>_. mb"]
  obtain k' where k': "wake_first (Mb_q m) (mb_upd m (\<lambda>_. mb) k) = Some k'" "wakes_first (Mb_q m) (mb_upd m (\<lambda>_. mb) k) k'"
    by (rule wake_first_succeeds [OF live1, of "Mb_q m"]) simp_all
  note F = wakes_first_frame [OF k'(2) live1]
  have "rt_mb_send_wait m v time k = Some (Return RT_EOK, k')"
    using ty room st(1) k'(1) by (simp add: rt_mb_send_wait_def mb_send_loop_def Let_def)
  then show thesis using that st k'(2) F ty by (simp add: mbox_inv_def)
qed

lemma mb_recv_some:
  assumes inv: "mbox_inv m k" and c: "mb_contents (k_mb k m) = v # vs"
  obtains mb k' where "rt_mb_recv m time k = Some (Return RT_EOK, Some v, k')" "mb_inv mb" "mb_contents mb = vs"
    "mb_size mb = mb_size (k_mb k m)" "wakes_first (Mb_send_q m) (mb_upd m (\<lambda>_. mb) k) k'"
    "mbox_inv m k'" "k_mb k' m = mb"
proof -
  have live: "kernel_live k" and ty: "rt_object_get_type k (K_mb m) = RT_Object_Class_MailBox" and mb: "mb_inv (k_mb k m)"
    using inv by (simp_all add: mbox_inv_def)
  have e: "mb_entry (k_mb k m) \<noteq> 0" using c length_mb_contents [of "k_mb k m"] by simp
  obtain mb where f: "mb_fetch (k_mb k m) = Some (v, mb)" "mb_inv mb" "mb_contents mb = vs" "mb_size mb = mb_size (k_mb k m)"
    using mb_fetch_some [OF mb c] by blast
  note live1 = live_upd(4) [OF live, of m "\<lambda>_. mb"]
  obtain k' where k': "wake_first (Mb_send_q m) (mb_upd m (\<lambda>_. mb) k) = Some k'"
      "wakes_first (Mb_send_q m) (mb_upd m (\<lambda>_. mb) k) k'"
    by (rule wake_first_succeeds [OF live1, of "Mb_send_q m"]) simp_all
  note F = wakes_first_frame [OF k'(2) live1]
  have "rt_mb_recv m time k = Some (Return RT_EOK, Some v, k')"
    using ty e f(1) k'(1) by (simp add: rt_mb_recv_def mb_recv_loop_def)
  then show thesis using that f k'(2) F ty by (simp add: mbox_inv_def)
qed

interpretation mbox: bounded_fifo "mbox_inv m" "\<lambda>_. True" "mbox_contents m" "mbox_capacity m" "mbox_put m" "mbox_get m" for m
proof
  fix k :: kstate and v :: u32 and vs :: "u32 list"
  assume inv: "mbox_inv m k"
  then have bound: "mb_entry (k_mb k m) \<le> mb_size (k_mb k m)" by (simp add: mbox_inv_def mb_inv_def)
  show "\<exists>k'. mbox_put m k v = Some k' \<and> mbox_inv m k' \<and> mbox_contents m k' = mbox_contents m k @ [v]
      \<and> mbox_capacity m k' = mbox_capacity m k" if room: "length (mbox_contents m k) < mbox_capacity m k"
  proof -
    have "mb_entry (k_mb k m) < mb_size (k_mb k m)" using room by (simp add: mbox_contents_def mbox_capacity_def)
    then show ?thesis
      by (rule mb_send_room [OF inv, where v = v and time = 0])
        (auto simp: mbox_put_def rt_mb_send_def mbox_contents_def mbox_capacity_def)
  qed
  show "length (mbox_contents m k) = mbox_capacity m k \<Longrightarrow> mbox_put m k v = None"
    using mb_send_full [OF inv] by (simp add: mbox_put_def mbox_contents_def mbox_capacity_def)
  show "\<exists>k'. mbox_get m k = Some (v, k') \<and> mbox_inv m k' \<and> mbox_contents m k' = vs \<and> mbox_capacity m k' = mbox_capacity m k"
    if c: "mbox_contents m k = v # vs"
    by (rule mb_recv_some [OF inv c [unfolded mbox_contents_def], where time = 0])
      (auto simp: mbox_get_def mbox_contents_def mbox_capacity_def)
  show "mbox_contents m k = [] \<Longrightarrow> mbox_get m k = None"
    using inv length_mb_contents [of "k_mb k m"]
    by (simp add: mbox_get_def mbox_contents_def mbox_inv_def rt_mb_recv_def)
  show "length (mbox_contents m k) \<le> mbox_capacity m k" using bound by (simp add: mbox_contents_def mbox_capacity_def)
qed

section \<open>Message queues\<close>

lemma mq_upd_type [simp]: "rt_object_get_type (mq_upd q f k) p = rt_object_get_type k p" "k_mq (mq_upd q f k) q = f (k_mq k q)"
  by (simp_all add: mq_upd_def rt_object_get_type_def)

lemma mqueue_invD:
  assumes "mqueue_inv q n k"
  obtains qs fs where "kernel_live k" "rt_object_get_type k (K_mq q) = RT_Object_Class_MessageQueue"
    "mq_ok (k_mq k q) qs fs" "0 < n" "n \<le> mq_msg_size (k_mq k q)"
    "mqueue_contents q n k = map (\<lambda>b. map (mq_data (k_mq k q) b) [0..<n]) qs"
    "length qs + length fs = mqueue_capacity q k"
  using assms mq_ok_contents mq_ok_length
  by (auto simp: mqueue_inv_def mq_inv_def mqueue_contents_def mqueue_capacity_def)

text \<open>The end of a send: the message queue is replaced and a receiver woken.\<close>

lemma mq_wake:
  assumes live: "kernel_live k" and ty: "rt_object_get_type k (K_mq q) = RT_Object_Class_MessageQueue" and h: "waiting_queue h"
    and mq: "mq_ok mq qs fs" "0 < n" "n \<le> mq_msg_size mq"
  obtains k' where "wake_first h (mq_upd q (\<lambda>_. mq) k) = Some k'" "wakes_first h (mq_upd q (\<lambda>_. mq) k) k'"
    "mqueue_inv q n k'" "k_mq k' q = mq"
    "mqueue_contents q n k' = map (\<lambda>b. map (mq_data mq b) [0..<n]) qs"
proof -
  note live1 = live_upd(5) [OF live, of q "\<lambda>_. mq"]
  obtain k' where k': "wake_first h (mq_upd q (\<lambda>_. mq) k) = Some k'" "wakes_first h (mq_upd q (\<lambda>_. mq) k) k'"
    by (rule wake_first_succeeds [OF live1 h])
  note F = wakes_first_frame [OF k'(2) live1]
  have "mq_inv mq" using mq(1) by (auto simp: mq_inv_def)
  then show thesis
    using that [OF k'] F ty mq mq_ok_contents [OF mq(1), of n] by (simp add: mqueue_inv_def mqueue_contents_def)
qed

lemma fresh_block_data:
  assumes "b \<notin> set qs" "length bs = n"
  shows "map (\<lambda>c. map (((mq_data mq)(b := block_write bs d)) c) [0..<n]) (qs @ [b])
      = map (\<lambda>c. map (mq_data mq c) [0..<n]) qs @ [bs]"
    "map (\<lambda>c. map (((mq_data mq)(b := block_write bs d)) c) [0..<n]) (b # qs)
      = bs # map (\<lambda>c. map (mq_data mq c) [0..<n]) qs"
  using assms block_write_take [of n bs d] by (auto simp: fun_upd_def)

lemma mq_send_room:
  assumes inv: "mqueue_inv q n k" and bs: "length bs = n"
    and room: "length (mqueue_contents q n k) < mqueue_capacity q k"
  obtains k' where "rt_mq_send_wait q bs n time k = Some (Return RT_EOK, k')" "mqueue_inv q n k'"
    "mqueue_contents q n k' = mqueue_contents q n k @ [bs]" "mqueue_capacity q k' = mqueue_capacity q k"
    "\<exists>mq. wakes_first (Mq_q q) (mq_upd q (\<lambda>_. mq) k) k'"
proof -
  obtain qs fs where live: "kernel_live k" and ty: "rt_object_get_type k (K_mq q) = RT_Object_Class_MessageQueue"
    and ok: "mq_ok (k_mq k q) qs fs" and n: "0 < n" "n \<le> mq_msg_size (k_mq k q)"
    and c: "mqueue_contents q n k = map (\<lambda>b. map (mq_data (k_mq k q) b) [0..<n]) qs"
    and l: "length qs + length fs = mqueue_capacity q k" by (rule mqueue_invD [OF inv])
  obtain b gs where fs: "fs = b # gs" using room c l by (cases fs) auto
  have fr: "mq_free (k_mq k q) = Some b" using mq_free_Some [OF ok] fs by simp
  have nb: "b \<notin> set qs" using ok fs by (auto simp: mq_ok_def mq_lists_def)
  obtain mq where push: "mq_push_tail bs b (k_mq k q) = (True, mq)" and ok': "mq_ok mq (qs @ [b]) gs"
    and d: "mq_data mq = (mq_data (k_mq k q))(b := block_write bs (mq_data (k_mq k q) b))"
    and sz: "mq_msg_size mq = mq_msg_size (k_mq k q)" "mq_max_msgs mq = mq_max_msgs (k_mq k q)"
    by (rule mq_push_tail_ok [OF ok [unfolded fs]])
  have n': "n \<le> mq_msg_size mq" using n sz by simp
  obtain k' where k': "wake_first (Mq_q q) (mq_upd q (\<lambda>_. mq) k) = Some k'" "wakes_first (Mq_q q) (mq_upd q (\<lambda>_. mq) k) k'"
    "mqueue_inv q n k'" "k_mq k' q = mq" "mqueue_contents q n k' = map (\<lambda>b. map (mq_data mq b) [0..<n]) (qs @ [b])"
    by (rule mq_wake [OF live ty _ ok' n(1) n', of "Mq_q q"]) simp_all
  have "rt_mq_send_wait q bs n time k = Some (Return RT_EOK, k')"
    using ty n fr bs push k'(1) by (simp add: rt_mq_send_wait_def mq_send_loop_def arr_read_def Let_def)
  moreover have "mqueue_contents q n k' = mqueue_contents q n k @ [bs]"
    using k'(5) c unfolding d fresh_block_data [OF nb bs] by simp
  moreover have "mqueue_capacity q k' = mqueue_capacity q k" using k'(4) sz by (simp add: mqueue_capacity_def)
  ultimately show thesis using that k'(2,3) by blast
qed

lemma mq_urgent_room:
  assumes inv: "mqueue_inv q n k" and bs: "length bs = n"
    and room: "length (mqueue_contents q n k) < mqueue_capacity q k"
  obtains k' where "rt_mq_urgent q bs n k = Some (RT_EOK, k')" "mqueue_inv q n k'"
    "mqueue_contents q n k' = bs # mqueue_contents q n k" "mqueue_capacity q k' = mqueue_capacity q k"
    "\<exists>mq. wakes_first (Mq_q q) (mq_upd q (\<lambda>_. mq) k) k'"
proof -
  obtain qs fs where live: "kernel_live k" and ty: "rt_object_get_type k (K_mq q) = RT_Object_Class_MessageQueue"
    and ok: "mq_ok (k_mq k q) qs fs" and n: "0 < n" "n \<le> mq_msg_size (k_mq k q)"
    and c: "mqueue_contents q n k = map (\<lambda>b. map (mq_data (k_mq k q) b) [0..<n]) qs"
    and l: "length qs + length fs = mqueue_capacity q k" by (rule mqueue_invD [OF inv])
  obtain b gs where fs: "fs = b # gs" using room c l by (cases fs) auto
  have fr: "mq_free (k_mq k q) = Some b" using mq_free_Some [OF ok] fs by simp
  have nb: "b \<notin> set qs" using ok fs by (auto simp: mq_ok_def mq_lists_def)
  obtain mq where push: "mq_push_head bs b (k_mq k q) = (True, mq)" and ok': "mq_ok mq (b # qs) gs"
    and d: "mq_data mq = (mq_data (k_mq k q))(b := block_write bs (mq_data (k_mq k q) b))"
    and sz: "mq_msg_size mq = mq_msg_size (k_mq k q)" "mq_max_msgs mq = mq_max_msgs (k_mq k q)"
    by (rule mq_push_head_ok [OF ok [unfolded fs]])
  have n': "n \<le> mq_msg_size mq" using n sz by simp
  obtain k' where k': "wake_first (Mq_q q) (mq_upd q (\<lambda>_. mq) k) = Some k'" "wakes_first (Mq_q q) (mq_upd q (\<lambda>_. mq) k) k'"
    "mqueue_inv q n k'" "k_mq k' q = mq" "mqueue_contents q n k' = map (\<lambda>b. map (mq_data mq b) [0..<n]) (b # qs)"
    by (rule mq_wake [OF live ty _ ok' n(1) n', of "Mq_q q"]) simp_all
  have "rt_mq_urgent q bs n k = Some (RT_EOK, k')"
    using ty n fr bs push k'(1) by (simp add: rt_mq_urgent_def arr_read_def Let_def)
  moreover have "mqueue_contents q n k' = bs # mqueue_contents q n k"
    using k'(5) c unfolding d fresh_block_data [OF nb bs] by simp
  moreover have "mqueue_capacity q k' = mqueue_capacity q k" using k'(4) sz by (simp add: mqueue_capacity_def)
  ultimately show thesis using that k'(2,3) by blast
qed

lemma mq_recv_some:
  assumes inv: "mqueue_inv q n k" and m: "mqueue_contents q n k = bs # ms"
  obtains k' where "rt_mq_recv q n time k = Some (Return RT_EOK, bs, k')" "mqueue_inv q n k'"
    "mqueue_contents q n k' = ms" "mqueue_capacity q k' = mqueue_capacity q k"
    "\<exists>mq. wakes_first (Mq_send_q q) (mq_upd q (\<lambda>_. mq) k) k'"
proof -
  obtain qs fs where live: "kernel_live k" and ty: "rt_object_get_type k (K_mq q) = RT_Object_Class_MessageQueue"
    and ok: "mq_ok (k_mq k q) qs fs" and n: "0 < n" "n \<le> mq_msg_size (k_mq k q)"
    and c: "mqueue_contents q n k = map (\<lambda>b. map (mq_data (k_mq k q) b) [0..<n]) qs" by (rule mqueue_invD [OF inv])
  obtain b rs where qs: "qs = b # rs" and b: "bs = map (mq_data (k_mq k q) b) [0..<n]"
    and ms: "ms = map (\<lambda>b. map (mq_data (k_mq k q) b) [0..<n]) rs" using c m by (cases qs) auto
  have e: "mq_entry (k_mq k q) \<noteq> 0" using ok qs by (simp add: mq_ok_def)
  obtain mq where pop: "mq_pop n (k_mq k q) = Some (bs, mq)" and ok': "mq_ok mq rs (b # fs)" and d: "mq_data mq = mq_data (k_mq k q)"
    and sz: "mq_msg_size mq = mq_msg_size (k_mq k q)" "mq_max_msgs mq = mq_max_msgs (k_mq k q)"
    unfolding b by (rule mq_pop_ok [OF ok [unfolded qs] n(2)])
  have n': "n \<le> mq_msg_size mq" using n sz by simp
  obtain k' where k': "wake_first (Mq_send_q q) (mq_upd q (\<lambda>_. mq) k) = Some k'"
    "wakes_first (Mq_send_q q) (mq_upd q (\<lambda>_. mq) k) k'"
    "mqueue_inv q n k'" "k_mq k' q = mq" "mqueue_contents q n k' = map (\<lambda>b. map (mq_data mq b) [0..<n]) rs"
    by (rule mq_wake [OF live ty _ ok' n(1) n', of "Mq_send_q q"]) simp_all
  have "rt_mq_recv q n time k = Some (Return RT_EOK, bs, k')"
    using ty n e pop k'(1) by (simp add: rt_mq_recv_def mq_recv_loop_def)
  moreover have "mqueue_contents q n k' = ms" using k'(5) ms d by simp
  moreover have "mqueue_capacity q k' = mqueue_capacity q k" using k'(4) sz by (simp add: mqueue_capacity_def)
  ultimately show thesis using that k'(2,3) by blast
qed

lemma mq_send_full:
  assumes inv: "mqueue_inv q n k" and full: "length (mqueue_contents q n k) = mqueue_capacity q k"
  shows "rt_mq_send q bs n k = Some (Return (- RT_EFULL), k)" "rt_mq_urgent q bs n k = Some (- RT_EFULL, k)"
proof -
  obtain qs fs where ty: "rt_object_get_type k (K_mq q) = RT_Object_Class_MessageQueue"
    and ok: "mq_ok (k_mq k q) qs fs" and n: "0 < n" "n \<le> mq_msg_size (k_mq k q)"
    and c: "mqueue_contents q n k = map (\<lambda>b. map (mq_data (k_mq k q) b) [0..<n]) qs"
    and l: "length qs + length fs = mqueue_capacity q k" by (rule mqueue_invD [OF inv])
  have "mq_free (k_mq k q) = None" using mq_free_Some [OF ok] full c l by (cases fs) auto
  then show "rt_mq_send q bs n k = Some (Return (- RT_EFULL), k)" "rt_mq_urgent q bs n k = Some (- RT_EFULL, k)"
    using ty n by (simp_all add: rt_mq_send_def rt_mq_send_wait_def rt_mq_urgent_def)
qed

interpretation mqueue: bounded_fifo "mqueue_inv q n" "\<lambda>bs. length bs = n" "mqueue_contents q n" "mqueue_capacity q"
  "mqueue_put q n" "mqueue_get q n" for q n
proof
  fix k :: kstate and bs :: "u8 list" and ms :: "u8 list list"
  assume inv: "mqueue_inv q n k"
  show "\<exists>k'. mqueue_put q n k bs = Some k' \<and> mqueue_inv q n k' \<and> mqueue_contents q n k' = mqueue_contents q n k @ [bs]
      \<and> mqueue_capacity q k' = mqueue_capacity q k"
    if "length bs = n" "length (mqueue_contents q n k) < mqueue_capacity q k"
    by (rule mq_send_room [OF inv that, where time = 0]) (auto simp: mqueue_put_def rt_mq_send_def)
  show "length (mqueue_contents q n k) = mqueue_capacity q k \<Longrightarrow> mqueue_put q n k bs = None"
    using mq_send_full(1) [OF inv] by (simp add: mqueue_put_def)
  show "\<exists>k'. mqueue_get q n k = Some (bs, k') \<and> mqueue_inv q n k' \<and> mqueue_contents q n k' = ms
      \<and> mqueue_capacity q k' = mqueue_capacity q k" if "mqueue_contents q n k = bs # ms"
    by (rule mq_recv_some [OF inv that, where time = 0]) (auto simp: mqueue_get_def)
  show "mqueue_get q n k = None" if e: "mqueue_contents q n k = []"
  proof -
    have "mq_entry (k_mq k q) = 0"
      by (rule mqueue_invD [OF inv]) (use e in \<open>auto simp: mq_ok_def\<close>)
    then show ?thesis using inv by (simp add: mqueue_get_def mqueue_inv_def rt_mq_recv_def)
  qed
  show "length (mqueue_contents q n k) \<le> mqueue_capacity q k"
    by (rule mqueue_invD [OF inv]) (metis le_add1 length_map)
qed

section \<open>Waking all threads of a queue\<close>

lemma set_stat_error [simp]: "th_error (set_stat s th) = th_error th"
  by (simp add: set_stat_def)

text \<open>\<^verbatim>\<open>rt_ipc_list_resume_all\<close> ends: every thread of the queue is READY with error \<^verbatim>\<open>-RT_ERROR\<close>.\<close>

lemma resume_all_succeeds:
  assumes "kernel_live k" "waiting_queue h"
  shows "\<exists>k'. rt_ipc_list_resume_all h k = Some k' \<and> kernel_live k' \<and> k_list k' h = []
     \<and> thread_frame (set (k_list k h)) k k'
     \<and> (\<forall>t \<in> set (k_list k h). k_thr k' t = set_stat RT_THREAD_READY ((k_thr k t)\<lparr>th_error := - RT_ERROR\<rparr>))
     \<and> (\<forall>g. waiting_queue g \<and> g \<noteq> h \<longrightarrow> k_list k' g = k_list k g)"
  using assms
proof (induction "k_list k h" arbitrary: k)
  case Nil
  then show ?case by (subst rt_ipc_list_resume_all.simps) (simp split: list.splits)
next
  case (Cons t ts)
  let ?k0 = "thr_upd t (\<lambda>th. th\<lparr>th_error := - RT_ERROR\<rparr>) k"
  have q: "k_list k h = t # ts" using Cons.hyps(2) by simp
  have live0: "kernel_live ?k0" using live_upd(1) [OF Cons.prems(1), of t "- RT_ERROR"] by (simp add: thread_set_error_def)
  have l0: "k_list ?k0 = k_list k" by simp
  note Q = queue_unlink [OF liveD(4) [OF live0] Cons.prems(2) q [folded l0]]
  obtain k1 where k1: "rt_thread_resume t ?k0 = Some (RT_EOK, k1)" and live1: "kernel_live k1" and fr: "thread_frame {t} ?k0 k1"
    and thr: "k_thr k1 t = set_stat RT_THREAD_READY (k_thr ?k0 t)"
    and l: "\<And>g. waiting_queue g \<Longrightarrow> k_list k1 g = filter (\<lambda>x. x \<noteq> t) (k_list ?k0 g)"
    by (rule resume_succeeds [OF live0 Q(1)]) blast
  have l1: "k_list k1 h = ts" "waiting_queue g \<Longrightarrow> g \<noteq> h \<Longrightarrow> k_list k1 g = k_list k g" for g
    using l [OF Cons.prems(2)] l [of g] Q(2,3) by simp_all
  obtain k' where k': "rt_ipc_list_resume_all h k1 = Some k'" "kernel_live k'" "k_list k' h = []" "thread_frame (set ts) k1 k'"
    "\<forall>u \<in> set ts. k_thr k' u = set_stat RT_THREAD_READY ((k_thr k1 u)\<lparr>th_error := - RT_ERROR\<rparr>)"
    "\<forall>g. waiting_queue g \<and> g \<noteq> h \<longrightarrow> k_list k' g = k_list k1 g"
    using Cons.hyps(1) [OF l1(1) [symmetric] live1 Cons.prems(2)] l1(1) by auto
  have t: "t \<notin> set ts" using sched_wf_distinct [of "{}" k h] liveD(4) [OF Cons.prems(1)] q by (simp add: sched_wf_def)
  have "rt_ipc_list_resume_all h k = Some k'"
    by (subst rt_ipc_list_resume_all.simps) (simp add: q k1 k'(1))
  moreover have "set (k_list k h) = {t} \<union> set ts" by (simp add: q)
  then have "thread_frame (set (k_list k h)) k k'"
    using thread_frame_trans [OF thread_frame_trans1 [OF thr_upd_frame fr] k'(4)] by (simp only:)
  moreover have "k_thr k' t = set_stat RT_THREAD_READY ((k_thr k t)\<lparr>th_error := - RT_ERROR\<rparr>)"
    using k'(4) t thr by (simp add: thread_frame_def)
  moreover have "k_thr k1 u = k_thr k u" if "u \<in> set ts" for u
  proof -
    have "u \<noteq> t" using that t by blast
    then show ?thesis using fr by (simp add: thread_frame_def)
  qed
  then have "\<forall>u \<in> set ts. k_thr k' u = set_stat RT_THREAD_READY ((k_thr k u)\<lparr>th_error := - RT_ERROR\<rparr>)" using k'(5) by metis
  moreover have "\<forall>g. waiting_queue g \<and> g \<noteq> h \<longrightarrow> k_list k' g = k_list k g" using k'(6) l1(2) by metis
  ultimately show ?case using k'(2,3) unfolding q by auto
qed

lemma sample_kernel_queues: "kernel_inv 0 (sample_kernel\<lparr>k_mb := f\<rparr>)" "kernel_inv 0 (sample_kernel\<lparr>k_mq := g\<rparr>)"
proof -
  have d: "data_only sample_kernel (sample_kernel\<lparr>k_mb := f\<rparr>)" "data_only sample_kernel (sample_kernel\<lparr>k_mq := g\<rparr>)"
    by (simp_all add: data_only_def sched_same_def)
  show "kernel_inv 0 (sample_kernel\<lparr>k_mb := f\<rparr>)" "kernel_inv 0 (sample_kernel\<lparr>k_mq := g\<rparr>)"
    by (rule kern.inv_data [OF sample_kernel_inv d(1)], simp) (rule kern.inv_data [OF sample_kernel_inv d(2)], simp)
qed

lemma mbox_kernel_inv: "mbox_inv 0 mbox_kernel" "mbox_contents 0 mbox_kernel = []" "mbox_capacity 0 mbox_kernel = 2"
proof -
  have "kernel_live mbox_kernel"
    unfolding mbox_kernel_def
    by (rule live_cong [OF sample_kernel_live sample_kernel_queues(1)]) (simp_all add: rt_object_get_type_def)
  then show "mbox_inv 0 mbox_kernel"
    using sample_kernel_types(6) by (simp add: mbox_inv_def mbox_kernel_def mb_inv_def rt_object_get_type_def)
qed (simp_all add: mbox_contents_def mb_contents_def mbox_capacity_def mbox_kernel_def)

lemma mqueue_kernel_inv:
  "mqueue_inv 0 3 mqueue_kernel" "mqueue_contents 0 3 mqueue_kernel = []" "mqueue_capacity 0 mqueue_kernel = 2"
proof -
  have "kernel_live mqueue_kernel"
    unfolding mqueue_kernel_def
    by (rule live_cong [OF sample_kernel_live sample_kernel_queues(2)]) (simp_all add: rt_object_get_type_def)
  moreover have "mq_ok (k_mq mqueue_kernel 0) [] [1, 0]"
    by (auto simp: mq_ok_def mq_lists_def mqueue_kernel_def)
  then have "mq_inv (k_mq mqueue_kernel 0)" by (auto simp: mq_inv_def)
  ultimately show "mqueue_inv 0 3 mqueue_kernel"
    using sample_kernel_types(7) by (simp add: mqueue_inv_def mqueue_kernel_def rt_object_get_type_def)
qed (simp_all add: mqueue_contents_def mq_contents_def mqueue_capacity_def mqueue_kernel_def)

section \<open>Properties\<close>

text \<open>
  C16. A mailbox delivers the mails in the order in which they were sent. In a live kernel with an empty mailbox,
  sending up to as many mails as it holds and then receiving that many succeeds, gives the mails in order, and
  leaves the mailbox empty, whatever threads wait on it.
\<close>

theorem rt_mb_fifo:
  assumes "mbox_inv m k" and "mbox_contents m k = []" and "length vs \<le> mbox_capacity m k"
  shows "\<exists>k1 k2. put_list (mbox_put m) k vs = Some k1 \<and> get_n (mbox_get m) k1 (length vs) = Some (vs, k2)
     \<and> mbox_contents m k2 = []"
  using assms by (intro mbox.put_then_get_all) simp_all

theorem rt_mb_fifo_witness:
  "\<exists>k1 k2. put_list (mbox_put 0) mbox_kernel [7, 9] = Some k1 \<and> get_n (mbox_get 0) k1 2 = Some ([7, 9], k2)"
  using rt_mb_fifo [OF mbox_kernel_inv(1,2), of "[7, 9]"] by (auto simp: mbox_kernel_inv(3) numeral_2_eq_2)

text \<open>
  \<^verbatim>\<open>rt_mb_send_wait\<close> of a thread that may block, in a live kernel. With room the mail is appended, the first
  waiting receiver is woken, and the call returns \<^verbatim>\<open>RT_EOK\<close>; a full mailbox makes the call return \<^verbatim>\<open>-RT_EFULL\<close>
  without a timeout, and otherwise the thread waits in the queue of the senders.
\<close>

lemma rt_mb_send_wait_spec:
  assumes "mbox_inv m k" and "may_block t k" and "o_flag (k_obj k (K_mb m)) \<in> {0, RT_IPC_FLAG_PRIO}" and "time < 0x7fffffff"
  shows "if length (mbox_contents m k) < mbox_capacity m k
     then \<exists>k' mb. rt_mb_send_wait m v time k = Some (Return RT_EOK, k') \<and> mbox_inv m k'
         \<and> mbox_contents m k' = mbox_contents m k @ [v] \<and> wakes_first (Mb_q m) (mb_upd m (\<lambda>_. mb) k) k'
     else if time = 0 then rt_mb_send_wait m v time k = Some (Return (- RT_EFULL), k)
     else \<exists>k'. rt_mb_send_wait m v time k = Some (Wait (C_mb_send m v time (rt_tick k)), k')
         \<and> waits (Mb_send_q m) t (o_flag (k_obj k (K_mb m))) time (thread_set_error t RT_EOK k) k'"
proof (cases "length (mbox_contents m k) < mbox_capacity m k")
  case True
  then have "mb_entry (k_mb k m) < mb_size (k_mb k m)" by (simp add: mbox_contents_def mbox_capacity_def)
  then obtain mb k' where "rt_mb_send_wait m v time k = Some (Return RT_EOK, k')" "mbox_inv m k'"
      "mb_contents (k_mb k' m) = mb_contents (k_mb k m) @ [v]" "wakes_first (Mb_q m) (mb_upd m (\<lambda>_. mb) k) k'"
    by (rule mb_send_room [OF assms(1), where v = v and time = time]) blast
  then show ?thesis using True by (auto simp: mbox_contents_def)
next
  case False
  then have full: "mb_entry (k_mb k m) = mb_size (k_mb k m)"
    using assms(1) by (simp add: mbox_contents_def mbox_capacity_def mbox_inv_def mb_inv_def)
  let ?k1 = "thread_set_error t RT_EOK k" and ?flag = "o_flag (k_obj k (K_mb m))"
  have live: "kernel_live k" and ty: "rt_object_get_type k (K_mb m) = RT_Object_Class_MailBox"
    using assms(1) by (simp_all add: mbox_inv_def)
  obtain k' where "ipc_wait (Mb_send_q m) t ?flag time ?k1 = Some k'" "waits (Mb_send_q m) t ?flag time ?k1 k'"
    by (rule block_succeeds [OF live_upd(1) [OF live], of t t RT_EOK "Mb_send_q m" ?flag time]) (use assms(2-4) in auto)
  then show ?thesis
    using False full ty assms(2)
    by (auto simp: rt_mb_send_wait_def mb_send_loop_def in_thread_context_def rt_thread_self_def may_block_def Let_def
        thread_set_error_def thr_upd_def)
qed

text \<open>
  C5. A message queue delivers messages of n bytes in the order in which they were sent. In a live kernel with an
  empty queue, sending up to as many messages as it holds and then receiving that many succeeds and gives the
  messages byte for byte, in order.
\<close>

theorem rt_mq_fifo:
  assumes "mqueue_inv q n k" and "\<forall>bs \<in> set ms. length bs = n" and "mqueue_contents q n k = []"
    and "length ms \<le> mqueue_capacity q k"
  shows "\<exists>k1 k2. put_list (mqueue_put q n) k ms = Some k1 \<and> get_n (mqueue_get q n) k1 (length ms) = Some (ms, k2)
     \<and> mqueue_contents q n k2 = []"
  using assms by (rule mqueue.put_then_get_all)

theorem rt_mq_fifo_witness:
  "\<exists>k1 k2. put_list (mqueue_put 0 3) mqueue_kernel [[1, 2, 3], [4, 5, 6]] = Some k1
     \<and> get_n (mqueue_get 0 3) k1 2 = Some ([[1, 2, 3], [4, 5, 6]], k2)"
  using rt_mq_fifo [OF mqueue_kernel_inv(1) _ mqueue_kernel_inv(2), of "[[1, 2, 3], [4, 5, 6]]"]
  by (auto simp: mqueue_kernel_inv(3) numeral_2_eq_2)

text \<open>
  An urgent message overtakes all others. \<^verbatim>\<open>rt_mq_urgent\<close> puts its message in front of the queue and wakes the
  first waiting receiver, or returns \<^verbatim>\<open>-RT_EFULL\<close> and changes nothing when no block is free.
\<close>

lemma rt_mq_urgent_spec:
  assumes "mqueue_inv q n k" and "length bs = n"
  shows "if length (mqueue_contents q n k) < mqueue_capacity q k
     then \<exists>k' mq. rt_mq_urgent q bs n k = Some (RT_EOK, k') \<and> mqueue_inv q n k'
         \<and> mqueue_contents q n k' = bs # mqueue_contents q n k \<and> wakes_first (Mq_q q) (mq_upd q (\<lambda>_. mq) k) k'
     else rt_mq_urgent q bs n k = Some (- RT_EFULL, k)"
proof (cases "length (mqueue_contents q n k) < mqueue_capacity q k")
  case True
  then show ?thesis by (auto intro: mq_urgent_room [OF assms True])
next
  case False
  then have "length (mqueue_contents q n k) = mqueue_capacity q k" using mqueue.bounded [OF assms(1)] by simp
  then show ?thesis using mq_send_full(2) [OF assms(1)] by simp
qed

text \<open>
  Resetting a message queue ends. In a live kernel \<^verbatim>\<open>rt_mq_control\<close> with \<^verbatim>\<open>RT_IPC_CMD_RESET\<close> returns
  \<^verbatim>\<open>RT_EOK\<close>: both loops that wake the waiting threads and the loop that frees the messages end, no thread
  waits on the queue any more, those that did are READY, and all blocks are free.
\<close>

lemma rt_mq_control_reset:
  assumes "mqueue_inv q n k" and "thread_state k s = RT_THREAD_READY"
  shows "\<exists>k'. rt_mq_control q (RT_IPC_CMD_RESET a) k = Some (RT_EOK, k') \<and> kernel_live k'
     \<and> k_list k' (Mq_q q) = [] \<and> k_list k' (Mq_send_q q) = []
     \<and> (\<forall>t \<in> set (k_list k (Mq_q q)) \<union> set (k_list k (Mq_send_q q)).
          thread_state k' t = RT_THREAD_READY \<and> th_error (k_thr k' t) = - RT_ERROR)
     \<and> (\<exists>fs. mq_ok (k_mq k' q) [] fs)"
proof -
  obtain qs fs where live: "kernel_live k" and ty: "rt_object_get_type k (K_mq q) = RT_Object_Class_MessageQueue"
    and ok: "mq_ok (k_mq k q) qs fs" by (rule mqueue_invD [OF assms(1)])
  let ?R = "set (k_list k (Mq_q q))" and ?S = "set (k_list k (Mq_send_q q))"
  obtain k1 where k1: "rt_ipc_list_resume_all (Mq_q q) k = Some k1" and live1: "kernel_live k1" and e1: "k_list k1 (Mq_q q) = []"
    and fr1: "thread_frame ?R k k1"
    and r1: "\<forall>t \<in> ?R. k_thr k1 t = set_stat RT_THREAD_READY ((k_thr k t)\<lparr>th_error := - RT_ERROR\<rparr>)"
    and o1: "k_list k1 (Mq_send_q q) = k_list k (Mq_send_q q)"
    using resume_all_succeeds [OF live, of "Mq_q q"] by auto
  obtain k2 where k2: "rt_ipc_list_resume_all (Mq_send_q q) k1 = Some k2" and live2: "kernel_live k2"
    and e2: "k_list k2 (Mq_send_q q) = []" and fr2: "thread_frame ?S k1 k2"
    and r2: "\<forall>t \<in> ?S. k_thr k2 t = set_stat RT_THREAD_READY ((k_thr k1 t)\<lparr>th_error := - RT_ERROR\<rparr>)"
    and o2: "k_list k2 (Mq_q q) = []"
    using resume_all_succeeds [OF live1, of "Mq_send_q q"] e1 o1 by auto
  have mq2: "k_mq k2 = k_mq k" using fr1 fr2 by (simp add: thread_frame_def)
  obtain mq where mq: "mq_flush (k_mq k2 q) = Some mq" "mq_lists mq [] (rev qs @ fs)" "mq_max_msgs mq = mq_max_msgs (k_mq k q)"
    using mq_flush_lists [of "k_mq k q" qs fs] ok mq2 by (auto simp: mq_ok_def)
  let ?k3 = "mq_upd q (\<lambda>_. mq\<lparr>mq_entry := 0\<rparr>) k2"
  have thr3: "k_thr ?k3 = k_thr k2" "k_list ?k3 = k_list k2" by (simp_all add: mq_upd_def)
  have woken: "thread_state k2 t = RT_THREAD_READY \<and> th_error (k_thr k2 t) = - RT_ERROR" if "t \<in> ?R \<union> ?S" for t
    using that r1 r2 fr2 by (cases "t \<in> ?S") (auto simp: thread_frame_def thread_state_def)
  have "thread_state k2 s = RT_THREAD_READY"
    using woken [of s] assms(2) fr1 fr2 by (cases "s \<in> ?R \<union> ?S") (auto simp: thread_frame_def thread_state_def)
  then have "thread_state ?k3 s = RT_THREAD_READY" by (simp add: thread_state_def thr3)
  then obtain k' where k': "rt_schedule ?k3 = Some k'" "kernel_live k'" "k_thr k' = k_thr ?k3" "k_list k' = k_list ?k3"
      "thread_frame {} ?k3 k'"
    by (rule live_schedule [OF live_upd(5) [OF live2]]) blast
  have "rt_mq_control q (RT_IPC_CMD_RESET a) k = Some (RT_EOK, k')"
    using ty k1 k2 mq k'(1) by (simp add: rt_mq_control_def)
  moreover have "mq_ok (k_mq k' q) [] (rev qs @ fs)"
    using k'(5) mq(2,3) ok by (simp add: thread_frame_def mq_ok_def mq_lists_def)
  moreover have "k_thr k' = k_thr k2" "k_list k' (Mq_q q) = []" "k_list k' (Mq_send_q q) = []"
    using k'(3,4) thr3 e2 o2 by simp_all
  moreover have "thread_state k' t = thread_state k2 t" for t using k'(3) thr3(1) by (simp add: thread_state_def)
  ultimately show ?thesis using k'(2) woken by auto
qed

end
