(* ===== verification/DataQueue.thy ===== *)
theory DataQueue
  imports Queue_Spec
begin

text \<open>
  The data queue of the device drivers (\<^verbatim>\<open>components/drivers/src/dataqueue.c\<close>): a ring of items, each a pointer and a
  size, with two waiting lists, a low water mark and a callback. The control blocks are kept beside the kernel
  state. The callback is a parameter \<open>cb\<close>: it gets the number stored in \<^verbatim>\<open>evt_notify\<close>, the queue and the event.
\<close>

section \<open>Definitions\<close>

abbreviation (input) DATAQUEUE_MAGIC :: u32 where "DATAQUEUE_MAGIC \<equiv> 0xbead0e0e"
abbreviation (input) RT_DATAQUEUE_EVENT_POP :: nat where "RT_DATAQUEUE_EVENT_POP \<equiv> 1"
abbreviation (input) RT_DATAQUEUE_EVENT_PUSH :: nat where "RT_DATAQUEUE_EVENT_PUSH \<equiv> 2"
abbreviation (input) RT_DATAQUEUE_EVENT_LWM :: nat where "RT_DATAQUEUE_EVENT_LWM \<equiv> 3"

type_synonym data_item = "nat \<times> nat"

text \<open>The indices are bit fields of 15 bits, the size has 16.\<close>

record rt_data_queue =
  dq_magic :: u32
  dq_size :: nat
  dq_lwm :: nat
  dq_get_index :: nat
  dq_is_empty :: bool
  dq_put_index :: nat
  dq_is_full :: bool
  dq_queue :: "data_item list"
  dq_queue_addr :: nat
  dq_evt_notify :: "nat option"

type_synonym dq_state = "kstate \<times> (nat \<Rightarrow> rt_data_queue)"
type_synonym dq_callback = "nat \<Rightarrow> nat \<Rightarrow> nat \<Rightarrow> dq_state \<Rightarrow> dq_state option"

text \<open>A call returns, waits (and goes on with its \<open>_cont\<close> function), or has woken a thread and rescheduled and still
  has to report the low water mark (\<open>rt_data_queue_pop_lwm\<close>).\<close>

datatype dq_result = Dq_return int | Dq_wait | Dq_lwm

definition data_item_at :: "rt_heap \<Rightarrow> nat \<Rightarrow> data_item" where
  "data_item_at h a = (unat (heap_word h a), unat (heap_word h (a + 4)))"

definition rt_data_queue_init ::
    "nat \<Rightarrow> nat \<Rightarrow> nat \<Rightarrow> nat option \<Rightarrow> kstate \<Rightarrow> (nat \<Rightarrow> rt_data_queue) \<Rightarrow> (int \<times> dq_state) option" where
  "rt_data_queue_init q sz lwm notify k Q = do {
     rt_assert (sz > 0);
     let k1 = rt_ipc_object_init (Dq_pop_q q) (rt_ipc_object_init (Dq_push_q q) k);
     (p, k2) \<leftarrow> k_malloc (8 * sz) k1;
     let dq = \<lparr>dq_magic = DATAQUEUE_MAGIC, dq_size = sz, dq_lwm = lwm, dq_get_index = 0, dq_is_empty = True,
               dq_put_index = 0, dq_is_full = False, dq_queue = [], dq_queue_addr = 0, dq_evt_notify = notify\<rparr>;
     case p of
       None \<Rightarrow> Some (- RT_ENOMEM, k2, Q(q := dq))
     | Some a \<Rightarrow>
         Some (RT_EOK, k2, Q(q := dq\<lparr>dq_queue := map (\<lambda>i. data_item_at (k_heap k2) (a + 8 * i)) [0..<sz], dq_queue_addr := a\<rparr>))
   }"

definition rt_data_queue_len :: "rt_data_queue \<Rightarrow> nat option" where
  "rt_data_queue_len dq = do {
     rt_assert (dq_magic dq = DATAQUEUE_MAGIC);
     if dq_is_empty dq then Some 0
     else if dq_put_index dq > dq_get_index dq then Some (dq_put_index dq - dq_get_index dq)
     else Some (nat ((int (dq_size dq) + int (dq_put_index dq) - int (dq_get_index dq)) mod 2 ^ 16))
   }"

text \<open>Writing an item at \<^verbatim>\<open>put_index\<close> and reading the one at \<^verbatim>\<open>get_index\<close>.\<close>

definition dq_store :: "data_item \<Rightarrow> rt_data_queue \<Rightarrow> rt_data_queue option" where
  "dq_store x dq = do {
     items \<leftarrow> arr_set (dq_queue dq) (dq_put_index dq) x;
     let i = (dq_put_index dq + 1) mod 2 ^ 15;
     let p = (if i = dq_size dq then 0 else i);
     Some (dq\<lparr>dq_queue := items, dq_put_index := p, dq_is_empty := False,
              dq_is_full := (if p = dq_get_index dq then True else dq_is_full dq)\<rparr>)
   }"

definition dq_fetch :: "rt_data_queue \<Rightarrow> (data_item \<times> rt_data_queue) option" where
  "dq_fetch dq = do {
     x \<leftarrow> arr_get (dq_queue dq) (dq_get_index dq);
     let i = (dq_get_index dq + 1) mod 2 ^ 15;
     let g = (if i = dq_size dq then 0 else i);
     Some (x, dq\<lparr>dq_get_index := g, dq_is_full := False,
                 dq_is_empty := (if dq_put_index dq = g then True else dq_is_empty dq)\<rparr>)
   }"

definition dq_notify :: "dq_callback \<Rightarrow> nat \<Rightarrow> nat \<Rightarrow> dq_state \<Rightarrow> dq_state option" where
  "dq_notify cb q ev s = (case dq_evt_notify (snd s q) of None \<Rightarrow> Some s | Some f \<Rightarrow> cb f q ev s)"

definition dq_push_loop ::
    "dq_callback \<Rightarrow> tid option \<Rightarrow> nat \<Rightarrow> data_item \<Rightarrow> int \<Rightarrow> kstate \<Rightarrow> (nat \<Rightarrow> rt_data_queue) \<Rightarrow> (dq_result \<times> dq_state) option" where
  "dq_push_loop cb th q x timeout k Q =
     (if dq_is_full (Q q) then
        if timeout = 0 then Some (Dq_return (- RT_ETIMEOUT), k, Q)
        else do {
          not_in_interrupt k;
          t \<leftarrow> th;
          k1 \<leftarrow> ipc_wait (Dq_push_q q) t 0 timeout (thread_set_error t RT_EOK k);
          Some (Dq_wait, k1, Q)
        }
      else do {
        dq \<leftarrow> dq_store x (Q q);
        if k_list k (Dq_pop_q q) \<noteq> [] then do {
          k1 \<leftarrow> wake_first (Dq_pop_q q) k;
          Some (Dq_return RT_EOK, k1, Q(q := dq))
        }
        else do {
          s \<leftarrow> dq_notify cb q RT_DATAQUEUE_EVENT_PUSH (k, Q(q := dq));
          Some (Dq_return RT_EOK, s)
        }
      })"

definition rt_data_queue_push ::
    "dq_callback \<Rightarrow> nat \<Rightarrow> data_item \<Rightarrow> int \<Rightarrow> kstate \<Rightarrow> (nat \<Rightarrow> rt_data_queue) \<Rightarrow> (dq_result \<times> dq_state) option" where
  "rt_data_queue_push cb q x timeout k Q = do {
     rt_assert (dq_magic (Q q) = DATAQUEUE_MAGIC);
     dq_push_loop cb (rt_thread_self k) q x timeout k Q
   }"

definition rt_data_queue_push_cont ::
    "dq_callback \<Rightarrow> tid \<Rightarrow> nat \<Rightarrow> data_item \<Rightarrow> int \<Rightarrow> kstate \<Rightarrow> (nat \<Rightarrow> rt_data_queue) \<Rightarrow> (dq_result \<times> dq_state) option" where
  "rt_data_queue_push_cont cb t q x timeout k Q =
     (if th_error (k_thr k t) \<noteq> RT_EOK then Some (Dq_return (th_error (k_thr k t)), k, Q)
      else dq_push_loop cb (Some t) q x timeout k Q)"

text \<open>The second component of the result is what is stored through \<^verbatim>\<open>data_ptr\<close> and \<^verbatim>\<open>size\<close>.\<close>

definition dq_pop_loop ::
    "dq_callback \<Rightarrow> tid option \<Rightarrow> nat \<Rightarrow> int \<Rightarrow> kstate \<Rightarrow> (nat \<Rightarrow> rt_data_queue) \<Rightarrow> (dq_result \<times> data_item option \<times> dq_state) option" where
  "dq_pop_loop cb th q timeout k Q =
     (if dq_is_empty (Q q) then
        if timeout = 0 then Some (Dq_return (- RT_ETIMEOUT), None, k, Q)
        else do {
          not_in_interrupt k;
          t \<leftarrow> th;
          k1 \<leftarrow> ipc_wait (Dq_pop_q q) t 0 timeout (thread_set_error t RT_EOK k);
          Some (Dq_wait, None, k1, Q)
        }
      else do {
        (x, dq) \<leftarrow> dq_fetch (Q q);
        len \<leftarrow> rt_data_queue_len dq;
        if len \<le> dq_lwm dq then
          if k_list k (Dq_push_q q) \<noteq> [] then do {
            k1 \<leftarrow> wake_first (Dq_push_q q) k;
            Some (Dq_lwm, Some x, k1, Q(q := dq))
          }
          else do {
            s \<leftarrow> dq_notify cb q RT_DATAQUEUE_EVENT_LWM (k, Q(q := dq));
            Some (Dq_return RT_EOK, Some x, s)
          }
        else do {
          s \<leftarrow> dq_notify cb q RT_DATAQUEUE_EVENT_POP (k, Q(q := dq));
          Some (Dq_return RT_EOK, Some x, s)
        }
      })"

definition rt_data_queue_pop ::
    "dq_callback \<Rightarrow> nat \<Rightarrow> int \<Rightarrow> kstate \<Rightarrow> (nat \<Rightarrow> rt_data_queue) \<Rightarrow> (dq_result \<times> data_item option \<times> dq_state) option" where
  "rt_data_queue_pop cb q timeout k Q = do {
     rt_assert (dq_magic (Q q) = DATAQUEUE_MAGIC);
     dq_pop_loop cb (rt_thread_self k) q timeout k Q
   }"

definition rt_data_queue_pop_cont ::
    "dq_callback \<Rightarrow> tid \<Rightarrow> nat \<Rightarrow> int \<Rightarrow> kstate \<Rightarrow> (nat \<Rightarrow> rt_data_queue) \<Rightarrow> (dq_result \<times> data_item option \<times> dq_state) option" where
  "rt_data_queue_pop_cont cb t q timeout k Q =
     (if th_error (k_thr k t) \<noteq> RT_EOK then Some (Dq_return (th_error (k_thr k t)), None, k, Q)
      else dq_pop_loop cb (Some t) q timeout k Q)"

definition rt_data_queue_pop_lwm :: "dq_callback \<Rightarrow> nat \<Rightarrow> dq_state \<Rightarrow> (dq_result \<times> dq_state) option" where
  "rt_data_queue_pop_lwm cb q s = do { s1 \<leftarrow> dq_notify cb q RT_DATAQUEUE_EVENT_LWM s; Some (Dq_return RT_EOK, s1) }"

definition rt_data_queue_peek :: "rt_data_queue \<Rightarrow> (int \<times> data_item option) option" where
  "rt_data_queue_peek dq = do {
     rt_assert (dq_magic dq = DATAQUEUE_MAGIC);
     if dq_is_empty dq then Some (- RT_EEMPTY, None)
     else do { x \<leftarrow> arr_get (dq_queue dq) (dq_get_index dq); Some (RT_EOK, Some x) }
   }"

definition rt_data_queue_reset :: "nat \<Rightarrow> kstate \<Rightarrow> (nat \<Rightarrow> rt_data_queue) \<Rightarrow> dq_state option" where
  "rt_data_queue_reset q k Q = do {
     rt_assert (dq_magic (Q q) = DATAQUEUE_MAGIC);
     let dq = (Q q)\<lparr>dq_get_index := 0, dq_put_index := 0, dq_is_empty := True, dq_is_full := False\<rparr>;
     let k1 = rt_enter_critical k;
     k2 \<leftarrow> rt_ipc_list_resume_all (Dq_pop_q q) k1;
     k3 \<leftarrow> rt_ipc_list_resume_all (Dq_push_q q) k2;
     k4 \<leftarrow> rt_exit_critical k3;
     k5 \<leftarrow> rt_schedule k4;
     Some (k5, Q(q := dq))
   }"

definition rt_data_queue_deinit :: "nat \<Rightarrow> kstate \<Rightarrow> (nat \<Rightarrow> rt_data_queue) \<Rightarrow> (int \<times> dq_state) option" where
  "rt_data_queue_deinit q k Q = do {
     rt_assert (dq_magic (Q q) = DATAQUEUE_MAGIC);
     (k1, Q1) \<leftarrow> rt_data_queue_reset q k Q;
     let a = dq_queue_addr (Q1 q);
     k2 \<leftarrow> k_free (if a = 0 then None else Some a) k1;
     Some (RT_EOK, k2, Q1(q := (Q1 q)\<lparr>dq_magic := 0\<rparr>))
   }"

text \<open>The queue as a sequence.\<close>

definition dq_inv :: "rt_data_queue \<Rightarrow> bool" where
  "dq_inv dq \<longleftrightarrow> dq_magic dq = DATAQUEUE_MAGIC \<and> 0 < dq_size dq \<and> dq_size dq \<le> 2 ^ 15 \<and> length (dq_queue dq) = dq_size dq
     \<and> dq_get_index dq < dq_size dq \<and> dq_put_index dq < dq_size dq
     \<and> (dq_put_index dq = dq_get_index dq \<longleftrightarrow> dq_is_empty dq \<or> dq_is_full dq) \<and> \<not> (dq_is_empty dq \<and> dq_is_full dq)"

definition dq_count :: "rt_data_queue \<Rightarrow> nat" where
  "dq_count dq = (if dq_is_empty dq then 0 else if dq_get_index dq < dq_put_index dq then dq_put_index dq - dq_get_index dq
     else dq_size dq + dq_put_index dq - dq_get_index dq)"

definition dq_contents :: "rt_data_queue \<Rightarrow> data_item list" where
  "dq_contents dq = map (\<lambda>i. dq_queue dq ! ((dq_get_index dq + i) mod dq_size dq)) [0..<dq_count dq]"

definition dq_put :: "rt_data_queue \<Rightarrow> data_item \<Rightarrow> rt_data_queue option" where
  "dq_put dq x = (if dq_is_full dq then None else dq_store x dq)"

definition dq_get :: "rt_data_queue \<Rightarrow> (data_item \<times> rt_data_queue) option" where
  "dq_get dq = (if dq_is_empty dq then None else dq_fetch dq)"

text \<open>The calls that do not wait, on a live kernel, and the callbacks they are proved for: those that leave the queues
  alone and keep the kernel live.\<close>

definition quiet_callback :: "dq_callback \<Rightarrow> bool" where
  "quiet_callback cb \<longleftrightarrow> (\<forall>f q ev k Q. kernel_live k \<longrightarrow> (\<exists>k'. cb f q ev (k, Q) = Some (k', Q) \<and> kernel_live k'))"

definition dqueue_inv :: "nat \<Rightarrow> dq_state \<Rightarrow> bool" where
  "dqueue_inv q s \<longleftrightarrow> kernel_live (fst s) \<and> dq_inv (snd s q)"

definition dqueue_contents :: "nat \<Rightarrow> dq_state \<Rightarrow> data_item list" where
  "dqueue_contents q s = dq_contents (snd s q)"

definition dqueue_put :: "dq_callback \<Rightarrow> nat \<Rightarrow> dq_state \<Rightarrow> data_item \<Rightarrow> dq_state option" where
  "dqueue_put cb q s x = do {
     (r, s1) \<leftarrow> rt_data_queue_push cb q x 0 (fst s) (snd s);
     rt_assert (r = Dq_return RT_EOK);
     Some s1
   }"

definition dqueue_get :: "dq_callback \<Rightarrow> nat \<Rightarrow> dq_state \<Rightarrow> (data_item \<times> dq_state) option" where
  "dqueue_get cb q s = do {
     (r, w, s1) \<leftarrow> rt_data_queue_pop cb q 0 (fst s) (snd s);
     x \<leftarrow> w;
     (r1, s2) \<leftarrow> (if r = Dq_lwm then rt_data_queue_pop_lwm cb q s1 else Some (r, s1));
     rt_assert (r1 = Dq_return RT_EOK);
     Some (x, s2)
   }"

text \<open>An empty queue of two items with low water mark 1.\<close>

definition sample_dq :: rt_data_queue where
  "sample_dq = \<lparr>dq_magic = DATAQUEUE_MAGIC, dq_size = 2, dq_lwm = 1, dq_get_index = 0, dq_is_empty = True, dq_put_index = 0,
     dq_is_full = False, dq_queue = [(0, 0), (0, 0)], dq_queue_addr = 4096, dq_evt_notify = Some 7\<rparr>"

section \<open>The ring is a bounded queue\<close>

lemma length_dq_contents [simp]: "length (dq_contents dq) = dq_count dq"
  by (simp add: dq_contents_def)

lemma dq_next:
  assumes "i < n" "n \<le> 2 ^ 15"
  shows "(let j = (i + 1) mod 2 ^ 15 in if j = n then 0 else j) = (i + 1) mod (n :: nat)"
proof (cases "i + 1 = n")
  case True
  then show ?thesis by (cases "n = 2 ^ 15") (use assms in \<open>auto simp: Let_def\<close>)
next
  case False
  then have "i + 1 < n" using assms(1) by simp
  then show ?thesis using assms(2) by (simp add: Let_def)
qed

text \<open>The count against the indices.\<close>

lemma dq_count_iff:
  assumes "dq_inv dq"
  shows "dq_put_index dq = (dq_get_index dq + dq_count dq) mod dq_size dq" "dq_count dq \<le> dq_size dq"
    "dq_count dq = dq_size dq \<longleftrightarrow> dq_is_full dq" "dq_count dq = 0 \<longleftrightarrow> dq_is_empty dq"
proof -
  let ?n = "dq_size dq" and ?g = "dq_get_index dq" and ?p = "dq_put_index dq"
  have I: "?g < ?n" "?p < ?n" "?p = ?g \<longleftrightarrow> dq_is_empty dq \<or> dq_is_full dq" "\<not> (dq_is_empty dq \<and> dq_is_full dq)"
    using assms by (simp_all add: dq_inv_def)
  show "?p = (?g + dq_count dq) mod ?n"
  proof (cases "dq_is_empty dq \<or> ?g < ?p")
    case True
    then show ?thesis using I by (auto simp: dq_count_def)
  next
    case False
    then have "?g + dq_count dq = ?p + ?n" using I(1) by (simp add: dq_count_def)
    then show ?thesis using I(2) by simp
  qed
  show "dq_count dq \<le> ?n" "dq_count dq = ?n \<longleftrightarrow> dq_is_full dq" "dq_count dq = 0 \<longleftrightarrow> dq_is_empty dq"
    using I by (auto simp: dq_count_def)
qed

text \<open>A queue that holds a given number of items.\<close>

lemma dq_count_unique:
  assumes inv: "dq_inv dq" and c: "dq_put_index dq = (dq_get_index dq + c) mod dq_size dq" "c \<le> dq_size dq"
    "c = 0 \<Longrightarrow> dq_is_empty dq" "c = dq_size dq \<Longrightarrow> dq_is_full dq"
  shows "dq_count dq = c"
proof (rule ccontr)
  let ?n = "dq_size dq" and ?g = "dq_get_index dq" and ?d = "dq_count dq"
  note D = dq_count_iff [OF inv]
  assume ne: "dq_count dq \<noteq> c"
  have eq: "(?g + ?d) mod ?n = (?g + c) mod ?n" using D(1) c(1) by simp
  have "?d < c \<Longrightarrow> c < ?n \<Longrightarrow> False" using ring_distinct [of ?d c ?n ?g] eq by simp
  moreover have "c < ?d \<Longrightarrow> ?d < ?n \<Longrightarrow> False" using ring_distinct [of c ?d ?n ?g] eq by simp
  moreover have "c \<noteq> ?n" using c(4) D(3) ne by auto
  ultimately have full: "?d = ?n" using ne c(2) D(2) by (metis le_neq_implies_less linorder_neqE_nat)
  then have "(?g + c) mod ?n = (?g + 0) mod ?n" using eq by simp
  then show False
    using ring_distinct [of 0 c ?n ?g] c(2,3) \<open>c \<noteq> ?n\<close> D(3,4) full inv by (cases "c = 0") (auto simp: dq_inv_def)
qed

lemma dq_store_room:
  assumes inv: "dq_inv dq" and room: "\<not> dq_is_full dq"
  shows "\<exists>dq'. dq_store x dq = Some dq' \<and> dq_inv dq' \<and> dq_contents dq' = dq_contents dq @ [x]
    \<and> dq_size dq' = dq_size dq \<and> dq_lwm dq' = dq_lwm dq \<and> dq_evt_notify dq' = dq_evt_notify dq"
proof -
  let ?n = "dq_size dq" and ?g = "dq_get_index dq" and ?p = "dq_put_index dq" and ?c = "dq_count dq"
  have n: "0 < ?n" "?n \<le> 2 ^ 15" "length (dq_queue dq) = ?n" "?g < ?n" "?p < ?n" using inv by (simp_all add: dq_inv_def)
  note C = dq_count_iff [OF inv]
  define dq' where "dq' = dq\<lparr>dq_queue := (dq_queue dq)[?p := x], dq_put_index := (?p + 1) mod ?n, dq_is_empty := False,
    dq_is_full := ((?p + 1) mod ?n = ?g)\<rparr>"
  have st: "dq_store x dq = Some dq'"
    using n room dq_next [OF n(5,2)] by (simp add: dq_store_def arr_set_def dq'_def Let_def)
  have inv': "dq_inv dq'" using inv n by (auto simp: dq'_def dq_inv_def)
  have lt: "?c < ?n" using C(2,3) room by linarith
  have "(?p + 1) mod ?n = (?g + Suc ?c) mod ?n" using C(1) by (simp add: mod_Suc_eq)
  then have cnt: "dq_count dq' = Suc ?c"
    using lt n by (intro dq_count_unique [OF inv']) (auto simp: dq'_def)
  have "(dq_queue dq)[?p := x] ! ((?g + j) mod ?n) = dq_queue dq ! ((?g + j) mod ?n)" if "j < ?c" for j
    using ring_distinct [OF that lt, of ?g] C(1) by (simp add: nth_list_update)
  then have "dq_contents dq' = dq_contents dq @ [x]"
    using n C(1) by (simp add: dq_contents_def cnt) (simp add: dq'_def)
  with st inv' show ?thesis by (auto simp: dq'_def)
qed

lemma dq_fetch_some:
  assumes inv: "dq_inv dq" and c: "dq_contents dq = x # xs"
  shows "\<exists>dq'. dq_fetch dq = Some (x, dq') \<and> dq_inv dq' \<and> dq_contents dq' = xs
    \<and> dq_size dq' = dq_size dq \<and> dq_lwm dq' = dq_lwm dq \<and> dq_evt_notify dq' = dq_evt_notify dq"
proof -
  let ?n = "dq_size dq" and ?g = "dq_get_index dq" and ?p = "dq_put_index dq" and ?c = "dq_count dq"
  have n: "0 < ?n" "?n \<le> 2 ^ 15" "length (dq_queue dq) = ?n" "?g < ?n" "?p < ?n" using inv by (simp_all add: dq_inv_def)
  note C = dq_count_iff [OF inv]
  have pos: "0 < ?c" using c length_dq_contents [of dq] by simp
  have split: "[0..<?c] = 0 # map Suc [0..<?c - 1]" using pos by (simp add: map_Suc_upt upt_conv_Cons)
  have x: "x = dq_queue dq ! ?g" and xs: "xs = map (\<lambda>i. dq_queue dq ! ((?g + Suc i) mod ?n)) [0..<?c - 1]"
    using c n(4) unfolding dq_contents_def split by (auto simp: o_def)
  define dq' where "dq' = dq\<lparr>dq_get_index := (?g + 1) mod ?n, dq_is_full := False, dq_is_empty := (?p = (?g + 1) mod ?n)\<rparr>"
  have st: "dq_fetch dq = Some (x, dq')"
    using n x C(4) pos dq_next [OF n(4,2)] by (auto simp: dq_fetch_def arr_get_def dq'_def Let_def)
  have inv': "dq_inv dq'" using inv n by (auto simp: dq'_def dq_inv_def)
  have "((?g + 1) mod ?n + (?c - 1)) mod ?n = ?p" using pos C(1) by (cases ?c) (simp_all add: mod_add_left_eq)
  then have cnt: "dq_count dq' = ?c - 1"
    using pos C(2) n by (intro dq_count_unique [OF inv']) (auto simp: dq'_def)
  have "dq_contents dq' = xs" by (simp add: dq_contents_def cnt) (simp add: dq'_def xs mod_add_left_eq)
  with st inv' show ?thesis by (auto simp: dq'_def)
qed

interpretation dq: bounded_fifo dq_inv "\<lambda>_. True" dq_contents dq_size dq_put dq_get
proof
  fix s :: rt_data_queue and x :: data_item and xs
  assume inv: "dq_inv s"
  note C = dq_count_iff [OF inv]
  show "length (dq_contents s) < dq_size s \<Longrightarrow> \<exists>s'. dq_put s x = Some s' \<and> dq_inv s'
      \<and> dq_contents s' = dq_contents s @ [x] \<and> dq_size s' = dq_size s"
    using dq_store_room [OF inv, of x] C(3) by (auto simp: dq_put_def)
  show "length (dq_contents s) = dq_size s \<Longrightarrow> dq_put s x = None" using C(3) by (simp add: dq_put_def)
  show "dq_contents s = x # xs \<Longrightarrow> \<exists>s'. dq_get s = Some (x, s') \<and> dq_inv s' \<and> dq_contents s' = xs \<and> dq_size s' = dq_size s"
    using dq_fetch_some [OF inv, of x xs] C(4) length_dq_contents [of s] by (auto simp: dq_get_def)
  show "dq_contents s = [] \<Longrightarrow> dq_get s = None" using C(4) length_dq_contents [of s] by (simp add: dq_get_def)
  show "length (dq_contents s) \<le> dq_size s" using C(2) by simp
qed

section \<open>The calls\<close>

lemma dq_notify_quiet:
  assumes "quiet_callback cb" "kernel_live k"
  obtains k' where "dq_notify cb q ev (k, Q) = Some (k', Q)" "kernel_live k'"
proof (cases "dq_evt_notify (Q q)")
  case None
  then show thesis using that [of k] assms(2) by (simp add: dq_notify_def)
next
  case (Some f)
  then show thesis using that assms unfolding dq_notify_def quiet_callback_def by fastforce
qed

lemma rt_data_queue_len_eq:
  assumes "dq_inv dq"
  shows "rt_data_queue_len dq = Some (length (dq_contents dq))"
proof -
  have "dq_size dq \<le> 2 ^ 15" "dq_put_index dq < dq_size dq" using assms by (simp_all add: dq_inv_def)
  then have "dq_size dq + dq_put_index dq - dq_get_index dq < 2 ^ 16" by simp
  then have "nat ((int (dq_size dq) + int (dq_put_index dq) - int (dq_get_index dq)) mod 2 ^ 16)
      = dq_size dq + dq_put_index dq - dq_get_index dq" using assms by (simp add: dq_inv_def nat_mod_distrib)
  then show ?thesis using assms by (simp add: rt_data_queue_len_def dq_count_def dq_inv_def)
qed

lemma rt_data_queue_peek_eq:
  assumes "dq_inv dq"
  shows "rt_data_queue_peek dq = (case dq_contents dq of [] \<Rightarrow> Some (- RT_EEMPTY, None) | x # _ \<Rightarrow> Some (RT_EOK, Some x))"
proof (cases "dq_contents dq")
  case Nil
  then have "dq_is_empty dq" using dq_count_iff(4) [OF assms] length_dq_contents [of dq] by simp
  then show ?thesis using Nil assms by (simp add: rt_data_queue_peek_def dq_inv_def)
next
  case (Cons x xs)
  then have "\<not> dq_is_empty dq" using dq_count_iff(4) [OF assms] length_dq_contents [of dq] by simp
  moreover have "arr_get (dq_queue dq) (dq_get_index dq) = Some x"
    using dq_fetch_some [OF assms Cons] by (auto simp: dq_fetch_def bind_Some_iff Let_def)
  ultimately show ?thesis using Cons assms by (simp add: rt_data_queue_peek_def dq_inv_def)
qed

lemma rt_data_queue_push_full:
  "dq_inv (Q q) \<Longrightarrow> length (dq_contents (Q q)) = dq_size (Q q) \<Longrightarrow> rt_data_queue_push cb q x 0 k Q = Some (Dq_return (- RT_ETIMEOUT), k, Q)"
  using dq_count_iff(3) [of "Q q"] by (simp add: rt_data_queue_push_def dq_push_loop_def dq_inv_def)

lemma rt_data_queue_pop_empty:
  "dq_inv (Q q) \<Longrightarrow> dq_contents (Q q) = [] \<Longrightarrow> rt_data_queue_pop cb q 0 k Q = Some (Dq_return (- RT_ETIMEOUT), None, k, Q)"
  using dq_count_iff(4) [of "Q q"] length_dq_contents [of "Q q"] by (simp add: rt_data_queue_pop_def dq_pop_loop_def dq_inv_def)

lemma rt_data_queue_push_room:
  assumes cb: "quiet_callback cb" and live: "kernel_live k" and inv: "dq_inv (Q q)"
    and room: "length (dq_contents (Q q)) < dq_size (Q q)"
  obtains k' dq where "rt_data_queue_push cb q x timeout k Q = Some (Dq_return RT_EOK, k', Q(q := dq))" "kernel_live k'" "dq_inv dq"
    "dq_contents dq = dq_contents (Q q) @ [x]" "dq_size dq = dq_size (Q q)"
    "k_list k (Dq_pop_q q) \<noteq> [] \<longrightarrow> wakes_first (Dq_pop_q q) k k'"
proof -
  have nf: "\<not> dq_is_full (Q q)" using room dq_count_iff(3) [OF inv] by simp
  obtain dq where dq: "dq_store x (Q q) = Some dq" "dq_inv dq" "dq_contents dq = dq_contents (Q q) @ [x]" "dq_size dq = dq_size (Q q)"
    using dq_store_room [OF inv nf, of x] by blast
  have m: "dq_magic (Q q) = DATAQUEUE_MAGIC" using inv by (simp add: dq_inv_def)
  show thesis
  proof (cases "k_list k (Dq_pop_q q) = []")
    case True
    obtain k' where k': "dq_notify cb q RT_DATAQUEUE_EVENT_PUSH (k, Q(q := dq)) = Some (k', Q(q := dq))" "kernel_live k'"
      by (rule dq_notify_quiet [OF cb live])
    show thesis
      by (rule that [OF _ k'(2) dq(2-4)]) (use True k'(1) nf m dq(1) in \<open>simp_all add: rt_data_queue_push_def dq_push_loop_def\<close>)
  next
    case False
    obtain k' where k': "wake_first (Dq_pop_q q) k = Some k'" "wakes_first (Dq_pop_q q) k k'"
      by (rule wake_first_succeeds [OF live, of "Dq_pop_q q"]) simp_all
    show thesis
      by (rule that [OF _ wakes_first_frame(1) [OF k'(2) live] dq(2-4)])
        (use False k' nf m dq(1) in \<open>simp_all add: rt_data_queue_push_def dq_push_loop_def\<close>)
  qed
qed

lemma rt_data_queue_pop_some:
  assumes cb: "quiet_callback cb" and live: "kernel_live k" and inv: "dq_inv (Q q)" and c: "dq_contents (Q q) = x # xs"
  obtains r k' dq where "rt_data_queue_pop cb q timeout k Q = Some (r, Some x, k', Q(q := dq))" "kernel_live k'" "dq_inv dq"
    "dq_contents dq = xs" "dq_size dq = dq_size (Q q)"
    "if length xs \<le> dq_lwm (Q q) \<and> k_list k (Dq_push_q q) \<noteq> [] then r = Dq_lwm \<and> wakes_first (Dq_push_q q) k k' else r = Dq_return RT_EOK"
proof -
  have ne: "\<not> dq_is_empty (Q q)" using c dq_count_iff(4) [OF inv] length_dq_contents [of "Q q"] by simp
  obtain dq where dq: "dq_fetch (Q q) = Some (x, dq)" "dq_inv dq" "dq_contents dq = xs" "dq_size dq = dq_size (Q q)" "dq_lwm dq = dq_lwm (Q q)"
    using dq_fetch_some [OF inv c] by blast
  have m: "dq_magic (Q q) = DATAQUEUE_MAGIC" using inv by (simp add: dq_inv_def)
  have len: "rt_data_queue_len dq = Some (length xs)" using rt_data_queue_len_eq [OF dq(2)] dq(3) by simp
  show thesis
  proof (cases "length xs \<le> dq_lwm (Q q) \<and> k_list k (Dq_push_q q) \<noteq> []")
    case True
    obtain k' where k': "wake_first (Dq_push_q q) k = Some k'" "wakes_first (Dq_push_q q) k k'"
      by (rule wake_first_succeeds [OF live, of "Dq_push_q q"]) simp_all
    show thesis
      by (rule that [OF _ wakes_first_frame(1) [OF k'(2) live] dq(2-4), of Dq_lwm])
        (use True k' ne m dq(1,5) len in \<open>simp_all add: rt_data_queue_pop_def dq_pop_loop_def\<close>)
  next
    case False
    let ?ev = "if length xs \<le> dq_lwm (Q q) then RT_DATAQUEUE_EVENT_LWM else RT_DATAQUEUE_EVENT_POP"
    obtain k' where k': "dq_notify cb q ?ev (k, Q(q := dq)) = Some (k', Q(q := dq))" "kernel_live k'"
      by (rule dq_notify_quiet [OF cb live])
    show thesis
      by (rule that [OF _ k'(2) dq(2-4), of "Dq_return RT_EOK"])
        (use False k' ne m dq(1,5) len in \<open>auto simp: rt_data_queue_pop_def dq_pop_loop_def\<close>)
  qed
qed

lemma dqueue_fifo:
  assumes cb: "quiet_callback cb"
  shows "bounded_fifo (dqueue_inv q) (\<lambda>_. True) (dqueue_contents q) (\<lambda>s. dq_size (snd s q)) (dqueue_put cb q) (dqueue_get cb q)"
proof
  fix s :: dq_state and x :: data_item and xs
  assume i: "dqueue_inv q s"
  obtain k Q where s: "s = (k, Q)" by (cases s)
  have live: "kernel_live k" and inv: "dq_inv (Q q)" using i by (simp_all add: dqueue_inv_def s)
  show "\<exists>s'. dqueue_put cb q s x = Some s' \<and> dqueue_inv q s' \<and> dqueue_contents q s' = dqueue_contents q s @ [x]
      \<and> dq_size (snd s' q) = dq_size (snd s q)" if "length (dqueue_contents q s) < dq_size (snd s q)"
    by (rule rt_data_queue_push_room [where q = q and Q = Q and x = x and timeout = 0, OF cb live inv])
      (use that in \<open>auto simp: s dqueue_contents_def dqueue_put_def dqueue_inv_def\<close>)
  show "length (dqueue_contents q s) = dq_size (snd s q) \<Longrightarrow> dqueue_put cb q s x = None"
    using rt_data_queue_push_full [of Q q, OF inv] by (simp add: s dqueue_contents_def dqueue_put_def)
  show "\<exists>s'. dqueue_get cb q s = Some (x, s') \<and> dqueue_inv q s' \<and> dqueue_contents q s' = xs \<and> dq_size (snd s' q) = dq_size (snd s q)"
    if "dqueue_contents q s = x # xs"
  proof -
    have c: "dq_contents (Q q) = x # xs" using that by (simp add: s dqueue_contents_def)
    obtain r k1 dq where p: "rt_data_queue_pop cb q 0 k Q = Some (r, Some x, k1, Q(q := dq))" "kernel_live k1" "dq_inv dq"
      "dq_contents dq = xs" "dq_size dq = dq_size (Q q)" "r = Dq_lwm \<or> r = Dq_return RT_EOK"
      by (rule rt_data_queue_pop_some [where q = q and Q = Q and timeout = 0, OF cb live inv c]) (auto split: if_splits)
    obtain k2 where k2: "dq_notify cb q RT_DATAQUEUE_EVENT_LWM (k1, Q(q := dq)) = Some (k2, Q(q := dq))" "kernel_live k2"
      by (rule dq_notify_quiet [OF cb p(2)])
    show ?thesis
      using p k2 by (auto simp: s dqueue_get_def dqueue_inv_def dqueue_contents_def rt_data_queue_pop_lwm_def)
  qed
  show "dqueue_contents q s = [] \<Longrightarrow> dqueue_get cb q s = None"
    using rt_data_queue_pop_empty [of Q q, OF inv] by (simp add: s dqueue_contents_def dqueue_get_def)
  show "length (dqueue_contents q s) \<le> dq_size (snd s q)" using dq_count_iff(2) [OF inv] by (simp add: s dqueue_contents_def)
qed

section \<open>Properties\<close>

text \<open>
  C38. A data queue of at most 32768 items is a bounded first-in first-out queue. In a live kernel and with a callback that
  leaves the queue alone, pushing as many items as an empty queue holds and then popping that many, without waiting, gives
  the items in order, whatever threads wait; in between \<^verbatim>\<open>rt_data_queue_len\<close> is their number and \<^verbatim>\<open>rt_data_queue_peek\<close>
  gives the first one; a push into a full queue and a pop from an empty one return \<^verbatim>\<open>-RT_ETIMEOUT\<close> and change nothing.
\<close>

theorem rt_data_queue_fifo:
  assumes cb: "quiet_callback cb" and inv: "dqueue_inv q s" and empty: "dqueue_contents q s = []"
    and room: "length xs \<le> dq_size (snd s q)"
  shows "\<exists>k1 Q1 k2 Q2. put_list (dqueue_put cb q) s xs = Some (k1, Q1) \<and> get_n (dqueue_get cb q) (k1, Q1) (length xs) = Some (xs, k2, Q2)
    \<and> rt_data_queue_len (Q1 q) = Some (length xs)
    \<and> rt_data_queue_peek (Q1 q) = (case xs of [] \<Rightarrow> Some (- RT_EEMPTY, None) | x # _ \<Rightarrow> Some (RT_EOK, Some x))
    \<and> (length xs = dq_size (snd s q) \<longrightarrow> (\<forall>x. rt_data_queue_push cb q x 0 k1 Q1 = Some (Dq_return (- RT_ETIMEOUT), k1, Q1)))
    \<and> rt_data_queue_pop cb q 0 k2 Q2 = Some (Dq_return (- RT_ETIMEOUT), None, k2, Q2)"
proof -
  note F = dqueue_fifo [OF cb, of q]
  obtain k1 Q1 where p: "put_list (dqueue_put cb q) s xs = Some (k1, Q1)" "dqueue_inv q (k1, Q1)" "dqueue_contents q (k1, Q1) = xs"
    "dq_size (Q1 q) = dq_size (snd s q)"
    using bounded_fifo.put_list_contents [OF F inv, of xs] empty room by auto
  obtain k2 Q2 where g: "get_n (dqueue_get cb q) (k1, Q1) (length xs) = Some (xs, k2, Q2)" "dqueue_inv q (k2, Q2)"
    "dqueue_contents q (k2, Q2) = []"
    using bounded_fifo.get_n_contents [OF F p(2), of "length xs"] p(3) by auto
  have d: "dq_inv (Q1 q)" "dq_contents (Q1 q) = xs" "dq_inv (Q2 q)" "dq_contents (Q2 q) = []"
    using p(2,3) g(2,3) by (simp_all add: dqueue_inv_def dqueue_contents_def)
  have "rt_data_queue_len (Q1 q) = Some (length xs)" using rt_data_queue_len_eq [OF d(1)] d(2) by simp
  moreover have "length xs = dq_size (snd s q) \<longrightarrow> (\<forall>x. rt_data_queue_push cb q x 0 k1 Q1 = Some (Dq_return (- RT_ETIMEOUT), k1, Q1))"
    using rt_data_queue_push_full [of Q1 q, OF d(1)] d(2) p(4) by simp
  moreover note rt_data_queue_peek_eq [OF d(1), unfolded d(2)] rt_data_queue_pop_empty [of Q2 q, OF d(3,4), of cb k2]
  ultimately show ?thesis using p(1) g(1) by blast
qed

theorem rt_data_queue_fifo_witness:
  "\<exists>s1 s2. put_list (dqueue_put (\<lambda>f q ev s. Some s) 0) (sample_kernel, \<lambda>_. sample_dq) [(4096, 16), (8192, 8)] = Some s1
    \<and> get_n (dqueue_get (\<lambda>f q ev s. Some s) 0) s1 2 = Some ([(4096, 16), (8192, 8)], s2)"
proof -
  have "quiet_callback (\<lambda>f q ev s. Some s)" by (simp add: quiet_callback_def)
  moreover have "dqueue_inv 0 (sample_kernel, \<lambda>_. sample_dq)" by (simp add: dqueue_inv_def sample_kernel_live dq_inv_def sample_dq_def)
  moreover have "dqueue_contents 0 (sample_kernel, \<lambda>_. sample_dq) = []" by (simp add: dqueue_contents_def dq_contents_def dq_count_def sample_dq_def)
  ultimately show ?thesis
    using rt_data_queue_fifo [of "\<lambda>f q ev s. Some s" 0 "(sample_kernel, \<lambda>_. sample_dq)" "[(4096, 16), (8192, 8)]"]
    by (auto simp: sample_dq_def numeral_2_eq_2)
qed

end
