(* ===== verification/Kservice_Mem.thy ===== *)
theory Kservice_Mem
  imports Prelude
begin

text \<open>
  The memory and string routines of \<^verbatim>\<open>os/kservice.c\<close>, on a memory of bytes indexed by address. \<^verbatim>\<open>long\<close> has four bytes,
  little endian; \<^verbatim>\<open>char\<close> is unsigned, as the ARM ABI has it. The lengths are below \<open>2 ^ 31\<close>, so that the \<^verbatim>\<open>int\<close>
  counter of \<^verbatim>\<open>rt_memcpy\<close> is the length, and no object reaches the end of the address space. A loop that looks for
  a terminating zero is a partial function: on memory without one it does not return.
\<close>

section \<open>Definitions\<close>

type_synonym memory = "nat \<Rightarrow> u8"

definition load_long :: "memory \<Rightarrow> nat \<Rightarrow> u32" where
  "load_long m a = ucast (m a) OR push_bit 8 (ucast (m (a + 1))) OR push_bit 16 (ucast (m (a + 2))) OR push_bit 24 (ucast (m (a + 3)))"

definition store_long :: "memory \<Rightarrow> nat \<Rightarrow> u32 \<Rightarrow> memory" where
  "store_long m a w = m(a := ucast w, a + 1 := ucast (drop_bit 8 w), a + 2 := ucast (drop_bit 16 w), a + 3 := ucast (drop_bit 24 w))"

subsection \<open>Filling and copying\<close>

fun byte_set_loop :: "memory \<Rightarrow> nat \<Rightarrow> u8 \<Rightarrow> nat \<Rightarrow> memory" where
  "byte_set_loop m a d 0 = m"
| "byte_set_loop m a d (Suc n) = byte_set_loop (m(a := d)) (a + 1) d n"

fun long_set_loop :: "memory \<Rightarrow> nat \<Rightarrow> u32 \<Rightarrow> nat \<Rightarrow> memory \<times> nat \<times> nat" where
  "long_set_loop m a buffer count =
     (if count \<ge> 4 then long_set_loop (store_long m a buffer) (a + 4) buffer (count - 4) else (m, a, count))"

fun big_set_loop :: "memory \<Rightarrow> nat \<Rightarrow> u32 \<Rightarrow> nat \<Rightarrow> memory \<times> nat \<times> nat" where
  "big_set_loop m a buffer count =
     (if count \<ge> 16 then
        let m1 = store_long m a buffer; m2 = store_long m1 (a + 4) buffer;
            m3 = store_long m2 (a + 8) buffer; m4 = store_long m3 (a + 12) buffer in
        big_set_loop m4 (a + 16) buffer (count - 16)
      else (m, a, count))"

definition rt_memset :: "memory \<Rightarrow> nat \<Rightarrow> u32 \<Rightarrow> nat \<Rightarrow> memory" where
  "rt_memset m s c count =
     (let d = c AND 0xff in
      if \<not> count < 4 \<and> s mod 4 = 0 then
        let b1 = push_bit 8 d OR d;
            buffer = b1 OR push_bit 16 b1;
            (m1, a1, n1) = big_set_loop m s buffer count;
            (m2, a2, n2) = long_set_loop m1 a1 buffer n1 in
        byte_set_loop m2 a2 (ucast d) n2
      else byte_set_loop m s (ucast d) count)"

fun byte_copy_loop :: "memory \<Rightarrow> nat \<Rightarrow> nat \<Rightarrow> nat \<Rightarrow> memory" where
  "byte_copy_loop m d s 0 = m"
| "byte_copy_loop m d s (Suc n) = byte_copy_loop (m(d := m s)) (d + 1) (s + 1) n"

definition long_copy :: "memory \<Rightarrow> nat \<Rightarrow> nat \<Rightarrow> memory" where
  "long_copy m d s = store_long m d (load_long m s)"

fun long_copy_loop :: "memory \<Rightarrow> nat \<Rightarrow> nat \<Rightarrow> nat \<Rightarrow> memory \<times> nat \<times> nat \<times> nat" where
  "long_copy_loop m d s len =
     (if len \<ge> 4 then long_copy_loop (long_copy m d s) (d + 4) (s + 4) (len - 4) else (m, d, s, len))"

fun big_copy_loop :: "memory \<Rightarrow> nat \<Rightarrow> nat \<Rightarrow> nat \<Rightarrow> memory \<times> nat \<times> nat \<times> nat" where
  "big_copy_loop m d s len =
     (if len \<ge> 16 then
        let m1 = long_copy m d s; m2 = long_copy m1 (d + 4) (s + 4);
            m3 = long_copy m2 (d + 8) (s + 8); m4 = long_copy m3 (d + 12) (s + 12) in
        big_copy_loop m4 (d + 16) (s + 16) (len - 16)
      else (m, d, s, len))"

definition rt_memcpy :: "memory \<Rightarrow> nat \<Rightarrow> nat \<Rightarrow> nat \<Rightarrow> memory" where
  "rt_memcpy m dst src count =
     (if \<not> count < 16 \<and> dst mod 4 = 0 \<and> src mod 4 = 0 then
        let (m1, d1, s1, n1) = big_copy_loop m dst src count;
            (m2, d2, s2, n2) = long_copy_loop m1 d1 s1 n1 in
        byte_copy_loop m2 d2 s2 n2
      else byte_copy_loop m dst src count)"

fun copy_down_loop :: "memory \<Rightarrow> nat \<Rightarrow> nat \<Rightarrow> nat \<Rightarrow> memory" where
  "copy_down_loop m d s 0 = m"
| "copy_down_loop m d s (Suc n) = copy_down_loop (m(d - 1 := m (s - 1))) (d - 1) (s - 1) n"

definition rt_memmove :: "memory \<Rightarrow> nat \<Rightarrow> nat \<Rightarrow> nat \<Rightarrow> memory" where
  "rt_memmove m dest src n =
     (if src < dest \<and> dest < src + n then copy_down_loop m (dest + n) (src + n) n
      else byte_copy_loop m dest src n)"

subsection \<open>Comparing\<close>

fun rt_memcmp :: "memory \<Rightarrow> nat \<Rightarrow> nat \<Rightarrow> nat \<Rightarrow> int" where
  "rt_memcmp m cs ct 0 = 0"
| "rt_memcmp m cs ct (Suc n) =
     (let res = uint (m cs) - uint (m ct) in if res \<noteq> 0 then res else rt_memcmp m (cs + 1) (ct + 1) n)"

subsection \<open>Strings\<close>

partial_function (option) strlen_loop :: "memory \<Rightarrow> nat \<Rightarrow> nat option" where
  "strlen_loop m sc = (if m sc \<noteq> 0 then strlen_loop m (sc + 1) else Some sc)"

definition rt_strlen :: "memory \<Rightarrow> nat \<Rightarrow> nat option" where
  "rt_strlen m s = do { sc \<leftarrow> strlen_loop m s; Some (sc - s) }"

partial_function (option) strnlen_loop :: "memory \<Rightarrow> nat \<Rightarrow> nat \<Rightarrow> nat \<Rightarrow> nat option" where
  "strnlen_loop m s maxlen sc =
     (if m sc \<noteq> 0 \<and> sc - s < maxlen then strnlen_loop m s maxlen (sc + 1) else Some sc)"

definition rt_strnlen :: "memory \<Rightarrow> nat \<Rightarrow> nat \<Rightarrow> nat option" where
  "rt_strnlen m s maxlen = do { sc \<leftarrow> strnlen_loop m s maxlen s; Some (sc - s) }"

partial_function (option) rt_strcmp :: "memory \<Rightarrow> nat \<Rightarrow> nat \<Rightarrow> int option" where
  "rt_strcmp m cs ct =
     (if m cs \<noteq> 0 \<and> m cs = m ct then rt_strcmp m (cs + 1) (ct + 1) else Some (uint (m cs) - uint (m ct)))"

text \<open>\<^verbatim>\<open>rt_strncmp\<close> keeps the difference in a \<^verbatim>\<open>signed char\<close>.\<close>

fun rt_strncmp :: "memory \<Rightarrow> nat \<Rightarrow> nat \<Rightarrow> nat \<Rightarrow> int" where
  "rt_strncmp m cs ct 0 = 0"
| "rt_strncmp m cs ct (Suc n) =
     (let res = sint (m cs - m ct) in
      if res \<noteq> 0 \<or> m cs = 0 then res else rt_strncmp m (cs + 1) (ct + 1) n)"

definition fold_case :: "u8 \<Rightarrow> int" where
  "fold_case c = (if 65 \<le> uint c \<and> uint c \<le> 90 then uint c + 32 else uint c)"

partial_function (option) rt_strcasecmp :: "memory \<Rightarrow> nat \<Rightarrow> nat \<Rightarrow> int option" where
  "rt_strcasecmp m a b =
     (let ca = fold_case (m a); cb = fold_case (m b) in
      if ca = cb \<and> ca \<noteq> 0 then rt_strcasecmp m (a + 1) (b + 1) else Some (ca - cb))"

fun strncpy_loop :: "memory \<Rightarrow> nat \<Rightarrow> nat \<Rightarrow> nat \<Rightarrow> memory" where
  "strncpy_loop m d s 0 = m"
| "strncpy_loop m d s (Suc n) =
     (let m1 = m(d := m s) in
      if m s = 0 then byte_set_loop m1 (d + 1) 0 n else strncpy_loop m1 (d + 1) (s + 1) n)"

definition rt_strncpy :: "memory \<Rightarrow> nat \<Rightarrow> nat \<Rightarrow> nat \<Rightarrow> memory" where
  "rt_strncpy m dst src n = (if n \<noteq> 0 then strncpy_loop m dst src n else m)"

text \<open>The search loop of \<^verbatim>\<open>rt_strstr\<close>; the result is the address, or \<open>None\<close> for \<^verbatim>\<open>RT_NULL\<close>. The caller has returned
  already when \<open>l2\<close> is zero.\<close>

fun strstr_loop :: "memory \<Rightarrow> nat \<Rightarrow> nat \<Rightarrow> nat \<Rightarrow> nat \<Rightarrow> nat option" where
  "strstr_loop m s1 s2 l1 l2 =
     (if l1 \<ge> l2 \<and> l2 > 0 then
        if rt_memcmp m s1 s2 l2 = 0 then Some s1 else strstr_loop m (s1 + 1) s2 (l1 - 1) l2
      else None)"

definition rt_strstr :: "memory \<Rightarrow> nat \<Rightarrow> nat \<Rightarrow> nat option option" where
  "rt_strstr m s1 s2 = do {
     l2 \<leftarrow> rt_strlen m s2;
     if l2 = 0 then Some (Some s1)
     else do {
       l1 \<leftarrow> rt_strlen m s1;
       Some (strstr_loop m s1 s2 l1 l2)
     }
   }"

subsection \<open>What they compute\<close>

definition mem_copy :: "memory \<Rightarrow> nat \<Rightarrow> nat \<Rightarrow> nat \<Rightarrow> memory" where
  "mem_copy m d s n = (\<lambda>a. if d \<le> a \<and> a < d + n then m (s + (a - d)) else m a)"

definition mem_fill :: "memory \<Rightarrow> nat \<Rightarrow> u8 \<Rightarrow> nat \<Rightarrow> memory" where
  "mem_fill m s c n = (\<lambda>a. if s \<le> a \<and> a < s + n then c else m a)"

text \<open>A word of four equal bytes.\<close>

definition splat :: "u8 \<Rightarrow> u32" where
  "splat c = (let d = ucast c; b1 = push_bit 8 d OR d in b1 OR push_bit 16 b1)"

text \<open>The bytes of \<open>xs\<close> lie at \<open>a\<close>, and, for a string, a zero follows them.\<close>

definition bytes_at :: "memory \<Rightarrow> nat \<Rightarrow> u8 list \<Rightarrow> bool" where
  "bytes_at m a xs \<longleftrightarrow> map (\<lambda>i. m (a + i)) [0..<length xs] = xs"

definition cstr :: "memory \<Rightarrow> nat \<Rightarrow> u8 list \<Rightarrow> bool" where
  "cstr m a xs \<longleftrightarrow> 0 \<notin> set xs \<and> bytes_at m a (xs @ [0])"

text \<open>The first position of one list in another.\<close>

fun find_sub :: "u8 list \<Rightarrow> u8 list \<Rightarrow> nat option" where
  "find_sub ys [] = (if ys = [] then Some 0 else None)"
| "find_sub ys (x # xs) = (if take (length ys) (x # xs) = ys then Some 0 else map_option Suc (find_sub ys xs))"

text \<open>A memory with the strings \<open>banana\<close> at 8 and \<open>nan\<close> at 40.\<close>

definition sample_memory :: memory where
  "sample_memory = (\<lambda>_. 0)(8 := 98, 9 := 97, 10 := 110, 11 := 97, 12 := 110, 13 := 97, 40 := 110, 41 := 97, 42 := 110)"

section \<open>Words and bytes\<close>

lemma store_load: "store_long m d (load_long m s) = mem_copy m d s 4"
proof -
  have b: "(ucast (load_long m s) :: u8) = m s" "(ucast (drop_bit 8 (load_long m s)) :: u8) = m (s + 1)"
    "(ucast (drop_bit 16 (load_long m s)) :: u8) = m (s + 2)" "(ucast (drop_bit 24 (load_long m s)) :: u8) = m (s + 3)"
    by (rule bit_word_eqI; auto simp: load_long_def bit_simps dest: bit_imp_le_length)+
  have "a = d \<or> a = d + 1 \<or> a = d + 2 \<or> a = d + 3" if "d \<le> a" "a < d + 4" for a using that by linarith
  then show ?thesis by (auto simp: store_long_def b mem_copy_def fun_eq_iff)
qed

lemma mem_copy_comp:
  assumes "d \<le> s \<or> s + (k + n) \<le> d"
  shows "mem_copy (mem_copy m d s k) (d + k) (s + k) n = mem_copy m d s (k + n)"
  using assms by (auto simp: mem_copy_def fun_eq_iff)

lemma mem_copy_0 [simp]: "mem_copy m d s 0 = m"
  by (auto simp: mem_copy_def fun_eq_iff)

lemma mem_copy_1: "mem_copy m d s 1 = m(d := m s)"
  by (auto simp: mem_copy_def fun_eq_iff)

lemma byte_copy_loop_eq: "d \<le> s \<or> s + n \<le> d \<Longrightarrow> byte_copy_loop m d s n = mem_copy m d s n"
proof (induction n arbitrary: m d s)
  case (Suc n)
  have "byte_copy_loop (m(d := m s)) (d + 1) (s + 1) n = mem_copy (m(d := m s)) (d + 1) (s + 1) n" using Suc.prems by (intro Suc.IH) auto
  also have "\<dots> = mem_copy m d s (1 + n)" unfolding mem_copy_1 [symmetric] using Suc.prems by (intro mem_copy_comp) auto
  finally show ?case by simp
qed simp

lemma copy_down_loop_eq: "s < d \<Longrightarrow> copy_down_loop m (d + n) (s + n) n = mem_copy m d s n"
proof (induction n arbitrary: m)
  case (Suc n)
  have "mem_copy (m(d + n := m (s + n))) d s n = mem_copy m d s (Suc n)"
    using Suc.prems by (auto simp: mem_copy_def fun_eq_iff less_Suc_eq)
  then show ?case using Suc by simp
qed simp

lemma long_copy_eq: "long_copy m d s = mem_copy m d s 4"
  by (simp add: long_copy_def store_load)

text \<open>What a loop has copied when it stops.\<close>

lemma long_copy_loop_eq:
  "d \<le> s \<or> s + n \<le> d \<Longrightarrow> \<exists>k \<le> n. long_copy_loop m d s n = (mem_copy m d s k, d + k, s + k, n - k)"
proof (induction m d s n rule: long_copy_loop.induct)
  case (1 m d s n)
  show ?case
  proof (cases "4 \<le> n")
    case True
    then have "d + 4 \<le> s + 4 \<or> s + 4 + (n - 4) \<le> d + 4" using 1(2) by auto
    from "1.IH" [OF True this] obtain k where k: "k \<le> n - 4"
      "long_copy_loop (long_copy m d s) (d + 4) (s + 4) (n - 4) = (mem_copy (long_copy m d s) (d + 4) (s + 4) k, d + 4 + k, s + 4 + k, n - 4 - k)" by blast
    have "mem_copy (mem_copy m d s 4) (d + 4) (s + 4) k = mem_copy m d s (4 + k)" using 1(2) k(1) True by (intro mem_copy_comp) auto
    then show ?thesis using k True by (intro exI [of _ "4 + k"]) (simp add: long_copy_eq del: long_copy_loop.simps, subst long_copy_loop.simps, simp add: long_copy_eq)
  next
    case False
    then show ?thesis by (intro exI [of _ 0]) simp
  qed
qed

lemma big_copy_loop_eq:
  "d \<le> s \<or> s + n \<le> d \<Longrightarrow> \<exists>k \<le> n. big_copy_loop m d s n = (mem_copy m d s k, d + k, s + k, n - k)"
proof (induction m d s n rule: big_copy_loop.induct)
  case (1 m d s n)
  show ?case
  proof (cases "16 \<le> n")
    case True
    let ?m4 = "mem_copy m d s 16"
    have c4: "long_copy (long_copy (long_copy (long_copy m d s) (d + 4) (s + 4)) (d + 8) (s + 8)) (d + 12) (s + 12) = ?m4"
      using 1(2) True mem_copy_comp [of d s 4 4 m] mem_copy_comp [of d s 8 4 m] mem_copy_comp [of d s 12 4 m] by (auto simp: long_copy_eq)
    have "d + 16 \<le> s + 16 \<or> s + 16 + (n - 16) \<le> d + 16" using 1(2) True by auto
    from "1.IH" [OF True refl refl refl refl this] obtain k where k: "k \<le> n - 16"
      "big_copy_loop ?m4 (d + 16) (s + 16) (n - 16) = (mem_copy ?m4 (d + 16) (s + 16) k, d + 16 + k, s + 16 + k, n - 16 - k)" unfolding c4 by blast
    have "mem_copy ?m4 (d + 16) (s + 16) k = mem_copy m d s (16 + k)" using 1(2) k(1) True by (intro mem_copy_comp) auto
    moreover have "big_copy_loop m d s n = big_copy_loop ?m4 (d + 16) (s + 16) (n - 16)"
      using True by (subst big_copy_loop.simps) (simp add: Let_def c4 del: big_copy_loop.simps)
    ultimately show ?thesis using k True by (intro exI [of _ "16 + k"]) (simp del: big_copy_loop.simps)
  next
    case False
    then show ?thesis by (intro exI [of _ 0]) simp
  qed
qed

lemma memcpy_eq:
  assumes "d \<le> s \<or> s + n \<le> d"
  shows "rt_memcpy m d s n = mem_copy m d s n"
proof -
  obtain k where k: "k \<le> n" "big_copy_loop m d s n = (mem_copy m d s k, d + k, s + k, n - k)" using big_copy_loop_eq [OF assms] by blast
  have "d + k \<le> s + k \<or> s + k + (n - k) \<le> d + k" using assms k(1) by auto
  from long_copy_loop_eq [OF this] obtain j where j: "j \<le> n - k"
    "long_copy_loop (mem_copy m d s k) (d + k) (s + k) (n - k) = (mem_copy (mem_copy m d s k) (d + k) (s + k) j, d + k + j, s + k + j, n - k - j)" by blast
  have "mem_copy (mem_copy m d s k) (d + k) (s + k) j = mem_copy m d s (k + j)" using assms k(1) j(1) by (intro mem_copy_comp) auto
  moreover have "byte_copy_loop (mem_copy m d s (k + j)) (d + (k + j)) (s + (k + j)) (n - (k + j)) = mem_copy m d s n"
  proof -
    have "byte_copy_loop (mem_copy m d s (k + j)) (d + (k + j)) (s + (k + j)) (n - (k + j))
        = mem_copy (mem_copy m d s (k + j)) (d + (k + j)) (s + (k + j)) (n - (k + j))" using assms k(1) j(1) by (intro byte_copy_loop_eq) auto
    also have "\<dots> = mem_copy m d s (k + j + (n - (k + j)))" using assms k(1) j(1) by (intro mem_copy_comp) auto
    finally show ?thesis using k(1) j(1) by simp
  qed
  ultimately show ?thesis using k j byte_copy_loop_eq [OF assms]
    by (simp add: rt_memcpy_def Let_def add.assoc del: big_copy_loop.simps long_copy_loop.simps)
qed

section \<open>Filling\<close>

lemma mem_fill_comp: "mem_fill (mem_fill m a c k) (a + k) c n = mem_fill m a c (k + n)"
  by (auto simp: mem_fill_def fun_eq_iff)

lemma byte_set_loop_eq: "byte_set_loop m a c n = mem_fill m a c n"
proof (induction n arbitrary: m a)
  case (Suc n)
  have "m(a := c) = mem_fill m a c 1" by (auto simp: mem_fill_def fun_eq_iff)
  then show ?case using Suc mem_fill_comp [of m a c 1 n] by simp
qed (auto simp: mem_fill_def fun_eq_iff)

lemma store_splat: "store_long m a (splat c) = mem_fill m a c 4"
proof -
  have b: "(ucast (splat c) :: u8) = c" "(ucast (drop_bit 8 (splat c)) :: u8) = c"
    "(ucast (drop_bit 16 (splat c)) :: u8) = c" "(ucast (drop_bit 24 (splat c)) :: u8) = c"
    by (rule bit_word_eqI; auto simp: splat_def Let_def bit_simps dest: bit_imp_le_length)+
  have "x = a \<or> x = a + 1 \<or> x = a + 2 \<or> x = a + 3" if "a \<le> x" "x < a + 4" for x using that by linarith
  then show ?thesis by (auto simp: store_long_def b mem_fill_def fun_eq_iff)
qed

lemma long_set_loop_eq: "\<exists>k \<le> n. long_set_loop m a (splat c) n = (mem_fill m a c k, a + k, n - k)"
proof (induction n arbitrary: m a rule: less_induct)
  case (less n)
  show ?case
  proof (cases "4 \<le> n")
    case True
    obtain k where k: "k \<le> n - 4" "long_set_loop (mem_fill m a c 4) (a + 4) (splat c) (n - 4)
        = (mem_fill (mem_fill m a c 4) (a + 4) c k, a + 4 + k, n - 4 - k)" using less [of "n - 4" "mem_fill m a c 4" "a + 4"] True by auto
    then show ?thesis using True
      by (intro exI [of _ "4 + k"]) (subst long_set_loop.simps, simp add: store_splat mem_fill_comp del: long_set_loop.simps)
  next
    case False
    then show ?thesis by (intro exI [of _ 0]) (auto simp: mem_fill_def fun_eq_iff)
  qed
qed

lemma big_set_loop_eq: "\<exists>k \<le> n. big_set_loop m a (splat c) n = (mem_fill m a c k, a + k, n - k)"
proof (induction n arbitrary: m a rule: less_induct)
  case (less n)
  show ?case
  proof (cases "16 \<le> n")
    case True
    have m4: "store_long (store_long (store_long (store_long m a (splat c)) (a + 4) (splat c)) (a + 8) (splat c)) (a + 12) (splat c) = mem_fill m a c 16"
      using mem_fill_comp [of m a c 4 4] mem_fill_comp [of m a c 8 4] mem_fill_comp [of m a c 12 4] by (simp add: store_splat)
    obtain k where k: "k \<le> n - 16" "big_set_loop (mem_fill m a c 16) (a + 16) (splat c) (n - 16)
        = (mem_fill (mem_fill m a c 16) (a + 16) c k, a + 16 + k, n - 16 - k)" using less [of "n - 16" "mem_fill m a c 16" "a + 16"] True by auto
    then show ?thesis using True
      by (intro exI [of _ "16 + k"]) (subst big_set_loop.simps, simp add: m4 mem_fill_comp Let_def del: big_set_loop.simps)
  next
    case False
    then show ?thesis by (intro exI [of _ 0]) (auto simp: mem_fill_def fun_eq_iff)
  qed
qed

lemma memset_eq: "rt_memset m a c n = mem_fill m a (ucast c) n"
proof -
  let ?c = "ucast c :: u8"
  have f: "(0xff :: u32) = mask 8" by (simp add: mask_eq_exp_minus_1)
  have u: "ucast (c AND 0xff) = ?c" "ucast ?c = c AND 0xff"
    unfolding f by (rule bit_word_eqI; auto simp: bit_simps)+
  have sp: "splat ?c = (push_bit 8 (c AND 0xff) OR (c AND 0xff)) OR push_bit 16 (push_bit 8 (c AND 0xff) OR (c AND 0xff))"
    by (simp add: splat_def Let_def u)
  obtain k where k: "k \<le> n" "big_set_loop m a (splat ?c) n = (mem_fill m a ?c k, a + k, n - k)" using big_set_loop_eq by blast
  obtain j where j: "j \<le> n - k" "long_set_loop (mem_fill m a ?c k) (a + k) (splat ?c) (n - k)
      = (mem_fill (mem_fill m a ?c k) (a + k) ?c j, a + k + j, n - k - j)" using long_set_loop_eq by blast
  have "mem_fill (mem_fill m a ?c (k + j)) (a + (k + j)) ?c (n - (k + j)) = mem_fill m a ?c n"
    using mem_fill_comp [of m a ?c "k + j" "n - (k + j)"] k(1) j(1) by simp
  then show ?thesis using k j unfolding rt_memset_def Let_def u(1) sp [symmetric]
    by (simp add: byte_set_loop_eq mem_fill_comp add.assoc del: big_set_loop.simps long_set_loop.simps)
qed

lemma memmove_eq: "rt_memmove m d s n = mem_copy m d s n"
  using copy_down_loop_eq [of s d m n] byte_copy_loop_eq [of d s n m] by (auto simp: rt_memmove_def)

section \<open>Strings in memory\<close>

lemma bytes_at_nil [simp]: "bytes_at m a []"
  by (simp add: bytes_at_def)

lemma bytes_at_cons [simp]: "bytes_at m a (x # xs) \<longleftrightarrow> m a = x \<and> bytes_at m (a + 1) xs"
proof -
  have "map (\<lambda>i. m (a + i)) [0..<length (x # xs)] = m a # map (\<lambda>i. m (a + 1 + i)) [0..<length xs]"
    by (simp add: upt_conv_Cons map_Suc_upt [symmetric] del: upt_Suc)
  then show ?thesis by (auto simp: bytes_at_def simp del: upt_Suc)
qed

lemma bytes_at_append: "bytes_at m a (xs @ ys) \<longleftrightarrow> bytes_at m a xs \<and> bytes_at m (a + length xs) ys"
  by (induction xs arbitrary: a) auto

lemma cstr_nil [simp]: "cstr m a [] \<longleftrightarrow> m a = 0"
  by (simp add: cstr_def)

lemma cstr_cons [simp]: "cstr m a (x # xs) \<longleftrightarrow> x \<noteq> 0 \<and> m a = x \<and> cstr m (a + 1) xs"
  by (auto simp: cstr_def)

lemma strlen_cstr: "cstr m a xs \<Longrightarrow> strlen_loop m a = Some (a + length xs)"
proof (induction xs arbitrary: a)
  case Nil
  then show ?case by (subst strlen_loop.simps) simp
next
  case (Cons x xs)
  then show ?case using Cons.IH [of "a + 1"] by (subst strlen_loop.simps) auto
qed

lemma rt_strlen_cstr: "cstr m a xs \<Longrightarrow> rt_strlen m a = Some (length xs)"
  by (simp add: rt_strlen_def strlen_cstr)

lemma uint_diff_zero: "uint (x :: u8) - uint y = 0 \<longleftrightarrow> x = y"
  by (simp add: word_uint_eq_iff)

lemma u8_pos: "x \<noteq> 0 \<Longrightarrow> 0 < uint (x :: u8)"
  by (metis uint_0_iff uint_nonnegative order_le_less)

text \<open>\<^verbatim>\<open>rt_strcmp\<close> is the lexicographic order on the bytes.\<close>

lemma rt_strcmp_cstr:
  assumes "cstr m a xs" "cstr m b ys"
  shows "\<exists>r. rt_strcmp m a b = Some r \<and> (r = 0 \<longleftrightarrow> xs = ys) \<and> (r < 0 \<longleftrightarrow> (xs, ys) \<in> lexord {(x, y). x < y})"
  using assms
proof (induction xs arbitrary: a b ys)
  case Nil
  then show ?case
  proof (cases ys)
    case (Cons y zs)
    then show ?thesis using Nil by (subst rt_strcmp.simps) (auto simp: word_less_def dest: u8_pos)
  qed (subst rt_strcmp.simps, simp)
next
  case (Cons x xs)
  have x: "x \<noteq> 0" "m a = x" "cstr m (a + 1) xs" using Cons.prems(1) by auto
  show ?case
  proof (cases ys)
    case Nil
    then show ?thesis using Cons.prems x by (subst rt_strcmp.simps) (auto simp: word_less_def dest: u8_pos)
  next
    case (Cons y zs)
    have y: "y \<noteq> 0" "m b = y" "cstr m (b + 1) zs" using Cons.prems(2) Cons by auto
    show ?thesis
    proof (cases "x = y")
      case True
      then show ?thesis using Cons.IH [OF x(3) y(3)] x y Cons by (subst rt_strcmp.simps) auto
    next
      case False
      then show ?thesis using x y Cons by (subst rt_strcmp.simps) (auto simp: word_less_def word_uint_eq_iff)
    qed
  qed
qed

lemma rt_memcmp_zero: "rt_memcmp m a b n = 0 \<longleftrightarrow> (\<forall>i < n. m (a + i) = m (b + i))"
proof (induction n arbitrary: a b)
  case (Suc n)
  have "(\<forall>i < Suc n. m (a + i) = m (b + i)) \<longleftrightarrow> m a = m b \<and> (\<forall>i < n. m (a + 1 + i) = m (b + 1 + i))"
    by (auto simp: All_less_Suc2)
  then show ?case using Suc.IH [of "a + 1" "b + 1"] by (simp add: Let_def flip: word_uint_eq_iff)
qed simp

lemma bytes_at_iff: "bytes_at m a xs \<longleftrightarrow> (\<forall>i < length xs. m (a + i) = xs ! i)"
  unfolding bytes_at_def list_eq_iff_nth_eq by simp

lemma memcmp_bytes:
  assumes "bytes_at m a xs" "bytes_at m b ys" "length ys \<le> length xs"
  shows "rt_memcmp m a b (length ys) = 0 \<longleftrightarrow> take (length ys) xs = ys"
  using assms by (auto simp: rt_memcmp_zero bytes_at_iff list_eq_iff_nth_eq)

lemma find_sub_short: "length xs < length ys \<Longrightarrow> find_sub ys xs = None"
  by (induction xs) auto

lemma strstr_loop_cstr:
  assumes "cstr m b ys" "ys \<noteq> []" "cstr m a xs"
  shows "strstr_loop m a b (length xs) (length ys) = map_option ((+) a) (find_sub ys xs)"
  using assms(3)
proof (induction xs arbitrary: a)
  case Nil
  then show ?case using assms(2) by simp
next
  case (Cons x xs)
  have by1: "bytes_at m a (x # xs)" "bytes_at m b ys" using Cons.prems assms(1) by (auto simp: cstr_def bytes_at_append)
  show ?case
  proof (cases "length ys \<le> length (x # xs)")
    case True
    have "strstr_loop m a b (length (x # xs)) (length ys)
        = (if rt_memcmp m a b (length ys) = 0 then Some a else strstr_loop m (a + 1) b (length xs) (length ys))"
      using True assms(2) by (subst strstr_loop.simps) (simp del: strstr_loop.simps)
    then show ?thesis using memcmp_bytes [OF by1 True] Cons.IH [of "a + 1"] Cons.prems
      by (cases "find_sub ys xs") (simp_all del: strstr_loop.simps)
  next
    case False
    then show ?thesis using find_sub_short [of "x # xs" ys] by (subst strstr_loop.simps) (simp del: find_sub.simps)
  qed
qed

lemma strnlen_cstr:
  "cstr m (s + i) xs \<Longrightarrow> i \<le> n \<Longrightarrow> strnlen_loop m s n (s + i) = Some (s + min n (i + length xs))"
proof (induction xs arbitrary: i)
  case Nil
  then show ?case by (subst strnlen_loop.simps) (simp add: min_def)
next
  case (Cons x xs)
  show ?case
  proof (cases "i < n")
    case True
    then show ?thesis using Cons.IH [of "i + 1"] Cons.prems by (subst strnlen_loop.simps) (auto simp: add.assoc)
  next
    case False
    then show ?thesis using Cons.prems by (subst strnlen_loop.simps) (auto simp: min_def)
  qed
qed

lemma rt_strnlen_cstr: "cstr m a xs \<Longrightarrow> rt_strnlen m a n = Some (min n (length xs))"
  using strnlen_cstr [of m a 0 xs n] by (simp add: rt_strnlen_def)

lemma rt_strstr_cstr:
  assumes "cstr m a xs" "cstr m b ys"
  shows "rt_strstr m a b = Some (map_option ((+) a) (find_sub ys xs))"
proof (cases "ys = []")
  case True
  then show ?thesis using rt_strlen_cstr [OF assms(2)] by (cases xs) (simp_all add: rt_strstr_def)
next
  case False
  then show ?thesis using rt_strlen_cstr [OF assms(1)] rt_strlen_cstr [OF assms(2)] strstr_loop_cstr [OF assms(2) False assms(1)]
    by (simp add: rt_strstr_def del: strstr_loop.simps)
qed

lemma bytes_at_cong: "bytes_at m a xs \<Longrightarrow> (\<And>x. a \<le> x \<Longrightarrow> x < a + length xs \<Longrightarrow> m' x = m x) \<Longrightarrow> bytes_at m' a xs"
  by (simp add: bytes_at_iff)

lemma bytes_at_fill: "bytes_at (mem_fill m a c n) a (replicate n c)"
  by (simp add: bytes_at_iff mem_fill_def)

text \<open>\<^verbatim>\<open>rt_strncpy\<close> writes exactly \<open>n\<close> bytes: the string cut to \<open>n\<close> bytes, padded with zeros.\<close>

lemma strncpy_loop_cstr:
  assumes "cstr m s xs" "d + n \<le> s \<or> s + length xs < d"
  shows "bytes_at (strncpy_loop m d s n) d (take n (xs @ replicate n 0)) \<and> (\<forall>x. x < d \<or> d + n \<le> x \<longrightarrow> strncpy_loop m d s n x = m x)"
  using assms
proof (induction n arbitrary: m d s xs)
  case (Suc n)
  show ?case
  proof (cases xs)
    case Nil
    have "m(d := 0) = mem_fill m d 0 1" by (auto simp: mem_fill_def fun_eq_iff)
    then have e: "strncpy_loop m d s (Suc n) = mem_fill m d 0 (Suc n)"
      using Suc.prems(1) Nil mem_fill_comp [of m d 0 1 n] by (simp add: Let_def byte_set_loop_eq)
    show ?thesis unfolding e using bytes_at_fill [of m d 0 "Suc n"] by (auto simp: Nil mem_fill_def simp flip: replicate_Suc)
  next
    case (Cons x zs)
    let ?m = "m(d := x)"
    have c: "x \<noteq> 0" "m s = x" "cstr m (s + 1) zs" using Suc.prems(1) Cons by auto
    have "cstr ?m (s + 1) zs" unfolding cstr_def
    proof
      show "0 \<notin> set zs" using c(3) by (simp add: cstr_def)
      show "bytes_at ?m (s + 1) (zs @ [0])"
        by (rule bytes_at_cong [of m]) (use c(3) Suc.prems(2) Cons in \<open>auto simp: cstr_def\<close>)
    qed
    moreover have "d + 1 + n \<le> s + 1 \<or> s + 1 + length zs < d + 1" using Suc.prems(2) Cons by auto
    ultimately have I: "bytes_at (strncpy_loop ?m (d + 1) (s + 1) n) (d + 1) (take n (zs @ replicate n 0))"
      "\<forall>y. y < d + 1 \<or> d + 1 + n \<le> y \<longrightarrow> strncpy_loop ?m (d + 1) (s + 1) n y = ?m y" using Suc.IH by blast+
    have e: "strncpy_loop m d s (Suc n) = strncpy_loop ?m (d + 1) (s + 1) n" using c by (simp add: Let_def)
    have t: "take (Suc n) (xs @ replicate (Suc n) 0) = x # take n (zs @ replicate n 0)"
      by (simp add: Cons take_Cons' min_def replicate_append_same [symmetric])
    show ?thesis unfolding e t using I by auto
  qed
qed simp

section \<open>Properties\<close>

text \<open>
  C40. The block routines agree with their byte-wise meaning. \<^verbatim>\<open>rt_memset\<close>, which fills by words when the address is
  aligned, sets exactly the given bytes; \<^verbatim>\<open>rt_memmove\<close> copies the old contents of the source for every overlap of the
  two areas; \<^verbatim>\<open>rt_memcpy\<close>, which copies blocks of sixteen and four bytes when both addresses are aligned, does the same
  unless the destination starts inside the source behind its first byte.
\<close>

theorem rt_mem_equivalence:
  "rt_memset m d c n = mem_fill m d (ucast c) n \<and> rt_memmove m d s n = mem_copy m d s n
    \<and> (d \<le> s \<or> s + n \<le> d \<longrightarrow> rt_memcpy m d s n = mem_copy m d s n)"
  using memset_eq memmove_eq memcpy_eq by blast

theorem rt_mem_equivalence_witness:
  "rt_memmove sample_memory 10 8 6 = mem_copy sample_memory 10 8 6 \<and> rt_memcpy sample_memory 64 8 35 = mem_copy sample_memory 64 8 35"
  using rt_mem_equivalence [of sample_memory 10 0 6 8] rt_mem_equivalence [of sample_memory 64 0 35 8] by simp

text \<open>
  The string routines, on two terminated strings: \<^verbatim>\<open>rt_strlen\<close> and \<^verbatim>\<open>rt_strnlen\<close> return and give the length, cut at
  the bound; \<^verbatim>\<open>rt_strcmp\<close> returns zero exactly for equal strings and is negative exactly when the first one is smaller
  in the lexicographic order of the bytes; \<^verbatim>\<open>rt_strstr\<close> returns the address of the first occurrence of the second
  string in the first, or \<^verbatim>\<open>RT_NULL\<close> when there is none.
\<close>

lemma rt_strings_spec:
  assumes "cstr m a xs" "cstr m b ys"
  shows "rt_strlen m a = Some (length xs) \<and> rt_strnlen m a n = Some (min n (length xs))
    \<and> (\<exists>r. rt_strcmp m a b = Some r \<and> (r = 0 \<longleftrightarrow> xs = ys) \<and> (r < 0 \<longleftrightarrow> (xs, ys) \<in> lexord {(x, y). x < y}))
    \<and> rt_strstr m a b = Some (map_option ((+) a) (find_sub ys xs))"
  using rt_strlen_cstr [OF assms(1)] rt_strnlen_cstr [OF assms(1)] rt_strcmp_cstr [OF assms] rt_strstr_cstr [OF assms] by blast

end
