(* ===== verification/Kservice_Format.thy ===== *)
theory Kservice_Format
  imports Kservice_Mem
begin

text \<open>
  Formatted output of \<^verbatim>\<open>os/kservice.c\<close>: \<^verbatim>\<open>print_number\<close>, \<^verbatim>\<open>rt_vsnprintf\<close> and its variants, with the options the file
  is compiled with (\<^verbatim>\<open>RT_PRINTF_PRECISION\<close>, neither \<^verbatim>\<open>RT_PRINTF_SPECIAL\<close> nor \<^verbatim>\<open>RT_PRINTF_LONGLONG\<close>). The format is the
  list of bytes in front of its terminating zero; the variable arguments are a list of values, and taking an
  argument that is missing or of the wrong type is undefined, the value \<open>None\<close>. Field widths, precisions and lengths are 32-bit signed
  integers, whose overflow wraps around, as the processor does it; the output cursor is a 32-bit address.
\<close>

section \<open>Definitions\<close>

abbreviation (input) ZEROPAD :: u8 where "ZEROPAD \<equiv> 1"
abbreviation (input) SIGN :: u8 where "SIGN \<equiv> 2"
abbreviation (input) PLUS :: u8 where "PLUS \<equiv> 4"
abbreviation (input) SPACE :: u8 where "SPACE \<equiv> 8"
abbreviation (input) LEFT :: u8 where "LEFT \<equiv> 16"
abbreviation (input) SPECIAL :: u8 where "SPECIAL \<equiv> 32"
abbreviation (input) LARGE :: u8 where "LARGE \<equiv> 64"

definition wrap_s32 :: "int \<Rightarrow> int" where
  "wrap_s32 i = (i + 2 ^ 31) mod 2 ^ 32 - 2 ^ 31"

text \<open>The cursor of the output: the memory and the address of the next byte. A byte behind \<open>e\<close> is counted, not written. The address wraps
  around at the end of the address space.\<close>

type_synonym outbuf = "memory \<times> nat"

definition emit :: "nat \<Rightarrow> u8 \<Rightarrow> outbuf \<Rightarrow> outbuf" where
  "emit e c st = (if snd st < e then (fst st)(snd st := c) else fst st, (snd st + 1) mod 2 ^ 32)"

text \<open>The loop \<^verbatim>\<open>while (size-- > 0)\<close>, with the value of \<^verbatim>\<open>size\<close> behind it.\<close>

function pad_loop :: "nat \<Rightarrow> u8 \<Rightarrow> int \<Rightarrow> outbuf \<Rightarrow> int \<times> outbuf" where
  "pad_loop e c sz st = (if sz > 0 then pad_loop e c (sz - 1) (emit e c st) else (wrap_s32 (sz - 1), st))"
  by pat_completeness auto
termination by (relation "measure (\<lambda>(e, c, sz, st). nat sz)") auto

definition divide_base :: "nat \<Rightarrow> nat \<Rightarrow> nat \<times> nat" where
  "divide_base n base = (if base = 10 then (n mod 10, n div 10) else (n mod 16, n div 16))"

definition digit :: "bool \<Rightarrow> nat \<Rightarrow> u8" where
  "digit large d = of_nat (if d < 10 then 48 + d else (if large then 55 else 87) + d)"

text \<open>The digits in \<^verbatim>\<open>tmp\<close>, the last one first.\<close>

function digits_loop :: "bool \<Rightarrow> nat \<Rightarrow> nat \<Rightarrow> u8 list" where
  "digits_loop large base n =
     (if n \<noteq> 0 then digit large (fst (divide_base n base)) # digits_loop large base (snd (divide_base n base)) else [])"
  by pat_completeness auto
termination by (relation "measure (\<lambda>(large, base, n). n)") (auto simp: divide_base_def)

definition number_digits :: "bool \<Rightarrow> nat \<Rightarrow> nat \<Rightarrow> u8 list" where
  "number_digits large base n = (if n = 0 then [48] else digits_loop large base n)"

fun emit_list :: "nat \<Rightarrow> u8 list \<Rightarrow> outbuf \<Rightarrow> outbuf" where
  "emit_list e [] st = st"
| "emit_list e (c # cs) st = emit_list e cs (emit e c st)"

definition print_number :: "nat \<Rightarrow> u32 \<Rightarrow> nat \<Rightarrow> int \<Rightarrow> int \<Rightarrow> u8 \<Rightarrow> outbuf \<Rightarrow> outbuf" where
  "print_number e num base s precision0 type0 st0 =
     (let type = (if type0 AND LEFT \<noteq> 0 then type0 AND NOT ZEROPAD else type0);
          c = (if type AND ZEROPAD \<noteq> 0 then 48 else 32);
          neg = (type AND SIGN \<noteq> 0 \<and> sint num < 0);
          sign = (if type AND SIGN \<noteq> 0 then
                    if sint num < 0 then 45 else if type AND PLUS \<noteq> 0 then 43
                    else if type AND SPACE \<noteq> 0 then 32 else 0
                  else (0 :: u8));
          n = unat (if neg then - num else num);
          tmp = number_digits (type AND LARGE \<noteq> 0) base n;
          i = int (length tmp);
          precision = (if i > precision0 then i else precision0);
          size0 = wrap_s32 (s - precision);
          (size1, st1) = (if type AND (ZEROPAD OR LEFT) = 0
                          then pad_loop e 32 (if sign \<noteq> 0 \<and> size0 > 0 then size0 - 1 else size0) st0 else (size0, st0));
          (size2, st2) = (if sign \<noteq> 0 then (wrap_s32 (size1 - 1), emit e sign st1) else (size1, st1));
          (size3, st3) = (if type AND LEFT = 0 then pad_loop e c size2 st2 else (size2, st2));
          (_, st4) = pad_loop e 48 (precision - i) st3;
          st5 = (if precision0 \<noteq> 0 then emit_list e (rev tmp) st4 else st4);
          (_, st6) = pad_loop e 32 size3 st5 in
      st6)"

text \<open>The variable arguments: an integer or pointer, or a string, which may be null.\<close>

datatype va = VInt u32 | VStr "u8 list option"

fun va_int :: "va list \<Rightarrow> (u32 \<times> va list) option" where
  "va_int (VInt n # as) = Some (n, as)"
| "va_int _ = None"

fun va_str :: "va list \<Rightarrow> (u8 list option \<times> va list) option" where
  "va_str (VStr s # as) = Some (s, as)"
| "va_str _ = None"

text \<open>The parts of a conversion specification.\<close>

fun fmt_flags :: "u8 list \<Rightarrow> u8 \<Rightarrow> u8 \<times> u8 list" where
  "fmt_flags [] flags = (flags, [])"
| "fmt_flags (c # r) flags =
     (if c = 45 then fmt_flags r (flags OR LEFT)
      else if c = 43 then fmt_flags r (flags OR PLUS)
      else if c = 32 then fmt_flags r (flags OR SPACE)
      else if c = 35 then fmt_flags r (flags OR SPECIAL)
      else if c = 48 then fmt_flags r (flags OR ZEROPAD)
      else (flags, c # r))"

definition is_digit :: "u8 \<Rightarrow> bool" where
  "is_digit c \<longleftrightarrow> c - 48 < 10"

fun skip_atoi :: "u8 list \<Rightarrow> int \<Rightarrow> int \<times> u8 list" where
  "skip_atoi [] i = (i, [])"
| "skip_atoi (c # r) i = (if is_digit c then skip_atoi r (wrap_s32 (i * 10 + uint c - 48)) else (i, c # r))"

definition fmt_width :: "u8 list \<Rightarrow> u8 \<Rightarrow> va list \<Rightarrow> (int \<times> u8 \<times> u8 list \<times> va list) option" where
  "fmt_width fmt flags args =
     (case fmt of
        [] \<Rightarrow> Some (- 1, flags, fmt, args)
      | c # r \<Rightarrow>
          if is_digit c then let (w, r') = skip_atoi fmt 0 in Some (w, flags, r', args)
          else if c = 42 then do {
            (n, args') \<leftarrow> va_int args;
            Some (if sint n < 0 then (wrap_s32 (- sint n), flags OR LEFT, r, args') else (sint n, flags, r, args'))
          }
          else Some (- 1, flags, fmt, args))"

definition fmt_precision :: "u8 list \<Rightarrow> va list \<Rightarrow> (int \<times> u8 list \<times> va list) option" where
  "fmt_precision fmt args =
     (case fmt of
        c # r \<Rightarrow>
          if c = 46 then do {
            (p, r', args') \<leftarrow>
              (case r of
                 [] \<Rightarrow> Some (- 1, r, args)
               | d # r1 \<Rightarrow>
                   if is_digit d then let (p, r2) = skip_atoi r 0 in Some (p, r2, args)
                   else if d = 42 then do { (n, args') \<leftarrow> va_int args; Some (sint n, r1, args') }
                   else Some (- 1, r, args));
            Some (if p < 0 then 0 else p, r', args')
          }
          else Some (- 1, fmt, args)
      | [] \<Rightarrow> Some (- 1, fmt, args))"

definition fmt_qualifier :: "u8 list \<Rightarrow> u8 \<times> u8 list" where
  "fmt_qualifier fmt = (case fmt of c # r \<Rightarrow> if c = 104 \<or> c = 108 then (c, r) else (0, fmt) | [] \<Rightarrow> (0, fmt))"

text \<open>\<^verbatim>\<open>while (--field_width > 0)\<close> and \<^verbatim>\<open>while (len < field_width--)\<close>, with the field width behind the loop.\<close>

definition pad_char :: "nat \<Rightarrow> int \<Rightarrow> outbuf \<Rightarrow> int \<times> outbuf" where
  "pad_char e w st = (let (r, st') = pad_loop e 32 (wrap_s32 (w - 1)) st in (wrap_s32 (r + 1), st'))"

definition pad_str :: "nat \<Rightarrow> int \<Rightarrow> int \<Rightarrow> outbuf \<Rightarrow> int \<times> outbuf" where
  "pad_str e len w st = (wrap_s32 ((if len < w then len else w) - 1), snd (pad_loop e 32 (w - len) st))"

definition fmt_char :: "nat \<Rightarrow> u8 \<Rightarrow> int \<Rightarrow> u8 \<Rightarrow> outbuf \<Rightarrow> outbuf" where
  "fmt_char e flags w c st =
     (let (w1, st1) = (if flags AND LEFT = 0 then pad_char e w st else (w, st));
          st2 = emit e c st1 in
      snd (pad_char e w1 st2))"

definition fmt_string :: "nat \<Rightarrow> u8 \<Rightarrow> int \<Rightarrow> int \<Rightarrow> u8 list \<Rightarrow> outbuf \<Rightarrow> outbuf" where
  "fmt_string e flags w precision s st =
     (let l = wrap_s32 (int (length s));
          len = (if precision > 0 \<and> l > precision then precision else l);
          (w1, st1) = (if flags AND LEFT = 0 then pad_str e len w st else (w, st));
          st2 = emit_list e (take (nat len) s) st1 in
      snd (pad_str e len w1 st2))"

definition fmt_int :: "u8 \<Rightarrow> u8 \<Rightarrow> u32 \<Rightarrow> u32" where
  "fmt_int qualifier flags n =
     (if qualifier = 104 then let h = ucast n :: u16 in if flags AND SIGN \<noteq> 0 then scast h else ucast h else n)"

text \<open>The switch over the conversion character, behind flags, width, precision and qualifier.\<close>

definition format_conv :: "nat \<Rightarrow> u8 \<Rightarrow> int \<Rightarrow> int \<Rightarrow> u8 \<Rightarrow> u8 list \<Rightarrow> va list \<Rightarrow> outbuf \<Rightarrow> (u8 list \<times> va list \<times> outbuf) option" where
  "format_conv e flags w precision q fmt args st =
     (let number = (\<lambda>fl base r. do {
            (n, as) \<leftarrow> va_int args;
            Some (r, as, print_number e (fmt_int q fl n) base w precision fl st)
          }) in
      case fmt of
        [] \<Rightarrow> Some ([], args, emit e 37 st)
      | c # r \<Rightarrow>
          if c = 99 then do { (n, as) \<leftarrow> va_int args; Some (r, as, fmt_char e flags w (ucast n) st) }
          else if c = 115 then do {
            (s, as) \<leftarrow> va_str args;
            Some (r, as, fmt_string e flags w precision (case s of None \<Rightarrow> [40, 78, 85, 76, 76, 41] | Some xs \<Rightarrow> xs) st)
          }
          else if c = 112 then do {
            (n, as) \<leftarrow> va_int args;
            Some (r, as, if w = - 1 then print_number e n 16 8 precision (flags OR ZEROPAD) st
                         else print_number e n 16 w precision flags st)
          }
          else if c = 37 then Some (r, args, emit e 37 st)
          else if c = 111 then number flags 8 r
          else if c = 88 then number (flags OR LARGE) 16 r
          else if c = 120 then number flags 16 r
          else if c = 100 \<or> c = 105 then number (flags OR SIGN) 10 r
          else if c = 117 then number flags 10 r
          else Some (r, args, emit e c (emit e 37 st)))"

text \<open>One conversion, from behind the percent sign: the rest of the format and of the arguments, and the output.\<close>

definition format_one :: "nat \<Rightarrow> u8 list \<Rightarrow> va list \<Rightarrow> outbuf \<Rightarrow> (u8 list \<times> va list \<times> outbuf) option" where
  "format_one e fmt args st = do {
     let (flags0, f1) = fmt_flags fmt 0;
     (w, flags, f2, a1) \<leftarrow> fmt_width f1 flags0 args;
     (precision, f3, a2) \<leftarrow> fmt_precision f2 a1;
     let (q, f4) = fmt_qualifier f3;
     format_conv e flags w precision q f4 a2 st
   }"

text \<open>A conversion whose text depends on neither the memory nor the end of the buffer.\<close>

definition same_text :: "(nat \<Rightarrow> outbuf \<Rightarrow> (u8 list \<times> va list \<times> outbuf) option) \<Rightarrow> bool" where
  "same_text f \<longleftrightarrow> (\<exists>r. \<forall>e st. f e st = map_option (\<lambda>(rest, as, t). (rest, as, emit_list e t st)) r)"

section \<open>Output as text\<close>

text \<open>Every part of the formatting emits a text that depends on neither the memory nor the end of the buffer.\<close>

lemma emit_list_append: "emit_list e (xs @ ys) st = emit_list e ys (emit_list e xs st)"
  by (induction xs arbitrary: st) auto

lemma pad_loop_eq:
  "pad_loop e c sz st = (wrap_s32 ((if sz > 0 then 0 else sz) - 1), emit_list e (replicate (nat sz) c) st)"
proof (induction e c sz st rule: pad_loop.induct)
  case (1 e c sz st)
  show ?case
  proof (cases "sz > 0")
    case True
    then have "nat sz = Suc (nat (sz - 1))" by simp
    moreover have "(if sz - 1 > 0 then 0 else sz - 1) = (0 :: int)" using True by simp
    then have "pad_loop e c (sz - 1) (emit e c st) = (wrap_s32 (0 - 1), emit_list e (replicate (nat (sz - 1)) c) (emit e c st))"
      using 1 [OF True] by metis
    ultimately show ?thesis using True by (subst pad_loop.simps) (simp del: pad_loop.simps)
  qed (subst pad_loop.simps, simp)
qed

lemmas [simp del] = pad_loop.simps

lemma emit_eq: "emit e c st = emit_list e [c] st"
  by simp

lemma emit_if: "(if b then emit_list e t st else st) = emit_list e (if b then t else []) st"
  by simp

lemma case_if_pair: "(case (if b then (x, y) else (x', y')) of (u, v) \<Rightarrow> f u v) = f (if b then x else x') (if b then y else y')"
  by simp

lemmas emit_text = Let_def pad_loop_eq case_if_pair prod.case emit_if emit_eq snd_conv fst_conv if_cancel

lemma print_number_text: "\<exists>t. \<forall>e st. print_number e num base s precision type st = emit_list e t st"
  unfolding print_number_def
  by (simp only: emit_text flip: emit_list_append) blast

lemma fmt_char_text: "\<exists>t. \<forall>e st. fmt_char e flags w c st = emit_list e t st"
  unfolding fmt_char_def pad_char_def
  by (simp only: emit_text flip: emit_list_append) blast

lemma fmt_string_text: "\<exists>t. \<forall>e st. fmt_string e flags w precision s st = emit_list e t st"
  unfolding fmt_string_def pad_str_def
  by (simp only: emit_text flip: emit_list_append) blast

lemma same_text_Some: "(\<exists>t. \<forall>e st. g e st = emit_list e t st) \<Longrightarrow> same_text (\<lambda>e st. Some (r, a, g e st))"
proof -
  assume "\<exists>t. \<forall>e st. g e st = emit_list e t st"
  then obtain t where "\<forall>e st. g e st = emit_list e t st" ..
  then show ?thesis unfolding same_text_def by (intro exI [of _ "Some (r, a, t)"]) simp
qed

lemma same_text_bind: "(\<And>x. same_text (\<lambda>e st. f x e st)) \<Longrightarrow> same_text (\<lambda>e st. m \<bind> (\<lambda>x. f x e st))"
  by (cases m) (auto simp: same_text_def intro: exI [of _ None])

lemma emit_text1: "\<exists>t. \<forall>e st. emit e c st = emit_list e t st" "\<exists>t. \<forall>e st. emit e c (emit e d st) = emit_list e t st"
  by (rule exI [of _ "[c]"], simp) (rule exI [of _ "[d, c]"], simp)

lemma if_text:
  "\<exists>t. \<forall>e st. f e st = emit_list e t st \<Longrightarrow> \<exists>t. \<forall>e st. g e st = emit_list e t st
   \<Longrightarrow> \<exists>t. \<forall>e st. (if b then f e st else g e st) = emit_list e t st"
  by (cases b) simp_all

lemma same_text_if: "same_text f \<Longrightarrow> same_text g \<Longrightarrow> same_text (\<lambda>e st. if b then f e st else g e st)"
  by (cases b) simp_all

lemma format_conv_text: "same_text (\<lambda>e st. format_conv e flags w precision q fmt args st)"
proof (cases fmt)
  case Nil
  then show ?thesis unfolding format_conv_def Let_def by (simp add: same_text_Some [OF emit_text1(1)] del: emit_list.simps)
next
  case (Cons c r)
  show ?thesis unfolding format_conv_def Let_def Cons list.case split_def
    by (intro same_text_if same_text_bind same_text_Some emit_text1 print_number_text fmt_char_text fmt_string_text if_text)
qed

lemma format_one_text: "same_text (\<lambda>e st. format_one e fmt args st)"
  unfolding format_one_def Let_def split_def by (intro same_text_bind format_conv_text)

section \<open>The rest of the format\<close>

lemma fmt_flags_length: "length (snd (fmt_flags fmt fl)) \<le> length fmt"
  by (induction fmt fl rule: fmt_flags.induct) auto

lemma skip_atoi_length: "length (snd (skip_atoi fmt i)) \<le> length fmt"
  by (induction fmt i rule: skip_atoi.induct) auto

lemma fmt_width_length: "fmt_width fmt fl args = Some (w, fl', r, a) \<Longrightarrow> length r \<le> length fmt"
  using skip_atoi_length [of fmt 0]
  by (auto simp: fmt_width_def bind_Some_iff split_def Let_def split: list.splits if_splits)

lemma fmt_precision_length: "fmt_precision fmt args = Some (p, r, a) \<Longrightarrow> length r \<le> length fmt"
  using skip_atoi_length [of "tl fmt" 0]
  by (auto simp: fmt_precision_def bind_Some_iff split_def Let_def split: list.splits if_splits)

lemma fmt_qualifier_length: "length (snd (fmt_qualifier fmt)) \<le> length fmt"
  by (auto simp: fmt_qualifier_def split: list.splits)

lemma format_conv_length: "format_conv e flags w precision q fmt args st = Some (r, a, st') \<Longrightarrow> length r \<le> length fmt"
  unfolding format_conv_def Let_def by (auto simp: bind_Some_iff split: list.splits if_splits)

lemma format_one_length:
  assumes "format_one e fmt args st = Some (r, a, st')"
  shows "length r \<le> length fmt"
proof -
  obtain fl0 f1 where f: "fmt_flags fmt 0 = (fl0, f1)" by (cases "fmt_flags fmt 0")
  obtain w fl f2 a1 p f3 a2 where S: "fmt_width f1 fl0 args = Some (w, fl, f2, a1)" "fmt_precision f2 a1 = Some (p, f3, a2)"
    using assms unfolding format_one_def f Let_def by (auto simp: bind_Some_iff)
  obtain q f4 where q: "fmt_qualifier f3 = (q, f4)" by (cases "fmt_qualifier f3")
  have "format_conv e fl w p q f4 a2 st = Some (r, a, st')" using assms by (simp add: format_one_def f S q)
  from format_conv_length [OF this] show ?thesis
    using fmt_qualifier_length [of f3] fmt_precision_length [OF S(2)] fmt_width_length [OF S(1)] fmt_flags_length [of fmt 0] f q by simp
qed

end
