(* ===== verification/Kservice_Print.thy ===== *)
theory Kservice_Print
  imports Kservice_Format
begin

text \<open>
  \<^verbatim>\<open>rt_vsnprintf\<close> and its variants: the loop over the format, the end of the buffer and the terminating zero. The
  loop ends because a conversion never lengthens what is left of the format. What is printed is a text that depends
  on the format and the arguments only; the buffer receives as much of it as fits.
\<close>

section \<open>Definitions\<close>

function vsnprintf_loop :: "nat \<Rightarrow> u8 list \<Rightarrow> va list \<Rightarrow> outbuf \<Rightarrow> outbuf option" where
  "vsnprintf_loop e fmt args st =
     (case fmt of
        [] \<Rightarrow> Some st
      | c # r \<Rightarrow>
          if c \<noteq> 37 then vsnprintf_loop e r args (emit e c st)
          else case format_one e r args st of
            None \<Rightarrow> None
          | Some (r', args', st') \<Rightarrow> vsnprintf_loop e r' args' st')"
  by pat_completeness auto
termination
  by (relation "measure (\<lambda>(e, fmt, args, st). length fmt)") (auto dest: format_one_length simp: less_Suc_eq_le)

definition rt_vsnprintf :: "memory \<Rightarrow> nat \<Rightarrow> nat \<Rightarrow> u8 list \<Rightarrow> va list \<Rightarrow> (memory \<times> int) option" where
  "rt_vsnprintf m buf size0 fmt args = do {
     let e0 = (buf + size0) mod 2 ^ 32;
     let (e, sz) = (if e0 < buf then (2 ^ 32 - 1, 2 ^ 32 - 1 - buf) else (e0, size0));
     (m1, str) \<leftarrow> vsnprintf_loop e fmt args (m, buf);
     let m2 = (if sz > 0 then if str < e then m1(str := 0) else m1(e - 1 := 0) else m1);
     Some (m2, wrap_s32 (int str - int buf))
   }"

definition rt_snprintf :: "memory \<Rightarrow> nat \<Rightarrow> nat \<Rightarrow> u8 list \<Rightarrow> va list \<Rightarrow> (memory \<times> int) option" where
  "rt_snprintf m buf sz fmt args = rt_vsnprintf m buf sz fmt args"

definition rt_vsprintf :: "memory \<Rightarrow> nat \<Rightarrow> u8 list \<Rightarrow> va list \<Rightarrow> (memory \<times> int) option" where
  "rt_vsprintf m buf fmt args = rt_vsnprintf m buf (2 ^ 32 - 1) fmt args"

definition rt_sprintf :: "memory \<Rightarrow> nat \<Rightarrow> u8 list \<Rightarrow> va list \<Rightarrow> (memory \<times> int) option" where
  "rt_sprintf m buf fmt args = rt_vsprintf m buf fmt args"

text \<open>A text in a buffer of \<open>sz\<close> bytes: cut to \<open>sz - 1\<close> bytes and terminated.\<close>

definition put_text :: "memory \<Rightarrow> nat \<Rightarrow> nat \<Rightarrow> u8 list \<Rightarrow> memory" where
  "put_text m buf sz t =
     (\<lambda>a. if sz = 0 then m a
          else if buf \<le> a \<and> a < buf + min (length t) (sz - 1) then t ! (a - buf)
          else if a = buf + min (length t) (sz - 1) then 0 else m a)"

section \<open>The text of a format\<close>

lemmas [simp del] = vsnprintf_loop.simps

lemma vsnprintf_loop_cases [simp]:
  "vsnprintf_loop e [] args st = Some st"
  "c \<noteq> 37 \<Longrightarrow> vsnprintf_loop e (c # f) args st = vsnprintf_loop e f args (emit e c st)"
  "vsnprintf_loop e (37 # f) args st = (case format_one e f args st of
     None \<Rightarrow> None | Some (r', args', st') \<Rightarrow> vsnprintf_loop e r' args' st')"
  by (subst vsnprintf_loop.simps, simp)+

lemma emit_list_mem:
  "p + length t < 2 ^ 32 \<Longrightarrow> emit_list e t (m, p) = (\<lambda>a. if p \<le> a \<and> a < p + length t \<and> a < e then t ! (a - p) else m a, p + length t)"
proof (induction t arbitrary: m p)
  case Nil
  then show ?case by (auto simp: fun_eq_iff)
next
  case (Cons c t)
  have "emit_list e (c # t) (m, p) = emit_list e t (if p < e then m(p := c) else m, p + 1)" using Cons.prems by (simp add: emit_def)
  also have "\<dots> = (\<lambda>a. if p + 1 \<le> a \<and> a < p + 1 + length t \<and> a < e then t ! (a - (p + 1)) else (if p < e then m(p := c) else m) a, p + 1 + length t)"
    by (rule Cons.IH) (use Cons.prems in simp)
  also have "\<dots> = (\<lambda>a. if p \<le> a \<and> a < p + length (c # t) \<and> a < e then (c # t) ! (a - p) else m a, p + length (c # t))"
    by (auto simp: fun_eq_iff nth_Cons')
  finally show ?case .
qed

lemma vsnprintf_loop_text: "\<exists>r. \<forall>e st. vsnprintf_loop e fmt args st = map_option (\<lambda>t. emit_list e t st) r"
proof (induction "length fmt" arbitrary: fmt args rule: less_induct)
  case less
  show ?case
  proof (cases fmt)
    case Nil
    then show ?thesis by (intro exI [of _ "Some []"]) simp
  next
    case (Cons c f)
    show ?thesis
    proof (cases "c = 37")
      case False
      obtain r where r: "\<forall>e st. vsnprintf_loop e f args st = map_option (\<lambda>t. emit_list e t st) r" using less [of f args] Cons by auto
      have "vsnprintf_loop e f args (emit e c st) = map_option (\<lambda>t. emit_list e t (emit e c st)) r" for e st using r by blast
      then show ?thesis using False Cons by (intro exI [of _ "map_option (Cons c) r"]) (simp add: option.map_comp o_def del: split_paired_All)
    next
      case True
      obtain x where x: "\<forall>e st. format_one e f args st = map_option (\<lambda>(rest, as, t). (rest, as, emit_list e t st)) x"
        using format_one_text [of f args] unfolding same_text_def by blast
      show ?thesis
      proof (cases x)
        case None
        then show ?thesis using x Cons True by (intro exI [of _ None]) simp
      next
        case (Some y)
        obtain f' args' t where y: "y = (f', args', t)" by (cases y)
        have "length f' \<le> length f" using x Some y format_one_length [of 0 f args "(\<lambda>_. 0, 0)" f' args'] by simp
        then obtain r where r: "\<forall>e st. vsnprintf_loop e f' args' st = map_option (\<lambda>t. emit_list e t st) r" using less [of f' args'] Cons by auto
        have "vsnprintf_loop e f' args' (emit_list e t st) = map_option (\<lambda>u. emit_list e u (emit_list e t st)) r" for e st using r by blast
        then show ?thesis using x Cons True Some y
          by (intro exI [of _ "map_option ((@) t) r"]) (simp add: option.map_comp o_def emit_list_append del: split_paired_All)
      qed
    qed
  qed
qed

lemma vsnprintf_loop_plain: "37 \<notin> set fmt \<Longrightarrow> vsnprintf_loop e fmt args st = Some (emit_list e fmt st)"
  by (induction fmt arbitrary: st) simp_all

lemma format_text:
  obtains r where "\<forall>e st. vsnprintf_loop e fmt args st = map_option (\<lambda>t. emit_list e t st) r" "37 \<notin> set fmt \<longrightarrow> r = Some fmt"
proof (cases "37 \<in> set fmt")
  case True
  then show thesis using vsnprintf_loop_text [of fmt args] that by blast
next
  case False
  then show thesis using that [of "Some fmt"] by (simp add: vsnprintf_loop_plain)
qed

text \<open>The buffer.\<close>

lemma vsnprintf_buffer:
  assumes "buf + sz < 2 ^ 32" "\<forall>e st. vsnprintf_loop e fmt args st = map_option (\<lambda>t. emit_list e t st) r"
    and "\<And>t. r = Some t \<Longrightarrow> buf + length t < 2 ^ 32"
  shows "rt_vsnprintf m buf sz fmt args = map_option (\<lambda>t. (put_text m buf sz t, wrap_s32 (int (length t)))) r"
proof (cases r)
  case None
  then show ?thesis using assms by (simp add: rt_vsnprintf_def Let_def)
next
  case (Some t)
  have e: "(buf + sz) mod 2 ^ 32 = buf + sz" using assms(1) by simp
  show ?thesis using assms(2) Some assms(3) [OF Some] unfolding rt_vsnprintf_def e
    by (auto simp: emit_list_mem put_text_def Let_def fun_eq_iff min_def)
qed

section \<open>Decimal numbers\<close>

lemma wrap_s32_sint: "wrap_s32 i = sint (word_of_int i :: u32)"
  by (simp add: wrap_s32_def sint_uint uint_word_of_int signed_take_bit_eq_take_bit_shift take_bit_eq_mod mod_simps)

lemma wrap_s32_small: "- (2 ^ 31) \<le> i \<Longrightarrow> i < 2 ^ 31 \<Longrightarrow> wrap_s32 i = i"
  by (simp add: wrap_s32_def)

lemma wrap_s32_size: "n < 2 ^ 32 \<Longrightarrow> nat (wrap_s32 (int n) mod 2 ^ 32) = n"
  by (simp add: wrap_s32_def mod_simps)

lemma wrap_s32_step: "wrap_s32 (wrap_s32 x * 10 + y) = wrap_s32 (x * 10 + y)"
  by (simp add: wrap_s32_sint)

text \<open>Reading the digits back with the routine that reads a field width.\<close>

lemma skip_atoi_append:
  "\<forall>c \<in> set xs. is_digit c \<Longrightarrow> skip_atoi (xs @ ys) i = skip_atoi ys (fst (skip_atoi xs i))"
  by (induction xs arbitrary: i) auto

lemma digit_decimal: "d < 10 \<Longrightarrow> is_digit (digit large d) \<and> uint (digit large d) = 48 + int d"
proof -
  assume "d < 10"
  then have "d = 0 \<or> d = 1 \<or> d = 2 \<or> d = 3 \<or> d = 4 \<or> d = 5 \<or> d = 6 \<or> d = 7 \<or> d = 8 \<or> d = 9" by presburger
  then show ?thesis by (elim disjE) (simp_all add: digit_def is_digit_def)
qed

lemmas [simp del] = digits_loop.simps

lemma digits_loop_decimal:
  "(\<forall>c \<in> set (digits_loop large 10 n). is_digit c) \<and> fst (skip_atoi (rev (digits_loop large 10 n)) 0) = wrap_s32 (int n)"
proof (induction n rule: less_induct)
  case (less n)
  show ?case
  proof (cases "n = 0")
    case True
    then show ?thesis by (simp add: digits_loop.simps wrap_s32_def)
  next
    case False
    let ?ds = "digits_loop large 10 (n div 10)" and ?d = "digit large (n mod 10)"
    have d: "digits_loop large 10 n = ?d # ?ds" using False by (subst digits_loop.simps) (simp add: divide_base_def)
    have IH: "\<forall>c \<in> set ?ds. is_digit c" "fst (skip_atoi (rev ?ds) 0) = wrap_s32 (int (n div 10))" using less [of "n div 10"] False by auto
    have dd: "is_digit ?d" "uint ?d = 48 + int (n mod 10)" using digit_decimal [of "n mod 10" large] by simp_all
    have "skip_atoi (rev ?ds @ [?d]) 0 = skip_atoi [?d] (wrap_s32 (int (n div 10)))" using skip_atoi_append [of "rev ?ds" "[?d]" 0] IH by simp
    also have "fst \<dots> = wrap_s32 (int (n div 10) * 10 + int (n mod 10))" using dd by (simp add: wrap_s32_step)
    also have "int (n div 10) * 10 + int (n mod 10) = int n" by (metis of_nat_add of_nat_mult of_nat_numeral div_mult_mod_eq)
    finally show ?thesis using IH(1) dd(1) by (simp add: d)
  qed
qed

lemma number_digits_decimal:
  "(\<forall>c \<in> set (number_digits large 10 n). is_digit c) \<and> fst (skip_atoi (rev (number_digits large 10 n)) 0) = wrap_s32 (int n)"
  using digits_loop_decimal [of large n] by (auto simp: number_digits_def is_digit_def wrap_s32_def)

lemma digits_loop_length: "n < 10 ^ k \<Longrightarrow> length (digits_loop large 10 n) \<le> k"
proof (induction k arbitrary: n)
  case (Suc k)
  then have "length (digits_loop large 10 (n div 10)) \<le> k" by (simp add: less_mult_imp_div_less mult.commute)
  then show ?case by (subst digits_loop.simps) (simp add: divide_base_def)
qed (simp add: digits_loop.simps)

lemma number_digits_length: "length (number_digits large 10 (unat (n :: u32))) \<le> 10"
proof -
  have "unat n < 2 ^ 32" using unsigned_less [of n, where 'a = nat] by simp
  then show ?thesis using digits_loop_length [of "unat n" 10 large] by (simp add: number_digits_def)
qed

lemma abs_sint: "int (unat (if sint (n :: u32) < 0 then - n else n)) = \<bar>sint n\<bar>"
proof -
  have b: "- (2 ^ 31) \<le> sint n" "sint n < 2 ^ 31" using sint_greater_eq [of n] sint_less [of n] by simp_all
  have w: "uint (word_of_int k :: u32) = k mod 2 ^ 32" for k by (simp add: uint_word_of_int)
  show ?thesis
  proof (cases "sint n < 0")
    case True
    have "- n = word_of_int (- sint n)" by simp
    then have "uint (- n) = - sint n mod 2 ^ 32" using w by metis
    then show ?thesis using True b by simp
  next
    case False
    have "uint n = sint n mod 2 ^ 32" using w [of "sint n"] by simp
    then show ?thesis using False b by simp
  qed
qed

section \<open>Properties\<close>

text \<open>Octal numbers are printed with the digits of base 16.\<close>

lemma print_number_octal_is_hex: "print_number e num 8 s precision type st = print_number e num 16 s precision type st"
proof -
  have d: "digits_loop large 8 n = digits_loop large 16 n" for large n
  proof (induction n rule: less_induct)
    case (less n)
    have b: "divide_base n 8 = (n mod 16, n div 16)" "divide_base n 16 = (n mod 16, n div 16)" by (simp_all add: divide_base_def)
    show ?case using less [of "n div 16"] unfolding digits_loop.simps [of large 8 n] digits_loop.simps [of large 16 n] b by simp
  qed
  show ?thesis unfolding print_number_def number_digits_def d ..
qed

text \<open>
  C27. \<^verbatim>\<open>rt_vsnprintf\<close> does not write outside its buffer. For every format and arguments there is one text, or none when
  an argument is missing, that does not depend on the buffer. For every buffer behind which the text would not reach the end of the
  address space, the call stores as much of it as fits in front of the last byte of the buffer, terminates it with a zero, and
  changes no other byte; with a size of zero nothing is stored. It returns the length of the whole text, as a 32-bit integer, which
  is the length itself below 2^31. A format without a percent sign is its own text. Field widths are 32-bit integers that wrap around.
\<close>

theorem rt_vsnprintf_bounded:
  "\<exists>r. (\<forall>m buf sz. buf + sz < 2 ^ 32 \<longrightarrow> (\<forall>t. r = Some t \<longrightarrow> buf + length t < 2 ^ 32)
        \<longrightarrow> rt_vsnprintf m buf sz fmt args = map_option (\<lambda>t. (put_text m buf sz t, wrap_s32 (int (length t)))) r)
    \<and> (\<forall>t. r = Some t \<longrightarrow> length t < 2 ^ 31 \<longrightarrow> wrap_s32 (int (length t)) = int (length t))
    \<and> (37 \<notin> set fmt \<longrightarrow> r = Some fmt)"
proof -
  obtain r where r: "\<forall>e st. vsnprintf_loop e fmt args st = map_option (\<lambda>t. emit_list e t st) r" "37 \<notin> set fmt \<longrightarrow> r = Some fmt"
    by (rule format_text)
  have "rt_vsnprintf m buf sz fmt args = map_option (\<lambda>t. (put_text m buf sz t, wrap_s32 (int (length t)))) r"
    if "buf + sz < 2 ^ 32" "\<forall>t. r = Some t \<longrightarrow> buf + length t < 2 ^ 32" for m buf sz
    by (rule vsnprintf_buffer [OF that(1) r(1)]) (use that(2) in simp)
  then show ?thesis using r(2) by (intro exI [of _ r]) (simp add: wrap_s32_small)
qed

theorem rt_vsnprintf_bounded_witness:
  "rt_vsnprintf sample_memory 100 3 [104, 101, 108, 108, 111] [] = Some (put_text sample_memory 100 3 [104, 101, 108, 108, 111], 5)"
  using rt_vsnprintf_bounded [of "[104, 101, 108, 108, 111]" "[]"] by auto

text \<open>
  C28. What \<^verbatim>\<open>%d\<close> prints can be read back: the text is a minus sign for a negative number and then at most ten decimal digits, and
  \<^verbatim>\<open>skip_atoi\<close> reads the digits as the absolute value of the number; for the smallest number, whose absolute value has no
  32-bit integer, it wraps around to that number itself.
\<close>

theorem rt_printf_decimal_roundtrip:
  assumes "buf + sz < 2 ^ 32" and "buf + 11 < 2 ^ 32"
  shows "\<exists>ds. rt_snprintf m buf sz [37, 100] [VInt n]
      = Some (put_text m buf sz ((if sint n < 0 then [45] else []) @ ds), int (length ds) + (if sint n < 0 then 1 else 0))
    \<and> (\<forall>c \<in> set ds. is_digit c) \<and> length ds \<le> 10
    \<and> fst (skip_atoi ds 0) = (if sint n = - (2 ^ 31) then sint n else \<bar>sint n\<bar>)"
proof -
  let ?ds = "rev (number_digits False 10 (unat (if sint n < 0 then - n else n)))" and ?t = "if sint n < 0 then [45] else []"
  have f: "fmt_flags [100] 0 = (0, [100])" "fmt_width [100] 0 [VInt n] = Some (- 1, 0, [100], [VInt n])"
    "fmt_precision [100] [VInt n] = Some (- 1, [100], [VInt n])" "fmt_qualifier [100] = (0, [100])"
    by (simp_all add: fmt_width_def fmt_precision_def fmt_qualifier_def is_digit_def)
  have len: "length ?ds \<le> 10" using number_digits_length by simp
  then have sz: "wrap_s32 (- 1 - int (length ?ds)) = - 1 - int (length ?ds)" by (intro wrap_s32_small) simp_all
  have "print_number e n 10 (- 1) (- 1) 2 st = emit_list e (?t @ ?ds) st" for e st
    using sz len by (simp add: print_number_def Let_def pad_loop_eq emit_list_append wrap_s32_small)
  then have "vsnprintf_loop e [37, 100] [VInt n] st = Some (emit_list e (?t @ ?ds) st)" for e st
    by (simp add: format_one_def f format_conv_def fmt_int_def)
  then have "rt_vsnprintf m buf sz [37, 100] [VInt n] = map_option (\<lambda>t. (put_text m buf sz t, wrap_s32 (int (length t)))) (Some (?t @ ?ds))"
    by (intro vsnprintf_buffer [OF assms(1)]) (use len assms(2) in auto)
  moreover have "wrap_s32 (int (length (?t @ ?ds))) = int (length ?ds) + (if sint n < 0 then 1 else 0)"
    using len by (subst wrap_s32_small) auto
  moreover have "(\<forall>c \<in> set ?ds. is_digit c) \<and> fst (skip_atoi ?ds 0) = wrap_s32 \<bar>sint n\<bar>"
    using number_digits_decimal [of False] abs_sint [of n] by simp
  moreover have "wrap_s32 \<bar>sint n\<bar> = (if sint n = - (2 ^ 31) then sint n else \<bar>sint n\<bar>)"
    using sint_greater_eq [of n] sint_less [of n] by (auto simp: wrap_s32_small) (simp add: wrap_s32_def)
  ultimately show ?thesis using len by (intro exI [of _ ?ds]) (simp add: rt_snprintf_def)
qed

theorem rt_printf_decimal_roundtrip_witness:
  "\<exists>ds. rt_snprintf sample_memory 100 20 [37, 100] [VInt (- 42)] = Some (put_text sample_memory 100 20 (45 # ds), int (length ds) + 1)
    \<and> fst (skip_atoi ds 0) = 42"
  using rt_printf_decimal_roundtrip [of 100 20 sample_memory "- 42"] by auto

end
