(* ===== verification/Device.thy ===== *)
theory Device
  imports Ipc_Spec Kservice_Print
begin

text \<open>
  Devices (\<^verbatim>\<open>os/device.c\<close>) and the console (\<^verbatim>\<open>os/kservice.c\<close>). A device is a kernel object with flags, a count of
  its users and the function pointers of its driver. The drivers are a parameter \<open>drv\<close>: it gets the number stored in
  the function pointer, the call with its arguments, the device and the state, and may change the state. The state has
  the kernel, the devices, the bytes of the memory that buffers point to, the address of the static buffer
  \<^verbatim>\<open>rt_log_buf\<close> and the variable \<^verbatim>\<open>_console_device\<close>.
\<close>

section \<open>Definitions: devices\<close>

abbreviation (input) RT_DEVICE_FLAG_STANDALONE :: u16 where "RT_DEVICE_FLAG_STANDALONE \<equiv> 0x008"
abbreviation (input) RT_DEVICE_FLAG_ACTIVATED :: u16 where "RT_DEVICE_FLAG_ACTIVATED \<equiv> 0x010"
abbreviation (input) RT_DEVICE_FLAG_STREAM :: u16 where "RT_DEVICE_FLAG_STREAM \<equiv> 0x040"
abbreviation (input) RT_DEVICE_OFLAG_CLOSE :: u16 where "RT_DEVICE_OFLAG_CLOSE \<equiv> 0x000"
abbreviation (input) RT_DEVICE_OFLAG_RDWR :: u16 where "RT_DEVICE_OFLAG_RDWR \<equiv> 0x003"
abbreviation (input) RT_DEVICE_OFLAG_OPEN :: u16 where "RT_DEVICE_OFLAG_OPEN \<equiv> 0x008"
abbreviation (input) RT_DEVICE_OFLAG_MASK :: u16 where "RT_DEVICE_OFLAG_MASK \<equiv> 0xf0f"
abbreviation (input) RT_CONSOLEBUF_SIZE :: nat where "RT_CONSOLEBUF_SIZE \<equiv> 128"

record rt_device =
  dev_type :: int
  dev_flag :: u16
  dev_open_flag :: u16
  dev_ref_count :: nat
  dev_device_id :: u8
  dev_rx_indicate :: "nat option"
  dev_tx_complete :: "nat option"
  dev_init :: "nat option"
  dev_open :: "nat option"
  dev_close :: "nat option"
  dev_read :: "nat option"
  dev_write :: "nat option"
  dev_control :: "nat option"
  dev_user_data :: nat

record dev_state =
  ds_k :: kstate
  ds_dev :: "nat \<Rightarrow> rt_device"
  ds_mem :: memory
  ds_log_buf :: nat
  ds_console :: "nat option"

text \<open>The calls of a driver: position, buffer and size for reading and writing, command and argument for control.\<close>

datatype dev_call = D_init | D_open u16 | D_close | D_read nat nat nat | D_write nat nat nat | D_control int nat

type_synonym driver = "nat \<Rightarrow> dev_call \<Rightarrow> nat \<Rightarrow> dev_state \<Rightarrow> (int \<times> dev_state) option"

definition dev_upd :: "nat \<Rightarrow> (rt_device \<Rightarrow> rt_device) \<Rightarrow> dev_state \<Rightarrow> dev_state" where
  "dev_upd d f s = s\<lparr>ds_dev := (ds_dev s)(d := f (ds_dev s d))\<rparr>"

definition dev_errno :: "int \<Rightarrow> dev_state \<Rightarrow> dev_state" where
  "dev_errno e s = s\<lparr>ds_k := rt_set_errno e (ds_k s)\<rparr>"

definition is_device :: "nat \<Rightarrow> dev_state \<Rightarrow> bool" where
  "is_device d s \<longleftrightarrow> rt_object_get_type (ds_k s) (K_dev d) = RT_Object_Class_Device"

text \<open>The container of the devices holds devices only, so the object found is one.\<close>

definition rt_device_find :: "u8 list option \<Rightarrow> dev_state \<Rightarrow> (nat option \<times> dev_state) option" where
  "rt_device_find name s = do {
     (p, k) \<leftarrow> rt_object_find name RT_Object_Class_Device (ds_k s);
     Some (map_option kaddr p, s\<lparr>ds_k := k\<rparr>)
   }"

definition rt_device_register :: "nat option \<Rightarrow> u8 list \<Rightarrow> u16 \<Rightarrow> dev_state \<Rightarrow> (int \<times> dev_state) option" where
  "rt_device_register dev name flags s =
     (case dev of
        None \<Rightarrow> Some (- RT_ERROR, s)
      | Some d \<Rightarrow> do {
          (r, s1) \<leftarrow> rt_device_find (Some name) s;
          if r \<noteq> None then Some (- RT_ERROR, s1)
          else do {
            k \<leftarrow> rt_object_init (K_dev d) RT_Object_Class_Device name (ds_k s1);
            Some (RT_EOK, dev_upd d (\<lambda>x. x\<lparr>dev_flag := flags, dev_ref_count := 0, dev_open_flag := 0\<rparr>) (s1\<lparr>ds_k := k\<rparr>))
          }
        })"

definition rt_device_unregister :: "nat \<Rightarrow> dev_state \<Rightarrow> (int \<times> dev_state) option" where
  "rt_device_unregister d s = do {
     rt_assert (is_device d s);
     rt_assert (rt_object_is_systemobject (ds_k s) (K_dev d));
     Some (RT_EOK, s\<lparr>ds_k := rt_object_detach (K_dev d) (ds_k s)\<rparr>)
   }"

definition rt_device_create :: "int \<Rightarrow> nat \<Rightarrow> dev_state \<Rightarrow> (nat option \<times> dev_state) option" where
  "rt_device_create type attach_size s = do {
     (p, k) \<leftarrow> k_malloc (add32 68 (align_up4 attach_size)) (ds_k s);
     case p of
       None \<Rightarrow> Some (None, s\<lparr>ds_k := k\<rparr>)
     | Some d \<Rightarrow>
         Some (Some d, dev_upd d (\<lambda>_. \<lparr>dev_type = type, dev_flag = 0, dev_open_flag = 0, dev_ref_count = 0, dev_device_id = 0,
             dev_rx_indicate = None, dev_tx_complete = None, dev_init = None, dev_open = None, dev_close = None, dev_read = None,
             dev_write = None, dev_control = None, dev_user_data = 0\<rparr>) (s\<lparr>ds_k := object_zero (K_dev d) k\<rparr>))
   }"

definition rt_device_destroy :: "nat \<Rightarrow> dev_state \<Rightarrow> dev_state option" where
  "rt_device_destroy d s = do {
     rt_assert (is_device d s);
     rt_assert (\<not> rt_object_is_systemobject (ds_k s) (K_dev d));
     k \<leftarrow> k_free (Some d) (rt_object_detach (K_dev d) (ds_k s));
     Some (s\<lparr>ds_k := k\<rparr>)
   }"

definition rt_device_read :: "driver \<Rightarrow> nat \<Rightarrow> nat \<Rightarrow> nat \<Rightarrow> nat \<Rightarrow> dev_state \<Rightarrow> (int \<times> dev_state) option" where
  "rt_device_read drv d pos buf sz s = do {
     rt_assert (is_device d s);
     if dev_ref_count (ds_dev s d) = 0 then Some (0, dev_errno (- RT_ERROR) s)
     else case dev_read (ds_dev s d) of
       Some f \<Rightarrow> drv f (D_read pos buf sz) d s
     | None \<Rightarrow> Some (0, dev_errno (- RT_ENOSYS) s)
   }"

definition rt_device_write :: "driver \<Rightarrow> nat \<Rightarrow> nat \<Rightarrow> nat \<Rightarrow> nat \<Rightarrow> dev_state \<Rightarrow> (int \<times> dev_state) option" where
  "rt_device_write drv d pos buf sz s = do {
     rt_assert (is_device d s);
     if dev_ref_count (ds_dev s d) = 0 then Some (0, dev_errno (- RT_ERROR) s)
     else case dev_write (ds_dev s d) of
       Some f \<Rightarrow> drv f (D_write pos buf sz) d s
     | None \<Rightarrow> Some (0, dev_errno (- RT_ENOSYS) s)
   }"

definition rt_device_control :: "driver \<Rightarrow> nat \<Rightarrow> int \<Rightarrow> nat \<Rightarrow> dev_state \<Rightarrow> (int \<times> dev_state) option" where
  "rt_device_control drv d cmd arg s = do {
     rt_assert (is_device d s);
     case dev_control (ds_dev s d) of
       Some f \<Rightarrow> drv f (D_control cmd arg) d s
     | None \<Rightarrow> Some (- RT_ENOSYS, s)
   }"

definition rt_device_set_rx_indicate :: "nat \<Rightarrow> nat option \<Rightarrow> dev_state \<Rightarrow> (int \<times> dev_state) option" where
  "rt_device_set_rx_indicate d f s = do { rt_assert (is_device d s); Some (RT_EOK, dev_upd d (\<lambda>x. x\<lparr>dev_rx_indicate := f\<rparr>) s) }"

definition rt_device_set_tx_complete :: "nat \<Rightarrow> nat option \<Rightarrow> dev_state \<Rightarrow> (int \<times> dev_state) option" where
  "rt_device_set_tx_complete d f s = do { rt_assert (is_device d s); Some (RT_EOK, dev_upd d (\<lambda>x. x\<lparr>dev_tx_complete := f\<rparr>) s) }"

section \<open>Definitions: the console\<close>

text \<open>Writing to the console device in stream mode; without a console device \<^verbatim>\<open>rt_hw_console_output\<close> is called, which
  does nothing in this configuration.\<close>

definition console_write :: "driver \<Rightarrow> nat \<Rightarrow> nat \<Rightarrow> dev_state \<Rightarrow> dev_state option" where
  "console_write drv buf n s =
     (case ds_console s of
        None \<Rightarrow> Some s
      | Some d \<Rightarrow> do {
          let old_flag = dev_open_flag (ds_dev s d);
          (_, s1) \<leftarrow> rt_device_write drv d 0 buf n (dev_upd d (\<lambda>x. x\<lparr>dev_open_flag := dev_open_flag x OR RT_DEVICE_FLAG_STREAM\<rparr>) s);
          Some (dev_upd d (\<lambda>x. x\<lparr>dev_open_flag := dev_open_flag x XOR (NOT old_flag AND RT_DEVICE_FLAG_STREAM)\<rparr>) s1)
        })"

definition rt_kputs :: "driver \<Rightarrow> nat option \<Rightarrow> dev_state \<Rightarrow> dev_state option" where
  "rt_kputs drv str s =
     (case str of
        None \<Rightarrow> Some s
      | Some a \<Rightarrow>
          (case ds_console s of
             None \<Rightarrow> Some s
           | Some _ \<Rightarrow> do { n \<leftarrow> rt_strlen (ds_mem s) a; console_write drv a n s }))"

definition rt_kprintf :: "driver \<Rightarrow> u8 list \<Rightarrow> va list \<Rightarrow> dev_state \<Rightarrow> dev_state option" where
  "rt_kprintf drv fmt args s = do {
     (m, n) \<leftarrow> rt_vsnprintf (ds_mem s) (ds_log_buf s) (RT_CONSOLEBUF_SIZE - 1) fmt args;
     let size = nat (n mod 2 ^ 32);
     let len = (if size > RT_CONSOLEBUF_SIZE - 1 then RT_CONSOLEBUF_SIZE - 1 else size);
     console_write drv (ds_log_buf s) len (s\<lparr>ds_mem := m\<rparr>)
   }"

text \<open>The message of a driver that fails to initialise. The name is read up to a zero; a name of eight characters has
  none, and reading goes on in the type and the flag of the object.\<close>

definition c_text :: "string \<Rightarrow> u8 list" where
  "c_text str = map of_char str"

definition init_failed :: "driver \<Rightarrow> nat \<Rightarrow> int \<Rightarrow> dev_state \<Rightarrow> dev_state option" where
  "init_failed drv d r s =
     (let ob = k_obj (ds_k s) (K_dev d); name = takeWhile (\<lambda>c. c \<noteq> 0) (o_name ob @ [o_type ob, o_flag ob]) in
      rt_kprintf drv (c_text ''To initialize device:%s failed. The error code is %d'' @ [10]) [VStr (Some name), VInt (word_of_int r)] s)"

definition rt_device_init :: "driver \<Rightarrow> nat \<Rightarrow> dev_state \<Rightarrow> (int \<times> dev_state) option" where
  "rt_device_init drv d s =
     (case dev_init (ds_dev s d) of
        None \<Rightarrow> Some (RT_EOK, s)
      | Some f \<Rightarrow>
          if dev_flag (ds_dev s d) AND RT_DEVICE_FLAG_ACTIVATED \<noteq> 0 then Some (RT_EOK, s)
          else do {
            (r, s1) \<leftarrow> drv f D_init d s;
            if r \<noteq> RT_EOK then do { s2 \<leftarrow> init_failed drv d r s1; Some (r, s2) }
            else Some (r, dev_upd d (\<lambda>x. x\<lparr>dev_flag := dev_flag x OR RT_DEVICE_FLAG_ACTIVATED\<rparr>) s1)
          })"

text \<open>Opening, after the device has been activated.\<close>

definition device_open_activated :: "driver \<Rightarrow> nat \<Rightarrow> u16 \<Rightarrow> dev_state \<Rightarrow> (int \<times> dev_state) option" where
  "device_open_activated drv d oflag s =
     (if dev_flag (ds_dev s d) AND RT_DEVICE_FLAG_STANDALONE \<noteq> 0 \<and> dev_open_flag (ds_dev s d) AND RT_DEVICE_OFLAG_OPEN \<noteq> 0
      then Some (- RT_EBUSY, s)
      else do {
        (r, s1) \<leftarrow> (case dev_open (ds_dev s d) of
           Some f \<Rightarrow> drv f (D_open oflag) d s
         | None \<Rightarrow> Some (RT_EOK, dev_upd d (\<lambda>x. x\<lparr>dev_open_flag := oflag AND RT_DEVICE_OFLAG_MASK\<rparr>) s));
        if r = RT_EOK \<or> r = - RT_ENOSYS then do {
          let s2 = dev_upd d (\<lambda>x. x\<lparr>dev_open_flag := dev_open_flag x OR RT_DEVICE_OFLAG_OPEN,
                                    dev_ref_count := (dev_ref_count x + 1) mod 256\<rparr>) s1;
          rt_assert (dev_ref_count (ds_dev s2 d) \<noteq> 0);
          Some (r, s2)
        }
        else Some (r, s1)
      })"

definition rt_device_open :: "driver \<Rightarrow> nat \<Rightarrow> u16 \<Rightarrow> dev_state \<Rightarrow> (int \<times> dev_state) option" where
  "rt_device_open drv d oflag s = do {
     rt_assert (is_device d s);
     if dev_flag (ds_dev s d) AND RT_DEVICE_FLAG_ACTIVATED = 0 then do {
       (r, s1) \<leftarrow> (case dev_init (ds_dev s d) of Some f \<Rightarrow> drv f D_init d s | None \<Rightarrow> Some (RT_EOK, s));
       if r \<noteq> RT_EOK then do { s2 \<leftarrow> init_failed drv d r s1; Some (r, s2) }
       else device_open_activated drv d oflag (dev_upd d (\<lambda>x. x\<lparr>dev_flag := dev_flag x OR RT_DEVICE_FLAG_ACTIVATED\<rparr>) s1)
     }
     else device_open_activated drv d oflag s
   }"

definition rt_device_close :: "driver \<Rightarrow> nat \<Rightarrow> dev_state \<Rightarrow> (int \<times> dev_state) option" where
  "rt_device_close drv d s = do {
     rt_assert (is_device d s);
     if dev_ref_count (ds_dev s d) = 0 then Some (- RT_ERROR, s)
     else do {
       let s1 = dev_upd d (\<lambda>x. x\<lparr>dev_ref_count := dev_ref_count x - 1\<rparr>) s;
       if dev_ref_count (ds_dev s1 d) \<noteq> 0 then Some (RT_EOK, s1)
       else do {
         (r, s2) \<leftarrow> (case dev_close (ds_dev s1 d) of Some f \<Rightarrow> drv f D_close d s1 | None \<Rightarrow> Some (RT_EOK, s1));
         Some (r, if r = RT_EOK \<or> r = - RT_ENOSYS then dev_upd d (\<lambda>x. x\<lparr>dev_open_flag := RT_DEVICE_OFLAG_CLOSE\<rparr>) s2 else s2)
       }
     }
   }"

definition rt_console_get_device :: "dev_state \<Rightarrow> nat option" where
  "rt_console_get_device s = ds_console s"

definition rt_console_set_device :: "driver \<Rightarrow> u8 list \<Rightarrow> dev_state \<Rightarrow> (nat option \<times> dev_state) option" where
  "rt_console_set_device drv name s = do {
     let old_device = ds_console s;
     (new_device, s1) \<leftarrow> rt_device_find (Some name) s;
     if new_device = old_device then Some (None, s1)
     else case new_device of
       None \<Rightarrow> Some (old_device, s1)
     | Some d \<Rightarrow> do {
         s2 \<leftarrow> (case ds_console s1 of None \<Rightarrow> Some s1 | Some c \<Rightarrow> do { (_, s') \<leftarrow> rt_device_close drv c s1; Some s' });
         (_, s3) \<leftarrow> rt_device_open drv d (RT_DEVICE_OFLAG_RDWR OR RT_DEVICE_FLAG_STREAM) s2;
         Some (old_device, s3\<lparr>ds_console := Some d\<rparr>)
       }
   }"

text \<open>Drivers whose calls for initialising, opening and closing succeed and change of the device at most the open flag, and not
  that when initialising;
  opening several times, closing several times, all with \<^verbatim>\<open>RT_EOK\<close>; a registered device with \<open>n\<close> users.\<close>

definition steady_driver :: "driver \<Rightarrow> nat \<Rightarrow> bool" where
  "steady_driver drv d \<longleftrightarrow> (\<forall>f c s. c = D_init \<or> (\<exists>g. c = D_open g) \<or> c = D_close \<longrightarrow>
     (\<exists>s' g. drv f c d s = Some (RT_EOK, s') \<and> k_obj (ds_k s') (K_dev d) = k_obj (ds_k s) (K_dev d)
        \<and> ds_dev s' d = (ds_dev s d)\<lparr>dev_open_flag := g\<rparr> \<and> (c = D_init \<longrightarrow> g = dev_open_flag (ds_dev s d))))"

fun device_opens :: "driver \<Rightarrow> nat \<Rightarrow> u16 list \<Rightarrow> dev_state \<Rightarrow> dev_state option" where
  "device_opens drv d [] s = Some s"
| "device_opens drv d (g # gs) s = do { (r, s1) \<leftarrow> rt_device_open drv d g s; rt_assert (r = RT_EOK); device_opens drv d gs s1 }"

fun device_closes :: "driver \<Rightarrow> nat \<Rightarrow> nat \<Rightarrow> dev_state \<Rightarrow> dev_state option" where
  "device_closes drv d 0 s = Some s"
| "device_closes drv d (Suc n) s = do { (r, s1) \<leftarrow> rt_device_close drv d s; rt_assert (r = RT_EOK); device_closes drv d n s1 }"

definition device_users :: "nat \<Rightarrow> nat \<Rightarrow> bool \<Rightarrow> dev_state \<Rightarrow> bool" where
  "device_users d n alone s \<longleftrightarrow> is_device d s \<and> rt_object_is_systemobject (ds_k s) (K_dev d) \<and> dev_ref_count (ds_dev s d) = n
     \<and> (dev_flag (ds_dev s d) AND RT_DEVICE_FLAG_STANDALONE \<noteq> 0 \<longleftrightarrow> alone)"

text \<open>A device at address 4096 of the sample system, with a driver that notes the last buffer it was given to write.\<close>

definition sample_device :: rt_device where
  "sample_device = \<lparr>dev_type = 0, dev_flag = 3, dev_open_flag = 0, dev_ref_count = 0, dev_device_id = 0, dev_rx_indicate = None,
     dev_tx_complete = None, dev_init = Some 1, dev_open = Some 2, dev_close = Some 3, dev_read = None, dev_write = Some 4,
     dev_control = None, dev_user_data = 0\<rparr>"

definition sample_devices :: dev_state where
  "sample_devices = \<lparr>ds_k = sample_kernel, ds_dev = (\<lambda>_. sample_device), ds_mem = (\<lambda>_. 0), ds_log_buf = 1000, ds_console = Some 4096\<rparr>"

definition sample_driver :: driver where
  "sample_driver f c d s = (case c of D_write pos buf n \<Rightarrow> Some (int n, dev_upd d (\<lambda>x. x\<lparr>dev_user_data := buf\<rparr>) s) | _ \<Rightarrow> Some (0, s))"

section \<open>Counting the users of a device\<close>

lemma dev_upd_simps [simp]:
  "ds_dev (dev_upd d f s) = (ds_dev s)(d := f (ds_dev s d))" "ds_k (dev_upd d f s) = ds_k s" "ds_mem (dev_upd d f s) = ds_mem s"
  "ds_log_buf (dev_upd d f s) = ds_log_buf s" "ds_console (dev_upd d f s) = ds_console s" "is_device e (dev_upd d f s) = is_device e s"
  by (simp_all add: dev_upd_def is_device_def)

lemma flag_bits:
  "(x :: u16) AND 8 = 0 \<longleftrightarrow> \<not> bit x 3" "x AND 16 = 0 \<longleftrightarrow> \<not> bit x 4" "bit (x OR 16 :: u16) 3 = bit x 3" "bit (x OR 16 :: u16) 4"
  "bit (x OR 8 :: u16) 3"
  using and_exp_eq_0_iff_not_bit [of x 3] and_exp_eq_0_iff_not_bit [of x 4] by (simp_all add: bit_or_iff)

lemma steady_call:
  assumes "steady_driver drv d" "c = D_init \<or> (\<exists>g. c = D_open g) \<or> c = D_close"
  obtains s' g where "drv f c d s = Some (RT_EOK, s')" "k_obj (ds_k s') (K_dev d) = k_obj (ds_k s) (K_dev d)"
    "ds_dev s' d = (ds_dev s d)\<lparr>dev_open_flag := g\<rparr>" "c = D_init \<Longrightarrow> g = dev_open_flag (ds_dev s d)"
  using assms unfolding steady_driver_def by blast

lemma device_users_cong:
  assumes "k_obj (ds_k s') (K_dev d) = k_obj (ds_k s) (K_dev d)" "dev_ref_count (ds_dev s' d) = n"
    "bit (dev_flag (ds_dev s' d)) 3 = bit (dev_flag (ds_dev s d)) 3" "device_users d m alone s"
  shows "device_users d n alone s'"
  using assms by (simp add: device_users_def is_device_def rt_object_get_type_def rt_object_is_systemobject_def flag_bits)

lemma open_activated_count:
  assumes drv: "steady_driver drv d" and u: "device_users d n alone s" and n: "n < 255"
    and free: "alone \<longrightarrow> \<not> bit (dev_open_flag (ds_dev s d)) 3"
  shows "\<exists>s'. device_open_activated drv d g s = Some (RT_EOK, s') \<and> device_users d (Suc n) alone s'
    \<and> bit (dev_open_flag (ds_dev s' d)) 3 \<and> dev_flag (ds_dev s' d) = dev_flag (ds_dev s d)"
proof -
  have al: "bit (dev_flag (ds_dev s d)) 3 \<longleftrightarrow> alone" and rc: "dev_ref_count (ds_dev s d) = n" using u by (simp_all add: device_users_def flag_bits)
  obtain s1 h where s1: "(case dev_open (ds_dev s d) of Some f \<Rightarrow> drv f (D_open g) d s
        | None \<Rightarrow> Some (RT_EOK, dev_upd d (\<lambda>x. x\<lparr>dev_open_flag := g AND RT_DEVICE_OFLAG_MASK\<rparr>) s)) = Some (RT_EOK, s1)"
    "k_obj (ds_k s1) (K_dev d) = k_obj (ds_k s) (K_dev d)" "ds_dev s1 d = (ds_dev s d)\<lparr>dev_open_flag := h\<rparr>"
  proof (cases "dev_open (ds_dev s d)")
    case None
    then show thesis using that by simp
  next
    case (Some f)
    then show thesis using steady_call [OF drv, of "D_open g" f s] that by auto
  qed
  let ?s2 = "dev_upd d (\<lambda>x. x\<lparr>dev_open_flag := dev_open_flag x OR RT_DEVICE_OFLAG_OPEN, dev_ref_count := (dev_ref_count x + 1) mod 256\<rparr>) s1"
  have "device_open_activated drv d g s = Some (RT_EOK, ?s2)"
    using al free s1 rc n by (auto simp: device_open_activated_def flag_bits)
  moreover have "device_users d (Suc n) alone ?s2" by (rule device_users_cong [OF _ _ _ u]) (use s1 rc n in simp_all)
  ultimately show ?thesis using s1 by (simp add: flag_bits)
qed

lemma open_count:
  assumes drv: "steady_driver drv d" and u: "device_users d n alone s" and n: "n < 255"
    and free: "alone \<longrightarrow> \<not> bit (dev_open_flag (ds_dev s d)) 3"
  shows "\<exists>s'. rt_device_open drv d g s = Some (RT_EOK, s') \<and> device_users d (Suc n) alone s'
    \<and> bit (dev_open_flag (ds_dev s' d)) 3 \<and> bit (dev_flag (ds_dev s' d)) 4"
proof (cases "bit (dev_flag (ds_dev s d)) 4")
  case True
  have "is_device d s" using u by (simp add: device_users_def)
  then have "rt_device_open drv d g s = device_open_activated drv d g s" using True by (simp add: rt_device_open_def flag_bits)
  then show ?thesis using open_activated_count [OF drv u n free, of g] True by auto
next
  case False
  obtain s1 where s1: "(case dev_init (ds_dev s d) of Some f \<Rightarrow> drv f D_init d s | None \<Rightarrow> Some (RT_EOK, s)) = Some (RT_EOK, s1)"
    "k_obj (ds_k s1) (K_dev d) = k_obj (ds_k s) (K_dev d)" "ds_dev s1 d = ds_dev s d"
  proof (cases "dev_init (ds_dev s d)")
    case None
    then show thesis using that by simp
  next
    case (Some f)
    then show thesis using steady_call [OF drv, of D_init f s] that by auto
  qed
  let ?s2 = "dev_upd d (\<lambda>x. x\<lparr>dev_flag := dev_flag x OR RT_DEVICE_FLAG_ACTIVATED\<rparr>) s1"
  have "is_device d s" and rc: "dev_ref_count (ds_dev s d) = n" using u by (simp_all add: device_users_def)
  then have "rt_device_open drv d g s = device_open_activated drv d g ?s2" using False s1(1) by (simp add: rt_device_open_def flag_bits)
  moreover have "device_users d n alone ?s2" by (rule device_users_cong [OF _ _ _ u]) (use s1 rc in \<open>simp_all add: flag_bits\<close>)
  moreover have "alone \<longrightarrow> \<not> bit (dev_open_flag (ds_dev ?s2 d)) 3" using free s1(3) by simp
  ultimately show ?thesis using open_activated_count [OF drv, of n alone ?s2 g] n by (auto simp: flag_bits)
qed

lemma opens_count:
  assumes drv: "steady_driver drv d"
  shows "device_users d n alone s \<Longrightarrow> n + length gs \<le> 255 \<Longrightarrow> (alone \<longrightarrow> length gs \<le> 1 \<and> \<not> bit (dev_open_flag (ds_dev s d)) 3) \<Longrightarrow>
    \<exists>s'. device_opens drv d gs s = Some s' \<and> device_users d (n + length gs) alone s'
      \<and> (gs \<noteq> [] \<longrightarrow> bit (dev_open_flag (ds_dev s' d)) 3 \<and> bit (dev_flag (ds_dev s' d)) 4)"
proof (induction gs arbitrary: n s)
  case Nil
  then show ?case by simp
next
  case (Cons g gs)
  obtain s1 where s1: "rt_device_open drv d g s = Some (RT_EOK, s1)" "device_users d (Suc n) alone s1"
    "bit (dev_open_flag (ds_dev s1 d)) 3" "bit (dev_flag (ds_dev s1 d)) 4"
    using open_count [OF drv Cons.prems(1), of g] Cons.prems(2,3) by auto
  show ?case
  proof (cases gs)
    case Nil
    then show ?thesis using s1 by auto
  next
    case (Cons g' gs')
    then have "\<not> alone" using Cons.prems(3) by simp
    then show ?thesis using Cons.IH [OF s1(2)] Cons.prems(2) s1(1) Cons by auto
  qed
qed

lemma close_count:
  assumes drv: "steady_driver drv d" and u: "device_users d (Suc n) alone s"
  shows "\<exists>s'. rt_device_close drv d s = Some (RT_EOK, s') \<and> device_users d n alone s' \<and> (n = 0 \<longrightarrow> dev_open_flag (ds_dev s' d) = 0)"
proof -
  let ?s1 = "dev_upd d (\<lambda>x. x\<lparr>dev_ref_count := dev_ref_count x - 1\<rparr>) s"
  have d: "is_device d s" "dev_ref_count (ds_dev s d) = Suc n" using u by (simp_all add: device_users_def)
  have u1: "device_users d n alone ?s1" by (rule device_users_cong [OF _ _ _ u]) (simp_all add: d)
  show ?thesis
  proof (cases "n = 0")
    case False
    then have "rt_device_close drv d s = Some (RT_EOK, ?s1)" using d by (simp add: rt_device_close_def)
    then show ?thesis using False u1 by blast
  next
    case True
    obtain s2 h where s2: "(case dev_close (ds_dev ?s1 d) of Some f \<Rightarrow> drv f D_close d ?s1 | None \<Rightarrow> Some (RT_EOK, ?s1)) = Some (RT_EOK, s2)"
      "k_obj (ds_k s2) (K_dev d) = k_obj (ds_k ?s1) (K_dev d)" "ds_dev s2 d = (ds_dev ?s1 d)\<lparr>dev_open_flag := h\<rparr>"
    proof (cases "dev_close (ds_dev s d)")
      case None
      show thesis by (rule that [of ?s1 "dev_open_flag (ds_dev ?s1 d)"]) (use None in simp_all)
    next
      case (Some f)
      then show thesis using steady_call [OF drv, of D_close f ?s1] that by auto
    qed
    let ?s3 = "dev_upd d (\<lambda>x. x\<lparr>dev_open_flag := RT_DEVICE_OFLAG_CLOSE\<rparr>) s2"
    have "rt_device_close drv d s = Some (RT_EOK, ?s3)" using d True s2(1) by (simp add: rt_device_close_def Let_def del: One_nat_def)
    moreover have "device_users d n alone ?s3" by (rule device_users_cong [OF _ _ _ u1]) (use s2 d in simp_all)
    ultimately show ?thesis by simp
  qed
qed

lemma closes_count:
  assumes drv: "steady_driver drv d"
  shows "device_users d n alone s \<Longrightarrow> \<exists>s'. device_closes drv d n s = Some s' \<and> device_users d 0 alone s'
    \<and> (0 < n \<longrightarrow> dev_open_flag (ds_dev s' d) = 0)"
proof (induction n arbitrary: s)
  case 0
  then show ?case by simp
next
  case (Suc n)
  obtain s1 where s1: "rt_device_close drv d s = Some (RT_EOK, s1)" "device_users d n alone s1" "n = 0 \<longrightarrow> dev_open_flag (ds_dev s1 d) = 0"
    using close_count [OF drv Suc.prems] by blast
  then show ?case using Suc.IH [OF s1(2)] by (cases "n = 0") auto
qed

section \<open>Properties\<close>

text \<open>
  C39. Opening and closing a device is counted. With a driver that succeeds, \<open>n\<close> opens of a registered device, at most 255 and
  at most one for a stand-alone device, and \<open>n\<close> closes all return \<^verbatim>\<open>RT_EOK\<close> and lead back to a closed device without users.
  In between the count is \<open>n\<close>, a further open of a stand-alone device returns \<^verbatim>\<open>-RT_EBUSY\<close>, and one that would wrap the
  count of 8 bits to zero stops in an assertion. On the closed device reading and writing do not reach the driver but return 0 with the error
  \<^verbatim>\<open>-RT_ERROR\<close>, closing returns \<^verbatim>\<open>-RT_ERROR\<close>, and \<^verbatim>\<open>rt_device_destroy\<close> stops in an assertion, because registering marks a device as
  static.
\<close>

theorem rt_device_open_close:
  assumes drv: "steady_driver drv d" and u: "device_users d 0 alone s" and gs: "0 < length gs" "length gs \<le> 255"
    and alone: "alone \<longrightarrow> length gs = 1 \<and> dev_open_flag (ds_dev s d) = 0"
  shows "\<exists>s1 s2. device_opens drv d gs s = Some s1 \<and> dev_ref_count (ds_dev s1 d) = length gs
    \<and> device_closes drv d (length gs) s1 = Some s2 \<and> device_users d 0 alone s2 \<and> dev_open_flag (ds_dev s2 d) = 0
    \<and> (alone \<longrightarrow> rt_device_open drv d g s1 = Some (- RT_EBUSY, s1)) \<and> (length gs = 255 \<longrightarrow> rt_device_open drv d g s1 = None)
    \<and> rt_device_read drv d pos buf n s2 = Some (0, dev_errno (- RT_ERROR) s2)
    \<and> rt_device_write drv d pos buf n s2 = Some (0, dev_errno (- RT_ERROR) s2)
    \<and> rt_device_close drv d s2 = Some (- RT_ERROR, s2) \<and> rt_device_destroy d s2 = None"
proof -
  obtain s1 where s1: "device_opens drv d gs s = Some s1" "device_users d (length gs) alone s1"
    "bit (dev_open_flag (ds_dev s1 d)) 3" "bit (dev_flag (ds_dev s1 d)) 4"
    using opens_count [OF drv u, of gs] gs alone by auto
  obtain s2 where s2: "device_closes drv d (length gs) s1 = Some s2" "device_users d 0 alone s2" "dev_open_flag (ds_dev s2 d) = 0"
    using closes_count [OF drv s1(2)] gs by auto
  have d1: "is_device d s1" "dev_ref_count (ds_dev s1 d) = length gs" "bit (dev_flag (ds_dev s1 d)) 3 \<longleftrightarrow> alone"
    using s1(2) by (simp_all add: device_users_def flag_bits)
  have op: "rt_device_open drv d g s1 = device_open_activated drv d g s1" using d1 s1(4) by (simp add: rt_device_open_def flag_bits)
  have "alone \<longrightarrow> rt_device_open drv d g s1 = Some (- RT_EBUSY, s1)"
    using d1 s1(3) unfolding op by (simp add: device_open_activated_def flag_bits)
  moreover have "rt_device_open drv d g s1 = None" if "length gs = 255"
  proof -
    have na: "\<not> alone" using alone that by auto
    show ?thesis
    proof (cases "dev_open (ds_dev s1 d)")
      case None
      then show ?thesis unfolding op using na d1 that by (simp add: device_open_activated_def flag_bits)
    next
      case (Some f)
      obtain s' h where "drv f (D_open g) d s1 = Some (RT_EOK, s')" "ds_dev s' d = (ds_dev s1 d)\<lparr>dev_open_flag := h\<rparr>"
        by (rule steady_call [OF drv, of "D_open g" f s1]) auto
      then show ?thesis unfolding op using na d1 that Some by (simp add: device_open_activated_def flag_bits)
    qed
  qed
  moreover have "is_device d s2" "dev_ref_count (ds_dev s2 d) = 0" "rt_object_is_systemobject (ds_k s2) (K_dev d)"
    using s2(2) by (simp_all add: device_users_def)
  ultimately show ?thesis
    using s1(1) s2 d1(2) by (simp add: rt_device_read_def rt_device_write_def rt_device_close_def rt_device_destroy_def)
qed

theorem rt_device_open_close_witness:
  "\<exists>s1 s2. device_opens sample_driver 4096 [3, 3] sample_devices = Some s1 \<and> dev_ref_count (ds_dev s1 4096) = 2
    \<and> device_closes sample_driver 4096 2 s1 = Some s2 \<and> rt_device_destroy 4096 s2 = None"
proof -
  have "\<exists>s' g. sample_driver f c d s = Some (RT_EOK, s') \<and> k_obj (ds_k s') (K_dev d) = k_obj (ds_k s) (K_dev d)
      \<and> ds_dev s' d = (ds_dev s d)\<lparr>dev_open_flag := g\<rparr> \<and> (c = D_init \<longrightarrow> g = dev_open_flag (ds_dev s d))"
    if "c = D_init \<or> (\<exists>g. c = D_open g) \<or> c = D_close" for f c d s
    by (intro exI [of _ s] exI [of _ "dev_open_flag (ds_dev s d)"]) (use that in \<open>auto simp: sample_driver_def\<close>)
  then have st: "steady_driver sample_driver 4096" by (simp add: steady_driver_def)
  have us: "device_users 4096 0 False sample_devices"
    by (simp add: device_users_def is_device_def sample_devices_def sample_device_def sample_kernel_def sample_object_def
        rt_object_get_type_def rt_object_is_systemobject_def)
  have l: "length [3, 3 :: u16] = 2" by simp
  show ?thesis using rt_device_open_close [OF st us, of "[3, 3]", unfolded l, of 0 0 0 0] by auto
qed

text \<open>
  What \<^verbatim>\<open>rt_kprintf\<close> hands to the driver of the console. For every format and arguments there is one text, or none when an argument
  is missing, such that, for a text that does not reach the end of the address space, the driver of an open console device is asked, in stream mode, to write from the static buffer either
  the text, when it has at most 126 bytes, or its first 126 bytes and a zero; no byte outside of the buffer has changed.
  Afterwards the open flag has the stream bit it had before.
\<close>

lemma rt_kprintf_output:
  assumes con: "ds_console s = Some d" "is_device d s" "0 < dev_ref_count (ds_dev s d)" "dev_write (ds_dev s d) = Some f"
    and buf: "ds_log_buf s + 128 < 2 ^ 32"
  shows "\<exists>r. (37 \<notin> set fmt \<longrightarrow> r = Some fmt) \<and> (r = None \<longrightarrow> rt_kprintf drv fmt args s = None)
    \<and> (\<forall>t. r = Some t \<longrightarrow> ds_log_buf s + length t < 2 ^ 32 \<longrightarrow> (\<exists>s1. map (ds_mem s1) [ds_log_buf s..<ds_log_buf s + min (length t) 127] = (if length t \<le> 126 then t else take 126 t @ [0])
       \<and> (\<forall>a. a < ds_log_buf s \<or> ds_log_buf s + 127 \<le> a \<longrightarrow> ds_mem s1 a = ds_mem s a)
       \<and> bit (dev_open_flag (ds_dev s1 d)) 6
       \<and> rt_kprintf drv fmt args s = map_option (\<lambda>(n, s2). dev_upd d (\<lambda>x. x\<lparr>dev_open_flag :=
            dev_open_flag x XOR (NOT (dev_open_flag (ds_dev s d)) AND RT_DEVICE_FLAG_STREAM)\<rparr>) s2)
            (drv f (D_write 0 (ds_log_buf s) (min (length t) 127)) d s1)))"
proof -
  let ?b = "ds_log_buf s"
  obtain r where r: "\<forall>e st. vsnprintf_loop e fmt args st = map_option (\<lambda>t. emit_list e t st) r" "37 \<notin> set fmt \<longrightarrow> r = Some fmt"
    by (rule format_text)
  have rt: "rt_vsnprintf (ds_mem s) ?b 127 fmt args = map_option (\<lambda>t. (put_text (ds_mem s) ?b 127 t, wrap_s32 (int (length t)))) r"
    if "\<forall>t. r = Some t \<longrightarrow> ?b + length t < 2 ^ 32"
    by (rule vsnprintf_buffer [OF _ r(1)]) (use buf that in simp_all)
  have n: "rt_kprintf drv fmt args s = None" if "r = None" using rt that by (simp add: rt_kprintf_def)
  have kp: "rt_kprintf drv fmt args s = console_write drv ?b (min (length t) 127) (s\<lparr>ds_mem := put_text (ds_mem s) ?b 127 t\<rparr>)"
    if "r = Some t" "?b + length t < 2 ^ 32" for t
    using rt that wrap_s32_size [of "length t"] by (auto simp: rt_kprintf_def Let_def min_def)
  show ?thesis
  proof (intro exI [of _ r] conjI allI impI)
    fix t assume t: "r = Some t" and small: "?b + length t < 2 ^ 32"
    let ?s1 = "dev_upd d (\<lambda>x. x\<lparr>dev_open_flag := dev_open_flag x OR RT_DEVICE_FLAG_STREAM\<rparr>) (s\<lparr>ds_mem := put_text (ds_mem s) ?b 127 t\<rparr>)"
    have "map (put_text (ds_mem s) ?b 127 t) [?b..<?b + min (length t) 127] = (if length t \<le> 126 then t else take 126 t @ [0])"
      by (rule nth_equalityI) (auto simp: put_text_def nth_append)
    moreover have "put_text (ds_mem s) ?b 127 t a = ds_mem s a" if "a < ?b \<or> ?b + 127 \<le> a" for a
      using that by (auto simp: put_text_def)
    moreover have "bit (x OR 64 :: u16) 6" for x by (simp add: bit_or_iff)
    moreover have "rt_kprintf drv fmt args s = map_option (\<lambda>(n, s2). dev_upd d (\<lambda>x. x\<lparr>dev_open_flag :=
            dev_open_flag x XOR (NOT (dev_open_flag (ds_dev s d)) AND RT_DEVICE_FLAG_STREAM)\<rparr>) s2)
            (drv f (D_write 0 ?b (min (length t) 127)) d ?s1)"
      using con t unfolding kp [OF t small]
      by (cases "drv f (D_write 0 ?b (min (length t) 127)) d ?s1")
        (auto simp: console_write_def rt_device_write_def is_device_def dev_upd_def Let_def)
    ultimately show "\<exists>s1. map (ds_mem s1) [?b..<?b + min (length t) 127] = (if length t \<le> 126 then t else take 126 t @ [0])
       \<and> (\<forall>a. a < ?b \<or> ?b + 127 \<le> a \<longrightarrow> ds_mem s1 a = ds_mem s a) \<and> bit (dev_open_flag (ds_dev s1 d)) 6
       \<and> rt_kprintf drv fmt args s = map_option (\<lambda>(n, s2). dev_upd d (\<lambda>x. x\<lparr>dev_open_flag :=
            dev_open_flag x XOR (NOT (dev_open_flag (ds_dev s d)) AND RT_DEVICE_FLAG_STREAM)\<rparr>) s2)
            (drv f (D_write 0 ?b (min (length t) 127)) d s1)"
      by (intro exI [of _ ?s1]) simp
  qed (use r(2) n in auto)
qed

end
