(* ===== verification/Heap_Clients.thy ===== *)
theory Heap_Clients
  imports Heap_Spec Kservice_Mem RingBuffer
begin

text \<open>
  Functions that take their memory from the heap: \<^verbatim>\<open>rt_strdup\<close>, \<^verbatim>\<open>rt_malloc_align\<close> and \<^verbatim>\<open>rt_free_align\<close>
  (\<^verbatim>\<open>os/kservice.c\<close>), \<^verbatim>\<open>rt_ringbuffer_create\<close> and \<^verbatim>\<open>rt_ringbuffer_destroy\<close> (\<^verbatim>\<open>components/drivers/src/ringbuffer.c\<close>).
  The bytes of the heap are read and written at offsets from \<^verbatim>\<open>heap_ptr\<close>.
\<close>

section \<open>Definitions\<close>

text \<open>The string is in the memory \<open>m\<close>, its copy in the heap.\<close>

definition rt_strdup :: "rt_heap \<Rightarrow> nat \<Rightarrow> memory \<Rightarrow> nat \<Rightarrow> (nat option \<times> rt_heap) option" where
  "rt_strdup h nest m s = do {
     n \<leftarrow> rt_strlen m s;
     let len = n + 1;
     (p, h1) \<leftarrow> rt_malloc h nest len;
     case p of
       None \<Rightarrow> Some (None, h1)
     | Some a \<Rightarrow> do {
         let off = a - heap_ptr h1;
         Some (Some a, h1\<lparr>heap_bytes := (\<lambda>j. if off \<le> j \<and> j < off + len then m (s + (j - off)) else heap_bytes h1 j)\<rparr>)
       }
   }"

text \<open>Where the aligned block begins: at least one word behind \<open>p\<close>.\<close>

definition align_ptr :: "nat \<Rightarrow> nat \<Rightarrow> nat" where
  "align_ptr p align =
     (if (word_of_nat p :: u32) AND (word_of_nat align - 1) = 0 then add32 p align
      else unat ((word_of_nat p + (word_of_nat align - 1) :: u32) AND NOT (word_of_nat align - 1)))"

definition rt_malloc_align :: "rt_heap \<Rightarrow> nat \<Rightarrow> nat \<Rightarrow> nat \<Rightarrow> (nat option \<times> rt_heap) option" where
  "rt_malloc_align h nest sz al = do {
     let align = align_up4 al;
     let align_size = add32 (align_up4 sz) align;
     (ptr, h1) \<leftarrow> rt_malloc h nest align_size;
     case ptr of
       None \<Rightarrow> Some (None, h1)
     | Some p \<Rightarrow> do {
         let q = align_ptr p align;
         Some (Some q, h1\<lparr>heap_bytes := store_long (heap_bytes h1) (q - 4 - heap_ptr h1) (word_of_nat p)\<rparr>)
       }
   }"

definition rt_free_align :: "rt_heap \<Rightarrow> nat \<Rightarrow> nat \<Rightarrow> rt_heap option" where
  "rt_free_align h nest q =
     (let p = unat (load_long (heap_bytes h) (q - 4 - heap_ptr h)) in rt_free h nest (if p = 0 then None else Some p))"

text \<open>The control block and the buffer of a ring buffer; the size is reduced to a signed 16-bit integer when it is passed on.\<close>

definition rt_ringbuffer_create :: "rt_heap \<Rightarrow> nat \<Rightarrow> nat \<Rightarrow> ((nat \<times> nat \<times> rt_ringbuffer) option \<times> rt_heap) option" where
  "rt_ringbuffer_create h nest sz0 = do {
     rt_assert (sz0 > 0);
     let sz = align_down4 sz0;
     (rb, h1) \<leftarrow> rt_malloc h nest 12;
     case rb of
       None \<Rightarrow> Some (None, h1)
     | Some ra \<Rightarrow> do {
         (pool, h2) \<leftarrow> rt_malloc h1 nest sz;
         case pool of
           None \<Rightarrow> do { h3 \<leftarrow> rt_free h2 nest (Some ra); Some (None, h3) }
         | Some pa \<Rightarrow> do {
             r \<leftarrow> rt_ringbuffer_init (map (\<lambda>i. heap_bytes h2 (pa - heap_ptr h2 + i)) [0..<sz]) (sint (word_of_nat sz :: u16));
             Some (Some (ra, pa, r), h2)
           }
       }
   }"

definition rt_ringbuffer_destroy :: "rt_heap \<Rightarrow> nat \<Rightarrow> nat \<Rightarrow> nat \<Rightarrow> rt_heap option" where
  "rt_ringbuffer_destroy h nest ra pa = do { h1 \<leftarrow> rt_free h nest (Some pa); rt_free h1 nest (Some ra) }"

section \<open>Aligned blocks\<close>

lemma load_store: "load_long (store_long m a w) a = w"
proof (rule bit_word_eqI)
  fix n
  assume "n < LENGTH(32)"
  then consider "n < 8" | "8 \<le> n" "n < 16" | "16 \<le> n" "n < 24" | "24 \<le> n" "n < 32" by fastforce
  then show "bit (load_long (store_long m a w) a) n = bit w n"
    by cases (auto simp: load_long_def store_long_def bit_simps)
qed

lemma load_long_cong:
  assumes "\<And>j. j < 4 \<Longrightarrow> m (a + j) = m' (a + j)"
  shows "load_long m a = load_long m' a"
  using assms [of 0] assms [of 1] assms [of 2] assms [of 3] by (simp add: load_long_def)

lemma align_ptr_eq:
  assumes "p + 2 ^ k < 2 ^ 32"
  shows "align_ptr p (2 ^ k) = (p div 2 ^ k + 1) * 2 ^ k"
proof -
  have p: "p < 2 ^ 32" using assms by linarith
  have al: "(word_of_nat (2 ^ k) - 1 :: u32) = mask k" by (simp add: mask_eq_exp_minus_1)
  have "unat (take_bit k (word_of_nat p :: u32)) = take_bit k (unat (word_of_nat p :: u32))" by (rule unsigned_take_bit_eq)
  also have "\<dots> = p mod 2 ^ k" using p by (simp only: unat_of_nat take_bit_eq_mod) simp
  finally have z: "(word_of_nat p :: u32) AND mask k = 0 \<longleftrightarrow> p mod 2 ^ k = 0" unfolding take_bit_eq_mask by (metis unat_0 unat_eq_zero)
  show ?thesis
  proof (cases "p mod 2 ^ k = 0")
    case True
    then have "p + 2 ^ k = (p div 2 ^ k + 1) * 2 ^ k" by (metis add.right_neutral add_mult_distrib div_mod_decomp mult_1)
    then show ?thesis using True assms z unfolding align_ptr_def al by (simp add: add32_def)
  next
    case False
    have "(word_of_nat (2 ^ k) - 1 :: u32) = word_of_nat (2 ^ k - 1)" by (subst of_nat_diff) simp_all
    then have "(word_of_nat p + (word_of_nat (2 ^ k) - 1) :: u32) = word_of_nat (p + (2 ^ k - 1))" by (simp only: of_nat_add)
    then have "unat (word_of_nat p + (word_of_nat (2 ^ k) - 1) :: u32) = p + (2 ^ k - 1)" using assms by (simp only: unat_of_nat) simp
    moreover have "(p div 2 ^ k + 1) * 2 ^ k = p div 2 ^ k * 2 ^ k + 2 ^ k" "0 < (2 :: nat) ^ k" by simp_all
    then have "p + (2 ^ k - 1) = (p mod 2 ^ k - 1) + (p div 2 ^ k + 1) * 2 ^ k"
      using False div_mod_decomp [of p "2 ^ k"] by linarith
    then have "(p + (2 ^ k - 1)) div 2 ^ k = p div 2 ^ k + 1 + (p mod 2 ^ k - 1) div 2 ^ k" by (metis div_mult_self1 power_not_zero zero_neq_numeral)
    then have "(p + (2 ^ k - 1)) div 2 ^ k = p div 2 ^ k + 1" by (simp add: less_imp_diff_less)
    ultimately show ?thesis using False z unfolding align_ptr_def al by (simp add: and_not_mask_word)
  qed
qed

lemma owned_aligned:
  assumes "heap_owned (h, A)" "a \<in> A"
  shows "4 dvd a" "heap_ptr h + 12 \<le> a" "a + payload_size h a < 2 ^ 32" "a \<noteq> 0"
proof -
  obtain bs where B: "heap_wf h bs" "A = live_addresses h bs" using assms(1) by (auto simp: heap_owned_def)
  obtain xs g ys where S: "bs = xs @ (g, True) # ys" "a = heap_ptr h + extent xs + 12" using assms(2) unfolding B(2) by (rule live_split)
  have sh: "heap_shape h (xs @ (g, True) # ys)" using B(1) S(1) by (simp add: heap_wf_def)
  note X = heap_shape_split [OF sh]
  have "4 dvd heap_ptr h" using sh by (simp add: heap_shape_def)
  then show "4 dvd a" using X unfolding S(2) by (auto intro: dvd_add)
  show "heap_ptr h + 12 \<le> a" "a \<noteq> 0" by (simp_all add: S(2))
  show "a + payload_size h a < 2 ^ 32" using payload_block [OF sh] X unfolding S(2) by auto
qed

section \<open>Copies of strings\<close>

lemma rt_strdup_copies:
  assumes own: "heap_owned (h, A)" and str: "cstr m s xs" and n: "length xs + 1 \<le> 2 ^ 32 - 4"
  shows "\<exists>r h'. rt_strdup h 0 m s = Some (r, h') \<and> (r = None \<longrightarrow> h' = h)
    \<and> (\<forall>a. r = Some a \<longrightarrow> a \<notin> A \<and> heap_owned (h', insert a A) \<and> length xs + 1 \<le> payload_size h' a
        \<and> cstr (heap_bytes h') (a - heap_ptr h) xs)"
proof -
  obtain r h1 where M: "rt_malloc h 0 (length xs + 1) = Some (r, h1)" "heap_owned (h1, A \<union> set_option r)" "same_arena h h1"
    "r = None \<longrightarrow> h1 = h" "\<forall>a. r = Some a \<longrightarrow> a \<notin> A \<and> length xs + 1 \<le> payload_size h1 a"
    by (rule owned_malloc [OF own n]) blast
  have hp: "heap_ptr h1 = heap_ptr h" using M(3) by (simp add: same_arena_def)
  show ?thesis
  proof (cases r)
    case None
    then show ?thesis using M(1,4) rt_strlen_cstr [OF str] by (simp add: rt_strdup_def Let_def)
  next
    case (Some a)
    let ?o = "a - heap_ptr h" and ?n = "length xs + 1"
    define b where "b = (\<lambda>j. if ?o \<le> j \<and> j < ?o + ?n then m (s + (j - ?o)) else heap_bytes h1 j)"
    have R: "rt_strdup h 0 m s = Some (Some a, h1\<lparr>heap_bytes := b\<rparr>)"
      using M(1) Some rt_strlen_cstr [OF str] by (simp add: rt_strdup_def Let_def hp b_def cong: if_cong)
    have "map (\<lambda>i. b (?o + i)) [0..<?n] = map (\<lambda>i. m (s + i)) [0..<?n]" by (rule map_cong) (auto simp: b_def)
    then have "cstr b ?o xs" using str by (simp add: cstr_def bytes_at_def del: upt_Suc map_eq_conv)
    then show ?thesis using R M(2,5) Some by simp
  qed
qed

text \<open>Creating a ring buffer takes two blocks of the heap or none, and destroying it gives both back.\<close>

lemma rt_ringbuffer_create_destroy:
  assumes own: "heap_owned (h, A)" and sz: "4 \<le> sz" "sz < 2 ^ 15"
  shows "(\<exists>h'. rt_ringbuffer_create h 0 sz = Some (None, h') \<and> heap_owned (h', A))
    \<or> (\<exists>ra pa rb h'. rt_ringbuffer_create h 0 sz = Some (Some (ra, pa, rb), h') \<and> rb_inv rb \<and> rb_contents rb = []
         \<and> ra \<noteq> pa \<and> heap_owned (h', insert pa (insert ra A))
         \<and> (\<exists>h''. rt_ringbuffer_destroy h' 0 ra pa = Some h'' \<and> heap_owned (h'', A)))"
proof -
  let ?n = "align_down4 sz"
  have n: "4 \<le> ?n" "?n < 2 ^ 15" "?n \<le> 2 ^ 32 - 4" using sz by (auto simp: align_down4_def)
  obtain r h1 where M: "rt_malloc h 0 12 = Some (r, h1)" "heap_owned (h1, A \<union> set_option r)" "r = None \<longrightarrow> h1 = h" "\<forall>a. r = Some a \<longrightarrow> a \<notin> A"
    by (rule owned_malloc [OF own, of 12]) auto
  show ?thesis
  proof (cases r)
    case None
    then show ?thesis using M own sz by (simp add: rt_ringbuffer_create_def)
  next
    case (Some ra)
    then have own1: "heap_owned (h1, insert ra A)" and ra: "ra \<notin> A" using M by simp_all
    obtain p h2 where P: "rt_malloc h1 0 ?n = Some (p, h2)" "heap_owned (h2, insert ra A \<union> set_option p)" "\<forall>a. p = Some a \<longrightarrow> a \<notin> insert ra A"
      by (rule owned_malloc [OF own1 n(3)]) auto
    show ?thesis
    proof (cases p)
      case None
      obtain h3 where "rt_free h2 0 (Some ra) = Some h3" "heap_owned (h3, insert ra A - {ra})"
        by (rule owned_free [of h2 "insert ra A" ra]) (use P(2) None in simp_all)
      then show ?thesis using M(1) Some P(1) None ra sz by (simp add: rt_ringbuffer_create_def Let_def)
    next
      case pa: (Some pa)
      have si: "sint (word_of_nat ?n :: u16) = int ?n" using n(2) by (simp add: signed_of_nat signed_take_bit_int_eq_self)
      define pool where "pool = map (\<lambda>i. heap_bytes h2 (pa - heap_ptr h2 + i)) [0..<?n]"
      obtain rb where rb: "rt_ringbuffer_init pool (int ?n) = Some rb" "rb_inv rb" "rb_contents rb = []"
        using rb_init_inv [of "int ?n" pool] n by (auto simp: pool_def)
      have C: "rt_ringbuffer_create h 0 sz = Some (Some (ra, pa, rb), h2)"
        using M(1) Some P(1) pa rb(1) sz si by (simp add: rt_ringbuffer_create_def Let_def pool_def)
      have own2: "heap_owned (h2, insert pa (insert ra A))" and ne: "pa \<notin> insert ra A" using P(2,3) pa by simp_all
      obtain h3 where h3: "rt_free h2 0 (Some pa) = Some h3" "heap_owned (h3, insert pa (insert ra A) - {pa})"
        by (rule owned_free [OF own2 insertI1])
      have "insert pa (insert ra A) - {pa} = insert ra A" using ne by auto
      then obtain h4 where "rt_free h3 0 (Some ra) = Some h4" "heap_owned (h4, insert ra A - {ra})"
        by (metis owned_free [of h3 "insert ra A" ra] h3(2) insertI1)
      then have "rt_ringbuffer_destroy h2 0 ra pa = Some h4 \<and> heap_owned (h4, A)" using h3(1) ra by (simp add: rt_ringbuffer_destroy_def)
      then show ?thesis using C rb own2 ne by blast
    qed
  qed
qed

section \<open>Properties\<close>

text \<open>
  \<^verbatim>\<open>rt_malloc_align\<close> for an alignment that is a power of two: it fails without changing the heap, or returns an address
  that is a multiple of the alignment, inside a new block of the heap, with room for the requested size behind it and for
  a word in front of it; no other byte of the heap has changed. Whatever is then written to the bytes
  outside of that word, \<^verbatim>\<open>rt_free_align\<close> succeeds and releases that block.
\<close>

lemma rt_malloc_align_spec:
  assumes own: "heap_owned (h, A)" and al: "align_up4 al = 2 ^ k" and n: "n \<le> 2 ^ 32 - 4" "align_up4 n + 2 ^ k \<le> 2 ^ 32 - 4"
  shows "\<exists>r h'. rt_malloc_align h 0 n al = Some (r, h') \<and> (r = None \<longrightarrow> h' = h)
    \<and> (\<forall>q. r = Some q \<longrightarrow> 2 ^ k dvd q \<and> (\<exists>a. a \<notin> A \<and> heap_owned (h', insert a A) \<and> a + 4 \<le> q \<and> q + n \<le> a + payload_size h' a
        \<and> (\<forall>j. j < q - 4 - heap_ptr h \<or> q - heap_ptr h \<le> j \<longrightarrow> heap_bytes h' j = heap_bytes h j)
        \<and> (\<forall>b. (\<forall>j < 4. b (q - 4 - heap_ptr h + j) = heap_bytes h' (q - 4 - heap_ptr h + j)) \<longrightarrow>
             (\<exists>h''. rt_free_align (h'\<lparr>heap_bytes := b\<rparr>) 0 q = Some h'' \<and> heap_owned (h'', A)))))"
proof -
  let ?n = "align_up4 n + 2 ^ k"
  have sz: "add32 (align_up4 n) (2 ^ k) = ?n" using n(2) by (simp add: add32_def)
  obtain r h1 where M: "rt_malloc h 0 ?n = Some (r, h1)" "heap_owned (h1, A \<union> set_option r)" "same_arena h h1"
    "heap_bytes h1 = heap_bytes h" "r = None \<longrightarrow> h1 = h" "\<forall>a. r = Some a \<longrightarrow> a \<notin> A \<and> ?n \<le> payload_size h1 a"
    by (rule owned_malloc [OF own n(2)]) blast
  have hp: "heap_ptr h1 = heap_ptr h" using M(3) by (simp add: same_arena_def)
  show ?thesis
  proof (cases r)
    case None
    then show ?thesis using M(1,5) by (simp add: rt_malloc_align_def al sz Let_def)
  next
    case (Some a)
    have a: "a \<notin> A" "?n \<le> payload_size h1 a" "heap_owned (h1, insert a A)" using M(2,6) Some by auto
    note A = owned_aligned [OF a(3) insertI1]
    have "a + 2 ^ k < 2 ^ 32" using A(3) a(2) by linarith
    note q0 = align_ptr_eq [OF this]
    define q where "q = align_ptr a (2 ^ k)"
    have q: "q = (a div 2 ^ k + 1) * 2 ^ k" using q0 by (simp add: q_def)
    have "q = a div 2 ^ k * 2 ^ k + 2 ^ k" "a mod 2 ^ k < 2 ^ k" by (simp_all add: q)
    then have bnd: "a < q" "q \<le> a + 2 ^ k" using div_mod_decomp [of a "2 ^ k"] by linarith+
    have "4 dvd align_up4 al" by (simp add: align_up4_def)
    then have "4 dvd q" unfolding q al by (rule dvd_mult)
    then have lo: "a + 4 \<le> q" using A(1) bnd(1) by presburger
    define h' where "h' = h1\<lparr>heap_bytes := store_long (heap_bytes h1) (q - 4 - heap_ptr h1) (word_of_nat a)\<rparr>"
    have R: "rt_malloc_align h 0 n al = Some (Some q, h')" using M(1) Some by (simp add: rt_malloc_align_def al sz q_def h'_def Let_def)
    have room: "q + n \<le> a + payload_size h' a"
      using bnd(2) a(2) align_up4_bounds(1) [OF n(1)] by (simp add: h'_def)
    have frame: "heap_bytes h' j = heap_bytes h j" if "j < q - 4 - heap_ptr h \<or> q - heap_ptr h \<le> j" for j
      using that A(2) lo M(4) by (auto simp: h'_def store_long_def hp)
    have free: "\<exists>h''. rt_free_align (h'\<lparr>heap_bytes := b\<rparr>) 0 q = Some h'' \<and> heap_owned (h'', A)"
      if b: "\<forall>j < 4. b (q - 4 - heap_ptr h + j) = heap_bytes h' (q - 4 - heap_ptr h + j)" for b
    proof -
      have "load_long b (q - 4 - heap_ptr h) = load_long (heap_bytes h') (q - 4 - heap_ptr h)" by (rule load_long_cong) (use b in blast)
      then have "unat (load_long b (q - 4 - heap_ptr h)) = a" using A(3) by (simp add: h'_def hp load_store unat_of_nat)
      moreover obtain h'' where "rt_free (h'\<lparr>heap_bytes := b\<rparr>) 0 (Some a) = Some h''" "heap_owned (h'', insert a A - {a})"
        by (rule owned_free [of "h'\<lparr>heap_bytes := b\<rparr>" "insert a A" a]) (use a(3) in \<open>simp_all add: h'_def\<close>)
      ultimately show ?thesis using A(4) a(1) by (simp add: rt_free_align_def h'_def hp)
    qed
    have "2 ^ k dvd q" unfolding q by simp
    moreover have "heap_owned (h', insert a A)" using a(3) by (simp add: h'_def)
    ultimately show ?thesis using R a(1) lo room frame free by (intro exI [of _ "Some q"] exI [of _ h']) auto
  qed
qed

end
