(* ===== verification/Completion.thy ===== *)
theory Completion
  imports Queue_Spec
begin

text \<open>
  The completion (\<^verbatim>\<open>components/drivers/src/completion.c\<close>): a flag that one thread waits for and another thread or an
  interrupt handler sets. The flags are kept beside the kernel state; \<open>True\<close> is \<^verbatim>\<open>RT_COMPLETED\<close>.
\<close>

section \<open>Definitions\<close>

definition rt_completion_init :: "nat \<Rightarrow> kstate \<Rightarrow> (nat \<Rightarrow> bool) \<Rightarrow> kstate \<times> (nat \<Rightarrow> bool)" where
  "rt_completion_init c k F = (rt_ipc_object_init (Comp_q c) k, F(c := False))"

text \<open>A wait returns, or goes on with \<open>rt_completion_wait_cont\<close> when its thread runs again.\<close>

datatype completion_result = Comp_return int | Comp_wait

definition rt_completion_wait ::
    "nat \<Rightarrow> int \<Rightarrow> kstate \<Rightarrow> (nat \<Rightarrow> bool) \<Rightarrow> (completion_result \<times> kstate \<times> (nat \<Rightarrow> bool)) option" where
  "rt_completion_wait c timeout k F =
     (if \<not> F c then do {
        rt_assert (k_list k (Comp_q c) = []);
        if timeout = 0 then Some (Comp_return (- RT_ETIMEOUT), k, F)
        else do {
          t \<leftarrow> rt_thread_self k;
          not_in_interrupt k;
          k1 \<leftarrow> ipc_wait (Comp_q c) t 0 timeout (thread_set_error t RT_EOK k);
          Some (Comp_wait, k1, F)
        }
      }
      else Some (Comp_return RT_EOK, k, F(c := False)))"

definition rt_completion_wait_cont :: "tid \<Rightarrow> nat \<Rightarrow> kstate \<Rightarrow> (nat \<Rightarrow> bool) \<Rightarrow> int \<times> (nat \<Rightarrow> bool)" where
  "rt_completion_wait_cont t c k F = (th_error (k_thr k t), F(c := False))"

definition rt_completion_done :: "nat \<Rightarrow> kstate \<Rightarrow> (nat \<Rightarrow> bool) \<Rightarrow> (kstate \<times> (nat \<Rightarrow> bool)) option" where
  "rt_completion_done c k F =
     (if F c then Some (k, F) else do { k1 \<leftarrow> wake_first (Comp_q c) k; Some (k1, F(c := True)) })"

section \<open>Waiting and completing\<close>

text \<open>A completed wait returns at once and uses the completion up; a second completion before a wait is absorbed.\<close>

lemma rt_completion_done_then_wait:
  assumes "kernel_live k" "\<not> F c" "k_list k (Comp_q c) = []"
  shows "rt_completion_done c k F = Some (k, F(c := True))" "rt_completion_done c k (F(c := True)) = Some (k, F(c := True))"
    "rt_completion_wait c timeout k (F(c := True)) = Some (Comp_return RT_EOK, k, F(c := False))"
  using assms by (simp_all add: rt_completion_done_def wake_first_def rt_completion_wait_def)

lemma rt_completion_wait_waits:
  assumes live: "kernel_live k" and t: "may_block t k" and f: "\<not> F c" "k_list k (Comp_q c) = []"
    and time: "timeout \<noteq> 0" "timeout < 0x7fffffff"
  shows "\<exists>k'. rt_completion_wait c timeout k F = Some (Comp_wait, k', F) \<and> waits (Comp_q c) t 0 timeout (thread_set_error t RT_EOK k) k'"
proof -
  obtain k' where "ipc_wait (Comp_q c) t 0 timeout (thread_set_error t RT_EOK k) = Some k'"
    "waits (Comp_q c) t 0 timeout (thread_set_error t RT_EOK k) k'"
    by (rule block_succeeds [OF live_upd(1) [OF live], of t t RT_EOK "Comp_q c" 0 timeout]) (use t time(2) in auto)
  then show ?thesis
    using t f time(1) by (auto simp: rt_completion_wait_def rt_thread_self_def not_in_interrupt_def may_block_def)
qed

lemma rt_completion_done_wakes:
  assumes live: "kernel_live k" and f: "\<not> F c" and q: "k_list k (Comp_q c) = [t]" and e: "th_error (k_thr k t) = RT_EOK"
  shows "\<exists>k'. rt_completion_done c k F = Some (k', F(c := True)) \<and> wakes (Comp_q c) t [] k k'
    \<and> rt_completion_wait_cont t c k' (F(c := True)) = (RT_EOK, F(c := False))"
proof -
  obtain k1 k' where "rt_ipc_list_resume (Comp_q c) k = Some k1" "rt_schedule k1 = Some k'" "wakes (Comp_q c) t [] k k'"
    by (rule ipc_resume_succeeds [OF live _ q]) simp_all
  then show ?thesis
    using f q e by (auto simp: rt_completion_done_def wake_first_def rt_completion_wait_cont_def wakes_def set_stat_def)
qed

text \<open>A completion that comes after the timeout of the waiting thread but before that thread runs again is lost: the
  call returns \<^verbatim>\<open>-RT_ETIMEOUT\<close> and clears the flag.\<close>

lemma rt_completion_lost:
  assumes "\<not> F c" "k_list k (Comp_q c) = []" "th_error (k_thr k t) = - RT_ETIMEOUT"
  shows "\<exists>F1. rt_completion_done c k F = Some (k, F1) \<and> rt_completion_wait_cont t c k F1 = (- RT_ETIMEOUT, F)"
  using assms by (auto simp: rt_completion_done_def wake_first_def rt_completion_wait_cont_def fun_upd_idem)

end
