(* ===== verification/WorkQueue.thy ===== *)
theory WorkQueue
  imports Queue_Spec
begin

text \<open>
  The work queue (\<^verbatim>\<open>components/drivers/src/workqueue.c\<close>): threads and interrupt handlers submit work items, a thread of the
  queue runs them one after the other. The state is the kernel state with the control blocks of the queues and of the work
  items, named by their addresses; the list of a queue is the sequence of the work items linked to it, and
  unlinking an item takes it from whatever queue holds it. The functions of the items are user code: the loop of
  \<^verbatim>\<open>_workqueue_thread_entry\<close> is split where they run and where the thread gives up the processor.

  The calls are defined here as they run when nothing interrupts them. Most of them enable interrupts several times; the theory
  \<open>WorkQueue_Step\<close> splits them there, with the same sections, and shows what remains true under every interleaving.
\<close>

section \<open>Definitions: data\<close>

abbreviation (input) RT_WORK_STATE_PENDING :: u16 where "RT_WORK_STATE_PENDING \<equiv> 0x0001"
abbreviation (input) RT_WORK_STATE_SUBMITTING :: u16 where "RT_WORK_STATE_SUBMITTING \<equiv> 0x0002"
abbreviation (input) RT_WORK_TYPE_DELAYED :: u16 where "RT_WORK_TYPE_DELAYED \<equiv> 0x0001"
abbreviation (input) RT_TIMER_FLAG_SOFT_TIMER :: u8 where "RT_TIMER_FLAG_SOFT_TIMER \<equiv> 0x4"
abbreviation (input) EINVAL :: int where "EINVAL \<equiv> 22"

record rt_work =
  wk_func :: nat
  wk_data :: nat
  wk_flags :: u16
  wk_type :: u16
  wk_workqueue :: "nat option"

record rt_workqueue =
  wq_work_list :: "nat list"
  wq_work_current :: "nat option"
  wq_work_thread :: tid

record wq_state =
  ws_k :: kstate
  ws_wq :: "nat \<Rightarrow> rt_workqueue"
  ws_wk :: "nat \<Rightarrow> rt_work"

text \<open>The semaphore inside of a queue and the timer inside of a work item, by their offsets.\<close>

definition wq_sem :: "nat \<Rightarrow> nat" where
  "wq_sem q = q + 12"

definition work_timer :: "nat \<Rightarrow> kptr" where
  "work_timer w = K_timer (w + 20)"

definition work_upd :: "nat \<Rightarrow> (rt_work \<Rightarrow> rt_work) \<Rightarrow> wq_state \<Rightarrow> wq_state" where
  "work_upd w f s = s\<lparr>ws_wk := (ws_wk s)(w := f (ws_wk s w))\<rparr>"

definition wq_upd :: "nat \<Rightarrow> (rt_workqueue \<Rightarrow> rt_workqueue) \<Rightarrow> wq_state \<Rightarrow> wq_state" where
  "wq_upd q f s = s\<lparr>ws_wq := (ws_wq s)(q := f (ws_wq s q))\<rparr>"

text \<open>\<^verbatim>\<open>rt_list_remove(&(work->list))\<close>, and linking at the end of the list of a queue.\<close>

definition work_unlink :: "nat \<Rightarrow> wq_state \<Rightarrow> wq_state" where
  "work_unlink w s = s\<lparr>ws_wq := (\<lambda>q. (ws_wq s q)\<lparr>wq_work_list := filter (\<lambda>x. x \<noteq> w) (wq_work_list (ws_wq s q))\<rparr>)\<rparr>"

definition work_append :: "nat \<Rightarrow> nat \<Rightarrow> wq_state \<Rightarrow> wq_state" where
  "work_append q w s = wq_upd q (\<lambda>wq. wq\<lparr>wq_work_list := wq_work_list wq @ [w]\<rparr>) s"

definition work_pending :: "wq_state \<Rightarrow> nat \<Rightarrow> bool" where
  "work_pending s w \<longleftrightarrow> wk_flags (ws_wk s w) AND RT_WORK_STATE_PENDING \<noteq> 0"

definition work_flag_clear :: "u16 \<Rightarrow> nat \<Rightarrow> wq_state \<Rightarrow> wq_state" where
  "work_flag_clear m w s = work_upd w (\<lambda>x. x\<lparr>wk_flags := wk_flags x AND NOT m\<rparr>) s"

definition work_flag_set :: "u16 \<Rightarrow> nat \<Rightarrow> wq_state \<Rightarrow> wq_state" where
  "work_flag_set m w s = work_upd w (\<lambda>x. x\<lparr>wk_flags := wk_flags x OR m\<rparr>) s"

text \<open>\<^verbatim>\<open>rt_list_init\<close> makes a node that is linked to itself only.\<close>

definition rt_work_init :: "nat \<Rightarrow> nat \<Rightarrow> nat \<Rightarrow> wq_state \<Rightarrow> wq_state" where
  "rt_work_init w func data s =
     work_upd w (\<lambda>_. \<lparr>wk_func = func, wk_data = data, wk_flags = 0, wk_type = 0, wk_workqueue = None\<rparr>) s"

definition rt_delayed_work_init :: "nat \<Rightarrow> nat \<Rightarrow> nat \<Rightarrow> wq_state \<Rightarrow> wq_state" where
  "rt_delayed_work_init w func data s = rt_work_init w func data s"

section \<open>Definitions: the thread of a queue\<close>

partial_function (option) completion_loop :: "nat \<Rightarrow> kstate \<Rightarrow> (int \<times> kstate) option" where
  "completion_loop sm k = do {
     (result, k1) \<leftarrow> rt_sem_trytake sm k;
     if result = Return (- RT_ETIMEOUT) then do {
       (_, k2) \<leftarrow> rt_sem_release sm k1;
       completion_loop sm k2
     }
     else if result = Return RT_EOK then Some (RT_EOK, k1)
     else Some (- RT_ERROR, k1)
   }"

definition workqueue_work_completion :: "nat \<Rightarrow> kstate \<Rightarrow> (int \<times> kstate) option" where
  "workqueue_work_completion q k = do {
     (result, k1) \<leftarrow> completion_loop (wq_sem q) (rt_enter_critical k);
     k2 \<leftarrow> rt_exit_critical k1;
     Some (result, k2)
   }"

text \<open>The sections of a round of the thread: take the first item, whether or not there is one (\<^verbatim>\<open>work_list.next\<close> of an empty list is
  the head of the list, and the bytes of the queue are taken for a work item: there is no result); after the function of the item has
  returned, clear the current item; wake the threads that wait for it. Their order is in \<open>WorkQueue_Step\<close>.\<close>

definition wq_thread_take :: "nat \<Rightarrow> wq_state \<Rightarrow> (nat \<times> wq_state) option" where
  "wq_thread_take q s =
     (case wq_work_list (ws_wq s q) of
        [] \<Rightarrow> None
      | w # _ \<Rightarrow> do {
          let s1 = wq_upd q (\<lambda>wq. wq\<lparr>wq_work_current := Some w\<rparr>) (work_unlink w s);
          let s2 = work_flag_clear RT_WORK_STATE_PENDING w s1;
          Some (w, work_upd w (\<lambda>x. x\<lparr>wk_workqueue := None\<rparr>) s2)
        })"

definition wq_thread_finish :: "nat \<Rightarrow> wq_state \<Rightarrow> wq_state" where
  "wq_thread_finish q s = wq_upd q (\<lambda>wq. wq\<lparr>wq_work_current := None\<rparr>) s"

definition wq_thread_ack :: "nat \<Rightarrow> wq_state \<Rightarrow> wq_state option" where
  "wq_thread_ack q s = do { (_, k1) \<leftarrow> workqueue_work_completion q (ws_k s); Some (s\<lparr>ws_k := k1\<rparr>) }"

section \<open>Definitions: submitting and cancelling\<close>

text \<open>Resuming the thread of the queue; the result of \<^verbatim>\<open>rt_thread_resume\<close> is ignored.\<close>

definition wq_kick :: "nat \<Rightarrow> wq_state \<Rightarrow> wq_state option" where
  "wq_kick q s =
     (if wq_work_current (ws_wq s q) = None then do {
        (_, k1) \<leftarrow> rt_thread_resume (wq_work_thread (ws_wq s q)) (ws_k s);
        k2 \<leftarrow> rt_schedule k1;
        Some (s\<lparr>ws_k := k2\<rparr>)
      }
      else Some s)"

text \<open>The queue is a pointer, which the timer of a delayed item may pass on as null.\<close>

definition workqueue_submit_work :: "nat option \<Rightarrow> nat \<Rightarrow> wq_state \<Rightarrow> (int \<times> wq_state) option" where
  "workqueue_submit_work queue w s =
     (if work_pending s w then Some (- RT_EBUSY, s)
      else do {
        q \<leftarrow> queue;
        if wq_work_current (ws_wq s q) = Some w then Some (- RT_EBUSY, s)
        else do {
          s1 \<leftarrow> wq_kick q (work_flag_set RT_WORK_STATE_PENDING w (work_append q w (work_unlink w s)));
          Some (RT_EOK, s1)
        }
      })"

definition workqueue_cancel_work :: "nat \<Rightarrow> nat \<Rightarrow> wq_state \<Rightarrow> int \<times> wq_state" where
  "workqueue_cancel_work q w s =
     (if wq_work_current (ws_wq s q) = Some w then (- RT_EBUSY, s)
      else (RT_EOK, work_flag_clear RT_WORK_STATE_PENDING w (work_unlink w s)))"

text \<open>Stopping and detaching the timer of an item.\<close>

definition work_timer_off :: "nat \<Rightarrow> wq_state \<Rightarrow> wq_state option" where
  "work_timer_off w s = do {
     (_, k1) \<leftarrow> rt_timer_stop (work_timer w) (ws_k s);
     k2 \<leftarrow> rt_timer_detach (work_timer w) k1;
     Some (work_flag_clear RT_WORK_STATE_SUBMITTING w (s\<lparr>ws_k := k2\<rparr>))
   }"

definition workqueue_cancel_delayed_work :: "nat \<Rightarrow> wq_state \<Rightarrow> (int \<times> wq_state) option" where
  "workqueue_cancel_delayed_work w s =
     (case wk_workqueue (ws_wk s w) of
        None \<Rightarrow> Some (- EINVAL, s)
      | Some q \<Rightarrow> do {
          (ret, s1) \<leftarrow>
            (if work_pending s w then Some (workqueue_cancel_work q w s)
             else if wk_flags (ws_wk s w) AND RT_WORK_STATE_SUBMITTING \<noteq> 0
             then do { s1 \<leftarrow> work_timer_off w s; Some (RT_EOK, s1) }
             else Some (RT_EOK, s));
          if ret \<noteq> 0 then Some (ret, s1)
          else Some (RT_EOK, work_flag_clear RT_WORK_STATE_PENDING w (work_upd w (\<lambda>x. x\<lparr>wk_workqueue := None\<rparr>) s1))
        })"

definition workqueue_submit_delayed_work :: "nat \<Rightarrow> nat \<Rightarrow> u32 \<Rightarrow> wq_state \<Rightarrow> (int \<times> wq_state) option" where
  "workqueue_submit_delayed_work q w tks s =
     (if wk_workqueue (ws_wk s w) \<noteq> None \<and> wk_workqueue (ws_wk s w) \<noteq> Some q then Some (- RT_EINVAL, s)
      else do {
        (ret, s1) \<leftarrow> (if wk_workqueue (ws_wk s w) = Some q then workqueue_cancel_delayed_work w s else Some (RT_EOK, s));
        if ret < 0 then Some (ret, s1)
        else do {
          let s2 = work_upd w (\<lambda>x. x\<lparr>wk_workqueue := Some q\<rparr>) s1;
          if tks = 0 then workqueue_submit_work (wk_workqueue (ws_wk s2 w)) w s2
          else do {
            let s3 = work_flag_set RT_WORK_STATE_SUBMITTING w s2;
            k1 \<leftarrow> rt_timer_init (work_timer w) [119, 111, 114, 107] (User_timeout w) tks RT_TIMER_FLAG_SOFT_TIMER (ws_k s3);
            k2 \<leftarrow> rt_timer_start (work_timer w) k1;
            Some (RT_EOK, s3\<lparr>ws_k := k2\<rparr>)
          }
        }
      })"

definition delayed_work_timeout_handler :: "nat \<Rightarrow> wq_state \<Rightarrow> wq_state option" where
  "delayed_work_timeout_handler w s = do {
     s1 \<leftarrow> work_timer_off w s;
     let s2 = work_upd w (\<lambda>x. x\<lparr>wk_type := wk_type x AND NOT RT_WORK_TYPE_DELAYED\<rparr>) s1;
     (_, s3) \<leftarrow> workqueue_submit_work (wk_workqueue (ws_wk s2 w)) w s2;
     Some s3
   }"

section \<open>Definitions: the interface\<close>

text \<open>The control block takes 48 bytes; \<open>entry\<close> is the address of \<^verbatim>\<open>_workqueue_thread_entry\<close>.\<close>

definition rt_workqueue_create :: "nat \<Rightarrow> u8 list \<Rightarrow> nat \<Rightarrow> nat \<Rightarrow> wq_state \<Rightarrow> (nat option \<times> wq_state) option" where
  "rt_workqueue_create entry name stack_size priority s = do {
     (queue, k1) \<leftarrow> k_malloc 48 (ws_k s);
     case queue of
       None \<Rightarrow> Some (None, s\<lparr>ws_k := k1\<rparr>)
     | Some q \<Rightarrow> do {
         k2 \<leftarrow> rt_sem_init (wq_sem q) [119, 113, 117, 101, 117, 101] 0 0 k1;
         (thread, k3) \<leftarrow> rt_thread_create name entry q stack_size priority 10 k2;
         case thread of
           None \<Rightarrow> do { k4 \<leftarrow> k_free (Some q) k3; Some (None, s\<lparr>ws_k := k4\<rparr>) }
         | Some t \<Rightarrow> do {
             k4 \<leftarrow> rt_thread_startup t k3;
             Some (Some q, (wq_upd q (\<lambda>_. \<lparr>wq_work_list = [], wq_work_current = None, wq_work_thread = t\<rparr>) s)\<lparr>ws_k := k4\<rparr>)
           }
       }
   }"

definition rt_workqueue_destroy :: "user_fun \<Rightarrow> nat \<Rightarrow> wq_state \<Rightarrow> (int \<times> wq_state) option" where
  "rt_workqueue_destroy uf q s = do {
     k1 \<leftarrow> rt_thread_delete uf (wq_work_thread (ws_wq s q)) (ws_k s);
     k2 \<leftarrow> k_free (Some q) k1;
     Some (RT_EOK, s\<lparr>ws_k := k2\<rparr>)
   }"

definition rt_workqueue_dowork :: "nat \<Rightarrow> nat \<Rightarrow> wq_state \<Rightarrow> (int \<times> wq_state) option" where
  "rt_workqueue_dowork q w s = workqueue_submit_work (Some q) w s"

definition rt_workqueue_submit_work :: "nat \<Rightarrow> nat \<Rightarrow> u32 \<Rightarrow> wq_state \<Rightarrow> (int \<times> wq_state) option" where
  "rt_workqueue_submit_work q w time s = do {
     let s1 = (if time > 0 then work_upd w (\<lambda>x. x\<lparr>wk_type := wk_type x OR RT_WORK_TYPE_DELAYED\<rparr>) s else s);
     if wk_type (ws_wk s1 w) AND RT_WORK_TYPE_DELAYED \<noteq> 0
     then workqueue_submit_delayed_work q w time s1
     else workqueue_submit_work (Some q) w s1
   }"

definition rt_workqueue_critical_work :: "nat \<Rightarrow> nat \<Rightarrow> wq_state \<Rightarrow> (int \<times> wq_state) option" where
  "rt_workqueue_critical_work q w s =
     (if wq_work_current (ws_wq s q) = Some w then Some (- RT_EBUSY, s)
      else do { s1 \<leftarrow> wq_kick q (work_append q w (work_unlink w s)); Some (RT_EOK, s1) })"

definition rt_workqueue_cancel_work :: "nat \<Rightarrow> nat \<Rightarrow> wq_state \<Rightarrow> (int \<times> wq_state) option" where
  "rt_workqueue_cancel_work q w s =
     (if wk_type (ws_wk s w) AND RT_WORK_TYPE_DELAYED \<noteq> 0 then workqueue_cancel_delayed_work w s
      else Some (workqueue_cancel_work q w s))"

text \<open>A synchronous cancellation returns, or waits for the current item and goes on with
  \<open>rt_workqueue_cancel_work_sync_cont\<close>.\<close>

definition rt_workqueue_cancel_work_sync :: "nat \<Rightarrow> nat \<Rightarrow> wq_state \<Rightarrow> (int option \<times> wq_state) option" where
  "rt_workqueue_cancel_work_sync q w s =
     (if wq_work_current (ws_wq s q) = Some w then do {
        (r, k1) \<leftarrow> rt_sem_take (wq_sem q) RT_WAITING_FOREVER (ws_k s);
        let s1 = s\<lparr>ws_k := k1\<rparr>;
        case r of
          Return _ \<Rightarrow> Some (Some RT_EOK, work_flag_clear RT_WORK_STATE_PENDING w s1)
        | Wait _ \<Rightarrow> Some (None, s1)
      }
      else Some (Some RT_EOK, work_flag_clear RT_WORK_STATE_PENDING w (work_unlink w s)))"

definition rt_workqueue_cancel_work_sync_cont :: "nat \<Rightarrow> wq_state \<Rightarrow> int \<times> wq_state" where
  "rt_workqueue_cancel_work_sync_cont w s = (RT_EOK, work_flag_clear RT_WORK_STATE_PENDING w s)"

text \<open>The loop unlinks the items one by one from the front. Only the scheduler is locked: this is what it does when no interrupt handler
  changes the list meanwhile.\<close>

fun unlink_all :: "nat list \<Rightarrow> wq_state \<Rightarrow> wq_state" where
  "unlink_all [] s = s"
| "unlink_all (w # ws) s = unlink_all ws (work_unlink w s)"

definition rt_workqueue_cancel_all_work :: "nat \<Rightarrow> wq_state \<Rightarrow> (int \<times> wq_state) option" where
  "rt_workqueue_cancel_all_work q s = do {
     let s1 = unlink_all (wq_work_list (ws_wq s q)) (s\<lparr>ws_k := rt_enter_critical (ws_k s)\<rparr>);
     k \<leftarrow> rt_exit_critical (ws_k s1);
     Some (RT_EOK, s1\<lparr>ws_k := k\<rparr>)
   }"

section \<open>Definitions: invariants\<close>

text \<open>Every item is queued at most once, in one queue, and not in the queue that runs it; and the pending flag tells exactly whether it
  is queued.\<close>

definition wq_once :: "wq_state \<Rightarrow> bool" where
  "wq_once s \<longleftrightarrow> (\<forall>q. distinct (wq_work_list (ws_wq s q)))
     \<and> (\<forall>q q' w. w \<in> set (wq_work_list (ws_wq s q)) \<and> w \<in> set (wq_work_list (ws_wq s q')) \<longrightarrow> q = q')
     \<and> (\<forall>q w. w \<in> set (wq_work_list (ws_wq s q)) \<longrightarrow> wq_work_current (ws_wq s q) \<noteq> Some w)"

definition wq_exact :: "wq_state \<Rightarrow> bool" where
  "wq_exact s \<longleftrightarrow> (\<forall>w. work_pending s w \<longleftrightarrow> (\<exists>q. w \<in> set (wq_work_list (ws_wq s q))))"

text \<open>\<open>wq_step\<close> says that one step keeps the two invariants; the steps of the calls are composed of it.\<close>

definition wq_step :: "bool \<Rightarrow> wq_state \<Rightarrow> wq_state \<Rightarrow> bool" where
  "wq_step ex s s' \<longleftrightarrow> (wq_once s \<longrightarrow> wq_once s' \<and> (ex \<longrightarrow> wq_exact s \<longrightarrow> wq_exact s'))"

text \<open>A queue at address 500 without work on the sample system, whose thread is the suspended thread 3.\<close>

definition sample_wq :: wq_state where
  "sample_wq = \<lparr>ws_k = sample_kernel, ws_wq = (\<lambda>_. \<lparr>wq_work_list = [], wq_work_current = None, wq_work_thread = 3\<rparr>),
     ws_wk = (\<lambda>_. \<lparr>wk_func = 0, wk_data = 0, wk_flags = 0, wk_type = 0, wk_workqueue = None\<rparr>)\<rparr>"

section \<open>What the small updates do\<close>

lemma work_upd_simps [simp]:
  "ws_k (work_upd w f s) = ws_k s" "ws_wq (work_upd w f s) = ws_wq s" "ws_wk (work_upd w f s) = (ws_wk s)(w := f (ws_wk s w))"
  by (simp_all add: work_upd_def)

lemma wq_upd_simps [simp]:
  "ws_k (wq_upd q f s) = ws_k s" "ws_wk (wq_upd q f s) = ws_wk s" "ws_wq (wq_upd q f s) = (ws_wq s)(q := f (ws_wq s q))"
  by (simp_all add: wq_upd_def)

lemma work_flag_simps [simp]:
  "ws_k (work_flag_set m w s) = ws_k s" "ws_wq (work_flag_set m w s) = ws_wq s"
  "ws_k (work_flag_clear m w s) = ws_k s" "ws_wq (work_flag_clear m w s) = ws_wq s"
  "ws_wk (work_flag_set m w s) = (ws_wk s)(w := (ws_wk s w)\<lparr>wk_flags := wk_flags (ws_wk s w) OR m\<rparr>)"
  "ws_wk (work_flag_clear m w s) = (ws_wk s)(w := (ws_wk s w)\<lparr>wk_flags := wk_flags (ws_wk s w) AND NOT m\<rparr>)"
  by (simp_all add: work_flag_set_def work_flag_clear_def)

lemma work_list_simps [simp]:
  "ws_k (work_unlink w s) = ws_k s" "ws_wk (work_unlink w s) = ws_wk s"
  "ws_k (work_append q w s) = ws_k s" "ws_wk (work_append q w s) = ws_wk s"
  "wq_work_list (ws_wq (work_unlink w s) q) = filter (\<lambda>x. x \<noteq> w) (wq_work_list (ws_wq s q))"
  "wq_work_current (ws_wq (work_unlink w s) q) = wq_work_current (ws_wq s q)"
  "wq_work_thread (ws_wq (work_unlink w s) q) = wq_work_thread (ws_wq s q)"
  "wq_work_list (ws_wq (work_append q w s) q') = wq_work_list (ws_wq s q') @ (if q' = q then [w] else [])"
  "wq_work_current (ws_wq (work_append q w s) q') = wq_work_current (ws_wq s q')"
  "wq_work_thread (ws_wq (work_append q w s) q') = wq_work_thread (ws_wq s q')"
  by (simp_all add: work_unlink_def work_append_def)

lemma pending_set [simp]: "work_pending (work_flag_set RT_WORK_STATE_PENDING w s) v \<longleftrightarrow> v = w \<or> work_pending s v"
proof -
  have "(f OR 1) AND 1 = (1 :: u16)" for f by (rule bit_word_eqI) (auto simp: bit_simps)
  then show ?thesis by (simp add: work_pending_def)
qed

lemma pending_clear [simp]: "work_pending (work_flag_clear RT_WORK_STATE_PENDING w s) v \<longleftrightarrow> v \<noteq> w \<and> work_pending s v"
proof -
  have "(f AND NOT 1) AND 1 = (0 :: u16)" for f by (rule bit_word_eqI) (auto simp: bit_simps)
  then show ?thesis by (simp add: work_pending_def)
qed

lemma pending_submitting [simp]:
  "work_pending (work_flag_set RT_WORK_STATE_SUBMITTING w s) v \<longleftrightarrow> work_pending s v"
  "work_pending (work_flag_clear RT_WORK_STATE_SUBMITTING w s) v \<longleftrightarrow> work_pending s v"
proof -
  have "(f OR 2) AND 1 = f AND 1" "(f AND NOT 2) AND 1 = f AND (1 :: u16)" for f
    by (rule bit_word_eqI, auto simp: bit_simps bit_1_iff)+
  then show "work_pending (work_flag_set RT_WORK_STATE_SUBMITTING w s) v \<longleftrightarrow> work_pending s v"
    "work_pending (work_flag_clear RT_WORK_STATE_SUBMITTING w s) v \<longleftrightarrow> work_pending s v" by (simp_all add: work_pending_def)
qed

lemma pending_keep [simp]:
  "work_pending (work_upd w (\<lambda>x. x\<lparr>wk_workqueue := g x\<rparr>) s) v \<longleftrightarrow> work_pending s v"
  "work_pending (work_upd w (\<lambda>x. x\<lparr>wk_type := h x\<rparr>) s) v \<longleftrightarrow> work_pending s v"
  "work_pending (work_unlink w s) v \<longleftrightarrow> work_pending s v" "work_pending (work_append q w s) v \<longleftrightarrow> work_pending s v"
  "work_pending (wq_upd q j s) v \<longleftrightarrow> work_pending s v" "work_pending (s\<lparr>ws_k := k\<rparr>) v \<longleftrightarrow> work_pending s v"
  by (simp_all add: work_pending_def)

lemma wq_kick_form: "wq_kick q s = Some s' \<Longrightarrow> \<exists>k. s' = s\<lparr>ws_k := k\<rparr>"
  by (auto simp: wq_kick_def bind_Some_iff split: if_splits prod.splits intro: exI [of _ "ws_k s"])

lemma timer_off_form: "work_timer_off w s = Some s' \<Longrightarrow> \<exists>k. s' = work_flag_clear RT_WORK_STATE_SUBMITTING w (s\<lparr>ws_k := k\<rparr>)"
  by (auto simp: work_timer_off_def bind_Some_iff split: prod.splits)

section \<open>Every item is queued at most once\<close>

lemma wq_step_refl: "wq_step ex s s"
  by (simp add: wq_step_def)

lemma wq_step_trans: "wq_step ex s s1 \<Longrightarrow> wq_step ex s1 s2 \<Longrightarrow> wq_step ex s s2"
  by (simp add: wq_step_def)

lemma wq_step_same:
  assumes "ws_wq s' = ws_wq s" "\<And>w. ex \<Longrightarrow> work_pending s' w = work_pending s w"
  shows "wq_step ex s s'"
  using assms by (simp add: wq_step_def wq_once_def wq_exact_def)

lemma wq_step_unlink: "wq_step True s (work_flag_clear RT_WORK_STATE_PENDING w (work_unlink w s))" "wq_step False s (work_unlink w s)"
  by (auto simp: wq_step_def wq_once_def wq_exact_def)

lemma wq_step_queue:
  assumes "wq_work_current (ws_wq s q) \<noteq> Some w"
  shows "wq_step False s (work_append q w (work_unlink w s))"
    "wq_step True s (work_flag_set RT_WORK_STATE_PENDING w (work_append q w (work_unlink w s)))"
  using assms by (auto simp: wq_step_def wq_once_def wq_exact_def split: if_splits)

lemma wq_step_kick: "wq_step ex s s1 \<Longrightarrow> wq_kick q s1 = Some s' \<Longrightarrow> wq_step ex s s'"
proof -
  assume st: "wq_step ex s s1" and k: "wq_kick q s1 = Some s'"
  obtain k where "s' = s1\<lparr>ws_k := k\<rparr>" using wq_kick_form [OF k] by blast
  then have "wq_step ex s1 s'" by (simp add: wq_step_same)
  then show ?thesis by (rule wq_step_trans [OF st])
qed

lemma wq_step_current:
  "(\<And>w. c = Some w \<Longrightarrow> w \<notin> set (wq_work_list (ws_wq s q))) \<Longrightarrow> wq_step ex s (wq_upd q (\<lambda>wq. wq\<lparr>wq_work_current := c\<rparr>) s)"
  unfolding wq_step_def wq_once_def wq_exact_def by simp (metis option.inject)

lemma submit_step: "workqueue_submit_work queue w s = Some (r, s') \<Longrightarrow> wq_step True s s'"
  using wq_step_kick [OF wq_step_queue(2)] by (auto simp: workqueue_submit_work_def bind_Some_iff wq_step_refl split: if_splits)

lemma critical_step: "rt_workqueue_critical_work q w s = Some (r, s') \<Longrightarrow> wq_step False s s'"
  using wq_step_kick [OF wq_step_queue(1)] by (auto simp: rt_workqueue_critical_work_def bind_Some_iff wq_step_refl split: if_splits)

lemma cancel_step: "wq_step True s (snd (workqueue_cancel_work q w s))"
  by (simp add: workqueue_cancel_work_def wq_step_refl wq_step_unlink)

lemma timer_off_step: "work_timer_off w s = Some s' \<Longrightarrow> wq_step True s s'"
  by (auto dest!: timer_off_form intro!: wq_step_same)

text \<open>Detaching an item from its queue clears the pending flag, which the cancellation has cleared before or which was clear.\<close>

lemma cancel_delayed_step:
  assumes "workqueue_cancel_delayed_work w s = Some (r, s')"
  shows "wq_step True s s'"
proof (cases "wk_workqueue (ws_wk s w)")
  case None
  then show ?thesis using assms by (simp add: workqueue_cancel_delayed_work_def wq_step_refl)
next
  case (Some q)
  obtain ret s1 where S1: "(if work_pending s w then Some (workqueue_cancel_work q w s)
      else if wk_flags (ws_wk s w) AND RT_WORK_STATE_SUBMITTING \<noteq> 0 then do { s1 \<leftarrow> work_timer_off w s; Some (RT_EOK, s1) }
      else Some (RT_EOK, s)) = Some (ret, s1)"
    and R: "(if ret \<noteq> 0 then Some (ret, s1)
      else Some (RT_EOK, work_flag_clear RT_WORK_STATE_PENDING w (work_upd w (\<lambda>x. x\<lparr>wk_workqueue := None\<rparr>) s1))) = Some (r, s')"
    using assms Some by (auto simp: workqueue_cancel_delayed_work_def bind_Some_iff simp del: if_splits)
  have st: "wq_step True s s1"
    using S1 cancel_step [of s q w] timer_off_step by (auto simp: bind_Some_iff wq_step_refl split: if_splits) (metis snd_conv)?
  have np: "\<not> work_pending s1 w" if "ret = 0"
    using S1 that timer_off_form by (fastforce simp: bind_Some_iff workqueue_cancel_work_def split: if_splits)
  show ?thesis
    using R st np by (auto split: if_splits intro!: wq_step_trans [OF st wq_step_same])
qed

lemma submit_delayed_step:
  assumes "workqueue_submit_delayed_work q w n s = Some (r, s')"
  shows "wq_step True s s'"
proof -
  let ?att = "work_upd w (\<lambda>x. x\<lparr>wk_workqueue := Some q\<rparr>)"
  have one: "wq_step True s1 (?att s1)" for s1 by (rule wq_step_same) simp_all
  show ?thesis
  proof (cases "wk_workqueue (ws_wk s w) \<noteq> None \<and> wk_workqueue (ws_wk s w) \<noteq> Some q")
    case True
    then show ?thesis using assms by (simp add: workqueue_submit_delayed_work_def wq_step_refl)
  next
    case False
    then obtain ret s1 where c: "(if wk_workqueue (ws_wk s w) = Some q then workqueue_cancel_delayed_work w s else Some (RT_EOK, s)) = Some (ret, s1)"
      using assms by (cases "if wk_workqueue (ws_wk s w) = Some q then workqueue_cancel_delayed_work w s else Some (RT_EOK, s)")
        (auto simp: workqueue_submit_delayed_work_def)
    have st: "wq_step True s s1" using c cancel_delayed_step by (auto simp: wq_step_refl split: if_splits)
    have "s' = s1 \<or> workqueue_submit_work (Some q) w (?att s1) = Some (r, s')
        \<or> (\<exists>k. s' = (work_flag_set RT_WORK_STATE_SUBMITTING w (?att s1))\<lparr>ws_k := k\<rparr>)"
      using assms False c by (auto simp: workqueue_submit_delayed_work_def Let_def bind_Some_iff split: if_splits)
    moreover have "wq_step True (?att s1) ((work_flag_set RT_WORK_STATE_SUBMITTING w (?att s1))\<lparr>ws_k := k\<rparr>)" for k
      by (rule wq_step_same) simp_all
    ultimately show ?thesis using st one [of s1] submit_step wq_step_trans by metis
  qed
qed

lemma unlink_all_list: "wq_work_list (ws_wq (unlink_all ws s) q) = filter (\<lambda>x. x \<notin> set ws) (wq_work_list (ws_wq s q))"
  by (induction ws arbitrary: s) (auto intro: filter_cong)

lemma unlink_all_other [simp]:
  "ws_k (unlink_all ws s) = ws_k s" "ws_wk (unlink_all ws s) = ws_wk s"
  "wq_work_current (ws_wq (unlink_all ws s) q) = wq_work_current (ws_wq s q)"
  "wq_work_thread (ws_wq (unlink_all ws s) q) = wq_work_thread (ws_wq s q)"
  by (induction ws arbitrary: s) auto

lemma take_step: "wq_thread_take q s = Some (w, s') \<Longrightarrow> wq_step True s s'"
proof -
  assume t: "wq_thread_take q s = Some (w, s')"
  let ?s1 = "work_flag_clear RT_WORK_STATE_PENDING w (work_unlink w s)"
  let ?s2 = "wq_upd q (\<lambda>wq. wq\<lparr>wq_work_current := Some w\<rparr>) ?s1"
  have "wq_step True ?s2 s'"
    by (rule wq_step_same) (use t in \<open>auto simp: wq_thread_take_def Let_def split: list.splits\<close>)
  moreover have "wq_step True ?s1 ?s2" by (rule wq_step_current) simp
  ultimately show ?thesis using wq_step_trans wq_step_unlink(1) by blast
qed

section \<open>Waking the threads that wait for the current item\<close>

lemma live_lock: "kernel_live k \<Longrightarrow> kernel_live (k\<lparr>scheduler_lock_nest := n\<rparr>)"
  by (rule live_cong [OF _ kernel_inv_lock [OF liveD(1)]]) (simp_all add: rt_object_get_type_def)

lemma completion_loop_wakes:
  assumes "kernel_live k" "rt_object_get_type k (K_sem sm) = RT_Object_Class_Semaphore" "sem_value (k_sem k sm) = 0"
    "k_list k (Sem_q sm) = ts" "current_thread k \<noteq> None"
  shows "\<exists>k'. completion_loop sm k = Some (RT_EOK, k') \<and> kernel_live k' \<and> k_list k' (Sem_q sm) = [] \<and> k_sem k' = k_sem k
    \<and> current_thread k' \<noteq> None \<and> scheduler_lock_nest k' = scheduler_lock_nest k
    \<and> (\<forall>t. k_thr k' t = (if t \<in> set ts then set_stat RT_THREAD_READY (k_thr k t) else k_thr k t))
    \<and> (\<forall>g. waiting_queue g \<and> g \<noteq> Sem_q sm \<longrightarrow> k_list k' g = k_list k g)"
  using assms
proof (induction ts arbitrary: k)
  case Nil
  have "(k_sem k sm)\<lparr>sem_value := 0\<rparr> = k_sem k sm" using Nil.prems(3) by (cases "k_sem k sm") simp
  then have "sem_set sm 0 (sem_set sm (Suc 0) k) = k" by (simp add: sem_set_def)
  then have "completion_loop sm k = Some (RT_EOK, k)"
    using Nil.prems
    by (subst completion_loop.simps) (simp add: rt_sem_trytake_def rt_sem_take_def rt_sem_release_def,
        subst completion_loop.simps, simp add: rt_sem_trytake_def rt_sem_take_def rt_object_get_type_def sem_set_def)
  then show ?case using Nil.prems by simp
next
  case (Cons t ts)
  note live = Cons.prems(1) and q = Cons.prems(4)
  obtain k1 k' where k': "rt_ipc_list_resume (Sem_q sm) k = Some k1" "rt_schedule k1 = Some k'" and W: "wakes (Sem_q sm) t ts k k'"
    and cur: "current_thread k1 = current_thread k"
    by (rule ipc_resume_succeeds [OF live _ q]) simp_all
  have fr: "thread_frame {t} k k'" using W by (simp add: wakes_def)
  have d: "t \<notin> set ts" using sched_wf_distinct [of "{}" k "Sem_q sm"] liveD(4) [OF live] q by (simp add: sched_wf_def)
  have thr: "k_thr k' u = (if u = t then set_stat RT_THREAD_READY (k_thr k t) else k_thr k u)" for u
    using W fr by (simp add: wakes_def thread_frame_def)
  have "current_thread k' \<noteq> None" using rt_schedule_current [OF k'(2)] cur Cons.prems(5) by simp
  then obtain k2 where L: "completion_loop sm k' = Some (RT_EOK, k2)" and K: "kernel_live k2" "k_list k2 (Sem_q sm) = []" "k_sem k2 = k_sem k'"
      "current_thread k2 \<noteq> None" "scheduler_lock_nest k2 = scheduler_lock_nest k'"
      "\<forall>u. k_thr k2 u = (if u \<in> set ts then set_stat RT_THREAD_READY (k_thr k' u) else k_thr k' u)"
      "\<forall>g. waiting_queue g \<and> g \<noteq> Sem_q sm \<longrightarrow> k_list k2 g = k_list k' g"
    using Cons.IH [of k'] wakesD(1,4) [OF W] thread_frame_type [OF fr] Cons.prems(2,3) fr by (auto simp: thread_frame_def)
  have "completion_loop sm k = Some (RT_EOK, k2)"
    using Cons.prems k' L by (subst completion_loop.simps) (simp add: rt_sem_trytake_def rt_sem_take_def rt_sem_release_def)
  moreover have "\<forall>u. k_thr k2 u = (if u \<in> set (t # ts) then set_stat RT_THREAD_READY (k_thr k u) else k_thr k u)"
    using K(6) thr d by auto
  moreover have "\<forall>g. waiting_queue g \<and> g \<noteq> Sem_q sm \<longrightarrow> k_list k2 g = k_list k g" using K(7) W by (simp add: wakes_def)
  ultimately show ?case using K(1-5) fr by (auto simp: thread_frame_def)
qed

lemma exit_critical_succeeds:
  assumes live: "kernel_live k" and lock: "scheduler_lock_nest k = 1" and c: "current_thread k \<noteq> None" and s: "thread_state k s = RT_THREAD_READY"
  obtains k' where "rt_exit_critical k = Some k'" "kernel_live k'" "runs_highest k'" "k_thr k' = k_thr k" "k_list k' = k_list k" "k_sem k' = k_sem k"
proof -
  let ?k = "k\<lparr>scheduler_lock_nest := 0\<rparr>"
  have st: "thread_state ?k s = RT_THREAD_READY" using s by (simp add: thread_state_def)
  obtain k' where "rt_schedule ?k = Some k'" "kernel_live k'" "scheduler_lock_nest ?k = 0 \<Longrightarrow> runs_highest k'" "k_thr k' = k_thr ?k"
      "k_list k' = k_list ?k" "thread_frame {} ?k k'"
    by (rule live_schedule [OF live_lock [OF live, of 0] st]) blast
  then show thesis using that lock c by (simp add: rt_exit_critical_def wrap_s16_def thread_frame_def)
qed

section \<open>Submitting\<close>

lemma rt_workqueue_dowork_spec:
  assumes live: "kernel_live (ws_k s)" and t: "t = wq_work_thread (ws_wq s q)"
    "thread_state (ws_k s) t = RT_THREAD_READY \<or> thread_state (ws_k s) t = RT_THREAD_SUSPEND"
  shows "work_pending s w \<or> wq_work_current (ws_wq s q) = Some w \<Longrightarrow> rt_workqueue_dowork q w s = Some (- RT_EBUSY, s)"
    "\<not> work_pending s w \<Longrightarrow> wq_work_current (ws_wq s q) \<noteq> Some w \<Longrightarrow> \<exists>k. rt_workqueue_dowork q w s =
        Some (RT_EOK, (work_flag_set RT_WORK_STATE_PENDING w (work_append q w (work_unlink w s)))\<lparr>ws_k := k\<rparr>)
      \<and> kernel_live k \<and> (if wq_work_current (ws_wq s q) = None
           then thread_state k t = RT_THREAD_READY \<and> (scheduler_lock_nest (ws_k s) = 0 \<longrightarrow> runs_highest k) else k = ws_k s)"
proof -
  show "rt_workqueue_dowork q w s = Some (- RT_EBUSY, s)" if "work_pending s w \<or> wq_work_current (ws_wq s q) = Some w"
    using that by (auto simp: rt_workqueue_dowork_def workqueue_submit_work_def)
  assume n: "\<not> work_pending s w" "wq_work_current (ws_wq s q) \<noteq> Some w"
  let ?s = "work_flag_set RT_WORK_STATE_PENDING w (work_append q w (work_unlink w s))"
  obtain r k1 k where R: "rt_thread_resume t (ws_k s) = Some (r, k1)" "rt_schedule k1 = Some k" "kernel_live k"
    "k_thr k t = set_stat RT_THREAD_READY (k_thr (ws_k s) t)" "scheduler_lock_nest (ws_k s) = 0 \<Longrightarrow> runs_highest k"
    by (rule resume_or_not [OF live t(2)]) blast
  have "thread_state k t = RT_THREAD_READY" using R(4) by (simp add: thread_state_def)
  moreover have "wq_kick q ?s = Some (if wq_work_current (ws_wq s q) = None then ?s\<lparr>ws_k := k\<rparr> else ?s)"
    using R(1,2) t(1) by (simp add: wq_kick_def)
  moreover have "?s\<lparr>ws_k := ws_k s\<rparr> = ?s" by (simp add: work_flag_set_def work_append_def work_unlink_def work_upd_def wq_upd_def)
  ultimately show "\<exists>k. rt_workqueue_dowork q w s = Some (RT_EOK, ?s\<lparr>ws_k := k\<rparr>)
      \<and> kernel_live k \<and> (if wq_work_current (ws_wq s q) = None
           then thread_state k t = RT_THREAD_READY \<and> (scheduler_lock_nest (ws_k s) = 0 \<longrightarrow> runs_highest k) else k = ws_k s)"
    using n R(3,5) live by (intro exI [of _ "if wq_work_current (ws_wq s q) = None then k else ws_k s"])
      (auto simp: rt_workqueue_dowork_def workqueue_submit_work_def)
qed

text \<open>Cancelling all work leaves the pending flags set: the items can not be submitted again.\<close>

lemma rt_workqueue_cancel_all_sticks:
  assumes "rt_workqueue_cancel_all_work q s = Some (r, s')" "work_pending s w"
  shows "wq_work_list (ws_wq s' q) = []" "rt_workqueue_dowork p w s' = Some (- RT_EBUSY, s')"
proof -
  have "work_pending s' w" using assms by (auto simp: rt_workqueue_cancel_all_work_def Let_def bind_Some_iff work_pending_def)
  then show "rt_workqueue_dowork p w s' = Some (- RT_EBUSY, s')" by (simp add: rt_workqueue_dowork_def workqueue_submit_work_def)
  show "wq_work_list (ws_wq s' q) = []"
    using assms(1) by (auto simp: rt_workqueue_cancel_all_work_def Let_def bind_Some_iff unlink_all_list filter_empty_conv)
qed

text \<open>Once the thread of the queue has taken an item, the timer of a delayed submission of that item finds no queue.\<close>

lemma delayed_work_timeout_null:
  assumes "wq_thread_take q s = Some (w, s1)"
  shows "delayed_work_timeout_handler w (s1\<lparr>ws_k := k\<rparr>) = None"
proof -
  have f: "wk_workqueue (ws_wk s1 w) = None" "\<not> work_pending s1 w"
    using assms by (auto simp: wq_thread_take_def Let_def split: list.splits)
  have "wk_workqueue (ws_wk s2 w) = None \<and> \<not> work_pending s2 w" if "work_timer_off w (s1\<lparr>ws_k := k\<rparr>) = Some s2" for s2
    using timer_off_form [OF that] f by auto
  then show ?thesis
    by (cases "work_timer_off w (s1\<lparr>ws_k := k\<rparr>)") (auto simp: delayed_work_timeout_handler_def Let_def workqueue_submit_work_def)
qed

lemma sample_wq_dowork:
  "\<exists>s1. rt_workqueue_dowork 500 7 sample_wq = Some (RT_EOK, s1) \<and> wq_work_list (ws_wq s1 500) = [7] \<and> work_pending s1 7
     \<and> (\<forall>w. wk_type (ws_wk s1 w) = 0)"
proof -
  have l: "kernel_live (ws_k sample_wq)" "\<not> work_pending sample_wq 7" "wq_work_current (ws_wq sample_wq 500) \<noteq> Some 7"
    using sample_kernel_live by (simp_all add: sample_wq_def work_pending_def)
  moreover have "thread_state (ws_k sample_wq) (wq_work_thread (ws_wq sample_wq 500)) = RT_THREAD_SUSPEND" by (simp add: sample_wq_def sample_kernel_state)
  ultimately obtain k where "rt_workqueue_dowork 500 7 sample_wq =
      Some (RT_EOK, (work_flag_set RT_WORK_STATE_PENDING 7 (work_append 500 7 (work_unlink 7 sample_wq)))\<lparr>ws_k := k\<rparr>)"
    using rt_workqueue_dowork_spec(2) [OF l(1) refl, of 500 7] by auto
  then show ?thesis by (simp add: sample_wq_def work_pending_def)
qed

section \<open>Properties\<close>

text \<open>
  C17. After the function of an item has returned, \<^verbatim>\<open>_workqueue_work_completion\<close> terminates, makes every thread that waits in
  \<^verbatim>\<open>rt_workqueue_cancel_work_sync\<close> ready, leaves the semaphore at 0 for the next item, leaves all other threads and waiting queues
  alone, and the ready thread with the highest priority runs.
\<close>

theorem workqueue_work_completion_wakes_all:
  assumes live: "kernel_live k" and sm: "rt_object_get_type k (K_sem (wq_sem q)) = RT_Object_Class_Semaphore"
    and v: "sem_value (k_sem k (wq_sem q)) = 0" and c: "current_thread k = Some t" "thread_state k t = RT_THREAD_READY"
    and lock: "scheduler_lock_nest k = 0"
  shows "\<exists>k'. workqueue_work_completion q k = Some (RT_EOK, k') \<and> kernel_live k' \<and> runs_highest k'
    \<and> k_list k' (Sem_q (wq_sem q)) = [] \<and> sem_value (k_sem k' (wq_sem q)) = 0
    \<and> (\<forall>u. if u \<in> set (k_list k (Sem_q (wq_sem q))) then thread_state k' u = RT_THREAD_READY else k_thr k' u = k_thr k u)
    \<and> (\<forall>g. waiting_queue g \<and> g \<noteq> Sem_q (wq_sem q) \<longrightarrow> k_list k' g = k_list k g)"
proof -
  let ?k = "k\<lparr>scheduler_lock_nest := 1\<rparr>" and ?q = "Sem_q (wq_sem q)"
  have e: "rt_enter_critical k = ?k" using lock by (simp add: rt_enter_critical_def wrap_s16_def)
  have "\<exists>k'. completion_loop (wq_sem q) ?k = Some (RT_EOK, k') \<and> kernel_live k' \<and> k_list k' ?q = [] \<and> k_sem k' = k_sem ?k
    \<and> current_thread k' \<noteq> None \<and> scheduler_lock_nest k' = scheduler_lock_nest ?k
    \<and> (\<forall>t. k_thr k' t = (if t \<in> set (k_list k ?q) then set_stat RT_THREAD_READY (k_thr ?k t) else k_thr ?k t))
    \<and> (\<forall>g. waiting_queue g \<and> g \<noteq> ?q \<longrightarrow> k_list k' g = k_list ?k g)"
    by (rule completion_loop_wakes [OF live_lock [OF live]]) (use sm v c in \<open>simp_all add: rt_object_get_type_def\<close>)
  then obtain k1 where L: "completion_loop (wq_sem q) ?k = Some (RT_EOK, k1)" "kernel_live k1" "k_list k1 ?q = []" "k_sem k1 = k_sem k"
      "current_thread k1 \<noteq> None" "scheduler_lock_nest k1 = 1"
    and thr: "\<And>u. k_thr k1 u = (if u \<in> set (k_list k ?q) then set_stat RT_THREAD_READY (k_thr k u) else k_thr k u)"
    and oth: "\<And>g. waiting_queue g \<and> g \<noteq> ?q \<longrightarrow> k_list k1 g = k_list k g" by auto
  have rdy: "thread_state k1 u = RT_THREAD_READY" if "u \<in> set (k_list k ?q) \<or> u = t" for u
    using that thr c(2) by (auto simp: thread_state_def)
  obtain k' where X: "rt_exit_critical k1 = Some k'" "kernel_live k'" "runs_highest k'" "k_thr k' = k_thr k1" "k_list k' = k_list k1" "k_sem k' = k_sem k1"
    by (rule exit_critical_succeeds [OF L(2,6,5) rdy [of t]]) auto
  have "workqueue_work_completion q k = Some (RT_EOK, k')" using L(1) X(1) by (simp add: workqueue_work_completion_def e)
  then show ?thesis using X L(3,4) v thr oth rdy by (auto simp: thread_state_def)
qed

theorem workqueue_work_completion_wakes_all_witness:
  "\<exists>k k'. k_list k (Sem_q (wq_sem 500)) = [2] \<and> workqueue_work_completion 500 k = Some (RT_EOK, k') \<and> thread_state k' 2 = RT_THREAD_READY
     \<and> k_list k' (Sem_q (wq_sem 500)) = []"
proof -
  have mb: "may_block 2 sample_kernel"
    unfolding may_block_def by (auto simp: sample_kernel_state intro!: exI [of _ 1])
  obtain k where W: "waits (Sem_q (wq_sem 500)) 2 0 (- 1) sample_kernel k"
    by (rule block_succeeds [OF sample_kernel_live mb, of "Sem_q (wq_sem 500)" 0 "- 1"]) simp_all
  have "k_list sample_kernel (Sem_q (wq_sem 500)) = []" by (simp add: sample_kernel_def wq_sem_def)
  with W have k: "kernel_live k" "thread_frame {2} sample_kernel k" "k_list k (Sem_q (wq_sem 500)) = [2]" "runs_highest k"
    by (simp_all add: waits_def enqueue_def)
  then obtain t where "current_thread k = Some t" "thread_state k t = RT_THREAD_READY" by (auto simp: runs_highest_def)
  moreover have "sem_value (k_sem k (wq_sem 500)) = 0" "scheduler_lock_nest k = 0"
    using k(2) by (simp_all add: thread_frame_def) (simp add: sample_kernel_def kernel_zero_def)
  ultimately show ?thesis
    using workqueue_work_completion_wakes_all [of k 500 t] k(1,3) thread_frame_type [OF k(2)] sample_kernel_types by fastforce
qed

end
