(* ===== verification/WorkQueue_Step.thy ===== *)
theory WorkQueue_Step
  imports WorkQueue
begin

text \<open>
  The work queue (\<^verbatim>\<open>components/drivers/src/workqueue.c\<close>) under interleaving. The calls, the loop of the thread of a queue and the
  callback of the timer of a delayed item enable interrupts several times and test fields with interrupts enabled. Each of them is an
  activity with a program counter, one for every section between two points where another activity can run: a section
  with interrupts disabled, a test, or a kernel call. A run lets any activity make its next step at any time, with any changes
  of the kernel by other code in between.

  \<^verbatim>\<open>rt_workqueue_cancel_all_work\<close> is not among the activities: it unlinks the items with interrupts enabled, so that not even its single
  list operations are sections.
\<close>

section \<open>Definitions: sections\<close>

text \<open>Who cancels a delayed item: \<^verbatim>\<open>rt_workqueue_cancel_work\<close>, or \<^verbatim>\<open>_workqueue_submit_delayed_work\<close> for a queue and a number of ticks.\<close>

datatype wq_caller = By_cancel | By_submit nat u32

text \<open>Where an activity stands. The comments give the lines of \<^verbatim>\<open>workqueue.c\<close> of the section that comes next.\<close>

datatype wq_pc =
    Done int
  | Submit_type nat nat u32 \<comment> \<open>299-302, \<^verbatim>\<open>rt_workqueue_submit_work\<close>\<close>
  | Submit_test nat nat u32 \<comment> \<open>304\<close>
  | Delayed_other nat nat u32 \<comment> \<open>194\<close>
  | Delayed_same nat nat u32 \<comment> \<open>201\<close>
  | Delayed_attach nat nat u32 \<comment> \<open>210-213\<close>
  | Delayed_ticks nat u32 \<comment> \<open>215-218\<close>
  | Delayed_timer nat u32 \<comment> \<open>222-227\<close>
  | Delayed_start nat \<comment> \<open>228\<close>
  | Submit "nat option" nat \<comment> \<open>93-123, \<^verbatim>\<open>_workqueue_submit_work\<close>\<close>
  | Resume nat \<comment> \<open>117, 335\<close>
  | Schedule \<comment> \<open>118, 336\<close>
  | Critical nat nat \<comment> \<open>320-338\<close>
  | Cancel nat nat \<comment> \<open>348, \<^verbatim>\<open>rt_workqueue_cancel_work\<close>\<close>
  | Cancel_plain nat nat \<comment> \<open>132-140, from 354\<close>
  | Cancel_delayed nat wq_caller \<comment> \<open>150\<close>
  | Cancel_pending nat wq_caller \<comment> \<open>156-159\<close>
  | Cancel_queued "nat option" nat wq_caller \<comment> \<open>132-140, from 159\<close>
  | Cancel_submitting nat wq_caller \<comment> \<open>167\<close>
  | Cancel_timer nat wq_caller \<comment> \<open>169-173\<close>
  | Cancel_detach nat wq_caller \<comment> \<open>177-181\<close>
  | Cancel_sync nat nat \<comment> \<open>365-376\<close>
  | Cancel_sync_wait nat \<comment> \<open>375-376, after waiting\<close>
  | Timeout nat \<comment> \<open>241-246\<close>
  | Timeout_submit nat \<comment> \<open>247\<close>
  | Thread_loop nat \<comment> \<open>61\<close>
  | Thread_suspend nat \<comment> \<open>64\<close>
  | Thread_schedule nat \<comment> \<open>65\<close>
  | Thread_take nat \<comment> \<open>69-75\<close>
  | Thread_work nat nat \<comment> \<open>78\<close>
  | Thread_finish nat \<comment> \<open>79-82\<close>
  | Thread_ack nat \<comment> \<open>85\<close>

definition submit_section :: "nat option \<Rightarrow> nat \<Rightarrow> wq_state \<Rightarrow> (wq_pc \<times> wq_state) option" where
  "submit_section queue w s =
     (if work_pending s w then Some (Done (- RT_EBUSY), s)
      else do {
        q \<leftarrow> queue;
        if wq_work_current (ws_wq s q) = Some w then Some (Done (- RT_EBUSY), s)
        else Some (if wq_work_current (ws_wq s q) = None then Resume q else Done RT_EOK,
                   work_flag_set RT_WORK_STATE_PENDING w (work_append q w (work_unlink w s)))
      })"

definition critical_section :: "nat \<Rightarrow> nat \<Rightarrow> wq_state \<Rightarrow> wq_pc \<times> wq_state" where
  "critical_section q w s =
     (if wq_work_current (ws_wq s q) = Some w then (Done (- RT_EBUSY), s)
      else (if wq_work_current (ws_wq s q) = None then Resume q else Done RT_EOK, work_append q w (work_unlink w s)))"

text \<open>How \<^verbatim>\<open>_workqueue_cancel_delayed_work\<close> returns to its caller.\<close>

fun cancel_return :: "wq_caller \<Rightarrow> nat \<Rightarrow> int \<Rightarrow> wq_pc" where
  "cancel_return By_cancel w ret = Done ret"
| "cancel_return (By_submit q tks) w ret = (if ret < 0 then Done ret else Delayed_attach q w tks)"

text \<open>Cancelling in the queue that \<^verbatim>\<open>work->workqueue\<close> pointed to when it was read; a null pointer is followed without a test.\<close>

definition cancel_queued :: "nat option \<Rightarrow> nat \<Rightarrow> wq_caller \<Rightarrow> wq_state \<Rightarrow> (wq_pc \<times> wq_state) option" where
  "cancel_queued queue w c s = do {
     q \<leftarrow> queue;
     let (ret, s1) = workqueue_cancel_work q w s;
     Some (if ret \<noteq> 0 then cancel_return c w ret else Cancel_detach w c, s1)
   }"

text \<open>The steps of the calls of the users and of the timer callback.\<close>

fun call_step :: "wq_pc \<Rightarrow> wq_state \<Rightarrow> (wq_pc \<times> wq_state) option" where
  "call_step (Submit_type q w tks) s =
     Some (Submit_test q w tks, if tks > 0 then work_upd w (\<lambda>x. x\<lparr>wk_type := wk_type x OR RT_WORK_TYPE_DELAYED\<rparr>) s else s)"
| "call_step (Submit_test q w tks) s =
     Some (if wk_type (ws_wk s w) AND RT_WORK_TYPE_DELAYED \<noteq> 0 then Delayed_other q w tks else Submit (Some q) w, s)"
| "call_step (Delayed_other q w tks) s =
     Some (if wk_workqueue (ws_wk s w) \<noteq> None \<and> wk_workqueue (ws_wk s w) \<noteq> Some q then Done (- RT_EINVAL) else Delayed_same q w tks, s)"
| "call_step (Delayed_same q w tks) s =
     Some (if wk_workqueue (ws_wk s w) = Some q then Cancel_delayed w (By_submit q tks) else Delayed_attach q w tks, s)"
| "call_step (Delayed_attach q w tks) s =
     Some (Delayed_ticks w tks, work_upd w (\<lambda>x. x\<lparr>wk_workqueue := Some q\<rparr>) s)"
| "call_step (Delayed_ticks w tks) s =
     Some (if tks = 0 then Submit (wk_workqueue (ws_wk s w)) w else Delayed_timer w tks, s)"
| "call_step (Delayed_timer w tks) s = do {
     let s1 = work_flag_set RT_WORK_STATE_SUBMITTING w s;
     k \<leftarrow> rt_timer_init (work_timer w) [119, 111, 114, 107] (User_timeout w) tks RT_TIMER_FLAG_SOFT_TIMER (ws_k s1);
     Some (Delayed_start w, s1\<lparr>ws_k := k\<rparr>)
   }"
| "call_step (Delayed_start w) s = do { k \<leftarrow> rt_timer_start (work_timer w) (ws_k s); Some (Done RT_EOK, s\<lparr>ws_k := k\<rparr>) }"
| "call_step (Submit queue w) s = submit_section queue w s"
| "call_step (Resume q) s = do {
     (_, k) \<leftarrow> rt_thread_resume (wq_work_thread (ws_wq s q)) (ws_k s);
     Some (Schedule, s\<lparr>ws_k := k\<rparr>)
   }"
| "call_step Schedule s = do { k \<leftarrow> rt_schedule (ws_k s); Some (Done RT_EOK, s\<lparr>ws_k := k\<rparr>) }"
| "call_step (Critical q w) s = Some (critical_section q w s)"
| "call_step (Cancel q w) s =
     Some (if wk_type (ws_wk s w) AND RT_WORK_TYPE_DELAYED \<noteq> 0 then Cancel_delayed w By_cancel else Cancel_plain q w, s)"
| "call_step (Cancel_plain q w) s = Some (map_prod Done id (workqueue_cancel_work q w s))"
| "call_step (Cancel_delayed w c) s =
     Some (if wk_workqueue (ws_wk s w) = None then cancel_return c w (- EINVAL) else Cancel_pending w c, s)"
| "call_step (Cancel_pending w c) s =
     Some (if work_pending s w then Cancel_queued (wk_workqueue (ws_wk s w)) w c else Cancel_submitting w c, s)"
| "call_step (Cancel_queued queue w c) s = cancel_queued queue w c s"
| "call_step (Cancel_submitting w c) s =
     Some (if wk_flags (ws_wk s w) AND RT_WORK_STATE_SUBMITTING \<noteq> 0 then Cancel_timer w c else Cancel_detach w c, s)"
| "call_step (Cancel_timer w c) s = do { s1 \<leftarrow> work_timer_off w s; Some (Cancel_detach w c, s1) }"
| "call_step (Cancel_detach w c) s =
     Some (cancel_return c w RT_EOK, work_flag_clear RT_WORK_STATE_PENDING w (work_upd w (\<lambda>x. x\<lparr>wk_workqueue := None\<rparr>) s))"
| "call_step (Cancel_sync q w) s = do {
     (r, s1) \<leftarrow> rt_workqueue_cancel_work_sync q w s;
     Some (case r of Some ret \<Rightarrow> Done ret | None \<Rightarrow> Cancel_sync_wait w, s1)
   }"
| "call_step (Cancel_sync_wait w) s = Some (map_prod Done id (rt_workqueue_cancel_work_sync_cont w s))"
| "call_step (Timeout w) s = do {
     s1 \<leftarrow> work_timer_off w s;
     Some (Timeout_submit w, work_upd w (\<lambda>x. x\<lparr>wk_type := wk_type x AND NOT RT_WORK_TYPE_DELAYED\<rparr>) s1)
   }"
| "call_step (Timeout_submit w) s = Some (Submit (wk_workqueue (ws_wk s w)) w, s)"
| "call_step _ s = None"

text \<open>The steps of the thread of a queue. After \<^verbatim>\<open>rt_schedule\<close> the thread goes on behind the \<^verbatim>\<open>if\<close>; its next item is read without
  another look at the list.\<close>

fun thread_step :: "wq_pc \<Rightarrow> wq_state \<Rightarrow> (wq_pc \<times> wq_state) option" where
  "thread_step (Thread_loop q) s = Some (if wq_work_list (ws_wq s q) = [] then Thread_suspend q else Thread_take q, s)"
| "thread_step (Thread_suspend q) s = do {
     t \<leftarrow> rt_thread_self (ws_k s);
     (_, k) \<leftarrow> rt_thread_suspend t (ws_k s);
     Some (Thread_schedule q, s\<lparr>ws_k := k\<rparr>)
   }"
| "thread_step (Thread_schedule q) s = do { k \<leftarrow> rt_schedule (ws_k s); Some (Thread_take q, s\<lparr>ws_k := k\<rparr>) }"
| "thread_step (Thread_take q) s = do { (w, s1) \<leftarrow> wq_thread_take q s; Some (Thread_work q w, s1) }"
| "thread_step (Thread_work q w) s = Some (Thread_finish q, s)"
| "thread_step (Thread_finish q) s = Some (Thread_ack q, wq_thread_finish q s)"
| "thread_step (Thread_ack q) s = do { s1 \<leftarrow> wq_thread_ack q s; Some (Thread_loop q, s1) }"
| "thread_step _ s = None"

fun thread_pc :: "wq_pc \<Rightarrow> bool" where
  "thread_pc (Thread_loop q) = True" | "thread_pc (Thread_suspend q) = True" | "thread_pc (Thread_schedule q) = True"
| "thread_pc (Thread_take q) = True" | "thread_pc (Thread_work q w) = True" | "thread_pc (Thread_finish q) = True"
| "thread_pc (Thread_ack q) = True" | "thread_pc _ = False"

definition wq_act :: "wq_pc \<Rightarrow> wq_state \<Rightarrow> (wq_pc \<times> wq_state) option" where
  "wq_act pc s = (if thread_pc pc then thread_step pc s else call_step pc s)"

section \<open>Definitions: runs\<close>

record wq_system =
  wy_state :: wq_state
  wy_pc :: "nat \<Rightarrow> wq_pc"

text \<open>Where a call, the thread of a queue, and the timer callback of a delayed item begin.\<close>

fun wq_entry :: "wq_pc \<Rightarrow> bool" where
  "wq_entry (Submit_type q w tks) = True" | "wq_entry (Submit (Some q) w) = True" | "wq_entry (Critical q w) = True"
| "wq_entry (Cancel q w) = True" | "wq_entry (Cancel_sync q w) = True" | "wq_entry (Timeout w) = True"
| "wq_entry (Thread_loop q) = True" | "wq_entry _ = False"

text \<open>An activity makes its next step, an activity that has returned begins a call, or other code changes the kernel.\<close>

datatype wq_move = Act nat | Begin nat wq_pc | Other kstate

fun wq_move_step :: "wq_move \<Rightarrow> wq_system \<Rightarrow> wq_system option" where
  "wq_move_step (Act i) y = do {
     (pc, s) \<leftarrow> wq_act (wy_pc y i) (wy_state y);
     Some (y\<lparr>wy_state := s, wy_pc := (wy_pc y)(i := pc)\<rparr>)
   }"
| "wq_move_step (Begin i pc) y =
     (case wy_pc y i of
        Done _ \<Rightarrow> if wq_entry pc then Some (y\<lparr>wy_pc := (wy_pc y)(i := pc)\<rparr>) else None
      | _ \<Rightarrow> None)"
| "wq_move_step (Other k) y = Some (y\<lparr>wy_state := (wy_state y)\<lparr>ws_k := k\<rparr>\<rparr>)"

fun wq_moves :: "wq_move list \<Rightarrow> wq_system \<Rightarrow> wq_system option" where
  "wq_moves [] y = Some y"
| "wq_moves (m # ms) y = do { y1 \<leftarrow> wq_move_step m y; wq_moves ms y1 }"

text \<open>The steps that keep the pending flag exact: not the calls that queue an item without setting it or clear it for an item that another
  queue may hold, and not the last section of \<^verbatim>\<open>_workqueue_cancel_delayed_work\<close> for an item that has been queued since the flag
  was tested.\<close>

definition queued :: "wq_state \<Rightarrow> nat \<Rightarrow> bool" where
  "queued s w \<longleftrightarrow> (\<exists>q. w \<in> set (wq_work_list (ws_wq s q)))"

fun exact_pc :: "wq_pc \<Rightarrow> wq_state \<Rightarrow> bool" where
  "exact_pc (Critical q w) s = False"
| "exact_pc (Cancel_sync q w) s = False"
| "exact_pc (Cancel_sync_wait w) s = False"
| "exact_pc (Cancel_detach w c) s = (\<not> queued s w)"
| "exact_pc _ s = True"

fun exact_moves :: "wq_move list \<Rightarrow> wq_system \<Rightarrow> bool" where
  "exact_moves [] y = True"
| "exact_moves (m # ms) y =
     ((case m of Act i \<Rightarrow> exact_pc (wy_pc y i) (wy_state y) | _ \<Rightarrow> True)
      \<and> (case wq_move_step m y of Some y1 \<Rightarrow> exact_moves ms y1 | None \<Rightarrow> True))"

text \<open>An activity that runs alone.\<close>

fun wq_alone :: "nat \<Rightarrow> wq_pc \<Rightarrow> wq_state \<Rightarrow> (wq_pc \<times> wq_state) option" where
  "wq_alone 0 pc s = Some (pc, s)"
| "wq_alone (Suc n) pc s =
     (case pc of Done r \<Rightarrow> Some (pc, s) | _ \<Rightarrow> do { (pc1, s1) \<leftarrow> wq_act pc s; wq_alone n pc1 s1 })"

definition call_returns :: "wq_pc \<Rightarrow> wq_state \<Rightarrow> int \<Rightarrow> wq_state \<Rightarrow> bool" where
  "call_returns pc s r s' \<longleftrightarrow> (\<exists>n. wq_alone n pc s = Some (Done r, s'))"

text \<open>The sample queue with its thread, the second activity that uses it, and the callback of a timer.\<close>

definition sample_wq_system :: wq_system where
  "sample_wq_system = \<lparr>wy_state = sample_wq, wy_pc = (\<lambda>i. if i = 0 then Thread_take 500 else Done 0)\<rparr>"

section \<open>Steps keep the items in order\<close>

lemma submit_section_step: "submit_section queue w s = Some (pc, s') \<Longrightarrow> wq_step True s s'"
  using wq_step_queue(2) by (auto simp: submit_section_def bind_Some_iff wq_step_refl split: if_splits)

lemma critical_section_step: "critical_section q w s = (pc, s') \<Longrightarrow> wq_step False s s'"
  using wq_step_queue(1) by (auto simp: critical_section_def wq_step_refl split: if_splits)

lemma cancel_queued_step: "cancel_queued queue w c s = Some (pc, s') \<Longrightarrow> wq_step True s s'"
  using cancel_step [of s "the queue" w] by (cases queue) (auto simp: cancel_queued_def Let_def split: prod.splits)

lemma cancel_sync_step: "rt_workqueue_cancel_work_sync q w s = Some (r, s') \<Longrightarrow> wq_step False s s'"
proof -
  have "wq_step False s (work_flag_clear RT_WORK_STATE_PENDING w (work_unlink w s))"
    by (rule wq_step_trans [OF wq_step_unlink(2) wq_step_same]) simp_all
  then show "rt_workqueue_cancel_work_sync q w s = Some (r, s') \<Longrightarrow> wq_step False s s'"
    by (auto simp: rt_workqueue_cancel_work_sync_def Let_def bind_Some_iff split: if_splits wait_result.split_asm intro: wq_step_same)
      (metis wait_result.exhaust)
qed

lemma wq_step_weaken: "wq_step True s s' \<Longrightarrow> wq_step ex s s'"
  by (simp add: wq_step_def)

lemma wq_step_fields:
  "wq_step ex s (s\<lparr>ws_k := k\<rparr>)" "wq_step ex s (work_upd w (\<lambda>x. x\<lparr>wk_type := g x\<rparr>) s)"
  "wq_step ex s (work_upd w (\<lambda>x. x\<lparr>wk_workqueue := h x\<rparr>) s)" "wq_step ex s ((work_flag_set RT_WORK_STATE_SUBMITTING w s)\<lparr>ws_k := k\<rparr>)"
  "wq_step False s (work_flag_clear RT_WORK_STATE_PENDING w s)"
  by (rule wq_step_same; simp)+

text \<open>Detaching an item that is not queued clears a flag that is clear.\<close>

lemma detach_step:
  "wq_step (\<not> queued s w) s (work_flag_clear RT_WORK_STATE_PENDING w (work_upd w (\<lambda>x. x\<lparr>wk_workqueue := None\<rparr>) s))"
  by (auto simp: wq_step_def wq_once_def wq_exact_def queued_def)

lemma timeout_step:
  assumes "work_timer_off w s = Some s1"
  shows "wq_step True s (work_upd w (\<lambda>x. x\<lparr>wk_type := g x\<rparr>) s1)"
  by (rule wq_step_trans [OF timer_off_step [OF assms] wq_step_same]) simp_all

lemma call_step_keeps: "call_step pc s = Some (pc', s') \<Longrightarrow> wq_step (exact_pc pc s) s s'"
proof (cases pc)
  case (Cancel_detach w c)
  moreover assume "call_step pc s = Some (pc', s')"
  ultimately show ?thesis using detach_step [of s w] by auto
next
  case (Cancel_plain q w)
  moreover assume "call_step pc s = Some (pc', s')"
  ultimately show ?thesis using cancel_step [of s q w] by (cases "workqueue_cancel_work q w s") auto
qed (auto simp: bind_Some_iff Let_def rt_workqueue_cancel_work_sync_cont_def split: if_splits
    dest: submit_section_step critical_section_step cancel_queued_step cancel_sync_step timer_off_step
    intro: wq_step_fields wq_step_refl timeout_step)

lemma thread_step_keeps: "thread_step pc s = Some (pc', s') \<Longrightarrow> wq_step True s s'"
  by (cases pc) (auto simp: bind_Some_iff Let_def wq_thread_finish_def wq_thread_ack_def split: if_splits dest: take_step
    intro: wq_step_fields wq_step_refl wq_step_current)

lemma wq_act_keeps: "wq_act pc s = Some (pc', s') \<Longrightarrow> wq_step (exact_pc pc s) s s'"
  using call_step_keeps thread_step_keeps [THEN wq_step_weaken] by (auto simp: wq_act_def split: if_splits)

lemma wq_moves_keep:
  "wq_moves ms y = Some y' \<Longrightarrow> wq_step (exact_moves ms y) (wy_state y) (wy_state y')"
proof (induction ms arbitrary: y)
  case (Cons m ms)
  then obtain y1 where y1: "wq_move_step m y = Some y1" "wq_moves ms y1 = Some y'" by (auto simp: bind_Some_iff)
  have "wq_step (case m of Act i \<Rightarrow> exact_pc (wy_pc y i) (wy_state y) | _ \<Rightarrow> True) (wy_state y) (wy_state y1)"
    using y1(1) by (cases m) (auto simp: bind_Some_iff split: wq_pc.splits if_splits intro: wq_act_keeps wq_step_same)
  then show ?case using Cons.IH [OF y1(2)] y1(1) by (auto simp: wq_step_def split: wq_move.splits)
qed (simp add: wq_step_refl)

section \<open>Calls that nothing interrupts\<close>

lemma call_returns_done: "call_returns (Done r) s r s"
  by (auto simp: call_returns_def intro: exI [of _ 0])

lemma call_returns_step:
  assumes "wq_act pc s = Some (pc1, s1)" "call_returns pc1 s1 r s'" "\<And>x. pc \<noteq> Done x"
  shows "call_returns pc s r s'"
proof -
  obtain n where "wq_alone n pc1 s1 = Some (Done r, s')" using assms(2) by (auto simp: call_returns_def)
  then have "wq_alone (Suc n) pc s = Some (Done r, s')" using assms(1,3) by (cases pc) auto
  then show ?thesis unfolding call_returns_def by blast
qed

lemma kick_returns:
  assumes "wq_kick q s = Some s'"
  shows "call_returns (if wq_work_current (ws_wq s q) = None then Resume q else Done RT_EOK) s RT_EOK s'"
proof (cases "wq_work_current (ws_wq s q) = None")
  case True
  then obtain x k1 k2 where k: "rt_thread_resume (wq_work_thread (ws_wq s q)) (ws_k s) = Some (x, k1)" "rt_schedule k1 = Some k2" "s' = s\<lparr>ws_k := k2\<rparr>"
    using assms by (auto simp: wq_kick_def bind_Some_iff)
  have "call_returns Schedule (s\<lparr>ws_k := k1\<rparr>) RT_EOK s'"
    by (rule call_returns_step [OF _ call_returns_done]) (use k in \<open>simp_all add: wq_act_def\<close>)
  then have "call_returns (Resume q) s RT_EOK s'" by (rule call_returns_step [rotated]) (use k in \<open>simp_all add: wq_act_def\<close>)
  with True show ?thesis by simp
qed (use assms call_returns_done in \<open>auto simp: wq_kick_def\<close>)

lemma submit_returns: "workqueue_submit_work queue w s = Some (r, s') \<Longrightarrow> call_returns (Submit queue w) s r s'"
proof -
  assume a: "workqueue_submit_work queue w s = Some (r, s')"
  show ?thesis
  proof (cases "work_pending s w \<or> (\<exists>q. queue = Some q \<and> wq_work_current (ws_wq s q) = Some w)")
    case True
    then have "submit_section queue w s = Some (Done r, s')" using a by (auto simp: workqueue_submit_work_def submit_section_def)
    then show ?thesis by (intro call_returns_step [OF _ call_returns_done]) (simp_all add: wq_act_def)
  next
    case False
    then obtain q where q: "queue = Some q" using a by (cases queue) (auto simp: workqueue_submit_work_def)
    let ?s = "work_flag_set RT_WORK_STATE_PENDING w (work_append q w (work_unlink w s))"
    have k: "wq_kick q ?s = Some s'" "r = RT_EOK" using a False q by (auto simp: workqueue_submit_work_def bind_Some_iff)
    show ?thesis
      by (rule call_returns_step [of _ _ "if wq_work_current (ws_wq s q) = None then Resume q else Done RT_EOK" ?s])
        (use kick_returns [OF k(1)] False q k(2) in \<open>simp_all add: wq_act_def submit_section_def\<close>)
  qed
qed

lemma cancel_delayed_returns:
  assumes "workqueue_cancel_delayed_work w s = Some (r, s')" "call_returns (cancel_return c w r) s' x s2"
  shows "call_returns (Cancel_delayed w c) s x s2"
proof (cases "wk_workqueue (ws_wk s w)")
  case None
  show ?thesis by (rule call_returns_step [OF _ assms(2)]) (use assms(1) None in \<open>simp_all add: wq_act_def workqueue_cancel_delayed_work_def\<close>)
next
  case (Some q)
  let ?d = "\<lambda>s. work_flag_clear RT_WORK_STATE_PENDING w (work_upd w (\<lambda>x. x\<lparr>wk_workqueue := None\<rparr>) s)"
  have det: "call_returns (Cancel_detach w c) s1 x s2" if "s' = ?d s1" "r = RT_EOK" for s1
    by (rule call_returns_step [of _ _ "cancel_return c w RT_EOK" s']) (use that assms(2) in \<open>simp_all add: wq_act_def\<close>)
  have "call_returns (Cancel_pending w c) s x s2"
  proof (cases "work_pending s w")
    case True
    obtain ret s1 where cw: "workqueue_cancel_work q w s = (ret, s1)" by fastforce
    have "call_returns (if ret \<noteq> 0 then cancel_return c w ret else Cancel_detach w c) s1 x s2"
      using assms True Some cw det [of s1] by (auto simp: workqueue_cancel_delayed_work_def split: if_splits)
    then have "call_returns (Cancel_queued (Some q) w c) s x s2"
      by (rule call_returns_step [rotated]) (use cw in \<open>simp_all add: wq_act_def cancel_queued_def\<close>)
    then show ?thesis by (rule call_returns_step [rotated]) (use True Some in \<open>simp_all add: wq_act_def\<close>)
  next
    case False
    have "call_returns (Cancel_submitting w c) s x s2"
    proof (cases "wk_flags (ws_wk s w) AND RT_WORK_STATE_SUBMITTING \<noteq> 0")
      case True
      then obtain s1 where s1: "work_timer_off w s = Some s1" "s' = ?d s1" "r = RT_EOK"
        using assms(1) Some False by (auto simp: workqueue_cancel_delayed_work_def bind_Some_iff)
      have "call_returns (Cancel_timer w c) s x s2"
        by (rule call_returns_step [OF _ det [OF s1(2,3)]]) (use s1 in \<open>simp_all add: wq_act_def\<close>)
      then show ?thesis by (rule call_returns_step [rotated]) (use True in \<open>simp_all add: wq_act_def\<close>)
    next
      case no: False
      then have "s' = ?d s" "r = RT_EOK" using assms(1) Some False by (auto simp: workqueue_cancel_delayed_work_def)
      from det [OF this] show ?thesis by (rule call_returns_step [rotated]) (use no in \<open>simp_all add: wq_act_def\<close>)
    qed
    then show ?thesis by (rule call_returns_step [rotated]) (use False in \<open>simp_all add: wq_act_def\<close>)
  qed
  then show ?thesis by (rule call_returns_step [rotated]) (use Some in \<open>simp_all add: wq_act_def\<close>)
qed

text \<open>Without interruption, the steps of a call compute what its definition as one function does.\<close>

lemma submit_work_alone:
  assumes "rt_workqueue_submit_work q w tks s = Some (r, s')" shows "call_returns (Submit_type q w tks) s r s'"
proof -
  define s1 where "s1 = (if tks > 0 then work_upd w (\<lambda>x. x\<lparr>wk_type := wk_type x OR RT_WORK_TYPE_DELAYED\<rparr>) s else s)"
  have a: "if wk_type (ws_wk s1 w) AND RT_WORK_TYPE_DELAYED \<noteq> 0 then workqueue_submit_delayed_work q w tks s1 = Some (r, s')
      else workqueue_submit_work (Some q) w s1 = Some (r, s')"
    using assms by (auto simp: rt_workqueue_submit_work_def Let_def split: if_splits simp flip: s1_def)
  have att: "call_returns (Delayed_attach q w tks) s2 r s'"
    if at: "(if tks = 0 then workqueue_submit_work (Some q) w (work_upd w (\<lambda>x. x\<lparr>wk_workqueue := Some q\<rparr>) s2)
        else do {
            let s3 = work_flag_set RT_WORK_STATE_SUBMITTING w (work_upd w (\<lambda>x. x\<lparr>wk_workqueue := Some q\<rparr>) s2);
            k1 \<leftarrow> rt_timer_init (work_timer w) [119, 111, 114, 107] (User_timeout w) tks RT_TIMER_FLAG_SOFT_TIMER (ws_k s3);
            k2 \<leftarrow> rt_timer_start (work_timer w) k1;
            Some (RT_EOK, s3\<lparr>ws_k := k2\<rparr>)
          }) = Some (r, s')" for s2
  proof -
    let ?s3 = "work_upd w (\<lambda>x. x\<lparr>wk_workqueue := Some q\<rparr>) s2"
    have "call_returns (Delayed_ticks w tks) ?s3 r s'"
    proof (cases "tks = 0")
      case True
      then have "call_returns (Submit (Some q) w) ?s3 r s'" using at by (simp add: submit_returns)
      then show ?thesis by (rule call_returns_step [rotated]) (use True in \<open>simp_all add: wq_act_def\<close>)
    next
      case False
      let ?s4 = "work_flag_set RT_WORK_STATE_SUBMITTING w ?s3"
      obtain k1 k2 where k: "rt_timer_init (work_timer w) [119, 111, 114, 107] (User_timeout w) tks RT_TIMER_FLAG_SOFT_TIMER (ws_k ?s4) = Some k1"
        "rt_timer_start (work_timer w) k1 = Some k2" "r = RT_EOK" "s' = ?s4\<lparr>ws_k := k2\<rparr>"
        using at False by (auto simp: Let_def bind_Some_iff)
      have "call_returns (Delayed_start w) (?s4\<lparr>ws_k := k1\<rparr>) r s'"
        unfolding k(3) by (rule call_returns_step [OF _ call_returns_done]) (use k in \<open>simp_all add: wq_act_def\<close>)
      then have "call_returns (Delayed_timer w tks) ?s3 r s'" by (rule call_returns_step [rotated]) (use k(1) in \<open>simp_all add: wq_act_def Let_def\<close>)
      then show ?thesis by (rule call_returns_step [rotated]) (use False in \<open>simp_all add: wq_act_def\<close>)
    qed
    then show ?thesis by (rule call_returns_step [rotated]) (simp_all add: wq_act_def)
  qed
  have "call_returns (Submit_test q w tks) s1 r s'"
  proof (cases "wk_type (ws_wk s1 w) AND RT_WORK_TYPE_DELAYED \<noteq> 0")
    case False
    then have "call_returns (Submit (Some q) w) s1 r s'" using a by (simp add: submit_returns)
    then show ?thesis by (rule call_returns_step [rotated]) (use False in \<open>simp_all add: wq_act_def\<close>)
  next
    case True
    then have d: "workqueue_submit_delayed_work q w tks s1 = Some (r, s')" using a by simp
    have "call_returns (Delayed_other q w tks) s1 r s'"
    proof (cases "wk_workqueue (ws_wk s1 w) \<noteq> None \<and> wk_workqueue (ws_wk s1 w) \<noteq> Some q")
      case True
      then have "r = - RT_EINVAL" "s' = s1" using d by (simp_all add: workqueue_submit_delayed_work_def)
      then show ?thesis using True by (intro call_returns_step [OF _ call_returns_done]) (simp_all add: wq_act_def)
    next
      case no: False
      have "call_returns (Delayed_same q w tks) s1 r s'"
      proof (cases "wk_workqueue (ws_wk s1 w) = Some q")
        case True
        obtain ret s2 where c: "workqueue_cancel_delayed_work w s1 = Some (ret, s2)"
          using d True by (cases "workqueue_cancel_delayed_work w s1") (auto simp: workqueue_submit_delayed_work_def)
        have "call_returns (cancel_return (By_submit q tks) w ret) s2 r s'"
          using d True c att [of s2] call_returns_done by (auto simp: workqueue_submit_delayed_work_def Let_def split: if_splits)
        then have "call_returns (Cancel_delayed w (By_submit q tks)) s1 r s'" by (rule cancel_delayed_returns [OF c])
        then show ?thesis by (rule call_returns_step [rotated]) (use True in \<open>simp_all add: wq_act_def\<close>)
      next
        case False
        then have "call_returns (Delayed_attach q w tks) s1 r s'"
          using att [of s1] d no by (auto simp: workqueue_submit_delayed_work_def Let_def split: if_splits)
        then show ?thesis by (rule call_returns_step [rotated]) (use False in \<open>simp_all add: wq_act_def\<close>)
      qed
      then show ?thesis by (rule call_returns_step [rotated]) (use no in \<open>auto simp: wq_act_def\<close>)
    qed
    then show ?thesis by (rule call_returns_step [rotated]) (use True in \<open>simp_all add: wq_act_def\<close>)
  qed
  then show ?thesis by (rule call_returns_step [rotated]) (simp_all add: wq_act_def s1_def)
qed

lemma cancel_work_alone:
  assumes "rt_workqueue_cancel_work q w s = Some (r, s')" shows "call_returns (Cancel q w) s r s'"
proof (cases "wk_type (ws_wk s w) AND RT_WORK_TYPE_DELAYED \<noteq> 0")
  case True
  then have "workqueue_cancel_delayed_work w s = Some (r, s')" using assms by (simp add: rt_workqueue_cancel_work_def)
  then have "call_returns (Cancel_delayed w By_cancel) s r s'" by (rule cancel_delayed_returns) (simp add: call_returns_done)
  then show ?thesis by (rule call_returns_step [rotated]) (use True in \<open>simp_all add: wq_act_def\<close>)
next
  case False
  then have "workqueue_cancel_work q w s = (r, s')" using assms by (simp add: rt_workqueue_cancel_work_def)
  then have "call_returns (Cancel_plain q w) s r s'" by (intro call_returns_step [OF _ call_returns_done]) (simp_all add: wq_act_def)
  then show ?thesis by (rule call_returns_step [rotated]) (use False in \<open>simp_all add: wq_act_def\<close>)
qed

section \<open>A timer that expires during a cancellation\<close>

text \<open>When the timer of a delayed item expires after \<^verbatim>\<open>_workqueue_cancel_delayed_work\<close> has tested the pending flag, the callback queues
  the item, and the cancellation then clears its flag and its queue and returns \<^verbatim>\<open>RT_EOK\<close>: the item is cancelled, and queued.\<close>

lemma cancel_delayed_race:
  assumes "wy_pc y 1 = Cancel_pending w By_cancel" "wy_pc y 2 = Done x" "wk_workqueue (ws_wk (wy_state y) w) = Some q"
    and "\<not> work_pending (wy_state y) w" "wq_work_current (ws_wq (wy_state y) q) \<noteq> Some w" "work_timer_off w (wy_state y) = Some s1"
  shows "\<exists>y'. wq_moves [Act 1, Begin 2 (Timeout w), Act 2, Act 2, Act 2, Act 1, Act 1] y = Some y' \<and> wy_pc y' 1 = Done RT_EOK
    \<and> w \<in> set (wq_work_list (ws_wq (wy_state y') q)) \<and> \<not> work_pending (wy_state y') w"
proof -
  obtain k where s1: "s1 = work_flag_clear RT_WORK_STATE_SUBMITTING w ((wy_state y)\<lparr>ws_k := k\<rparr>)"
    using timer_off_form [OF assms(6)] by blast
  have m: "(- 3 :: u16) = NOT 2" "(- 2 :: u16) = NOT 1" by simp_all
  have bits: "(f AND - 3) AND 2 = 0" "(f AND - 3) AND 1 = f AND 1" "(f AND - 3 OR 1) AND 2 = 0" "((f AND - 3 OR 1) AND - 2) AND 1 = 0" for f :: u16
    unfolding m by (rule bit_word_eqI, auto simp: bit_simps bit_1_iff)+
  have np: "wk_flags (ws_wk (wy_state y) w) AND 1 = 0" using assms(4) by (simp add: work_pending_def)
  show ?thesis
    using assms np by (simp add: wq_act_def s1 submit_section_def work_pending_def bits del: minus_numeral_eq_not_sub_one)
qed

section \<open>A thread that suspends itself\<close>

lemma suspend_self_runs:
  assumes live: "kernel_live k" and mb: "may_block t k"
  shows "\<exists>r k1 k2. rt_thread_suspend t k = Some (r, k1) \<and> rt_schedule k1 = Some k2 \<and> thread_state k2 t = RT_THREAD_SUSPEND"
proof -
  obtain v where st: "thread_state k t = RT_THREAD_READY" and v: "v \<noteq> t" "thread_state k v = RT_THREAD_READY"
    using mb by (auto simp: may_block_def)
  obtain k1 where k1: "rt_thread_suspend t k = Some (RT_EOK, k1)" by (rule suspend_succeeds [OF live st]) blast
  note S = rt_thread_suspend_wf [OF liveD(4) [OF live] st k1] and I = suspend_inv [OF liveD(1) [OF live] k1]
  have "kernel_live k1" using live_step [OF live I(1) S(6) S(5)] st by simp
  moreover have "thread_state k1 v = RT_THREAD_READY" using I(4) [OF v(1)] v(2) by simp
  ultimately obtain k2 where "rt_schedule k1 = Some k2" "k_thr k2 = k_thr k1" by (rule live_schedule) blast
  then show ?thesis using k1 I(6) [OF st] by (auto simp: thread_state_def)
qed

text \<open>Submitting an item to a queue whose thread is suspended and less urgent than a ready thread, step by step.\<close>

lemma submit_resumes:
  assumes "kernel_live (ws_k s)" "scheduler_lock_nest (ws_k s) = 0" and u: "u = wq_work_thread (ws_wq s q)"
    and st: "thread_state (ws_k s) u = RT_THREAD_SUSPEND" "thread_state (ws_k s) v = RT_THREAD_READY"
      "th_current_priority (k_thr (ws_k s) v) < th_current_priority (k_thr (ws_k s) u)"
  obtains r k1 k2 where "rt_thread_resume u (ws_k s) = Some (r, k1)" "rt_schedule k1 = Some k2"
    "thread_state k2 u = RT_THREAD_READY" "current_thread k2 \<noteq> Some u"
proof -
  obtain r k1 k2 where R: "rt_thread_resume u (ws_k s) = Some (r, k1)" "rt_schedule k1 = Some k2" "thread_frame {u} (ws_k s) k2"
      "k_thr k2 u = set_stat RT_THREAD_READY (k_thr (ws_k s) u)" "runs_highest k2"
    using resume_or_not [OF assms(1), of u] st(1) assms(2) by metis
  have "v \<noteq> u" using st by auto
  then have v: "k_thr k2 v = k_thr (ws_k s) v" using R(3) by (simp add: thread_frame_def)
  have "thread_state k2 v = RT_THREAD_READY" "th_current_priority (k_thr k2 v) < th_current_priority (k_thr k2 u)"
    using st R(4) v by (simp_all add: thread_state_def set_stat_def)
  then have "current_thread k2 \<noteq> Some u" using R(5) by (fastforce simp: runs_highest_def)
  moreover have "thread_state k2 u = RT_THREAD_READY" using R(4) by (simp add: thread_state_def)
  ultimately show thesis using that R(1,2) by blast
qed

text \<open>A kernel in which thread 3 of the sample system runs: thread 2 waits, and thread 3 is resumed.\<close>

lemma sample_runs_3: "\<exists>k. kernel_live k \<and> may_block 3 k"
proof -
  have mb: "may_block 2 sample_kernel" unfolding may_block_def by (auto simp: sample_kernel_state intro!: exI [of _ 1])
  obtain k1 where W: "waits (Sem_q 0) 2 0 (- 1) sample_kernel k1"
    by (rule block_succeeds [OF sample_kernel_live mb, of "Sem_q 0" 0 "- 1"]) simp_all
  have live1: "kernel_live k1" and fr1: "thread_frame {2} sample_kernel k1" and t2: "k_thr k1 2 = set_stat RT_THREAD_SUSPEND (k_thr sample_kernel 2)"
    using W by (simp_all add: waits_def)
  have o1: "k_thr k1 t = k_thr sample_kernel t" if "t \<noteq> 2" for t using fr1 that by (simp add: thread_frame_def)
  have n1: "scheduler_lock_nest k1 = 0" "interrupt_nest k1 = 0"
    using fr1 by (simp_all add: thread_frame_def)
  have "thread_state k1 3 = RT_THREAD_SUSPEND" using o1 sample_kernel_state [of 3] by (simp add: thread_state_def)
  then obtain k where k: "kernel_live k" "thread_frame {3} k1 k" "k_thr k 3 = set_stat RT_THREAD_READY (k_thr k1 3)" "runs_highest k"
    using resume_or_not [OF live1, of 3] n1(1) by metis
  have thr: "k_thr k t = (if t = 3 then set_stat RT_THREAD_READY (k_thr sample_kernel 3) else if t = 2 then set_stat RT_THREAD_SUSPEND (k_thr sample_kernel 2)
      else k_thr sample_kernel t)" for t
    using k(2,3) t2 o1 by (simp add: thread_frame_def)
  have st: "thread_state k t = (if t = 1 \<or> t = 3 then RT_THREAD_READY else if t = 2 then RT_THREAD_SUSPEND else 0)" for t
    using sample_kernel_state [of t] by (auto simp: thread_state_def thr)
  have "th_current_priority (k_thr k 3) < th_current_priority (k_thr k 1)" by (simp add: thr set_stat_def sample_kernel_thr)
  moreover obtain t where t: "current_thread k = Some t" "thread_state k t = RT_THREAD_READY" "th_current_priority (k_thr k t) \<le> th_current_priority (k_thr k 3)"
    using k(4) st [of 3] by (auto simp: runs_highest_def)
  then have "t = 1 \<or> t = 3" using st [of t] by (auto split: if_splits)
  ultimately have "current_thread k = Some 3" using t by auto
  moreover have "interrupt_nest k = 0" using k(2) n1(2) by (simp add: thread_frame_def)
  moreover have "\<exists>v. v \<noteq> 3 \<and> thread_state k v = RT_THREAD_READY" using st [of 1] by (intro exI [of _ 1]) simp
  ultimately show ?thesis using k(1) st [of 3] by (auto simp: may_block_def)
qed

section \<open>Properties\<close>

text \<open>
  C18. Work items under every interleaving of the calls of \<^verbatim>\<open>rt_workqueue_submit_work\<close>, \<^verbatim>\<open>rt_workqueue_dowork\<close>,
  \<^verbatim>\<open>rt_workqueue_critical_work\<close>, \<^verbatim>\<open>rt_workqueue_cancel_work\<close> and \<^verbatim>\<open>rt_workqueue_cancel_work_sync\<close>, of the rounds of the threads of the queues and
  of the callbacks of the timers, each split where it enables interrupts or tests a field with interrupts enabled, with any changes of the
  kernel in between: every item is queued at most once, in one queue, and never in the queue that is running it. (Not among the
  calls is \<^verbatim>\<open>rt_workqueue_cancel_all_work\<close>, which changes the list with interrupts enabled.) The pending flag of an item tells exactly whether
  it is queued, as long as there is no step of \<^verbatim>\<open>rt_workqueue_critical_work\<close> or \<^verbatim>\<open>rt_workqueue_cancel_work_sync\<close> and
  no \<^verbatim>\<open>_workqueue_cancel_delayed_work\<close> detaches an item that has been queued since it tested the flag.
\<close>

theorem rt_workqueue_run_once:
  assumes "wq_moves ms y = Some y'" and "wq_once (wy_state y)"
  shows "wq_once (wy_state y') \<and> (exact_moves ms y \<and> wq_exact (wy_state y) \<longrightarrow> wq_exact (wy_state y'))"
  using wq_moves_keep [OF assms(1)] assms(2) by (simp add: wq_step_def)

theorem rt_workqueue_run_once_witness:
  "\<exists>y'. wq_moves [Begin 1 (Submit (Some 500) 7), Act 1, Begin 2 (Submit_type 500 7 0), Act 2, Act 2, Act 2, Act 0, Begin 2 (Cancel 500 7), Act 2, Act 2]
      sample_wq_system = Some y'
     \<and> wq_once (wy_state y') \<and> wq_exact (wy_state y') \<and> wy_pc y' 0 = Thread_work 500 7 \<and> wy_pc y' 1 = Resume 500 \<and> wy_pc y' 2 = Done (- RT_EBUSY)"
proof -
  let ?ms = "[Begin 1 (Submit (Some 500) 7), Act 1, Begin 2 (Submit_type 500 7 0), Act 2, Act 2, Act 2, Act 0, Begin 2 (Cancel 500 7), Act 2, Act 2]"
  have "\<exists>y'. wq_moves ?ms sample_wq_system = Some y' \<and> exact_moves ?ms sample_wq_system
      \<and> wy_pc y' 0 = Thread_work 500 7 \<and> wy_pc y' 1 = Resume 500 \<and> wy_pc y' 2 = Done (- RT_EBUSY)"
    by (simp add: sample_wq_system_def wq_act_def submit_section_def work_pending_def sample_wq_def wq_thread_take_def Let_def workqueue_cancel_work_def)
  then obtain y' where y': "wq_moves ?ms sample_wq_system = Some y'" "exact_moves ?ms sample_wq_system"
      "wy_pc y' 0 = Thread_work 500 7" "wy_pc y' 1 = Resume 500" "wy_pc y' 2 = Done (- RT_EBUSY)" by blast
  have "wq_once (wy_state sample_wq_system)" "wq_exact (wy_state sample_wq_system)"
    by (simp_all add: wq_once_def wq_exact_def work_pending_def sample_wq_def sample_wq_system_def)
  then show ?thesis using rt_workqueue_run_once [OF y'(1)] y' by blast
qed

text \<open>
  C23. The thread of a queue that finds its list empty suspends itself, and after that goes on with taking an item: it does not look at
  the list again. While it is suspended, a running thread that is more urgent submits an item, which resumes the thread of the queue, and
  cancels it at once. Both calls return \<^verbatim>\<open>RT_EOK\<close>, the thread of the queue is ready and has not run, the list is empty, and its
  next step reads the head of the list as a work item (in the model it has no result).
\<close>

theorem rt_workqueue_cancel_race:
  assumes "wy_pc y 0 = Thread_loop q" and "wy_pc y 1 = Done x" and "s = wy_state y" and "u = wq_work_thread (ws_wq s q)"
    and "kernel_live (ws_k s)" and "may_block u (ws_k s)" and "wq_work_list (ws_wq s q) = []" and "wq_work_current (ws_wq s q) = None"
    and "\<not> work_pending s w" and "wk_type (ws_wk s w) AND RT_WORK_TYPE_DELAYED = 0"
  shows "\<exists>y1. wq_moves [Act 0, Act 0, Act 0] y = Some y1 \<and> wy_pc y1 0 = Thread_take q \<and> thread_state (ws_k (wy_state y1)) u = RT_THREAD_SUSPEND
    \<and> (\<forall>k v. kernel_live k \<and> scheduler_lock_nest k = 0 \<and> thread_state k u = RT_THREAD_SUSPEND
         \<and> current_thread k = Some v \<and> thread_state k v = RT_THREAD_READY \<and> th_current_priority (k_thr k v) < th_current_priority (k_thr k u) \<longrightarrow>
       (\<exists>y2 y3. wq_moves [Other k, Begin 1 (Submit_type q w 0), Act 1, Act 1, Act 1, Act 1, Act 1] y1 = Some y2 \<and> wy_pc y2 1 = Done RT_EOK
         \<and> wq_work_list (ws_wq (wy_state y2) q) = [w] \<and> work_pending (wy_state y2) w
         \<and> thread_state (ws_k (wy_state y2)) u = RT_THREAD_READY \<and> current_thread (ws_k (wy_state y2)) \<noteq> Some u
         \<and> wq_moves [Begin 1 (Cancel q w), Act 1, Act 1] y2 = Some y3 \<and> wy_pc y3 1 = Done RT_EOK \<and> ws_k (wy_state y3) = ws_k (wy_state y2)
         \<and> wq_work_list (ws_wq (wy_state y3) q) = [] \<and> wy_pc y3 0 = Thread_take q \<and> wq_moves [Act 0] y3 = None))"
proof -
  have cur: "rt_thread_self (ws_k s) = Some u" using assms(6) by (simp add: may_block_def rt_thread_self_def)
  obtain r k1 k2 where k: "rt_thread_suspend u (ws_k s) = Some (r, k1)" "rt_schedule k1 = Some k2" "thread_state k2 u = RT_THREAD_SUSPEND"
    using suspend_self_runs [OF assms(5,6)] by blast
  let ?y1 = "y\<lparr>wy_state := s\<lparr>ws_k := k2\<rparr>, wy_pc := (wy_pc y)(0 := Thread_take q)\<rparr>"
  have y1: "wq_moves [Act 0, Act 0, Act 0] y = Some ?y1" using assms(1,3,7) cur k by (cases s) (simp add: wq_act_def)
  have "\<exists>y2 y3. wq_moves [Other k, Begin 1 (Submit_type q w 0), Act 1, Act 1, Act 1, Act 1, Act 1] ?y1 = Some y2 \<and> wy_pc y2 1 = Done RT_EOK
         \<and> wq_work_list (ws_wq (wy_state y2) q) = [w] \<and> work_pending (wy_state y2) w
         \<and> thread_state (ws_k (wy_state y2)) u = RT_THREAD_READY \<and> current_thread (ws_k (wy_state y2)) \<noteq> Some u
         \<and> wq_moves [Begin 1 (Cancel q w), Act 1, Act 1] y2 = Some y3 \<and> wy_pc y3 1 = Done RT_EOK \<and> ws_k (wy_state y3) = ws_k (wy_state y2)
         \<and> wq_work_list (ws_wq (wy_state y3) q) = [] \<and> wy_pc y3 0 = Thread_take q \<and> wq_moves [Act 0] y3 = None"
    if h: "kernel_live k" "scheduler_lock_nest k = 0" "thread_state k u = RT_THREAD_SUSPEND" "thread_state k v = RT_THREAD_READY"
      "th_current_priority (k_thr k v) < th_current_priority (k_thr k u)" for k v
  proof -
    obtain r' k3 k4 where R: "rt_thread_resume u k = Some (r', k3)" "rt_schedule k3 = Some k4" "thread_state k4 u = RT_THREAD_READY" "current_thread k4 \<noteq> Some u"
      using submit_resumes [of "s\<lparr>ws_k := k\<rparr>" u q v] h assms(4) by auto
    let ?q = "work_flag_set RT_WORK_STATE_PENDING w (work_append q w (work_unlink w (s\<lparr>ws_k := k\<rparr>)))"
    let ?y2 = "y\<lparr>wy_state := ?q\<lparr>ws_k := k4\<rparr>, wy_pc := (wy_pc y)(0 := Thread_take q, 1 := Done RT_EOK)\<rparr>"
    let ?y3 = "?y2\<lparr>wy_state := work_flag_clear RT_WORK_STATE_PENDING w (work_unlink w (?q\<lparr>ws_k := k4\<rparr>))\<rparr>"
    have "wq_moves [Other k, Begin 1 (Submit_type q w 0), Act 1, Act 1, Act 1, Act 1, Act 1] ?y1 = Some ?y2"
      using assms(2,4,8,9,10) R(1,2) by (simp add: wq_act_def submit_section_def work_pending_def fun_upd_twist)
    moreover have "wq_moves [Begin 1 (Cancel q w), Act 1, Act 1] ?y2 = Some ?y3"
      using assms(8,10) by (simp add: wq_act_def workqueue_cancel_work_def)
    moreover have "wq_moves [Act 0] ?y3 = None" using assms(7) by (simp add: wq_act_def wq_thread_take_def)
    moreover have "work_pending (?q\<lparr>ws_k := k4\<rparr>) w" by simp
    ultimately show ?thesis using R(3,4) assms(7) by (intro exI [of _ ?y2] exI [of _ ?y3]) simp
  qed
  note race = this
  show ?thesis
    by (rule exI [of _ ?y1], intro conjI allI impI, rule y1, simp, simp add: k(3), elim conjE, rule race, assumption+)
qed

theorem rt_workqueue_cancel_race_witness:
  "\<exists>y y1 y2 y3. wy_pc y 0 = Thread_loop 500 \<and> wq_moves [Act 0, Act 0, Act 0] y = Some y1
    \<and> wq_moves [Other sample_kernel, Begin 1 (Submit_type 500 7 0), Act 1, Act 1, Act 1, Act 1, Act 1] y1 = Some y2
    \<and> wq_moves [Begin 1 (Cancel 500 7), Act 1, Act 1] y2 = Some y3 \<and> wq_moves [Act 0] y3 = None"
proof -
  obtain k where k: "kernel_live k" "may_block 3 k" using sample_runs_3 by blast
  let ?s = "sample_wq\<lparr>ws_k := k\<rparr>"
  let ?y = "\<lparr>wy_state = ?s, wy_pc = (\<lambda>i. if i = 0 then Thread_loop 500 else Done 0)\<rparr>"
  have s: "ws_k ?s = k" "wq_work_thread (ws_wq ?s 500) = 3" "wq_work_list (ws_wq ?s 500) = []" "wq_work_current (ws_wq ?s 500) = None" "\<not> work_pending ?s 7"
    "wk_type (ws_wk ?s 7) AND RT_WORK_TYPE_DELAYED = 0" by (simp_all add: sample_wq_def work_pending_def)
  have h: "kernel_live sample_kernel \<and> scheduler_lock_nest sample_kernel = 0 \<and> thread_state sample_kernel 3 = RT_THREAD_SUSPEND
      \<and> current_thread sample_kernel = Some 2 \<and> thread_state sample_kernel 2 = RT_THREAD_READY
      \<and> th_current_priority (k_thr sample_kernel 2) < th_current_priority (k_thr sample_kernel 3)"
    using sample_kernel_live by (simp add: sample_kernel_state sample_kernel_thr)
  have "wy_pc ?y 0 = Thread_loop 500" "wy_pc ?y 1 = Done 0" "?s = wy_state ?y" by simp_all
  from rt_workqueue_cancel_race [OF this s(2) [symmetric], unfolded s(1), OF k s(3-6)] h show ?thesis
    using \<open>wy_pc ?y 0 = Thread_loop 500\<close> by blast
qed

end
