(* ===== verification/WaitQueue.thy ===== *)
theory WaitQueue
  imports Queue_Spec
begin

text \<open>
  The wait queue (\<^verbatim>\<open>components/drivers/src/waitqueue.c\<close>) that drivers use for polling: nodes with a thread and a function
  that decides whether an event is for them. The thread of a node is suspended on no list of the kernel; the node stays
  linked until its thread runs again or a wake-up takes it. Queues and nodes are named by their addresses; the functions
  of the nodes other than \<^verbatim>\<open>__wqueue_default_wake\<close> (number 0) are a parameter.
\<close>

section \<open>Definitions\<close>

abbreviation (input) RT_WQ_FLAG_CLEAN :: u32 where "RT_WQ_FLAG_CLEAN \<equiv> 0"
abbreviation (input) RT_WQ_FLAG_WAKEUP :: u32 where "RT_WQ_FLAG_WAKEUP \<equiv> 1"

record rt_wqueue =
  wqueue_flag :: u32
  waiting_list :: "nat list"

record rt_wqueue_node =
  polling_thread :: tid
  wn_wakeup :: nat
  wn_key :: u32

record wqueue_state =
  vs_k :: kstate
  vs_queue :: "nat \<Rightarrow> rt_wqueue"
  vs_node :: "nat \<Rightarrow> rt_wqueue_node"

type_synonym wakeup_fun = "nat \<Rightarrow> nat \<Rightarrow> nat \<Rightarrow> int"

definition wqueue_upd :: "nat \<Rightarrow> (rt_wqueue \<Rightarrow> rt_wqueue) \<Rightarrow> wqueue_state \<Rightarrow> wqueue_state" where
  "wqueue_upd q f s = s\<lparr>vs_queue := (vs_queue s)(q := f (vs_queue s q))\<rparr>"

definition wqueue_set_flag :: "nat \<Rightarrow> u32 \<Rightarrow> wqueue_state \<Rightarrow> wqueue_state" where
  "wqueue_set_flag q v s = wqueue_upd q (\<lambda>x. x\<lparr>wqueue_flag := v\<rparr>) s"

definition rt_wqueue_init :: "nat \<Rightarrow> wqueue_state \<Rightarrow> wqueue_state" where
  "rt_wqueue_init q s = wqueue_upd q (\<lambda>_. \<lparr>wqueue_flag = RT_WQ_FLAG_CLEAN, waiting_list = []\<rparr>) s"

definition rt_wqueue_add :: "nat \<Rightarrow> nat \<Rightarrow> wqueue_state \<Rightarrow> wqueue_state" where
  "rt_wqueue_add q n s = wqueue_upd q (\<lambda>x. x\<lparr>waiting_list := waiting_list x @ [n]\<rparr>) s"

text \<open>Unlinking a node takes it from whatever queue holds it.\<close>

definition rt_wqueue_remove :: "nat \<Rightarrow> wqueue_state \<Rightarrow> wqueue_state" where
  "rt_wqueue_remove n s = s\<lparr>vs_queue := (\<lambda>q. (vs_queue s q)\<lparr>waiting_list := filter (\<lambda>x. x \<noteq> n) (waiting_list (vs_queue s q))\<rparr>)\<rparr>"

definition wqueue_default_wake :: "nat \<Rightarrow> nat \<Rightarrow> int" where
  "wqueue_default_wake n key = 0"

definition node_wakeup :: "wakeup_fun \<Rightarrow> nat \<Rightarrow> nat \<Rightarrow> wqueue_state \<Rightarrow> int" where
  "node_wakeup wake n key s = (let f = wn_wakeup (vs_node s n) in if f = 0 then wqueue_default_wake n key else wake f n key)"

text \<open>The loop over the nodes: the first one whose function returns 0 is woken and unlinked. The result says
  whether there was one.\<close>

fun wakeup_loop :: "wakeup_fun \<Rightarrow> nat \<Rightarrow> nat list \<Rightarrow> wqueue_state \<Rightarrow> (bool \<times> wqueue_state) option" where
  "wakeup_loop wake key [] s = Some (False, s)"
| "wakeup_loop wake key (n # ns) s =
     (if node_wakeup wake n key s = 0 then do {
        (_, k1) \<leftarrow> rt_thread_resume (polling_thread (vs_node s n)) (vs_k s);
        Some (True, rt_wqueue_remove n (s\<lparr>vs_k := k1\<rparr>))
      }
      else wakeup_loop wake key ns s)"

definition rt_wqueue_wakeup :: "wakeup_fun \<Rightarrow> nat \<Rightarrow> nat \<Rightarrow> wqueue_state \<Rightarrow> wqueue_state option" where
  "rt_wqueue_wakeup wake q key s = do {
     let s1 = wqueue_set_flag q RT_WQ_FLAG_WAKEUP s;
     (need_schedule, s2) \<leftarrow> wakeup_loop wake key (waiting_list (vs_queue s1 q)) s1;
     if need_schedule then do { k \<leftarrow> rt_schedule (vs_k s2); Some (s2\<lparr>vs_k := k\<rparr>) }
     else Some s2
   }"

text \<open>A wait returns, or goes on with \<open>rt_wqueue_wait_cont\<close> when its thread runs again. The node \<open>n\<close> is a local
  variable of the call. The number of ticks is a signed integer.\<close>

datatype wqueue_result = Wqueue_return int | Wqueue_wait

definition wqueue_park :: "tid \<Rightarrow> int \<Rightarrow> kstate \<Rightarrow> kstate option" where
  "wqueue_park t tick k = do {
     (_, k1) \<leftarrow> rt_thread_suspend t k;
     k2 \<leftarrow> (if tick \<noteq> RT_WAITING_FOREVER then do {
              (_, k') \<leftarrow> rt_timer_control (K_thread_timer t) (RT_TIMER_CTRL_SET_TIME (word_of_int tick)) k1;
              rt_timer_start (K_thread_timer t) k'
            }
            else Some k1);
     rt_schedule k2
   }"

definition rt_wqueue_wait_cont :: "nat \<Rightarrow> nat \<Rightarrow> wqueue_state \<Rightarrow> int \<times> wqueue_state" where
  "rt_wqueue_wait_cont q n s = (0, rt_wqueue_remove n (wqueue_set_flag q 0 s))"

definition rt_wqueue_wait :: "nat \<Rightarrow> nat \<Rightarrow> bool \<Rightarrow> int \<Rightarrow> wqueue_state \<Rightarrow> (wqueue_result \<times> wqueue_state) option" where
  "rt_wqueue_wait q n condition msec s = do {
     t \<leftarrow> rt_thread_self (vs_k s);
     not_in_interrupt (vs_k s);
     let tick = sint (rt_tick_from_millisecond msec);
     if condition \<or> tick = 0 then Some (Wqueue_return 0, s)
     else do {
       let s1 = s\<lparr>vs_node := (vs_node s)(n := \<lparr>polling_thread = t, wn_wakeup = 0, wn_key = 0\<rparr>)\<rparr>;
       if wqueue_flag (vs_queue s1 q) = RT_WQ_FLAG_WAKEUP then do {
         let (r, s2) = rt_wqueue_wait_cont q n s1;
         Some (Wqueue_return r, s2)
       }
       else do {
         let s2 = rt_wqueue_add q n s1;
         k \<leftarrow> wqueue_park t tick (vs_k s2);
         Some (Wqueue_wait, s2\<lparr>vs_k := k\<rparr>)
       }
     }
   }"

section \<open>Reading back updates\<close>

lemma wqueue_simps [simp]:
  "vs_k (wqueue_upd q f s) = vs_k s" "vs_node (wqueue_upd q f s) = vs_node s" "vs_queue (wqueue_upd q f s) = (vs_queue s)(q := f (vs_queue s q))"
  "vs_k (rt_wqueue_remove n s) = vs_k s" "vs_node (rt_wqueue_remove n s) = vs_node s"
  "wqueue_flag (vs_queue (rt_wqueue_remove n s) q) = wqueue_flag (vs_queue s q)"
  "waiting_list (vs_queue (rt_wqueue_remove n s) q) = filter (\<lambda>x. x \<noteq> n) (waiting_list (vs_queue s q))"
  by (simp_all add: wqueue_upd_def rt_wqueue_remove_def)

lemma node_wakeup_cong: "vs_node s' = vs_node s \<Longrightarrow> node_wakeup wake n key s' = node_wakeup wake n key s"
  by (simp add: node_wakeup_def)

section \<open>Waiting\<close>

lemma wqueue_park_succeeds:
  assumes live: "kernel_live k" and t: "may_block t k" and tick: "tick = - 1 \<or> 0 < tick" "tick < 0x7fffffff"
  shows "\<exists>k'. wqueue_park t tick k = Some k' \<and> kernel_live k' \<and> thread_frame {t} k k' \<and> thread_state k' t = RT_THREAD_SUSPEND
    \<and> (0 < tick \<longrightarrow> K_thread_timer t \<in> set (timer_list k') \<and> tm_timeout_tick (k_tmr k' (K_thread_timer t)) = rt_tick k + word_of_int tick)
    \<and> (scheduler_lock_nest k = 0 \<longrightarrow> runs_highest k')"
proof -
  obtain s where st: "thread_state k t = RT_THREAD_READY" and s: "s \<noteq> t" "thread_state k s = RT_THREAD_READY"
    using t unfolding may_block_def by blast
  obtain k1 where k1: "rt_thread_suspend t k = Some (RT_EOK, k1)" by (rule suspend_succeeds [OF live st])
  note S = rt_thread_suspend_wf [OF liveD(4) [OF live] st k1]
  have live1: "kernel_live k1" using live_step [OF live suspend_inv(1) [OF liveD(1) [OF live] k1] S(6,5)] st by simp
  have s1: "thread_state k1 s = RT_THREAD_READY" using s S(6) by (simp add: thread_frame_def thread_state_def)
  have ty: "rt_object_get_type k1 (K_thread_timer t) = RT_Object_Class_Timer" using live_types(2) [OF live1] S(3) by blast
  have same: "scheduler_lock_nest k1 = scheduler_lock_nest k" "rt_tick k1 = rt_tick k" using S(6) by (simp_all add: thread_frame_def)
  obtain k2 k' where k2: "if tick > 0 then rt_timer_start (K_thread_timer t)
        (tmr_upd (K_thread_timer t) (\<lambda>tm. tm\<lparr>tm_init_tick := word_of_int tick\<rparr>) k1) = Some k2 else k2 = k1"
    and k': "rt_schedule k2 = Some k'" and P: "kernel_live k'" "thread_frame {t} k1 k'" "k_thr k' = k_thr k1"
      "0 < tick \<Longrightarrow> K_thread_timer t \<in> set (timer_list k')
         \<and> tm_timeout_tick (k_tmr k' (K_thread_timer t)) = rt_tick k1 + word_of_int tick"
      "scheduler_lock_nest k1 = 0 \<Longrightarrow> runs_highest k'"
    by (rule park_succeeds [OF live1 S(3) tick(2) s1]) blast
  have "wqueue_park t tick k = Some k'"
    using k1 k2 k' ty tick(1) by (auto simp: wqueue_park_def rt_timer_control_def)
  moreover have "thread_state k' t = RT_THREAD_SUSPEND" using S(3) P(3) by (simp add: thread_state_def)
  moreover note P(1) thread_frame_trans1 [OF S(6) P(2)]
  ultimately show ?thesis using P(4,5) same by (intro exI [of _ k']) simp
qed

text \<open>Waiting without a pending wake-up suspends the caller behind the others; with one it returns at once and uses it up.\<close>

lemma rt_wqueue_wait_waits:
  assumes live: "kernel_live (vs_k s)" and t: "may_block t (vs_k s)"
    and tick: "tick = sint (rt_tick_from_millisecond msec)" "tick = - 1 \<or> 0 < tick" "tick < 0x7fffffff"
    and f: "wqueue_flag (vs_queue s q) \<noteq> RT_WQ_FLAG_WAKEUP"
  shows "\<exists>s'. rt_wqueue_wait q n False msec s = Some (Wqueue_wait, s') \<and> waiting_list (vs_queue s' q) = waiting_list (vs_queue s q) @ [n]
    \<and> polling_thread (vs_node s' n) = t \<and> kernel_live (vs_k s') \<and> thread_state (vs_k s') t = RT_THREAD_SUSPEND
    \<and> (scheduler_lock_nest (vs_k s) = 0 \<longrightarrow> runs_highest (vs_k s'))"
proof -
  obtain k' where "wqueue_park t tick (vs_k s) = Some k'" "kernel_live k'" "thread_state k' t = RT_THREAD_SUSPEND"
    "scheduler_lock_nest (vs_k s) = 0 \<longrightarrow> runs_highest k'"
    using wqueue_park_succeeds [OF live t tick(2,3)] by blast
  then show ?thesis
    using t tick(2) f
    by (auto simp: rt_wqueue_wait_def tick(1) [symmetric] Let_def rt_thread_self_def not_in_interrupt_def may_block_def rt_wqueue_add_def)
qed

lemma rt_wqueue_wait_woken:
  assumes "may_block t (vs_k s)" "wqueue_flag (vs_queue s q) = RT_WQ_FLAG_WAKEUP" "sint (rt_tick_from_millisecond msec) \<noteq> 0"
  shows "\<exists>s'. rt_wqueue_wait q n False msec s = Some (Wqueue_return 0, s') \<and> vs_k s' = vs_k s \<and> wqueue_flag (vs_queue s' q) = RT_WQ_FLAG_CLEAN"
  using assms by (auto simp: rt_wqueue_wait_def rt_wqueue_wait_cont_def wqueue_set_flag_def Let_def rt_thread_self_def not_in_interrupt_def may_block_def)

section \<open>Waking\<close>

lemma wakeup_loop_skip: "\<forall>n \<in> set ns. node_wakeup wake n key s \<noteq> 0 \<Longrightarrow> wakeup_loop wake key (ns @ ms) s = wakeup_loop wake key ms s"
  by (induction ns) simp_all

text \<open>The first node that accepts the event is unlinked and its thread made ready; a wake-up that no node accepts is kept in
  the flag of the queue.\<close>

lemma rt_wqueue_wakeup_first:
  assumes live: "kernel_live (vs_k s)" and l: "waiting_list (vs_queue s q) = xs @ n # ys" "n \<notin> set (xs @ ys)"
    and acc: "\<forall>x \<in> set xs. node_wakeup wake x key s \<noteq> 0" "node_wakeup wake n key s = 0"
    and t: "t = polling_thread (vs_node s n)" "thread_state (vs_k s) t = RT_THREAD_READY \<or> thread_state (vs_k s) t = RT_THREAD_SUSPEND"
  shows "\<exists>s'. rt_wqueue_wakeup wake q key s = Some s' \<and> waiting_list (vs_queue s' q) = xs @ ys \<and> wqueue_flag (vs_queue s' q) = RT_WQ_FLAG_WAKEUP
    \<and> vs_node s' = vs_node s \<and> kernel_live (vs_k s') \<and> thread_frame {t} (vs_k s) (vs_k s')
    \<and> thread_state (vs_k s') t = RT_THREAD_READY \<and> (scheduler_lock_nest (vs_k s) = 0 \<longrightarrow> runs_highest (vs_k s'))"
proof -
  let ?s = "wqueue_set_flag q RT_WQ_FLAG_WAKEUP s"
  have n: "vs_node ?s = vs_node s" "vs_k ?s = vs_k s" "waiting_list (vs_queue ?s q) = xs @ n # ys" using l(1) by (simp_all add: wqueue_set_flag_def)
  obtain r k1 k where R: "rt_thread_resume t (vs_k s) = Some (r, k1)" "rt_schedule k1 = Some k" "kernel_live k" "thread_frame {t} (vs_k s) k"
    "k_thr k t = set_stat RT_THREAD_READY (k_thr (vs_k s) t)" "scheduler_lock_nest (vs_k s) = 0 \<Longrightarrow> runs_highest k"
    by (rule resume_or_not [OF live t(2)]) blast
  have "wakeup_loop wake key (xs @ n # ys) ?s = Some (True, rt_wqueue_remove n (?s\<lparr>vs_k := k1\<rparr>))"
    using acc R(1) t(1) n by (subst wakeup_loop_skip) (simp_all add: node_wakeup_cong [OF n(1)])
  then have "rt_wqueue_wakeup wake q key s = Some ((rt_wqueue_remove n (?s\<lparr>vs_k := k1\<rparr>))\<lparr>vs_k := k\<rparr>)"
    using R(2) n(3) by (simp add: rt_wqueue_wakeup_def Let_def)
  moreover have "filter (\<lambda>x. x \<noteq> n) xs = xs" "filter (\<lambda>x. x \<noteq> n) ys = ys" using l(2) by (auto simp: filter_id_conv)
  ultimately show ?thesis using R(3-6) n l(1) by (simp add: wqueue_set_flag_def thread_state_def)
qed

lemma rt_wqueue_wakeup_none:
  assumes "\<forall>x \<in> set (waiting_list (vs_queue s q)). node_wakeup wake x key s \<noteq> 0"
  shows "rt_wqueue_wakeup wake q key s = Some (wqueue_set_flag q RT_WQ_FLAG_WAKEUP s)"
proof -
  let ?s = "wqueue_set_flag q RT_WQ_FLAG_WAKEUP s"
  have "\<forall>x \<in> set (waiting_list (vs_queue s q)). node_wakeup wake x key ?s \<noteq> 0"
    using assms by (simp add: node_wakeup_def wqueue_set_flag_def)
  from wakeup_loop_skip [OF this, of "[]"] have "wakeup_loop wake key (waiting_list (vs_queue s q)) ?s = Some (False, ?s)" by simp
  moreover have "waiting_list (vs_queue ?s q) = waiting_list (vs_queue s q)" by (simp add: wqueue_set_flag_def)
  ultimately show ?thesis by (simp add: rt_wqueue_wakeup_def Let_def)
qed

text \<open>A thread whose wait has timed out, but which has not run yet, still takes a wake-up: the thread that waits behind it
  stays suspended, and stays so when the first one clears the flag.\<close>

lemma rt_wqueue_wakeup_lost:
  assumes live: "kernel_live (vs_k s)" and l: "waiting_list (vs_queue s q) = [n, m]" "n \<noteq> m" and d: "wn_wakeup (vs_node s n) = 0"
    and t: "polling_thread (vs_node s n) = t" "thread_state (vs_k s) t = RT_THREAD_READY"
    and u: "polling_thread (vs_node s m) = u" "thread_state (vs_k s) u = RT_THREAD_SUSPEND"
  shows "\<exists>s1 s2. rt_wqueue_wakeup wake q key s = Some s1 \<and> rt_wqueue_wait_cont q n s1 = (0, s2)
    \<and> waiting_list (vs_queue s2 q) = [m] \<and> thread_state (vs_k s2) u = RT_THREAD_SUSPEND \<and> wqueue_flag (vs_queue s2 q) = RT_WQ_FLAG_CLEAN"
proof -
  have "node_wakeup wake n key s = 0" using d by (simp add: node_wakeup_def wqueue_default_wake_def)
  then obtain s1 where s1: "rt_wqueue_wakeup wake q key s = Some s1" "waiting_list (vs_queue s1 q) = [m]" "thread_frame {t} (vs_k s) (vs_k s1)"
    using rt_wqueue_wakeup_first [OF live, of q "[]" n "[m]" wake key t] l t by auto
  have "u \<noteq> t" using t u by auto
  then have "thread_state (vs_k s1) u = RT_THREAD_SUSPEND" using s1(3) u(2) by (simp add: thread_frame_def thread_state_def)
  then show ?thesis using s1 l(2) by (auto simp: rt_wqueue_wait_cont_def wqueue_set_flag_def)
qed

end
