(* ===== verification/Msh.thy ===== *)
theory Msh
  imports Device "HOL-Library.Sublist"
begin

text \<open>
  The command interpreter of the shell (\<^verbatim>\<open>components/finsh/msh.c\<close>): splitting a command line into arguments, looking a
  command up in the table of exported functions, calling it, and completing a command name.

  A command line is the array of bytes from the pointer \<^verbatim>\<open>cmd\<close> to the end of the array it lies in; pointers into it are
  positions, and an access behind its end gives \<open>None\<close>. The table is the list of its entries, names with their terminating zero.
  The exported functions are a parameter: they get the argument strings and act on a state of any type. What
  is printed is a result: the bytes that the calls of \<^verbatim>\<open>rt_kprintf\<close> hand to the console, each cut to the buffer of \<^verbatim>\<open>rt_kprintf\<close>.
\<close>

section \<open>Definitions: strings\<close>

abbreviation (input) FINSH_ARG_MAX :: nat where "FINSH_ARG_MAX \<equiv> 10"
abbreviation (input) quote :: u8 where "quote \<equiv> 34"
abbreviation (input) backslash :: u8 where "backslash \<equiv> 92"

definition is_blank :: "u8 \<Rightarrow> bool" where
  "is_blank c \<longleftrightarrow> c = 32 \<or> c = 9"

text \<open>The string at a position of an array; \<open>None\<close> when there is no zero up to the end of the array.\<close>

definition c_string :: "u8 list \<Rightarrow> nat \<Rightarrow> u8 list option" where
  "c_string xs p = (if 0 \<in> set (drop p xs) then Some (takeWhile (\<lambda>c. c \<noteq> 0) (drop p xs)) else None)"

text \<open>Whether \<^verbatim>\<open>strncmp\<close> of the C library returns zero.\<close>

fun strncmp_eq :: "u8 list \<Rightarrow> u8 list \<Rightarrow> nat \<Rightarrow> bool option" where
  "strncmp_eq xs ys 0 = Some True"
| "strncmp_eq (x # xs) (y # ys) (Suc n) =
     (if x \<noteq> y then Some False else if x = 0 then Some True else strncmp_eq xs ys n)"
| "strncmp_eq _ _ (Suc n) = None"

text \<open>The bytes that \<^verbatim>\<open>rt_strncpy\<close> stores.\<close>

definition strncpy_bytes :: "u8 list \<Rightarrow> nat \<Rightarrow> u8 list" where
  "strncpy_bytes src n = (let s = takeWhile (\<lambda>c. c \<noteq> 0) src in take n s @ replicate (n - length s) 0)"

text \<open>What one call of \<^verbatim>\<open>rt_kprintf\<close> hands to the console for a text: its buffer has 128 bytes, of which the text gets 126, and a
  longer text is cut to them and followed by the zero that ends it (lemma \<open>Device.rt_kprintf_output\<close>).\<close>

definition kprint :: "u8 list \<Rightarrow> u8 list" where
  "kprint t = (if length t \<le> 126 then t else take 126 t @ [0])"

section \<open>Definitions: splitting\<close>

function strip_blanks :: "u8 list \<Rightarrow> nat \<Rightarrow> nat \<Rightarrow> (u8 list \<times> nat) option" where
  "strip_blanks buf pos len =
     (case arr_get buf pos of
        None \<Rightarrow> None
      | Some c \<Rightarrow> if is_blank c \<and> pos < len then strip_blanks (buf[pos := 0]) (pos + 1) len else Some (buf, pos))"
  by pat_completeness auto

termination strip_blanks
  by (relation "measure (\<lambda>(buf, pos, len). len - pos)") auto

function skip_string :: "u8 list \<Rightarrow> nat \<Rightarrow> nat \<Rightarrow> nat option" where
  "skip_string buf pos len =
     (case arr_get buf pos of
        None \<Rightarrow> None
      | Some c \<Rightarrow>
          if c \<noteq> quote \<and> pos < len then
            if c = backslash then
              case arr_get buf (pos + 1) of
                None \<Rightarrow> None
              | Some d \<Rightarrow> if d = quote then skip_string buf (pos + 2) len else skip_string buf (pos + 1) len
            else skip_string buf (pos + 1) len
          else Some pos)"
  by pat_completeness auto

termination skip_string
  by (relation "measure (\<lambda>(buf, pos, len). len - pos)") auto

function skip_word :: "u8 list \<Rightarrow> nat \<Rightarrow> nat \<Rightarrow> nat option" where
  "skip_word buf pos len =
     (case arr_get buf pos of
        None \<Rightarrow> None
      | Some c \<Rightarrow> if \<not> is_blank c \<and> pos < len then skip_word buf (pos + 1) len else Some pos)"
  by pat_completeness auto

termination skip_word
  by (relation "measure (\<lambda>(buf, pos, len). len - pos)") auto

text \<open>The message about too many arguments prints the arguments found.\<close>

fun print_args :: "u8 list \<Rightarrow> nat list \<Rightarrow> u8 list option" where
  "print_args buf [] = Some []"
| "print_args buf (p # ps) = do { s \<leftarrow> c_string buf p; t \<leftarrow> print_args buf ps; Some (kprint (s @ [32]) @ t) }"

definition too_many :: "u8 list \<Rightarrow> nat list \<Rightarrow> u8 list option" where
  "too_many buf argv = do {
     t \<leftarrow> print_args buf argv;
     Some (kprint (c_text ''Too many args ! We only Use:'' @ [10]) @ t @ kprint [10])
   }"

text \<open>One argument: the buffer, where it starts, and where to go on, \<open>None\<close> when the line has ended inside of it.\<close>

definition split_arg :: "u8 list \<Rightarrow> nat \<Rightarrow> nat \<Rightarrow> (u8 list \<times> nat \<times> nat option) option" where
  "split_arg buf pos len = do {
     c \<leftarrow> arr_get buf pos;
     if c = quote then do {
       p \<leftarrow> skip_string buf (pos + 1) len;
       if p \<ge> len then Some (buf, pos + 1, None)
       else do { b \<leftarrow> arr_set buf p 0; Some (b, pos + 1, Some (p + 1)) }
     }
     else do {
       p \<leftarrow> skip_word buf pos len;
       Some (buf, pos, if p \<ge> len then None else Some p)
     }
   }"

partial_function (option) msh_split_loop ::
    "u8 list \<Rightarrow> nat \<Rightarrow> nat \<Rightarrow> nat list \<Rightarrow> (u8 list \<times> nat list \<times> u8 list) option" where
  "msh_split_loop buf pos len argv =
     (if pos < len then do {
        (b1, p1) \<leftarrow> strip_blanks buf pos len;
        if length argv \<ge> FINSH_ARG_MAX then do { out \<leftarrow> too_many b1 argv; Some (b1, argv, out) }
        else if p1 \<ge> len then Some (b1, argv, [])
        else do {
          (b2, a, next) \<leftarrow> split_arg b1 p1 len;
          case next of
            None \<Rightarrow> Some (b2, argv @ [a], [])
          | Some p2 \<Rightarrow> msh_split_loop b2 p2 len (argv @ [a])
        }
      }
      else Some (buf, argv, []))"

definition msh_split :: "u8 list \<Rightarrow> nat \<Rightarrow> (u8 list \<times> nat list \<times> u8 list) option" where
  "msh_split cmd len = msh_split_loop cmd 0 len []"

section \<open>Definitions: commands\<close>

record finsh_syscall =
  sc_name :: "u8 list"
  sc_desc :: "u8 list"
  sc_func :: nat

definition cmd_prefix :: "u8 list" where
  "cmd_prefix = c_text ''__cmd_'' @ [0]"

fun msh_get_cmd :: "finsh_syscall list \<Rightarrow> u8 list \<Rightarrow> nat \<Rightarrow> nat option option" where
  "msh_get_cmd [] cmd n = Some None"
| "msh_get_cmd (e # es) cmd n = do {
     b \<leftarrow> strncmp_eq (sc_name e) cmd_prefix 6;
     if \<not> b then msh_get_cmd es cmd n
     else do {
       m \<leftarrow> strncmp_eq (drop 6 (sc_name e)) cmd n;
       if \<not> m then msh_get_cmd es cmd n
       else do {
         z \<leftarrow> arr_get (sc_name e) (6 + n);
         if z = 0 then Some (Some (sc_func e)) else msh_get_cmd es cmd n
       }
     }
   }"

type_synonym 'w cmd_functions = "nat \<Rightarrow> u8 list list \<Rightarrow> 'w \<Rightarrow> int \<times> 'w"

fun c_strings :: "u8 list \<Rightarrow> nat list \<Rightarrow> u8 list list option" where
  "c_strings buf [] = Some []"
| "c_strings buf (p # ps) = do { s \<leftarrow> c_string buf p; t \<leftarrow> c_strings buf ps; Some (s # t) }"

text \<open>The result of \<^verbatim>\<open>_msh_exec_cmd\<close>: the value stored through \<open>retp\<close> when it returns 0, \<open>None\<close> when it returns an error.\<close>

definition msh_exec_cmd ::
    "'w cmd_functions \<Rightarrow> finsh_syscall list \<Rightarrow> u8 list \<Rightarrow> nat \<Rightarrow> 'w \<Rightarrow> (int option \<times> u8 list \<times> u8 list \<times> 'w) option" where
  "msh_exec_cmd run tbl cmd len w = do {
     cmd0_size \<leftarrow> skip_word cmd 0 len;
     if cmd0_size = 0 then Some (None, cmd, [], w)
     else do {
       func \<leftarrow> msh_get_cmd tbl cmd cmd0_size;
       case func of
         None \<Rightarrow> Some (None, cmd, [], w)
       | Some f \<Rightarrow> do {
           (buf, argv, out) \<leftarrow> msh_split cmd len;
           if argv = [] then Some (None, buf, out, w)
           else do {
             args \<leftarrow> c_strings buf argv;
             let (r, w1) = run f args w;
             Some (Some r, buf, out, w1)
           }
         }
     }
   }"

fun trim_blanks :: "u8 list \<Rightarrow> nat \<Rightarrow> (u8 list \<times> nat) option" where
  "trim_blanks [] len = None"
| "trim_blanks (c # cs) len =
     (if is_blank c then trim_blanks cs ((len + (2 ^ 32 - 1)) mod 2 ^ 32) else Some (c # cs, len))"

definition not_found :: "u8 list \<Rightarrow> u8 list option" where
  "not_found cmd =
     (if 32 \<in> set cmd \<or> 0 \<in> set cmd
      then Some (kprint (takeWhile (\<lambda>c. c \<noteq> 32 \<and> c \<noteq> 0) cmd @ c_text '': command not found.'' @ [10]))
      else None)"

definition msh_exec ::
    "'w cmd_functions \<Rightarrow> finsh_syscall list \<Rightarrow> u8 list \<Rightarrow> nat \<Rightarrow> 'w \<Rightarrow> (int \<times> u8 list \<times> 'w) option" where
  "msh_exec run tbl cmd0 len0 w = do {
     (cmd, len) \<leftarrow> trim_blanks cmd0 len0;
     if len = 0 then Some (0, [], w)
     else do {
       (r, cmd1, out, w1) \<leftarrow> msh_exec_cmd run tbl cmd len w;
       case r of
         Some cmd_ret \<Rightarrow> Some (cmd_ret, out, w1)
       | None \<Rightarrow> do { msg \<leftarrow> not_found cmd1; Some (- 1, out @ msg, w1) }
     }
   }"

section \<open>Definitions: completion\<close>

fun str_common :: "u8 list \<Rightarrow> u8 list \<Rightarrow> nat option" where
  "str_common (x # xs) (y # ys) =
     (if x \<noteq> 0 \<and> y \<noteq> 0 \<and> x = y then map_option Suc (str_common xs ys) else Some 0)"
| "str_common _ _ = None"

fun msh_help :: "finsh_syscall list \<Rightarrow> u8 list option" where
  "msh_help [] = Some (kprint [10])"
| "msh_help (e # es) = do {
     b \<leftarrow> strncmp_eq (sc_name e) cmd_prefix 6;
     if \<not> b then msh_help es
     else do {
       s \<leftarrow> c_string (sc_name e) 6;
       d \<leftarrow> c_string (sc_desc e) 0;
       t \<leftarrow> msh_help es;
       Some (kprint (s @ replicate (16 - length s) 32 @ c_text '' - '' @ d @ [10]) @ t)
     }
   }"

text \<open>The loop over the table, with \<open>name_ptr\<close> and \<open>min_length\<close>, and what it prints.\<close>

fun complete_loop ::
    "finsh_syscall list \<Rightarrow> u8 list \<Rightarrow> nat \<Rightarrow> u8 list option \<Rightarrow> nat \<Rightarrow> (u8 list option \<times> nat \<times> u8 list) option" where
  "complete_loop [] line plen name_ptr min_length = Some (name_ptr, min_length, [])"
| "complete_loop (e # es) line plen name_ptr min_length = do {
     b \<leftarrow> strncmp_eq (sc_name e) cmd_prefix 6;
     if \<not> b then complete_loop es line plen name_ptr min_length
     else do {
       let cmd_name = drop 6 (sc_name e);
       m \<leftarrow> strncmp_eq line cmd_name plen;
       if \<not> m then complete_loop es line plen name_ptr min_length
       else do {
         s \<leftarrow> c_string cmd_name 0;
         let (np, min1) = (if min_length = 0 then (Some cmd_name, length s) else (name_ptr, min_length));
         nm \<leftarrow> np;
         len \<leftarrow> str_common nm cmd_name;
         (np2, min2, out) \<leftarrow> complete_loop es line plen np (if len < min1 then len else min1);
         Some (np2, min2, kprint (s @ [10]) @ out)
       }
     }
   }"

definition msh_auto_complete :: "finsh_syscall list \<Rightarrow> u8 list \<Rightarrow> (u8 list \<times> u8 list) option" where
  "msh_auto_complete tbl line = do {
     c \<leftarrow> arr_get line 0;
     if c = 0 then do { out \<leftarrow> msh_help tbl; Some (line, out) }
     else do {
       p \<leftarrow> c_string line 0;
       (name_ptr, min_length, out) \<leftarrow> complete_loop tbl line (length p) None 0;
       case name_ptr of
         None \<Rightarrow> Some (line, out)
       | Some n \<Rightarrow> do { line1 \<leftarrow> arr_write line 0 (strncpy_bytes n min_length); Some (line1, out) }
     }
   }"

section \<open>Definitions: what the interpreter means\<close>

text \<open>A quoted string up to its closing quote, and what follows it; \<open>None\<close> when the quote is not closed.\<close>

function quoted :: "u8 list \<Rightarrow> u8 list \<times> u8 list option" where
  "quoted [] = ([], None)"
| "quoted (c # cs) =
     (if c = quote then ([], Some cs)
      else if c = backslash \<and> cs \<noteq> [] \<and> hd cs = quote
      then map_prod (\<lambda>s. c # quote # s) id (quoted (tl cs))
      else map_prod (\<lambda>s. c # s) id (quoted cs))"
  by pat_completeness auto

termination quoted
  by (relation "measure length") auto

text \<open>The words of a command line.\<close>

function msh_words :: "u8 list \<Rightarrow> u8 list list" where
  "msh_words [] = []"
| "msh_words (c # cs) =
     (if is_blank c then msh_words cs
      else if c = quote then
        (case quoted cs of
           (s, None) \<Rightarrow> [s]
         | (s, Some r) \<Rightarrow> s # msh_words (drop (length s + 1) cs))
      else takeWhile (\<lambda>c. \<not> is_blank c) (c # cs) # msh_words (dropWhile (\<lambda>c. \<not> is_blank c) cs))"
  by pat_completeness auto

termination msh_words
  by (relation "measure length") (auto simp: less_Suc_eq_le length_dropWhile_le)

text \<open>The names of the commands of a table: those of its names that start with \<^verbatim>\<open>__cmd_\<close>. Every name is a terminated string.\<close>

definition table_ok :: "finsh_syscall list \<Rightarrow> bool" where
  "table_ok tbl \<longleftrightarrow> (\<forall>e\<in>set tbl. 0 \<in> set (sc_name e) \<and> 0 \<in> set (sc_desc e))"

definition command_name :: "finsh_syscall \<Rightarrow> u8 list option" where
  "command_name e = (let nm = takeWhile (\<lambda>c. c \<noteq> 0) (sc_name e) in
     if prefix (c_text ''__cmd_'') nm then Some (drop 6 nm) else None)"

definition find_command :: "finsh_syscall list \<Rightarrow> u8 list \<Rightarrow> nat option" where
  "find_command tbl w = map_option sc_func (List.find (\<lambda>e. command_name e = Some w) tbl)"

definition candidates :: "finsh_syscall list \<Rightarrow> u8 list \<Rightarrow> u8 list list" where
  "candidates tbl p = filter (prefix p) (List.map_filter command_name tbl)"

text \<open>A table with two commands and a function that is not one.\<close>

definition sample_table :: "finsh_syscall list" where
  "sample_table =
     [\<lparr>sc_name = c_text ''__cmd_list_mem'' @ [0], sc_desc = [0], sc_func = 1\<rparr>,
      \<lparr>sc_name = c_text ''list'' @ [0], sc_desc = [0], sc_func = 2\<rparr>,
      \<lparr>sc_name = c_text ''__cmd_list_dev'' @ [0], sc_desc = [0], sc_func = 3\<rparr>]"

definition sample_line :: "u8 list" where
  "sample_line = c_text '' list_dev  \"a b\"''"

section \<open>Definitions: invariants of the loops\<close>

text \<open>The strings at the positions \<open>ps\<close> of a buffer that starts at the position \<open>n\<close> and has \<open>mid\<close> in front of a zero.\<close>

definition args_in :: "nat \<Rightarrow> u8 list \<Rightarrow> nat list \<Rightarrow> u8 list list" where
  "args_in n mid ps = map (\<lambda>p. takeWhile (\<lambda>c. c \<noteq> 0) (drop (p - n) (mid @ [0]))) ps"

definition split_result :: "u8 list \<Rightarrow> u8 list \<Rightarrow> u8 list \<Rightarrow> nat list \<Rightarrow> (u8 list \<times> nat list \<times> u8 list) option \<Rightarrow> bool" where
  "split_result pre rest post argv r \<longleftrightarrow>
     (\<exists>mid ps out. r = Some (pre @ mid @ 0 # post, argv @ ps, out) \<and> length mid = length rest
        \<and> (\<forall>p\<in>set ps. length pre \<le> p \<and> p \<le> length pre + length rest)
        \<and> args_in (length pre) mid ps = take (FINSH_ARG_MAX - length argv) (msh_words rest)
        \<and> (rest \<noteq> [] \<and> is_blank (hd rest) \<longrightarrow> mid \<noteq> [] \<and> hd mid = 0))"

text \<open>What the next argument \<open>w\<close> of \<open>xs\<close> leaves: \<open>ys\<close> with the argument at its position \<open>n\<close>, and the unread \<open>rest\<close>.\<close>

definition next_word :: "u8 list \<Rightarrow> u8 list \<Rightarrow> nat \<Rightarrow> u8 list \<Rightarrow> u8 list \<Rightarrow> bool" where
  "next_word xs ys n w rest \<longleftrightarrow> length xs = length ys + length rest \<and> ys \<noteq> [] \<and> set rest \<subseteq> set xs \<and> n \<le> length ys
     \<and> msh_words xs = w # msh_words rest \<and> 0 \<notin> set w
     \<and> (\<exists>zs. ys = take n ys @ w @ zs \<and> ((zs = [] \<and> (rest = [] \<or> is_blank (hd rest))) \<or> zs = [0]))"

text \<open>The variables \<open>name_ptr\<close> and \<open>min_length\<close> after the candidates of \<open>S\<close>.\<close>

definition comp_state :: "u8 list \<Rightarrow> u8 list option \<Rightarrow> nat \<Rightarrow> u8 list set \<Rightarrow> bool" where
  "comp_state p np m S \<longleftrightarrow> (if S = {} then np = None \<and> m = 0 else
     \<exists>n a. np = Some (n @ 0 # a) \<and> 0 \<notin> set n \<and> n \<in> S \<and> take m n = Longest_common_prefix S \<and> m \<le> length n \<and> (\<forall>x\<in>S. prefix p x))"

section \<open>Splitting\<close>

declare strip_blanks.simps [simp del] skip_string.simps [simp del] skip_word.simps [simp del]

lemma arr_get_append [simp]: "arr_get (xs @ ys) (length xs) = arr_get ys 0"
  "arr_get (xs @ y # ys) (Suc (length xs)) = arr_get ys 0"
  by (auto simp: arr_get_def nth_append)

lemma arr_get_Cons [simp]: "arr_get (x # xs) 0 = Some x"
  by (simp add: arr_get_def)

lemma quoted_split: "fst (quoted cs) @ (case snd (quoted cs) of None \<Rightarrow> [] | Some r \<Rightarrow> quote # r) = cs"
proof (induction cs rule: quoted.induct)
  case (2 c cs)
  then show ?case by (cases "quoted cs"; cases "quoted (tl cs)"; cases cs) auto
qed simp

lemma strip_blanks_run:
  "strip_blanks (pre @ rest @ 0 # post) (length pre) (length pre + length rest) =
     Some (pre @ replicate (length (takeWhile is_blank rest)) 0 @ dropWhile is_blank rest @ 0 # post,
           length pre + length (takeWhile is_blank rest))"
proof (induction rest arbitrary: pre)
  case Nil
  show ?case by (subst strip_blanks.simps) (simp add: arr_get_def)
next
  case (Cons c cs)
  show ?case
    using Cons.IH [of "pre @ [0]"] by (subst strip_blanks.simps) (simp add: list_update_append)
qed

lemma skip_word_run:
  "skip_word (pre @ rest @ 0 # post) (length pre) (length pre + length rest) =
     Some (length pre + length (takeWhile (\<lambda>c. \<not> is_blank c) rest))"
proof (induction rest arbitrary: pre)
  case Nil
  show ?case by (subst skip_word.simps) (simp add: arr_get_def)
next
  case (Cons c cs)
  show ?case
    using Cons.IH [of "pre @ [c]"] by (subst skip_word.simps) simp
qed

lemma skip_string_run:
  "skip_string (pre @ rest @ 0 # post) (length pre) (length pre + length rest) =
     Some (length pre + length (fst (quoted rest)))"
proof (induction rest arbitrary: pre rule: quoted.induct)
  case 1
  show ?case by (subst skip_string.simps) (simp add: arr_get_def)
next
  case (2 c cs)
  consider "c = quote" | "c = backslash" "cs \<noteq> []" "hd cs = quote" | "c \<noteq> quote" "c = backslash \<longrightarrow> cs = [] \<or> hd cs \<noteq> quote" by blast
  then show ?case
  proof cases
    case 1
    then show ?thesis by (subst skip_string.simps) simp
  next
    case 2
    then obtain ds where cs: "cs = quote # ds" by (cases cs) auto
    show ?thesis
      using "2.IH"(1) [of "pre @ [c, quote]"] 2 by (subst skip_string.simps) (simp add: cs)
  next
    case 3
    then have "quoted (c # cs) = map_prod ((#) c) id (quoted cs)" by auto
    with 3 show ?thesis
      using "2.IH"(2) [of "pre @ [c]"] by (subst skip_string.simps) (cases cs; auto)
  qed
qed

lemma msh_words_strip: "msh_words (dropWhile is_blank xs) = msh_words xs"
  by (induction xs) auto

lemma takeWhile_zero: "0 \<notin> set s \<Longrightarrow> takeWhile (\<lambda>c. c \<noteq> 0) (s @ 0 # ys) = s"
  by (induction s) auto

lemma args_in_shift:
  assumes "\<forall>p\<in>set ps. n + length xs \<le> p" shows "args_in n (xs @ mid) ps = args_in (n + length xs) mid ps"
  using assms by (auto simp: args_in_def)

lemma args_in_Cons [simp]:
  "args_in n mid (p # ps) = takeWhile (\<lambda>c. c \<noteq> 0) (drop (p - n) (mid @ [0])) # args_in n mid ps"
  "args_in n mid [] = []"
  by (simp_all add: args_in_def)

lemma c_string_at:
  assumes "p \<le> length xs" shows "c_string (xs @ 0 # post) p = Some (takeWhile (\<lambda>c. c \<noteq> 0) (drop p (xs @ [0])))"
  using assms by (auto simp: c_string_def takeWhile_append)

lemma print_args_some:
  assumes "\<forall>p\<in>set ps. p \<le> length xs" shows "\<exists>t. print_args (xs @ 0 # post) ps = Some t"
  using assms by (induction ps) (auto simp: c_string_at)

text \<open>Blanks in front of the words, and one word in front of the others.\<close>

lemma split_result_blanks:
  assumes "split_result (pre @ replicate k 0) rest post argv r" and "k = length (takeWhile is_blank xs)" and "rest = dropWhile is_blank xs"
  shows "split_result pre xs post argv r"
proof -
  obtain mid ps out where r: "r = Some ((pre @ replicate k 0) @ mid @ 0 # post, argv @ ps, out)" "length mid = length rest"
    "\<forall>p\<in>set ps. length (pre @ replicate k 0) \<le> p \<and> p \<le> length (pre @ replicate k 0) + length rest"
    "args_in (length (pre @ replicate k 0)) mid ps = take (FINSH_ARG_MAX - length argv) (msh_words rest)"
    using assms(1) unfolding split_result_def by blast
  have len: "length xs = k + length rest" using assms(2,3) by (metis length_append takeWhile_dropWhile_id)
  have "is_blank (hd xs) \<Longrightarrow> xs \<noteq> [] \<Longrightarrow> 0 < k" using assms(2) by (cases xs) auto
  moreover have "args_in (length pre) (replicate k 0 @ mid) ps = args_in (length pre + k) mid ps"
    using r(3) args_in_shift [of ps "length pre" "replicate k 0" mid] by auto
  ultimately show ?thesis
    using r len unfolding split_result_def assms(3) msh_words_strip
    by (intro exI [of _ "replicate k 0 @ mid"] exI [of _ ps] exI [of _ out]) (auto simp: hd_append)
qed

lemma split_arg_ok:
  assumes "xs \<noteq> []" "\<not> is_blank (hd xs)" "0 \<notin> set xs"
  shows "\<exists>ys n w rest. next_word xs ys n w rest
    \<and> (split_arg (pre @ xs @ 0 # post) (length pre) (length pre + length xs) = Some ((pre @ ys) @ rest @ 0 # post, length pre + n, Some (length (pre @ ys)))
       \<or> rest = [] \<and> split_arg (pre @ xs @ 0 # post) (length pre) (length pre + length xs) = Some ((pre @ ys) @ 0 # post, length pre + n, None))"
proof -
  obtain c cs where xs: "xs = c # cs" using assms(1) by (cases xs) auto
  show ?thesis
  proof (cases "c = quote")
    case q: True
    define w where "w = fst (quoted cs)"
    have skip: "skip_string (pre @ quote # cs @ 0 # post) (Suc (length pre)) (Suc (length pre + length cs)) = Some (Suc (length pre + length w))"
      using skip_string_run [of "pre @ [c]" cs post] by (simp add: w_def q)
    show ?thesis
    proof (cases "snd (quoted cs)")
      case None
      then have cs: "quoted cs = (cs, None)" "w = cs" using quoted_split [of cs] by (auto simp: w_def prod_eq_iff)
      have "next_word xs xs 1 cs []" using assms by (simp add: next_word_def xs q cs is_blank_def)
      then show ?thesis using skip by (intro exI conjI) (auto simp: split_arg_def xs q cs)
    next
      case (Some r)
      then have cs: "cs = w @ quote # r" "quoted cs = (w, Some r)" using quoted_split [of cs] by (auto simp: w_def prod_eq_iff)
      have "next_word xs (quote # w @ [0]) 1 w r" using assms cs(2) by (auto simp: next_word_def xs q cs(1) is_blank_def)
      then show ?thesis
        using skip by (intro exI conjI disjI1) (auto simp: split_arg_def xs q cs(1) arr_set_def list_update_append)
    qed
  next
    case False
    define w where "w = takeWhile (\<lambda>c. \<not> is_blank c) xs"
    define r where "r = dropWhile (\<lambda>c. \<not> is_blank c) xs"
    have w: "xs = w @ r" "w \<noteq> []" "msh_words xs = w # msh_words r" using assms False by (simp_all add: w_def r_def xs)
    have "r = [] \<or> is_blank (hd r)" unfolding r_def using hd_dropWhile by blast
    then have "next_word xs w 0 w r" using w assms by (auto simp: next_word_def)
    moreover have "split_arg (pre @ xs @ 0 # post) (length pre) (length pre + length xs) =
        Some (pre @ xs @ 0 # post, length pre, if r = [] then None else Some (length pre + length w))"
    proof -
      have len: "length xs = length w + length r" using w(1) by simp
      have "arr_get (pre @ xs @ 0 # post) (length pre) = Some c" by (simp add: xs)
      then show ?thesis
        using False skip_word_run [of pre xs post] by (cases "r = []") (auto simp: split_arg_def w_def [symmetric] len)
    qed
    ultimately show ?thesis
      using w(1) by (intro exI [of _ w] exI [of _ 0] exI [of _ r] conjI) auto
  qed
qed

lemma split_result_word:
  assumes "split_result (pre @ ys) rest post (argv @ [length pre + n]) r" and "next_word xs ys n w rest" and "length argv < FINSH_ARG_MAX"
    and "\<not> is_blank (hd xs)"
  shows "split_result pre xs post argv r"
proof -
  obtain mid ps out where r: "r = Some ((pre @ ys) @ mid @ 0 # post, (argv @ [length pre + n]) @ ps, out)" "length mid = length rest"
    "\<forall>p\<in>set ps. length (pre @ ys) \<le> p \<and> p \<le> length (pre @ ys) + length rest"
    "args_in (length (pre @ ys)) mid ps = take (FINSH_ARG_MAX - length (argv @ [length pre + n])) (msh_words rest)"
    "rest \<noteq> [] \<and> is_blank (hd rest) \<longrightarrow> mid \<noteq> [] \<and> hd mid = 0"
    using assms(1) unfolding split_result_def by blast
  obtain zs where w: "ys = take n ys @ w @ zs" "(zs = [] \<and> (rest = [] \<or> is_blank (hd rest))) \<or> zs = [0]" "0 \<notin> set w" "n \<le> length ys"
    using assms(2) unfolding next_word_def by blast
  have nw: "length xs = length ys + length rest" "msh_words xs = w # msh_words rest" using assms(2) by (simp_all add: next_word_def)
  have d: "drop n (ys @ mid @ [0]) = w @ zs @ mid @ [0]"
    by (subst w(1)) (simp add: w(4))
  have "takeWhile (\<lambda>c. c \<noteq> 0) (w @ zs @ mid @ [0]) = w"
    using w(2,3) r(2,5) by (cases mid; cases rest) (auto simp: takeWhile_zero)
  moreover have "args_in (length pre) (ys @ mid) ps = args_in (length pre + length ys) mid ps"
    using r(3) by (intro args_in_shift) auto
  moreover have "FINSH_ARG_MAX - length argv = Suc (FINSH_ARG_MAX - length (argv @ [length pre + n]))" using assms(3) by simp
  ultimately show ?thesis
    using r assms(4) d w(4) nw unfolding split_result_def
    by (intro exI [of _ "ys @ mid"] exI [of _ "(length pre + n) # ps"] exI [of _ out]) auto
qed

lemma split_result_stop:
  "split_result pre [] post argv (Some (pre @ 0 # post, argv, out))"
  "length argv \<ge> FINSH_ARG_MAX \<Longrightarrow> rest = [] \<or> \<not> is_blank (hd rest)
     \<Longrightarrow> split_result pre rest post argv (Some (pre @ rest @ 0 # post, argv, out))"
  by (auto simp: split_result_def intro!: exI [of _ rest])

lemma msh_split_loop_ok:
  assumes "0 \<notin> set rest" and "length argv \<le> FINSH_ARG_MAX" and "\<forall>p\<in>set argv. p \<le> length pre + length rest"
  shows "split_result pre rest post argv
           (msh_split_loop (pre @ rest @ 0 # post) (length pre) (length pre + length rest) argv)"
  using assms
proof (induction "length rest" arbitrary: pre rest argv rule: less_induct)
  case less
  let ?k = "length (takeWhile is_blank rest)"
  define L where "L = length pre + length rest"
  define pre1 where "pre1 = pre @ replicate ?k 0"
  define xs where "xs = dropWhile is_blank rest"
  have len: "length rest = ?k + length xs" unfolding xs_def by (metis length_append takeWhile_dropWhile_id)
  then have L: "L = length pre1 + length xs" by (simp add: pre1_def L_def)
  have strip: "strip_blanks (pre @ rest @ 0 # post) (length pre) L = Some (pre1 @ xs @ 0 # post, length pre1)"
    by (simp add: strip_blanks_run pre1_def xs_def L_def)
  have xs0: "0 \<notin> set xs" using less.prems(1) by (auto simp: xs_def dest: set_dropWhileD)
  have hdxs: "xs = [] \<or> \<not> is_blank (hd xs)" unfolding xs_def using hd_dropWhile by blast
  let ?r = "msh_split_loop (pre @ rest @ 0 # post) (length pre) L argv"
  consider "rest = []" | "rest \<noteq> []" "length argv < FINSH_ARG_MAX" "xs = []" | "rest \<noteq> []" "\<not> length argv < FINSH_ARG_MAX"
    | "rest \<noteq> []" "length argv < FINSH_ARG_MAX" "xs \<noteq> []" by blast
  then have "split_result pre1 xs post argv ?r"
  proof cases
    case 1
    then show ?thesis by (subst msh_split_loop.simps) (simp add: split_result_stop L_def pre1_def xs_def)
  next
    case 2
    then have "length pre < L" "L \<le> length pre1" by (simp_all add: L_def L) (simp add: L_def [symmetric] L)
    with 2 show ?thesis by (subst msh_split_loop.simps) (simp add: strip split_result_stop)
  next
    case 3
    obtain t where "print_args ((pre1 @ xs) @ 0 # post) argv = Some t"
      using print_args_some [of argv "pre1 @ xs" post] less.prems(3) L by (auto simp: L_def)
    moreover have "length pre < L" using 3 by (simp add: L_def)
    ultimately show ?thesis
      using 3 hdxs by (subst msh_split_loop.simps) (auto simp: strip too_many_def intro!: split_result_stop)
  next
    case 4
    obtain ys n w r where nw: "next_word xs ys n w r" and
      arg: "split_arg (pre1 @ xs @ 0 # post) (length pre1) L = Some ((pre1 @ ys) @ r @ 0 # post, length pre1 + n, Some (length (pre1 @ ys)))
        \<or> r = [] \<and> split_arg (pre1 @ xs @ 0 # post) (length pre1) L = Some ((pre1 @ ys) @ 0 # post, length pre1 + n, None)"
      using split_arg_ok [OF 4(3) _ xs0, of pre1 post] hdxs 4(3) unfolding L by blast
    have pos: "length pre < L" "\<not> L \<le> length pre1" using 4 by (simp add: L_def) (simp add: L 4)
    have nw': "length xs = length ys + length r" "0 \<notin> set r" "ys \<noteq> []" "n \<le> length ys" using nw xs0 by (auto simp: next_word_def)
    have IH: "split_result (pre1 @ ys) r post (argv @ [length pre1 + n])
        (msh_split_loop ((pre1 @ ys) @ r @ 0 # post) (length (pre1 @ ys)) L (argv @ [length pre1 + n]))"
    proof -
      have "L = length (pre1 @ ys) + length r" using L nw'(1) by simp
      moreover have "\<forall>p\<in>set (argv @ [length pre1 + n]). p \<le> L" using less.prems(3) nw' L by (auto simp: L_def)
      ultimately show ?thesis using less.hyps [of r "argv @ [length pre1 + n]" "pre1 @ ys"] 4(2) nw' len by simp
    qed
    have "split_result (pre1 @ ys) r post (argv @ [length pre1 + n]) ?r"
      using arg 4 IH pos by (subst msh_split_loop.simps) (auto simp: strip split_result_stop(1) [of "pre1 @ ys", simplified])
    then show ?thesis using nw 4 hdxs by (intro split_result_word [where xs = xs]) auto
  qed
  then show ?case unfolding pre1_def xs_def L_def by (rule split_result_blanks) simp_all
qed

lemma c_strings_args:
  assumes "\<forall>p\<in>set ps. p \<le> length mid" shows "c_strings (mid @ 0 # post) ps = Some (args_in 0 mid ps)"
  using assms by (induction ps) (simp_all add: c_string_at)

text \<open>Splitting a terminated line gives the first ten of its words, as strings inside of it.\<close>

lemma msh_split_words:
  assumes "0 \<notin> set line"
  shows "\<exists>buf argv out. msh_split (line @ 0 # post) (length line) = Some (buf, argv, out)
     \<and> length buf = length line + 1 + length post \<and> (\<forall>p\<in>set argv. p \<le> length line)
     \<and> c_strings buf argv = Some (take FINSH_ARG_MAX (msh_words line))"
proof -
  have "split_result [] line post [] (msh_split (line @ 0 # post) (length line))"
    using msh_split_loop_ok [of line "[]" "[]" post] assms by (simp add: msh_split_def)
  then obtain mid ps out where r: "msh_split (line @ 0 # post) (length line) = Some (mid @ 0 # post, ps, out)" "length mid = length line"
    "\<forall>p\<in>set ps. p \<le> length line" "args_in 0 mid ps = take FINSH_ARG_MAX (msh_words line)"
    unfolding split_result_def by auto
  then show ?thesis by (simp add: c_strings_args)
qed

section \<open>Commands\<close>

lemma strncmp_eq_prefix:
  assumes "0 \<notin> set p" "0 \<notin> set nm"
  shows "strncmp_eq (nm @ 0 # a) (p @ b) (length p) = Some (prefix p nm)"
    "strncmp_eq (p @ b) (nm @ 0 # a) (length p) = Some (prefix p nm)"
  using assms
proof (induction p arbitrary: nm)
  case (Cons c p)
  { case 1 then show ?case using Cons.IH(1) [of "tl nm"] by (cases nm) auto }
  { case 2 then show ?case using Cons.IH(2) [of "tl nm"] by (cases nm) auto }
qed simp_all

lemma prefix_text [simp]: "length (c_text str) = length str" "0 \<notin> set (c_text ''__cmd_'')"
  by (simp_all add: c_text_def)

lemma strncmp_cmd:
  assumes "0 \<notin> set nm" shows "strncmp_eq (nm @ 0 # a) cmd_prefix 6 = Some (prefix (c_text ''__cmd_'') nm)"
  using strncmp_eq_prefix(1) [of "c_text ''__cmd_''" nm a "[0]"] assms by (simp add: cmd_prefix_def numeral_eq_Suc)

text \<open>An entry of a table by its name.\<close>

lemma table_entry:
  assumes "0 \<in> set xs" obtains nm a where "xs = nm @ 0 # a" "0 \<notin> set nm" "takeWhile (\<lambda>c. c \<noteq> 0) xs = nm"
  using split_list_first [OF assms] by (metis takeWhile_zero)

lemma table_command:
  assumes "0 \<in> set (sc_name e)"
  obtains (other) "command_name e = None" "strncmp_eq (sc_name e) cmd_prefix 6 = Some False"
  | (cmd) nm a where "command_name e = Some nm" "strncmp_eq (sc_name e) cmd_prefix 6 = Some True" "drop 6 (sc_name e) = nm @ 0 # a" "0 \<notin> set nm"
proof -
  obtain nm a where e: "sc_name e = nm @ 0 # a" "0 \<notin> set nm" "takeWhile (\<lambda>c. c \<noteq> 0) (sc_name e) = nm" using assms by (rule table_entry)
  show ?thesis
  proof (cases "prefix (c_text ''__cmd_'') nm")
    case False
    then show ?thesis using other e strncmp_cmd [of nm a] by (simp add: command_name_def)
  next
    case True
    then have "6 \<le> length nm" using prefix_length_le by fastforce
    with True show ?thesis using e strncmp_cmd [of nm a] by (intro cmd [of "drop 6 nm" a]) (auto simp: command_name_def dest: in_set_dropD)
  qed
qed

lemma msh_get_cmd_find:
  assumes "table_ok tbl" "0 \<notin> set w"
  shows "msh_get_cmd tbl (w @ rest) (length w) = Some (find_command tbl w)"
  using assms(1)
proof (induction tbl)
  case (Cons e es)
  then have e: "0 \<in> set (sc_name e)" and IH: "msh_get_cmd es (w @ rest) (length w) = Some (find_command es w)" by (simp_all add: table_ok_def)
  from e show ?case
  proof (cases e rule: table_command)
    case other
    then show ?thesis using IH by (simp add: find_command_def)
  next
    case (cmd nm a)
    have get: "arr_get (sc_name e) (6 + length w) = arr_get (nm @ 0 # a) (length w)"
    proof -
      have "arr_get (sc_name e) (6 + length w) = arr_get (drop 6 (sc_name e)) (length w)" by (auto simp: arr_get_def)
      then show ?thesis by (simp only: cmd(3))
    qed
    show ?thesis
    proof (cases "prefix w nm")
      case False
      then show ?thesis using IH cmd strncmp_eq_prefix(1) [of w nm a rest] assms(2) by (auto simp: find_command_def)
    next
      case True
      then obtain v where v: "nm = w @ v" by (auto elim: prefixE)
      then show ?thesis
        using IH cmd strncmp_eq_prefix(1) [of w nm a rest] assms(2) get by (cases v) (simp_all add: find_command_def)
    qed
  qed
qed (simp add: find_command_def)

lemma trim_blanks_run:
  assumes "0 \<notin> set line" and "length line < 2 ^ 32"
  shows "trim_blanks (line @ 0 # post) (length line) = Some (dropWhile is_blank line @ 0 # post, length (dropWhile is_blank line))"
  using assms
proof (induction line)
  case (Cons c cs)
  then have "(length (c # cs) + (2 ^ 32 - 1)) mod 2 ^ 32 = length cs" by simp
  with Cons show ?case by simp
qed (simp add: is_blank_def)

lemma msh_words_nonempty: "xs \<noteq> [] \<Longrightarrow> \<not> is_blank (hd xs) \<Longrightarrow> msh_words xs \<noteq> []"
  by (cases xs) (auto split: prod.splits option.splits)

lemma not_found_run:
  assumes "0 \<notin> set l"
  shows "not_found (l @ 0 # post) = Some (kprint (takeWhile (\<lambda>c. c \<noteq> 32) l @ c_text '': command not found.'' @ [10]))"
proof -
  have "takeWhile (\<lambda>c. c \<noteq> 32 \<and> c \<noteq> 0) (l @ 0 # post) = takeWhile (\<lambda>c. c \<noteq> 32) l"
    using assms by (induction l) auto
  then show ?thesis by (simp add: not_found_def)
qed

lemma skip_first_word:
  "skip_word (l @ 0 # post) 0 (length l) = Some (length (takeWhile (\<lambda>c. \<not> is_blank c) l))"
  using skip_word_run [of "[]" l post] by simp

lemma msh_exec_cmd_run:
  fixes run :: "'w cmd_functions"
  assumes "0 \<notin> set l" and "table_ok tbl" and "l \<noteq> []" "\<not> is_blank (hd l)"
  defines "name \<equiv> takeWhile (\<lambda>c. \<not> is_blank c) l" and "args \<equiv> take FINSH_ARG_MAX (msh_words l)"
  shows "find_command tbl name = Some f \<Longrightarrow>
      \<exists>buf out. msh_exec_cmd run tbl (l @ 0 # post) (length l) w = Some (Some (fst (run f args w)), buf, out, snd (run f args w))"
    and "find_command tbl name = None \<Longrightarrow> msh_exec_cmd run tbl (l @ 0 # post) (length l) w = Some (None, l @ 0 # post, [], w)"
proof -
  have l: "l = name @ dropWhile (\<lambda>c. \<not> is_blank c) l" by (simp add: name_def)
  have "0 \<notin> set name" using assms(1) by (auto simp: name_def dest: set_takeWhileD)
  with l have get: "msh_get_cmd tbl (l @ 0 # post) (length name) = Some (find_command tbl name)"
    using msh_get_cmd_find [OF assms(2), of name "dropWhile (\<lambda>c. \<not> is_blank c) l @ 0 # post"]
    by (metis append_assoc)
  have name0: "name \<noteq> []" using assms(3,4) by (cases l) (auto simp: name_def)
  have skip: "skip_word (l @ 0 # post) 0 (length l) = Some (length name)" by (simp add: skip_first_word name_def)
  obtain buf argv out where split: "msh_split (l @ 0 # post) (length l) = Some (buf, argv, out)" "c_strings buf argv = Some args"
    using msh_split_words [OF assms(1)] unfolding args_def by blast
  have "args \<noteq> []" using msh_words_nonempty [OF assms(3,4)] by (simp add: args_def)
  then have "argv \<noteq> []" using split(2) by auto
  then show "\<exists>buf out. msh_exec_cmd run tbl (l @ 0 # post) (length l) w = Some (Some (fst (run f args w)), buf, out, snd (run f args w))"
    if "find_command tbl name = Some f"
    using that skip get name0 split by (simp add: msh_exec_cmd_def Let_def split: prod.splits)
  show "msh_exec_cmd run tbl (l @ 0 # post) (length l) w = Some (None, l @ 0 # post, [], w)" if "find_command tbl name = None"
    using that skip get name0 by (simp add: msh_exec_cmd_def)
qed

section \<open>Completion\<close>

lemma str_common_run:
  assumes "0 \<notin> set xs" "0 \<notin> set ys"
  shows "str_common (xs @ 0 # a) (ys @ 0 # b) = Some (length (longest_common_prefix xs ys))"
  using assms
proof (induction xs arbitrary: ys)
  case Nil
  then show ?case by (cases ys) auto
next
  case (Cons x xs)
  then show ?case by (cases ys) auto
qed

lemma Longest_common_prefix_single [simp]: "Longest_common_prefix {x} = x"
  by (rule Longest_common_prefix_eq) (auto intro: prefix_length_le)

lemma Longest_common_prefix_insert:
  assumes "take m n = Longest_common_prefix S" "n \<in> S"
  shows "take (min m (length (longest_common_prefix n y))) n = Longest_common_prefix (insert y S)"
proof -
  let ?k = "length (longest_common_prefix n y)"
  have k: "take ?k n = longest_common_prefix n y" by (metis append_eq_conv_conj longest_common_prefix_prefix1 prefix_def)
  have "prefix (take (min m ?k) n) x" if "x \<in> insert y S" for x
  proof (cases "x = y")
    case True
    then show ?thesis using k by (metis longest_common_prefix_prefix2 min.commute prefix_order.trans take_is_prefix take_take)
  next
    case False
    with that have "prefix (take m n) x" using assms(1) Longest_common_prefix_prefix by fastforce
    then show ?thesis by (metis prefix_order.trans take_is_prefix take_take min.commute)
  qed
  moreover have "length qs \<le> length (take (min m ?k) n)" if q: "\<forall>x\<in>insert y S. prefix qs x" for qs
  proof -
    have "length qs \<le> length (take m n)" using q assms by (auto intro: Longest_common_prefix_longest)
    moreover have "length qs \<le> ?k" using q assms(2) by (simp add: longest_common_prefix_max_prefix prefix_length_le)
    ultimately show ?thesis by simp
  qed
  ultimately show ?thesis by (intro Longest_common_prefix_eq [symmetric]) auto
qed

lemma comp_state_zero:
  assumes "comp_state p np m S" "p \<noteq> []" shows "m = 0 \<longleftrightarrow> S = {}"
proof (cases "S = {}")
  case False
  then obtain n where n: "take m n = Longest_common_prefix S" "m \<le> length n" "\<forall>x\<in>S. prefix p x" using assms(1) by (auto simp: comp_state_def)
  then have "length p \<le> m" using False by (metis Longest_common_prefix_longest length_take min_absorb2)
  with False assms(2) show ?thesis by auto
qed (use assms in \<open>simp add: comp_state_def\<close>)

lemma complete_one:
  fixes a :: "u8 list"
  assumes "comp_state p np m S" "p \<noteq> []" "prefix p nm" "0 \<notin> set nm"
  defines "np1 \<equiv> if m = 0 then Some (nm @ 0 # a) else np" and "m1 \<equiv> if m = 0 then length nm else m"
  shows "\<exists>n k. np1 = Some n \<and> str_common n (nm @ 0 # a) = Some k \<and> comp_state p np1 (if k < m1 then k else m1) (insert nm S)"
proof -
  have "\<exists>n b. np1 = Some (n @ 0 # b) \<and> 0 \<notin> set n \<and> (\<exists>T. n \<in> T \<and> take m1 n = Longest_common_prefix T \<and> insert nm T = insert nm S)
      \<and> m1 \<le> length n \<and> (\<forall>x\<in>insert nm S. prefix p x)"
  proof (cases "m = 0")
    case True
    then have "S = {}" using comp_state_zero assms(1,2) by blast
    then show ?thesis using assms True by (auto intro!: exI [of _ "{nm}"])
  next
    case False
    then have "S \<noteq> {}" using comp_state_zero assms(1,2) by blast
    with False assms(1,3) show ?thesis by (auto simp: comp_state_def np1_def m1_def)
  qed
  then obtain n b T where n: "np1 = Some (n @ 0 # b)" "0 \<notin> set n" "n \<in> T" "take m1 n = Longest_common_prefix T" "insert nm T = insert nm S"
    "m1 \<le> length n" "\<forall>x\<in>insert nm S. prefix p x" by blast
  let ?k = "length (longest_common_prefix n nm)"
  have "take (min m1 ?k) n = Longest_common_prefix (insert nm S)" using Longest_common_prefix_insert [OF n(4,3), of nm] n(5) by simp
  moreover have "min m1 ?k = (if ?k < m1 then ?k else m1)" by (simp add: min_def)
  moreover have "n \<in> insert nm S" using n(3,5) by blast
  ultimately have "comp_state p np1 (if ?k < m1 then ?k else m1) (insert nm S)"
    using n by (auto simp: comp_state_def)
  moreover have "str_common (n @ 0 # b) (nm @ 0 # a) = Some ?k" by (rule str_common_run [OF n(2) assms(4)])
  ultimately show ?thesis using n(1) by blast
qed

lemma candidates_Cons:
  "candidates (e # es) p = (case command_name e of Some nm \<Rightarrow> if prefix p nm then nm # candidates es p else candidates es p | None \<Rightarrow> candidates es p)"
  by (simp add: candidates_def List.map_filter_simps split: option.splits)

lemma complete_loop_run:
  assumes "table_ok tbl" "0 \<notin> set p" "p \<noteq> []" "comp_state p np m S"
  shows "\<exists>np' m'. complete_loop tbl (p @ 0 # post) (length p) np m = Some (np', m', concat (map (\<lambda>c. kprint (c @ [10])) (candidates tbl p)))
     \<and> comp_state p np' m' (S \<union> set (candidates tbl p))"
  using assms(1,4)
proof (induction tbl arbitrary: np m S)
  case Nil
  then show ?case by (simp add: candidates_def List.map_filter_simps)
next
  case (Cons e es)
  have ok: "table_ok es" and e: "0 \<in> set (sc_name e)" using Cons.prems(1) by (simp_all add: table_ok_def)
  from e show ?case
  proof (cases e rule: table_command)
    case other
    then show ?thesis using Cons.IH [OF ok Cons.prems(2)] by (simp add: candidates_Cons)
  next
    case (cmd nm a)
    note cmp = strncmp_eq_prefix(2) [OF assms(2) cmd(4), of "0 # post" a]
    show ?thesis
    proof (cases "prefix p nm")
      case False
      then show ?thesis using cmd cmp Cons.IH [OF ok Cons.prems(2)] by (simp add: candidates_Cons)
    next
      case True
      define np1 m1 where "np1 = (if m = 0 then Some (nm @ 0 # a) else np)" and "m1 = (if m = 0 then length nm else m)"
      then have pair: "(if m = 0 then (Some (nm @ 0 # a), length nm) else (np, m)) = (np1, m1)" by simp
      obtain n k where c: "np1 = Some n" "str_common n (nm @ 0 # a) = Some k" "comp_state p np1 (if k < m1 then k else m1) (insert nm S)"
        using complete_one [OF Cons.prems(2) assms(3) True cmd(4)] unfolding np1_def m1_def by blast
      obtain np' m' where r: "complete_loop es (p @ 0 # post) (length p) np1 (if k < m1 then k else m1) =
          Some (np', m', concat (map (\<lambda>c. kprint (c @ [10])) (candidates es p)))" "comp_state p np' m' (insert nm S \<union> set (candidates es p))"
        using Cons.IH [OF ok c(3)] by blast
      have s: "c_string (nm @ 0 # a) 0 = Some nm" using cmd(4) by (simp add: c_string_def takeWhile_zero)
      have "complete_loop (e # es) (p @ 0 # post) (length p) np m =
          Some (np', m', concat (map (\<lambda>c. kprint (c @ [10])) (candidates (e # es) p)))"
        using cmd cmp True c(1,2) r(1) s pair by (simp add: candidates_Cons del: if_split)
      then show ?thesis using r(2) cmd True by (simp add: candidates_Cons)
    qed
  qed
qed

lemma strncpy_bytes_take: "m \<le> length n \<Longrightarrow> 0 \<notin> set n \<Longrightarrow> strncpy_bytes (n @ 0 # a) m = take m n"
  by (simp add: strncpy_bytes_def takeWhile_zero)

lemma msh_exec_run:
  fixes run :: "'w cmd_functions"
  assumes "0 \<notin> set line" and "length line < 2 ^ 32" and "table_ok tbl"
    and "l = dropWhile is_blank line" and "args = take FINSH_ARG_MAX (msh_words line)"
    and "func = find_command tbl (takeWhile (\<lambda>c. \<not> is_blank c) l)"
  shows "(l = [] \<longrightarrow> msh_exec run tbl (line @ 0 # post) (length line) w = Some (0, [], w))
    \<and> (\<forall>f. l \<noteq> [] \<and> func = Some f \<longrightarrow>
         (\<exists>out. msh_exec run tbl (line @ 0 # post) (length line) w = Some (fst (run f args w), out, snd (run f args w))))
    \<and> (l \<noteq> [] \<and> func = None \<longrightarrow> msh_exec run tbl (line @ 0 # post) (length line) w =
         Some (- 1, kprint (takeWhile (\<lambda>c. c \<noteq> 32) l @ c_text '': command not found.'' @ [10]), w))"
proof -
  have l0: "0 \<notin> set l" using assms(1,4) by (auto dest: set_dropWhileD)
  have hd: "\<not> is_blank (hd l)" if "l \<noteq> []" using that assms(4) hd_dropWhile by blast
  have args: "args = take FINSH_ARG_MAX (msh_words l)" using assms(4,5) by (simp add: msh_words_strip)
  have trim: "trim_blanks (line @ 0 # post) (length line) = Some (l @ 0 # post, length l)"
    using trim_blanks_run [OF assms(1,2)] assms(4) by simp
  have "msh_exec run tbl (line @ 0 # post) (length line) w = Some (0, [], w)" if "l = []"
    using that trim by (simp add: msh_exec_def)
  moreover have "\<exists>out. msh_exec run tbl (line @ 0 # post) (length line) w = Some (fst (run f args w), out, snd (run f args w))"
    if "l \<noteq> []" "func = Some f" for f
    using that trim msh_exec_cmd_run(1) [OF l0 assms(3) that(1) hd, of f run post w] assms(6) args by (auto simp: msh_exec_def)
  moreover have "msh_exec run tbl (line @ 0 # post) (length line) w = Some (- 1, kprint (takeWhile (\<lambda>c. c \<noteq> 32) l @ c_text '': command not found.'' @ [10]), w)"
    if "l \<noteq> []" "func = None"
    using that trim msh_exec_cmd_run(2) [OF l0 assms(3) that(1) hd, of run post w] assms(6) not_found_run [OF l0] by (simp add: msh_exec_def)
  ultimately show ?thesis by blast
qed

text \<open>
  Completing a command name. The names of the commands that start with the given text are printed, one on a line and cut to the console buffer, in the order of
  the table. Without any, the text is not changed; otherwise it becomes the longest common prefix of them, and
  nothing behind it in the buffer is changed.
\<close>

lemma msh_auto_complete_run:
  assumes "0 \<notin> set p" and "p \<noteq> []" and "table_ok tbl" and "q = Longest_common_prefix (set (candidates tbl p))"
    and "candidates tbl p \<noteq> [] \<Longrightarrow> length q \<le> length (p @ 0 # post)"
  shows "msh_auto_complete tbl (p @ 0 # post) =
    Some (if candidates tbl p = [] then p @ 0 # post else q @ drop (length q) (p @ 0 # post),
          concat (map (\<lambda>c. kprint (c @ [10])) (candidates tbl p)))"
proof -
  obtain np m where r: "complete_loop tbl (p @ 0 # post) (length p) None 0 = Some (np, m, concat (map (\<lambda>c. kprint (c @ [10])) (candidates tbl p)))"
    and st: "comp_state p np m (set (candidates tbl p))"
    using complete_loop_run [OF assms(3,1,2), of None 0 "{}" post] by (auto simp: comp_state_def)
  have p: "arr_get (p @ 0 # post) 0 = Some (hd p)" "hd p \<noteq> 0" "c_string (p @ 0 # post) 0 = Some p"
    using assms(1,2) by (auto simp: arr_get_def nth_append hd_conv_nth c_string_def takeWhile_zero) (metis hd_conv_nth list.set_sel(1))
  show ?thesis
  proof (cases "candidates tbl p = []")
    case True
    then show ?thesis using r st p by (simp add: msh_auto_complete_def comp_state_def)
  next
    case False
    then obtain n a where n: "np = Some (n @ 0 # a)" "0 \<notin> set n" "take m n = q" "m \<le> length n" using st assms(4) by (auto simp: comp_state_def)
    have "strncpy_bytes (n @ 0 # a) m = q" using n strncpy_bytes_take by blast
    then have "arr_write (p @ 0 # post) 0 (strncpy_bytes (n @ 0 # a) m) = Some (q @ drop (length q) (p @ 0 # post))"
      using assms(5) False by (simp add: arr_write_def)
    then show ?thesis using False r n(1) p by (simp add: msh_auto_complete_def)
  qed
qed

section \<open>Properties\<close>

text \<open>
  C34. Executing a command line, a string without its terminating zero. A line of blanks returns 0 and does nothing. Otherwise the
  text up to the first blank is looked up among the commands. When there is such a command, it is called once, with the
  first ten words of the line as its arguments, where a word is a quoted string or the text up to the next blank, and its result
  is returned. When there is none, nothing is called, the message says so, up to the size of the console buffer, and the result is \<open>- 1\<close>.
\<close>

theorem msh_exec_calls:
  fixes run :: "'w cmd_functions"
  assumes "0 \<notin> set line" and "length line < 2 ^ 32" and "table_ok tbl"
    and "l = dropWhile is_blank line" and "args = take FINSH_ARG_MAX (msh_words line)"
    and "func = find_command tbl (takeWhile (\<lambda>c. \<not> is_blank c) l)"
  shows "(l = [] \<longrightarrow> msh_exec run tbl (line @ 0 # post) (length line) w = Some (0, [], w))
    \<and> (\<forall>f. l \<noteq> [] \<and> func = Some f \<longrightarrow>
         (\<exists>out. msh_exec run tbl (line @ 0 # post) (length line) w = Some (fst (run f args w), out, snd (run f args w))))
    \<and> (l \<noteq> [] \<and> func = None \<longrightarrow> msh_exec run tbl (line @ 0 # post) (length line) w =
         Some (- 1, kprint (takeWhile (\<lambda>c. c \<noteq> 32) l @ c_text '': command not found.'' @ [10]), w))"
  using assms by (rule msh_exec_run)

theorem msh_exec_calls_witness:
  "\<exists>out. msh_exec (\<lambda>f args w. (int f, args # w)) sample_table (sample_line @ 0 # []) (length sample_line) [] =
     Some (3, out, [[c_text ''list_dev'', c_text ''a b'']])"
proof -
  have s: "0 \<notin> set sample_line" "length sample_line < 2 ^ 32" "table_ok sample_table" "dropWhile is_blank sample_line \<noteq> []"
    "take FINSH_ARG_MAX (msh_words sample_line) = [c_text ''list_dev'', c_text ''a b'']"
    "find_command sample_table (takeWhile (\<lambda>c. \<not> is_blank c) (dropWhile is_blank sample_line)) = Some 3"
    by (simp_all add: sample_line_def c_text_def sample_table_def table_ok_def is_blank_def find_command_def command_name_def)
  then show ?thesis
    using msh_exec_calls [OF s(1-3) refl refl refl, of "\<lambda>f args w. (int f, args # w)" "[]" "[]"] by simp
qed

end
