(* ===== verification/Shell.thy ===== *)
theory Shell
  imports Msh
begin

text \<open>
  The line editor of the shell (\<^verbatim>\<open>components/finsh/shell.c\<close>): one round of the loop of \<^verbatim>\<open>finsh_thread_entry\<close> for each byte that
  arrives, with the history of commands, completion, and the execution of a line by the command interpreter. \<^verbatim>\<open>char\<close> is unsigned.
  The commands act on a world of any type and not on the record of the shell. What the shell prints is kept in \<open>sh_out\<close>:
  the bytes that its calls of \<^verbatim>\<open>rt_kprintf\<close> hand to the console, each cut to the buffer of \<^verbatim>\<open>rt_kprintf\<close>. The prompt has no percent
  sign, which the call that prints it alone would take for a conversion.
\<close>

section \<open>Definitions: data\<close>

abbreviation (input) FINSH_CMD_SIZE :: nat where "FINSH_CMD_SIZE \<equiv> 80"
abbreviation (input) FINSH_HISTORY_LINES :: nat where "FINSH_HISTORY_LINES \<equiv> 5"

datatype input_stat = WAIT_NORMAL | WAIT_SPEC_KEY | WAIT_FUNC_KEY

record 'w finsh_shell =
  sh_stat :: input_stat
  echo_mode :: bool
  prompt_mode :: bool
  current_history :: nat
  history_count :: nat
  cmd_history :: "u8 list list"
  sh_line :: "u8 list"
  line_position :: nat
  line_curpos :: nat
  prompt_custom :: "u8 list option"
  sh_out :: "u8 list"
  sh_world :: 'w

text \<open>The record after \<^verbatim>\<open>rt_calloc\<close>, with \<^verbatim>\<open>finsh_set_prompt_mode(1)\<close> of \<^verbatim>\<open>finsh_system_init\<close> and the echo of the start of the thread.\<close>

definition shell_start :: "'w \<Rightarrow> 'w finsh_shell" where
  "shell_start w = \<lparr>sh_stat = WAIT_NORMAL, echo_mode = True, prompt_mode = True, current_history = 0, history_count = 0,
     cmd_history = replicate FINSH_HISTORY_LINES (replicate FINSH_CMD_SIZE 0), sh_line = replicate (FINSH_CMD_SIZE + 1) 0,
     line_position = 0, line_curpos = 0, prompt_custom = None, sh_out = [], sh_world = w\<rparr>"

text \<open>Both modes are bit fields of one bit.\<close>

definition finsh_set_echo :: "u32 \<Rightarrow> 'w finsh_shell \<Rightarrow> 'w finsh_shell" where
  "finsh_set_echo echo s = s\<lparr>echo_mode := bit echo 0\<rparr>"

definition finsh_get_echo :: "'w finsh_shell \<Rightarrow> u32" where
  "finsh_get_echo s = (if echo_mode s then 1 else 0)"

definition finsh_set_prompt_mode :: "u32 \<Rightarrow> 'w finsh_shell \<Rightarrow> 'w finsh_shell" where
  "finsh_set_prompt_mode mode s = s\<lparr>prompt_mode := bit mode 0\<rparr>"

definition finsh_get_prompt_mode :: "'w finsh_shell \<Rightarrow> u32" where
  "finsh_get_prompt_mode s = (if prompt_mode s then 1 else 0)"

definition finsh_get_prompt :: "'w finsh_shell \<Rightarrow> u8 list" where
  "finsh_get_prompt s =
     (if \<not> prompt_mode s then []
      else case prompt_custom s of Some p \<Rightarrow> take 128 p | None \<Rightarrow> c_text ''msh '' @ c_text ''>'')"

text \<open>Bytes on the console, a call of \<^verbatim>\<open>rt_kprintf\<close> with a text, and a loop of calls that print a backspace.\<close>

definition sh_console :: "u8 list \<Rightarrow> 'w finsh_shell \<Rightarrow> 'w finsh_shell" where
  "sh_console out s = s\<lparr>sh_out := sh_out s @ out\<rparr>"

definition sh_print :: "u8 list \<Rightarrow> 'w finsh_shell \<Rightarrow> 'w finsh_shell" where
  "sh_print xs s = sh_console (kprint xs) s"

fun sh_backspaces :: "nat \<Rightarrow> 'w finsh_shell \<Rightarrow> 'w finsh_shell" where
  "sh_backspaces 0 s = s"
| "sh_backspaces (Suc n) s = sh_backspaces n (sh_print [8] s)"

section \<open>Definitions: history\<close>

definition shell_handle_history :: "'w finsh_shell \<Rightarrow> 'w finsh_shell option" where
  "shell_handle_history s = do {
     l \<leftarrow> c_string (sh_line s) 0;
     Some (sh_print (finsh_get_prompt s @ l) (sh_print [27, 91, 50, 75, 13] s))
   }"

text \<open>The line is stored as entry \<open>i\<close>, filled up with zeros.\<close>

definition history_store :: "nat \<Rightarrow> 'w finsh_shell \<Rightarrow> 'w finsh_shell option" where
  "history_store i s = do {
     xs \<leftarrow> arr_read (sh_line s) 0 (line_position s);
     e \<leftarrow> arr_write (replicate FINSH_CMD_SIZE 0) 0 xs;
     h \<leftarrow> arr_set (cmd_history s) i e;
     Some (s\<lparr>cmd_history := h\<rparr>)
   }"

text \<open>Whether \<^verbatim>\<open>memcmp\<close> of entry \<open>i\<close> and the line finds a difference.\<close>

definition history_differs :: "nat \<Rightarrow> 'w finsh_shell \<Rightarrow> bool option" where
  "history_differs i s = do {
     h \<leftarrow> arr_get (cmd_history s) i;
     l \<leftarrow> arr_read (sh_line s) 0 FINSH_CMD_SIZE;
     Some (h \<noteq> l)
   }"

definition shell_push_history :: "'w finsh_shell \<Rightarrow> 'w finsh_shell option" where
  "shell_push_history s = do {
     s1 \<leftarrow> (if line_position s \<noteq> 0 then
              if history_count s \<ge> FINSH_HISTORY_LINES then do {
                d \<leftarrow> history_differs (FINSH_HISTORY_LINES - 1) s;
                if d then do {
                  let moved = drop 1 (cmd_history s) @ [last (cmd_history s)];
                  s1 \<leftarrow> history_store (FINSH_HISTORY_LINES - 1) (s\<lparr>cmd_history := moved\<rparr>);
                  Some (s1\<lparr>history_count := FINSH_HISTORY_LINES\<rparr>)
                }
                else Some s
              }
              else do {
                d \<leftarrow> (if history_count s = 0 then Some True else history_differs (history_count s - 1) s);
                if d then do {
                  s1 \<leftarrow> history_store (history_count s) (s\<lparr>current_history := history_count s\<rparr>);
                  Some (s1\<lparr>history_count := history_count s1 + 1\<rparr>)
                }
                else Some s
              }
            else Some s);
     Some (s1\<lparr>current_history := history_count s1\<rparr>)
   }"

definition history_load :: "nat \<Rightarrow> 'w finsh_shell \<Rightarrow> 'w finsh_shell option" where
  "history_load i s = do {
     h \<leftarrow> arr_get (cmd_history s) i;
     l \<leftarrow> arr_write (sh_line s) 0 h;
     xs \<leftarrow> c_string l 0;
     shell_handle_history (s\<lparr>current_history := i, sh_line := l, line_position := length xs, line_curpos := length xs\<rparr>)
   }"

section \<open>Definitions: keys\<close>

definition key_up :: "'w finsh_shell \<Rightarrow> 'w finsh_shell option" where
  "key_up s =
     (if current_history s > 0 then history_load (current_history s - 1) s else Some (s\<lparr>current_history := 0\<rparr>))"

definition key_down :: "'w finsh_shell \<Rightarrow> 'w finsh_shell option" where
  "key_down s =
     (if int (current_history s) < int (history_count s) - 1 then history_load (current_history s + 1) s
      else if history_count s \<noteq> 0 then history_load (history_count s - 1) s
      else Some s)"

definition key_left :: "'w finsh_shell \<Rightarrow> 'w finsh_shell option" where
  "key_left s =
     (if line_curpos s \<noteq> 0 then Some ((sh_print [8] s)\<lparr>line_curpos := line_curpos s - 1\<rparr>) else Some s)"

definition key_right :: "'w finsh_shell \<Rightarrow> 'w finsh_shell option" where
  "key_right s =
     (if line_curpos s < line_position s then do {
        c \<leftarrow> arr_get (sh_line s) (line_curpos s);
        Some ((sh_print [c] s)\<lparr>line_curpos := line_curpos s + 1\<rparr>)
      }
      else Some s)"

definition shell_auto_complete :: "finsh_syscall list \<Rightarrow> 'w finsh_shell \<Rightarrow> 'w finsh_shell option" where
  "shell_auto_complete tbl s = do {
     (l, out) \<leftarrow> msh_auto_complete tbl (sh_line s);
     xs \<leftarrow> c_string l 0;
     Some (sh_print (finsh_get_prompt s @ xs) (sh_console out (sh_print [10] (s\<lparr>sh_line := l\<rparr>))))
   }"

definition key_tab :: "finsh_syscall list \<Rightarrow> 'w finsh_shell \<Rightarrow> 'w finsh_shell option" where
  "key_tab tbl s = do {
     s1 \<leftarrow> shell_auto_complete tbl (sh_backspaces (line_curpos s) s);
     xs \<leftarrow> c_string (sh_line s1) 0;
     Some (s1\<lparr>line_position := length xs, line_curpos := length xs\<rparr>)
   }"

text \<open>The positions are unsigned 16-bit numbers.\<close>

definition key_backspace :: "'w finsh_shell \<Rightarrow> 'w finsh_shell option" where
  "key_backspace s =
     (if line_curpos s = 0 then Some s
      else let pos = (line_position s + (2 ^ 16 - 1)) mod 2 ^ 16; cur = line_curpos s - 1;
               s1 = s\<lparr>line_position := pos, line_curpos := cur\<rparr> in
        if pos > cur then do {
          src \<leftarrow> arr_read (sh_line s) (cur + 1) (pos - cur);
          l1 \<leftarrow> arr_write (sh_line s) cur src;
          l2 \<leftarrow> arr_set l1 pos 0;
          xs \<leftarrow> c_string l2 cur;
          Some (sh_backspaces (pos - cur + 1) (sh_print ([8] @ xs @ [32, 32, 8]) (s1\<lparr>sh_line := l2\<rparr>)))
        }
        else do {
          l1 \<leftarrow> arr_set (sh_line s) pos 0;
          Some (sh_print [8, 32, 8] (s1\<lparr>sh_line := l1\<rparr>))
        })"

definition key_enter :: "'w cmd_functions \<Rightarrow> finsh_syscall list \<Rightarrow> 'w finsh_shell \<Rightarrow> 'w finsh_shell option" where
  "key_enter run tbl s = do {
     s1 \<leftarrow> shell_push_history s;
     let s2 = (if echo_mode s1 then sh_print [10] s1 else s1);
     (r, out, w) \<leftarrow> msh_exec run tbl (sh_line s2) (line_position s2) (sh_world s2);
     let s3 = sh_print (finsh_get_prompt s2) (sh_console out (s2\<lparr>sh_world := w\<rparr>));
     Some (s3\<lparr>sh_line := replicate (length (sh_line s3)) 0, line_position := 0, line_curpos := 0\<rparr>)
   }"

definition key_normal :: "u8 \<Rightarrow> 'w finsh_shell \<Rightarrow> 'w finsh_shell option" where
  "key_normal ch s = do {
     let pos = (if line_position s \<ge> FINSH_CMD_SIZE then 0 else line_position s);
     let cur = line_curpos s;
     s1 \<leftarrow> (if cur < pos then do {
              src \<leftarrow> arr_read (sh_line s) cur (pos - cur);
              l1 \<leftarrow> arr_write (sh_line s) (cur + 1) src;
              l2 \<leftarrow> arr_set l1 cur ch;
              s1 \<leftarrow> (if echo_mode s then do { xs \<leftarrow> c_string l2 cur; Some (sh_print xs (s\<lparr>sh_line := l2\<rparr>)) }
                     else Some (s\<lparr>sh_line := l2\<rparr>));
              Some (sh_backspaces (pos - cur) s1)
            }
            else do {
              l1 \<leftarrow> arr_set (sh_line s) pos ch;
              Some (if echo_mode s then sh_print [ch] (s\<lparr>sh_line := l1\<rparr>) else s\<lparr>sh_line := l1\<rparr>)
            });
     let pos1 = (pos + 1) mod 2 ^ 16;
     Some (if pos1 \<ge> FINSH_CMD_SIZE then s1\<lparr>line_position := 0, line_curpos := 0\<rparr>
           else s1\<lparr>line_position := pos1, line_curpos := (cur + 1) mod 2 ^ 16\<rparr>)
   }"

text \<open>A byte that is not part of a control sequence.\<close>

definition finsh_char :: "'w cmd_functions \<Rightarrow> finsh_syscall list \<Rightarrow> u8 \<Rightarrow> 'w finsh_shell \<Rightarrow> 'w finsh_shell option" where
  "finsh_char run tbl ch s =
     (if ch = 0 \<or> ch = 0xFF then Some s
      else if ch = 9 then key_tab tbl s
      else if ch = 0x7f \<or> ch = 0x08 then key_backspace s
      else if ch = 13 \<or> ch = 10 then key_enter run tbl s
      else key_normal ch s)"

definition finsh_key :: "'w cmd_functions \<Rightarrow> finsh_syscall list \<Rightarrow> u8 \<Rightarrow> 'w finsh_shell \<Rightarrow> 'w finsh_shell option" where
  "finsh_key run tbl ch s =
     (if ch = 0x1b then Some (s\<lparr>sh_stat := WAIT_SPEC_KEY\<rparr>)
      else case sh_stat s of
        WAIT_SPEC_KEY \<Rightarrow>
          if ch = 0x5b then Some (s\<lparr>sh_stat := WAIT_FUNC_KEY\<rparr>) else finsh_char run tbl ch (s\<lparr>sh_stat := WAIT_NORMAL\<rparr>)
      | WAIT_FUNC_KEY \<Rightarrow>
          let s1 = s\<lparr>sh_stat := WAIT_NORMAL\<rparr> in
          if ch = 0x41 then key_up s1
          else if ch = 0x42 then key_down s1
          else if ch = 0x44 then key_left s1
          else if ch = 0x43 then key_right s1
          else finsh_char run tbl ch s1
      | WAIT_NORMAL \<Rightarrow> finsh_char run tbl ch s)"

text \<open>The loop on the bytes that have arrived.\<close>

fun finsh_keys :: "'w cmd_functions \<Rightarrow> finsh_syscall list \<Rightarrow> u8 list \<Rightarrow> 'w finsh_shell \<Rightarrow> 'w finsh_shell option" where
  "finsh_keys run tbl [] s = Some s"
| "finsh_keys run tbl (c # cs) s = do { s1 \<leftarrow> finsh_key run tbl c s; finsh_keys run tbl cs s1 }"

section \<open>Definitions: the abstract editor\<close>

text \<open>A line with a cursor as the texts on both sides of it, the remembered lines, and the one that is looked at.\<close>

record 'w editor =
  ed_stat :: input_stat
  ed_left :: "u8 list"
  ed_right :: "u8 list"
  ed_hist :: "u8 list list"
  ed_cur :: nat
  ed_world :: 'w

definition ed_line :: "'w editor \<Rightarrow> u8 list" where
  "ed_line e = ed_left e @ ed_right e"

definition ed_show :: "u8 list \<Rightarrow> 'w editor \<Rightarrow> 'w editor" where
  "ed_show xs e = e\<lparr>ed_left := xs, ed_right := []\<rparr>"

definition ed_recall :: "nat \<Rightarrow> 'w editor \<Rightarrow> 'w editor" where
  "ed_recall i e = ed_show (ed_hist e ! i) (e\<lparr>ed_cur := i\<rparr>)"

definition ed_remember :: "'w editor \<Rightarrow> u8 list list" where
  "ed_remember e = (let l = ed_line e; h = ed_hist e in
     if l = [] \<or> (h \<noteq> [] \<and> last h = l) then h else drop (length h + 1 - FINSH_HISTORY_LINES) (h @ [l]))"

definition ed_execute :: "'w cmd_functions \<Rightarrow> finsh_syscall list \<Rightarrow> u8 list \<Rightarrow> 'w \<Rightarrow> 'w" where
  "ed_execute run tbl l w =
     (case find_command tbl (takeWhile (\<lambda>c. \<not> is_blank c) (dropWhile is_blank l)) of
        Some f \<Rightarrow> if dropWhile is_blank l = [] then w else snd (run f (take FINSH_ARG_MAX (msh_words l)) w)
      | None \<Rightarrow> w)"

definition ed_complete :: "finsh_syscall list \<Rightarrow> 'w editor \<Rightarrow> u8 list" where
  "ed_complete tbl e = (let l = ed_line e in
     if l = [] \<or> candidates tbl l = [] then l else Longest_common_prefix (set (candidates tbl l)))"

definition ed_char :: "'w cmd_functions \<Rightarrow> finsh_syscall list \<Rightarrow> u8 \<Rightarrow> 'w editor \<Rightarrow> 'w editor" where
  "ed_char run tbl ch e =
     (if ch = 0 \<or> ch = 0xFF then e
      else if ch = 9 then ed_show (ed_complete tbl e) e
      else if ch = 0x7f \<or> ch = 0x08 then e\<lparr>ed_left := butlast (ed_left e)\<rparr>
      else if ch = 13 \<or> ch = 10 then
        ed_show [] (e\<lparr>ed_hist := ed_remember e, ed_cur := length (ed_remember e), ed_world := ed_execute run tbl (ed_line e) (ed_world e)\<rparr>)
      else e\<lparr>ed_left := ed_left e @ [ch]\<rparr>)"

definition ed_arrow :: "u8 \<Rightarrow> 'w editor \<Rightarrow> 'w editor" where
  "ed_arrow ch e =
     (if ch = 0x41 then if ed_cur e = 0 then e else ed_recall (ed_cur e - 1) e
      else if ch = 0x42 then if ed_hist e = [] then e else ed_recall (min (ed_cur e + 1) (length (ed_hist e) - 1)) e
      else if ch = 0x44 then
        if ed_left e = [] then e else e\<lparr>ed_left := butlast (ed_left e), ed_right := last (ed_left e) # ed_right e\<rparr>
      else if ed_right e = [] then e else e\<lparr>ed_left := ed_left e @ [hd (ed_right e)], ed_right := tl (ed_right e)\<rparr>)"

definition ed_key :: "'w cmd_functions \<Rightarrow> finsh_syscall list \<Rightarrow> u8 \<Rightarrow> 'w editor \<Rightarrow> 'w editor" where
  "ed_key run tbl ch e =
     (if ch = 0x1b then e\<lparr>ed_stat := WAIT_SPEC_KEY\<rparr>
      else if ed_stat e = WAIT_SPEC_KEY \<and> ch = 0x5b then e\<lparr>ed_stat := WAIT_FUNC_KEY\<rparr>
      else if ed_stat e = WAIT_FUNC_KEY \<and> ch \<in> {0x41, 0x42, 0x43, 0x44} then ed_arrow ch (e\<lparr>ed_stat := WAIT_NORMAL\<rparr>)
      else ed_char run tbl ch (e\<lparr>ed_stat := WAIT_NORMAL\<rparr>))"

fun ed_keys :: "'w cmd_functions \<Rightarrow> finsh_syscall list \<Rightarrow> u8 list \<Rightarrow> 'w editor \<Rightarrow> 'w editor" where
  "ed_keys run tbl [] e = e"
| "ed_keys run tbl (c # cs) e = ed_keys run tbl cs (ed_key run tbl c e)"

definition editor_start :: "'w \<Rightarrow> 'w editor" where
  "editor_start w = \<lparr>ed_stat = WAIT_NORMAL, ed_left = [], ed_right = [], ed_hist = [], ed_cur = 0, ed_world = w\<rparr>"

text \<open>Every line on the way is shorter than the buffer.\<close>

fun lines_fit :: "'w cmd_functions \<Rightarrow> finsh_syscall list \<Rightarrow> u8 list \<Rightarrow> 'w editor \<Rightarrow> bool" where
  "lines_fit run tbl [] e \<longleftrightarrow> True"
| "lines_fit run tbl (c # cs) e \<longleftrightarrow>
     length (ed_line (ed_key run tbl c e)) < FINSH_CMD_SIZE \<and> lines_fit run tbl cs (ed_key run tbl c e)"

text \<open>How the record of the shell represents the editor.\<close>

definition text_ok :: "u8 list \<Rightarrow> bool" where
  "text_ok xs \<longleftrightarrow> 0 \<notin> set xs \<and> length xs < FINSH_CMD_SIZE"

definition padded :: "nat \<Rightarrow> u8 list \<Rightarrow> u8 list" where
  "padded n xs = xs @ replicate (n - length xs) 0"

definition shell_rel :: "'w finsh_shell \<Rightarrow> 'w editor \<Rightarrow> bool" where
  "shell_rel s e \<longleftrightarrow> sh_stat s = ed_stat e \<and> sh_world s = ed_world e \<and> text_ok (ed_line e)
     \<and> sh_line s = padded (FINSH_CMD_SIZE + 1) (ed_line e) \<and> line_position s = length (ed_line e) \<and> line_curpos s = length (ed_left e)
     \<and> length (cmd_history s) = FINSH_HISTORY_LINES \<and> (\<forall>h\<in>set (cmd_history s). length h = FINSH_CMD_SIZE)
     \<and> length (ed_hist e) \<le> FINSH_HISTORY_LINES \<and> (\<forall>h\<in>set (ed_hist e). text_ok h)
     \<and> take (length (ed_hist e)) (cmd_history s) = map (padded FINSH_CMD_SIZE) (ed_hist e)
     \<and> history_count s = length (ed_hist e) \<and> current_history s = ed_cur e \<and> ed_cur e \<le> length (ed_hist e)"

text \<open>The row of a terminal that the cursor is in, blank behind its text, and the column of the cursor: what it makes of printed
  bytes. \<^verbatim>\<open>ESC [ 2 K\<close> blanks the row.\<close>

definition cells :: "u8 list \<Rightarrow> nat \<Rightarrow> u8" where
  "cells xs = (\<lambda>i. if i < length xs then xs ! i else 32)"

fun terminal :: "u8 list \<Rightarrow> (nat \<Rightarrow> u8) \<times> nat \<Rightarrow> (nat \<Rightarrow> u8) \<times> nat" where
  "terminal [] t = t"
| "terminal (c # cs) (row, col) =
     (if c = 27 \<and> take 3 cs = [91, 50, 75] then terminal (drop 3 cs) (cells [], col)
      else if c = 8 then terminal cs (row, col - 1)
      else if c = 10 then terminal cs (cells [], 0)
      else if c = 13 then terminal cs (row, 0)
      else terminal cs (row(col := c), col + 1))"

definition plain :: "u8 \<Rightarrow> bool" where
  "plain c \<longleftrightarrow> 32 \<le> c \<and> c \<noteq> 0x7f \<and> c \<noteq> 0xff"

definition screen :: "u8 list \<Rightarrow> 'w editor \<Rightarrow> (nat \<Rightarrow> u8) \<times> nat" where
  "screen prompt e = (cells (prompt @ ed_line e), length prompt + length (ed_left e))"

definition overlay :: "(nat \<Rightarrow> u8) \<Rightarrow> nat \<Rightarrow> u8 list \<Rightarrow> nat \<Rightarrow> u8" where
  "overlay row col xs = (\<lambda>i. if col \<le> i \<and> i < col + length xs then xs ! (i - col) else row i)"

text \<open>A key that prints what turns the screen of \<open>e\<close> into that of \<open>e'\<close>.\<close>

definition shows_edit :: "'w finsh_shell \<Rightarrow> 'w editor \<Rightarrow> 'w finsh_shell option \<Rightarrow> 'w editor \<Rightarrow> bool" where
  "shows_edit s e r e' \<longleftrightarrow> (\<exists>s' out. r = Some s' \<and> sh_out s' = sh_out s @ out
     \<and> terminal out (screen (finsh_get_prompt s) e) = screen (finsh_get_prompt s) e')"

text \<open>A shell whose commands note their arguments.\<close>

definition note_run :: "u8 list list list cmd_functions" where
  "note_run f args w = (0, args # w)"

section \<open>Lines in the buffer\<close>

text \<open>A shell with the text \<open>l\<close> in front of the cursor and \<open>r\<close> behind it, and the change to such a text that prints \<open>out\<close>.\<close>

definition buffer_at :: "'w finsh_shell \<Rightarrow> u8 list \<Rightarrow> u8 list \<Rightarrow> bool" where
  "buffer_at s l r \<longleftrightarrow> sh_line s = padded (FINSH_CMD_SIZE + 1) (l @ r) \<and> line_position s = length l + length r
     \<and> line_curpos s = length l \<and> text_ok (l @ r)"

definition sh_edit :: "u8 list \<Rightarrow> u8 list \<Rightarrow> u8 list \<Rightarrow> 'w finsh_shell \<Rightarrow> 'w finsh_shell" where
  "sh_edit l r out s = s\<lparr>sh_line := padded (FINSH_CMD_SIZE + 1) (l @ r), line_position := length l + length r, line_curpos := length l,
     sh_out := sh_out s @ out\<rparr>"

definition sh_history :: "u8 list list \<Rightarrow> nat \<Rightarrow> 'w finsh_shell \<Rightarrow> 'w finsh_shell" where
  "sh_history H n s = s\<lparr>cmd_history := H, history_count := n, current_history := n\<rparr>"

lemma sh_console_simps [simp]:
  "sh_stat (sh_console xs s) = sh_stat s" "sh_world (sh_console xs s) = sh_world s" "sh_line (sh_console xs s) = sh_line s"
  "line_position (sh_console xs s) = line_position s" "line_curpos (sh_console xs s) = line_curpos s"
  "cmd_history (sh_console xs s) = cmd_history s" "history_count (sh_console xs s) = history_count s"
  "current_history (sh_console xs s) = current_history s" "echo_mode (sh_console xs s) = echo_mode s"
  "sh_out (sh_console xs s) = sh_out s @ xs" "finsh_get_prompt (sh_console xs s) = finsh_get_prompt s"
  by (simp_all add: sh_console_def finsh_get_prompt_def)

lemma sh_print_simps [simp]:
  "sh_stat (sh_print xs s) = sh_stat s" "sh_world (sh_print xs s) = sh_world s" "sh_line (sh_print xs s) = sh_line s"
  "line_position (sh_print xs s) = line_position s" "line_curpos (sh_print xs s) = line_curpos s"
  "cmd_history (sh_print xs s) = cmd_history s" "history_count (sh_print xs s) = history_count s"
  "current_history (sh_print xs s) = current_history s" "echo_mode (sh_print xs s) = echo_mode s"
  "sh_out (sh_print xs s) = sh_out s @ kprint xs" "finsh_get_prompt (sh_print xs s) = finsh_get_prompt s"
  by (simp_all add: sh_print_def)

lemma kprint_short [simp]: "length t \<le> 126 \<Longrightarrow> kprint t = t"
  by (simp add: kprint_def)

lemma sh_backspaces_run: "sh_backspaces n s = s\<lparr>sh_out := sh_out s @ replicate n 8\<rparr>"
  by (induction n arbitrary: s) (simp_all add: sh_print_def sh_console_def flip: replicate_append_same)

lemmas sh_print_defs = sh_print_def sh_console_def sh_backspaces_run

lemma shell_rel_buffer: "shell_rel s e \<Longrightarrow> buffer_at s (ed_left e) (ed_right e)"
  by (simp add: shell_rel_def buffer_at_def ed_line_def)

lemma shell_rel_edit:
  "shell_rel s e \<Longrightarrow> text_ok (l @ r) \<Longrightarrow> shell_rel (sh_edit l r out s) (e\<lparr>ed_left := l, ed_right := r\<rparr>)"
  by (simp add: shell_rel_def sh_edit_def ed_line_def)

lemma padded_simps:
  "length xs < n \<Longrightarrow> padded n (xs @ ys) = xs @ padded (n - length xs) ys"
  "length xs \<le> n \<Longrightarrow> length (padded n xs) = n"
  "padded 0 [] = []" "padded (Suc n) [] = 0 # padded n []"
  by (simp_all add: padded_def)

lemma padded_Suc: "length xs \<le> n \<Longrightarrow> padded n xs @ [0] = padded (Suc n) xs"
  by (simp add: padded_def replicate_append_same Suc_diff_le)

lemma c_string_padded:
  assumes "0 \<notin> set r" "length (l @ r) < n" shows "c_string (padded n (l @ r)) (length l) = Some r"
proof -
  obtain k where "n - length (l @ r) = Suc k" using assms(2) by (metis Suc_diff_Suc)
  then show ?thesis using assms(1) by (simp add: c_string_def padded_def takeWhile_zero)
qed

lemmas c_string_padded0 = c_string_padded [of _ "[]", simplified]

section \<open>Editing keys\<close>

lemma padded_split:
  assumes "length l + length r < n" shows "padded n (l @ r) = l @ r @ 0 # replicate (n - 1 - length l - length r) 0"
proof -
  obtain k where "n = Suc (length l + length r + k)" using assms by (metis add_Suc_right less_imp_Suc_add)
  then show ?thesis by (simp add: padded_def)
qed

lemma insert_char:
  assumes "length l + length r + 1 < n" defines "xs \<equiv> padded n (l @ r)"
  shows "arr_read xs (length l) (length r) = Some r"
    and "\<exists>ys. arr_write xs (length l + 1) r = Some ys \<and> arr_set ys (length l) ch = Some (padded n (l @ ch # r))"
proof -
  have xs: "xs = l @ r @ 0 # replicate (n - 1 - length l - length r) 0" using assms by (simp add: padded_split)
  show "arr_read xs (length l) (length r) = Some r" by (simp add: xs arr_read_def)
  have "padded n (l @ ch # r) = l @ ch # r @ replicate (n - 1 - length l - length r) 0" using assms(1) by (simp add: padded_def)
  then show "\<exists>ys. arr_write xs (length l + 1) r = Some ys \<and> arr_set ys (length l) ch = Some (padded n (l @ ch # r))"
    by (cases r) (auto simp: xs arr_write_def arr_set_def list_update_append)
qed

lemma key_normal_run:
  assumes "buffer_at s l r" and "ch \<noteq> 0" and "length l + length r + 1 < FINSH_CMD_SIZE"
  shows "key_normal ch s = Some (sh_edit (l @ [ch]) r ((if echo_mode s then ch # r else []) @ replicate (length r) 8) s)"
proof -
  have b: "sh_line s = padded (FINSH_CMD_SIZE + 1) (l @ r)" "line_position s = length l + length r" "line_curpos s = length l" "0 \<notin> set r"
    using assms(1) by (auto simp: buffer_at_def text_ok_def)
  have len: "length l + length r + 1 < FINSH_CMD_SIZE + 1" using assms(3) by simp
  obtain ys where ys: "arr_write (sh_line s) (length l + 1) r = Some ys" "arr_set ys (length l) ch = Some (padded (FINSH_CMD_SIZE + 1) (l @ ch # r))"
    using insert_char(2) [OF len, of ch] b(1) by auto
  have read: "arr_read (sh_line s) (length l) (length r) = Some r" using insert_char(1) [OF len] b(1) by simp
  have str: "c_string (padded (FINSH_CMD_SIZE + 1) (l @ ch # r)) (length l) = Some (ch # r)"
    using b(4) assms(2,3) by (intro c_string_padded) auto
  show ?thesis
  proof (cases "r = []")
    case True
    then have "arr_set (sh_line s) (length l) ch = Some (padded (FINSH_CMD_SIZE + 1) (l @ ch # r))" using ys b(1) by (auto simp: arr_write_def)
    then show ?thesis
      using b assms(3) True by (cases s) (simp add: key_normal_def Let_def sh_edit_def sh_print_defs)
  next
    case False
    then show ?thesis
      using b assms(3) ys read str by (cases s) (simp add: key_normal_def Let_def sh_edit_def sh_print_defs)
  qed
qed

lemma key_backspace_run:
  assumes "buffer_at s (l @ [c]) r"
  shows "key_backspace s = Some (sh_edit l r (if r = [] then [8, 32, 8] else [8] @ r @ [32, 32, 8] @ replicate (length r + 1) 8) s)"
proof -
  have b: "sh_line s = padded (FINSH_CMD_SIZE + 1) ((l @ [c]) @ r)" "line_position s = length l + length r + 1" "line_curpos s = length l + 1"
    "0 \<notin> set r" "length l + length r < 79"
    using assms by (auto simp: buffer_at_def text_ok_def)
  then have line: "sh_line s = l @ c # r @ replicate (80 - length l - length r) 0" by (simp add: padded_def)
  have res: "padded (FINSH_CMD_SIZE + 1) (l @ r) = l @ r @ 0 # replicate (80 - length l - length r) 0"
    using b(5) padded_split [of l r 81] by simp
  have pos: "(line_position s + (2 ^ 16 - 1)) mod 2 ^ 16 = length l + length r" using b(2,5) by simp
  show ?thesis
  proof (cases "r = []")
    case True
    then have "arr_set (sh_line s) (length l) 0 = Some (padded (FINSH_CMD_SIZE + 1) (l @ r))"
      using line res by (simp add: arr_set_def list_update_append)
    then show ?thesis
      using True b(3) pos by (cases s) (simp add: key_backspace_def Let_def sh_edit_def sh_print_defs)
  next
    case False
    have "arr_read (sh_line s) (length l + 1) (length r) = Some r" using line by (simp add: arr_read_def)
    moreover have "\<exists>ys. arr_write (sh_line s) (length l) r = Some ys \<and> arr_set ys (length l + length r) 0 = Some (padded (FINSH_CMD_SIZE + 1) (l @ r))"
      using line res b(5) False by (cases r rule: rev_cases) (auto simp: arr_write_def arr_set_def list_update_append)
    moreover have "c_string (padded (FINSH_CMD_SIZE + 1) (l @ r)) (length l) = Some r" using b(4,5) by (intro c_string_padded) auto
    ultimately show ?thesis
      using False b(3,5) pos by (cases s) (auto simp: key_backspace_def Let_def sh_edit_def sh_print_defs)
  qed
qed

lemma key_left_run: "buffer_at s (l @ [c]) r \<Longrightarrow> key_left s = Some (sh_edit l (c # r) [8] s)"
  by (cases s) (simp add: key_left_def buffer_at_def sh_edit_def sh_print_defs)

lemma key_right_run:
  assumes "buffer_at s l (c # r)" shows "key_right s = Some (sh_edit (l @ [c]) r [c] s)"
proof -
  have "arr_get (padded 81 (l @ c # r)) (length l) = Some c" by (simp add: padded_def)
  then show ?thesis using assms by (cases s) (simp add: key_right_def buffer_at_def sh_edit_def sh_print_defs)
qed

lemma key_stops:
  "buffer_at s [] r \<Longrightarrow> key_left s = Some s" "buffer_at s l [] \<Longrightarrow> key_right s = Some s" "buffer_at s [] r \<Longrightarrow> key_backspace s = Some s"
  by (simp_all add: key_left_def key_right_def key_backspace_def buffer_at_def)

section \<open>History keys\<close>

lemma history_load_run:
  assumes "buffer_at s l r" and "i < length (cmd_history s)" and "cmd_history s ! i = padded FINSH_CMD_SIZE h" and "text_ok h"
  shows "history_load i s = Some (sh_edit h [] ([27, 91, 50, 75, 13] @ kprint (finsh_get_prompt s @ h)) (s\<lparr>current_history := i\<rparr>))"
proof -
  have line: "sh_line s = padded 81 (l @ r)" "length (l @ r) < 80" using assms(1) by (auto simp: buffer_at_def text_ok_def)
  have h: "length h < 80" "0 \<notin> set h" using assms(4) by (auto simp: text_ok_def)
  have "drop 80 (padded 81 (l @ r)) = [0]"
    using line(2) by (simp add: padded_def Suc_diff_le flip: replicate_append_same)
  then have "arr_write (padded 81 (l @ r)) 0 (padded 80 h) = Some (padded 80 h @ [0])"
    using h line by (simp add: arr_write_def padded_simps)
  also have "padded 80 h @ [0] = padded 81 h" using h padded_Suc [of h 80] by simp
  finally have w: "arr_write (padded 81 (l @ r)) 0 (padded 80 h) = Some (padded 81 h)" .
  have "c_string (padded 81 h) 0 = Some h" using h by (intro c_string_padded0) auto
  with w show ?thesis
    using assms(2,3) line
    by (cases s) (simp add: history_load_def shell_handle_history_def arr_get_def sh_edit_def sh_print_defs finsh_get_prompt_def)
qed

lemma shell_rel_history:
  assumes "shell_rel s e" "i < length (ed_hist e)"
  shows "i < length (cmd_history s)" "cmd_history s ! i = padded FINSH_CMD_SIZE (ed_hist e ! i)" "text_ok (ed_hist e ! i)"
proof -
  show "i < length (cmd_history s)" "text_ok (ed_hist e ! i)" using assms by (auto simp: shell_rel_def)
  have "take (length (ed_hist e)) (cmd_history s) ! i = padded FINSH_CMD_SIZE (ed_hist e ! i)" using assms by (simp add: shell_rel_def)
  then show "cmd_history s ! i = padded FINSH_CMD_SIZE (ed_hist e ! i)" using assms(2) by simp
qed

lemma history_load_rel:
  assumes "shell_rel s e" "i < length (ed_hist e)"
  shows "\<exists>s'. history_load i s = Some s' \<and> shell_rel s' (ed_recall i e)"
proof -
  have "shell_rel (s\<lparr>current_history := i\<rparr>) (e\<lparr>ed_cur := i\<rparr>)" using assms by (simp add: shell_rel_def ed_line_def)
  from shell_rel_edit [OF this, of "ed_hist e ! i" "[]"] show ?thesis
    using history_load_run [OF shell_rel_buffer [OF assms(1)] shell_rel_history [OF assms]] shell_rel_history(3) [OF assms]
    by (simp add: ed_recall_def ed_show_def)
qed

lemma padded_eq_iff: "text_ok xs \<Longrightarrow> text_ok ys \<Longrightarrow> padded 80 xs = padded 80 ys \<longleftrightarrow> xs = ys"
  unfolding text_ok_def by (metis c_string_padded0 option.inject)

lemma history_differs_run:
  assumes "shell_rel s e" "i < length (ed_hist e)"
  shows "history_differs i s = Some (ed_hist e ! i \<noteq> ed_line e)"
proof -
  have l: "text_ok (ed_line e)" "sh_line s = padded 81 (ed_line e)" using assms(1) by (auto simp: shell_rel_def)
  then have "arr_read (sh_line s) 0 80 = Some (padded 80 (ed_line e))"
    by (simp add: arr_read_def padded_simps text_ok_def) (simp add: padded_def)
  then show ?thesis
    using shell_rel_history [OF assms] l(1) by (auto simp: history_differs_def arr_get_def padded_eq_iff)
qed

lemma history_store_run:
  assumes "text_ok l" "sh_line s = padded 81 l" "line_position s = length l" "i < length (cmd_history s)"
  shows "history_store i s = Some (s\<lparr>cmd_history := (cmd_history s)[i := padded FINSH_CMD_SIZE l]\<rparr>)"
proof -
  have "arr_read (sh_line s) 0 (line_position s) = Some l" using assms by (simp add: arr_read_def padded_def)
  moreover have "arr_write (replicate 80 0) 0 l = Some (padded 80 l)"
    using assms(1) by (simp add: arr_write_def padded_def text_ok_def)
  ultimately show ?thesis using assms(4) by (simp add: history_store_def arr_set_def)
qed

lemma shell_rel_sh_history:
  assumes "shell_rel s e" "length H = FINSH_HISTORY_LINES" "\<forall>h\<in>set H. length h = FINSH_CMD_SIZE" "\<forall>h\<in>set hs. text_ok h"
    "length hs \<le> FINSH_HISTORY_LINES" "take (length hs) H = map (padded FINSH_CMD_SIZE) hs"
  shows "shell_rel (sh_history H (length hs) s) (e\<lparr>ed_hist := hs, ed_cur := length hs\<rparr>)"
  using assms by (simp add: shell_rel_def sh_history_def ed_line_def)

lemma push_history_run:
  assumes "shell_rel s e" defines "hs \<equiv> ed_remember e"
  shows "\<exists>H. shell_push_history s = Some (sh_history H (length hs) s) \<and> shell_rel (sh_history H (length hs) s) (e\<lparr>ed_hist := hs, ed_cur := length hs\<rparr>)"
proof -
  let ?h = "ed_hist e" and ?l = "ed_line e" and ?C = "cmd_history s"
  have C: "length ?C = 5" "\<forall>h\<in>set ?C. length h = 80" "\<forall>h\<in>set ?h. text_ok h" "length ?h \<le> 5" "take (length ?h) ?C = map (padded 80) ?h"
    and s: "history_count s = length ?h" "line_position s = length ?l" "text_ok ?l" "sh_line s = padded 81 ?l"
    using assms(1) by (simp_all add: shell_rel_def)
  have pl: "length (padded 80 ?l) = 80" using s(3) by (simp add: padded_simps text_ok_def)
  have last: "history_differs (length ?h - 1) s = Some (last ?h \<noteq> ?l)" if "?h \<noteq> []"
    using that history_differs_run [OF assms(1), of "length ?h - 1"] by (simp add: last_conv_nth)
  consider "?l = [] \<or> (?h \<noteq> [] \<and> last ?h = ?l)" | "?l \<noteq> []" "length ?h < 5" "?h \<noteq> [] \<longrightarrow> last ?h \<noteq> ?l"
    | "?l \<noteq> []" "length ?h = 5" "last ?h \<noteq> ?l" using C(4) by fastforce
  then show ?thesis
  proof cases
    case 1
    then have hs: "hs = ?h" by (auto simp: hs_def ed_remember_def)
    have "length ?h = 5" if "5 \<le> length ?h" using that C(4) by simp
    then have "shell_push_history s = Some (s\<lparr>current_history := history_count s\<rparr>)"
      using 1 last s by (auto simp: shell_push_history_def)
    moreover have "s\<lparr>current_history := history_count s\<rparr> = sh_history ?C (length ?h) s" using s(1) by (cases s) (simp add: sh_history_def)
    ultimately have "shell_push_history s = Some (sh_history ?C (length ?h) s)" by simp
    then show ?thesis using shell_rel_sh_history [OF assms(1) C(1-5)] hs by auto
  next
    case 2
    let ?H = "?C[length ?h := padded 80 ?l]"
    have hs: "hs = ?h @ [?l]" using 2 by (auto simp: hs_def ed_remember_def Let_def)
    have "shell_push_history s = Some (sh_history ?H (length ?h + 1) s)"
    proof -
      have "(if length ?h = 0 then Some True else history_differs (length ?h - 1) s) = Some True" using 2 last by auto
      moreover have "history_store (length ?h) (s\<lparr>current_history := length ?h\<rparr>) = Some (s\<lparr>current_history := length ?h, cmd_history := ?H\<rparr>)"
        using history_store_run [OF s(3), of "s\<lparr>current_history := length ?h\<rparr>" "length ?h"] s 2 C(1) by simp
      ultimately have "shell_push_history s = Some (s\<lparr>current_history := length ?h, cmd_history := ?H, history_count := length ?h + 1, current_history := length ?h + 1\<rparr>)"
        using 2 s by (cases "?h = []") (auto simp: shell_push_history_def)
      then show ?thesis by (cases s) (simp add: sh_history_def)
    qed
    moreover have "take (length hs) ?H = map (padded 80) hs"
      using 2 C(1,5) by (simp add: hs take_Suc_conv_app_nth)
    moreover have "\<forall>h\<in>set ?H. length h = 80" using C(2) pl set_update_subset_insert [of ?C "length ?h" "padded 80 ?l"] by auto
    ultimately show ?thesis
      using shell_rel_sh_history [OF assms(1), of ?H hs] C 2 s(3) by (auto simp: hs)
  next
    case 3
    let ?H = "(drop 1 ?C @ [last ?C])[4 := padded 80 ?l]"
    have hs: "hs = drop 1 ?h @ [?l]" using 3 by (auto simp: hs_def ed_remember_def Let_def)
    have H: "?H = drop 1 ?C @ [padded 80 ?l]" using C(1) by (simp add: list_update_append)
    have "shell_push_history s = Some (sh_history ?H 5 s)"
    proof -
      have "?h \<noteq> []" using 3(2) by auto
      then have "history_differs 4 s = Some True" using 3 last by simp
      moreover have "history_store 4 (s\<lparr>cmd_history := drop 1 ?C @ [last ?C]\<rparr>) = Some (s\<lparr>cmd_history := ?H\<rparr>)"
        using history_store_run [OF s(3), of "s\<lparr>cmd_history := drop 1 ?C @ [last ?C]\<rparr>" 4] s C(1) by simp
      ultimately show ?thesis
        using 3 s by (simp add: shell_push_history_def sh_history_def Let_def)
    qed
    moreover have "take (length hs) ?H = map (padded 80) hs"
      using 3 C(1,5) unfolding H by (simp add: hs drop_map)
    moreover have "\<forall>h\<in>set ?H. length h = 80" using C(2) pl unfolding H by (auto dest: in_set_dropD)
    ultimately show ?thesis
      using shell_rel_sh_history [OF assms(1), of ?H hs] C 3 s(3) by (auto simp: hs dest: in_set_dropD)
  qed
qed

section \<open>Completion and execution\<close>

lemma msh_help_lines:
  assumes "table_ok tbl" shows "\<exists>t. msh_help tbl = Some (t @ [10])"
  using assms
proof (induction tbl)
  case (Cons e es)
  then have e: "0 \<in> set (sc_name e)" "0 \<in> set (sc_desc e)" and IH: "\<exists>t. msh_help es = Some (t @ [10])" by (simp_all add: table_ok_def)
  from e(1) show ?case
  proof (cases e rule: table_command)
    case (cmd nm a)
    then have "c_string (sc_name e) 6 = Some nm" by (simp add: c_string_def takeWhile_zero)
    moreover have "\<exists>d. c_string (sc_desc e) 0 = Some d" using e(2) by (simp add: c_string_def)
    ultimately show ?thesis using IH cmd(2) by auto
  qed (use IH in simp)
qed simp

lemma candidates_text:
  assumes "x \<in> set (candidates tbl p)" shows "prefix p x" "0 \<notin> set x"
proof -
  obtain e where "command_name e = Some x" and p: "prefix p x"
    using assms by (auto simp: candidates_def List.map_filter_def)
  then show "0 \<notin> set x"
    by (auto simp: command_name_def Let_def split: if_splits dest: in_set_dropD set_takeWhileD)
  show "prefix p x" by (rule p)
qed

lemma completed_text:
  assumes "candidates tbl p \<noteq> []" defines "q \<equiv> Longest_common_prefix (set (candidates tbl p))"
  shows "length p \<le> length q" "0 \<notin> set q"
proof -
  show "length p \<le> length q"
    using assms candidates_text(1) by (auto simp: q_def intro!: Longest_common_prefix_longest)
  obtain x where x: "x \<in> set (candidates tbl p)" using assms(1) by (cases "candidates tbl p") auto
  then have "prefix q x" by (simp add: q_def Longest_common_prefix_prefix)
  then show "0 \<notin> set q" using candidates_text(2) [OF x] set_mono_prefix by blast
qed

text \<open>What completion makes of a line, and that what it prints are whole lines.\<close>

lemma auto_complete_line:
  assumes "text_ok p" "table_ok tbl"
    and "q = (if p = [] \<or> candidates tbl p = [] then p else Longest_common_prefix (set (candidates tbl p)))" "length q < FINSH_CMD_SIZE"
  shows "text_ok q" "\<exists>out. msh_auto_complete tbl (padded 81 p) = Some (padded 81 q, out)
      \<and> ((\<forall>n\<in>set (candidates tbl p). length n < 126) \<longrightarrow> out = [] \<or> last out = 10)"
proof -
  show q: "text_ok q" using assms completed_text(2) by (auto simp: text_ok_def split: if_splits)
  have p: "padded 81 p = p @ 0 # replicate (80 - length p) 0" "0 \<notin> set p" "length p < 80"
    using assms(1) padded_split [of p "[]" 81] by (simp_all add: text_ok_def)
  show "\<exists>out. msh_auto_complete tbl (padded 81 p) = Some (padded 81 q, out)
      \<and> ((\<forall>n\<in>set (candidates tbl p). length n < 126) \<longrightarrow> out = [] \<or> last out = 10)"
  proof (cases "p = []")
    case True
    then show ?thesis
      using msh_help_lines [OF assms(2)] assms(3) p(1) by (auto simp: msh_auto_complete_def)
  next
    case False
    let ?out = "concat (map (\<lambda>c. kprint (c @ [10])) (candidates tbl p))"
    have lines: "?out = [] \<or> last ?out = 10" if "\<forall>n\<in>set (candidates tbl p). length n < 126"
      using that by (cases "candidates tbl p" rule: rev_cases) auto
    have "msh_auto_complete tbl (padded 81 p) = Some (padded 81 q, ?out)"
    proof (cases "candidates tbl p = []")
      case True
      then show ?thesis
        using msh_auto_complete_run [OF p(2) False assms(2) refl, of "replicate (80 - length p) 0"] p(1) assms(3) by simp
    next
      case c: False
      have q': "q = Longest_common_prefix (set (candidates tbl p))" using c False assms(3) by simp
      have len: "length p \<le> length q" using completed_text(1) [OF c] q' by simp
      have "drop (length q) (padded 81 p) = replicate (81 - length q) 0"
        using len assms(4) by (simp add: padded_def)
      then have eq: "q @ drop (length q) (p @ 0 # replicate (80 - length p) 0) = padded 81 q"
        unfolding p(1) [symmetric] by (simp only: padded_def)
      have "length q \<le> length (p @ 0 # replicate (80 - length p) 0)" using assms(4) p(3) by simp
      then show ?thesis
        using msh_auto_complete_run [OF p(2) False assms(2) q', of "replicate (80 - length p) 0"] c unfolding eq p(1) by simp
    qed
    with lines show ?thesis by blast
  qed
qed

lemma key_tab_run:
  assumes "buffer_at s l r" "table_ok tbl" and "q = ed_complete tbl e" "ed_line e = l @ r" "length q < FINSH_CMD_SIZE"
  shows "text_ok q" "\<exists>out. key_tab tbl s = Some (sh_edit q [] (replicate (length l) 8 @ [10] @ out @ kprint (finsh_get_prompt s @ q)) s)
      \<and> ((\<forall>n\<in>set (candidates tbl (ed_line e)). length n < 126) \<longrightarrow> out = [] \<or> last out = 10)"
proof -
  have b: "sh_line s = padded 81 (l @ r)" "line_curpos s = length l" "text_ok (l @ r)" using assms(1) by (auto simp: buffer_at_def)
  note c = auto_complete_line [OF b(3) assms(2) _ assms(5)]
  have q: "q = (if l @ r = [] \<or> candidates tbl (l @ r) = [] then l @ r else Longest_common_prefix (set (candidates tbl (l @ r))))"
    using assms(3,4) by (simp add: ed_complete_def Let_def)
  show t: "text_ok q" using c(1) q by simp
  obtain out where out: "msh_auto_complete tbl (padded 81 (l @ r)) = Some (padded 81 q, out)"
    "(\<forall>n\<in>set (candidates tbl (l @ r)). length n < 126) \<longrightarrow> out = [] \<or> last out = 10" using c(2) q by blast
  have "c_string (padded 81 q) 0 = Some q" using t by (intro c_string_padded0) (auto simp: text_ok_def)
  then have "key_tab tbl s = Some (sh_edit q [] (replicate (length l) 8 @ [10] @ out @ kprint (finsh_get_prompt s @ q)) s)"
    using out(1) b by (cases s) (simp add: key_tab_def shell_auto_complete_def sh_print_defs sh_edit_def finsh_get_prompt_def)
  moreover have "(\<forall>n\<in>set (candidates tbl (ed_line e)). length n < 126) \<longrightarrow> out = [] \<or> last out = 10" using out(2) assms(4) by simp
  ultimately show "\<exists>out. key_tab tbl s = Some (sh_edit q [] (replicate (length l) 8 @ [10] @ out @ kprint (finsh_get_prompt s @ q)) s)
      \<and> ((\<forall>n\<in>set (candidates tbl (ed_line e)). length n < 126) \<longrightarrow> out = [] \<or> last out = 10)" by (intro exI [of _ out]) simp
qed

lemma msh_exec_line:
  assumes "text_ok l" "table_ok tbl"
  shows "\<exists>r out. msh_exec run tbl (padded 81 l) (length l) w = Some (r, out, ed_execute run tbl l w)"
proof -
  have l: "padded 81 l = l @ 0 # replicate (80 - length l) 0" "0 \<notin> set l" "length l < 2 ^ 32"
    using assms(1) padded_split [of l "[]" 81] by (simp_all add: text_ok_def)
  let ?f = "find_command tbl (takeWhile (\<lambda>c. \<not> is_blank c) (dropWhile is_blank l))"
  note x = msh_exec_run [OF l(2,3) assms(2) refl refl refl, of run "replicate (80 - length l) 0" w]
  show ?thesis
  proof (cases "dropWhile is_blank l = []")
    case True
    then show ?thesis using x l(1) by (simp add: ed_execute_def split: option.splits)
  next
    case False
    show ?thesis
    proof (cases ?f)
      case None
      then show ?thesis using x l(1) False by (simp add: ed_execute_def)
    next
      case (Some f)
      with x False obtain out where "msh_exec run tbl (padded 81 l) (length l) w =
          Some (fst (run f (take 10 (msh_words l)) w), out, snd (run f (take 10 (msh_words l)) w))"
        unfolding l(1) by blast
      then show ?thesis using Some False by (auto simp: ed_execute_def)
    qed
  qed
qed

lemma key_enter_rel:
  assumes "shell_rel s e" "table_ok tbl"
  shows "\<exists>s'. key_enter run tbl s = Some s' \<and> shell_rel s' (ed_show [] (e\<lparr>ed_hist := ed_remember e, ed_cur := length (ed_remember e),
     ed_world := ed_execute run tbl (ed_line e) (ed_world e)\<rparr>))"
proof -
  obtain s1 where h: "shell_push_history s = Some s1" and r: "shell_rel s1 (e\<lparr>ed_hist := ed_remember e, ed_cur := length (ed_remember e)\<rparr>)" (is "shell_rel s1 ?e1")
    using push_history_run [OF assms(1)] by blast
  let ?w = "ed_execute run tbl (ed_line e) (ed_world e)"
  define s2 where "s2 = (if echo_mode s1 then sh_print [10] s1 else s1)"
  have s2: "sh_line s2 = padded 81 (ed_line e)" "line_position s2 = length (ed_line e)" "text_ok (ed_line e)" "sh_world s2 = ed_world e"
    using r by (auto simp: s2_def shell_rel_def ed_line_def)
  obtain c out where x: "msh_exec run tbl (sh_line s2) (line_position s2) (sh_world s2) = Some (c, out, ?w)"
    using msh_exec_line [OF s2(3) assms(2), of run "ed_world e"] s2 by auto
  define s3 where "s3 = sh_print (finsh_get_prompt s2) (sh_console out (s2\<lparr>sh_world := ?w\<rparr>))"
  let ?s4 = "s3\<lparr>sh_line := replicate (length (sh_line s3)) 0, line_position := 0, line_curpos := 0\<rparr>"
  have "key_enter run tbl s = Some ?s4"
    using h x unfolding key_enter_def s3_def by (simp add: Let_def flip: s2_def)
  moreover have "shell_rel s3 (?e1\<lparr>ed_world := ?w\<rparr>)"
    using r by (simp add: s3_def s2_def shell_rel_def ed_line_def)
  then have "shell_rel (sh_edit [] [] [] s3) (ed_show [] (?e1\<lparr>ed_world := ?w\<rparr>))"
    using shell_rel_edit [of s3 "?e1\<lparr>ed_world := ?w\<rparr>" "[]" "[]" "[]"] by (simp add: ed_show_def text_ok_def)
  moreover have "length (sh_line s3) = 81" using s2(1,3) by (simp add: s3_def padded_simps text_ok_def)
  then have "sh_edit [] [] [] s3 = ?s4" by (cases s3) (simp add: sh_edit_def padded_def)
  ultimately show ?thesis by simp
qed

section \<open>The loop of the thread\<close>

lemma shell_rel_text: "shell_rel s e \<Longrightarrow> text_ok (ed_left e @ ed_right e)"
  by (simp add: shell_rel_def ed_line_def)

lemma key_backspace_rel:
  assumes "shell_rel s e" shows "\<exists>s'. key_backspace s = Some s' \<and> shell_rel s' (e\<lparr>ed_left := butlast (ed_left e)\<rparr>)"
proof (cases "ed_left e" rule: rev_cases)
  case Nil
  then have "shell_rel s (e\<lparr>ed_left := butlast (ed_left e)\<rparr>)" using assms by (cases e) simp
  then show ?thesis using key_stops(3) shell_rel_buffer [OF assms] Nil by auto
next
  case (snoc l c)
  have "text_ok (l @ ed_right e)" using shell_rel_text [OF assms] snoc by (auto simp: text_ok_def)
  moreover have "e\<lparr>ed_left := l, ed_right := ed_right e\<rparr> = e\<lparr>ed_left := l\<rparr>" by (cases e) simp
  ultimately show ?thesis
    using key_backspace_run [of s l c "ed_right e"] shell_rel_buffer [OF assms] snoc shell_rel_edit [OF assms, of l "ed_right e"] by auto
qed

lemma finsh_char_rel:
  assumes "shell_rel s e" "table_ok tbl" "length (ed_line (ed_char run tbl ch e)) < FINSH_CMD_SIZE"
  shows "\<exists>s'. finsh_char run tbl ch s = Some s' \<and> shell_rel s' (ed_char run tbl ch e)"
proof -
  note b = shell_rel_buffer [OF assms(1)]
  consider "ch = 0 \<or> ch = 0xFF" | "ch = 9" | "ch = 0x7f \<or> ch = 0x08" | "ch = 13 \<or> ch = 10"
    | "ch \<notin> {0, 0xFF, 9, 0x7f, 0x08, 13, 10}" by blast
  then show ?thesis
  proof cases
    case 1
    then show ?thesis using assms(1) by (auto simp: finsh_char_def ed_char_def)
  next
    case 2
    have len: "length (ed_complete tbl e) < FINSH_CMD_SIZE" using assms(3) 2 by (simp add: ed_char_def ed_show_def ed_line_def)
    show ?thesis
      using key_tab_run [OF b assms(2) refl _ len] shell_rel_edit [OF assms(1), of "ed_complete tbl e" "[]"] 2
      by (auto simp: finsh_char_def ed_char_def ed_show_def ed_line_def)
  next
    case 3
    then show ?thesis using key_backspace_rel [OF assms(1)] by (auto simp: finsh_char_def ed_char_def)
  next
    case 4
    then show ?thesis using key_enter_rel [OF assms(1,2)] by (auto simp: finsh_char_def ed_char_def)
  next
    case 5
    then have len: "length (ed_left e) + length (ed_right e) + 1 < FINSH_CMD_SIZE" using assms(3) by (simp add: ed_char_def ed_line_def)
    have "text_ok ((ed_left e @ [ch]) @ ed_right e)" using shell_rel_text [OF assms(1)] len 5 by (auto simp: text_ok_def)
    from shell_rel_edit [OF assms(1) this] have "shell_rel (sh_edit (ed_left e @ [ch]) (ed_right e) out s) (e\<lparr>ed_left := ed_left e @ [ch]\<rparr>)" for out
      by (cases e) simp
    then show ?thesis using key_normal_run [OF b _ len, of ch] 5 by (auto simp: finsh_char_def ed_char_def)
  qed
qed

lemma ed_arrow_rel:
  assumes "shell_rel s e"
  shows "\<exists>s'. key_up s = Some s' \<and> shell_rel s' (ed_arrow 0x41 e)" "\<exists>s'. key_down s = Some s' \<and> shell_rel s' (ed_arrow 0x42 e)"
    "\<exists>s'. key_left s = Some s' \<and> shell_rel s' (ed_arrow 0x44 e)" "\<exists>s'. key_right s = Some s' \<and> shell_rel s' (ed_arrow 0x43 e)"
proof -
  note b = shell_rel_buffer [OF assms] and t = shell_rel_text [OF assms]
  have h: "current_history s = ed_cur e" "history_count s = length (ed_hist e)" "ed_cur e \<le> length (ed_hist e)" using assms by (auto simp: shell_rel_def)
  show "\<exists>s'. key_up s = Some s' \<and> shell_rel s' (ed_arrow 0x41 e)"
  proof (cases "ed_cur e = 0")
    case True
    then have "shell_rel (s\<lparr>current_history := 0\<rparr>) e" using assms by (simp add: shell_rel_def)
    then show ?thesis using True h by (simp add: key_up_def ed_arrow_def)
  next
    case False
    then show ?thesis using history_load_rel [OF assms, of "ed_cur e - 1"] h by (simp add: key_up_def ed_arrow_def)
  qed
  show "\<exists>s'. key_down s = Some s' \<and> shell_rel s' (ed_arrow 0x42 e)"
  proof (cases "ed_hist e = []")
    case True
    then show ?thesis using assms h by (simp add: key_down_def ed_arrow_def)
  next
    case False
    let ?i = "min (ed_cur e + 1) (length (ed_hist e) - 1)"
    have "key_down s = history_load ?i s" using False h by (auto simp: key_down_def min_def)
    moreover have "?i < length (ed_hist e)" using False by (simp add: min.strict_coboundedI2)
    ultimately show ?thesis using False history_load_rel [OF assms, of ?i] by (simp add: ed_arrow_def)
  qed
  show "\<exists>s'. key_left s = Some s' \<and> shell_rel s' (ed_arrow 0x44 e)"
  proof (cases "ed_left e" rule: rev_cases)
    case Nil
    then show ?thesis using key_stops(1) b assms by (auto simp: ed_arrow_def)
  next
    case (snoc l c)
    then show ?thesis using key_left_run [of s l c] b t shell_rel_edit [OF assms, of l "c # ed_right e"] by (simp add: ed_arrow_def)
  qed
  show "\<exists>s'. key_right s = Some s' \<and> shell_rel s' (ed_arrow 0x43 e)"
  proof (cases "ed_right e")
    case Nil
    then show ?thesis using key_stops(2) b assms by (auto simp: ed_arrow_def)
  next
    case (Cons c r)
    then show ?thesis using key_right_run [of s "ed_left e" c r] b t shell_rel_edit [OF assms, of "ed_left e @ [c]" r] by (simp add: ed_arrow_def)
  qed
qed

lemma shell_rel_stat: "shell_rel s e \<Longrightarrow> shell_rel (s\<lparr>sh_stat := x\<rparr>) (e\<lparr>ed_stat := x\<rparr>)"
  by (simp add: shell_rel_def ed_line_def)

lemma finsh_key_rel:
  assumes "shell_rel s e" "table_ok tbl" "length (ed_line (ed_key run tbl ch e)) < FINSH_CMD_SIZE"
  shows "\<exists>s'. finsh_key run tbl ch s = Some s' \<and> shell_rel s' (ed_key run tbl ch e)"
proof -
  note n = shell_rel_stat [OF assms(1), of WAIT_NORMAL]
  have st: "sh_stat s = ed_stat e" using assms(1) by (simp add: shell_rel_def)
  have same: "finsh_char run tbl ch (s\<lparr>sh_stat := WAIT_NORMAL\<rparr>) = finsh_char run tbl ch s" if "ed_stat e = WAIT_NORMAL"
    using that st by (cases s) simp
  consider "ch = 0x1b" | "ch \<noteq> 0x1b" "ed_stat e = WAIT_SPEC_KEY" "ch = 0x5b" | "ch \<noteq> 0x1b" "ed_stat e = WAIT_FUNC_KEY" "ch \<in> {0x41, 0x42, 0x43, 0x44}"
    | "ch \<noteq> 0x1b" "ed_stat e = WAIT_SPEC_KEY \<longrightarrow> ch \<noteq> 0x5b" "ed_stat e = WAIT_FUNC_KEY \<longrightarrow> ch \<notin> {0x41, 0x42, 0x43, 0x44}" by blast
  then show ?thesis
  proof cases
    case 1
    then show ?thesis using shell_rel_stat [OF assms(1)] by (simp add: finsh_key_def ed_key_def)
  next
    case 2
    then show ?thesis using shell_rel_stat [OF assms(1)] st by (simp add: finsh_key_def ed_key_def)
  next
    case 3
    then show ?thesis using ed_arrow_rel [OF n] st by (auto simp: finsh_key_def ed_key_def Let_def)
  next
    case 4
    have e: "ed_key run tbl ch e = ed_char run tbl ch (e\<lparr>ed_stat := WAIT_NORMAL\<rparr>)" using 4 by (auto simp: ed_key_def)
    have "finsh_key run tbl ch s = finsh_char run tbl ch (s\<lparr>sh_stat := WAIT_NORMAL\<rparr>)"
      using 4 st same by (cases "ed_stat e") (auto simp: finsh_key_def Let_def)
    then show ?thesis using finsh_char_rel [OF n assms(2)] assms(3) by (simp add: e)
  qed
qed

lemma finsh_keys_rel:
  "shell_rel s e \<Longrightarrow> table_ok tbl \<Longrightarrow> lines_fit run tbl ks e
     \<Longrightarrow> \<exists>s'. finsh_keys run tbl ks s = Some s' \<and> shell_rel s' (ed_keys run tbl ks e)"
proof (induction ks arbitrary: s e)
  case (Cons c ks)
  then obtain s1 where "finsh_key run tbl c s = Some s1" "shell_rel s1 (ed_key run tbl c e)"
    using finsh_key_rel [of s e tbl run c] by auto
  then show ?case using Cons.IH [of s1 "ed_key run tbl c e"] Cons.prems by simp
qed simp

lemma shell_rel_start: "shell_rel (shell_start w) (editor_start w)"
  by (simp add: shell_rel_def shell_start_def editor_start_def ed_line_def text_ok_def padded_def)

section \<open>The screen\<close>

lemma plain_neq: "plain c \<Longrightarrow> c \<noteq> 27 \<and> c \<noteq> 8 \<and> c \<noteq> 10 \<and> c \<noteq> 13"
  by (auto simp: plain_def)

lemma terminal_steps [simp]:
  "terminal (8 # cs) (row, col) = terminal cs (row, col - 1)" "terminal (10 # cs) (row, col) = terminal cs (cells [], 0)"
  "terminal (13 # cs) (row, col) = terminal cs (row, 0)" "terminal (27 # 91 # 50 # 75 # cs) (row, col) = terminal cs (cells [], col)"
  "plain c \<Longrightarrow> terminal (c # cs) (row, col) = terminal cs (row(col := c), col + 1)"
  using plain_neq [of c] by (simp_all add: numeral_3_eq_3)

declare terminal.simps(2) [simp del]

lemma overlay_Nil [simp]: "overlay row col [] = row"
  by (rule ext) (auto simp: overlay_def)

lemma terminal_plain:
  "\<forall>c\<in>set xs. plain c \<Longrightarrow> terminal (xs @ ys) (row, col) = terminal ys (overlay row col xs, col + length xs)"
proof (induction xs arbitrary: row col)
  case Nil
  then show ?case by simp
next
  case (Cons c xs)
  have "overlay (row(col := c)) (Suc col) xs = overlay row col (c # xs)"
  proof
    fix i
    show "overlay (row(col := c)) (Suc col) xs i = overlay row col (c # xs) i"
    proof (cases "i < Suc col")
      case False
      then have "i - col = Suc (i - Suc col)" by simp
      with False show ?thesis by (auto simp: overlay_def)
    qed (auto simp: overlay_def)
  qed
  with Cons show ?case by simp
qed

lemma terminal_backspaces: "terminal (replicate n 8 @ ys) (row, col) = terminal ys (row, col - n)"
  by (induction n arbitrary: col) auto

lemma terminal_lines: "terminal (xs @ 10 # ys) t = terminal ys (cells [], 0)"
proof (induction xs arbitrary: t rule: length_induct)
  case (1 xs)
  show ?case
  proof (cases xs)
    case (Cons c cs)
    obtain row col where t: "t = (row, col)" by (cases t)
    show ?thesis
    proof (cases "c = 27 \<and> take 3 (cs @ 10 # ys) = [91, 50, 75]")
      case True
      then have "3 \<le> length cs"
        by (cases cs; cases "tl cs"; cases "tl (tl cs)") (auto simp: numeral_3_eq_3)
      then show ?thesis using 1 Cons True t by (simp add: terminal.simps(2))
    next
      case False
      then show ?thesis using 1 Cons t by (auto simp: terminal.simps(2))
    qed
  qed (cases t; simp)
qed

lemma overlay_cells: "length b \<le> length xs \<Longrightarrow> overlay (cells (a @ b)) (length a) xs = cells (a @ xs)"
  by (rule ext) (auto simp: overlay_def cells_def nth_append)

lemma cells_blanks: "cells (xs @ replicate n 32) = cells xs"
  by (rule ext) (auto simp: cells_def nth_append)

lemmas terminal_blank_row = overlay_cells [of "[]" _ "[]", simplified]

text \<open>What each change of the text prints, on the screen.\<close>

lemma terminal_insert:
  assumes "\<forall>c\<in>set (ch # r). plain c"
  shows "terminal ((ch # r) @ replicate (length r) 8) (cells (a @ r), length a) = (cells (a @ ch # r), length a + 1)"
  using terminal_plain [OF assms, of "replicate (length r) 8" "cells (a @ r)" "length a"] terminal_backspaces [of "length r" "[]"]
    overlay_cells [of r "ch # r" a] by simp

lemma terminal_delete:
  assumes "\<forall>c\<in>set r. plain c"
  shows "terminal (if r = [] then [8, 32, 8] else [8] @ r @ [32, 32, 8] @ replicate (length r + 1) 8) (cells (a @ c # r), length a + 1) = (cells (a @ r), length a)"
proof (cases "r = []")
  case True
  have "(cells (a @ [c]))(length a := 32) = cells a"
    by (rule ext) (auto simp: cells_def nth_append)
  moreover have "plain 32" by (simp add: plain_def)
  ultimately show ?thesis using True by simp
next
  case False
  have "\<forall>c\<in>set (r @ [32, 32]). plain c" using assms by (auto simp: plain_def)
  from terminal_plain [OF this, of "8 # replicate (length r + 1) 8" "cells (a @ c # r)" "length a"]
  show ?thesis
    using False overlay_cells [of "c # r" "r @ [32, 32]" a] cells_blanks [of "a @ r" "Suc (Suc 0)"] terminal_backspaces [of "length r" "[]"]
    by simp
qed

lemma terminal_recall:
  assumes "\<forall>c\<in>set xs. plain c" shows "terminal ([27, 91, 50, 75, 13] @ xs) t = (cells xs, length xs)"
  using terminal_plain [OF assms, of "[]" "cells []" 0] terminal_blank_row [of xs] by (cases t) simp

lemma terminal_complete:
  assumes "\<forall>c\<in>set xs. plain c" "out = [] \<or> last out = 10"
  shows "terminal (replicate n 8 @ [10] @ out @ xs) t = (cells xs, length xs)"
proof -
  obtain row col where t: "t = (row, col)" by (cases t)
  have x: "terminal xs (cells [], 0) = (cells xs, length xs)"
    using terminal_plain [OF assms(1), of "[]" "cells []" 0] terminal_blank_row [of xs] by simp
  show ?thesis
  proof (cases out rule: rev_cases)
    case Nil
    then show ?thesis using terminal_backspaces [of n "10 # xs"] x t by simp
  next
    case (snoc ys y)
    then show ?thesis
      using terminal_lines [of "replicate n 8 @ 10 # ys" xs t] assms(2) x by simp
  qed
qed

lemma shows_edit_sh_edit:
  assumes "terminal out (cells (finsh_get_prompt s @ ed_line e), length (finsh_get_prompt s) + length (ed_left e)) =
     (cells (finsh_get_prompt s @ l @ r), length (finsh_get_prompt s) + length l)" "ed_left e' = l" "ed_right e' = r" "sh_out s1 = sh_out s"
  shows "shows_edit s e (Some (sh_edit l r out s1)) e'"
  using assms by (simp add: shows_edit_def screen_def ed_line_def sh_edit_def)

lemma shows_edit_none: "ed_left e' = ed_left e \<Longrightarrow> ed_right e' = ed_right e \<Longrightarrow> sh_out s1 = sh_out s \<Longrightarrow> shows_edit s e (Some s1) e'"
  by (auto simp: shows_edit_def screen_def ed_line_def intro: exI [of _ "[]"])

lemma recall_shows:
  assumes "shell_rel s e" "i < length (ed_hist e)" "\<forall>c\<in>set (finsh_get_prompt s @ ed_line (ed_recall i e)). plain c"
    and "length (finsh_get_prompt s) + length (ed_line (ed_recall i e)) \<le> 126"
  shows "shows_edit s e (history_load i s) (ed_recall i e)"
  unfolding history_load_run [OF shell_rel_buffer [OF assms(1)] shell_rel_history [OF assms(1,2)]]
  by (rule shows_edit_sh_edit) (use assms(3,4) terminal_recall [of "finsh_get_prompt s @ ed_hist e ! i" "(row, col)" for row col] in \<open>simp_all add: ed_recall_def ed_show_def ed_line_def\<close>)

lemma backspace_shows:
  assumes "shell_rel s e" "\<forall>c\<in>set (ed_line e). plain c"
  shows "shows_edit s e (key_backspace s) (e\<lparr>ed_left := butlast (ed_left e)\<rparr>)"
proof (cases "ed_left e" rule: rev_cases)
  case Nil
  then have "key_backspace s = Some s" using key_stops(3) shell_rel_buffer [OF assms(1)] by auto
  with Nil show ?thesis by (simp add: shows_edit_none)
next
  case (snoc l c)
  have "buffer_at s (l @ [c]) (ed_right e)" using shell_rel_buffer [OF assms(1)] snoc by simp
  from key_backspace_run [OF this] show ?thesis
    using assms(2) snoc terminal_delete [of "ed_right e" "finsh_get_prompt s @ l" c]
    by (auto simp: ed_line_def intro!: shows_edit_sh_edit)
qed

lemma finsh_char_shows:
  assumes "shell_rel s e" "table_ok tbl" "length (ed_line (ed_char run tbl ch e)) < FINSH_CMD_SIZE" "echo_mode s"
    and "\<forall>c\<in>set (finsh_get_prompt s @ ed_line e @ ed_line (ed_char run tbl ch e)). plain c" and "ch \<noteq> 10" "ch \<noteq> 13"
    and "length (finsh_get_prompt s) + length (ed_line (ed_char run tbl ch e)) \<le> 126" "\<forall>n\<in>set (candidates tbl (ed_line e)). length n < 126"
  shows "shows_edit s e (finsh_char run tbl ch s) (ed_char run tbl ch e)"
proof -
  note b = shell_rel_buffer [OF assms(1)]
  consider "ch = 0 \<or> ch = 0xFF" | "ch = 9" | "ch = 0x7f \<or> ch = 0x08" | "ch \<notin> {0, 0xFF, 9, 0x7f, 0x08, 13, 10}" using assms(6,7) by blast
  then show ?thesis
  proof cases
    case 1
    then show ?thesis by (auto simp: finsh_char_def ed_char_def intro!: shows_edit_none)
  next
    case 2
    let ?q = "ed_complete tbl e"
    have len: "length ?q < FINSH_CMD_SIZE" and p: "\<forall>c\<in>set (finsh_get_prompt s @ ?q). plain c"
      using assms(3,5) 2 by (auto simp: ed_char_def ed_show_def ed_line_def)
    obtain out where out: "key_tab tbl s = Some (sh_edit ?q [] (replicate (length (ed_left e)) 8 @ [10] @ out @ kprint (finsh_get_prompt s @ ?q)) s)" "out = [] \<or> last out = 10"
      using key_tab_run(2) [OF b assms(2) refl _ len] assms(9) by (auto simp: ed_line_def)
    have k: "kprint (finsh_get_prompt s @ ?q) = finsh_get_prompt s @ ?q"
      using assms(8) 2 by (simp add: ed_char_def ed_show_def ed_line_def)
    have "shows_edit s e (key_tab tbl s) (ed_show ?q e)"
      unfolding out(1) k
      by (rule shows_edit_sh_edit) (use terminal_complete [OF p out(2)] in \<open>simp_all add: ed_show_def\<close>)
    then show ?thesis using 2 by (simp add: finsh_char_def ed_char_def)
  next
    case 3
    then show ?thesis using backspace_shows [OF assms(1)] assms(5) by (auto simp: finsh_char_def ed_char_def)
  next
    case 4
    then have len: "length (ed_left e) + length (ed_right e) + 1 < FINSH_CMD_SIZE" and p: "\<forall>c\<in>set (ch # ed_right e). plain c"
      using assms(3,5) by (auto simp: ed_char_def ed_line_def)
    have "shows_edit s e (key_normal ch s) (e\<lparr>ed_left := ed_left e @ [ch]\<rparr>)"
      using key_normal_run [OF b _ len, of ch] 4 assms(4) terminal_insert [OF p, of "finsh_get_prompt s @ ed_left e"]
      by (auto simp: ed_line_def intro!: shows_edit_sh_edit)
    then show ?thesis using 4 by (simp add: finsh_char_def ed_char_def)
  qed
qed

lemma ed_arrow_shows:
  assumes "shell_rel s e" "\<forall>c\<in>set (finsh_get_prompt s @ ed_line e @ ed_line (ed_arrow ch e)). plain c"
    and "length (finsh_get_prompt s) + length (ed_line (ed_arrow ch e)) \<le> 126"
  shows "ch = 0x41 \<Longrightarrow> shows_edit s e (key_up s) (ed_arrow ch e)" "ch = 0x42 \<Longrightarrow> shows_edit s e (key_down s) (ed_arrow ch e)"
    "ch = 0x44 \<Longrightarrow> shows_edit s e (key_left s) (ed_arrow ch e)" "ch = 0x43 \<Longrightarrow> shows_edit s e (key_right s) (ed_arrow ch e)"
proof -
  note b = shell_rel_buffer [OF assms(1)] and r = recall_shows [OF assms(1)]
  have h: "current_history s = ed_cur e" "history_count s = length (ed_hist e)" "ed_cur e \<le> length (ed_hist e)" using assms(1) by (auto simp: shell_rel_def)
  show "shows_edit s e (key_up s) (ed_arrow ch e)" if "ch = 0x41"
  proof (cases "ed_cur e = 0")
    case True
    then show ?thesis using that h by (simp add: key_up_def ed_arrow_def shows_edit_none)
  next
    case False
    then have "ed_cur e - 1 < length (ed_hist e)" using h(3) by linarith
    then show ?thesis using that assms(2,3) h False r [of "ed_cur e - 1"] by (simp add: key_up_def ed_arrow_def ball_Un)
  qed
  show "shows_edit s e (key_down s) (ed_arrow ch e)" if "ch = 0x42"
  proof (cases "ed_hist e = []")
    case True
    then show ?thesis using that h by (simp add: key_down_def ed_arrow_def shows_edit_none)
  next
    case False
    let ?i = "min (ed_cur e + 1) (length (ed_hist e) - 1)"
    have "key_down s = history_load ?i s" using False h by (auto simp: key_down_def min_def)
    moreover have "?i < length (ed_hist e)" using False by (simp add: min.strict_coboundedI2)
    ultimately show ?thesis using that False r [of ?i] assms(2,3) by (simp add: ed_arrow_def ball_Un)
  qed
  show "shows_edit s e (key_left s) (ed_arrow ch e)" if "ch = 0x44"
  proof (cases "ed_left e" rule: rev_cases)
    case Nil
    then show ?thesis using that key_stops(1) [of s "ed_right e"] b by (simp add: ed_arrow_def shows_edit_none)
  next
    case (snoc l c)
    then show ?thesis using that key_left_run [of s l c] b by (simp add: ed_arrow_def ed_line_def shows_edit_sh_edit)
  qed
  show "shows_edit s e (key_right s) (ed_arrow ch e)" if "ch = 0x43"
  proof (cases "ed_right e")
    case Nil
    then show ?thesis using that key_stops(2) [of s "ed_left e"] b by (simp add: ed_arrow_def shows_edit_none)
  next
    case (Cons c cs)
    let ?a = "finsh_get_prompt s @ ed_left e"
    have p: "plain c" using assms(2) Cons by (auto simp: ed_line_def)
    have o: "(cells (?a @ c # cs))(length ?a := c) = cells (?a @ c # cs)" by (rule ext) (auto simp: cells_def nth_append)
    have "shows_edit s e (Some (sh_edit (ed_left e @ [c]) cs [c] s)) (ed_arrow ch e)"
      using p o Cons that by (intro shows_edit_sh_edit) (simp_all add: ed_line_def ed_arrow_def)
    then show ?thesis using key_right_run [of s "ed_left e" c cs] b Cons by simp
  qed
qed

lemma shows_edit_stat [simp]:
  "shows_edit (s\<lparr>sh_stat := x\<rparr>) e r e' = shows_edit s e r e'" "shows_edit s (e\<lparr>ed_stat := y\<rparr>) r e' = shows_edit s e r e'"
  by (simp_all add: shows_edit_def screen_def ed_line_def finsh_get_prompt_def)

text \<open>The loop round of a key shows on the screen what it does to the text.\<close>

lemma finsh_key_shows:
  assumes "shell_rel s e" "table_ok tbl" "length (ed_line (ed_key run tbl ch e)) < FINSH_CMD_SIZE" "echo_mode s"
    and "\<forall>c\<in>set (finsh_get_prompt s @ ed_line e @ ed_line (ed_key run tbl ch e)). plain c" and "ch \<noteq> 10" "ch \<noteq> 13"
    and "length (finsh_get_prompt s) + length (ed_line (ed_key run tbl ch e)) \<le> 126" "\<forall>n\<in>set (candidates tbl (ed_line e)). length n < 126"
  shows "shows_edit s e (finsh_key run tbl ch s) (ed_key run tbl ch e)"
proof -
  let ?s = "s\<lparr>sh_stat := WAIT_NORMAL\<rparr>" and ?e = "e\<lparr>ed_stat := WAIT_NORMAL\<rparr>"
  note n = shell_rel_stat [OF assms(1), of WAIT_NORMAL]
  have st: "sh_stat s = ed_stat e" using assms(1) by (simp add: shell_rel_def)
  have p: "finsh_get_prompt ?s = finsh_get_prompt s" "ed_line ?e = ed_line e" by (simp_all add: finsh_get_prompt_def ed_line_def)
  have same: "finsh_char run tbl ch ?s = finsh_char run tbl ch s" if "ed_stat e = WAIT_NORMAL"
    using that st by (cases s) simp
  consider "ch = 0x1b \<or> (ed_stat e = WAIT_SPEC_KEY \<and> ch = 0x5b)" | "ch \<noteq> 0x1b" "ed_stat e = WAIT_FUNC_KEY" "ch \<in> {0x41, 0x42, 0x43, 0x44}"
    | "ch \<noteq> 0x1b" "ed_stat e = WAIT_SPEC_KEY \<longrightarrow> ch \<noteq> 0x5b" "ed_stat e = WAIT_FUNC_KEY \<longrightarrow> ch \<notin> {0x41, 0x42, 0x43, 0x44}" by blast
  then show ?thesis
  proof cases
    case 1
    then show ?thesis using st by (auto simp: finsh_key_def ed_key_def intro!: shows_edit_none)
  next
    case 2
    then have e: "ed_key run tbl ch e = ed_arrow ch ?e" by (auto simp: ed_key_def)
    have pl: "\<forall>c\<in>set (finsh_get_prompt ?s @ ed_line ?e @ ed_line (ed_arrow ch ?e)). plain c"
      "length (finsh_get_prompt ?s) + length (ed_line (ed_arrow ch ?e)) \<le> 126" using assms(5,8) by (simp_all add: p e)
    show ?thesis
      using 2 st ed_arrow_shows [OF n pl] unfolding e by (auto simp: finsh_key_def Let_def)
  next
    case 3
    have e: "ed_key run tbl ch e = ed_char run tbl ch ?e" using 3 by (auto simp: ed_key_def)
    have "finsh_key run tbl ch s = finsh_char run tbl ch ?s"
      using 3 st same by (cases "ed_stat e") (auto simp: finsh_key_def Let_def)
    then show ?thesis using finsh_char_shows [OF n assms(2), of run ch] assms(3-) by (simp add: e p)
  qed
qed

section \<open>A line that fills the buffer\<close>

lemma finsh_keys_append: "finsh_keys run tbl (xs @ ys) s = finsh_keys run tbl xs s \<bind> finsh_keys run tbl ys"
proof (induction xs arbitrary: s)
  case (Cons c xs)
  then show ?case by (cases "finsh_key run tbl c s") simp_all
qed simp

lemma plain_key: "plain c \<Longrightarrow> sh_stat s = WAIT_NORMAL \<Longrightarrow> finsh_key run tbl c s = key_normal c s"
  by (auto simp: plain_def finsh_key_def finsh_char_def)

text \<open>Seventy-nine characters fit; the next one starts the line again, but its characters stay in the buffer.\<close>

lemma normal_keys_run:
  assumes "buffer_at s l []" "sh_stat s = WAIT_NORMAL" "\<forall>c\<in>set xs. plain c" "length l + length xs < FINSH_CMD_SIZE"
  shows "\<exists>s'. finsh_keys run tbl xs s = Some s' \<and> buffer_at s' (l @ xs) [] \<and> sh_stat s' = WAIT_NORMAL"
  using assms
proof (induction xs arbitrary: s l)
  case Nil
  then show ?case by simp
next
  case (Cons c xs)
  let ?s = "sh_edit (l @ [c]) [] (if echo_mode s then [c] else []) s"
  have c: "plain c" "c \<noteq> 0" using Cons.prems(3) by (auto simp: plain_def)
  then have "finsh_key run tbl c s = Some ?s"
    using key_normal_run [OF Cons.prems(1), of c] Cons.prems(2,4) by (simp add: plain_key)
  moreover have "buffer_at ?s (l @ [c]) []" "sh_stat ?s = WAIT_NORMAL"
    using Cons.prems c(2) by (auto simp: buffer_at_def sh_edit_def text_ok_def)
  ultimately show ?case using Cons.IH [of ?s "l @ [c]"] Cons.prems(3,4) by auto
qed

lemma full_line_run:
  assumes "length xs = FINSH_CMD_SIZE" "\<forall>c\<in>set xs. plain c"
  shows "\<exists>s'. finsh_keys run tbl xs (shell_start w) = Some s' \<and> sh_line s' = xs @ [0] \<and> line_position s' = 0 \<and> line_curpos s' = 0
     \<and> sh_stat s' = WAIT_NORMAL"
proof -
  obtain ys c where xs: "xs = ys @ [c]" using assms(1) by (cases xs rule: rev_cases) auto
  have "buffer_at (shell_start w) [] []" "sh_stat (shell_start w) = WAIT_NORMAL"
    by (simp_all add: buffer_at_def shell_start_def padded_def text_ok_def)
  then obtain s1 where s1: "finsh_keys run tbl ys (shell_start w) = Some s1" "buffer_at s1 ys []" "sh_stat s1 = WAIT_NORMAL"
    using normal_keys_run [of "shell_start w" "[]" ys run tbl] assms xs by auto
  have b: "sh_line s1 = ys @ [0, 0]" "line_position s1 = 79" "line_curpos s1 = 79"
    using s1(2) assms(1) xs by (simp_all add: buffer_at_def padded_def eval_nat_numeral)
  have "\<exists>s'. key_normal c s1 = Some s' \<and> sh_line s' = ys @ [c, 0] \<and> line_position s' = 0 \<and> line_curpos s' = 0 \<and> sh_stat s' = WAIT_NORMAL"
    using b s1(3) assms(1) xs by (simp add: key_normal_def arr_set_def list_update_append)
  then show ?thesis
    using s1 assms(2) xs by (auto simp: finsh_keys_append plain_key)
qed

text \<open>Completion after a full line sets the length to the size of the buffer; the next character then leaves the cursor behind the
  line, and deleting takes the length below zero.\<close>

lemma full_line_tab_fails:
  assumes "length xs = FINSH_CMD_SIZE" "\<forall>c\<in>set xs. plain c" "table_ok tbl" "candidates tbl xs = []" "plain c"
  shows "finsh_keys run tbl (xs @ [9, c, 8, 8]) (shell_start w) = None"
proof -
  obtain s1 where s1: "finsh_keys run tbl xs (shell_start w) = Some s1" "sh_line s1 = xs @ [0]" "line_position s1 = 0" "line_curpos s1 = 0" "sh_stat s1 = WAIT_NORMAL"
    using full_line_run [OF assms(1,2), of run tbl w] by auto
  have x: "0 \<notin> set xs" "xs \<noteq> []" using assms(1,2) by (auto simp: plain_def)
  have "msh_auto_complete tbl (xs @ [0]) = Some (xs @ [0], [])"
    using msh_auto_complete_run [OF x assms(3) refl, of "[]"] assms(4) by simp
  moreover have "c_string (xs @ [0]) 0 = Some xs" using x by (simp add: c_string_def takeWhile_zero)
  ultimately have "\<exists>s2. key_tab tbl s1 = Some s2 \<and> sh_line s2 = xs @ [0] \<and> line_position s2 = 80 \<and> line_curpos s2 = 80 \<and> sh_stat s2 = WAIT_NORMAL"
    using s1(2-5) assms(1) by (simp add: key_tab_def shell_auto_complete_def)
  moreover have "finsh_key run tbl 9 s1 = key_tab tbl s1" using s1(5) by (simp add: finsh_key_def finsh_char_def)
  ultimately obtain s2 where s2: "finsh_key run tbl 9 s1 = Some s2" "sh_line s2 = xs @ [0]" "line_position s2 = 80" "line_curpos s2 = 80" "sh_stat s2 = WAIT_NORMAL"
    by auto
  have "\<exists>s3. key_normal c s2 = Some s3 \<and> length (sh_line s3) = 81 \<and> line_position s3 = 1 \<and> line_curpos s3 = 81 \<and> sh_stat s3 = WAIT_NORMAL"
    using s2 assms(1) by (simp add: key_normal_def arr_set_def Let_def)
  then obtain s3 where s3: "finsh_key run tbl c s2 = Some s3" "length (sh_line s3) = 81" "line_position s3 = 1" "line_curpos s3 = 81" "sh_stat s3 = WAIT_NORMAL"
    using plain_key [OF assms(5) s2(5)] by auto
  have "\<exists>s4. key_backspace s3 = Some s4 \<and> length (sh_line s4) = 81 \<and> line_position s4 = 0 \<and> line_curpos s4 = 80 \<and> sh_stat s4 = WAIT_NORMAL"
    using s3 by (simp add: key_backspace_def arr_set_def Let_def)
  then obtain s4 where s4: "finsh_key run tbl 8 s3 = Some s4" "length (sh_line s4) = 81" "line_position s4 = 0" "line_curpos s4 = 80" "sh_stat s4 = WAIT_NORMAL"
    using s3(5) by (auto simp: finsh_key_def finsh_char_def)
  then have "finsh_key run tbl 8 s4 = None"
    by (simp add: finsh_key_def finsh_char_def key_backspace_def arr_read_def Let_def)
  with s1 s2 s3 s4 show ?thesis by (simp add: finsh_keys_append)
qed

text \<open>A full line that starts with a blank is executed with the length zero, which trimming takes below zero.\<close>

lemma skip_word_runs_off:
  assumes "\<forall>c\<in>set (drop pos xs). \<not> is_blank c" "length xs < len" "pos \<le> length xs" shows "skip_word xs pos len = None"
  using assms
proof (induction "length xs - pos" arbitrary: pos)
  case 0
  then show ?case by (subst skip_word.simps) (simp add: arr_get_def)
next
  case (Suc n)
  then have "\<not> is_blank (xs ! pos)" "pos < length xs" by (simp_all add: Cons_nth_drop_Suc [symmetric])
  moreover have "skip_word xs (pos + 1) len = None"
    using Suc.hyps(1) [of "pos + 1"] Suc.hyps(2) Suc.prems by (auto dest: in_set_dropD simp: Cons_nth_drop_Suc [symmetric])
  moreover have "pos < len" using Suc.prems by simp
  ultimately show ?case by (subst skip_word.simps) (simp add: arr_get_def)
qed

lemma full_line_enter_fails:
  assumes "length xs = 79" "\<forall>c\<in>set xs. plain c \<and> \<not> is_blank c"
  shows "finsh_keys run tbl ((32 # xs) @ [13]) (shell_start w) = None"
proof -
  have "\<forall>c\<in>set (32 # xs). plain c" using assms(2) by (auto simp: plain_def)
  then obtain s1 where s1: "finsh_keys run tbl (32 # xs) (shell_start w) = Some s1" "sh_line s1 = (32 # xs) @ [0]" "line_position s1 = 0" "sh_stat s1 = WAIT_NORMAL"
    using full_line_run [of "32 # xs" run tbl w] assms(1) by auto
  have "xs \<noteq> []" using assms(1) by auto
  then have t: "trim_blanks ((32 # xs) @ [0]) 0 = Some (xs @ [0], 2 ^ 32 - 1)"
    using assms(2) by (cases xs) (auto simp: is_blank_def)
  have "skip_word (xs @ [0]) 0 (2 ^ 32 - 1) = None"
    using assms by (intro skip_word_runs_off) (auto simp: is_blank_def)
  then have "msh_exec run tbl ((32 # xs) @ [0]) 0 v = None" for v
    using t by (simp add: msh_exec_def msh_exec_cmd_def del: trim_blanks.simps)
  then have "key_enter run tbl s1 = None"
    using s1 by (simp add: key_enter_def shell_push_history_def)
  then have "finsh_key run tbl 13 s1 = None" using s1(4) by (simp add: finsh_key_def finsh_char_def)
  with s1(1) show ?thesis by (simp only: finsh_keys_append) simp
qed

section \<open>Properties\<close>

text \<open>
  C33. The shell is a line editor. As long as no line reaches the size of the buffer, every sequence of keys from the start is
  processed without an access out of its arrays, and the result represents that of the abstract editor, which has the text on both
  sides of a cursor and a list of the last five lines that were not empty and different from the line before: a character is inserted at the cursor, backspace deletes in
  front of it, the arrows move it or recall a line, the tabulator completes, and a line that is entered is remembered, executed
  once, and cleared.
\<close>

theorem finsh_line_editor:
  assumes "table_ok tbl" and "lines_fit run tbl ks (editor_start w)"
  shows "\<exists>s. finsh_keys run tbl ks (shell_start w) = Some s \<and> shell_rel s (ed_keys run tbl ks (editor_start w))"
  using shell_rel_start assms by (rule finsh_keys_rel)

theorem finsh_line_editor_witness:
  "\<exists>s. finsh_keys note_run sample_table (c_text ''list_m'' @ [27, 91, 68] @ [9, 13]) (shell_start []) = Some s
     \<and> sh_world s = [[c_text ''list_mem'']] \<and> line_position s = 0 \<and> history_count s = 1"
proof -
  let ?ks = "c_text ''list_m'' @ [27, 91, 68] @ [9, 13]"
  have "candidates sample_table (c_text ''list_m'') = [c_text ''list_mem'']"
    by (simp add: candidates_def sample_table_def c_text_def command_name_def List.map_filter_simps)
  moreover have "find_command sample_table (c_text ''list_mem'') = Some 1"
    by (simp add: find_command_def sample_table_def c_text_def command_name_def)
  ultimately have "lines_fit note_run sample_table ?ks (editor_start [])"
    and e: "ed_world (ed_keys note_run sample_table ?ks (editor_start [])) = [[c_text ''list_mem'']]"
      "ed_line (ed_keys note_run sample_table ?ks (editor_start [])) = []" "length (ed_hist (ed_keys note_run sample_table ?ks (editor_start []))) = 1"
    by (simp_all add: c_text_def editor_start_def ed_key_def ed_char_def ed_arrow_def ed_line_def ed_show_def ed_complete_def ed_remember_def
        ed_execute_def is_blank_def note_run_def)
  moreover have "table_ok sample_table" by (simp add: table_ok_def sample_table_def)
  ultimately show ?thesis
    using finsh_line_editor [of sample_table note_run ?ks "[]"] by (auto simp: shell_rel_def)
qed



text \<open>
  C36. What goes wrong when a line reaches the size of the buffer. After eighty characters the positions are reset, but the
  characters stay. The tabulator then takes them for the line, the next character leaves the cursor behind it, and two
  backspaces move bytes from behind the array; and when the first of the characters is a blank, the end of the line executes
  a line whose length is below zero, which reads behind the array.
\<close>

theorem finsh_full_line_unsafe:
  assumes "length xs = FINSH_CMD_SIZE" and "\<forall>c\<in>set xs. plain c \<and> \<not> is_blank c" and "table_ok tbl" and "candidates tbl xs = []"
  shows "finsh_keys run tbl (xs @ [9, 97, 8, 8]) (shell_start w) = None
    \<and> finsh_keys run tbl ((32 # tl xs) @ [13]) (shell_start w) = None"
proof -
  have "plain 97" by (simp add: plain_def)
  moreover have "\<forall>c\<in>set (tl xs). plain c \<and> \<not> is_blank c" using assms(2) by (cases xs) auto
  ultimately show ?thesis
    using full_line_tab_fails [of xs tbl 97 run w] full_line_enter_fails [of "tl xs" run tbl w] assms by simp
qed

theorem finsh_full_line_unsafe_witness:
  "finsh_keys note_run [] (replicate 80 98 @ [9, 97, 8, 8]) (shell_start []) = None
    \<and> finsh_keys note_run [] ((32 # tl (replicate 80 98)) @ [13]) (shell_start []) = None"
  by (rule finsh_full_line_unsafe) (simp_all add: plain_def is_blank_def table_ok_def candidates_def List.map_filter_simps)

end
