(* ===== verification/Serial_Fifo.thy ===== *)
theory Serial_Fifo
  imports Fifo
begin

text \<open>
  The receive buffer of a serial device (\<^verbatim>\<open>struct rt_serial_rx_fifo\<close> of \<^verbatim>\<open>components/drivers/serial/serial.c\<close>). In interrupt
  mode the interrupt handler stores one byte at a time and drops the oldest one when it reaches the read position; in DMA
  mode the hardware has stored a block, and only the indices are moved. The indices have 16 bits; \<open>bz\<close> is \<^verbatim>\<open>config.bufsz\<close>.
\<close>

section \<open>Definitions\<close>

record rt_serial_rx_fifo =
  rx_buffer :: "u8 list"
  rx_put_index :: nat
  rx_get_index :: nat
  rx_is_full :: bool

abbreviation u16_of :: "nat \<Rightarrow> nat" where "u16_of n \<equiv> n mod 2 ^ 16"

definition rx_fifo_init :: "nat \<Rightarrow> rt_serial_rx_fifo" where
  "rx_fifo_init bz = \<lparr>rx_buffer = replicate bz 0, rx_put_index = 0, rx_get_index = 0, rx_is_full = False\<rparr>"

text \<open>An index moved by one, back to the start behind the end.\<close>

definition rx_next :: "nat \<Rightarrow> nat \<Rightarrow> nat" where
  "rx_next bz i = (let j = u16_of (i + 1) in if j \<ge> bz then 0 else j)"

fun serial_int_rx :: "nat \<Rightarrow> nat \<Rightarrow> rt_serial_rx_fifo \<Rightarrow> (u8 list \<times> rt_serial_rx_fifo) option" where
  "serial_int_rx bz 0 f = Some ([], f)"
| "serial_int_rx bz (Suc n) f =
     (if rx_get_index f = rx_put_index f \<and> \<not> rx_is_full f then Some ([], f)
      else do {
        ch \<leftarrow> arr_get (rx_buffer f) (rx_get_index f);
        (xs, f1) \<leftarrow> serial_int_rx bz n (f\<lparr>rx_get_index := rx_next bz (rx_get_index f), rx_is_full := False\<rparr>);
        Some (ch # xs, f1)
      })"

definition isr_store :: "nat \<Rightarrow> u8 \<Rightarrow> rt_serial_rx_fifo \<Rightarrow> rt_serial_rx_fifo option" where
  "isr_store bz ch f = do {
     b \<leftarrow> arr_set (rx_buffer f) (rx_put_index f) ch;
     let f1 = f\<lparr>rx_buffer := b, rx_put_index := rx_next bz (rx_put_index f)\<rparr>;
     Some (if rx_put_index f1 = rx_get_index f1
           then f1\<lparr>rx_get_index := rx_next bz (rx_get_index f1), rx_is_full := True\<rparr> else f1)
   }"

definition isr_rx_length :: "nat \<Rightarrow> rt_serial_rx_fifo \<Rightarrow> nat" where
  "isr_rx_length bz f =
     (if rx_put_index f \<ge> rx_get_index f then rx_put_index f - rx_get_index f else bz - (rx_get_index f - rx_put_index f))"

definition serial_fifo_calc_recved_len :: "nat \<Rightarrow> rt_serial_rx_fifo \<Rightarrow> nat" where
  "serial_fifo_calc_recved_len bz f =
     (if rx_put_index f = rx_get_index f then (if \<not> rx_is_full f then 0 else bz)
      else if rx_put_index f > rx_get_index f then rx_put_index f - rx_get_index f
      else bz - (rx_get_index f - rx_put_index f))"

definition rt_dma_calc_recved_len :: "nat \<Rightarrow> rt_serial_rx_fifo \<Rightarrow> nat" where
  "rt_dma_calc_recved_len bz f = serial_fifo_calc_recved_len bz f"

definition rt_dma_recv_update_get_index :: "nat \<Rightarrow> nat \<Rightarrow> rt_serial_rx_fifo \<Rightarrow> rt_serial_rx_fifo option" where
  "rt_dma_recv_update_get_index bz len f = do {
     rt_assert (len \<le> rt_dma_calc_recved_len bz f);
     let g = u16_of (rx_get_index f + len);
     Some (f\<lparr>rx_is_full := (if rx_is_full f \<and> len \<noteq> 0 then False else rx_is_full f),
             rx_get_index := (if g \<ge> bz then g mod bz else g)\<rparr>)
   }"

definition rt_dma_recv_update_put_index :: "nat \<Rightarrow> nat \<Rightarrow> rt_serial_rx_fifo \<Rightarrow> rt_serial_rx_fifo" where
  "rt_dma_recv_update_put_index bz len f =
     (let g = rx_get_index f; p = u16_of (rx_put_index f + len);
          (p', full) =
            (if g \<le> rx_put_index f then
               if p \<ge> bz then (p mod bz, p mod bz \<ge> g \<or> rx_is_full f) else (p, rx_is_full f)
             else if p \<ge> g then (if p \<ge> bz then p mod bz else p, True)
             else (p, rx_is_full f)) in
      f\<lparr>rx_put_index := p', rx_is_full := full, rx_get_index := (if full then p' else g)\<rparr>)"

text \<open>Reading in DMA mode: the bytes that are copied in one or in two pieces.\<close>

definition serial_dma_rx_fifo :: "nat \<Rightarrow> nat \<Rightarrow> rt_serial_rx_fifo \<Rightarrow> (u8 list \<times> rt_serial_rx_fifo) option" where
  "serial_dma_rx_fifo bz n f = do {
     let recved = rt_dma_calc_recved_len bz f;
     let recv_len = (if n < recved then n else recved);
     let g = rx_get_index f;
     data \<leftarrow> (if g + recv_len < bz then arr_read (rx_buffer f) g recv_len
              else do {
                xs \<leftarrow> arr_read (rx_buffer f) g (bz - g);
                ys \<leftarrow> arr_read (rx_buffer f) 0 (recv_len + g - bz);
                Some (xs @ ys)
              });
     f1 \<leftarrow> rt_dma_recv_update_get_index bz recv_len f;
     Some (data, f1)
   }"

text \<open>The received bytes, oldest first; the hardware storing a block from the write position on; the states of
  the two modes.\<close>

definition ring :: "'a list \<Rightarrow> nat \<Rightarrow> nat \<Rightarrow> 'a list" where
  "ring b g c = map (\<lambda>i. b ! ((g + i) mod length b)) [0..<c]"

definition rx_contents :: "nat \<Rightarrow> rt_serial_rx_fifo \<Rightarrow> u8 list" where
  "rx_contents bz f = ring (rx_buffer f) (rx_get_index f) (serial_fifo_calc_recved_len bz f)"

fun dma_store :: "u8 list \<Rightarrow> nat \<Rightarrow> u8 list \<Rightarrow> u8 list" where
  "dma_store b p [] = b"
| "dma_store b p (x # xs) = dma_store (b[p mod length b := x]) (p + 1) xs"

definition rx_inv :: "nat \<Rightarrow> rt_serial_rx_fifo \<Rightarrow> bool" where
  "rx_inv bz f \<longleftrightarrow> 2 \<le> bz \<and> bz \<le> 2 ^ 15 \<and> length (rx_buffer f) = bz \<and> rx_put_index f < bz \<and> rx_get_index f < bz"

definition rx_int_inv :: "nat \<Rightarrow> rt_serial_rx_fifo \<Rightarrow> bool" where
  "rx_int_inv bz f \<longleftrightarrow> rx_inv bz f \<and> (rx_put_index f = rx_get_index f \<longrightarrow> \<not> rx_is_full f)"

definition rx_dma_inv :: "nat \<Rightarrow> rt_serial_rx_fifo \<Rightarrow> bool" where
  "rx_dma_inv bz f \<longleftrightarrow> rx_inv bz f \<and> (rx_is_full f \<longrightarrow> rx_put_index f = rx_get_index f)"

text \<open>The last \<open>n\<close> elements of a sequence.\<close>

definition last_n :: "nat \<Rightarrow> 'a list \<Rightarrow> 'a list" where
  "last_n n xs = drop (length xs - n) xs"

section \<open>Rings\<close>

lemma length_ring [simp]: "length (ring b g c) = c"
  by (simp add: ring_def)

lemma nth_ring [simp]: "i < c \<Longrightarrow> ring b g c ! i = b ! ((g + i) mod length b)"
  by (simp add: ring_def)

lemma ring_0 [simp]: "ring b g 0 = []"
  by (simp add: ring_def)

lemma ring_mod: "ring b (g mod length b) c = ring b g c"
  by (rule nth_equalityI) (simp_all add: mod_add_left_eq)

lemma drop_ring: "drop k (ring b g c) = ring b (g + k) (c - k)"
  by (rule nth_equalityI) (simp_all add: add.assoc)

lemma take_ring: "k \<le> c \<Longrightarrow> take k (ring b g c) = ring b g k"
  by (rule nth_equalityI) simp_all

lemma ring_Suc: "ring b g (Suc c) = b ! (g mod length b) # ring b (g + 1) c"
  by (rule nth_equalityI) (auto simp: nth_Cons split: nat.splits)

lemma mod_window: "i < c \<Longrightarrow> c < (n :: nat) \<Longrightarrow> (g + i) mod n \<noteq> (g + c) mod n"
proof
  assume i: "i < c" "c < n" and "(g + i) mod n = (g + c) mod n"
  then have "n dvd (g + c) - (g + i)" by (metis mod_eq_dvd_iff_nat nat_add_left_cancel_le less_imp_le)
  then have "n dvd c - i" by simp
  then show False using i by (metis dvd_imp_le less_imp_diff_less not_less zero_less_diff)
qed

lemma ring_store: "c < length b \<Longrightarrow> ring (b[(g + c) mod length b := x]) g (Suc c) = ring b g c @ [x]"
proof (rule nth_equalityI)
  fix i
  assume c: "c < length b" and "i < length (ring (b[(g + c) mod length b := x]) g (Suc c))"
  then consider "i < c" | "i = c" by fastforce
  then show "ring (b[(g + c) mod length b := x]) g (Suc c) ! i = (ring b g c @ [x]) ! i"
  proof cases
    case 1
    then show ?thesis using mod_window [OF 1 c, of g] by (auto simp: nth_append)
  next
    case 2
    moreover have "(g + c) mod length b < length b" using c by (intro mod_less_divisor) auto
    ultimately show ?thesis by (simp add: nth_append)
  qed
qed simp

lemma ring_overwrite:
  assumes "length b = n" "0 < n"
  shows "ring (b[g mod n := x]) (g + 1) n = drop 1 (ring b g n) @ [x]"
proof -
  have "g mod n = (g + 1 + (n - 1)) mod n" using assms(2) by simp
  then have "ring (b[g mod n := x]) (g + 1) (Suc (n - 1)) = ring b (g + 1) (n - 1) @ [x]"
    using ring_store [of "n - 1" b "g + 1" x] assms by simp
  then show ?thesis using assms(2) by (simp add: drop_ring)
qed

lemma last_n_all: "length xs \<le> n \<Longrightarrow> last_n n xs = xs"
  by (simp add: last_n_def)

lemma last_n_snoc: "0 < n \<Longrightarrow> length xs \<le> n \<Longrightarrow> last_n n (xs @ [x]) = (if length xs = n then drop 1 xs @ [x] else xs @ [x])"
  by (auto simp: last_n_def Suc_diff_le le_Suc_eq)

lemma last_n_append: "last_n n (last_n n xs @ ys) = last_n n (xs @ ys)"
proof (cases "length xs \<le> n")
  case False
  then have "length xs + length ys - n = (length xs - n) + length ys" by simp
  then show ?thesis using False by (simp add: last_n_def add.commute)
qed (simp add: last_n_all)

lemma dma_ring:
  assumes "length b = n" "0 < n" "c \<le> n"
  shows "ring (dma_store b (g + c) xs) (g + (c + length xs - n)) (min n (c + length xs)) = last_n n (ring b g c @ xs)"
  using assms
proof (induction xs arbitrary: b g c)
  case Nil
  then show ?case by (simp add: last_n_all)
next
  case (Cons x xs)
  let ?b = "b[(g + c) mod length b := x]"
  have b: "length ?b = n" using Cons.prems(1) by simp
  show ?case
  proof (cases "c = n")
    case True
    have "ring (dma_store ?b (g + 1 + n) xs) (g + 1 + (n + length xs - n)) (min n (n + length xs)) = last_n n (ring ?b (g + 1) n @ xs)"
      by (rule Cons.IH [OF b Cons.prems(2) order_refl])
    moreover have "ring ?b (g + 1) n = last_n n (ring b g c @ [x])"
      using ring_overwrite [OF Cons.prems(1,2), of g x] Cons.prems(1,2) True by (simp add: last_n_snoc)
    moreover have "last_n n (last_n n (ring b g c @ [x]) @ xs) = last_n n (ring b g c @ x # xs)" by (simp add: last_n_append)
    ultimately show ?thesis using True by (simp add: add.commute add.left_commute)
  next
    case False
    then have c: "Suc c \<le> n" using Cons.prems(3) by simp
    have "ring (dma_store ?b (g + Suc c) xs) (g + (Suc c + length xs - n)) (min n (Suc c + length xs)) = last_n n (ring ?b g (Suc c) @ xs)"
      by (rule Cons.IH [OF b Cons.prems(2) c])
    moreover have "ring ?b g (Suc c) = ring b g c @ [x]" using ring_store [of c b g x] c Cons.prems(1) by simp
    ultimately show ?thesis by simp
  qed
qed

lemma length_dma_store [simp]: "length (dma_store b p xs) = length b"
  by (induction xs arbitrary: b p) simp_all

lemma dma_store_mod: "p mod length b = q mod length b \<Longrightarrow> dma_store b p xs = dma_store b q xs"
proof (induction xs arbitrary: b p q)
  case (Cons x xs)
  have "(p + 1) mod length b = (q + 1) mod length b" using Cons.prems by (metis mod_add_left_eq)
  then show ?case using Cons.IH [of "p + 1" "b[q mod length b := x]" "q + 1"] Cons.prems by simp
qed simp

section \<open>Interrupt mode\<close>

lemma rx_next_mod: "bz \<le> 2 ^ 15 \<Longrightarrow> i < bz \<Longrightarrow> rx_next bz i = (i + 1) mod bz"
  by (cases "i + 1 = bz") (simp_all add: rx_next_def Let_def)

lemma mod_wrap: "x < n + n \<Longrightarrow> x mod n = (if x < n then x else x - n)" for n :: nat
  by (simp add: le_mod_geq)

lemma rx_count:
  assumes "rx_inv bz f" and "c = serial_fifo_calc_recved_len bz f"
  shows "rx_put_index f = (rx_get_index f + c) mod bz" "c \<le> bz"
proof -
  show c: "c \<le> bz" using assms by (auto simp: rx_inv_def serial_fifo_calc_recved_len_def)
  have "rx_get_index f + c < bz + bz" using assms(1) c by (simp add: rx_inv_def)
  note w = mod_wrap [OF this]
  show "rx_put_index f = (rx_get_index f + c) mod bz"
    unfolding w using assms by (auto simp: rx_inv_def serial_fifo_calc_recved_len_def split: if_splits)
qed

lemma rx_int_count: "rx_int_inv bz f \<Longrightarrow> serial_fifo_calc_recved_len bz f < bz"
  by (auto simp: rx_int_inv_def rx_inv_def serial_fifo_calc_recved_len_def)

lemma rx_count_unique:
  assumes "rx_inv bz f" "c \<le> bz" "rx_put_index f = (rx_get_index f + c) mod bz" "rx_put_index f = rx_get_index f \<Longrightarrow> c = (if rx_is_full f then bz else 0)"
  shows "serial_fifo_calc_recved_len bz f = c"
proof -
  have "rx_get_index f + c < bz + bz" using assms(1,2) by (simp add: rx_inv_def)
  note w = mod_wrap [OF this]
  consider "rx_put_index f = rx_get_index f" | "rx_get_index f < rx_put_index f" | "rx_put_index f < rx_get_index f" by linarith
  then show ?thesis
  proof cases
    case 1
    then show ?thesis using assms(4) by (simp add: serial_fifo_calc_recved_len_def)
  next
    case 2
    then have "rx_put_index f = rx_get_index f + c" using assms(2) assms(3) [unfolded w] by (simp split: if_splits)
    then show ?thesis using 2 by (simp add: serial_fifo_calc_recved_len_def)
  next
    case 3
    then have "rx_put_index f + bz = rx_get_index f + c" using assms(2) assms(3) [unfolded w] by (simp split: if_splits)
    then show ?thesis using 3 by (simp add: serial_fifo_calc_recved_len_def)
  qed
qed

lemma ring_cong_mod: "g mod n = h mod n \<Longrightarrow> length b = n \<Longrightarrow> ring b g c = ring b h c"
  by (metis ring_mod)

text \<open>Storing a byte in interrupt mode keeps the last \<open>bz - 1\<close> bytes.\<close>

lemma isr_store_last:
  assumes I: "rx_int_inv bz f"
  shows "\<exists>f'. isr_store bz ch f = Some f' \<and> rx_int_inv bz f' \<and> rx_contents bz f' = last_n (bz - 1) (rx_contents bz f @ [ch])"
proof -
  define g p c b where "g = rx_get_index f" and "p = rx_put_index f" and "c = serial_fifo_calc_recved_len bz f" and "b = rx_buffer f"
  have R: "2 \<le> bz" "bz \<le> 2 ^ 15" "length b = bz" "p < bz" "g < bz" using I by (simp_all add: rx_int_inv_def rx_inv_def p_def g_def b_def)
  have inv: "rx_inv bz f" using I by (simp add: rx_int_inv_def)
  have c: "c < bz" "p = (g + c) mod bz" using rx_int_count [OF I] rx_count(1) [OF inv refl] by (simp_all add: c_def p_def g_def)
  have pn: "rx_next bz p = (g + Suc c) mod bz" using R c(2) by (simp add: rx_next_mod mod_Suc_eq)
  have st: "arr_set b p ch = Some (b[p := ch])" using R by (simp add: arr_set_def)
  have new: "ring (b[p := ch]) g (Suc c) = ring b g c @ [ch]" using ring_store [of c b g ch] c R(3) by simp
  have C: "rx_contents bz f = ring b g c" by (simp add: rx_contents_def b_def g_def c_def)
  show ?thesis
  proof (cases "Suc c = bz")
    case True
    define f' where "f' = f\<lparr>rx_buffer := b[p := ch], rx_put_index := g, rx_get_index := (g + 1) mod bz, rx_is_full := True\<rparr>"
    have e: "Suc (g + c) = g + bz" using True by simp
    have gc: "Suc (g + c) mod bz = g" unfolding e using R(5) by simp
    have pg: "rx_next bz p = g" using pn True R(5) by simp
    have "isr_store bz ch f = Some f'"
      using st pg R by (simp add: isr_store_def f'_def p_def g_def b_def Let_def rx_next_mod)
    moreover have ne: "(g + 1) mod bz \<noteq> g" using R(1,5) by (simp add: mod_wrap)
    moreover have I': "rx_int_inv bz f'" using R ne by (auto simp: rx_int_inv_def rx_inv_def f'_def)
    moreover have "serial_fifo_calc_recved_len bz f' = c"
    proof (rule rx_count_unique)
      show "rx_put_index f' = (rx_get_index f' + c) mod bz" using gc by (simp add: f'_def mod_simps)
    qed (use I' ne c(1) in \<open>auto simp: rx_int_inv_def f'_def\<close>)
    then have "rx_contents bz f' = drop 1 (ring (b[p := ch]) g (Suc c))"
      using ring_mod [of "b[p := ch]" "g + 1" c] R(3) by (simp add: rx_contents_def f'_def drop_ring)
    then have "rx_contents bz f' = last_n (bz - 1) (rx_contents bz f @ [ch])"
      unfolding new C using True R(1) by (subst last_n_snoc) auto
    ultimately show ?thesis by blast
  next
    case False
    then have c': "Suc c < bz" using c(1) by simp
    define f' where "f' = f\<lparr>rx_buffer := b[p := ch], rx_put_index := (g + Suc c) mod bz\<rparr>"
    have ne: "(g + Suc c) mod bz \<noteq> g" using mod_window [of 0 "Suc c" bz g] c' R(5) by simp
    have "isr_store bz ch f = Some f'"
      using st pn ne by (simp add: isr_store_def f'_def p_def g_def b_def Let_def)
    moreover have I': "rx_int_inv bz f'" using R ne by (auto simp: rx_int_inv_def rx_inv_def f'_def g_def)
    moreover have "serial_fifo_calc_recved_len bz f' = Suc c"
      by (rule rx_count_unique) (use I' ne c' in \<open>auto simp: rx_int_inv_def f'_def g_def\<close>)
    then have "rx_contents bz f' = ring b g c @ [ch]" using new by (simp add: rx_contents_def f'_def g_def)
    moreover have "last_n (bz - 1) (rx_contents bz f @ [ch]) = rx_contents bz f @ [ch]" using c' unfolding C by (intro last_n_all) simp
    ultimately show ?thesis unfolding C by metis
  qed
qed

text \<open>Reading returns the oldest bytes and removes them.\<close>

lemma serial_int_rx_takes:
  assumes "rx_int_inv bz f"
  shows "\<exists>f'. serial_int_rx bz n f = Some (take n (rx_contents bz f), f') \<and> rx_int_inv bz f' \<and> rx_contents bz f' = drop n (rx_contents bz f)"
  using assms
proof (induction n arbitrary: f)
  case 0
  then show ?case by simp
next
  case (Suc n)
  define g c b where "g = rx_get_index f" and "c = serial_fifo_calc_recved_len bz f" and "b = rx_buffer f"
  have inv: "rx_inv bz f" and R: "bz \<le> 2 ^ 15" "length b = bz" "g < bz" using Suc.prems by (simp_all add: rx_int_inv_def rx_inv_def g_def b_def)
  have C: "rx_contents bz f = ring b g c" by (simp add: rx_contents_def b_def g_def c_def)
  show ?case
  proof (cases "rx_get_index f = rx_put_index f")
    case True
    then have "c = 0" "\<not> rx_is_full f" using Suc.prems by (simp_all add: c_def serial_fifo_calc_recved_len_def rx_int_inv_def)
    then show ?thesis using True Suc.prems C by simp
  next
    case False
    have "c \<noteq> 0" using False inv by (auto simp: c_def serial_fifo_calc_recved_len_def rx_inv_def)
    then obtain d where d: "c = Suc d" by (cases c) auto
    define f1 where "f1 = f\<lparr>rx_get_index := (g + 1) mod bz, rx_is_full := False\<rparr>"
    have p: "rx_put_index f = (g + Suc d) mod bz" "Suc d < bz"
      using rx_count(1) [OF inv refl] rx_int_count [OF Suc.prems] d by (simp_all add: g_def c_def)
    have I1: "rx_int_inv bz f1" using Suc.prems R by (simp add: rx_int_inv_def rx_inv_def f1_def)
    have "serial_fifo_calc_recved_len bz f1 = d"
    proof (rule rx_count_unique)
      show "rx_put_index f1 = (rx_get_index f1 + d) mod bz" using p(1) by (simp add: f1_def mod_simps)
      show "d = (if rx_is_full f1 then bz else 0)" if "rx_put_index f1 = rx_get_index f1"
        using that p mod_window [of 0 d bz "g + 1"] by (cases "d = 0") (auto simp: f1_def)
    qed (use I1 p(2) in \<open>auto simp: rx_int_inv_def\<close>)
    then have C1: "rx_contents bz f1 = ring b (g + 1) d"
      using ring_mod [of b "g + 1" d] R(2) by (simp add: rx_contents_def f1_def b_def)
    have "ring b g c = b ! g # ring b (g + 1) d" using R(2,3) d by (simp add: ring_Suc)
    moreover obtain f' where "serial_int_rx bz n f1 = Some (take n (rx_contents bz f1), f')" "rx_int_inv bz f'" "rx_contents bz f' = drop n (rx_contents bz f1)"
      using Suc.IH [OF I1] by blast
    moreover have "f\<lparr>rx_get_index := rx_next bz (rx_get_index f), rx_is_full := False\<rparr> = f1" using R by (simp add: f1_def rx_next_mod g_def)
    moreover have "arr_get (rx_buffer f) (rx_get_index f) = Some (b ! g)" using R by (simp add: arr_get_def b_def g_def)
    ultimately show ?thesis using False C C1 by simp
  qed
qed

section \<open>DMA mode\<close>

lemma rx_dma_count: "rx_dma_inv bz f \<Longrightarrow> rx_is_full f = (serial_fifo_calc_recved_len bz f = bz)"
  by (auto simp: rx_dma_inv_def rx_inv_def serial_fifo_calc_recved_len_def)

text \<open>After the hardware has stored a block of at most \<open>bz\<close> bytes, the buffer holds the last \<open>bz\<close> bytes received.\<close>

lemma put_index_cases:
  assumes I: "rx_dma_inv bz f" and len: "len \<le> bz" and c: "c = serial_fifo_calc_recved_len bz f"
    and f': "f' = rt_dma_recv_update_put_index bz len f"
  shows "rx_put_index f' = (rx_put_index f + len) mod bz" "rx_is_full f' \<longleftrightarrow> bz \<le> c + len"
    "rx_get_index f' = (if bz \<le> c + len then rx_put_index f' else rx_get_index f)" "rx_buffer f' = rx_buffer f"
proof -
  define g p full where "g = rx_get_index f" and "p = rx_put_index f" and "full = rx_is_full f"
  have R: "2 \<le> bz" "bz \<le> 2 ^ 15" "p < bz" "g < bz" "full \<Longrightarrow> p = g" using I by (auto simp: rx_dma_inv_def rx_inv_def p_def g_def full_def)
  have w: "u16_of (p + len) = p + len" using R(2,3) len by simp
  have m: "(p + len) mod bz = (if p + len < bz then p + len else p + len - bz)" using R(3) len by (intro mod_wrap) simp
  have C: "c = (if p = g then if \<not> full then 0 else bz else if p > g then p - g else bz - (g - p))"
    by (simp add: c serial_fifo_calc_recved_len_def p_def g_def full_def)
  have e: "rt_dma_recv_update_put_index bz len f = f\<lparr>rx_put_index := (p + len) mod bz, rx_is_full := bz \<le> c + len,
      rx_get_index := (if bz \<le> c + len then (p + len) mod bz else g)\<rparr>"
  proof (cases "g \<le> p")
    case True
    then have "(if p + len \<ge> bz then ((p + len) mod bz, (p + len) mod bz \<ge> g \<or> full) else (p + len, full)) = ((p + len) mod bz, bz \<le> c + len)"
      unfolding m C using R len by (auto split: if_splits)
    then show ?thesis using True unfolding rt_dma_recv_update_put_index_def Let_def g_def [symmetric] p_def [symmetric] full_def [symmetric] w by simp
  next
    case False
    then have "\<not> full" "p \<noteq> g" "\<not> p > g" using R(5) by auto
    then have "(if p + len \<ge> g then (if p + len \<ge> bz then (p + len) mod bz else p + len, True) else (p + len, full)) = ((p + len) mod bz, bz \<le> c + len)"
      unfolding m C using R len False by (auto split: if_splits)
    then show ?thesis using False unfolding rt_dma_recv_update_put_index_def Let_def g_def [symmetric] p_def [symmetric] full_def [symmetric] w by simp
  qed
  then show "rx_put_index f' = (rx_put_index f + len) mod bz" "rx_is_full f' \<longleftrightarrow> bz \<le> c + len"
    "rx_get_index f' = (if bz \<le> c + len then rx_put_index f' else rx_get_index f)" "rx_buffer f' = rx_buffer f"
    unfolding f' by (simp_all add: p_def g_def)
qed

lemma dma_put_last:
  assumes I: "rx_dma_inv bz f" and len: "length xs \<le> bz"
    and f': "f' = rt_dma_recv_update_put_index bz (length xs) (f\<lparr>rx_buffer := dma_store (rx_buffer f) (rx_put_index f) xs\<rparr>)"
  shows "rx_dma_inv bz f' \<and> rx_contents bz f' = last_n bz (rx_contents bz f @ xs)"
proof -
  let ?f = "f\<lparr>rx_buffer := dma_store (rx_buffer f) (rx_put_index f) xs\<rparr>"
  define c g where "c = serial_fifo_calc_recved_len bz f" and "g = rx_get_index f"
  have inv: "rx_inv bz f" using I by (simp add: rx_dma_inv_def)
  have I1: "rx_dma_inv bz ?f" using I by (simp add: rx_dma_inv_def rx_inv_def)
  have c1: "c = serial_fifo_calc_recved_len bz ?f" by (simp add: c_def serial_fifo_calc_recved_len_def)
  note P = put_index_cases [OF I1 len c1 f']
  have R: "0 < bz" "length (rx_buffer f) = bz" "g < bz" using inv by (auto simp: rx_inv_def g_def)
  have p: "rx_put_index f = (g + c) mod bz" "c \<le> bz" using rx_count [OF inv refl] by (simp_all add: c_def g_def)
  have p': "rx_put_index f' = (g + c + length xs) mod bz" using P(1) p(1) by (simp add: mod_simps)
  have D: "ring (dma_store (rx_buffer f) (rx_put_index f) xs) (g + (c + length xs - bz)) (min bz (c + length xs)) = last_n bz (rx_contents bz f @ xs)"
    using dma_ring [OF R(2,1) p(2), of g xs] dma_store_mod [of "rx_put_index f" "rx_buffer f" "g + c" xs] p(1) R(2)
    by (simp add: rx_contents_def c_def g_def)
  have I': "rx_inv bz f'" using P(3,4) p' R inv by (auto simp: rx_inv_def)
  show ?thesis
  proof (cases "bz \<le> c + length xs")
    case True
    have "g + (c + length xs - bz) + bz = g + c + length xs" using True by simp
    then have "(g + (c + length xs - bz)) mod bz = rx_get_index f' mod bz" using P(3) p' True by (metis mod_add_self2 mod_mod_trivial)
    then have "ring (rx_buffer f') (rx_get_index f') bz = last_n bz (rx_contents bz f @ xs)"
      using D True P(4) R(2) ring_cong_mod [of "g + (c + length xs - bz)" bz "rx_get_index f'" "rx_buffer f'" bz] by (simp add: min_absorb1)
    moreover have "serial_fifo_calc_recved_len bz f' = bz" using P(2,3) True by (simp add: serial_fifo_calc_recved_len_def)
    ultimately show ?thesis using I' P(3) True by (simp add: rx_contents_def rx_dma_inv_def)
  next
    case False
    have "serial_fifo_calc_recved_len bz f' = c + length xs"
    proof (rule rx_count_unique [OF I'])
      show "c + length xs = (if rx_is_full f' then bz else 0)" if "rx_put_index f' = rx_get_index f'"
        using that P(2,3) p' False R(3) mod_window [of 0 "c + length xs" bz g] by (cases "c + length xs = 0") (auto simp: g_def add.assoc)
    qed (use P(3) p' False in \<open>auto simp: g_def add.assoc\<close>)
    then show ?thesis using D False P I' by (simp add: rx_contents_def rx_dma_inv_def g_def min_def)
  qed
qed

text \<open>Reading in DMA mode returns the oldest bytes and removes them.\<close>

lemma ring_pieces:
  assumes "length b = n" "g < n" "c \<le> n"
  shows "ring b g c = (if g + c < n then take c (drop g b) else drop g b @ take (g + c - n) b)"
proof (rule nth_equalityI)
  show "length (ring b g c) = length (if g + c < n then take c (drop g b) else drop g b @ take (g + c - n) b)" using assms by simp
  fix i
  assume "i < length (ring b g c)"
  then have i: "i < c" by simp
  then have "(g + i) mod n = (if g + i < n then g + i else g + i - n)" using assms by (intro mod_wrap) simp
  then show "ring b g c ! i = (if g + c < n then take c (drop g b) else drop g b @ take (g + c - n) b) ! i"
    using i assms by (auto simp: nth_append not_less add.commute)
qed

lemma serial_dma_rx_takes:
  assumes I: "rx_dma_inv bz f"
  shows "\<exists>f'. serial_dma_rx_fifo bz n f = Some (take n (rx_contents bz f), f') \<and> rx_dma_inv bz f' \<and> rx_contents bz f' = drop n (rx_contents bz f)"
proof -
  define c g b where "c = serial_fifo_calc_recved_len bz f" and "g = rx_get_index f" and "b = rx_buffer f"
  define m where "m = (if n < c then n else c)"
  have inv: "rx_inv bz f" using I by (simp add: rx_dma_inv_def)
  have R: "2 \<le> bz" "bz \<le> 2 ^ 15" "length b = bz" "g < bz" "c \<le> bz" using inv rx_count(2) [OF inv refl] by (simp_all add: rx_inv_def g_def b_def c_def)
  have m: "m \<le> c" "m \<le> bz" using R(5) by (simp_all add: m_def)
  define f' where "f' = f\<lparr>rx_is_full := (if rx_is_full f \<and> m \<noteq> 0 then False else rx_is_full f), rx_get_index := (g + m) mod bz\<rparr>"
  have C: "rx_contents bz f = ring b g c" by (simp add: rx_contents_def b_def g_def c_def)
  have data: "(if g + m < bz then arr_read b g m else do { xs \<leftarrow> arr_read b g (bz - g); ys \<leftarrow> arr_read b 0 (m + g - bz); Some (xs @ ys) })
      = Some (ring b g m)"
    using R m ring_pieces [OF R(3,4) m(2)] by (auto simp: arr_read_def add.commute)
  have "u16_of (g + m) = g + m" using R(2,4) m(2) by simp
  then have upd: "rt_dma_recv_update_get_index bz m f = Some f'"
    using m R(4) by (simp add: rt_dma_recv_update_get_index_def rt_dma_calc_recved_len_def f'_def c_def [symmetric] g_def [symmetric] Let_def not_le)
  have run: "serial_dma_rx_fifo bz n f = Some (ring b g m, f')"
    unfolding serial_dma_rx_fifo_def rt_dma_calc_recved_len_def Let_def c_def [symmetric] m_def [symmetric] g_def [symmetric] b_def [symmetric] data upd
    by simp
  have I': "rx_inv bz f'" using inv R(1) by (auto simp: rx_inv_def f'_def)
  have p: "rx_put_index f = (g + c) mod bz" using rx_count(1) [OF inv refl] by (simp add: c_def g_def)
  have cnt: "serial_fifo_calc_recved_len bz f' = c - m"
  proof (rule rx_count_unique [OF I'])
    show "rx_put_index f' = (rx_get_index f' + (c - m)) mod bz" using p m(1) mod_add_left_eq [of "g + m" bz "c - m"] by (simp add: f'_def)
    show "c - m = (if rx_is_full f' then bz else 0)" if "rx_put_index f' = rx_get_index f'"
    proof (cases "m = 0")
      case True
      then show ?thesis using that R(4) by (auto simp: f'_def c_def g_def serial_fifo_calc_recved_len_def)
    next
      case False
      then have "c - m < bz" using R(1,5) by linarith
      then show ?thesis using that False p m mod_window [of 0 "c - m" bz "g + m"] by (cases "c = m") (auto simp: f'_def)
    qed
  qed (use R in simp)
  have "rx_contents bz f' = drop m (ring b g c)"
    using ring_mod [of b "g + m" "c - m"] R(3) by (simp add: rx_contents_def cnt drop_ring) (simp add: f'_def b_def)
  moreover have "drop m (ring b g c) = drop n (ring b g c)" "take n (ring b g c) = ring b g m" using take_ring [OF m(1), of b g] by (auto simp: m_def)
  moreover have "rx_dma_inv bz f'" using I I' R(4) by (auto simp: rx_dma_inv_def f'_def g_def)
  ultimately show ?thesis using run C by simp
qed

end
