(* ===== verification/Serial.thy ===== *)
theory Serial
  imports Serial_Fifo DataQueue Completion Heap_Spec
begin

text \<open>
  The serial device (\<^verbatim>\<open>components/drivers/serial/serial.c\<close>): reading and writing by polling, by interrupts through the
  receive buffer and a completion, and by DMA through the receive buffer and a data queue. The functions of the hardware
  (\<^verbatim>\<open>struct rt_uart_ops\<close>) are a parameter; they act on a hardware state of any type. The functions \<^verbatim>\<open>rx_indicate\<close> and
  \<^verbatim>\<open>tx_complete\<close> are a parameter too. Bytes that are read are a result, bytes to be written an argument.
\<close>

section \<open>Definitions: data\<close>

abbreviation (input) RT_EIO :: int where "RT_EIO \<equiv> 8"
abbreviation (input) RT_DEVICE_FLAG_ACTIVATED :: u16 where "RT_DEVICE_FLAG_ACTIVATED \<equiv> 0x010"
abbreviation (input) RT_DEVICE_FLAG_SUSPENDED :: u16 where "RT_DEVICE_FLAG_SUSPENDED \<equiv> 0x020"
abbreviation (input) RT_DEVICE_FLAG_STREAM :: u16 where "RT_DEVICE_FLAG_STREAM \<equiv> 0x040"
abbreviation (input) RT_DEVICE_FLAG_INT_RX :: u16 where "RT_DEVICE_FLAG_INT_RX \<equiv> 0x100"
abbreviation (input) RT_DEVICE_FLAG_DMA_RX :: u16 where "RT_DEVICE_FLAG_DMA_RX \<equiv> 0x200"
abbreviation (input) RT_DEVICE_FLAG_INT_TX :: u16 where "RT_DEVICE_FLAG_INT_TX \<equiv> 0x400"
abbreviation (input) RT_DEVICE_FLAG_DMA_TX :: u16 where "RT_DEVICE_FLAG_DMA_TX \<equiv> 0x800"
abbreviation (input) RT_DEVICE_CTRL_CONFIG :: int where "RT_DEVICE_CTRL_CONFIG \<equiv> 0x03"
abbreviation (input) RT_DEVICE_CTRL_CLOSE :: int where "RT_DEVICE_CTRL_CLOSE \<equiv> 0x04"
abbreviation (input) RT_DEVICE_CTRL_SET_INT :: int where "RT_DEVICE_CTRL_SET_INT \<equiv> 0x10"
abbreviation (input) RT_DEVICE_CTRL_CLR_INT :: int where "RT_DEVICE_CTRL_CLR_INT \<equiv> 0x11"
abbreviation (input) RT_SERIAL_DMA_RX :: int where "RT_SERIAL_DMA_RX \<equiv> 1"
abbreviation (input) RT_SERIAL_DMA_TX :: int where "RT_SERIAL_DMA_TX \<equiv> 2"

record serial_configure =
  baud_rate :: u32
  data_bits :: nat
  stop_bits :: nat
  parity :: nat
  bit_order :: nat
  invert :: nat
  bufsz :: nat

text \<open>What \<^verbatim>\<open>serial_rx\<close> and \<^verbatim>\<open>serial_tx\<close> point to, with the address of the block; the completion of a block is named by
  its address, its data queue by the address behind the flag.\<close>

datatype serial_rx = Rx_fifo nat rt_serial_rx_fifo | Rx_dma nat bool
datatype serial_tx = Tx_fifo nat | Tx_dma nat bool

record 'h rt_uart_ops =
  op_configure :: "(serial_configure \<Rightarrow> 'h \<Rightarrow> int \<times> 'h) option"
  op_control :: "int \<Rightarrow> nat \<Rightarrow> 'h \<Rightarrow> int \<times> 'h"
  op_putc :: "u8 \<Rightarrow> 'h \<Rightarrow> int \<times> 'h"
  op_getc :: "'h \<Rightarrow> int \<times> 'h"
  op_dma_transmit :: "(nat \<Rightarrow> nat \<Rightarrow> int \<Rightarrow> 'h \<Rightarrow> nat \<times> 'h) option"

record 'h serial_state =
  ser_k :: kstate
  ser_flag :: u16
  ser_open_flag :: u16
  ser_ref_count :: nat
  ser_rx_indicate :: "nat option"
  ser_tx_complete :: "nat option"
  ser_config :: serial_configure
  ser_rx :: "serial_rx option"
  ser_tx :: "serial_tx option"
  ser_comp :: "nat \<Rightarrow> bool"
  ser_dq :: "nat \<Rightarrow> rt_data_queue"
  ser_hw :: 'h

type_synonym 'h serial_cb = "nat \<Rightarrow> nat \<Rightarrow> 'h serial_state \<Rightarrow> 'h serial_state option"

definition ser_has :: "u16 \<Rightarrow> 'h serial_state \<Rightarrow> bool" where
  "ser_has m s \<longleftrightarrow> ser_open_flag s AND m \<noteq> 0"

definition ser_bufsz :: "'h serial_state \<Rightarrow> nat" where
  "ser_bufsz s = bufsz (ser_config s)"

definition ser_control :: "'h rt_uart_ops \<Rightarrow> int \<Rightarrow> u16 \<Rightarrow> 'h serial_state \<Rightarrow> 'h serial_state" where
  "ser_control ops cmd arg s = s\<lparr>ser_hw := snd (op_control ops cmd (unat arg) (ser_hw s))\<rparr>"

section \<open>Definitions: polling\<close>

fun serial_poll_rx :: "'h rt_uart_ops \<Rightarrow> bool \<Rightarrow> nat \<Rightarrow> 'h \<Rightarrow> u8 list \<times> 'h" where
  "serial_poll_rx ops stream 0 h = ([], h)"
| "serial_poll_rx ops stream (Suc n) h =
     (let (ch, h1) = op_getc ops h in
      if ch = - 1 then ([], h1)
      else if stream \<and> ch = 10 then ([word_of_int ch], h1)
      else let (xs, h2) = serial_poll_rx ops stream n h1 in (word_of_int ch # xs, h2))"

fun serial_poll_tx :: "'h rt_uart_ops \<Rightarrow> bool \<Rightarrow> u8 list \<Rightarrow> 'h \<Rightarrow> 'h" where
  "serial_poll_tx ops stream [] h = h"
| "serial_poll_tx ops stream (c # cs) h =
     (let h1 = (if c = 10 \<and> stream then snd (op_putc ops 13 h) else h) in
      serial_poll_tx ops stream cs (snd (op_putc ops c h1)))"

section \<open>Definitions: writing by interrupts and by DMA\<close>

text \<open>A write returns, waits for the completion with the bytes that are left, or waits for room in the data queue.\<close>

datatype tx_result = Tx_return int | Tx_wait int "u8 list" | Tx_wait_queue nat nat

partial_function (option) int_tx_loop ::
    "'h rt_uart_ops \<Rightarrow> nat \<Rightarrow> int \<Rightarrow> u8 list \<Rightarrow> 'h serial_state \<Rightarrow> (tx_result \<times> 'h serial_state) option" where
  "int_tx_loop ops a sz data s =
     (case data of
        [] \<Rightarrow> Some (Tx_return sz, s)
      | c # cs \<Rightarrow>
          (let cr = (c = 10 \<and> ser_has RT_DEVICE_FLAG_STREAM s);
               (r1, h1) = (if cr then op_putc ops 13 (ser_hw s) else (0, ser_hw s));
               (r2, h2) = (if cr \<and> r1 = - 1 then (- 1, h1) else op_putc ops c h1);
               s1 = s\<lparr>ser_hw := h2\<rparr> in
           if r2 = - 1 then do {
             (w, k, F) \<leftarrow> rt_completion_wait a RT_WAITING_FOREVER (ser_k s1) (ser_comp s1);
             if w = Comp_wait then Some (Tx_wait sz data, s1\<lparr>ser_k := k, ser_comp := F\<rparr>)
             else int_tx_loop ops a sz data (s1\<lparr>ser_k := k, ser_comp := F\<rparr>)
           }
           else int_tx_loop ops a sz cs s1))"

definition serial_int_tx :: "'h rt_uart_ops \<Rightarrow> u8 list \<Rightarrow> 'h serial_state \<Rightarrow> (tx_result \<times> 'h serial_state) option" where
  "serial_int_tx ops data s =
     (case ser_tx s of Some (Tx_fifo a) \<Rightarrow> int_tx_loop ops a (int (length data)) data s | _ \<Rightarrow> None)"

definition serial_int_tx_cont ::
    "'h rt_uart_ops \<Rightarrow> tid \<Rightarrow> int \<Rightarrow> u8 list \<Rightarrow> 'h serial_state \<Rightarrow> (tx_result \<times> 'h serial_state) option" where
  "serial_int_tx_cont ops t sz data s =
     (case ser_tx s of
        Some (Tx_fifo a) \<Rightarrow> int_tx_loop ops a sz data (s\<lparr>ser_comp := snd (rt_completion_wait_cont t a (ser_k s) (ser_comp s))\<rparr>)
      | _ \<Rightarrow> None)"

text \<open>The data queue has no callback.\<close>

definition dma_tx_pushed :: "'h rt_uart_ops \<Rightarrow> nat \<Rightarrow> nat \<Rightarrow> dq_result \<Rightarrow> 'h serial_state \<Rightarrow> (tx_result \<times> 'h serial_state) option" where
  "dma_tx_pushed ops buf n r s =
     (case (r, ser_tx s) of
        (Dq_return e, Some (Tx_dma a act)) \<Rightarrow>
          if e = RT_EOK then
            if \<not> act then do {
              f \<leftarrow> op_dma_transmit ops;
              Some (Tx_return (int n), s\<lparr>ser_tx := Some (Tx_dma a True), ser_hw := snd (f buf n RT_SERIAL_DMA_TX (ser_hw s))\<rparr>)
            }
            else Some (Tx_return (int n), s)
          else Some (Tx_return 0, s\<lparr>ser_k := rt_set_errno e (ser_k s)\<rparr>)
      | (Dq_wait, _) \<Rightarrow> Some (Tx_wait_queue buf n, s)
      | _ \<Rightarrow> None)"

definition serial_dma_tx :: "'h rt_uart_ops \<Rightarrow> nat \<Rightarrow> nat \<Rightarrow> 'h serial_state \<Rightarrow> (tx_result \<times> 'h serial_state) option" where
  "serial_dma_tx ops buf n s =
     (case ser_tx s of
        Some (Tx_dma a act) \<Rightarrow> do {
          (r, k, Q) \<leftarrow> rt_data_queue_push (\<lambda>_ _ _ _. None) (a + 4) (buf, n) RT_WAITING_FOREVER (ser_k s) (ser_dq s);
          dma_tx_pushed ops buf n r (s\<lparr>ser_k := k, ser_dq := Q\<rparr>)
        }
      | _ \<Rightarrow> None)"

definition serial_dma_tx_cont :: "'h rt_uart_ops \<Rightarrow> tid \<Rightarrow> nat \<Rightarrow> nat \<Rightarrow> 'h serial_state \<Rightarrow> (tx_result \<times> 'h serial_state) option" where
  "serial_dma_tx_cont ops t buf n s =
     (case ser_tx s of
        Some (Tx_dma a act) \<Rightarrow> do {
          (r, k, Q) \<leftarrow> rt_data_queue_push_cont (\<lambda>_ _ _ _. None) t (a + 4) (buf, n) RT_WAITING_FOREVER (ser_k s) (ser_dq s);
          dma_tx_pushed ops buf n r (s\<lparr>ser_k := k, ser_dq := Q\<rparr>)
        }
      | _ \<Rightarrow> None)"

section \<open>Definitions: the device interface\<close>

definition rt_serial_init :: "'h rt_uart_ops \<Rightarrow> 'h serial_state \<Rightarrow> int \<times> 'h serial_state" where
  "rt_serial_init ops s =
     (let s1 = s\<lparr>ser_rx := None, ser_tx := None\<rparr> in
      case op_configure ops of
        None \<Rightarrow> (RT_EOK, s1)
      | Some f \<Rightarrow> let (r, h) = f (ser_config s1) (ser_hw s1) in (r, s1\<lparr>ser_hw := h\<rparr>))"

text \<open>A block of the heap; \<^verbatim>\<open>RT_ASSERT\<close> fails when there is none.\<close>

definition ser_malloc :: "nat \<Rightarrow> 'h serial_state \<Rightarrow> (nat \<times> 'h serial_state) option" where
  "ser_malloc n s = do { (p, k) \<leftarrow> k_malloc n (ser_k s); a \<leftarrow> p; Some (a, s\<lparr>ser_k := k\<rparr>) }"

definition ser_flag_or :: "u16 \<Rightarrow> 'h serial_state \<Rightarrow> 'h serial_state" where
  "ser_flag_or m s = s\<lparr>ser_open_flag := ser_open_flag s OR m\<rparr>"

definition ser_flag_clear :: "u16 \<Rightarrow> 'h serial_state \<Rightarrow> 'h serial_state" where
  "ser_flag_clear m s = s\<lparr>ser_open_flag := ser_open_flag s AND NOT m\<rparr>"

definition serial_open_rx :: "'h rt_uart_ops \<Rightarrow> u16 \<Rightarrow> 'h serial_state \<Rightarrow> 'h serial_state option" where
  "serial_open_rx ops oflag s =
     (case ser_rx s of
        None \<Rightarrow>
          if oflag AND RT_DEVICE_FLAG_INT_RX \<noteq> 0 then do {
            (a, s1) \<leftarrow> ser_malloc (12 + ser_bufsz s) s;
            let s2 = ser_flag_or RT_DEVICE_FLAG_INT_RX (s1\<lparr>ser_rx := Some (Rx_fifo a (rx_fifo_init (ser_bufsz s)))\<rparr>);
            Some (ser_control ops RT_DEVICE_CTRL_SET_INT RT_DEVICE_FLAG_INT_RX s2)
          }
          else if oflag AND RT_DEVICE_FLAG_DMA_RX \<noteq> 0 then
            if ser_bufsz s = 0 then do {
              (a, s1) \<leftarrow> ser_malloc 4 s;
              Some (ser_flag_or RT_DEVICE_FLAG_DMA_RX (s1\<lparr>ser_rx := Some (Rx_dma a False)\<rparr>))
            }
            else do {
              (a, s1) \<leftarrow> ser_malloc (12 + ser_bufsz s) s;
              let s2 = s1\<lparr>ser_rx := Some (Rx_fifo a (rx_fifo_init (ser_bufsz s)))\<rparr>;
              Some (ser_flag_or RT_DEVICE_FLAG_DMA_RX (ser_control ops RT_DEVICE_CTRL_CONFIG RT_DEVICE_FLAG_DMA_RX s2))
            }
          else Some s
      | Some _ \<Rightarrow>
          Some (if oflag AND RT_DEVICE_FLAG_INT_RX \<noteq> 0 then ser_flag_or RT_DEVICE_FLAG_INT_RX s
                else if oflag AND RT_DEVICE_FLAG_DMA_RX \<noteq> 0 then ser_flag_or RT_DEVICE_FLAG_DMA_RX s else s))"

definition serial_open_tx :: "'h rt_uart_ops \<Rightarrow> u16 \<Rightarrow> 'h serial_state \<Rightarrow> 'h serial_state option" where
  "serial_open_tx ops oflag s =
     (case ser_tx s of
        None \<Rightarrow>
          if oflag AND RT_DEVICE_FLAG_INT_TX \<noteq> 0 then do {
            (a, s1) \<leftarrow> ser_malloc 12 s;
            let (k, F) = rt_completion_init a (ser_k s1) (ser_comp s1);
            let s2 = ser_flag_or RT_DEVICE_FLAG_INT_TX (s1\<lparr>ser_k := k, ser_comp := F, ser_tx := Some (Tx_fifo a)\<rparr>);
            Some (ser_control ops RT_DEVICE_CTRL_SET_INT RT_DEVICE_FLAG_INT_TX s2)
          }
          else if oflag AND RT_DEVICE_FLAG_DMA_TX \<noteq> 0 then do {
            (a, s1) \<leftarrow> ser_malloc 40 s;
            (_, k, Q) \<leftarrow> rt_data_queue_init (a + 4) 8 4 None (ser_k s1) (ser_dq s1);
            let s2 = ser_flag_or RT_DEVICE_FLAG_DMA_TX (s1\<lparr>ser_k := k, ser_dq := Q, ser_tx := Some (Tx_dma a False)\<rparr>);
            Some (ser_control ops RT_DEVICE_CTRL_CONFIG RT_DEVICE_FLAG_DMA_TX s2)
          }
          else Some s
      | Some _ \<Rightarrow>
          Some (if oflag AND RT_DEVICE_FLAG_INT_TX \<noteq> 0 then ser_flag_or RT_DEVICE_FLAG_INT_TX s
                else if oflag AND RT_DEVICE_FLAG_DMA_TX \<noteq> 0 then ser_flag_or RT_DEVICE_FLAG_DMA_TX s else s))"

definition lacks :: "u16 \<Rightarrow> u16 \<Rightarrow> u16 \<Rightarrow> bool" where
  "lacks oflag flag m \<longleftrightarrow> oflag AND m \<noteq> 0 \<and> flag AND m = 0"

definition rt_serial_open :: "'h rt_uart_ops \<Rightarrow> u16 \<Rightarrow> 'h serial_state \<Rightarrow> (int \<times> 'h serial_state) option" where
  "rt_serial_open ops oflag s =
     (if lacks oflag (ser_flag s) RT_DEVICE_FLAG_DMA_RX then Some (- RT_EIO, s)
      else if lacks oflag (ser_flag s) RT_DEVICE_FLAG_DMA_TX then Some (- RT_EIO, s)
      else if lacks oflag (ser_flag s) RT_DEVICE_FLAG_INT_RX then Some (- RT_EIO, s)
      else if lacks oflag (ser_flag s) RT_DEVICE_FLAG_INT_TX then Some (- RT_EIO, s)
      else do {
        let stream_flag = (if oflag AND RT_DEVICE_FLAG_STREAM \<noteq> 0 \<or> ser_has RT_DEVICE_FLAG_STREAM s then RT_DEVICE_FLAG_STREAM else 0);
        s1 \<leftarrow> serial_open_rx ops oflag (s\<lparr>ser_open_flag := oflag AND 0xff\<rparr>);
        s2 \<leftarrow> serial_open_tx ops oflag s1;
        Some (RT_EOK, ser_flag_or stream_flag s2)
      })"

definition ser_free :: "nat \<Rightarrow> 'h serial_state \<Rightarrow> 'h serial_state option" where
  "ser_free a s = do { k \<leftarrow> k_free (Some a) (ser_k s); Some (s\<lparr>ser_k := k\<rparr>) }"

fun rx_addr :: "serial_rx \<Rightarrow> nat" where
  "rx_addr (Rx_fifo a f) = a" | "rx_addr (Rx_dma a b) = a"

text \<open>The block is freed by its address, whatever it holds.\<close>

definition serial_close_rx :: "'h rt_uart_ops \<Rightarrow> 'h serial_state \<Rightarrow> 'h serial_state option" where
  "serial_close_rx ops s =
     (let off = \<lambda>m. do {
            rx \<leftarrow> ser_rx s;
            s1 \<leftarrow> ser_free (rx_addr rx) s;
            Some (ser_control ops RT_DEVICE_CTRL_CLR_INT m (ser_flag_clear m (s1\<lparr>ser_rx := None\<rparr>)))
          } in
      if ser_has RT_DEVICE_FLAG_INT_RX s then off RT_DEVICE_FLAG_INT_RX
      else if ser_has RT_DEVICE_FLAG_DMA_RX s then off RT_DEVICE_FLAG_DMA_RX
      else Some s)"

fun tx_addr :: "serial_tx \<Rightarrow> nat" where
  "tx_addr (Tx_fifo a) = a" | "tx_addr (Tx_dma a b) = a"

definition serial_close_tx :: "'h rt_uart_ops \<Rightarrow> 'h serial_state \<Rightarrow> 'h serial_state option" where
  "serial_close_tx ops s =
     (if ser_has RT_DEVICE_FLAG_INT_TX s then do {
        tx \<leftarrow> ser_tx s;
        s1 \<leftarrow> ser_free (tx_addr tx) s;
        Some (ser_control ops RT_DEVICE_CTRL_CLR_INT RT_DEVICE_FLAG_INT_TX (ser_flag_clear RT_DEVICE_FLAG_INT_TX (s1\<lparr>ser_tx := None\<rparr>)))
      }
      else if ser_has RT_DEVICE_FLAG_DMA_TX s then do {
        tx \<leftarrow> ser_tx s;
        (_, k, Q) \<leftarrow> rt_data_queue_deinit (tx_addr tx + 4) (ser_k s) (ser_dq s);
        s1 \<leftarrow> ser_free (tx_addr tx) (s\<lparr>ser_k := k, ser_dq := Q\<rparr>);
        Some (ser_control ops RT_DEVICE_CTRL_CLR_INT RT_DEVICE_FLAG_DMA_TX (ser_flag_clear RT_DEVICE_FLAG_DMA_TX (s1\<lparr>ser_tx := None\<rparr>)))
      }
      else Some s)"

definition rt_serial_close :: "'h rt_uart_ops \<Rightarrow> 'h serial_state \<Rightarrow> (int \<times> 'h serial_state) option" where
  "rt_serial_close ops s =
     (if ser_ref_count s > 1 then Some (RT_EOK, s)
      else do {
        s1 \<leftarrow> serial_close_rx ops s;
        s2 \<leftarrow> serial_close_tx ops s1;
        let s3 = ser_control ops RT_DEVICE_CTRL_CLOSE 0 s2;
        Some (RT_EOK, s3\<lparr>ser_flag := ser_flag s3 AND NOT RT_DEVICE_FLAG_ACTIVATED\<rparr>)
      })"

text \<open>Reading into a buffer at address \<open>buf\<close>: the count and the bytes stored there. Without a receive buffer DMA stores them
  later.\<close>

definition serial_dma_rx :: "'h rt_uart_ops \<Rightarrow> nat \<Rightarrow> nat \<Rightarrow> 'h serial_state \<Rightarrow> (nat \<times> u8 list \<times> 'h serial_state) option" where
  "serial_dma_rx ops buf n s =
     (if ser_bufsz s = 0 then
        case ser_rx s of
          Some (Rx_dma a act) \<Rightarrow>
            if \<not> act then do {
              f \<leftarrow> op_dma_transmit ops;
              Some (n, [], s\<lparr>ser_rx := Some (Rx_dma a True), ser_hw := snd (f buf n RT_SERIAL_DMA_RX (ser_hw s))\<rparr>)
            }
            else Some (0, [], s\<lparr>ser_k := rt_set_errno (- RT_EBUSY) (ser_k s)\<rparr>)
        | _ \<Rightarrow> None
      else
        case ser_rx s of
          Some (Rx_fifo a f) \<Rightarrow> do {
            (xs, f1) \<leftarrow> serial_dma_rx_fifo (ser_bufsz s) n f;
            Some (length xs, xs, s\<lparr>ser_rx := Some (Rx_fifo a f1)\<rparr>)
          }
        | _ \<Rightarrow> None)"

definition rt_serial_read :: "'h rt_uart_ops \<Rightarrow> nat \<Rightarrow> nat \<Rightarrow> 'h serial_state \<Rightarrow> (nat \<times> u8 list \<times> 'h serial_state) option" where
  "rt_serial_read ops buf n s =
     (if n = 0 then Some (0, [], s)
      else if ser_has RT_DEVICE_FLAG_INT_RX s then
        case ser_rx s of
          Some (Rx_fifo a f) \<Rightarrow> do {
            (xs, f1) \<leftarrow> serial_int_rx (ser_bufsz s) n f;
            Some (length xs, xs, s\<lparr>ser_rx := Some (Rx_fifo a f1)\<rparr>)
          }
        | _ \<Rightarrow> None
      else if ser_has RT_DEVICE_FLAG_DMA_RX s then serial_dma_rx ops buf n s
      else let (xs, h) = serial_poll_rx ops (ser_has RT_DEVICE_FLAG_STREAM s) n (ser_hw s) in
           Some (length xs, xs, s\<lparr>ser_hw := h\<rparr>))"

definition rt_serial_write :: "'h rt_uart_ops \<Rightarrow> nat \<Rightarrow> u8 list \<Rightarrow> 'h serial_state \<Rightarrow> (tx_result \<times> 'h serial_state) option" where
  "rt_serial_write ops buf data s =
     (if data = [] then Some (Tx_return 0, s)
      else if ser_has RT_DEVICE_FLAG_INT_TX s then serial_int_tx ops data s
      else if ser_has RT_DEVICE_FLAG_DMA_TX s then serial_dma_tx ops buf (length data) s
      else Some (Tx_return (int (length data)), s\<lparr>ser_hw := serial_poll_tx ops (ser_has RT_DEVICE_FLAG_STREAM s) data (ser_hw s)\<rparr>))"

datatype serial_cmd = Ser_suspend | Ser_resume | Ser_config "serial_configure option" | Ser_other int nat

text \<open>A change of the buffer size of an open device returns \<^verbatim>\<open>RT_EBUSY\<close>, without the sign of an error.\<close>

definition rt_serial_control :: "'h rt_uart_ops \<Rightarrow> serial_cmd \<Rightarrow> 'h serial_state \<Rightarrow> (int \<times> 'h serial_state) option" where
  "rt_serial_control ops cmd s =
     (case cmd of
        Ser_suspend \<Rightarrow> Some (RT_EOK, s\<lparr>ser_flag := ser_flag s OR RT_DEVICE_FLAG_SUSPENDED\<rparr>)
      | Ser_resume \<Rightarrow> Some (RT_EOK, s\<lparr>ser_flag := ser_flag s AND NOT RT_DEVICE_FLAG_SUSPENDED\<rparr>)
      | Ser_config None \<Rightarrow> Some (RT_EOK, s)
      | Ser_config (Some cfg) \<Rightarrow>
          if bufsz cfg \<noteq> ser_bufsz s \<and> ser_ref_count s \<noteq> 0 then Some (RT_EBUSY, s)
          else let s1 = s\<lparr>ser_config := cfg\<rparr> in
               if ser_ref_count s1 \<noteq> 0 then do { f \<leftarrow> op_configure ops; Some (RT_EOK, s1\<lparr>ser_hw := snd (f cfg (ser_hw s1))\<rparr>) }
               else Some (RT_EOK, s1)
      | Ser_other c arg \<Rightarrow> let (r, h) = op_control ops c arg (ser_hw s) in Some (r, s\<lparr>ser_hw := h\<rparr>))"

section \<open>Definitions: the interrupt handler\<close>

partial_function (option) isr_rx_loop ::
    "'h rt_uart_ops \<Rightarrow> nat \<Rightarrow> rt_serial_rx_fifo \<Rightarrow> 'h \<Rightarrow> (rt_serial_rx_fifo \<times> 'h) option" where
  "isr_rx_loop ops bz f h =
     (let (ch, h1) = op_getc ops h in
      if ch = - 1 then Some (f, h1)
      else do { f1 \<leftarrow> isr_store bz (word_of_int ch) f; isr_rx_loop ops bz f1 h1 })"

definition rx_notify :: "'h serial_cb \<Rightarrow> nat \<Rightarrow> 'h serial_state \<Rightarrow> 'h serial_state option" where
  "rx_notify cb n s = (case ser_rx_indicate s of None \<Rightarrow> Some s | Some f \<Rightarrow> cb f n s)"

definition isr_rx_ind :: "'h rt_uart_ops \<Rightarrow> 'h serial_cb \<Rightarrow> 'h serial_state \<Rightarrow> 'h serial_state option" where
  "isr_rx_ind ops cb s =
     (case ser_rx s of
        Some (Rx_fifo a f) \<Rightarrow> do {
          (f1, h) \<leftarrow> isr_rx_loop ops (ser_bufsz s) f (ser_hw s);
          let s1 = s\<lparr>ser_rx := Some (Rx_fifo a f1), ser_hw := h\<rparr>;
          let n = isr_rx_length (ser_bufsz s1) f1;
          if n \<noteq> 0 then rx_notify cb n s1 else Some s1
        }
      | _ \<Rightarrow> None)"

definition isr_tx_done :: "'h serial_state \<Rightarrow> 'h serial_state option" where
  "isr_tx_done s =
     (case ser_tx s of
        Some (Tx_fifo a) \<Rightarrow> do {
          (k, F) \<leftarrow> rt_completion_done a (ser_k s) (ser_comp s);
          Some (s\<lparr>ser_k := k, ser_comp := F\<rparr>)
        }
      | _ \<Rightarrow> None)"

text \<open>The item that was sent is popped, the next one, if any, handed to the hardware. When nothing was popped, the pointer
  for the callback is not initialised.\<close>

definition isr_tx_dmadone :: "'h rt_uart_ops \<Rightarrow> 'h serial_cb \<Rightarrow> 'h serial_state \<Rightarrow> 'h serial_state option" where
  "isr_tx_dmadone ops cb s =
     (case ser_tx s of
        Some (Tx_dma a act) \<Rightarrow> do {
          (_, x, k, Q) \<leftarrow> rt_data_queue_pop (\<lambda>_ _ _ _. None) (a + 4) 0 (ser_k s) (ser_dq s);
          (r, y) \<leftarrow> rt_data_queue_peek (Q (a + 4));
          let s1 = s\<lparr>ser_k := k, ser_dq := Q\<rparr>;
          s2 \<leftarrow> (case y of
             Some (p, n) \<Rightarrow> do {
               f \<leftarrow> op_dma_transmit ops;
               Some (s1\<lparr>ser_tx := Some (Tx_dma a True), ser_hw := snd (f p n RT_SERIAL_DMA_TX (ser_hw s1))\<rparr>)
             }
           | None \<Rightarrow> Some (s1\<lparr>ser_tx := Some (Tx_dma a False)\<rparr>));
          case ser_tx_complete s2 of
            None \<Rightarrow> Some s2
          | Some g \<Rightarrow> do { (p, _) \<leftarrow> x; cb g p s2 }
        }
      | _ \<Rightarrow> None)"

definition isr_rx_dmadone :: "'h serial_cb \<Rightarrow> nat \<Rightarrow> 'h serial_state \<Rightarrow> 'h serial_state option" where
  "isr_rx_dmadone cb len s =
     (if ser_bufsz s = 0 then
        case ser_rx s of
          Some (Rx_dma a act) \<Rightarrow> do {
            g \<leftarrow> ser_rx_indicate s;
            s1 \<leftarrow> cb g len s;
            Some (s1\<lparr>ser_rx := Some (Rx_dma a False)\<rparr>)
          }
        | _ \<Rightarrow> None
      else
        case ser_rx s of
          Some (Rx_fifo a f) \<Rightarrow>
            let f1 = rt_dma_recv_update_put_index (ser_bufsz s) len f in
            rx_notify cb (rt_dma_calc_recved_len (ser_bufsz s) f1) (s\<lparr>ser_rx := Some (Rx_fifo a f1)\<rparr>)
        | _ \<Rightarrow> None)"

definition rt_hw_serial_isr :: "'h rt_uart_ops \<Rightarrow> 'h serial_cb \<Rightarrow> int \<Rightarrow> 'h serial_state \<Rightarrow> 'h serial_state option" where
  "rt_hw_serial_isr ops cb event s =
     (let ev = event mod 256 in
      if ev = 1 then isr_rx_ind ops cb s
      else if ev = 2 then isr_tx_done s
      else if ev = 4 then isr_tx_dmadone ops cb s
      else if ev = 3 then isr_rx_dmadone cb (nat ((event div 256) mod 2 ^ 32)) s
      else Some s)"

section \<open>Definitions: hypotheses and sample\<close>

text \<open>The hardware has the bytes \<open>xs\<close> to deliver; it accepts every byte; a callback only makes kernel calls. The bytes a stream
  sends: a carriage return in front of every line feed.\<close>

fun uart_delivers :: "'h rt_uart_ops \<Rightarrow> 'h \<Rightarrow> u8 list \<Rightarrow> 'h \<Rightarrow> bool" where
  "uart_delivers ops h [] h' \<longleftrightarrow> op_getc ops h = (- 1, h')"
| "uart_delivers ops h (x # xs) h' \<longleftrightarrow> (\<exists>h1. op_getc ops h = (uint x, h1) \<and> uart_delivers ops h1 xs h')"

definition uart_accepts :: "'h rt_uart_ops \<Rightarrow> bool" where
  "uart_accepts ops \<longleftrightarrow> (\<forall>c h. fst (op_putc ops c h) \<noteq> - 1)"

definition kernel_callback :: "'h serial_cb \<Rightarrow> bool" where
  "kernel_callback cb \<longleftrightarrow> (\<forall>g n s. \<exists>k. cb g n s = Some (s\<lparr>ser_k := k\<rparr>))"

definition crlf :: "bool \<Rightarrow> u8 list \<Rightarrow> u8 list" where
  "crlf stream data = concat (map (\<lambda>c. if c = 10 \<and> stream then [13, c] else [c]) data)"

definition uart_send :: "'h rt_uart_ops \<Rightarrow> u8 list \<Rightarrow> 'h \<Rightarrow> 'h" where
  "uart_send ops xs h = fold (\<lambda>c h. snd (op_putc ops c h)) xs h"

text \<open>A hardware that delivers the first list and collects what is sent in the second.\<close>

definition sample_uart :: "(u8 list \<times> u8 list) rt_uart_ops" where
  "sample_uart = \<lparr>op_configure = None, op_control = (\<lambda>_ _ h. (0, h)), op_putc = (\<lambda>c (i, out). (1, (i, out @ [c]))),
     op_getc = (\<lambda>(i, out). case i of [] \<Rightarrow> (- 1, ([], out)) | x # xs \<Rightarrow> (uint x, (xs, out))), op_dma_transmit = None\<rparr>"

definition sample_serial :: "u8 list \<Rightarrow> (u8 list \<times> u8 list) serial_state" where
  "sample_serial xs = \<lparr>ser_k = sample_kernel, ser_flag = 0x113, ser_open_flag = 0x143, ser_ref_count = 1, ser_rx_indicate = None,
     ser_tx_complete = None, ser_config = \<lparr>baud_rate = 115200, data_bits = 8, stop_bits = 0, parity = 0, bit_order = 0, invert = 0, bufsz = 4\<rparr>,
     ser_rx = Some (Rx_fifo 100 (rx_fifo_init 4)), ser_tx = None, ser_comp = (\<lambda>_. False),
     ser_dq = (\<lambda>_. \<lparr>dq_magic = 0, dq_size = 0, dq_lwm = 0, dq_get_index = 0, dq_is_empty = True, dq_put_index = 0, dq_is_full = False,
       dq_queue = [], dq_queue_addr = 0, dq_evt_notify = None\<rparr>), ser_hw = (xs, [])\<rparr>"

definition sample_serial_closed :: "(u8 list \<times> u8 list) serial_state" where
  "sample_serial_closed = (sample_serial [])\<lparr>ser_k := sample_kernel\<lparr>k_heap := sample_heap\<rparr>, ser_rx := None, ser_open_flag := 0\<rparr>"

section \<open>Receiving\<close>

lemma isr_rx_loop_stores:
  assumes "uart_delivers ops h xs h'" "rx_int_inv bz f"
  shows "\<exists>f'. isr_rx_loop ops bz f h = Some (f', h') \<and> rx_int_inv bz f' \<and> rx_contents bz f' = last_n (bz - 1) (rx_contents bz f @ xs)"
  using assms
proof (induction xs arbitrary: h f)
  case Nil
  have "length (rx_contents bz f) \<le> bz - 1" using rx_int_count [OF Nil.prems(2)] by (simp add: rx_contents_def)
  then show ?case using Nil.prems by (subst isr_rx_loop.simps) (simp add: last_n_all)
next
  case (Cons x xs)
  then obtain h1 where h1: "op_getc ops h = (uint x, h1)" "uart_delivers ops h1 xs h'" by auto
  have x: "uint x \<noteq> - 1" using uint_ge_0 [of x] by linarith
  obtain f1 where f1: "isr_store bz x f = Some f1" "rx_int_inv bz f1" "rx_contents bz f1 = last_n (bz - 1) (rx_contents bz f @ [x])"
    using isr_store_last [OF Cons.prems(2)] by blast
  obtain f' where "isr_rx_loop ops bz f1 h1 = Some (f', h')" "rx_int_inv bz f'" "rx_contents bz f' = last_n (bz - 1) (rx_contents bz f1 @ xs)"
    using Cons.IH [OF h1(2) f1(2)] by blast
  then show ?case using h1(1) x f1(1,3) by (subst isr_rx_loop.simps) (simp add: last_n_append)
qed

lemma rx_notify_kernel: "kernel_callback cb \<Longrightarrow> \<exists>k. rx_notify cb n s = Some (s\<lparr>ser_k := k\<rparr>)"
  unfolding rx_notify_def kernel_callback_def by (cases "ser_rx_indicate s") (auto intro: exI [of _ "ser_k s"])

section \<open>Sending\<close>

lemma uart_send_simps [simp]: "uart_send ops [] h = h" "uart_send ops (c # cs) h = uart_send ops cs (snd (op_putc ops c h))"
  "uart_send ops (xs @ ys) h = uart_send ops ys (uart_send ops xs h)"
  by (simp_all add: uart_send_def)

lemma crlf_simps [simp]: "crlf b [] = []" "crlf b (c # cs) = (if c = 10 \<and> b then [13, c] else [c]) @ crlf b cs"
  by (simp_all add: crlf_def)

lemma poll_tx_sends: "serial_poll_tx ops stream data h = uart_send ops (crlf stream data) h"
  by (induction data arbitrary: h) (simp_all add: Let_def)

lemma int_tx_sends:
  assumes "uart_accepts ops"
  shows "int_tx_loop ops a sz data s = Some (Tx_return sz, s\<lparr>ser_hw := uart_send ops (crlf (ser_has RT_DEVICE_FLAG_STREAM s) data) (ser_hw s)\<rparr>)"
proof (induction data arbitrary: s)
  case Nil
  then show ?case by (subst int_tx_loop.simps) simp
next
  case (Cons c cs)
  have ok: "fst (op_putc ops c h) \<noteq> - 1" for c h using assms by (simp add: uart_accepts_def)
  have "ser_has RT_DEVICE_FLAG_STREAM (s\<lparr>ser_hw := h\<rparr>) = ser_has RT_DEVICE_FLAG_STREAM s" for h by (simp add: ser_has_def)
  then show ?case
    using Cons.IH by (subst int_tx_loop.simps) (simp add: ok Let_def split_beta)
qed

text \<open>When the hardware takes the carriage return in front of a line feed but not the line feed, the driver waits and then starts
  again with the carriage return, which is sent twice.\<close>

lemma int_tx_repeats_cr:
  assumes "ser_has RT_DEVICE_FLAG_STREAM s" "fst (op_putc ops 13 (ser_hw s)) \<noteq> - 1"
    "op_putc ops 10 (snd (op_putc ops 13 (ser_hw s))) = (- 1, h2)" "ser_comp s a"
  shows "int_tx_loop ops a sz (10 # cs) s = int_tx_loop ops a sz (10 # cs) (s\<lparr>ser_hw := h2, ser_comp := (ser_comp s)(a := False)\<rparr>)"
  using assms by (subst int_tx_loop.simps) (simp add: Let_def split_beta rt_completion_wait_def)

section \<open>Opening and closing\<close>

lemma u16_bit_tests:
  "x AND 0x40 = (0 :: u16) \<longleftrightarrow> \<not> bit x 6" "x AND 0x100 = (0 :: u16) \<longleftrightarrow> \<not> bit x 8" "x AND 0x200 = (0 :: u16) \<longleftrightarrow> \<not> bit x 9"
  "x AND 0x400 = (0 :: u16) \<longleftrightarrow> \<not> bit x 10" "x AND 0x800 = (0 :: u16) \<longleftrightarrow> \<not> bit x 11"
  using and_exp_eq_0_iff_not_bit [of x 6] and_exp_eq_0_iff_not_bit [of x 8] and_exp_eq_0_iff_not_bit [of x 9]
    and_exp_eq_0_iff_not_bit [of x 10] and_exp_eq_0_iff_not_bit [of x 11] by simp_all

lemma ser_malloc_owned:
  assumes "heap_owned (k_heap (ser_k s), A)" "interrupt_nest (ser_k s) = 0" "n \<le> 2 ^ 32 - 4" "ser_malloc n s = Some (a, s')"
  shows "\<exists>h. s' = s\<lparr>ser_k := (ser_k s)\<lparr>k_heap := h\<rparr>\<rparr> \<and> a \<notin> A \<and> heap_owned (h, insert a A) \<and> n \<le> payload_size h a"
proof -
  obtain r h where R: "rt_malloc (k_heap (ser_k s)) 0 n = Some (r, h)" "heap_owned (h, A \<union> set_option r)"
    "\<forall>a. r = Some a \<longrightarrow> a \<notin> A \<and> n \<le> payload_size h a"
    by (rule owned_malloc [OF assms(1,3)]) blast
  have "r = Some a" "s' = s\<lparr>ser_k := (ser_k s)\<lparr>k_heap := h\<rparr>\<rparr>"
    using assms(2,4) R(1) by (auto simp: ser_malloc_def k_malloc_def bind_Some_iff)
  then show ?thesis using R(2,3) by auto
qed

lemma ser_free_owned:
  assumes "heap_owned (k_heap (ser_k s), A)" "interrupt_nest (ser_k s) = 0" "a \<in> A"
  shows "\<exists>h. ser_free a s = Some (s\<lparr>ser_k := (ser_k s)\<lparr>k_heap := h\<rparr>\<rparr>) \<and> heap_owned (h, A - {a})"
proof -
  obtain h where "rt_free (k_heap (ser_k s)) 0 (Some a) = Some h" "heap_owned (h, A - {a})" by (rule owned_free [OF assms(1,3)])
  then show ?thesis using assms(2) by (auto simp: ser_free_def k_free_def)
qed

lemma serial_open_int_rx:
  assumes s: "ser_rx s = None" "ser_tx s = None" and f: "bit oflag 8" "bit (ser_flag s) 8" "\<not> bit oflag 9" "\<not> bit oflag 10" "\<not> bit oflag 11"
  shows "rt_serial_open ops oflag s = map_option (\<lambda>(a, s1). (RT_EOK, s1\<lparr>ser_rx := Some (Rx_fifo a (rx_fifo_init (ser_bufsz s))),
      ser_open_flag := (oflag AND 0xff OR RT_DEVICE_FLAG_INT_RX) OR (if bit oflag 6 \<or> bit (ser_open_flag s) 6 then RT_DEVICE_FLAG_STREAM else 0),
      ser_hw := snd (op_control ops RT_DEVICE_CTRL_SET_INT 0x100 (ser_hw s1))\<rparr>))
    (ser_malloc (12 + ser_bufsz s) (s\<lparr>ser_open_flag := oflag AND 0xff\<rparr>))"
proof -
  have b: "ser_bufsz (s\<lparr>ser_open_flag := x\<rparr>) = ser_bufsz s" for x by (simp add: ser_bufsz_def)
  have m: "ser_tx s1 = None \<and> ser_open_flag s1 = oflag AND 0xff" if "ser_malloc n (s\<lparr>ser_open_flag := oflag AND 0xff\<rparr>) = Some (a, s1)" for n a s1
    using that s(2) by (auto simp: ser_malloc_def bind_Some_iff)
  show ?thesis
    using s f m [of "12 + ser_bufsz s"]
    by (cases "ser_malloc (12 + ser_bufsz s) (s\<lparr>ser_open_flag := oflag AND 0xff\<rparr>)")
      (auto simp: rt_serial_open_def lacks_def u16_bit_tests serial_open_rx_def serial_open_tx_def b ser_flag_or_def ser_control_def ser_has_def Let_def)
qed

lemma sample_fifo: "rx_int_inv 4 (rx_fifo_init 4)" "rx_dma_inv 4 (rx_fifo_init 4)" "rx_contents 4 (rx_fifo_init 4) = []"
  by (simp_all add: rx_int_inv_def rx_dma_inv_def rx_inv_def rx_fifo_init_def rx_contents_def serial_fifo_calc_recved_len_def)

lemma callback_nothing: "kernel_callback (\<lambda>_ _. Some)"
proof -
  have "s = s\<lparr>ser_k := ser_k s\<rparr>" for s :: "'a serial_state" by simp
  then show ?thesis unfolding kernel_callback_def by metis
qed

section \<open>Properties\<close>

text \<open>
  C29. Receiving by interrupts, with a buffer of \<open>bufsz\<close> bytes, at least 2 and at most 32768 (\<open>rx_int_inv\<close>): when the interrupt handler finds the bytes \<open>xs\<close>, the receive buffer of \<open>bufsz\<close> bytes holds the last
  \<open>bufsz - 1\<close> of the bytes received and not yet read; a read of \<open>n\<close> bytes then returns the oldest \<open>n\<close> of them, in
  order, or all when there are fewer, and the others remain.
\<close>

theorem rt_serial_int_receive:
  assumes rx: "ser_rx s = Some (Rx_fifo a f)" "rx_int_inv (ser_bufsz s) f" "ser_has RT_DEVICE_FLAG_INT_RX s"
    and hw: "uart_delivers ops (ser_hw s) xs h'" and cb: "kernel_callback cb" and bz: "bz = ser_bufsz s"
  shows "\<exists>s1 s2 f2. rt_hw_serial_isr ops cb 1 s = Some s1 \<and> ser_hw s1 = h'
    \<and> (let ys = last_n (bz - 1) (rx_contents bz f @ xs) in
        rt_serial_read ops buf n s1 = Some (min n (length ys), take n ys, s2)
        \<and> ser_rx s2 = Some (Rx_fifo a f2) \<and> rx_int_inv bz f2 \<and> rx_contents bz f2 = drop n ys)"
proof -
  obtain f1 where f1: "isr_rx_loop ops bz f (ser_hw s) = Some (f1, h')" "rx_int_inv bz f1" "rx_contents bz f1 = last_n (bz - 1) (rx_contents bz f @ xs)"
    using isr_rx_loop_stores [OF hw] rx(2) bz by metis
  let ?s = "s\<lparr>ser_rx := Some (Rx_fifo a f1), ser_hw := h'\<rparr>"
  have b: "ser_bufsz (s\<lparr>ser_rx := x, ser_hw := y\<rparr>) = bz" "ser_bufsz (s\<lparr>ser_rx := x, ser_hw := y, ser_k := z\<rparr>) = bz" for x y z by (simp_all add: ser_bufsz_def bz)
  obtain k where s1: "rt_hw_serial_isr ops cb 1 s = Some (?s\<lparr>ser_k := k\<rparr>)"
  proof (cases "isr_rx_length bz f1 = 0")
    case True
    moreover have "?s\<lparr>ser_k := ser_k s\<rparr> = ?s" by simp
    ultimately show thesis using that [of "ser_k s"] rx(1) f1(1) b by (simp add: rt_hw_serial_isr_def isr_rx_ind_def bz [symmetric] Let_def)
  next
    case False
    obtain k where "rx_notify cb (isr_rx_length bz f1) ?s = Some (?s\<lparr>ser_k := k\<rparr>)" using rx_notify_kernel [OF cb] by blast
    then show thesis using that [of k] False rx(1) f1(1) b by (simp add: rt_hw_serial_isr_def isr_rx_ind_def bz [symmetric] Let_def)
  qed
  obtain f2 where f2: "serial_int_rx bz n f1 = Some (take n (rx_contents bz f1), f2)" "rx_int_inv bz f2" "rx_contents bz f2 = drop n (rx_contents bz f1)"
    using serial_int_rx_takes [OF f1(2)] by blast
  have "ser_has RT_DEVICE_FLAG_INT_RX (?s\<lparr>ser_k := k\<rparr>)" using rx(3) by (simp add: ser_has_def)
  then have "rt_serial_read ops buf n (?s\<lparr>ser_k := k\<rparr>) =
      Some (min n (length (rx_contents bz f1)), take n (rx_contents bz f1), ?s\<lparr>ser_k := k, ser_rx := Some (Rx_fifo a f2)\<rparr>)"
    using f2(1) b by (cases "n = 0") (auto simp: rt_serial_read_def min.commute)
  then show ?thesis
    using s1 f2(2,3) f1(3) unfolding Let_def
    by (intro exI [of _ "?s\<lparr>ser_k := k\<rparr>"] exI [of _ "?s\<lparr>ser_k := k, ser_rx := Some (Rx_fifo a f2)\<rparr>"] exI [of _ f2]) simp
qed

theorem rt_serial_int_receive_witness:
  "\<exists>s1 s2. rt_hw_serial_isr sample_uart (\<lambda>_ _. Some) 1 (sample_serial [1, 2, 3, 4, 5]) = Some s1
     \<and> rt_serial_read sample_uart 0 2 s1 = Some (2, [3, 4], s2)"
proof -
  have u: "uart_delivers sample_uart (ser_hw (sample_serial [1, 2, 3, 4, 5])) [1, 2, 3, 4, 5] ([], [])"
    by (simp add: sample_uart_def sample_serial_def)
  have "ser_has RT_DEVICE_FLAG_INT_RX (sample_serial xs)" for xs by (simp add: ser_has_def sample_serial_def)
  from rt_serial_int_receive [OF _ _ this u callback_nothing refl, of 100 "rx_fifo_init 4" 0 2] sample_fifo(1,3)
  show ?thesis by (auto simp: sample_serial_def ser_bufsz_def last_n_def)
qed

text \<open>
  C30. Receiving by DMA, with a buffer of \<open>bufsz\<close> bytes, at least 2 and at most 32768; above that the 16-bit write position wraps around
  before it is reduced. When the hardware has stored a block of at most \<open>bufsz\<close> bytes at the write position, the interrupt handler
  makes the last \<open>bufsz\<close> bytes received and not yet read available; a read returns the oldest of them in order.
\<close>

theorem rt_serial_dma_receive:
  assumes rx: "ser_rx s = Some (Rx_fifo a f)" "rx_dma_inv bz f" "ser_has RT_DEVICE_FLAG_DMA_RX s" "\<not> ser_has RT_DEVICE_FLAG_INT_RX s"
    and bz: "bz = ser_bufsz s" "2 \<le> bz" "bz \<le> 2 ^ 15" and len: "length xs \<le> bz" and cb: "kernel_callback cb"
    and dma: "s' = s\<lparr>ser_rx := Some (Rx_fifo a (f\<lparr>rx_buffer := dma_store (rx_buffer f) (rx_put_index f) xs\<rparr>))\<rparr>"
  shows "\<exists>s1 s2 f2. rt_hw_serial_isr ops cb (3 + 256 * int (length xs)) s' = Some s1
    \<and> (let ys = last_n bz (rx_contents bz f @ xs) in
        rt_serial_read ops buf n s1 = Some (min n (length ys), take n ys, s2)
        \<and> ser_rx s2 = Some (Rx_fifo a f2) \<and> rx_dma_inv bz f2 \<and> rx_contents bz f2 = drop n ys)"
proof -
  have small: "bz \<le> 2 ^ 15" "bz \<noteq> 0" using bz by simp_all
  define f1 where "f1 = rt_dma_recv_update_put_index bz (length xs) (f\<lparr>rx_buffer := dma_store (rx_buffer f) (rx_put_index f) xs\<rparr>)"
  have F: "rx_dma_inv bz f1" "rx_contents bz f1 = last_n bz (rx_contents bz f @ xs)" using dma_put_last [OF rx(2) len f1_def] by auto
  let ?s = "s\<lparr>ser_rx := Some (Rx_fifo a f1)\<rparr>"
  have b: "ser_bufsz (s\<lparr>ser_rx := x\<rparr>) = bz" "ser_bufsz (s\<lparr>ser_rx := x, ser_k := z\<rparr>) = bz" for x z by (simp_all add: ser_bufsz_def bz(1))
  obtain k where k: "rx_notify cb (rt_dma_calc_recved_len bz f1) ?s = Some (?s\<lparr>ser_k := k\<rparr>)" using rx_notify_kernel [OF cb] by blast
  have "nat (((3 + 256 * int (length xs)) div 256) mod 2 ^ 32) = length xs" "(3 + 256 * int (length xs)) mod 256 = 3" using len small(1) by simp_all
  then have s1: "rt_hw_serial_isr ops cb (3 + 256 * int (length xs)) s' = Some (?s\<lparr>ser_k := k\<rparr>)"
    using k small(2) b by (simp add: rt_hw_serial_isr_def isr_rx_dmadone_def dma Let_def f1_def [symmetric])
  obtain f2 where f2: "serial_dma_rx_fifo bz n f1 = Some (take n (rx_contents bz f1), f2)" "rx_dma_inv bz f2" "rx_contents bz f2 = drop n (rx_contents bz f1)"
    using serial_dma_rx_takes [OF F(1)] by blast
  show ?thesis
  proof (cases "n = 0")
    case True
    then show ?thesis using s1 F unfolding Let_def by (intro exI [of _ "?s\<lparr>ser_k := k\<rparr>"] exI [of _ f1]) (simp add: rt_serial_read_def)
  next
    case False
    have "ser_has RT_DEVICE_FLAG_DMA_RX (?s\<lparr>ser_k := k\<rparr>)" "\<not> ser_has RT_DEVICE_FLAG_INT_RX (?s\<lparr>ser_k := k\<rparr>)" using rx(3,4) by (simp_all add: ser_has_def)
    then have "rt_serial_read ops buf n (?s\<lparr>ser_k := k\<rparr>) =
        Some (min n (length (rx_contents bz f1)), take n (rx_contents bz f1), ?s\<lparr>ser_k := k, ser_rx := Some (Rx_fifo a f2)\<rparr>)"
      using f2(1) b small(2) False by (simp add: rt_serial_read_def serial_dma_rx_def min.commute)
    then show ?thesis
      using s1 f2(2,3) F(2) unfolding Let_def
      by (intro exI [of _ "?s\<lparr>ser_k := k\<rparr>"] exI [of _ "?s\<lparr>ser_k := k, ser_rx := Some (Rx_fifo a f2)\<rparr>"] exI [of _ f2]) simp
  qed
qed

theorem rt_serial_dma_receive_witness:
  "\<exists>s1 s2. rt_hw_serial_isr sample_uart (\<lambda>_ _. Some) (3 + 256 * 2)
      ((sample_serial [])\<lparr>ser_open_flag := 0x203, ser_rx := Some (Rx_fifo 100 ((rx_fifo_init 4)\<lparr>rx_buffer := [7, 8, 0, 0]\<rparr>))\<rparr>) = Some s1
     \<and> rt_serial_read sample_uart 0 1 s1 = Some (1, [7], s2)"
proof -
  let ?s = "(sample_serial [])\<lparr>ser_open_flag := 0x203\<rparr>"
  have f: "ser_has RT_DEVICE_FLAG_DMA_RX ?s" "\<not> ser_has RT_DEVICE_FLAG_INT_RX ?s" "ser_rx ?s = Some (Rx_fifo 100 (rx_fifo_init 4))" "4 = ser_bufsz ?s"
    by (simp_all add: ser_has_def sample_serial_def ser_bufsz_def)
  have r: "replicate 4 (0 :: u8) = [0, 0, 0, 0]" by (simp add: numeral_eq_Suc)
  have d: "(rx_fifo_init 4)\<lparr>rx_buffer := dma_store (rx_buffer (rx_fifo_init 4)) (rx_put_index (rx_fifo_init 4)) [7, 8]\<rparr>
      = (rx_fifo_init 4)\<lparr>rx_buffer := [7, 8, 0, 0]\<rparr>" by (simp add: rx_fifo_init_def r)
  have l: "last_n 4 (rx_contents 4 (rx_fifo_init 4) @ [7, 8]) = [7, 8 :: u8]" by (simp add: sample_fifo(3) last_n_def)
  obtain s1 s2 where "rt_hw_serial_isr sample_uart (\<lambda>_ _. Some) (3 + 256 * int (length [7, 8 :: u8]))
      (?s\<lparr>ser_rx := Some (Rx_fifo 100 ((rx_fifo_init 4)\<lparr>rx_buffer := [7, 8, 0, 0]\<rparr>))\<rparr>) = Some s1"
    "rt_serial_read sample_uart 0 1 s1 = Some (min 1 (length [7, 8 :: u8]), take 1 [7, 8], s2)"
    using rt_serial_dma_receive [OF f(3) sample_fifo(2) f(1,2,4) _ _ _ callback_nothing refl, of "[7, 8]" sample_uart 0 1]
    unfolding d l Let_def by auto
  then show ?thesis by simp
qed

text \<open>
  A write by polling, or by interrupts to a hardware that accepts every byte, hands exactly the given bytes to the
  hardware, in order, with a carriage return in front of every line feed in stream mode, and returns their number.
\<close>

lemma rt_serial_write_sends:
  assumes "\<not> ser_has RT_DEVICE_FLAG_INT_TX s \<and> \<not> ser_has RT_DEVICE_FLAG_DMA_TX s
    \<or> ser_has RT_DEVICE_FLAG_INT_TX s \<and> ser_tx s = Some (Tx_fifo a) \<and> uart_accepts ops"
  shows "rt_serial_write ops buf data s =
    Some (Tx_return (int (length data)), s\<lparr>ser_hw := uart_send ops (crlf (ser_has RT_DEVICE_FLAG_STREAM s) data) (ser_hw s)\<rparr>)"
  using assms int_tx_sends by (auto simp: rt_serial_write_def poll_tx_sends serial_int_tx_def)

text \<open>
  C31. Opening a serial device. Without the support of a requested mode it returns \<^verbatim>\<open>-RT_EIO\<close> and changes nothing. For receiving
  by interrupts it takes one block of the heap with room for the buffer (or fails its assertion when the heap has none),
  and closing the last user gives it back. A second open without that mode clears the mode in the open flag: closing then
  leaves the block allocated.
\<close>

theorem rt_serial_open_close:
  assumes own: "heap_owned (k_heap (ser_k s), A)" "interrupt_nest (ser_k s) = 0" and s: "ser_rx s = None" "ser_tx s = None"
    and f: "bit oflag 8" "bit (ser_flag s) 8" "\<not> bit oflag 9" "\<not> bit oflag 10" "\<not> bit oflag 11" and bz: "ser_bufsz s < 2 ^ 16" and r: "ser_ref_count s \<le> 1"
  shows "(\<forall>g m. m \<in> {0x100, 0x200, 0x400, 0x800} \<and> lacks g (ser_flag s) m \<longrightarrow> rt_serial_open ops g s = Some (- RT_EIO, s))
    \<and> (rt_serial_open ops oflag s = None \<and> rt_malloc (k_heap (ser_k s)) 0 (12 + ser_bufsz s) = Some (None, k_heap (ser_k s))
       \<or> (\<exists>s1 a. rt_serial_open ops oflag s = Some (RT_EOK, s1) \<and> ser_rx s1 = Some (Rx_fifo a (rx_fifo_init (ser_bufsz s))) \<and> a \<notin> A
           \<and> heap_owned (k_heap (ser_k s1), insert a A) \<and> 12 + ser_bufsz s \<le> payload_size (k_heap (ser_k s1)) a
           \<and> (\<exists>s2. rt_serial_close ops s1 = Some (RT_EOK, s2) \<and> ser_rx s2 = None \<and> heap_owned (k_heap (ser_k s2), A))
           \<and> (\<exists>s2 s3. rt_serial_open ops 0 s1 = Some (RT_EOK, s2) \<and> rt_serial_close ops s2 = Some (RT_EOK, s3)
                \<and> heap_owned (k_heap (ser_k s3), insert a A))))"
proof -
  let ?n = "12 + ser_bufsz s" and ?s = "s\<lparr>ser_open_flag := oflag AND 0xff\<rparr>" and ?f = "rx_fifo_init (ser_bufsz s)"
  have eio: "\<forall>g m. m \<in> {0x100, 0x200, 0x400, 0x800} \<and> lacks g (ser_flag s) m \<longrightarrow> rt_serial_open ops g s = Some (- RT_EIO, s)"
    by (auto simp: rt_serial_open_def)
  have O: "rt_serial_open ops oflag s = map_option (\<lambda>(a, s1). (RT_EOK, s1\<lparr>ser_rx := Some (Rx_fifo a ?f),
      ser_open_flag := (oflag AND 0xff OR RT_DEVICE_FLAG_INT_RX) OR (if bit oflag 6 \<or> bit (ser_open_flag s) 6 then RT_DEVICE_FLAG_STREAM else 0),
      ser_hw := snd (op_control ops RT_DEVICE_CTRL_SET_INT 0x100 (ser_hw s1))\<rparr>)) (ser_malloc ?n ?s)"
    by (rule serial_open_int_rx [OF s f])
  show ?thesis
  proof (cases "ser_malloc ?n ?s")
    case None
    obtain r' h where "rt_malloc (k_heap (ser_k s)) 0 ?n = Some (r', h)" "r' = None \<longrightarrow> h = k_heap (ser_k s)"
      by (rule owned_malloc [OF own(1), of ?n]) (use bz in auto)
    moreover from this have "r' = None" using None own(2) by (cases r') (simp_all add: ser_malloc_def k_malloc_def)
    ultimately have "rt_serial_open ops oflag s = None \<and> rt_malloc (k_heap (ser_k s)) 0 ?n = Some (None, k_heap (ser_k s))" using O None by simp
    then show ?thesis using eio by blast
  next
    case (Some p)
    then obtain a s0 where p: "ser_malloc ?n ?s = Some (a, s0)" by (cases p) simp
    obtain h where h: "s0 = ?s\<lparr>ser_k := (ser_k s)\<lparr>k_heap := h\<rparr>\<rparr>" "a \<notin> A" "heap_owned (h, insert a A)" "?n \<le> payload_size h a"
      using ser_malloc_owned [OF _ _ _ p, of A] own bz by auto
    define fl where "fl = (oflag AND 0xff OR RT_DEVICE_FLAG_INT_RX) OR (if bit oflag 6 \<or> bit (ser_open_flag s) 6 then RT_DEVICE_FLAG_STREAM else 0)"
    define s1 where "s1 = s0\<lparr>ser_rx := Some (Rx_fifo a ?f), ser_open_flag := fl, ser_hw := snd (op_control ops RT_DEVICE_CTRL_SET_INT 0x100 (ser_hw s0))\<rparr>"
    have S1: "rt_serial_open ops oflag s = Some (RT_EOK, s1)" using O p by (simp add: s1_def fl_def)
    have F: "ser_rx s1 = Some (Rx_fifo a ?f)" "ser_tx s1 = None" "ser_ref_count s1 \<le> 1" "ser_k s1 = (ser_k s)\<lparr>k_heap := h\<rparr>" "ser_open_flag s1 = fl"
      using s r by (simp_all add: s1_def h(1))
    have fl: "bit fl 8" "\<not> bit fl 10" "\<not> bit fl 11" using f by (auto simp: fl_def bit_simps)
    obtain h2 where h2: "ser_free a s1 = Some (s1\<lparr>ser_k := (ser_k s1)\<lparr>k_heap := h2\<rparr>\<rparr>)" "heap_owned (h2, insert a A - {a})"
      using ser_free_owned [of s1 "insert a A" a] F(4) h(3) own(2) by auto
    have fl2: "\<not> bit (fl AND NOT 0x100) 10" "\<not> bit (fl AND NOT 0x100) 11" using fl by (simp_all add: bit_simps)
    have close: "\<exists>s2. rt_serial_close ops s1 = Some (RT_EOK, s2) \<and> ser_rx s2 = None \<and> heap_owned (k_heap (ser_k s2), A)"
      using F fl fl2 h2 h(2) by (simp add: rt_serial_close_def serial_close_rx_def serial_close_tx_def ser_has_def u16_bit_tests ser_flag_clear_def ser_control_def Let_def)
    define s2 where "s2 = s1\<lparr>ser_open_flag := if bit fl 6 then RT_DEVICE_FLAG_STREAM else 0\<rparr>"
    have "rt_serial_open ops 0 s1 = Some (RT_EOK, s2)"
      using F by (simp add: rt_serial_open_def lacks_def serial_open_rx_def serial_open_tx_def ser_has_def u16_bit_tests ser_flag_or_def s2_def)
    moreover have "\<not> ser_has 0x100 s2" "\<not> ser_has 0x200 s2" "\<not> ser_has 0x400 s2" "\<not> ser_has 0x800 s2" by (simp_all add: s2_def ser_has_def)
    then have "\<exists>s3. rt_serial_close ops s2 = Some (RT_EOK, s3) \<and> ser_k s3 = ser_k s1"
      using F(3) by (simp add: rt_serial_close_def serial_close_rx_def serial_close_tx_def ser_control_def) (simp add: s2_def)
    ultimately have "\<exists>s2 s3. rt_serial_open ops 0 s1 = Some (RT_EOK, s2) \<and> rt_serial_close ops s2 = Some (RT_EOK, s3)
        \<and> heap_owned (k_heap (ser_k s3), insert a A)" using F(4) h(3) by fastforce
    moreover have "heap_owned (k_heap (ser_k s1), insert a A)" "?n \<le> payload_size (k_heap (ser_k s1)) a" using F(4) h(3,4) by simp_all
    ultimately show ?thesis using eio S1 F(1) h(2) close by blast
  qed
qed

theorem rt_serial_open_close_witness:
  "\<exists>s1. rt_serial_open sample_uart 0x103 (sample_serial_closed) = Some (RT_EOK, s1) \<and> ser_rx s1 \<noteq> None
     \<and> (\<exists>s2. rt_serial_close sample_uart s1 = Some (RT_EOK, s2) \<and> ser_rx s2 = None)"
proof -
  let ?s = sample_serial_closed
  obtain h1 where m: "rt_malloc sample_heap 0 16 = Some (Some 4132, h1)"
    using malloc_refines [OF sample_heap_wf, of 16] by (auto simp: align_up4_def add32_def sample_heap_def)
  have F: "k_heap (ser_k ?s) = sample_heap" "interrupt_nest (ser_k ?s) = 0" "ser_rx ?s = None" "ser_tx ?s = None" "ser_bufsz ?s = 4" "ser_ref_count ?s \<le> 1"
    "bit (ser_flag ?s) 8" by (simp_all add: sample_serial_closed_def sample_serial_def ser_bufsz_def bit_simps)
  have b: "bit (0x103 :: u16) 8" "\<not> bit (0x103 :: u16) 9" "\<not> bit (0x103 :: u16) 10" "\<not> bit (0x103 :: u16) 11" by (simp_all add: bit_simps)
  show ?thesis
    using rt_serial_open_close [where s = ?s and A = "{4108}" and oflag = "0x103" and ops = sample_uart] F b m sample_heap_owned by auto
qed

end
