(* ===== verification/Console.thy ===== *)
theory Console
  imports Shell Serial Ipc_Spec
begin

text \<open>
  How the shell gets its bytes (\<^verbatim>\<open>finsh_getchar\<close> and \<^verbatim>\<open>finsh_rx_ind\<close> of \<^verbatim>\<open>components/finsh/shell.c\<close>): from the serial device, opened with
  reception by interrupts, whose interrupt handler notifies the shell through a semaphore. \<^verbatim>\<open>rt_device_read\<close> of an open device is
  the read function of the driver. This puts the serial device, the semaphore, the scheduler and the line editor together.
\<close>

section \<open>Definitions\<close>

text \<open>The callback of the device; \<open>m\<close> is the semaphore \<^verbatim>\<open>rx_sem\<close>.\<close>

definition finsh_rx_ind :: "nat \<Rightarrow> 'h serial_cb" where
  "finsh_rx_ind m dev n s = do {
     (r, k) \<leftarrow> rt_sem_release m (ser_k s);
     Some (s\<lparr>ser_k := k\<rparr>)
   }"

text \<open>A call returns a byte, or its thread waits; the result of \<^verbatim>\<open>rt_sem_take\<close> is not looked at, so the rest of a call that waited is
  the loop again.\<close>

datatype getchar_result = Got u8 | Get_wait

partial_function (option) finsh_getchar :: "'h rt_uart_ops \<Rightarrow> nat \<Rightarrow> 'h serial_state \<Rightarrow> (getchar_result \<times> 'h serial_state) option" where
  "finsh_getchar ops m s = do {
     (n, xs, s1) \<leftarrow> rt_serial_read ops 0 1 s;
     if n = 1 then Some (Got (hd xs), s1)
     else do {
       (r, k) \<leftarrow> rt_sem_take m RT_WAITING_FOREVER (ser_k s1);
       case r of
         Wait _ \<Rightarrow> Some (Get_wait, s1\<lparr>ser_k := k\<rparr>)
       | Return _ \<Rightarrow> finsh_getchar ops m (s1\<lparr>ser_k := k\<rparr>)
     }
   }"

text \<open>The loop of the thread, until it waits.\<close>

partial_function (option) finsh_thread ::
    "'w cmd_functions \<Rightarrow> finsh_syscall list \<Rightarrow> 'h rt_uart_ops \<Rightarrow> nat \<Rightarrow> 'w finsh_shell \<Rightarrow> 'h serial_state \<Rightarrow> ('w finsh_shell \<times> 'h serial_state) option" where
  "finsh_thread run tbl ops m sh s = do {
     (r, s1) \<leftarrow> finsh_getchar ops m s;
     case r of
       Get_wait \<Rightarrow> Some (sh, s1)
     | Got ch \<Rightarrow> do { sh1 \<leftarrow> finsh_key run tbl ch sh; finsh_thread run tbl ops m sh1 s1 }
   }"

text \<open>The device has the bytes \<open>xs\<close> for the reader, and notifies.\<close>

definition rx_holds :: "'h serial_state \<Rightarrow> u8 list \<Rightarrow> bool" where
  "rx_holds s xs \<longleftrightarrow> ser_has RT_DEVICE_FLAG_INT_RX s \<and> ser_rx_indicate s \<noteq> None
     \<and> (\<exists>a f. ser_rx s = Some (Rx_fifo a f) \<and> rx_int_inv (ser_bufsz s) f \<and> rx_contents (ser_bufsz s) f = xs)"

text \<open>The thread \<open>t\<close> runs, or waits, for the semaphore \<open>m\<close>, which nobody else waits for.\<close>

definition shell_runs :: "nat \<Rightarrow> tid \<Rightarrow> kstate \<Rightarrow> bool" where
  "shell_runs m t k \<longleftrightarrow> kernel_live k \<and> rt_object_get_type k (K_sem m) = RT_Object_Class_Semaphore \<and> may_block t k
     \<and> o_flag (k_obj k (K_sem m)) \<in> {0, RT_IPC_FLAG_PRIO} \<and> k_list k (Sem_q m) = []"

definition shell_waits :: "nat \<Rightarrow> tid \<Rightarrow> kstate \<Rightarrow> bool" where
  "shell_waits m t k \<longleftrightarrow> kernel_live k \<and> rt_object_get_type k (K_sem m) = RT_Object_Class_Semaphore
     \<and> thread_state k t = RT_THREAD_SUSPEND \<and> k_list k (Sem_q m) = [t] \<and> sem_value (k_sem k m) = 0"

section \<open>Reading\<close>

lemma read_one:
  assumes "rx_holds s ys"
  shows "\<exists>f a. rt_serial_read ops 0 1 s = Some (length (take 1 ys), take 1 ys, s\<lparr>ser_rx := Some (Rx_fifo a f)\<rparr>)
     \<and> rx_holds (s\<lparr>ser_rx := Some (Rx_fifo a f)\<rparr>) (drop 1 ys)"
proof -
  obtain a f where f: "ser_rx s = Some (Rx_fifo a f)" "rx_int_inv (ser_bufsz s) f" "rx_contents (ser_bufsz s) f = ys"
    and d: "ser_has RT_DEVICE_FLAG_INT_RX s" "ser_rx_indicate s \<noteq> None"
    using assms by (auto simp: rx_holds_def)
  obtain f' where f': "serial_int_rx (ser_bufsz s) 1 f = Some (take 1 ys, f')" "rx_int_inv (ser_bufsz s) f'" "rx_contents (ser_bufsz s) f' = drop 1 ys"
    using serial_int_rx_takes [OF f(2), of 1] f(3) by blast
  have "rt_serial_read ops 0 1 s = Some (length (take 1 ys), take 1 ys, s\<lparr>ser_rx := Some (Rx_fifo a f')\<rparr>)"
    using f f' d by (simp add: rt_serial_read_def)
  moreover have "rx_holds (s\<lparr>ser_rx := Some (Rx_fifo a f')\<rparr>) (drop 1 ys)"
    using f' d by (simp add: rx_holds_def ser_has_def ser_bufsz_def)
  ultimately show ?thesis by blast
qed

lemma rx_holds_kernel [simp]: "rx_holds (s\<lparr>ser_k := k\<rparr>) ys = rx_holds s ys"
  by (simp add: rx_holds_def ser_has_def ser_bufsz_def)

lemma getchar_got:
  assumes "rx_holds s (c # cs)"
  shows "\<exists>s1. finsh_getchar ops m s = Some (Got c, s1) \<and> rx_holds s1 cs \<and> ser_k s1 = ser_k s \<and> ser_hw s1 = ser_hw s"
proof -
  obtain f a where r: "rt_serial_read ops 0 1 s = Some (1, [c], s\<lparr>ser_rx := Some (Rx_fifo a f)\<rparr>)" "rx_holds (s\<lparr>ser_rx := Some (Rx_fifo a f)\<rparr>) cs"
    using read_one [OF assms, of ops] by auto
  then show ?thesis by (subst finsh_getchar.simps) simp
qed

lemma take_waits:
  assumes "shell_runs m t k" "sem_value (k_sem k m) = 0"
  shows "\<exists>k'. rt_sem_take m RT_WAITING_FOREVER k = Some (Wait C_sem_take, k') \<and> shell_waits m t k'"
proof -
  let ?k1 = "thread_set_error t RT_EOK k" and ?flag = "o_flag (k_obj k (K_sem m))"
  note r = assms(1) [unfolded shell_runs_def]
  obtain k' where k': "ipc_wait (Sem_q m) t ?flag RT_WAITING_FOREVER ?k1 = Some k'" "waits (Sem_q m) t ?flag RT_WAITING_FOREVER ?k1 k'"
    by (rule block_succeeds [OF live_upd(1), of k t t RT_EOK "Sem_q m" ?flag RT_WAITING_FOREVER]) (use r in auto)
  have take: "rt_sem_take m RT_WAITING_FOREVER k = Some (Wait C_sem_take, k')"
    using k'(1) r assms(2) by (auto simp: rt_sem_take_def in_thread_context_def rt_thread_self_def may_block_def thread_set_error_def thr_upd_def)
  have fr: "thread_frame {t} ?k1 k'" and q: "k_list k' (Sem_q m) = [t]" and st: "thread_state k' t = RT_THREAD_SUSPEND" "kernel_live k'"
    using k'(2) r by (auto simp: waits_def enqueue_def thread_set_error_def thr_upd_def thread_state_def)
  then have "shell_waits m t k'"
    using r assms(2) thread_frame_type [OF fr, of "K_sem m"] sem_value_frame [OF fr]
    by (simp add: shell_waits_def thread_set_error_def thr_upd_def rt_object_get_type_def)
  with take show ?thesis by blast
qed

lemma getchar_waits:
  assumes "rx_holds s []" "shell_runs m t (ser_k s)"
  shows "\<exists>s1. finsh_getchar ops m s = Some (Get_wait, s1) \<and> rx_holds s1 [] \<and> shell_waits m t (ser_k s1) \<and> ser_hw s1 = ser_hw s
     \<and> ser_bufsz s1 = ser_bufsz s"
  using assms
proof (induction "sem_value (k_sem (ser_k s) m)" arbitrary: s)
  case 0
  obtain f a where r: "rt_serial_read ops 0 1 s = Some (0, [], s\<lparr>ser_rx := Some (Rx_fifo a f)\<rparr>)" "rx_holds (s\<lparr>ser_rx := Some (Rx_fifo a f)\<rparr>) []"
    using read_one [OF 0(2), of ops] by auto
  obtain k where "rt_sem_take m RT_WAITING_FOREVER (ser_k s) = Some (Wait C_sem_take, k)" "shell_waits m t k"
    using take_waits [OF 0(3)] 0(1) by auto
  then show ?case using r by (subst finsh_getchar.simps) (simp add: ser_bufsz_def)
next
  case (Suc v)
  obtain f a where r: "rt_serial_read ops 0 1 s = Some (0, [], s\<lparr>ser_rx := Some (Rx_fifo a f)\<rparr>)" "rx_holds (s\<lparr>ser_rx := Some (Rx_fifo a f)\<rparr>) []"
    using read_one [OF Suc.prems(1), of ops] by auto
  let ?k = "sem_set m v (ser_k s)" and ?s = "s\<lparr>ser_rx := Some (Rx_fifo a f), ser_k := sem_set m v (ser_k s)\<rparr>"
  have "rt_sem_take m RT_WAITING_FOREVER (ser_k s) = Some (Return RT_EOK, ?k)"
    using Suc.prems(2) by (simp add: rt_sem_take_def shell_runs_def Suc.hyps(2) [symmetric])
  then have "finsh_getchar ops m s = finsh_getchar ops m ?s"
    using r by (subst finsh_getchar.simps) simp
  moreover have "shell_runs m t ?k"
    using Suc.prems(2) live_upd(2) [of "ser_k s" m v]
    by (auto simp: shell_runs_def may_block_def sem_set_def rt_object_get_type_def thread_state_def)
  ultimately show ?case
    using Suc.hyps(1) [of ?s] r(2) by (simp add: sem_set_def ser_bufsz_def)
qed

section \<open>The interrupt\<close>

lemma isr_wakes:
  assumes "rx_holds s []" "shell_waits m t (ser_k s)" "uart_delivers ops (ser_hw s) xs h'" "xs \<noteq> []"
  shows "\<exists>s1. rt_hw_serial_isr ops (finsh_rx_ind m) 1 s = Some s1 \<and> rx_holds s1 (last_n (ser_bufsz s - 1) xs) \<and> ser_hw s1 = h'
     \<and> wakes (Sem_q m) t [] (ser_k s) (ser_k s1)"
proof -
  obtain a f g where f: "ser_rx s = Some (Rx_fifo a f)" "rx_int_inv (ser_bufsz s) f" "rx_contents (ser_bufsz s) f = []"
    and d: "ser_has RT_DEVICE_FLAG_INT_RX s" "ser_rx_indicate s = Some g"
    using assms(1) by (auto simp: rx_holds_def)
  let ?bz = "ser_bufsz s"
  obtain f1 where f1: "isr_rx_loop ops ?bz f (ser_hw s) = Some (f1, h')" "rx_int_inv ?bz f1" "rx_contents ?bz f1 = last_n (?bz - 1) xs"
    using isr_rx_loop_stores [OF assms(3) f(2)] f(3) by auto
  have "2 \<le> ?bz" using f1(2) by (simp add: rx_int_inv_def rx_inv_def)
  then have "last_n (?bz - 1) xs \<noteq> []" using assms(4) by (cases xs) (auto simp: last_n_def)
  moreover have "isr_rx_length ?bz f1 = length (rx_contents ?bz f1)"
    using f1(2) by (auto simp: isr_rx_length_def rx_contents_def serial_fifo_calc_recved_len_def rx_int_inv_def)
  ultimately have n: "isr_rx_length ?bz f1 \<noteq> 0" using f1(3) by simp
  obtain k1 k' where k': "rt_ipc_list_resume (Sem_q m) (ser_k s) = Some k1" "rt_schedule k1 = Some k'" "wakes (Sem_q m) t [] (ser_k s) k'"
    by (rule ipc_resume_succeeds [of "ser_k s" "Sem_q m" t "[]"]) (use assms(2) in \<open>auto simp: shell_waits_def\<close>)
  then have rel: "rt_sem_release m (ser_k s) = Some (RT_EOK, k')" using assms(2) by (simp add: rt_sem_release_def shell_waits_def)
  let ?s = "s\<lparr>ser_rx := Some (Rx_fifo a f1), ser_hw := h'\<rparr>"
  have b: "ser_bufsz ?s = ?bz" by (simp add: ser_bufsz_def)
  have "rt_hw_serial_isr ops (finsh_rx_ind m) 1 s = Some (?s\<lparr>ser_k := k'\<rparr>)"
    using f(1) f1(1) n b rel d(2) by (simp add: rt_hw_serial_isr_def isr_rx_ind_def rx_notify_def finsh_rx_ind_def Let_def)
  moreover have "rx_holds ?s (last_n (?bz - 1) xs)" using f1(2,3) d b by (simp add: rx_holds_def ser_has_def)
  ultimately show ?thesis using k'(3) by simp
qed

text \<open>The thread of the shell handles what the device holds, in order, and waits again.\<close>

lemma finsh_thread_runs:
  assumes "rx_holds s xs" "shell_runs m t (ser_k s)" "finsh_keys run tbl xs sh = Some sh'"
  shows "\<exists>s1. finsh_thread run tbl ops m sh s = Some (sh', s1) \<and> rx_holds s1 [] \<and> shell_waits m t (ser_k s1) \<and> ser_hw s1 = ser_hw s"
  using assms
proof (induction xs arbitrary: s sh)
  case Nil
  then show ?case using getchar_waits [OF Nil.prems(1,2), of ops] by (subst finsh_thread.simps) auto
next
  case (Cons c cs)
  obtain s1 where s1: "finsh_getchar ops m s = Some (Got c, s1)" "rx_holds s1 cs" "ser_k s1 = ser_k s" "ser_hw s1 = ser_hw s"
    using getchar_got [OF Cons.prems(1)] by blast
  obtain sh1 where sh1: "finsh_key run tbl c sh = Some sh1" "finsh_keys run tbl cs sh1 = Some sh'"
    using Cons.prems(3) by (auto simp: bind_Some_iff)
  have "finsh_thread run tbl ops m sh s = finsh_thread run tbl ops m sh1 s1"
    using s1(1) sh1(1) by (subst finsh_thread.simps) simp
  then show ?case using Cons.IH [OF s1(2) _ sh1(2)] Cons.prems(2) s1(3,4) by simp
qed

section \<open>Properties\<close>

text \<open>
  C32. From the wire to the shell. When nothing has arrived, the thread of the shell waits for its semaphore. When then an
  interrupt brings bytes that fit the receive buffer, its handler stores them and wakes exactly this thread. When the thread runs
  again, it handles these bytes as keys, each once and in their order, and waits again, with nothing left in the buffer.
\<close>

theorem finsh_console_input:
  assumes "rx_holds s []" and "shell_runs m t (ser_k s)" and "uart_delivers ops (ser_hw s) xs h'" and "xs \<noteq> []" and "length xs < ser_bufsz s"
    and "finsh_keys run tbl xs sh = Some sh'"
  shows "\<exists>s1 s2. finsh_thread run tbl ops m sh s = Some (sh, s1) \<and> shell_waits m t (ser_k s1)
    \<and> rt_hw_serial_isr ops (finsh_rx_ind m) 1 s1 = Some s2 \<and> wakes (Sem_q m) t [] (ser_k s1) (ser_k s2)
    \<and> (\<forall>k. shell_runs m t k \<longrightarrow> (\<exists>s3. finsh_thread run tbl ops m sh (s2\<lparr>ser_k := k\<rparr>) = Some (sh', s3)
          \<and> rx_holds s3 [] \<and> shell_waits m t (ser_k s3)))"
proof -
  obtain s1 where s1: "finsh_getchar ops m s = Some (Get_wait, s1)" "rx_holds s1 []" "shell_waits m t (ser_k s1)" "ser_hw s1 = ser_hw s" "ser_bufsz s1 = ser_bufsz s"
    using getchar_waits [OF assms(1,2), of ops] by auto
  have "finsh_thread run tbl ops m sh s = Some (sh, s1)"
    using s1(1) by (subst finsh_thread.simps) simp
  moreover obtain s2 where s2: "rt_hw_serial_isr ops (finsh_rx_ind m) 1 s1 = Some s2" "rx_holds s2 xs" "wakes (Sem_q m) t [] (ser_k s1) (ser_k s2)"
    using isr_wakes [OF s1(2,3), of ops xs h'] assms(3,4,5) s1(4,5) by (auto simp: last_n_all)
  moreover have "\<exists>s3. finsh_thread run tbl ops m sh (s2\<lparr>ser_k := k\<rparr>) = Some (sh', s3) \<and> rx_holds s3 [] \<and> shell_waits m t (ser_k s3)"
    if "shell_runs m t k" for k
    using finsh_thread_runs [of "s2\<lparr>ser_k := k\<rparr>" xs m t run tbl sh sh' ops] s2(2) that assms(6) by auto
  ultimately show ?thesis using s1(3) by blast
qed

theorem finsh_console_input_witness:
  "\<exists>sh s1 s2. finsh_keys note_run [] [97, 98] (shell_start []) = Some sh
    \<and> finsh_thread note_run [] sample_uart 11 (shell_start []) ((sample_serial [97, 98])\<lparr>ser_rx_indicate := Some 0\<rparr>) = Some (shell_start [], s1)
    \<and> rt_hw_serial_isr sample_uart (finsh_rx_ind 11) 1 s1 = Some s2
    \<and> (\<exists>s3. finsh_thread note_run [] sample_uart 11 (shell_start []) (s2\<lparr>ser_k := sample_kernel\<rparr>) = Some (sh, s3))"
proof -
  let ?s = "(sample_serial [97, 98])\<lparr>ser_rx_indicate := Some 0\<rparr>"
  have "buffer_at (shell_start w) [] []" "sh_stat (shell_start w) = WAIT_NORMAL" for w :: "u8 list list list"
    by (simp_all add: buffer_at_def shell_start_def padded_def text_ok_def)
  then obtain sh where sh: "finsh_keys note_run [] [97, 98] (shell_start []) = Some sh"
    using normal_keys_run [of "shell_start []" "[]" "[97, 98]" note_run "[]"] by (auto simp: plain_def)
  have "may_block 2 sample_kernel" by (auto simp: may_block_def sample_kernel_state intro: exI [of _ 1])
  moreover have "o_flag (k_obj sample_kernel (K_sem 11)) = 0" "k_list sample_kernel (Sem_q 11) = []"
    by (simp_all add: sample_kernel_def kernel_zero_def sample_object_def)
  ultimately have k: "shell_runs 11 2 sample_kernel"
    using sample_kernel_live sample_kernel_types(3) [of 11] by (simp add: shell_runs_def)
  have r: "rx_holds ?s []" "uart_delivers sample_uart (ser_hw ?s) [97, 98] ([], [])" "ser_k ?s = sample_kernel" "length [97, 98 :: u8] < ser_bufsz ?s"
    using sample_fifo by (simp_all add: rx_holds_def ser_has_def sample_serial_def sample_uart_def ser_bufsz_def)
  show ?thesis
    using finsh_console_input [OF r(1) _ r(2) _ r(4) sh, of 11 2] k r(3) sh by auto
qed

end
