(* ===== verification/Spec2Isabelle.thy ===== *)
theory Spec2Isabelle
  imports RingBuffer Heap_Spec Kernel_Tick Kernel_Step Event_Spec RtList RingBlk Mempool DataQueue Device Heap_Clients Completion WorkQueue_Step WaitQueue Console
begin

text \<open>
  A verification library for the RT-Thread kernel of this repository (\<^verbatim>\<open>os/\<close>, version 3.1.5 in the configuration of
  \<^verbatim>\<open>board/rtconfig.h\<close>: 32 priorities, one processor, the small memory allocator, hard timers, assertions on) for the
  queues and the serial device of its driver framework (\<^verbatim>\<open>components/drivers\<close>), and for its shell (\<^verbatim>\<open>components/finsh\<close>). Paths are relative to \<^verbatim>\<open>src/\<close>.

  \<^bold>\<open>The program.\<close> Threads and interrupt handlers call the kernel. Every kernel object (thread, timer, semaphore, mutex,
  event set, mailbox, message queue, memory pool, device) starts with an object header and is registered in the list of its
  class. A thread is linked, by one list node, to the ready queue of its priority, to the waiting list of the object it
  waits for, to the list of the closed threads, or to nothing. The scheduler runs the first thread of the highest
  ready queue. A call that waits suspends its thread, arms the timer of the thread, and reschedules; it is finished when
  the thread runs again, woken by another call or by its timer. The tick interrupt advances the clock, ends time
  slices and calls the timers that are due. The heap, the memory pools and the queues of the drivers are used by
  all of them with interrupts disabled.

  \<^bold>\<open>Conventions.\<close> A kernel operation is a function from the state to \<open>option\<close>: \<open>None\<close> is a failed \<^verbatim>\<open>RT_ASSERT\<close>, a null
  pointer that is followed, an access out of an array, or a loop that does not end; error codes are integers as in
  the code. A kernel operation runs as a whole, as if no interrupt arrived before it ends or waits; where the code enables interrupts in between and
  the properties are about interleavings, the operation is split there (\<open>Kernel_Step\<close> for \<^verbatim>\<open>rt_thread_resume\<close>, \<open>WorkQueue_Step\<close> for the work queue). Linked lists are sequences in the kernel state; \<open>RtList\<close> proves
  that the pointer operations of \<^verbatim>\<open>rtservice.h\<close> implement the operations on sequences. A waiting call is split at the context
  switch: its first half returns \<open>Wait\<close> with what it still has to do, its \<open>_cont\<close> function is the second half. Ticks,
  flags and event sets are words; sizes and addresses are natural numbers with the reduction modulo a power of two
  written out where the code can wrap around. No definition uses fuel: loops are structural, have a termination proof, or are
  \<open>partial_function (option)\<close>, and the properties about them prove that they return.

  \<^bold>\<open>The theories.\<close>
  \<^item> \<open>Prelude\<close>, \<open>Fifo\<close>: types and error codes of \<^verbatim>\<open>rtdef.h\<close>, arrays, simplification rules; the contract \<open>bounded_fifo\<close> of a queue,
    whose consequences hold for every interpretation: ring buffer, mailbox, message queue, data queue.
  \<^item> \<open>RtList\<close>: the doubly and singly linked lists of \<^verbatim>\<open>os/include/rtservice.h\<close> by their link fields, and their refinement to sequences.
  \<^item> \<open>Kernel_State\<close>: the records of \<^verbatim>\<open>rtdef.h\<close> and the global variables of the kernel, a sample system for the witnesses.
  \<^item> \<open>Scheduler\<close> (\<^verbatim>\<open>scheduler.c\<close>, \<^verbatim>\<open>__rt_ffs\<close> of \<^verbatim>\<open>cpuport.c\<close> and of \<^verbatim>\<open>kservice.c\<close>), \<open>Object\<close> (\<^verbatim>\<open>object.c\<close>), \<open>Timer\<close> (\<^verbatim>\<open>timer.c\<close>),
    \<open>Thread\<close> (\<^verbatim>\<open>thread.c\<close>), \<open>Clock\<close> (\<^verbatim>\<open>clock.c\<close>, \<^verbatim>\<open>irq.c\<close>, \<^verbatim>\<open>idle.c\<close>, the loop of \<^verbatim>\<open>rt_timer_check\<close>): one definition per function, the
    scheduler invariant \<open>sched_wf\<close>, the order of the timer list up to wrap-around of the tick.
  \<^item> \<open>Ipc\<close>, \<open>Mutex\<close>, \<open>Event\<close>, \<open>Mailbox\<close>, \<open>MsgQueue\<close> (\<^verbatim>\<open>ipc.c\<close>): waiting queues, semaphore, mutex with priority inheritance, event
    set, mailbox, message queue over its linked blocks.
  \<^item> \<open>Kernel_Inv\<close>: the contract \<open>kernel_invariant\<close> between an invariant and the few primitive changes of the kernel state; inside
    it every operation of \<^verbatim>\<open>ipc.c\<close> keeps the invariant. Interpreted for the scheduler invariant, for the full invariant
    \<open>kernel_inv\<close> with sorted timers and mutex priorities, for the scheduler lock, and (in \<open>Kernel_Calls\<close>) for "the running thread has the highest
    priority". \<open>Kernel_Tick\<close>: the tick interrupt keeps it, and calls the timers that are due.
  \<^item> \<open>Kernel_Step\<close>: the system as a step relation over calls of the running thread, the two sections of \<^verbatim>\<open>rt_thread_resume\<close>, continuations of
    waiting calls, calls of interrupt handlers and ticks; reachable states satisfy the invariant, and outside of critical sections a call
    leaves the thread with the highest priority of the ready ones running. The rules for calls that the kernel does not check are \<open>call_ok\<close>.
  \<^item> \<open>Waiting\<close>, \<open>Ipc_Spec\<close>, \<open>Queue_Spec\<close>, \<open>Event_Spec\<close>: total correctness of the calls in live kernels, every branch: counting and
    hand-over, the order of waiting queues, priority inheritance, first-in first-out delivery, which threads an event wakes.
  \<^item> \<open>Heap\<close>, \<open>Heap_Spec\<close> (\<^verbatim>\<open>mem.c\<close>): the allocator on its headers and bytes, as a sequence of blocks without neighbouring free
    ones; first fit, coalescing, disjointness over all runs, contents kept by \<^verbatim>\<open>rt_realloc\<close>.
  \<^item> \<open>Heap_Clients\<close>: \<^verbatim>\<open>rt_strdup\<close>, \<^verbatim>\<open>rt_malloc_align\<close>, \<^verbatim>\<open>rt_free_align\<close> and the creation of ring buffers on top of the heap.
  \<^item> \<open>Mempool\<close> (\<^verbatim>\<open>mempool.c\<close>): the free list through the words in front of the blocks; no block is handed out twice.
  \<^item> \<open>Kservice_Mem\<close>, \<open>Kservice_Format\<close>, \<open>Kservice_Print\<close> (\<^verbatim>\<open>kservice.c\<close>): memory and string routines over a byte memory against
    their byte-wise meaning; formatted output with the 32-bit cursor and field widths of the code, the bounds within which it stays in
    its buffer, and reading back decimal numbers.
  \<^item> \<open>Device\<close> (\<^verbatim>\<open>device.c\<close> and the console of \<^verbatim>\<open>kservice.c\<close>): devices with their drivers as a parameter, counting of users, error
    results, what the console prints.
  \<^item> \<open>RingBuffer\<close>, \<open>RingBlk\<close>, \<open>DataQueue\<close> (\<^verbatim>\<open>ringbuffer.c\<close>, \<^verbatim>\<open>ringblk_buf.c\<close>, \<^verbatim>\<open>dataqueue.c\<close>): the queues of the driver framework.
  \<^item> \<open>Completion\<close> (\<^verbatim>\<open>completion.c\<close>): a flag to wait for, over the waiting queues of the kernel.
  \<^item> \<open>WorkQueue\<close>, \<open>WorkQueue_Step\<close> (\<^verbatim>\<open>workqueue.c\<close>): work items, delayed submission by timers, the thread of a queue; waiting cancellations are
    woken. The calls, the thread and the timer callbacks as activities with a program counter, one section at a time: in every interleaving
    an item is queued at most once; when its pending flag is exact; and what goes wrong when an item is cancelled before the thread runs.
  \<^item> \<open>WaitQueue\<close> (\<^verbatim>\<open>waitqueue.c\<close>): the polling queue of drivers; which node a wake-up takes, and when it is kept or lost.
  \<^item> \<open>Serial_Fifo\<close>, \<open>Serial\<close> (\<^verbatim>\<open>serial.c\<close>): the receive buffer of a serial device, filled by interrupts or by DMA, refined to "the last
    bytes that fit"; opening, reading, writing, control, closing and the interrupt handler of the device.
  \<^item> \<open>Msh\<close> (\<^verbatim>\<open>components/finsh/msh.c\<close>): splitting a command line into words, looking a command up, calling it, completing a name, against a
    reference splitter and the longest common prefix. \<open>Shell\<close> (\<^verbatim>\<open>components/finsh/shell.c\<close>): the line editor, key by key, refined to an abstract
    editor with a cursor and a history; what the terminal shows of the texts that \<^verbatim>\<open>rt_kprintf\<close> cuts to its
    buffer; what a line of the size of the buffer does.
  \<^item> \<open>Console\<close> (\<^verbatim>\<open>finsh_getchar\<close>, \<^verbatim>\<open>finsh_rx_ind\<close>): serial device, semaphore, scheduler and line editor together; bytes that arrive while the
    shell waits wake its thread, which handles each of them once and in order.

  \<^bold>\<open>Parameters and hypotheses.\<close> User code is a parameter: timer callbacks, idle hooks and cleanup functions (\<open>user_fun\<close>), drivers
  (\<open>driver\<close>), the callback of a data queue (\<open>dq_callback\<close>), the wake-up functions of polling nodes (\<open>wakeup_fun\<close>),
  the hardware of a serial line (\<open>rt_uart_ops\<close>) and the functions it notifies (\<open>serial_cb\<close>), the commands of the
  shell (\<open>cmd_functions\<close>). Where a property depends on what they do, a hypothesis says
  it: \<open>callback_calls\<close> (a timer callback makes only calls allowed in an interrupt), \<open>steady_driver\<close> (a driver succeeds and leaves
  the control block alone), \<open>quiet_callback\<close>. Timeouts are below half of the range of the tick, as \<^verbatim>\<open>rt_timer_start\<close> asserts.

  \<^bold>\<open>Not modelled.\<close> The context switch of \<^verbatim>\<open>libcpu\<close> beyond the change of the running thread, and the contents of stacks except their
  end marks; debug and object hooks; code that only prints; soft timers, skip lists with more than one level, \<^verbatim>\<open>memheap.c\<close>, \<^verbatim>\<open>slab.c\<close>,
  \<^verbatim>\<open>signal.c\<close> and \<^verbatim>\<open>cpu.c\<close>, which the configuration leaves out; pipes, which need POSIX; the start-up sequence, whose
  order is that of linker sections; register-level drivers, the expression
  interpreter of the shell, which \<^verbatim>\<open>FINSH_USING_MSH_ONLY\<close> leaves out, and its commands, the network stack, the C library and the vendor and graphics
  libraries. Reads and writes of caller memory are in the same step as the queue operation they belong to.
\<close>

end
